(* ===== verification/Prelude.thy ===== *)
theory Prelude
  imports Main "HOL-Library.Word" "HOL-Library.Multiset"
begin

text \<open>
  Shared vocabulary of the development.

  \<^item> Machine integers: \<open>u8\<close>, \<open>u16\<close>, \<open>u32\<close> and \<open>u64\<close> stand for the C and C++ types
    \<open>uint8_t\<close> to \<open>uint64_t\<close> (\<open>size_t\<close> is \<open>u64\<close>: the code targets x86-64).
  \<^item> Outcomes: an operation that can go wrong returns \<open>c_error + 'a\<close>. \<open>UB\<close> is undefined
    behaviour of C or C++ (an access outside an array or object, a division by zero, a
    null dereference), \<open>Exited\<close> is \<open>exit(1)\<close>, \<open>Spins\<close> is a busy loop that never ends,
    \<open>AssertFail\<close> is a failed \<open>assert\<close> and \<open>Thrown\<close> is a C++ exception.
  \<^item> \<open>bindR\<close> sequences two such operations: the first error wins.
  \<^item> Byte access in little-endian order, bit rotation, and the facts on words, lists and
    multisets that several components use.
\<close>

unbundle bit_operations_syntax

section \<open>Machine types and outcomes\<close>

type_synonym u8 = "8 word"
type_synonym u16 = "16 word"
type_synonym u32 = "32 word"
type_synonym u64 = "64 word"

datatype c_error = UB | Exited | Spins | AssertFail | Thrown

named_theorems outcome_simps \<open>unfolding rules for operations that may fail\<close>

fun bindR :: "c_error + 'a \<Rightarrow> ('a \<Rightarrow> c_error + 'b) \<Rightarrow> c_error + 'b" where
  "bindR (Inl e) f = Inl e"
| "bindR (Inr x) f = f x"

lemma bindR_Inr_iff: "bindR m f = Inr y \<longleftrightarrow> (\<exists>x. m = Inr x \<and> f x = Inr y)"
  by (cases m) auto

lemma bindR_assoc: "bindR (bindR m f) g = bindR m (\<lambda>x. bindR (f x) g)"
  by (cases m) auto

text \<open>Reading an array element: outside the array it is undefined behaviour.\<close>

definition nthR :: "'a list \<Rightarrow> nat \<Rightarrow> c_error + 'a" where
  "nthR xs i = (if i < length xs then Inr (xs ! i) else Inl UB)"

lemma nthR_Inr [simp]: "i < length xs \<Longrightarrow> nthR xs i = Inr (xs ! i)"
  by (simp add: nthR_def)

lemma nthR_UB [simp]: "\<not> i < length xs \<Longrightarrow> nthR xs i = Inl UB"
  by (simp add: nthR_def)

definition assertR :: "bool \<Rightarrow> c_error + unit" where
  "assertR b = (if b then Inr () else Inl AssertFail)"

lemma assertR_simps [simp]:
  "assertR True = Inr ()" "assertR False = Inl AssertFail"
  by (simp_all add: assertR_def)

section \<open>Bytes\<close>

text \<open>The value of a byte sequence in little-endian order, as an x86-64 load reads it.\<close>

fun le_bytes :: "u8 list \<Rightarrow> 'a::len word" where
  "le_bytes [] = 0"
| "le_bytes (b # bs) = ucast b OR push_bit 8 (le_bytes bs)"

text \<open>An \<open>n\<close>-byte load at offset \<open>p\<close> of an object whose bytes are \<open>data\<close>.\<close>

definition loadR :: "nat \<Rightarrow> u8 list \<Rightarrow> nat \<Rightarrow> c_error + 'a::len word" where
  "loadR n data p =
     (if p + n \<le> length data then Inr (le_bytes (take n (drop p data))) else Inl UB)"

lemma loadR_Inr: "p + n \<le> length data \<Longrightarrow> loadR n data p = Inr (le_bytes (take n (drop p data)))"
  by (simp add: loadR_def)

lemma loadR_take: "p + n \<le> m \<Longrightarrow> m \<le> length data \<Longrightarrow> loadR n (take m data) p = loadR n data p"
  by (simp add: loadR_def drop_take min_def)

text \<open>
  The C string functions on a readable object. \<open>strlen\<close> is undefined when the object holds
  no terminator; \<open>strcmp\<close> is undefined when it reads past the end of either object.
\<close>

fun c_strlen :: "u8 list \<Rightarrow> c_error + nat" where
  "c_strlen [] = Inl UB"
| "c_strlen (b # bs) = (if b = 0 then Inr 0 else bindR (c_strlen bs) (\<lambda>n. Inr (Suc n)))"

fun c_strcmp_eq :: "u8 list \<Rightarrow> u8 list \<Rightarrow> c_error + bool" where
  "c_strcmp_eq (a # as) (b # bs) =
     (if a \<noteq> b then Inr False else if a = 0 then Inr True else c_strcmp_eq as bs)"
| "c_strcmp_eq _ _ = Inl UB"

text \<open>The characters of a C string, without its terminator.\<close>

definition c_str :: "u8 list \<Rightarrow> u8 list" where
  "c_str bs = takeWhile (\<lambda>b. b \<noteq> 0) bs"

lemma c_strlen_Inr: "0 \<in> set bs \<Longrightarrow> c_strlen bs = Inr (length (c_str bs))"
  by (induction bs) (auto simp: c_str_def)

lemma c_strlen_iff: "c_strlen bs = Inr n \<longleftrightarrow> 0 \<in> set bs \<and> n = length (c_str bs)"
  by (induction bs arbitrary: n) (auto simp: c_str_def bindR_Inr_iff)

lemma c_str_less: "0 \<in> set bs \<Longrightarrow> length (c_str bs) < length bs"
  by (induction bs) (auto simp: c_str_def)

text \<open>A comparison with a terminated string never reads past an object at least as long.\<close>

lemma c_strcmp_eq_Inr:
  "0 \<in> set bs \<Longrightarrow> length (c_str bs) < length as \<Longrightarrow>
   c_strcmp_eq as bs = Inr (c_str as = c_str bs)"
proof (induction as bs rule: c_strcmp_eq.induct)
  case (1 a as b bs)
  then show ?case by (auto simp: c_str_def)
qed (auto simp: c_str_def)

lemma c_str_take: "0 \<in> set (take n bs) \<Longrightarrow> c_str (take n bs) = c_str bs"
proof (induction bs arbitrary: n)
  case (Cons b bs)
  then show ?case by (cases n) (auto simp: c_str_def)
qed simp

lemma zero_in_take: "0 \<in> set bs \<Longrightarrow> length (c_str bs) < n \<Longrightarrow> 0 \<in> set (take n bs)"
proof (induction bs arbitrary: n)
  case (Cons b bs)
  then show ?case by (cases n) (auto simp: c_str_def split: if_splits)
qed simp

section \<open>Words\<close>

definition rotl64 :: "u64 \<Rightarrow> nat \<Rightarrow> u64" where
  "rotl64 x r = (push_bit r x OR drop_bit (64 - r) x)"

definition rotr64 :: "u64 \<Rightarrow> nat \<Rightarrow> u64" where
  "rotr64 x n = (drop_bit n x OR push_bit (64 - n) x)"

lemma unat_of_nat_u64: "n < 2 ^ 64 \<Longrightarrow> unat (of_nat n :: u64) = n"
  by (simp add: unat_of_nat take_bit_nat_eq_self)

lemma unat_pow2_u64: "n < 64 \<Longrightarrow> unat (2 ^ n :: u64) = 2 ^ n"
  using unat_of_nat_u64 [of "2 ^ n"] power_strict_increasing [of n 64 "2 :: nat"] by simp

lemma unat_bound_u64: "unat (x :: u64) < 2 ^ 64"
  using unsigned_less [of x] by simp

text \<open>Multiplication by an odd constant and a right xor-shift lose no information; the
  finalisers of the hash functions are built from these two steps.\<close>

lemma mult_word_inj:
  assumes "c * d = (1 :: 'a::len word)"
  shows "inj (\<lambda>x. x * c)"
proof (rule injI)
  fix x y assume "x * c = y * c"
  then have "x * c * d = y * c * d" by simp
  then show "x = y" using assms by (simp add: mult.assoc)
qed

lemma xorshift_inj:
  fixes x y :: "'a::len word"
  assumes n: "0 < n" and eq: "x XOR drop_bit n x = y XOR drop_bit n y"
  shows "x = y"
proof (rule bit_word_eqI)
  fix k assume k: "k < LENGTH('a)"
  show "bit x k = bit y k"
    using k
  proof (induction "LENGTH('a) - k" arbitrary: k rule: less_induct)
    case less
    have "bit (x XOR drop_bit n x) k = bit (y XOR drop_bit n y) k"
      by (simp add: eq)
    then have e: "(bit x k \<noteq> bit x (n + k)) = (bit y k \<noteq> bit y (n + k))"
      by (simp add: bit_xor_iff bit_drop_bit_eq)
    have "bit x (n + k) = bit y (n + k)"
    proof (cases "n + k < LENGTH('a)")
      case True
      then show ?thesis using less n by simp
    next
      case False
      then show ?thesis by (auto dest: bit_imp_le_length)
    qed
    with e show ?case by blast
  qed
qed

lemma inj_xorshift: "0 < n \<Longrightarrow> inj (\<lambda>x :: 'a::len word. x XOR drop_bit n x)"
  by (rule injI) (rule xorshift_inj)

section \<open>Lists and multisets\<close>

lemma nth_list_update_case:
  "i < length xs \<Longrightarrow> (xs[i := v]) ! j = (if i = j then v else xs ! j)"
  by auto

text \<open>A multiset indexed by a finite set of positions, and how it changes with the set.\<close>

lemma image_mset_insert_pos:
  assumes "finite A" "p \<notin> A" "\<And>q. q \<in> A \<Longrightarrow> g q = f q"
  shows "image_mset g (mset_set (insert p A)) = add_mset (g p) (image_mset f (mset_set A))"
proof -
  have "image_mset g (mset_set A) = image_mset f (mset_set A)"
    using assms by (intro image_mset_cong) auto
  then show ?thesis using assms by simp
qed

lemma image_mset_remove_pos:
  assumes "finite A" "p \<in> A" "\<And>q. q \<in> A - {p} \<Longrightarrow> g q = f q"
  shows "image_mset f (mset_set A) = add_mset (f p) (image_mset g (mset_set (A - {p})))"
proof -
  have "image_mset g (mset_set (A - {p})) = image_mset f (mset_set (A - {p}))"
    using assms by (intro image_mset_cong) auto
  moreover have "mset_set A = add_mset p (mset_set (A - {p}))"
    using assms by (simp add: mset_set.remove)
  ultimately show ?thesis by simp
qed

text \<open>Searching a list.\<close>

lemma find_append:
  "find P (xs @ ys) = (case find P xs of None \<Rightarrow> find P ys | Some x \<Rightarrow> Some x)"
  by (induction xs) auto

lemma find_map: "find P (map f xs) = map_option f (find (\<lambda>x. P (f x)) xs)"
  by (induction xs) auto

lemma find_SomeD: "find P xs = Some q \<Longrightarrow> q \<in> set xs \<and> P q"
  by (auto simp: find_Some_iff)

end
