(* ===== verification/StringHash.thy ===== *)
theory StringHash
  imports Prelude
begin

text \<open>
  The string hash of the level hash table (\<open>src/levelhash/hash.c\<close>): a 64-bit xxHash-style
  function over the bytes of a key. A pointer is an offset into the byte object \<open>data\<close>; a load
  outside the object is undefined behaviour. The theory shows that \<open>hash\<close> reads only the
  first \<open>length\<close> bytes, that the alignment of the key never changes the result, and that the
  final mixing is injective.
\<close>

section \<open>Constants and loads\<close>

definition NUMBER64_1 :: u64 where "NUMBER64_1 = 11400714785074694791"
definition NUMBER64_2 :: u64 where "NUMBER64_2 = 14029467366897019727"
definition NUMBER64_3 :: u64 where "NUMBER64_3 = 1609587929392839161"
definition NUMBER64_4 :: u64 where "NUMBER64_4 = 9650029242287828579"
definition NUMBER64_5 :: u64 where "NUMBER64_5 = 2870177450012600261"

lemmas number64_defs =
  NUMBER64_1_def NUMBER64_2_def NUMBER64_3_def NUMBER64_4_def NUMBER64_5_def

definition shifting_hash :: "u64 \<Rightarrow> nat \<Rightarrow> u64" where
  "shifting_hash x r = (push_bit r x OR drop_bit (64 - r) x)"

text \<open>Both branches load the same eight (four) bytes; the first goes through a struct.\<close>

definition hash_read64_align :: "u8 list \<Rightarrow> nat \<Rightarrow> u32 \<Rightarrow> c_error + u64" where
  "hash_read64_align data p align =
     (if align = 0 then loadR 8 data p else loadR 8 data p)"

definition hash_read32_align :: "u8 list \<Rightarrow> nat \<Rightarrow> u32 \<Rightarrow> c_error + u32" where
  "hash_read32_align data p align =
     (if align = 0 then loadR 4 data p else loadR 4 data p)"

section \<open>The hash computation\<close>

text \<open>One accumulator step of the 32-byte loop, and the merge of an accumulator.\<close>

definition hash_round :: "u64 \<Rightarrow> u64 \<Rightarrow> u64" where
  "hash_round v k = shifting_hash (v + k * NUMBER64_2) 31 * NUMBER64_1"

definition hash_merge :: "u64 \<Rightarrow> u64 \<Rightarrow> u64" where
  "hash_merge h v = (h XOR hash_round 0 v) * NUMBER64_1 + NUMBER64_4"

text \<open>The \<open>do ... while (p <= limitation)\<close> loop over 32-byte stripes.\<close>

function stripe_loop ::
  "u8 list \<Rightarrow> u32 \<Rightarrow> nat \<Rightarrow> nat \<Rightarrow> u64 \<times> u64 \<times> u64 \<times> u64 \<Rightarrow>
   c_error + nat \<times> u64 \<times> u64 \<times> u64 \<times> u64" where
  "stripe_loop data align limitation p (v1, v2, v3, v4) =
     bindR (hash_read64_align data p align) (\<lambda>k1.
     bindR (hash_read64_align data (p + 8) align) (\<lambda>k2.
     bindR (hash_read64_align data (p + 16) align) (\<lambda>k3.
     bindR (hash_read64_align data (p + 24) align) (\<lambda>k4.
       let w1 = hash_round v1 k1; w2 = hash_round v2 k2;
           w3 = hash_round v3 k3; w4 = hash_round v4 k4
       in if p + 32 \<le> limitation
          then stripe_loop data align limitation (p + 32) (w1, w2, w3, w4)
          else Inr (p + 32, w1, w2, w3, w4)))))"
  by pat_completeness auto
termination
  by (relation "measure (\<lambda>(data, align, limitation, p, v). limitation + 1 - p)") auto

declare stripe_loop.simps [simp del]

text \<open>The start of the hash: the striped accumulators for 32 bytes or more, the seed otherwise.\<close>

definition hash_start :: "u8 list \<Rightarrow> nat \<Rightarrow> u64 \<Rightarrow> u32 \<Rightarrow> c_error + nat \<times> u64" where
  "hash_start data len seed align =
     (if 32 \<le> len then
        bindR (stripe_loop data align (len - 32) 0
                 (seed + NUMBER64_1 + NUMBER64_2, seed + NUMBER64_2, seed + 0, seed - NUMBER64_1))
          (\<lambda>(p, v1, v2, v3, v4).
             let h = shifting_hash v1 1 + shifting_hash v2 7 + shifting_hash v3 12 +
                     shifting_hash v4 18
             in Inr (p, hash_merge (hash_merge (hash_merge (hash_merge h v1) v2) v3) v4))
      else Inr (0, seed + NUMBER64_5))"

text \<open>The remaining 8-byte words, the optional 4-byte word and the remaining bytes.\<close>

function tail8 :: "u8 list \<Rightarrow> u32 \<Rightarrow> nat \<Rightarrow> nat \<Rightarrow> u64 \<Rightarrow> c_error + nat \<times> u64" where
  "tail8 data align end p h =
     (if p + 8 \<le> end then
        bindR (hash_read64_align data p align) (\<lambda>k1.
          tail8 data align end (p + 8)
            (shifting_hash (h XOR hash_round 0 k1) 27 * NUMBER64_1 + NUMBER64_4))
      else Inr (p, h))"
  by pat_completeness auto
termination
  by (relation "measure (\<lambda>(data, align, end, p, h). end - p)") auto

declare tail8.simps [simp del]

definition tail4 :: "u8 list \<Rightarrow> u32 \<Rightarrow> nat \<Rightarrow> nat \<Rightarrow> u64 \<Rightarrow> c_error + nat \<times> u64" where
  "tail4 data align end p h =
     (if p + 4 \<le> end then
        bindR (hash_read32_align data p align) (\<lambda>k.
          Inr (p + 4, shifting_hash (h XOR (ucast k * NUMBER64_1)) 23 * NUMBER64_2 + NUMBER64_3))
      else Inr (p, h))"

function tail1 :: "u8 list \<Rightarrow> nat \<Rightarrow> nat \<Rightarrow> u64 \<Rightarrow> c_error + u64" where
  "tail1 data end p h =
     (if p < end then
        bindR (nthR data p) (\<lambda>b.
          tail1 data end (p + 1) (shifting_hash (h XOR (ucast b * NUMBER64_5)) 11 * NUMBER64_1))
      else Inr h)"
  by pat_completeness auto
termination
  by (relation "measure (\<lambda>(data, end, p, h). end - p)") auto

declare tail1.simps [simp del]

definition hash_final :: "u64 \<Rightarrow> u64" where
  "hash_final h0 =
     (let h1 = h0 XOR drop_bit 33 h0;
          h2 = h1 * NUMBER64_2;
          h3 = h2 XOR drop_bit 29 h2;
          h4 = h3 * NUMBER64_3
      in h4 XOR drop_bit 32 h4)"

definition string_key_hash_computation ::
  "u8 list \<Rightarrow> u64 \<Rightarrow> u64 \<Rightarrow> u32 \<Rightarrow> c_error + u64" where
  "string_key_hash_computation data len seed align =
     bindR (hash_start data (unat len) seed align) (\<lambda>(p, h).
     bindR (tail8 data align (unat len) p (h + len)) (\<lambda>(p8, h8).
     bindR (tail4 data align (unat len) p8 h8) (\<lambda>(p4, h4).
     bindR (tail1 data (unat len) p4 h4) (\<lambda>h1.
       Inr (hash_final h1)))))"

text \<open>The entry point looks at the address of the key only to pick the kind of load.\<close>

definition hash :: "u64 \<Rightarrow> u8 list \<Rightarrow> u64 \<Rightarrow> u64 \<Rightarrow> c_error + u64" where
  "hash addr data len seed =
     (if addr AND 7 = 0 then string_key_hash_computation data len seed 1
      else string_key_hash_computation data len seed 0)"

section \<open>Memory safety and independence of the alignment\<close>

text \<open>
  Each phase is total on an object of at least \<open>end\<close> bytes, and its result is a function of
  the first \<open>end\<close> bytes, the same for both kinds of load.
\<close>

lemma read64_prefix:
  "p + 8 \<le> end \<Longrightarrow> end \<le> length data \<Longrightarrow>
   hash_read64_align (take end data) p align' = hash_read64_align data p align"
  by (simp add: hash_read64_align_def loadR_take)

lemma read64_total:
  "p + 8 \<le> length data \<Longrightarrow> \<exists>k. hash_read64_align data p align = Inr k"
  by (simp add: hash_read64_align_def loadR_Inr)

lemma stripe_loop_safe:
  assumes "p \<le> limitation" "limitation + 32 \<le> length data"
  shows "\<exists>q r. stripe_loop data align limitation p v = Inr (q, r) \<and> q \<le> limitation + 32 \<and>
     stripe_loop (take (limitation + 32) data) align' limitation p v = Inr (q, r)"
  using assms
proof (induction data align limitation p v rule: stripe_loop.induct)
  case (1 data align limitation p v1 v2 v3 v4)
  have rd: "\<exists>k. hash_read64_align data (p + d) align = Inr k \<and>
      hash_read64_align (take (limitation + 32) data) (p + d) align' = Inr k" if "d \<le> 24" for d
    using "1.prems" that read64_total [of "p + d" data align]
      read64_prefix [of "p + d" "limitation + 32" data align' align] by auto
  obtain k1 k2 k3 k4 where
    k: "hash_read64_align data p align = Inr k1" "hash_read64_align data (p + 8) align = Inr k2"
      "hash_read64_align data (p + 16) align = Inr k3" "hash_read64_align data (p + 24) align = Inr k4"
    and k': "hash_read64_align (take (limitation + 32) data) p align' = Inr k1"
      "hash_read64_align (take (limitation + 32) data) (p + 8) align' = Inr k2"
      "hash_read64_align (take (limitation + 32) data) (p + 16) align' = Inr k3"
      "hash_read64_align (take (limitation + 32) data) (p + 24) align' = Inr k4"
    using rd [of 0] rd [of 8] rd [of 16] rd [of 24] by auto
  show ?case
  proof (cases "p + 32 \<le> limitation")
    case True
    then show ?thesis
      using "1.IH" [OF refl refl refl refl True] "1.prems"
      by (simp add: stripe_loop.simps [of _ _ _ p] k k' Let_def)
  next
    case False
    then show ?thesis
      using "1.prems" by (simp add: stripe_loop.simps [of _ _ _ p] k k' Let_def)
  qed
qed

lemma hash_start_safe:
  assumes "len \<le> length data"
  shows "\<exists>p h. hash_start data len seed align = Inr (p, h) \<and> p \<le> len \<and>
     hash_start (take len data) len seed align' = Inr (p, h)"
proof (cases "32 \<le> len")
  case True
  then obtain q r where "stripe_loop data align (len - 32) 0
        (seed + NUMBER64_1 + NUMBER64_2, seed + NUMBER64_2, seed + 0, seed - NUMBER64_1) = Inr (q, r)"
      "q \<le> len"
      "stripe_loop (take len data) align' (len - 32) 0
        (seed + NUMBER64_1 + NUMBER64_2, seed + NUMBER64_2, seed + 0, seed - NUMBER64_1) = Inr (q, r)"
    using assms stripe_loop_safe [of 0 "len - 32" data align _ align'] by fastforce
  then show ?thesis
    using True by (cases r) (simp add: hash_start_def Let_def)
qed (simp add: hash_start_def)

lemma tail8_safe:
  assumes "p \<le> end" "end \<le> length data"
  shows "\<exists>q g. tail8 data align end p h = Inr (q, g) \<and> q \<le> end \<and>
     tail8 (take end data) align' end p h = Inr (q, g)"
  using assms
proof (induction data align "end" p h rule: tail8.induct)
  case (1 data align "end" p h)
  show ?case
  proof (cases "p + 8 \<le> end")
    case True
    then obtain k where k: "hash_read64_align data p align = Inr k"
        "hash_read64_align (take end data) p align' = Inr k"
      using "1.prems" read64_total [of p data align] read64_prefix [of p "end" data align' align] by auto
    then show ?thesis
      using "1.IH" [OF True] "1.prems" True
      by (simp add: tail8.simps [of _ _ _ p] k)
  next
    case False
    then show ?thesis using "1.prems" by (simp add: tail8.simps [of _ _ _ p])
  qed
qed

lemma tail4_safe:
  assumes "p \<le> end" "end \<le> length data"
  shows "\<exists>q g. tail4 data align end p h = Inr (q, g) \<and> q \<le> end \<and>
     tail4 (take end data) align' end p h = Inr (q, g)"
  using assms by (auto simp: tail4_def hash_read32_align_def loadR_def drop_take min_def)

lemma tail1_safe:
  assumes "end \<le> length data"
  shows "\<exists>g. tail1 data end p h = Inr g \<and> tail1 (take end data) end p h = Inr g"
  using assms
proof (induction data "end" p h rule: tail1.induct)
  case (1 data "end" p h)
  then show ?case
    by (cases "p < end") (simp_all add: tail1.simps [of _ _ p])
qed

lemma string_hash_prefix:
  assumes x: "unat len \<le> length x"
  shows "\<exists>h. string_key_hash_computation x len seed a = Inr h \<and>
      string_key_hash_computation (take (unat len) x) len seed a' = Inr h"
proof -
  let ?n = "unat len"
  obtain p h where s: "hash_start x ?n seed a = Inr (p, h)" "p \<le> ?n"
      "hash_start (take ?n x) ?n seed a' = Inr (p, h)"
    using hash_start_safe [OF x] by blast
  obtain p8 h8 where t8: "tail8 x a ?n p (h + len) = Inr (p8, h8)" "p8 \<le> ?n"
      "tail8 (take ?n x) a' ?n p (h + len) = Inr (p8, h8)"
    using tail8_safe [OF s(2) x] by blast
  obtain p4 h4 where t4: "tail4 x a ?n p8 h8 = Inr (p4, h4)"
      "tail4 (take ?n x) a' ?n p8 h8 = Inr (p4, h4)"
    using tail4_safe [OF t8(2) x] by blast
  obtain h1 where "tail1 x ?n p4 h4 = Inr h1" "tail1 (take ?n x) ?n p4 h4 = Inr h1"
    using tail1_safe [OF x] by blast
  with s t8 t4 show ?thesis by (simp add: string_key_hash_computation_def)
qed

lemma hash_prefix:
  assumes "unat len \<le> length data"
  shows "\<exists>h. hash addr data len seed = Inr h \<and> hash addr' (take (unat len) data) len seed = Inr h"
proof -
  obtain h where h: "string_key_hash_computation data len seed 0 = Inr h"
      "string_key_hash_computation (take (unat len) data) len seed 0 = Inr h"
    using string_hash_prefix [OF assms] by blast
  moreover have "string_key_hash_computation data len seed 1 = Inr h"
    using string_hash_prefix [OF assms, of seed 1 0] h(2) by auto
  moreover have "string_key_hash_computation (take (unat len) data) len seed 1 = Inr h"
    using string_hash_prefix [OF assms, of seed 0 1] h(1) by auto
  ultimately show ?thesis by (simp add: hash_def)
qed

text \<open>
  C1: for a key object of at least \<open>length\<close> bytes, \<open>hash\<close> performs no out-of-bounds load and
  returns a value, and that value depends only on the first \<open>length\<close> bytes and the seed: not on
  the bytes behind them and not on the alignment of the key, although aligned and unaligned keys
  take different code paths.
\<close>

theorem hash_memory_safe:
  assumes "unat len \<le> length data"
  shows "\<exists>h. hash addr data len seed = Inr h \<and>
     hash addr' (take (unat len) data @ rest) len seed = Inr h"
  using hash_prefix [OF assms, of addr seed 0]
    hash_prefix [of len "take (unat len) data @ rest" addr' seed 0] assms by auto

theorem hash_memory_safe_witness:
  "\<exists>h. hash 4096 [97, 98, 0, 7] 2 5 = Inr h \<and> hash 4097 ([97, 98] @ [1, 2]) 2 5 = Inr h"
  using hash_memory_safe [of 2 "[97, 98, 0, 7]" 4096 5 4097 "[1, 2]"] by simp

section \<open>The final mixing\<close>

text \<open>
  The final mixing of the hash is injective, so it never makes two different
  internal states collide.
\<close>

theorem hash_final_inj: "inj hash_final"
proof -
  have m2: "inj (\<lambda>x. x * NUMBER64_2)" and m3: "inj (\<lambda>x. x * NUMBER64_3)"
    by (rule mult_word_inj [of _ 839798700976720815], simp add: number64_defs,
        rule mult_word_inj [of _ 16855272203555305545], simp add: number64_defs)
  have "hash_final = (\<lambda>x. x XOR drop_bit 32 x) \<circ> (\<lambda>x. x * NUMBER64_3) \<circ>
      (\<lambda>x. x XOR drop_bit 29 x) \<circ> (\<lambda>x. x * NUMBER64_2) \<circ> (\<lambda>x. x XOR drop_bit 33 x)"
    by (simp add: fun_eq_iff hash_final_def Let_def)
  moreover have "inj ((\<lambda>x. x XOR drop_bit 32 x) \<circ> (\<lambda>x. x * NUMBER64_3) \<circ>
      (\<lambda>x. x XOR drop_bit 29 x) \<circ> (\<lambda>x. x * NUMBER64_2) \<circ> (\<lambda>x :: u64. x XOR drop_bit 33 x))"
    by (intro inj_compose m2 m3 inj_xorshift) simp_all
  ultimately show ?thesis by simp
qed

end
