(* ===== verification/Spinlock.thy ===== *)
theory Spinlock
  imports Prelude
begin

text \<open>
  The spin lock of the level hash table (\<open>src/levelhash/spinlock.h\<close>). The atomic exchange and
  the three lock functions are modelled on the lock byte; the threads that call them are a step
  relation in which every exchange, every read of the inner wait loop and every release is one
  step, so all interleavings are covered. The theory shows mutual exclusion and that a free lock
  can always be taken. The locale \<open>slot_locks\<close> is the contract a single-threaded client relies on:
  taking a free lock and releasing it restores the state.
\<close>

section \<open>The lock byte\<close>

definition BUSY :: u8 where "BUSY = 1"

definition SPINLOCK_INITIALIZER :: u8 where "SPINLOCK_INITIALIZER = 0"

text \<open>\<open>xchg_8\<close> stores \<open>x\<close> and returns the old value: (old value, new lock byte).\<close>

definition xchg_8 :: "u8 \<Rightarrow> u8 \<Rightarrow> u8 \<times> u8" where
  "xchg_8 lck x = (lck, x)"

definition spin_unlock :: "u8 \<Rightarrow> u8" where
  "spin_unlock lck = 0"

definition spin_trylock :: "u8 \<Rightarrow> u8 \<times> u8" where
  "spin_trylock lck = xchg_8 lck BUSY"

text \<open>\<open>spin_lock\<close> when no other thread runs: a held lock is never released, so the loop spins.\<close>

definition spin_lock :: "u8 \<Rightarrow> c_error + u8" where
  "spin_lock lck = (let (old, new) = xchg_8 lck BUSY in if old = 0 then Inr new else Inl Spins)"

lemma spin_lock_free [simp]: "spin_lock 0 = Inr BUSY"
  by (simp add: spin_lock_def xchg_8_def)

lemma spin_lock_held [simp]: "lck \<noteq> 0 \<Longrightarrow> spin_lock lck = Inl Spins"
  by (simp add: spin_lock_def xchg_8_def)

section \<open>Threads\<close>

text \<open>
  \<open>Idle\<close>: outside; \<open>Trying\<close>: about to exchange at the head of \<open>while (1)\<close>; \<open>Waiting\<close>: in the
  inner \<open>while (*lock)\<close>; \<open>Holding\<close>: between the return of the lock function and the release.
\<close>

datatype spin_pc = Idle | Trying | Waiting | Holding

record spin_sys =
  lock_byte :: u8
  spin_pcs :: "nat \<Rightarrow> spin_pc"

definition spin_init :: spin_sys where
  "spin_init = \<lparr>lock_byte = SPINLOCK_INITIALIZER, spin_pcs = (\<lambda>_. Idle)\<rparr>"

inductive spin_step :: "spin_sys \<Rightarrow> spin_sys \<Rightarrow> bool" where
  call: "spin_pcs s t = Idle \<Longrightarrow> spin_step s (s\<lparr>spin_pcs := (spin_pcs s)(t := Trying)\<rparr>)"
| exchange: "spin_pcs s t = Trying \<Longrightarrow> xchg_8 (lock_byte s) BUSY = (old, new) \<Longrightarrow>
    spin_step s (s\<lparr>lock_byte := new,
      spin_pcs := (spin_pcs s)(t := if old = 0 then Holding else Waiting)\<rparr>)"
| relax: "spin_pcs s t = Waiting \<Longrightarrow> lock_byte s \<noteq> 0 \<Longrightarrow> spin_step s s"
| retry: "spin_pcs s t = Waiting \<Longrightarrow> lock_byte s = 0 \<Longrightarrow>
    spin_step s (s\<lparr>spin_pcs := (spin_pcs s)(t := Trying)\<rparr>)"
| trylock: "spin_pcs s t = Idle \<Longrightarrow> spin_trylock (lock_byte s) = (old, new) \<Longrightarrow>
    spin_step s (s\<lparr>lock_byte := new,
      spin_pcs := (spin_pcs s)(t := if old = 0 then Holding else Idle)\<rparr>)"
| unlock: "spin_pcs s t = Holding \<Longrightarrow>
    spin_step s (s\<lparr>lock_byte := spin_unlock (lock_byte s), spin_pcs := (spin_pcs s)(t := Idle)\<rparr>)"

inductive spin_reachable :: "spin_sys \<Rightarrow> bool" where
  start: "spin_reachable spin_init"
| step: "spin_reachable s \<Longrightarrow> spin_step s s' \<Longrightarrow> spin_reachable s'"

text \<open>The lock byte is set exactly while one thread holds the lock.\<close>

definition spin_inv :: "spin_sys \<Rightarrow> bool" where
  "spin_inv s \<longleftrightarrow> (\<forall>t. spin_pcs s t = Holding \<longrightarrow> lock_byte s \<noteq> 0) \<and>
     (\<forall>t u. spin_pcs s t = Holding \<longrightarrow> spin_pcs s u = Holding \<longrightarrow> t = u) \<and>
     (lock_byte s \<noteq> 0 \<longrightarrow> (\<exists>t. spin_pcs s t = Holding))"

lemma spin_step_inv: "spin_step s s' \<Longrightarrow> spin_inv s \<Longrightarrow> spin_inv s'"
proof (induction rule: spin_step.induct)
  case (unlock s t)
  then have "spin_pcs s u = Holding \<Longrightarrow> u = t" for u
    by (auto simp: spin_inv_def)
  then show ?case by (auto simp: spin_inv_def spin_unlock_def)
qed (auto simp: spin_inv_def xchg_8_def spin_trylock_def BUSY_def split: if_splits,
     (metis spin_pc.distinct)+)

lemma spin_inv_init: "spin_inv spin_init"
  by (simp add: spin_init_def spin_inv_def SPINLOCK_INITIALIZER_def)

lemma spin_reachable_inv: "spin_reachable s \<Longrightarrow> spin_inv s"
  by (induction rule: spin_reachable.induct) (auto intro: spin_inv_init spin_step_inv)

text \<open>
  C2: in every interleaving of any number of threads at most one thread is between a successful
  lock call and its release, and while one is, the lock byte is busy.
\<close>

theorem spin_mutual_exclusion:
  assumes "spin_reachable s" "spin_pcs s t = Holding" "spin_pcs s u = Holding"
  shows "t = u \<and> lock_byte s \<noteq> 0"
  using spin_reachable_inv [OF assms(1)] assms(2,3) by (auto simp: spin_inv_def)

text \<open>Thread 7 has taken the lock, thread 8 has tried and waits.\<close>

definition spin_example :: spin_sys where
  "spin_example = \<lparr>lock_byte = 1, spin_pcs = (\<lambda>_. Idle)(7 := Holding, 8 := Waiting)\<rparr>"

lemma spin_reachable_example: "spin_reachable spin_example"
proof -
  let ?s1 = "\<lparr>lock_byte = 1, spin_pcs = (\<lambda>_. Idle)(7 := Holding)\<rparr>"
  let ?s2 = "?s1\<lparr>spin_pcs := (spin_pcs ?s1)(8 := Trying)\<rparr>"
  have "spin_step spin_init (spin_init\<lparr>lock_byte := BUSY,
      spin_pcs := (spin_pcs spin_init)(7 := if SPINLOCK_INITIALIZER = 0 then Holding else Idle)\<rparr>)"
    by (rule spin_step.trylock) (simp_all add: spin_init_def spin_trylock_def xchg_8_def)
  then have 1: "spin_step spin_init ?s1" by (simp add: spin_init_def BUSY_def SPINLOCK_INITIALIZER_def)
  have 2: "spin_step ?s1 ?s2" by (rule spin_step.call) simp
  have "spin_step ?s2 (?s2\<lparr>lock_byte := BUSY, spin_pcs := (spin_pcs ?s2)(8 := if lock_byte ?s2 = 0 then Holding else Waiting)\<rparr>)"
    by (rule spin_step.exchange) (simp_all add: xchg_8_def)
  then have 3: "spin_step ?s2 spin_example" by (simp add: spin_example_def BUSY_def)
  from spin_reachable.start 1 2 3 show ?thesis by (meson spin_reachable.step)
qed

theorem spin_mutual_exclusion_witness:
  "spin_reachable spin_example \<and> spin_pcs spin_example 7 = Holding \<and> spin_pcs spin_example 8 = Waiting \<and>
   {u. spin_pcs spin_example u = Holding} = {7} \<and> lock_byte spin_example \<noteq> 0"
proof -
  have h: "spin_pcs spin_example 7 = Holding" "spin_pcs spin_example 8 = Waiting" by (simp_all add: spin_example_def)
  note m = spin_mutual_exclusion [OF spin_reachable_example h(1)]
  have "{u. spin_pcs spin_example u = Holding} = {7}" using m h(1) by blast
  moreover have "lock_byte spin_example \<noteq> 0" using m [OF h(1)] by blast
  ultimately show ?thesis using h spin_reachable_example by blast
qed

text \<open>
  No lock is lost. Whenever no thread holds the lock, the lock byte is free, and a thread that
  is trying or waiting can take it with steps of its own only.
\<close>

theorem spin_no_lost_lock:
  assumes r: "spin_reachable s" and none: "\<forall>u. spin_pcs s u \<noteq> Holding"
    and t: "spin_pcs s t = Trying \<or> spin_pcs s t = Waiting"
  shows "\<exists>s'. spin_step\<^sup>*\<^sup>* s s' \<and> spin_pcs s' t = Holding \<and> (\<forall>u. u \<noteq> t \<longrightarrow> spin_pcs s' u = spin_pcs s u)"
proof -
  have free: "lock_byte s = 0"
    using spin_reachable_inv [OF r] none by (auto simp: spin_inv_def)
  define s1 where "s1 = s\<lparr>spin_pcs := (spin_pcs s)(t := Trying)\<rparr>"
  have s1: "spin_step\<^sup>*\<^sup>* s s1"
  proof (cases "spin_pcs s t = Trying")
    case True
    then have "s1 = s" by (simp add: s1_def fun_upd_idem)
    then show ?thesis by simp
  next
    case False
    then show ?thesis using t free spin_step.retry [of s t] by (auto simp: s1_def)
  qed
  have "spin_step s1 (s1\<lparr>lock_byte := BUSY,
      spin_pcs := (spin_pcs s1)(t := if lock_byte s1 = 0 then Holding else Waiting)\<rparr>)"
    by (rule spin_step.exchange) (simp_all add: s1_def xchg_8_def)
  with s1 show ?thesis
    by (intro exI conjI) (erule rtranclp.rtrancl_into_rtrancl, assumption, simp_all add: s1_def free)
qed

theorem spin_no_lost_lock_witness:
  "\<exists>s'. spin_step\<^sup>*\<^sup>* (spin_init\<lparr>spin_pcs := (\<lambda>_. Idle)(3 := Trying)\<rparr>) s' \<and> spin_pcs s' 3 = Holding"
proof -
  let ?s = "spin_init\<lparr>spin_pcs := (\<lambda>_. Idle)(3 := Trying)\<rparr>"
  have "spin_step spin_init ?s"
    using spin_step.call [of spin_init 3] by (simp add: spin_init_def)
  then have "spin_reachable ?s"
    using spin_reachable.start spin_reachable.step by blast
  moreover have "\<forall>u. spin_pcs ?s u \<noteq> Holding" by simp
  ultimately show ?thesis
    using spin_no_lost_lock [of ?s 3] by auto
qed

section \<open>The contract of a lock array\<close>

text \<open>
  A client with one lock per slot: \<open>acquire\<close> and \<open>release\<close> act on the client's state at a
  position. Inside the locale: a critical section that leaves the locks alone runs exactly like
  its body, and ends with the lock free again.
\<close>

locale slot_locks =
  fixes acquire :: "'s \<Rightarrow> 'p \<Rightarrow> c_error + 's"
    and release :: "'s \<Rightarrow> 'p \<Rightarrow> c_error + 's"
    and hold :: "'s \<Rightarrow> 'p \<Rightarrow> 's"
    and exists_lock :: "'s \<Rightarrow> 'p \<Rightarrow> bool"
    and is_free :: "'s \<Rightarrow> 'p \<Rightarrow> bool"
  assumes acquire_free: "exists_lock s p \<Longrightarrow> is_free s p \<Longrightarrow> acquire s p = Inr (hold s p)"
    and acquire_held: "exists_lock s p \<Longrightarrow> \<not> is_free s p \<Longrightarrow> acquire s p = Inl Spins"
    and acquire_outside: "\<not> exists_lock s p \<Longrightarrow> acquire s p = Inl UB"
    and release_hold: "exists_lock s p \<Longrightarrow> is_free s p \<Longrightarrow> release (hold s p) p = Inr s"
begin

lemma section_frame:
  assumes "exists_lock s p" "is_free s p"
    and "body (hold s p) = Inr (hold s' p, r)"
    and "exists_lock s' p" "is_free s' p"
  shows "bindR (acquire s p) (\<lambda>s1. bindR (body s1) (\<lambda>(s2, r). bindR (release s2 p) (\<lambda>s3. Inr (s3, r)))) =
    Inr (s', r)"
  using assms by (simp add: acquire_free release_hold)

lemma acquire_Inr_iff:
  "acquire s p = Inr s' \<longleftrightarrow> exists_lock s p \<and> is_free s p \<and> s' = hold s p"
  using acquire_free acquire_held acquire_outside by (metis Inl_Inr_False Inr_inject)

lemma no_deadlock: "acquire s p = Inl Spins \<Longrightarrow> exists_lock s p \<and> \<not> is_free s p"
  using acquire_free [of s p] acquire_outside [of s p] by auto

end

end
