(* ===== verification/LevelHash.thy ===== *)
theory LevelHash
  imports StringHash Spinlock
begin

text \<open>
  The level hash table (\<open>src/levelhash/level_hashing.c\<close>, \<open>level_hashing.h\<close>): two levels of
  buckets with \<open>ASSOC_NUM\<close> slots each, two candidate buckets per key and level, and one spin lock
  per slot. This theory holds the data model and every operation of the table. A pointer argument
  is the list of the bytes readable behind it; array accesses outside their bounds, divisions by
  zero and unterminated strings are \<open>UB\<close>; taking a lock that is already held is \<open>Spins\<close>, since
  an operation runs here without other threads. Memory allocation and \<open>rand\<close> are arguments of the
  operations that call them. \<open>LevelHash_Proofs\<close> holds the invariant and the theorems.
\<close>

section \<open>Data\<close>

abbreviation ASSOC_NUM :: nat where "ASSOC_NUM \<equiv> 4"
abbreviation KEY_LEN :: nat where "KEY_LEN \<equiv> 8"
abbreviation VALUE_LEN :: nat where "VALUE_LEN \<equiv> 8"

record entry =
  slot_key :: "u8 list"
  slot_value :: "u8 list"

record level_bucket =
  token :: "u8 list"
  slot :: "entry list"

record level_hash =
  buckets :: "level_bucket list list"
  level_locks :: "u8 list list list"
  thread_num :: u32
  addr_capacity :: u64
  total_capacity :: u64
  level_size :: u64
  resize_count :: u8
  f_seed :: u64
  s_seed :: u64

text \<open>What \<open>calloc\<close> returns: zeroed buckets and zeroed locks.\<close>

definition zero_entry :: entry where
  "zero_entry = \<lparr>slot_key = replicate KEY_LEN 0, slot_value = replicate VALUE_LEN 0\<rparr>"

definition zero_bucket :: level_bucket where
  "zero_bucket = \<lparr>token = replicate ASSOC_NUM 0, slot = replicate ASSOC_NUM zero_entry\<rparr>"

section \<open>Slots and locks\<close>

definition valid_slot :: "level_bucket list \<Rightarrow> nat \<Rightarrow> nat \<Rightarrow> bool" where
  "valid_slot bs b j \<longleftrightarrow> b < length bs \<and> j < length (token (bs ! b)) \<and> j < length (slot (bs ! b))"

definition put_item :: "level_bucket list \<Rightarrow> nat \<Rightarrow> nat \<Rightarrow> u8 list \<Rightarrow> u8 list \<Rightarrow> level_bucket list" where
  "put_item bs b j k v =
     bs[b := \<lparr>token = (token (bs ! b))[j := 1],
              slot = (slot (bs ! b))[j := \<lparr>slot_key = k, slot_value = v\<rparr>]\<rparr>]"

definition put_token :: "level_bucket list \<Rightarrow> nat \<Rightarrow> nat \<Rightarrow> u8 \<Rightarrow> level_bucket list" where
  "put_token bs b j t = bs[b := (bs ! b)\<lparr>token := (token (bs ! b))[j := t]\<rparr>]"

definition put_value :: "level_bucket list \<Rightarrow> nat \<Rightarrow> nat \<Rightarrow> u8 list \<Rightarrow> level_bucket list" where
  "put_value bs b j v =
     bs[b := (bs ! b)\<lparr>slot := (slot (bs ! b))[j := (slot (bs ! b) ! j)\<lparr>slot_value := v\<rparr>]\<rparr>]"

definition with_level :: "level_hash \<Rightarrow> nat \<Rightarrow> level_bucket list \<Rightarrow> level_hash" where
  "with_level L i bs = L\<lparr>buckets := (buckets L)[i := bs]\<rparr>"

text \<open>\<open>token[j] = 0\<close> frees a slot; its bytes stay.\<close>

definition drop_slot :: "level_hash \<Rightarrow> nat \<Rightarrow> nat \<Rightarrow> nat \<Rightarrow> level_hash" where
  "drop_slot L i b j = with_level L i (put_token (buckets L ! i) b j 0)"

definition tokenR :: "level_hash \<Rightarrow> nat \<Rightarrow> nat \<Rightarrow> nat \<Rightarrow> c_error + u8" where
  "tokenR L i b j =
     (if i < length (buckets L) \<and> valid_slot (buckets L ! i) b j
      then Inr (token (buckets L ! i ! b) ! j) else Inl UB)"

definition entryR :: "level_hash \<Rightarrow> nat \<Rightarrow> nat \<Rightarrow> nat \<Rightarrow> c_error + entry" where
  "entryR L i b j =
     (if i < length (buckets L) \<and> valid_slot (buckets L ! i) b j
      then Inr (slot (buckets L ! i ! b) ! j) else Inl UB)"

text \<open>\<open>spin_lock(&level->level_locks[i][b].s_lock[j])\<close> and its release.\<close>

definition lock_exists :: "level_hash \<Rightarrow> nat \<times> nat \<times> nat \<Rightarrow> bool" where
  "lock_exists L = (\<lambda>(i, b, j). i < length (level_locks L) \<and> b < length (level_locks L ! i) \<and>
     j < length (level_locks L ! i ! b))"

definition lock_set :: "level_hash \<Rightarrow> nat \<times> nat \<times> nat \<Rightarrow> u8 \<Rightarrow> level_hash" where
  "lock_set L = (\<lambda>(i, b, j) x. L\<lparr>level_locks :=
     (level_locks L)[i := (level_locks L ! i)[b := (level_locks L ! i ! b)[j := x]]]\<rparr>)"

definition lock_free :: "level_hash \<Rightarrow> nat \<times> nat \<times> nat \<Rightarrow> bool" where
  "lock_free L = (\<lambda>(i, b, j). level_locks L ! i ! b ! j = 0)"

definition lock_slot :: "level_hash \<Rightarrow> nat \<times> nat \<times> nat \<Rightarrow> c_error + level_hash" where
  "lock_slot L = (\<lambda>(i, b, j).
     if lock_exists L (i, b, j)
     then bindR (spin_lock (level_locks L ! i ! b ! j)) (\<lambda>x. Inr (lock_set L (i, b, j) x))
     else Inl UB)"

definition unlock_slot :: "level_hash \<Rightarrow> nat \<times> nat \<times> nat \<Rightarrow> c_error + level_hash" where
  "unlock_slot L = (\<lambda>(i, b, j).
     if lock_exists L (i, b, j)
     then Inr (lock_set L (i, b, j) (spin_unlock (level_locks L ! i ! b ! j)))
     else Inl UB)"

section \<open>Hash locations\<close>

text \<open>
  The address of the key only selects the kind of load (\<open>hash_prefix\<close> in \<open>StringHash\<close>), so an
  aligned address is passed.
\<close>

definition F_HASH :: "level_hash \<Rightarrow> u8 list \<Rightarrow> c_error + u64" where
  "F_HASH L key = bindR (c_strlen key) (\<lambda>n. hash 0 key (of_nat n) (f_seed L))"

definition S_HASH :: "level_hash \<Rightarrow> u8 list \<Rightarrow> c_error + u64" where
  "S_HASH L key = bindR (c_strlen key) (\<lambda>n. hash 0 key (of_nat n) (s_seed L))"

definition F_IDX :: "u64 \<Rightarrow> u64 \<Rightarrow> c_error + u64" where
  "F_IDX hashKey capacity =
     (if capacity div 2 = 0 then Inl UB else Inr (hashKey mod (capacity div 2)))"

definition S_IDX :: "u64 \<Rightarrow> u64 \<Rightarrow> c_error + u64" where
  "S_IDX hashKey capacity =
     (if capacity div 2 = 0 then Inl UB else Inr (hashKey mod (capacity div 2) + capacity div 2))"

text \<open>Both locations of a pair of hash values, as indices.\<close>

definition locations :: "u64 \<Rightarrow> u64 \<Rightarrow> u64 \<Rightarrow> c_error + nat \<times> nat" where
  "locations f_hash s_hash capacity =
     bindR (F_IDX f_hash capacity) (\<lambda>f. bindR (S_IDX s_hash capacity) (\<lambda>s. Inr (unat f, unat s)))"

section \<open>Initialisation\<close>

text \<open>
  \<open>pow(2, n)\<close> converted to \<open>uint64_t\<close>: exact below 64, undefined from there on. \<open>rand\<close> is the
  sequence of values that the C library returns; \<open>k\<close> counts the calls.
\<close>

definition pow2R :: "u64 \<Rightarrow> c_error + u64" where
  "pow2R n = (if unat n < 64 then Inr (2 ^ unat n) else Inl UB)"

definition seed_pair :: "(nat \<Rightarrow> u64) \<Rightarrow> nat \<Rightarrow> u64 \<times> u64" where
  "seed_pair rand k =
     (push_bit (unat (rand (k + 2) mod 63)) (rand k),
      push_bit (unat (rand (k + 3) mod 63)) (rand (k + 1)))"

partial_function (option) generate_seeds :: "(nat \<Rightarrow> u64) \<Rightarrow> nat \<Rightarrow> (u64 \<times> u64) option" where
  "generate_seeds rand k =
     (let (f, s) = seed_pair rand k
      in if f = s then generate_seeds rand (k + 4) else Some (f, s))"

text \<open>
  \<open>alloc\<close> tells which of the five allocations succeed, in the order of the code (the table, the
  two levels, the two lock arrays). A lock array that could not be allocated has no locks.
  \<open>thread_num\<close> is not set by the code; the model starts it at 0.
\<close>

definition level_init :: "(nat \<Rightarrow> bool) \<Rightarrow> (nat \<Rightarrow> u64) \<Rightarrow> u64 \<Rightarrow> c_error + level_hash" where
  "level_init alloc rand sz =
     (if \<not> alloc 0 then Inl Exited
      else bindR (pow2R sz) (\<lambda>top. bindR (pow2R (sz - 1)) (\<lambda>bottom.
        case generate_seeds rand 0 of None \<Rightarrow> Inl Spins
        | Some (f, s) \<Rightarrow>
          if \<not> alloc 1 \<or> \<not> alloc 2 then Inl Exited
          else Inr \<lparr>buckets = [replicate (unat top) zero_bucket, replicate (unat bottom) zero_bucket],
                    level_locks =
                      [if alloc 3 then replicate (unat top) (replicate ASSOC_NUM 0) else [],
                       if alloc 4 then replicate (unat bottom) (replicate ASSOC_NUM 0) else []],
                    thread_num = 0, addr_capacity = top, total_capacity = top + bottom,
                    level_size = sz, resize_count = 0, f_seed = f, s_seed = s\<rparr>)))"

section \<open>Lookup, deletion and update\<close>

text \<open>
  The three operations share their control flow: for each level the slots of the first and then of
  the second candidate bucket are locked, compared and unlocked one by one; at the first match
  \<open>act\<close> runs under the lock.
\<close>

definition slot_matches :: "level_hash \<Rightarrow> nat \<Rightarrow> nat \<Rightarrow> nat \<Rightarrow> u8 list \<Rightarrow> c_error + bool" where
  "slot_matches L i b j key =
     bindR (tokenR L i b j) (\<lambda>t.
       if t = 1 then bindR (entryR L i b j) (\<lambda>e. c_strcmp_eq (slot_key e) key) else Inr False)"

fun visit_slots ::
  "(level_hash \<Rightarrow> nat \<Rightarrow> nat \<Rightarrow> nat \<Rightarrow> level_hash \<times> 'r) \<Rightarrow> level_hash \<Rightarrow> nat \<Rightarrow> nat \<Rightarrow> u8 list \<Rightarrow>
   nat list \<Rightarrow> c_error + level_hash \<times> 'r option" where
  "visit_slots act L i b key [] = Inr (L, None)"
| "visit_slots act L i b key (j # js) =
     bindR (lock_slot L (i, b, j)) (\<lambda>L1.
     bindR (slot_matches L1 i b j key) (\<lambda>m.
       if m then
         (let (L2, r) = act L1 i b j
          in bindR (unlock_slot L2 (i, b, j)) (\<lambda>L3. Inr (L3, Some r)))
       else bindR (unlock_slot L1 (i, b, j)) (\<lambda>L2. visit_slots act L2 i b key js)))"

fun visit_levels ::
  "(level_hash \<Rightarrow> nat \<Rightarrow> nat \<Rightarrow> nat \<Rightarrow> level_hash \<times> 'r) \<Rightarrow> level_hash \<Rightarrow> u8 list \<Rightarrow> u64 \<Rightarrow> u64 \<Rightarrow>
   nat \<times> nat \<Rightarrow> nat list \<Rightarrow> c_error + level_hash \<times> 'r option" where
  "visit_levels act L key f_hash s_hash fs [] = Inr (L, None)"
| "visit_levels act L key f_hash s_hash (f, s) (i # is) =
     bindR (visit_slots act L i f key [0..<ASSOC_NUM]) (\<lambda>(L1, r1).
       if r1 \<noteq> None then Inr (L1, r1)
       else bindR (visit_slots act L1 i s key [0..<ASSOC_NUM]) (\<lambda>(L2, r2).
         if r2 \<noteq> None then Inr (L2, r2)
         else bindR (locations f_hash s_hash (addr_capacity L2 div 2)) (\<lambda>fs'.
           visit_levels act L2 key f_hash s_hash fs' is)))"

definition visit_table ::
  "(level_hash \<Rightarrow> nat \<Rightarrow> nat \<Rightarrow> nat \<Rightarrow> level_hash \<times> 'r) \<Rightarrow> level_hash \<Rightarrow> u8 list \<Rightarrow>
   c_error + level_hash \<times> 'r option" where
  "visit_table act L key =
     bindR (F_HASH L key) (\<lambda>f_hash. bindR (S_HASH L key) (\<lambda>s_hash.
     bindR (locations f_hash s_hash (addr_capacity L)) (\<lambda>fs.
       visit_levels act L key f_hash s_hash fs [0, 1])))"

text \<open>The return codes are those of the code: 0 for success, 1 for a missing key.\<close>

definition read_act :: "level_hash \<Rightarrow> nat \<Rightarrow> nat \<Rightarrow> nat \<Rightarrow> level_hash \<times> u8 list" where
  "read_act L i b j = (L, slot_value (slot (buckets L ! i ! b) ! j))"

definition level_query :: "level_hash \<Rightarrow> u8 list \<Rightarrow> u8 list \<Rightarrow> c_error + level_hash \<times> u8 \<times> u8 list" where
  "level_query L key value =
     bindR (visit_table read_act L key) (\<lambda>(L', r).
       case r of None \<Rightarrow> Inr (L', 1, value)
       | Some v \<Rightarrow> if length value < VALUE_LEN then Inl UB else Inr (L', 0, v @ drop VALUE_LEN value))"

definition delete_act :: "level_hash \<Rightarrow> nat \<Rightarrow> nat \<Rightarrow> nat \<Rightarrow> level_hash \<times> unit" where
  "delete_act L i b j = (drop_slot L i b j, ())"

definition level_delete :: "level_hash \<Rightarrow> u8 list \<Rightarrow> c_error + level_hash \<times> u8" where
  "level_delete L key =
     bindR (visit_table delete_act L key) (\<lambda>(L', r). Inr (L', if r = None then 1 else 0))"

definition update_act :: "u8 list \<Rightarrow> level_hash \<Rightarrow> nat \<Rightarrow> nat \<Rightarrow> nat \<Rightarrow> level_hash \<times> unit" where
  "update_act new_value L i b j =
     (with_level L i (put_value (buckets L ! i) b j (take VALUE_LEN new_value)), ())"

definition level_update :: "level_hash \<Rightarrow> u8 list \<Rightarrow> u8 list \<Rightarrow> c_error + level_hash \<times> u8" where
  "level_update L key new_value =
     bindR (visit_table (update_act new_value) L key) (\<lambda>(L', r).
       if r = None then Inr (L', 1)
       else if length new_value < VALUE_LEN then Inl UB else Inr (L', 0))"

section \<open>Insertion\<close>

text \<open>Store a new item in a slot: the two \<open>memcpy\<close> calls and the token.\<close>

definition fill_slot :: "level_hash \<Rightarrow> nat \<Rightarrow> nat \<Rightarrow> nat \<Rightarrow> u8 list \<Rightarrow> u8 list \<Rightarrow> c_error + level_hash" where
  "fill_slot L i b j key value =
     (if i < length (buckets L) \<and> valid_slot (buckets L ! i) b j \<and>
         KEY_LEN \<le> length key \<and> VALUE_LEN \<le> length value
      then Inr (with_level L i (put_item (buckets L ! i) b j (take KEY_LEN key) (take VALUE_LEN value)))
      else Inl UB)"

text \<open>Lock a slot; if it is empty, fill it; unlock it. The flag tells whether it was filled.\<close>

definition fill_if_empty ::
  "level_hash \<Rightarrow> nat \<Rightarrow> nat \<Rightarrow> nat \<Rightarrow> u8 list \<Rightarrow> u8 list \<Rightarrow> c_error + level_hash \<times> bool" where
  "fill_if_empty L i b j key value =
     bindR (lock_slot L (i, b, j)) (\<lambda>L1.
     bindR (tokenR L1 i b j) (\<lambda>t.
       if t = 0 then
         bindR (fill_slot L1 i b j key value) (\<lambda>L2.
         bindR (unlock_slot L2 (i, b, j)) (\<lambda>L3. Inr (L3, True)))
       else bindR (unlock_slot L1 (i, b, j)) (\<lambda>L2. Inr (L2, False))))"

text \<open>The slots of the two candidate buckets of a level, alternating between the buckets.\<close>

fun insert_slots ::
  "level_hash \<Rightarrow> nat \<Rightarrow> nat \<Rightarrow> nat \<Rightarrow> u8 list \<Rightarrow> u8 list \<Rightarrow> nat list \<Rightarrow> c_error + level_hash \<times> bool" where
  "insert_slots L i f s key value [] = Inr (L, False)"
| "insert_slots L i f s key value (j # js) =
     bindR (fill_if_empty L i f j key value) (\<lambda>(L1, ok1).
       if ok1 then Inr (L1, True)
       else bindR (fill_if_empty L1 i s j key value) (\<lambda>(L2, ok2).
         if ok2 then Inr (L2, True) else insert_slots L2 i f s key value js))"

fun insert_levels ::
  "level_hash \<Rightarrow> u8 list \<Rightarrow> u8 list \<Rightarrow> u64 \<Rightarrow> u64 \<Rightarrow> nat \<times> nat \<Rightarrow> nat list \<Rightarrow> c_error + level_hash \<times> bool" where
  "insert_levels L key value f_hash s_hash fs [] = Inr (L, False)"
| "insert_levels L key value f_hash s_hash (f, s) (i # is) =
     bindR (insert_slots L i f s key value [0..<ASSOC_NUM]) (\<lambda>(L1, ok).
       if ok then Inr (L1, True)
       else bindR (locations f_hash s_hash (addr_capacity L1 div 2)) (\<lambda>fs'.
         insert_levels L1 key value f_hash s_hash fs' is))"

text \<open>
  \<open>try_movement\<close>: \<open>move_into\<close> is the inner loop over the slots of the alternative bucket \<open>jdx\<close>
  for the item \<open>e\<close> in slot \<open>i\<close> of bucket \<open>idx\<close>, whose lock is held; on success the item has moved
  and the new item has taken its slot.
\<close>

fun move_into ::
  "level_hash \<Rightarrow> nat \<Rightarrow> nat \<Rightarrow> nat \<Rightarrow> entry \<Rightarrow> nat \<Rightarrow> u8 list \<Rightarrow> u8 list \<Rightarrow> nat list \<Rightarrow>
   c_error + level_hash \<times> bool" where
  "move_into L lvl idx i e jdx key value [] = Inr (L, False)"
| "move_into L lvl idx i e jdx key value (j # js) =
     bindR (lock_slot L (lvl, jdx, j)) (\<lambda>L1.
     bindR (tokenR L1 lvl jdx j) (\<lambda>t.
       if t = 0 then
         bindR (fill_slot L1 lvl jdx j (slot_key e) (slot_value e)) (\<lambda>L2.
         bindR (tokenR L2 lvl idx i) (\<lambda>_.
         bindR (unlock_slot (drop_slot L2 lvl idx i) (lvl, jdx, j)) (\<lambda>L3.
         bindR (fill_slot L3 lvl idx i key value) (\<lambda>L4.
         bindR (unlock_slot L4 (lvl, idx, i)) (\<lambda>L5. Inr (L5, True))))))
       else bindR (unlock_slot L1 (lvl, jdx, j)) (\<lambda>L2.
         move_into L2 lvl idx i e jdx key value js)))"

fun movement_slots ::
  "level_hash \<Rightarrow> nat \<Rightarrow> nat \<Rightarrow> u8 list \<Rightarrow> u8 list \<Rightarrow> nat list \<Rightarrow> c_error + level_hash \<times> bool" where
  "movement_slots L idx lvl key value [] = Inr (L, False)"
| "movement_slots L idx lvl key value (i # is) =
     bindR (lock_slot L (lvl, idx, i)) (\<lambda>L1.
     bindR (entryR L1 lvl idx i) (\<lambda>e.
     bindR (F_HASH L1 (slot_key e)) (\<lambda>f_hash. bindR (S_HASH L1 (slot_key e)) (\<lambda>s_hash.
     bindR (locations f_hash s_hash (addr_capacity L1 div of_nat (1 + lvl))) (\<lambda>(f_idx, s_idx).
       let jdx = (if f_idx = idx then s_idx else f_idx)
       in bindR (move_into L1 lvl idx i e jdx key value [0..<ASSOC_NUM]) (\<lambda>(L2, ok).
          if ok then Inr (L2, True)
          else bindR (unlock_slot L2 (lvl, idx, i)) (\<lambda>L3.
            movement_slots L3 idx lvl key value is)))))))"

definition try_movement ::
  "level_hash \<Rightarrow> nat \<Rightarrow> nat \<Rightarrow> u8 list \<Rightarrow> u8 list \<Rightarrow> c_error + level_hash \<times> u8" where
  "try_movement L idx level_num key value =
     bindR (movement_slots L idx level_num key value [0..<ASSOC_NUM]) (\<lambda>(L', ok).
       Inr (L', if ok then 0 else 1))"

text \<open>
  \<open>b2t_movement\<close>: on success the item of slot \<open>i\<close> has moved to the top level, its token is
  cleared and the lock of slot \<open>i\<close> is still held; the caller fills and unlocks it.
\<close>

fun lift_into ::
  "level_hash \<Rightarrow> nat \<Rightarrow> nat \<Rightarrow> entry \<Rightarrow> nat list \<Rightarrow> (nat \<times> nat) \<Rightarrow> c_error + level_hash \<times> bool" where
  "lift_into L idx i e [] fs = Inr (L, False)"
| "lift_into L idx i e (j # js) (f, s) =
     bindR (fill_if_empty L 0 f j (slot_key e) (slot_value e)) (\<lambda>(L1, ok1).
       if ok1 then Inr (drop_slot L1 1 idx i, True)
       else bindR (fill_if_empty L1 0 s j (slot_key e) (slot_value e)) (\<lambda>(L2, ok2).
         if ok2 then Inr (drop_slot L2 1 idx i, True)
         else lift_into L2 idx i e js (f, s)))"

fun b2t_slots :: "level_hash \<Rightarrow> nat \<Rightarrow> nat list \<Rightarrow> c_error + level_hash \<times> nat option" where
  "b2t_slots L idx [] = Inr (L, None)"
| "b2t_slots L idx (i # is) =
     bindR (lock_slot L (1, idx, i)) (\<lambda>L1.
     bindR (entryR L1 1 idx i) (\<lambda>e.
     bindR (F_HASH L1 (slot_key e)) (\<lambda>f_hash. bindR (S_HASH L1 (slot_key e)) (\<lambda>s_hash.
     bindR (locations f_hash s_hash (addr_capacity L1)) (\<lambda>fs.
     bindR (lift_into L1 idx i e [0..<ASSOC_NUM] fs) (\<lambda>(L2, ok).
       if ok then Inr (L2, Some i)
       else bindR (unlock_slot L2 (1, idx, i)) (\<lambda>L3. b2t_slots L3 idx is)))))))"

definition b2t_movement :: "level_hash \<Rightarrow> nat \<Rightarrow> c_error + level_hash \<times> nat option" where
  "b2t_movement L idx = b2t_slots L idx [0..<ASSOC_NUM]"

text \<open>The two phases of \<open>level_insert\<close> that run when no candidate slot is empty.\<close>

fun movement_levels ::
  "level_hash \<Rightarrow> u8 list \<Rightarrow> u8 list \<Rightarrow> u64 \<Rightarrow> u64 \<Rightarrow> nat \<times> nat \<Rightarrow> nat list \<Rightarrow>
   c_error + level_hash \<times> bool \<times> nat \<times> nat" where
  "movement_levels L key value f_hash s_hash fs [] = Inr (L, False, fs)"
| "movement_levels L key value f_hash s_hash (f, s) (i # is) =
     bindR (try_movement L f i key value) (\<lambda>(L1, r1).
       if r1 = 0 then Inr (L1, True, f, s)
       else bindR (try_movement L1 s i key value) (\<lambda>(L2, r2).
         if r2 = 0 then Inr (L2, True, f, s)
         else bindR (locations f_hash s_hash (addr_capacity L2 div 2)) (\<lambda>fs'.
           movement_levels L2 key value f_hash s_hash fs' is)))"

definition b2t_insert :: "level_hash \<Rightarrow> nat \<Rightarrow> u8 list \<Rightarrow> u8 list \<Rightarrow> c_error + level_hash \<times> bool" where
  "b2t_insert L idx key value =
     bindR (b2t_movement L idx) (\<lambda>(L1, empty_location).
       case empty_location of None \<Rightarrow> Inr (L1, False)
       | Some i \<Rightarrow> bindR (fill_slot L1 1 idx i key value) (\<lambda>L2.
           bindR (unlock_slot L2 (1, idx, i)) (\<lambda>L3. Inr (L3, True))))"

definition level_insert :: "level_hash \<Rightarrow> u8 list \<Rightarrow> u8 list \<Rightarrow> c_error + level_hash \<times> u8" where
  "level_insert L key value =
     bindR (F_HASH L key) (\<lambda>f_hash. bindR (S_HASH L key) (\<lambda>s_hash.
     bindR (locations f_hash s_hash (addr_capacity L)) (\<lambda>fs.
     bindR (insert_levels L key value f_hash s_hash fs [0, 1]) (\<lambda>(L1, ok1).
       if ok1 then Inr (L1, 0)
       else bindR (locations f_hash s_hash (addr_capacity L1)) (\<lambda>fs'.
         bindR (movement_levels L1 key value f_hash s_hash fs' [0, 1]) (\<lambda>(L2, ok2, f, s).
           if ok2 then Inr (L2, 0)
           else if 0 < resize_count L2 then
             bindR (b2t_insert L2 f key value) (\<lambda>(L3, ok3).
               if ok3 then Inr (L3, 0)
               else bindR (b2t_insert L3 s key value) (\<lambda>(L4, ok4).
                 Inr (L4, if ok4 then 0 else 1)))
           else Inr (L2, 1)))))))"

section \<open>Resizing\<close>

text \<open>
  \<open>level_resize\<close> rehashes the items of the bottom level into the new top level. \<open>new\<close> is the new
  bucket array; an item that fits in neither of its two new buckets ends the program.
\<close>

fun rehash_into ::
  "level_bucket list \<Rightarrow> nat \<Rightarrow> nat \<Rightarrow> entry \<Rightarrow> nat list \<Rightarrow> c_error + level_bucket list" where
  "rehash_into new f s e [] = Inl Exited"
| "rehash_into new f s e (j # js) =
     (if \<not> valid_slot new f j then Inl UB
      else if token (new ! f) ! j = 0 then Inr (put_item new f j (slot_key e) (slot_value e))
      else if \<not> valid_slot new s j then Inl UB
      else if token (new ! s) ! j = 0 then Inr (put_item new s j (slot_key e) (slot_value e))
      else rehash_into new f s e js)"

fun rehash_slots ::
  "level_hash \<Rightarrow> level_bucket list \<Rightarrow> nat \<Rightarrow> nat list \<Rightarrow> c_error + level_hash \<times> level_bucket list" where
  "rehash_slots L new old_idx [] = Inr (L, new)"
| "rehash_slots L new old_idx (i # is) =
     bindR (tokenR L 1 old_idx i) (\<lambda>t.
       if t = 1 then
         bindR (entryR L 1 old_idx i) (\<lambda>e.
         bindR (F_HASH L (slot_key e)) (\<lambda>f_hash. bindR (S_HASH L (slot_key e)) (\<lambda>s_hash.
         bindR (locations f_hash s_hash (addr_capacity L)) (\<lambda>(f, s).
         bindR (rehash_into new f s e [0..<ASSOC_NUM]) (\<lambda>new'.
           rehash_slots (drop_slot L 1 old_idx i) new' old_idx is)))))
       else rehash_slots L new old_idx is)"

fun rehash_buckets ::
  "level_hash \<Rightarrow> level_bucket list \<Rightarrow> nat list \<Rightarrow> c_error + level_hash \<times> level_bucket list" where
  "rehash_buckets L new [] = Inr (L, new)"
| "rehash_buckets L new (old_idx # rest) =
     bindR (rehash_slots L new old_idx [0..<ASSOC_NUM]) (\<lambda>(L', new').
       rehash_buckets L' new' rest)"

text \<open>\<open>ok\<close> tells whether the allocation of the new level succeeds. The lock arrays are not touched.\<close>

definition level_resize :: "bool \<Rightarrow> level_hash \<Rightarrow> c_error + level_hash" where
  "level_resize ok L =
     bindR (pow2R (level_size L + 1)) (\<lambda>cap.
       if \<not> ok then Inl Exited
       else bindR (pow2R (level_size L - 1)) (\<lambda>old_cap.
         bindR (rehash_buckets (L\<lparr>addr_capacity := cap\<rparr>) (replicate (unat cap) zero_bucket)
                  [0..<unat old_cap]) (\<lambda>(L1, new).
         bindR (pow2R (level_size L1 + 1)) (\<lambda>top. bindR (pow2R (level_size L1)) (\<lambda>bottom.
           Inr (L1\<lparr>level_size := level_size L1 + 1, total_capacity := top + bottom,
                   buckets := [new, buckets L1 ! 0], resize_count := resize_count L1 + 1\<rparr>))))))"

section \<open>Destruction and the benchmark thread\<close>

text \<open>
  \<open>level_destroy\<close> frees the two bucket arrays; a freed array has no readable bucket. The lock arrays
  and the table itself stay allocated.
\<close>

definition level_destroy :: "level_hash \<Rightarrow> level_hash" where
  "level_destroy L = L\<lparr>buckets := [[], []]\<rparr>"

abbreviation READ_WRITE_NUM :: nat where "READ_WRITE_NUM \<equiv> 350000"

record thread_queue =
  tq_key :: "u8 list"
  operation :: u8

record sub_thread =
  inserted :: u64
  run_queue :: "thread_queue list"

text \<open>One operation of the workload; \<open>value\<close> is the local buffer.\<close>

definition ycsb_op ::
  "level_hash \<Rightarrow> u8 list \<Rightarrow> u64 \<Rightarrow> thread_queue \<Rightarrow> c_error + level_hash \<times> u8 list \<times> u64" where
  "ycsb_op L value ins q =
     (if operation q = 1 then
        bindR (level_insert L (tq_key q) (tq_key q)) (\<lambda>(L', rc).
          Inr (L', value, if rc = 0 then ins + 1 else ins))
      else bindR (level_query L (tq_key q) value) (\<lambda>(L', rc, value'). Inr (L', value', ins)))"

fun ycsb_ops ::
  "level_hash \<Rightarrow> u8 list \<Rightarrow> u64 \<Rightarrow> thread_queue list \<Rightarrow> c_error + level_hash \<times> u64" where
  "ycsb_ops L value ins [] = Inr (L, ins)"
| "ycsb_ops L value ins (q # qs) =
     bindR (ycsb_op L value ins q) (\<lambda>(L', value', ins'). ycsb_ops L' value' ins' qs)"

text \<open>
  The loop bound is the same in every iteration, since no operation writes \<open>thread_num\<close>. Running
  past the end of the queue is undefined.
\<close>

definition ycsb_thread_run ::
  "level_hash \<Rightarrow> u8 list \<Rightarrow> sub_thread \<Rightarrow> c_error + level_hash \<times> sub_thread" where
  "ycsb_thread_run L value t =
     (if thread_num L = 0 then Inl UB
      else let n = READ_WRITE_NUM div unat (thread_num L) in
        bindR (ycsb_ops L value (inserted t) (take n (run_queue t))) (\<lambda>(L', ins).
          if length (run_queue t) < n then Inl UB else Inr (L', t\<lparr>inserted := ins\<rparr>)))"

end
