(* ===== verification/LevelHash_Proofs.thy ===== *)
theory LevelHash_Proofs
  imports LevelHash
begin

text \<open>
  Correctness of the level hash table. A slot is addressed by a position \<open>(level, bucket, slot)\<close>.
  The invariant \<open>level_wf\<close> says that the two levels have the sizes the capacity fields announce and
  that every stored key sits in one of its two candidate buckets; the abstraction \<open>items\<close> is the
  multiset of stored (key string, value) pairs. The lemmas reduce each operation, locks included,
  to a change at one or two positions; the theorems state what that does to \<open>items\<close>.
\<close>

section \<open>Positions\<close>

type_synonym pos = "nat \<times> nat \<times> nat"

definition tok :: "level_hash \<Rightarrow> pos \<Rightarrow> u8" where
  "tok L = (\<lambda>(i, b, j). token (buckets L ! i ! b) ! j)"

definition ent :: "level_hash \<Rightarrow> pos \<Rightarrow> entry" where
  "ent L = (\<lambda>(i, b, j). slot (buckets L ! i ! b) ! j)"

definition place :: "level_hash \<Rightarrow> pos \<Rightarrow> u8 list \<Rightarrow> u8 list \<Rightarrow> level_hash" where
  "place L = (\<lambda>(i, b, j) k v. with_level L i (put_item (buckets L ! i) b j k v))"

definition clear :: "level_hash \<Rightarrow> pos \<Rightarrow> level_hash" where
  "clear L = (\<lambda>(i, b, j). with_level L i (put_token (buckets L ! i) b j 0))"

lemma drop_slot_clear: "drop_slot L i b j = clear L (i, b, j)"
  by (simp add: drop_slot_def clear_def)

definition revalue :: "level_hash \<Rightarrow> pos \<Rightarrow> u8 list \<Rightarrow> level_hash" where
  "revalue L = (\<lambda>(i, b, j) v. with_level L i (put_value (buckets L ! i) b j v))"

definition bucket_ok :: "level_bucket \<Rightarrow> bool" where
  "bucket_ok bk \<longleftrightarrow> length (token bk) = ASSOC_NUM \<and> length (slot bk) = ASSOC_NUM \<and>
     set (token bk) \<subseteq> {0, 1} \<and>
     (\<forall>e \<in> set (slot bk). length (slot_key e) = KEY_LEN \<and> length (slot_value e) = VALUE_LEN)"

definition level_len :: "level_hash \<Rightarrow> nat \<Rightarrow> nat" where
  "level_len L i = length (buckets L ! i)"

definition shape :: "level_hash \<Rightarrow> nat \<Rightarrow> bool" where
  "shape L n \<longleftrightarrow> 2 \<le> n \<and> n < 63 \<and> level_size L = of_nat n \<and> addr_capacity L = 2 ^ n \<and>
     length (buckets L) = 2 \<and> level_len L 0 = 2 ^ n \<and> level_len L 1 = 2 ^ (n - 1) \<and>
     (\<forall>i < 2. \<forall>bk \<in> set (buckets L ! i). bucket_ok bk)"

definition positions :: "level_hash \<Rightarrow> pos set" where
  "positions L = {(i, b, j). i < 2 \<and> b < level_len L i \<and> j < ASSOC_NUM}"

lemma positions_iff: "(i, b, j) \<in> positions L \<longleftrightarrow> i < 2 \<and> b < level_len L i \<and> j < ASSOC_NUM"
  by (simp add: positions_def)

lemma finite_positions [simp]: "finite (positions L)"
proof -
  have "positions L \<subseteq> {..<2} \<times> {..<max (level_len L 0) (level_len L 1)} \<times> {..<ASSOC_NUM}"
    by (auto simp: positions_def less_2_cases_iff)
  then show ?thesis by (rule finite_subset) auto
qed

lemma shape_valid:
  assumes "shape L n" "(i, b, j) \<in> positions L"
  shows "i < length (buckets L)" "valid_slot (buckets L ! i) b j" "bucket_ok (buckets L ! i ! b)"
proof -
  show bk: "bucket_ok (buckets L ! i ! b)"
    using assms by (auto simp: shape_def positions_def level_len_def)
  show "i < length (buckets L)" using assms by (simp add: shape_def positions_def)
  show "valid_slot (buckets L ! i) b j"
    using bk assms by (auto simp: valid_slot_def bucket_ok_def positions_def level_len_def)
qed

lemma tokenR_pos: "shape L n \<Longrightarrow> (i, b, j) \<in> positions L \<Longrightarrow> tokenR L i b j = Inr (tok L (i, b, j))"
  by (simp add: tokenR_def tok_def shape_valid)

lemma entryR_pos: "shape L n \<Longrightarrow> (i, b, j) \<in> positions L \<Longrightarrow> entryR L i b j = Inr (ent L (i, b, j))"
  by (simp add: entryR_def ent_def shape_valid)

lemma tok_01: "shape L n \<Longrightarrow> p \<in> positions L \<Longrightarrow> tok L p = 0 \<or> tok L p = 1"
proof (cases p)
  case (fields i b j)
  assume a: "shape L n" "p \<in> positions L"
  then have "tok L p \<in> set (token (buckets L ! i ! b))"
    using shape_valid [of L n i b j] by (simp add: fields tok_def valid_slot_def)
  moreover have "set (token (buckets L ! i ! b)) \<subseteq> {0, 1}"
    using a shape_valid(3) [of L n i b j] by (simp add: fields bucket_ok_def)
  ultimately show ?thesis by auto
qed

lemma ent_len:
  "shape L n \<Longrightarrow> p \<in> positions L \<Longrightarrow>
   length (slot_key (ent L p)) = KEY_LEN \<and> length (slot_value (ent L p)) = VALUE_LEN"
  using shape_valid [of L n "fst p" "fst (snd p)" "snd (snd p)"]
  by (auto simp: ent_def bucket_ok_def valid_slot_def split: prod.splits)

subsection \<open>Writing at a position\<close>

lemmas write_defs = place_def clear_def revalue_def with_level_def put_item_def put_token_def
  put_value_def

lemma level_len_write [simp]:
  "level_len (place L p k v) i = level_len L i"
  "level_len (clear L p) i = level_len L i"
  "level_len (revalue L p v) i = level_len L i"
  by (cases p; cases "i = fst p"; cases "i < length (buckets L)";
      simp add: write_defs level_len_def list_update_beyond)+

lemma positions_write [simp]:
  "positions (place L p k v) = positions L"
  "positions (clear L p) = positions L"
  "positions (revalue L p v) = positions L"
  by (simp_all add: positions_def)

lemma fields_write [simp]:
  "level_size (place L p k v) = level_size L" "addr_capacity (place L p k v) = addr_capacity L"
  "f_seed (place L p k v) = f_seed L" "s_seed (place L p k v) = s_seed L"
  "level_locks (place L p k v) = level_locks L" "resize_count (place L p k v) = resize_count L"
  "level_size (clear L p) = level_size L" "addr_capacity (clear L p) = addr_capacity L"
  "f_seed (clear L p) = f_seed L" "s_seed (clear L p) = s_seed L"
  "level_locks (clear L p) = level_locks L" "resize_count (clear L p) = resize_count L"
  "level_size (revalue L p v) = level_size L" "addr_capacity (revalue L p v) = addr_capacity L"
  "f_seed (revalue L p v) = f_seed L" "s_seed (revalue L p v) = s_seed L"
  "level_locks (revalue L p v) = level_locks L" "resize_count (revalue L p v) = resize_count L"
  by (cases p; simp add: write_defs)+

lemma tok_write:
  assumes "shape L n" "p \<in> positions L" "q \<in> positions L"
  shows "tok (place L p k v) q = (if q = p then 1 else tok L q)"
    and "tok (clear L p) q = (if q = p then 0 else tok L q)"
    and "tok (revalue L p v) q = tok L q"
proof -
  obtain i b j where p: "p = (i, b, j)" by (cases p)
  obtain i' b' j' where q: "q = (i', b', j')" by (cases q)
  note v = shape_valid [OF assms(1), of i b j] shape_valid [OF assms(1), of i' b' j']
  show "tok (place L p k v) q = (if q = p then 1 else tok L q)"
    and "tok (clear L p) q = (if q = p then 0 else tok L q)"
    and "tok (revalue L p v) q = tok L q"
    using v assms(2,3)
    by (auto simp: p q tok_def write_defs nth_list_update_case valid_slot_def)
qed

lemma ent_write:
  assumes "shape L n" "p \<in> positions L" "q \<in> positions L"
  shows "ent (place L p k v) q = (if q = p then \<lparr>slot_key = k, slot_value = v\<rparr> else ent L q)"
    and "ent (clear L p) q = ent L q"
    and "ent (revalue L p v) q = (if q = p then (ent L p)\<lparr>slot_value := v\<rparr> else ent L q)"
proof -
  obtain i b j where p: "p = (i, b, j)" by (cases p)
  obtain i' b' j' where q: "q = (i', b', j')" by (cases q)
  note v = shape_valid [OF assms(1), of i b j] shape_valid [OF assms(1), of i' b' j']
  show "ent (place L p k v) q = (if q = p then \<lparr>slot_key = k, slot_value = v\<rparr> else ent L q)"
    and "ent (clear L p) q = ent L q"
    and "ent (revalue L p v) q = (if q = p then (ent L p)\<lparr>slot_value := v\<rparr> else ent L q)"
    using v assms(2,3)
    by (auto simp: p q ent_def write_defs nth_list_update_case valid_slot_def)
qed

lemma bucket_ok_write:
  assumes "bucket_ok bk" "j < ASSOC_NUM"
  shows "length k = KEY_LEN \<Longrightarrow> length v = VALUE_LEN \<Longrightarrow>
      bucket_ok \<lparr>token = (token bk)[j := 1], slot = (slot bk)[j := \<lparr>slot_key = k, slot_value = v\<rparr>]\<rparr>"
    and "bucket_ok (bk\<lparr>token := (token bk)[j := 0]\<rparr>)"
    and "length v = VALUE_LEN \<Longrightarrow> bucket_ok (bk\<lparr>slot := (slot bk)[j := (slot bk ! j)\<lparr>slot_value := v\<rparr>]\<rparr>)"
  using assms set_update_subset_insert [of "token bk" j] set_update_subset_insert [of "slot bk" j]
  by (fastforce simp: bucket_ok_def)+

lemma shape_write_aux:
  assumes "shape L n" "(i, b, j) \<in> positions L" "bucket_ok bk"
  shows "shape (with_level L i ((buckets L ! i)[b := bk])) n"
proof -
  let ?L = "with_level L i ((buckets L ! i)[b := bk])"
  have i: "i < length (buckets L)" using assms(1,2) by (simp add: shape_def positions_iff)
  have nth: "buckets ?L ! k = (if k = i then (buckets L ! i)[b := bk] else buckets L ! k)" for k
    using i by (simp add: with_level_def nth_list_update_case)
  have "bucket_ok x" if "k < 2" "x \<in> set (buckets ?L ! k)" for k x
    using that assms set_update_subset_insert [of "buckets L ! i" b bk]
    by (auto simp: nth shape_def split: if_splits)
  moreover have "level_len ?L k = level_len L k" for k
    by (simp add: level_len_def nth)
  ultimately show ?thesis
    using assms(1) unfolding shape_def by (simp add: with_level_def)
qed

lemma shape_write:
  assumes "shape L n" "p \<in> positions L"
  shows "length k = KEY_LEN \<Longrightarrow> length v = VALUE_LEN \<Longrightarrow> shape (place L p k v) n"
    and "shape (clear L p) n"
    and "length v = VALUE_LEN \<Longrightarrow> shape (revalue L p v) n"
proof -
  obtain i b j where p: "p = (i, b, j)" by (cases p)
  have bk: "bucket_ok (buckets L ! i ! b)" "j < ASSOC_NUM"
    using shape_valid [OF assms(1)] assms(2) by (auto simp: p positions_iff)
  show "length k = KEY_LEN \<Longrightarrow> length v = VALUE_LEN \<Longrightarrow> shape (place L p k v) n"
    and "shape (clear L p) n"
    and "length v = VALUE_LEN \<Longrightarrow> shape (revalue L p v) n"
    using shape_write_aux [OF assms(1) assms(2) [unfolded p]] bucket_ok_write [OF bk]
    by (simp_all add: p place_def clear_def revalue_def put_item_def put_token_def put_value_def)
qed

section \<open>Locks\<close>

lemma lock_set_fields [simp]:
  "buckets (lock_set L p x) = buckets L" "addr_capacity (lock_set L p x) = addr_capacity L"
  "level_size (lock_set L p x) = level_size L" "f_seed (lock_set L p x) = f_seed L"
  "s_seed (lock_set L p x) = s_seed L" "resize_count (lock_set L p x) = resize_count L"
  by (cases p; simp add: lock_set_def)+

lemma lock_set_pos [simp]:
  "tok (lock_set L p x) q = tok L q" "ent (lock_set L p x) q = ent L q"
  "level_len (lock_set L p x) i = level_len L i" "positions (lock_set L p x) = positions L"
  "shape (lock_set L p x) n = shape L n"
  "tokenR (lock_set L p x) i b j = tokenR L i b j"
  "entryR (lock_set L p x) i b j = entryR L i b j"
  by (simp_all add: tok_def ent_def level_len_def positions_def shape_def tokenR_def entryR_def
      split: prod.splits)

lemma write_lock_set [simp]:
  "place (lock_set L p x) q k v = lock_set (place L q k v) p x"
  "clear (lock_set L p x) q = lock_set (clear L q) p x"
  "revalue (lock_set L p x) q v = lock_set (revalue L q v) p x"
  by (cases p; cases q; simp add: lock_set_def write_defs)+

lemma lock_set_again:
  "lock_exists L p \<Longrightarrow> lock_free L p \<Longrightarrow> lock_set (lock_set L p x) p 0 = L"
proof (cases p)
  case (fields i b j)
  assume "lock_exists L p" "lock_free L p"
  then have "(level_locks L ! i ! b)[j := 0] = level_locks L ! i ! b"
    by (simp add: fields lock_exists_def lock_free_def list_update_same_conv)
  then have "(level_locks L)[i := (level_locks L ! i)[b := (level_locks L ! i ! b)[j := 0]]] = level_locks L"
    by (simp add: list_update_id)
  then show ?thesis
    using \<open>lock_exists L p\<close> by (simp add: fields lock_set_def lock_exists_def)
qed

interpretation level_lock: slot_locks lock_slot unlock_slot "\<lambda>L p. lock_set L p BUSY" lock_exists lock_free
proof (unfold_locales, goal_cases)
  case (1 L p)
  then show ?case by (cases p) (simp add: lock_slot_def lock_free_def)
next
  case (2 L p)
  then show ?case by (cases p) (simp add: lock_slot_def lock_free_def)
next
  case (3 L p)
  then show ?case by (cases p) (simp add: lock_slot_def)
next
  case (4 L p)
  have "lock_exists (lock_set L p BUSY) p = lock_exists L p" 
    by (cases p) (auto simp: lock_exists_def lock_set_def)
  with 4 lock_set_again [OF 4] show ?case
    by (cases p) (simp add: unlock_slot_def spin_unlock_def)
qed

text \<open>A lock that exists and is free; taking another lock or writing buckets does not change that.\<close>

definition free_at :: "level_hash \<Rightarrow> pos \<Rightarrow> bool" where
  "free_at L p \<longleftrightarrow> lock_exists L p \<and> lock_free L p"

lemma free_at_write [simp]:
  "free_at (place L q k v) p = free_at L p" "free_at (clear L q) p = free_at L p"
  "free_at (revalue L q v) p = free_at L p"
  by (simp_all add: free_at_def lock_exists_def lock_free_def split: prod.splits)

lemma lock_free_at: "free_at L p \<Longrightarrow> lock_slot L p = Inr (lock_set L p BUSY)"
  by (simp add: free_at_def level_lock.acquire_free)

lemma unlock_free_at: "free_at L p \<Longrightarrow> unlock_slot (lock_set L p BUSY) p = Inr L"
  by (simp add: free_at_def level_lock.release_hold)

lemma free_at_other:
  assumes "free_at L p" "free_at L q" "p \<noteq> q"
  shows "free_at (lock_set L p x) q"
  using assms
  by (cases p; cases q)
     (auto simp: free_at_def lock_exists_def lock_free_def lock_set_def nth_list_update_case)

lemma lock_set_commute:
  assumes "free_at L p" "p \<noteq> q"
  shows "lock_set (lock_set L p x) q y = lock_set (lock_set L q y) p x"
proof -
  obtain i b j i' b' j' where pq: "p = (i, b, j)" "q = (i', b', j')" by (cases p, cases q)
  show ?thesis
    using assms
    by (cases "i = i'"; cases "b = b'"; cases "j = j'")
       (auto simp: pq lock_set_def free_at_def lock_exists_def list_update_swap nth_list_update_case)
qed

text \<open>All locks present and free: the state before and after every operation.\<close>

definition locks_ok :: "level_hash \<Rightarrow> bool" where
  "locks_ok L \<longleftrightarrow> level_locks L = map (\<lambda>bs. replicate (length bs) (replicate ASSOC_NUM 0)) (buckets L)"

lemma locks_ok_free:
  "locks_ok L \<Longrightarrow> length (buckets L) = 2 \<Longrightarrow> p \<in> positions L \<Longrightarrow> free_at L p"
  by (cases p) (simp add: locks_ok_def free_at_def lock_exists_def lock_free_def positions_def level_len_def)

lemma locks_ok_write:
  assumes "locks_ok L"
  shows "locks_ok (place L p k v)" "locks_ok (clear L p)" "locks_ok (revalue L p v)"
proof -
  have aux: "map (\<lambda>bs. replicate (length bs) (replicate ASSOC_NUM (0 :: u8))) (xs[i := (xs ! i)[b := y]]) =
      map (\<lambda>bs. replicate (length bs) (replicate ASSOC_NUM 0)) xs" for xs :: "level_bucket list list" and i b y
    by (cases "i < length xs") (simp_all add: map_update list_update_same_conv list_update_beyond)
  show "locks_ok (place L p k v)" "locks_ok (clear L p)" "locks_ok (revalue L p v)"
    using assms by (cases p; simp add: locks_ok_def write_defs aux)+
qed

section \<open>Candidate buckets\<close>

definition hash_str :: "u64 \<Rightarrow> u8 list \<Rightarrow> u64" where
  "hash_str seed s = (case hash 0 s (of_nat (length s)) seed of Inl e \<Rightarrow> 0 | Inr h \<Rightarrow> h)"

lemma hash_terminated:
  assumes "0 \<in> set k" "length k < 2 ^ 64"
  shows "bindR (c_strlen k) (\<lambda>n. hash 0 k (of_nat n) seed) = Inr (hash_str seed (c_str k))"
proof -
  have len: "length (c_str k) < length k" by (rule c_str_less [OF assms(1)])
  then have "unat (of_nat (length (c_str k)) :: u64) = length (c_str k)"
    using assms(2) by (simp add: unat_of_nat_u64)
  moreover have "take (length (c_str k)) k = c_str k"
    by (simp add: c_str_def takeWhile_eq_take [symmetric])
  ultimately show ?thesis
    using hash_prefix [of "of_nat (length (c_str k))" k 0 seed 0] len
    by (auto simp: c_strlen_Inr [OF assms(1)] hash_str_def)
qed

definition half :: "level_hash \<Rightarrow> nat \<Rightarrow> nat" where
  "half L i = level_len L i div 2"

definition f_home :: "level_hash \<Rightarrow> nat \<Rightarrow> u8 list \<Rightarrow> nat" where
  "f_home L i s = unat (hash_str (f_seed L) s) mod half L i"

definition s_home :: "level_hash \<Rightarrow> nat \<Rightarrow> u8 list \<Rightarrow> nat" where
  "s_home L i s = unat (hash_str (s_seed L) s) mod half L i + half L i"

lemma home_lock_set [simp]:
  "half (lock_set L p x) i = half L i" "f_home (lock_set L p x) i s = f_home L i s"
  "s_home (lock_set L p x) i s = s_home L i s"
  by (simp_all add: half_def f_home_def s_home_def)

lemma home_write [simp]:
  "half (place L p k v) i = half L i" "half (clear L p) i = half L i" "half (revalue L p v) i = half L i"
  "f_home (place L p k v) i s = f_home L i s" "f_home (clear L p) i s = f_home L i s"
  "f_home (revalue L p v) i s = f_home L i s"
  "s_home (place L p k v) i s = s_home L i s" "s_home (clear L p) i s = s_home L i s"
  "s_home (revalue L p v) i s = s_home L i s"
  by (simp_all add: half_def f_home_def s_home_def)

lemma level_len_eq: "shape L n \<Longrightarrow> i < 2 \<Longrightarrow> level_len L i = 2 ^ (n - i)"
  by (auto simp: shape_def less_2_cases_iff)

lemma half_pos: "shape L n \<Longrightarrow> i < 2 \<Longrightarrow> 0 < half L i \<and> 2 * half L i = level_len L i"
proof -
  assume a: "shape L n" "i < 2"
  then have "n - i = Suc (n - i - 1)" unfolding shape_def by linarith
  then have "level_len L i = 2 * 2 ^ (n - i - 1)" using level_len_eq [OF a] by (metis power_Suc)
  then show ?thesis by (simp add: half_def)
qed

lemma homes_bound:
  assumes "shape L n" "i < 2"
  shows "f_home L i s < half L i" "half L i \<le> s_home L i s" "s_home L i s < level_len L i"
    "f_home L i s < level_len L i" "f_home L i s \<noteq> s_home L i s"
proof -
  note h = half_pos [OF assms]
  show f: "f_home L i s < half L i" and "half L i \<le> s_home L i s"
    using h by (simp_all add: f_home_def s_home_def)
  have "unat (hash_str (s_seed L) s) mod half L i < half L i" using h by simp
  then show "s_home L i s < level_len L i" unfolding s_home_def using h by linarith
  show "f_home L i s < level_len L i" using f h by linarith
  show "f_home L i s \<noteq> s_home L i s" using f by (simp add: s_home_def)
qed

lemma locations_eq:
  assumes "unat (c :: u64) div 2 \<noteq> 0"
  shows "locations f s c =
    Inr (unat f mod (unat c div 2), unat s mod (unat c div 2) + unat c div 2)"
proof -
  have c2: "unat (c div 2) = unat c div 2" by (simp add: unat_div)
  then have nz: "c div 2 \<noteq> 0" using assms by (metis unat_0)
  have "unat s mod (unat c div 2) < unat c div 2" using assms by simp
  then have "unat (s mod (c div 2)) + unat (c div 2) < 2 ^ 64"
    using unat_bound_u64 [of c] by (simp add: unat_mod c2)
  then have "unat (s mod (c div 2) + c div 2) = unat s mod (unat c div 2) + unat c div 2"
    using unat_add_lem [of "s mod (c div 2)" "c div 2"] by (simp add: unat_mod c2)
  then show ?thesis
    using nz by (simp add: locations_def F_IDX_def S_IDX_def unat_mod c2)
qed

lemma unat_capacity: "shape L n \<Longrightarrow> unat (addr_capacity L) = 2 ^ n"
  by (simp add: shape_def unat_pow2_u64)

lemma locations_level:
  assumes "shape L n" "i < 2" "unat c = level_len L i"
  shows "locations (hash_str (f_seed L) s) (hash_str (s_seed L) s) c = Inr (f_home L i s, s_home L i s)"
  using half_pos [OF assms(1,2)] assms(3)
  by (simp add: locations_eq f_home_def s_home_def half_def)

lemma locations_top:
  "shape L n \<Longrightarrow> locations (hash_str (f_seed L) s) (hash_str (s_seed L) s) (addr_capacity L) =
     Inr (f_home L 0 s, s_home L 0 s)"
  by (rule locations_level) (auto simp: unat_capacity level_len_eq)

lemma unat_capacity_half: "shape L n \<Longrightarrow> unat (addr_capacity L div 2) = level_len L 1"
  by (simp add: unat_div unat_capacity level_len_eq) (auto simp: shape_def power_diff)

lemma locations_bottom:
  "shape L n \<Longrightarrow> locations (hash_str (f_seed L) s) (hash_str (s_seed L) s) (addr_capacity L div 2) =
     Inr (f_home L 1 s, s_home L 1 s)"
  by (rule locations_level) (auto simp: unat_capacity_half)

section \<open>Invariant and abstraction\<close>

definition occ :: "level_hash \<Rightarrow> pos set" where
  "occ L = {p \<in> positions L. tok L p = 1}"

definition key_of :: "level_hash \<Rightarrow> pos \<Rightarrow> u8 list" where
  "key_of L p = c_str (slot_key (ent L p))"

definition at_home :: "level_hash \<Rightarrow> pos \<Rightarrow> u8 list \<Rightarrow> bool" where
  "at_home L = (\<lambda>(i, b, j) s. b = f_home L i s \<or> b = s_home L i s)"

definition level_wf :: "level_hash \<Rightarrow> bool" where
  "level_wf L \<longleftrightarrow> (\<exists>n. shape L n) \<and>
     (\<forall>p \<in> occ L. 0 \<in> set (slot_key (ent L p)) \<and> at_home L p (key_of L p))"

definition items :: "level_hash \<Rightarrow> (u8 list \<times> u8 list) multiset" where
  "items L = image_mset (\<lambda>p. (key_of L p, slot_value (ent L p))) (mset_set (occ L))"

text \<open>A key argument is a C string that fits, with its terminator, into a slot.\<close>

definition good_key :: "u8 list \<Rightarrow> bool" where
  "good_key k \<longleftrightarrow> KEY_LEN \<le> length k \<and> length k < 2 ^ 64 \<and> 0 \<in> set (take KEY_LEN k)"

lemma good_keyD:
  assumes "good_key k"
  shows "0 \<in> set k" "length (c_str k) < KEY_LEN" "c_str (take KEY_LEN k) = c_str k"
    "length (take KEY_LEN k) = KEY_LEN"
proof -
  show e: "c_str (take KEY_LEN k) = c_str k"
    using assms by (simp add: good_key_def c_str_take)
  show "0 \<in> set k" using assms by (auto simp: good_key_def dest: in_set_takeD)
  show l: "length (take KEY_LEN k) = KEY_LEN" using assms by (simp add: good_key_def)
  show "length (c_str k) < KEY_LEN"
    using c_str_less [of "take KEY_LEN k"] assms e l by (simp add: good_key_def)
qed

lemma finite_occ [simp]: "finite (occ L)"
  by (simp add: occ_def)

lemma occ_lock_set [simp]: "occ (lock_set L p x) = occ L"
  by (simp add: occ_def)

lemma key_of_write:
  assumes "shape L n" "p \<in> positions L" "q \<in> positions L"
  shows "key_of (place L p k v) q = (if q = p then c_str k else key_of L q)"
    and "key_of (clear L p) q = key_of L q"
    and "key_of (revalue L p v) q = key_of L q"
  by (simp_all add: key_of_def ent_write [OF assms])

lemma at_home_write [simp]:
  "at_home (place L p k v) q s = at_home L q s" "at_home (clear L p) q s = at_home L q s"
  "at_home (revalue L p v) q s = at_home L q s"
  by (simp_all add: at_home_def split: prod.splits)

lemma occ_write:
  assumes "shape L n" "p \<in> positions L"
  shows "occ (place L p k v) = insert p (occ L)" "occ (clear L p) = occ L - {p}"
    "occ (revalue L p v) = occ L"
proof -
  have "q \<in> occ (place L p k v) \<longleftrightarrow> q \<in> insert p (occ L)" "q \<in> occ (clear L p) \<longleftrightarrow> q \<in> occ L - {p}"
    "q \<in> occ (revalue L p v) \<longleftrightarrow> q \<in> occ L" for q
    using assms(2)
    by (cases "q = p"; cases "q \<in> positions L"; simp add: occ_def tok_write [OF assms])+
  then show "occ (place L p k v) = insert p (occ L)" "occ (clear L p) = occ L - {p}"
    "occ (revalue L p v) = occ L" by blast+
qed

lemma place_correct:
  assumes s: "shape L n" and p: "p \<in> positions L" "tok L p = 0"
    and k: "length k = KEY_LEN" "length v = VALUE_LEN"
  shows "items (place L p k v) = add_mset (c_str k, v) (items L)"
    and "level_wf L \<Longrightarrow> 0 \<in> set k \<Longrightarrow> at_home L p (c_str k) \<Longrightarrow> level_wf (place L p k v)"
proof -
  have np: "p \<notin> occ L" using p by (simp add: occ_def)
  have "image_mset (\<lambda>q. (key_of (place L p k v) q, slot_value (ent (place L p k v) q))) (mset_set (insert p (occ L)))
      = add_mset (key_of (place L p k v) p, slot_value (ent (place L p k v) p)) (items L)"
    unfolding items_def
    by (rule image_mset_insert_pos)
       (use np in \<open>auto simp: occ_def key_of_write [OF s p(1)] ent_write [OF s p(1)]\<close>)
  then show "items (place L p k v) = add_mset (c_str k, v) (items L)"
    by (simp add: items_def occ_write [OF s p(1)] key_of_write [OF s p(1) p(1)] ent_write [OF s p(1) p(1)])
  show "level_wf (place L p k v)"
    if "level_wf L" "0 \<in> set k" "at_home L p (c_str k)"
    using that shape_write(1) [OF s p(1) k] np
    unfolding level_wf_def occ_write(1) [OF s p(1)]
    by (auto simp: occ_def key_of_write [OF s p(1)] ent_write [OF s p(1)] p(1))
qed

lemma clear_correct:
  assumes s: "shape L n" and p: "p \<in> positions L" "tok L p = 1"
  shows "items L = add_mset (key_of L p, slot_value (ent L p)) (items (clear L p))"
    and "level_wf L \<Longrightarrow> level_wf (clear L p)"
proof -
  have po: "p \<in> occ L" using p by (simp add: occ_def)
  have "items L = add_mset (key_of L p, slot_value (ent L p))
      (image_mset (\<lambda>q. (key_of (clear L p) q, slot_value (ent (clear L p) q))) (mset_set (occ L - {p})))"
    unfolding items_def
    by (rule image_mset_remove_pos [OF finite_occ po])
       (auto simp: occ_def key_of_write [OF s p(1)] ent_write [OF s p(1)])
  then show "items L = add_mset (key_of L p, slot_value (ent L p)) (items (clear L p))"
    by (simp add: items_def occ_write [OF s p(1)])
  show "level_wf L \<Longrightarrow> level_wf (clear L p)"
    using shape_write(2) [OF s p(1)] unfolding level_wf_def occ_write(2) [OF s p(1)]
    by (auto simp: occ_def key_of_write [OF s p(1)] ent_write [OF s p(1)])
qed

lemma revalue_correct:
  assumes s: "shape L n" and p: "p \<in> positions L" "tok L p = 1" and v: "length v = VALUE_LEN"
  shows "items (revalue L p v) = add_mset (key_of L p, v) (items L - {#(key_of L p, slot_value (ent L p))#})"
    and "level_wf L \<Longrightarrow> level_wf (revalue L p v)"
proof -
  have po: "p \<in> occ L" using p by (simp add: occ_def)
  let ?rest = "image_mset (\<lambda>q. (key_of L q, slot_value (ent L q))) (mset_set (occ L - {p}))"
  have "items (revalue L p v) =
      add_mset (key_of (revalue L p v) p, slot_value (ent (revalue L p v) p)) ?rest"
    unfolding items_def occ_write(3) [OF s p(1)]
    by (rule image_mset_remove_pos [OF finite_occ po])
       (auto simp: occ_def key_of_write [OF s p(1)] ent_write [OF s p(1)])
  moreover have "items L = add_mset (key_of L p, slot_value (ent L p)) ?rest"
    unfolding items_def by (rule image_mset_remove_pos [OF finite_occ po]) simp
  ultimately show "items (revalue L p v) =
      add_mset (key_of L p, v) (items L - {#(key_of L p, slot_value (ent L p))#})"
    by (simp add: key_of_write [OF s p(1) p(1)] ent_write [OF s p(1) p(1)])
  show "level_wf L \<Longrightarrow> level_wf (revalue L p v)"
    using shape_write(3) [OF s p(1) v] unfolding level_wf_def occ_write(3) [OF s p(1)]
    by (auto simp: occ_def key_of_write [OF s p(1)] ent_write [OF s p(1)])
qed

lemma in_items_iff: "x \<in># items L \<longleftrightarrow> (\<exists>p \<in> occ L. x = (key_of L p, slot_value (ent L p)))"
  by (auto simp: items_def)

section \<open>Searching\<close>

definition matches :: "level_hash \<Rightarrow> u8 list \<Rightarrow> pos \<Rightarrow> bool" where
  "matches L s p \<longleftrightarrow> tok L p = 1 \<and> key_of L p = s"

definition probe_order :: "level_hash \<Rightarrow> u8 list \<Rightarrow> pos list" where
  "probe_order L s =
     concat (map (\<lambda>i. map (\<lambda>j. (i, f_home L i s, j)) [0..<ASSOC_NUM] @
                      map (\<lambda>j. (i, s_home L i s, j)) [0..<ASSOC_NUM]) [0, 1])"

lemma slot_matches_pos:
  assumes "shape L n" "(i, b, j) \<in> positions L" "good_key key"
  shows "slot_matches L i b j key = Inr (matches L (c_str key) (i, b, j))"
proof -
  have "length (c_str key) < length (slot_key (ent L (i, b, j)))"
    using ent_len [OF assms(1,2)] good_keyD [OF assms(3)] by simp
  then show ?thesis
    using c_strcmp_eq_Inr [OF good_keyD(1) [OF assms(3)]] assms
    by (simp add: slot_matches_def tokenR_pos entryR_pos matches_def key_of_def)
qed

lemma slot_matches_lock_set [simp]:
  "slot_matches (lock_set L p x) i b j key = slot_matches L i b j key"
  by (simp add: slot_matches_def cong: if_cong)

text \<open>An action that may run under a slot lock: it neither reads nor writes locks.\<close>

definition lock_blind :: "(level_hash \<Rightarrow> nat \<Rightarrow> nat \<Rightarrow> nat \<Rightarrow> level_hash \<times> 'r) \<Rightarrow> bool" where
  "lock_blind act \<longleftrightarrow> (\<forall>L p i b j x. act (lock_set L p x) i b j =
      (lock_set (fst (act L i b j)) p x, snd (act L i b j))) \<and>
     (\<forall>L p i b j. free_at (fst (act L i b j)) p = free_at L p)"

lemma visit_slots_pure:
  assumes "shape L n" "lock_blind act" "good_key key"
    and "\<forall>j \<in> set js. (i, b, j) \<in> positions L \<and> free_at L (i, b, j)"
  shows "visit_slots act L i b key js =
    (case find (\<lambda>j. matches L (c_str key) (i, b, j)) js of
       None \<Rightarrow> Inr (L, None)
     | Some j \<Rightarrow> Inr (fst (act L i b j), Some (snd (act L i b j))))"
  using assms(4)
proof (induction js)
  case (Cons j js)
  then have p: "(i, b, j) \<in> positions L" "free_at L (i, b, j)" by auto
  have "free_at (fst (act L i b j)) (i, b, j)" using assms(2) p by (simp add: lock_blind_def)
  moreover have "act (lock_set L (i, b, j) BUSY) i b j =
      (lock_set (fst (act L i b j)) (i, b, j) BUSY, snd (act L i b j))"
    using assms(2) by (simp add: lock_blind_def)
  ultimately show ?case
    using Cons p assms(1,3)
    by (simp add: lock_free_at unlock_free_at slot_matches_pos Let_def)
qed simp

lemma home_positions:
  assumes "shape L n" "i < 2" "j < ASSOC_NUM"
  shows "(i, f_home L i s, j) \<in> positions L" "(i, s_home L i s, j) \<in> positions L"
  using homes_bound [OF assms(1,2)] assms(2,3) by (simp_all add: positions_iff)

lemma hash_of_key:
  assumes "0 \<in> set k" "length k < 2 ^ 64"
  shows "F_HASH L k = Inr (hash_str (f_seed L) (c_str k))"
    "S_HASH L k = Inr (hash_str (s_seed L) (c_str k))"
  using hash_terminated [OF assms] by (simp_all add: F_HASH_def S_HASH_def)

lemma visit_table_pure:
  assumes s: "shape L n" and l: "locks_ok L" and a: "lock_blind act" and k: "good_key key"
  shows "visit_table act L key =
    (case find (matches L (c_str key)) (probe_order L (c_str key)) of
       None \<Rightarrow> Inr (L, None)
     | Some (i, b, j) \<Rightarrow> Inr (fst (act L i b j), Some (snd (act L i b j))))"
proof -
  have b2: "length (buckets L) = 2" using s by (simp add: shape_def)
  have slots: "visit_slots act L i b key [0..<ASSOC_NUM] =
      (case find (\<lambda>j. matches L (c_str key) (i, b, j)) [0..<ASSOC_NUM] of
         None \<Rightarrow> Inr (L, None) | Some j \<Rightarrow> Inr (fst (act L i b j), Some (snd (act L i b j))))"
    if "i < 2" "b = f_home L i (c_str key) \<or> b = s_home L i (c_str key)" for i b
    using that home_positions [OF s, of i _ "c_str key"] locks_ok_free [OF l b2]
    by (intro visit_slots_pure [OF s a k]) (auto simp: atLeast0LessThan)
  have kk: "0 \<in> set key" "length key < 2 ^ 64" using k good_keyD(1) [OF k] by (auto simp: good_key_def)
  have upt: "[0..<ASSOC_NUM] \<noteq> []" by simp
  show ?thesis
    unfolding visit_table_def hash_of_key [OF kk] bindR.simps locations_top [OF s] visit_levels.simps
      probe_order_def
    by (simp add: slots locations_bottom [OF s] find_append find_map del: upt.upt_Suc upt_rec_numeral
        split: option.splits)
qed

lemma probe_order_set:
  "set (probe_order L s) = {(i, b, j). i < 2 \<and> (b = f_home L i s \<or> b = s_home L i s) \<and> j < ASSOC_NUM}"
  by (auto simp: probe_order_def less_2_cases_iff)

text \<open>By the invariant, the probed slots are the only ones that can hold the key.\<close>

lemma probe_finds:
  assumes "level_wf L"
  shows "find (matches L s) (probe_order L s) = None \<longleftrightarrow> (\<forall>v. (s, v) \<notin># items L)"
    and "find (matches L s) (probe_order L s) = Some p \<Longrightarrow>
      p \<in> occ L \<and> key_of L p = s"
proof -
  obtain n where sh: "shape L n" using assms by (auto simp: level_wf_def)
  have sub: "set (probe_order L s) \<subseteq> positions L"
    using homes_bound [OF sh] by (auto simp: probe_order_set positions_def)
  have mem: "p \<in> set (probe_order L s)" if "p \<in> occ L" "key_of L p = s" for p
    using assms that
    by (auto simp: level_wf_def probe_order_set at_home_def occ_def positions_def split: prod.splits)
  show "find (matches L s) (probe_order L s) = None \<longleftrightarrow> (\<forall>v. (s, v) \<notin># items L)"
  proof
    assume "find (matches L s) (probe_order L s) = None"
    then have "\<not> matches L s q" if "q \<in> set (probe_order L s)" for q
      using that by (metis find_None_iff)
    then have "key_of L q \<noteq> s" if "q \<in> occ L" for q
      using mem [of q] that by (metis (mono_tags, lifting) matches_def mem_Collect_eq occ_def)
    then show "\<forall>v. (s, v) \<notin># items L" by (auto simp: in_items_iff)
  next
    assume none: "\<forall>v. (s, v) \<notin># items L"
    have "\<not> matches L s q" if "q \<in> set (probe_order L s)" for q
    proof
      assume "matches L s q"
      then have "q \<in> occ L" "key_of L q = s" using sub that by (auto simp: occ_def matches_def)
      then have "(s, slot_value (ent L q)) \<in># items L" unfolding in_items_iff by blast
      then show False using none by blast
    qed
    then show "find (matches L s) (probe_order L s) = None"
      unfolding find_None_iff by blast
  qed
  show "p \<in> occ L \<and> key_of L p = s" if "find (matches L s) (probe_order L s) = Some p"
    using that sub by (auto simp: find_Some_iff matches_def occ_def)
qed

lemma lock_blind_acts: "lock_blind read_act" "lock_blind delete_act" "lock_blind (update_act v)"
proof -
  have d: "delete_act L i b j = (clear L (i, b, j), ())" for L i b j
    by (simp add: delete_act_def drop_slot_clear)
  have u: "update_act v L i b j = (revalue L (i, b, j) (take VALUE_LEN v), ())" for L i b j
    by (simp add: update_act_def revalue_def)
  show "lock_blind read_act" "lock_blind delete_act" "lock_blind (update_act v)"
    by (simp_all add: lock_blind_def d u) (simp_all add: read_act_def)
qed

section \<open>Lookup, deletion and update\<close>

lemma occD: "p \<in> occ L \<Longrightarrow> p \<in> positions L \<and> tok L p = 1"
  by (simp add: occ_def)

lemma item_of_occ: "p \<in> occ L \<Longrightarrow> (key_of L p, slot_value (ent L p)) \<in># items L"
  unfolding in_items_iff by blast

lemma query_correct:
  assumes wf: "level_wf L" and l: "locks_ok L" and k: "good_key key" and v: "VALUE_LEN \<le> length value"
  shows "(\<exists>w. level_query L key value = Inr (L, 0, w @ drop VALUE_LEN value) \<and> (c_str key, w) \<in># items L) \<or>
     level_query L key value = Inr (L, 1, value) \<and> (\<forall>w. (c_str key, w) \<notin># items L)"
proof -
  obtain n where sh: "shape L n" using wf by (auto simp: level_wf_def)
  note vt = visit_table_pure [OF sh l lock_blind_acts(1) k]
  show ?thesis
  proof (cases "find (matches L (c_str key)) (probe_order L (c_str key))")
    case None
    moreover have "\<forall>w. (c_str key, w) \<notin># items L" using probe_finds(1) [OF wf] None by blast
    ultimately show ?thesis by (simp add: level_query_def vt)
  next
    case (Some p)
    have "p \<in> occ L" "key_of L p = c_str key" using probe_finds(2) [OF wf Some] by auto
    then have "(c_str key, slot_value (ent L p)) \<in># items L" using item_of_occ by fastforce
    then show ?thesis
      using v Some by (cases p) (simp add: level_query_def vt read_act_def ent_def)
  qed
qed

text \<open>
  C3: looking a key up in a well-formed table terminates without deadlock or undefined behaviour,
  leaves the table unchanged, returns 0 with the value of a stored item of that key if there is
  one, and returns 1 with the caller's buffer untouched exactly when no item of that key is stored.
\<close>

theorem level_query_correct:
  assumes "level_wf L" "locks_ok L" "good_key key" "VALUE_LEN \<le> length value"
  shows "\<exists>rc out. level_query L key value = Inr (L, rc, out) \<and>
     (rc = 0 \<longleftrightarrow> (\<exists>w. (c_str key, w) \<in># items L)) \<and>
     (rc = 0 \<longrightarrow> (\<exists>w. (c_str key, w) \<in># items L \<and> out = w @ drop VALUE_LEN value)) \<and>
     (rc \<noteq> 0 \<longrightarrow> rc = 1 \<and> out = value)"
  using query_correct [OF assms] by fastforce

lemma delete_correct:
  assumes wf: "level_wf L" and l: "locks_ok L" and k: "good_key key"
  shows "(\<exists>L' w. level_delete L key = Inr (L', 0) \<and> level_wf L' \<and> locks_ok L' \<and>
        items L = add_mset (c_str key, w) (items L')) \<or>
     level_delete L key = Inr (L, 1) \<and> (\<forall>w. (c_str key, w) \<notin># items L)"
proof -
  obtain n where sh: "shape L n" using wf by (auto simp: level_wf_def)
  note vt = visit_table_pure [OF sh l lock_blind_acts(2) k]
  show ?thesis
  proof (cases "find (matches L (c_str key)) (probe_order L (c_str key))")
    case None
    moreover have "\<forall>w. (c_str key, w) \<notin># items L" using probe_finds(1) [OF wf] None by blast
    ultimately show ?thesis by (simp add: level_delete_def vt)
  next
    case (Some p)
    have p: "p \<in> positions L" "tok L p = 1" "key_of L p = c_str key"
      using probe_finds(2) [OF wf Some] by (auto dest: occD)
    have "level_delete L key = Inr (clear L p, 0)"
      using Some by (cases p) (simp add: level_delete_def vt delete_act_def drop_slot_clear)
    then show ?thesis
      using clear_correct [OF sh p(1,2)] wf locks_ok_write(2) [OF l] p(3) by auto
  qed
qed

text \<open>
  C4: deletion removes exactly one stored item of the key and keeps the invariant and all locks
  free; it returns 1 and changes nothing exactly when the key is not stored.
\<close>

theorem level_delete_correct:
  assumes "level_wf L" "locks_ok L" "good_key key"
  shows "\<exists>L' rc. level_delete L key = Inr (L', rc) \<and> level_wf L' \<and> locks_ok L' \<and>
     (rc = 0 \<longrightarrow> (\<exists>w. items L = add_mset (c_str key, w) (items L'))) \<and>
     (rc \<noteq> 0 \<longrightarrow> rc = 1 \<and> L' = L \<and> (\<forall>w. (c_str key, w) \<notin># items L))"
  using delete_correct [OF assms] assms by auto

lemma update_correct:
  assumes wf: "level_wf L" and l: "locks_ok L" and k: "good_key key" and v: "VALUE_LEN \<le> length value"
  shows "(\<exists>L' w. level_update L key value = Inr (L', 0) \<and> level_wf L' \<and> locks_ok L' \<and>
        (c_str key, w) \<in># items L \<and>
        items L' = add_mset (c_str key, take VALUE_LEN value) (items L - {#(c_str key, w)#})) \<or>
     level_update L key value = Inr (L, 1) \<and> (\<forall>w. (c_str key, w) \<notin># items L)"
proof -
  obtain n where sh: "shape L n" using wf by (auto simp: level_wf_def)
  note vt = visit_table_pure [OF sh l lock_blind_acts(3) k]
  show ?thesis
  proof (cases "find (matches L (c_str key)) (probe_order L (c_str key))")
    case None
    moreover have "\<forall>w. (c_str key, w) \<notin># items L" using probe_finds(1) [OF wf] None by blast
    ultimately show ?thesis by (simp add: level_update_def vt)
  next
    case (Some p)
    have p: "p \<in> occ L" "p \<in> positions L" "tok L p = 1" "key_of L p = c_str key"
      using probe_finds(2) [OF wf Some] by (auto dest: occD)
    have len: "length (take VALUE_LEN value) = VALUE_LEN" using v by simp
    have "level_update L key value = Inr (revalue L p (take VALUE_LEN value), 0)"
      using Some v by (cases p) (simp add: level_update_def vt update_act_def revalue_def)
    then show ?thesis
      using revalue_correct [OF sh p(2,3) len] wf locks_ok_write(3) [OF l] p(4) item_of_occ [OF p(1)]
      by auto
  qed
qed

text \<open>
  An update replaces the value of exactly one stored item of the key, keeps the invariant and
  all locks free, and returns 1 with the table unchanged exactly when the key is not stored.
\<close>

theorem level_update_correct:
  assumes "level_wf L" "locks_ok L" "good_key key" "VALUE_LEN \<le> length value"
  shows "\<exists>L' rc. level_update L key value = Inr (L', rc) \<and> level_wf L' \<and> locks_ok L' \<and>
     (rc = 0 \<longrightarrow> (\<exists>w. (c_str key, w) \<in># items L \<and>
        items L' = add_mset (c_str key, take VALUE_LEN value) (items L - {#(c_str key, w)#}))) \<and>
     (rc \<noteq> 0 \<longrightarrow> rc = 1 \<and> L' = L \<and> (\<forall>w. (c_str key, w) \<notin># items L))"
  using update_correct [OF assms] assms by auto

section \<open>Insertion\<close>

definition good_value :: "u8 list \<Rightarrow> bool" where
  "good_value v \<longleftrightarrow> VALUE_LEN \<le> length v"

lemma fill_slot_pos:
  assumes "shape L n" "(i, b, j) \<in> positions L" "KEY_LEN \<le> length k" "VALUE_LEN \<le> length v"
  shows "fill_slot L i b j k v = Inr (place L (i, b, j) (take KEY_LEN k) (take VALUE_LEN v))"
  using assms shape_valid [OF assms(1,2)] by (simp add: fill_slot_def place_def)

lemma fill_slot_lock_set [simp]:
  "fill_slot (lock_set L p x) i b j k v = bindR (fill_slot L i b j k v) (\<lambda>L'. Inr (lock_set L' p x))"
  using write_lock_set(1) [of L p x "(i, b, j)" "take KEY_LEN k" "take VALUE_LEN v"]
  by (simp add: fill_slot_def place_def)

lemma fill_if_empty_pos:
  assumes "shape L n" "(i, b, j) \<in> positions L" "free_at L (i, b, j)"
    "KEY_LEN \<le> length k" "VALUE_LEN \<le> length v"
  shows "fill_if_empty L i b j k v =
    (if tok L (i, b, j) = 0 then Inr (place L (i, b, j) (take KEY_LEN k) (take VALUE_LEN v), True)
     else Inr (L, False))"
  using assms
  by (simp add: fill_if_empty_def lock_free_at unlock_free_at tokenR_pos fill_slot_pos)

text \<open>The result of an insertion attempt: an empty slot of a candidate bucket was filled, or none is empty.\<close>

lemma insert_slots_pure:
  assumes "shape L n" "KEY_LEN \<le> length k" "VALUE_LEN \<le> length v"
    and "\<forall>j \<in> set js. \<forall>b \<in> {f, s}. (i, b, j) \<in> positions L \<and> free_at L (i, b, j)"
  shows "(\<exists>b \<in> {f, s}. \<exists>j \<in> set js. tok L (i, b, j) = 0 \<and>
       insert_slots L i f s k v js = Inr (place L (i, b, j) (take KEY_LEN k) (take VALUE_LEN v), True)) \<or>
     insert_slots L i f s k v js = Inr (L, False) \<and>
       (\<forall>b \<in> {f, s}. \<forall>j \<in> set js. tok L (i, b, j) \<noteq> 0)"
  using assms(4)
proof (induction js)
  case (Cons j js)
  have pos: "(i, f, j) \<in> positions L" "free_at L (i, f, j)" "(i, s, j) \<in> positions L" "free_at L (i, s, j)"
    using Cons.prems by auto
  note fill = fill_if_empty_pos [OF assms(1) pos(1,2) assms(2,3)]
    fill_if_empty_pos [OF assms(1) pos(3,4) assms(2,3)]
  show ?case
  proof (cases "tok L (i, f, j) = 0 \<or> tok L (i, s, j) = 0")
    case True
    then show ?thesis by (cases "tok L (i, f, j) = 0") (auto simp: fill)
  next
    case False
    then have "insert_slots L i f s k v (j # js) = insert_slots L i f s k v js"
      by (simp add: fill)
    then show ?thesis using False Cons by fastforce
  qed
qed simp

text \<open>What a successful insertion does to the table.\<close>

definition grown :: "level_hash \<Rightarrow> u8 list \<Rightarrow> u8 list \<Rightarrow> level_hash \<Rightarrow> bool" where
  "grown L key value L' \<longleftrightarrow> level_wf L' \<and> locks_ok L' \<and>
     items L' = add_mset (c_str key, take VALUE_LEN value) (items L)"

lemma place_grown:
  assumes wf: "level_wf L" "locks_ok L" and kv: "good_key key" "good_value value"
    and p: "p \<in> positions L" "tok L p = 0" "at_home L p (c_str key)"
  shows "grown L key value (place L p (take KEY_LEN key) (take VALUE_LEN value))"
proof -
  obtain n where sh: "shape L n" using wf by (auto simp: level_wf_def)
  have len: "length (take KEY_LEN key) = KEY_LEN" "length (take VALUE_LEN value) = VALUE_LEN"
    using kv by (simp_all add: good_key_def good_value_def)
  have z: "0 \<in> set (take KEY_LEN key)" using kv by (simp add: good_key_def)
  show ?thesis
    using place_correct [OF sh p(1,2) len] wf locks_ok_write(1) [OF wf(2)] z p(3) good_keyD(3) [OF kv(1)]
    by (simp add: grown_def)
qed

text \<open>The eight candidate slots of a key at a level are all occupied.\<close>

definition level_full :: "level_hash \<Rightarrow> nat \<Rightarrow> u8 list \<Rightarrow> bool" where
  "level_full L i s \<longleftrightarrow> (\<forall>j < ASSOC_NUM. tok L (i, f_home L i s, j) = 1 \<and> tok L (i, s_home L i s, j) = 1)"

lemma insert_level_correct:
  assumes wf: "level_wf L" "locks_ok L" and kv: "good_key key" "good_value value" and i: "i < 2"
  shows "(\<exists>L'. insert_slots L i (f_home L i (c_str key)) (s_home L i (c_str key)) key value [0..<ASSOC_NUM] =
        Inr (L', True) \<and> grown L key value L') \<or>
     insert_slots L i (f_home L i (c_str key)) (s_home L i (c_str key)) key value [0..<ASSOC_NUM] =
        Inr (L, False) \<and> level_full L i (c_str key)"
proof -
  obtain n where sh: "shape L n" using wf by (auto simp: level_wf_def)
  let ?f = "f_home L i (c_str key)" and ?s = "s_home L i (c_str key)"
  have pos: "(i, b, j) \<in> positions L" if "b \<in> {?f, ?s}" "j < ASSOC_NUM" for b j
    using that home_positions [OF sh i] by auto
  have b2: "length (buckets L) = 2" using sh by (simp add: shape_def)
  have kl: "KEY_LEN \<le> length key" "VALUE_LEN \<le> length value"
    using kv by (auto simp: good_key_def good_value_def)
  have "\<forall>j \<in> set [0..<ASSOC_NUM]. \<forall>b \<in> {?f, ?s}. (i, b, j) \<in> positions L \<and> free_at L (i, b, j)"
    using pos locks_ok_free [OF wf(2) b2] by auto
  from insert_slots_pure [OF sh kl this] show ?thesis
  proof (elim disjE bexE conjE)
    fix b j assume bj: "b \<in> {?f, ?s}" "j \<in> set [0..<ASSOC_NUM]" "tok L (i, b, j) = 0"
      and eq: "insert_slots L i ?f ?s key value [0..<ASSOC_NUM] =
        Inr (place L (i, b, j) (take KEY_LEN key) (take VALUE_LEN value), True)"
    have "at_home L (i, b, j) (c_str key)" using bj(1) by (auto simp: at_home_def)
    moreover have "(i, b, j) \<in> positions L" using pos bj by simp
    ultimately show ?thesis using place_grown [OF wf kv] bj(3) eq by blast
  next
    assume full: "\<forall>b \<in> {?f, ?s}. \<forall>j \<in> set [0..<ASSOC_NUM]. tok L (i, b, j) \<noteq> 0"
      and eq: "insert_slots L i ?f ?s key value [0..<ASSOC_NUM] = Inr (L, False)"
    have "tok L (i, b, j) = 1" if "b \<in> {?f, ?s}" "j < ASSOC_NUM" for b j
      using full that tok_01 [OF sh pos [OF that]] by auto
    then have "level_full L i (c_str key)" unfolding level_full_def by simp
    with eq show ?thesis by blast
  qed
qed

subsection \<open>Moving an item to its alternative bucket\<close>

definition relocate :: "level_hash \<Rightarrow> pos \<Rightarrow> pos \<Rightarrow> level_hash" where
  "relocate L p q = clear (place L q (slot_key (ent L p)) (slot_value (ent L p))) p"

lemma relocate_correct:
  assumes wf: "level_wf L" "locks_ok L" and p: "p \<in> occ L"
    and q: "q \<in> positions L" "tok L q = 0" "at_home L q (key_of L p)"
  shows "level_wf (relocate L p q)" "locks_ok (relocate L p q)" "items (relocate L p q) = items L"
    "tok (relocate L p q) p = 0"
    "positions (relocate L p q) = positions L" "at_home (relocate L p q) r s = at_home L r s"
proof -
  obtain n where sh: "shape L n" using wf by (auto simp: level_wf_def)
  have pp: "p \<in> positions L" "tok L p = 1" using p by (auto dest: occD)
  have pq: "p \<noteq> q" using pp q by auto
  let ?k = "slot_key (ent L p)" and ?v = "slot_value (ent L p)"
  let ?M = "place L q ?k ?v"
  have len: "length ?k = KEY_LEN" "length ?v = VALUE_LEN" using ent_len [OF sh pp(1)] by auto
  have z: "0 \<in> set ?k" using wf p by (auto simp: level_wf_def)
  note pl = place_correct [OF sh q(1,2) len]
  have shM: "shape ?M n" by (rule shape_write(1) [OF sh q(1) len])
  have pM: "p \<in> positions ?M" "tok ?M p = 1"
    using pp pq by (simp_all add: tok_write [OF sh q(1)])
  note cl = clear_correct [OF shM pM]
  have wfM: "level_wf ?M" using pl(2) wf z q(3) by (simp add: key_of_def)
  show "level_wf (relocate L p q)" using cl(2) wfM by (simp add: relocate_def)
  show "locks_ok (relocate L p q)" using wf by (simp add: relocate_def locks_ok_write)
  have e: "key_of ?M p = key_of L p" "ent ?M p = ent L p"
    using pp pq by (simp_all add: key_of_write [OF sh q(1)] ent_write [OF sh q(1)])
  have "add_mset (key_of L p, ?v) (items L) = add_mset (key_of L p, ?v) (items (clear ?M p))"
    using pl(1) cl(1) by (simp add: e key_of_def)
  then show "items (relocate L p q) = items L" by (simp add: relocate_def)
  show "tok (relocate L p q) p = 0"
    using pM(1) by (simp add: relocate_def tok_write [OF shM])
  show "positions (relocate L p q) = positions L" "at_home (relocate L p q) r s = at_home L r s"
    by (simp_all add: relocate_def)
qed

lemma refill_grown:
  assumes wf: "level_wf L" "locks_ok L" and kv: "good_key key" "good_value value"
    and p: "p \<in> occ L" "at_home L p (c_str key)"
    and q: "q \<in> positions L" "tok L q = 0" "at_home L q (key_of L p)"
  shows "grown L key value (place (relocate L p q) p (take KEY_LEN key) (take VALUE_LEN value))"
proof -
  note r = relocate_correct [OF wf p(1) q]
  have "grown (relocate L p q) key value
      (place (relocate L p q) p (take KEY_LEN key) (take VALUE_LEN value))"
    using r p by (intro place_grown kv) (auto dest: occD)
  then show ?thesis using r(3) by (simp add: grown_def)
qed

lemma move_into_pure:
  assumes sh: "shape L n" and p: "(lvl, idx, i) \<in> positions L" "free_at L (lvl, idx, i)"
    and kl: "KEY_LEN \<le> length key" "VALUE_LEN \<le> length value" and ne: "jdx \<noteq> idx"
    and js: "\<forall>j \<in> set js. (lvl, jdx, j) \<in> positions L \<and> free_at L (lvl, jdx, j)"
  shows "(\<exists>j \<in> set js. tok L (lvl, jdx, j) = 0 \<and>
       move_into (lock_set L (lvl, idx, i) BUSY) lvl idx i (ent L (lvl, idx, i)) jdx key value js =
         Inr (place (relocate L (lvl, idx, i) (lvl, jdx, j)) (lvl, idx, i)
                (take KEY_LEN key) (take VALUE_LEN value), True)) \<or>
     move_into (lock_set L (lvl, idx, i) BUSY) lvl idx i (ent L (lvl, idx, i)) jdx key value js =
       Inr (lock_set L (lvl, idx, i) BUSY, False)"
  using js
proof (induction js)
  case (Cons j js)
  let ?p = "(lvl, idx, i)" and ?q = "(lvl, jdx, j)"
  have q: "?q \<in> positions L" "free_at L ?q" using Cons.prems by auto
  have fq: "free_at (lock_set L ?p BUSY) ?q" using free_at_other [OF p(2) q(2)] ne by simp
  note lk = lock_free_at [OF fq]
  show ?case
  proof (cases "tok L ?q = 0")
    case True
    let ?e = "ent L ?p"
    have len: "length (slot_key ?e) = KEY_LEN" "length (slot_value ?e) = VALUE_LEN"
      using ent_len [OF sh p(1)] by auto
    let ?M = "place L ?q (slot_key ?e) (slot_value ?e)"
    have shM: "shape ?M n" by (rule shape_write(1) [OF sh q(1) len])
    have shC: "shape (clear ?M ?p) n" by (rule shape_write(2) [OF shM]) (simp add: p)
    have fill1: "fill_slot L lvl jdx j (slot_key ?e) (slot_value ?e) = Inr ?M"
      using fill_slot_pos [OF sh q(1)] len by simp
    have fill2: "fill_slot (clear ?M ?p) lvl idx i key value =
        Inr (place (clear ?M ?p) ?p (take KEY_LEN key) (take VALUE_LEN value))"
      using fill_slot_pos [OF shC] p(1) kl by simp
    have rd: "tokenR ?M lvl idx i = Inr (tok ?M ?p)" using tokenR_pos [OF shM] p(1) by simp
    have fX: "free_at (lock_set (clear ?M ?p) ?p BUSY) ?q"
      using free_at_other [of "clear ?M ?p" ?p ?q] p(2) q(2) ne by simp
    have fY: "free_at (place (clear ?M ?p) ?p (take KEY_LEN key) (take VALUE_LEN value)) ?p"
      using p(2) by simp
    have "move_into (lock_set L ?p BUSY) lvl idx i ?e jdx key value (j # js) =
        Inr (place (clear ?M ?p) ?p (take KEY_LEN key) (take VALUE_LEN value), True)"
      by (simp add: lk tokenR_pos [OF sh q(1)] True fill1 rd drop_slot_clear unlock_free_at [OF fX]
          fill2 unlock_free_at [OF fY])
    then show ?thesis using True by (auto simp: relocate_def)
  next
    case False
    then have "move_into (lock_set L ?p BUSY) lvl idx i (ent L ?p) jdx key value (j # js) =
        move_into (lock_set L ?p BUSY) lvl idx i (ent L ?p) jdx key value js"
      by (simp add: lk tokenR_pos [OF sh q(1)] unlock_free_at [OF fq])
    then show ?thesis using Cons by fastforce
  qed
qed simp

lemma locations_lvl:
  assumes "shape L n" "lvl < 2"
  shows "locations (hash_str (f_seed L) s) (hash_str (s_seed L) s) (addr_capacity L div of_nat (1 + lvl)) =
    Inr (f_home L lvl s, s_home L lvl s)"
proof -
  from assms(2) consider "lvl = 0" | "lvl = 1" by linarith
  then show ?thesis
    using locations_top [OF assms(1), of s] locations_bottom [OF assms(1), of s] by cases simp_all
qed

lemma hash_of_stored:
  assumes "level_wf L" "p \<in> occ L"
  shows "F_HASH L (slot_key (ent L p)) = Inr (hash_str (f_seed L) (key_of L p))"
    "S_HASH L (slot_key (ent L p)) = Inr (hash_str (s_seed L) (key_of L p))"
proof -
  obtain n where "shape L n" using assms(1) by (auto simp: level_wf_def)
  then have "length (slot_key (ent L p)) < 2 ^ 64" using ent_len occD [OF assms(2)] by fastforce
  moreover have "0 \<in> set (slot_key (ent L p))" using assms by (auto simp: level_wf_def)
  ultimately show "F_HASH L (slot_key (ent L p)) = Inr (hash_str (f_seed L) (key_of L p))"
    "S_HASH L (slot_key (ent L p)) = Inr (hash_str (s_seed L) (key_of L p))"
    by (simp_all add: hash_of_key key_of_def)
qed

lemma hash_lock_set [simp]: "F_HASH (lock_set L p x) k = F_HASH L k" "S_HASH (lock_set L p x) k = S_HASH L k"
  by (simp_all add: F_HASH_def S_HASH_def)

lemma movement_slots_correct:
  assumes wf: "level_wf L" "locks_ok L" and kv: "good_key key" "good_value value"
    and lvl: "lvl < 2" "idx < level_len L lvl" "at_home L (lvl, idx, 0) (c_str key)"
    and full: "\<forall>i \<in> set is. i < ASSOC_NUM \<and> tok L (lvl, idx, i) = 1"
  shows "(\<exists>L'. movement_slots L idx lvl key value is = Inr (L', True) \<and> grown L key value L') \<or>
     movement_slots L idx lvl key value is = Inr (L, False)"
  using full
proof (induction "is")
  case (Cons i "is")
  obtain n where sh: "shape L n" using wf by (auto simp: level_wf_def)
  have b2: "length (buckets L) = 2" using sh by (simp add: shape_def)
  have kl: "KEY_LEN \<le> length key" "VALUE_LEN \<le> length value"
    using kv by (auto simp: good_key_def good_value_def)
  let ?p = "(lvl, idx, i)"
  have p: "?p \<in> positions L" "?p \<in> occ L"
    using Cons.prems lvl by (auto simp: positions_iff occ_def)
  have fp: "free_at L ?p" by (rule locks_ok_free [OF wf(2) b2 p(1)])
  let ?s = "key_of L ?p"
  define jdx where "jdx = (if f_home L lvl ?s = idx then s_home L lvl ?s else f_home L lvl ?s)"
  note hb = homes_bound [OF sh lvl(1), of ?s]
  have jdx: "jdx \<noteq> idx" "jdx < level_len L lvl" "jdx = f_home L lvl ?s \<or> jdx = s_home L lvl ?s"
    using hb by (auto simp: jdx_def)
  have js: "\<forall>j \<in> set [0..<ASSOC_NUM]. (lvl, jdx, j) \<in> positions L \<and> free_at L (lvl, jdx, j)"
    using jdx lvl locks_ok_free [OF wf(2) b2] by (auto simp: positions_iff)
  let ?mv = "move_into (lock_set L ?p BUSY) lvl idx i (ent L ?p) jdx key value [0..<ASSOC_NUM]"
  have step: "movement_slots L idx lvl key value (i # is) =
      bindR ?mv (\<lambda>(L2, ok). if ok then Inr (L2, True)
        else bindR (unlock_slot L2 ?p) (\<lambda>L3. movement_slots L3 idx lvl key value is))"
    using locations_lvl [OF sh lvl(1), of ?s]
    by (simp add: lock_free_at [OF fp] entryR_pos [OF sh p(1)] hash_of_stored [OF wf(1) p(2)]
        Let_def jdx_def del: upt_rec_numeral)
  from move_into_pure [OF sh p(1) fp kl jdx(1) js] show ?case
  proof (elim disjE bexE conjE)
    fix j assume j: "j \<in> set [0..<ASSOC_NUM]" "tok L (lvl, jdx, j) = 0"
      and mv: "?mv = Inr (place (relocate L ?p (lvl, jdx, j)) ?p (take KEY_LEN key) (take VALUE_LEN value), True)"
    have "at_home L (lvl, jdx, j) ?s" using jdx(3) by (simp add: at_home_def)
    moreover have "at_home L ?p (c_str key)" using lvl(3) by (simp add: at_home_def)
    ultimately have "grown L key value
        (place (relocate L ?p (lvl, jdx, j)) ?p (take KEY_LEN key) (take VALUE_LEN value))"
      using js j by (intro refill_grown [OF wf kv p(2)]) auto
    then show ?thesis unfolding step mv by simp
  next
    assume "?mv = Inr (lock_set L ?p BUSY, False)"
    then have "movement_slots L idx lvl key value (i # is) = movement_slots L idx lvl key value is"
      unfolding step by (simp add: unlock_free_at [OF fp])
    then show ?thesis using Cons by simp
  qed
qed simp

lemma try_movement_correct:
  assumes "level_wf L" "locks_ok L" "good_key key" "good_value value"
    and "lvl < 2" "idx < level_len L lvl" "at_home L (lvl, idx, 0) (c_str key)"
    and "\<forall>i < ASSOC_NUM. tok L (lvl, idx, i) = 1"
  shows "(\<exists>L'. try_movement L idx lvl key value = Inr (L', 0) \<and> grown L key value L') \<or>
     try_movement L idx lvl key value = Inr (L, 1)"
  using movement_slots_correct [OF assms(1-7), of "[0..<ASSOC_NUM]"] assms(8)
  unfolding try_movement_def by fastforce

lemma movement_level_correct:
  assumes wf: "level_wf L" "locks_ok L" and kv: "good_key key" "good_value value"
    and i: "i < 2" "level_full L i (c_str key)" and b: "b = f_home L i (c_str key) \<or> b = s_home L i (c_str key)"
  shows "(\<exists>L'. try_movement L b i key value = Inr (L', 0) \<and> grown L key value L') \<or>
     try_movement L b i key value = Inr (L, 1)"
proof -
  obtain n where sh: "shape L n" using wf by (auto simp: level_wf_def)
  show ?thesis
    using homes_bound [OF sh i(1), of "c_str key"] i b
    by (intro try_movement_correct [OF wf kv i(1)]) (auto simp: at_home_def level_full_def)
qed

lemma movement_levels_correct:
  assumes wf: "level_wf L" "locks_ok L" and kv: "good_key key" "good_value value"
    and full: "level_full L 0 (c_str key)" "level_full L 1 (c_str key)"
  shows "(\<exists>L' fs. movement_levels L key value (hash_str (f_seed L) (c_str key)) (hash_str (s_seed L) (c_str key))
        (f_home L 0 (c_str key), s_home L 0 (c_str key)) [0, 1] = Inr (L', True, fs) \<and> grown L key value L') \<or>
     movement_levels L key value (hash_str (f_seed L) (c_str key)) (hash_str (s_seed L) (c_str key))
        (f_home L 0 (c_str key), s_home L 0 (c_str key)) [0, 1] =
       Inr (L, False, f_home L 1 (c_str key), s_home L 1 (c_str key))"
proof -
  obtain n where sh: "shape L n" using wf by (auto simp: level_wf_def)
  note loc = locations_bottom [OF sh, of "c_str key"]
  note m = movement_level_correct [OF wf kv]
  note m0 = m [OF _ full(1), of "f_home L 0 (c_str key)"] m [OF _ full(1), of "s_home L 0 (c_str key)"]
  note m1 = m [OF _ full(2), of "f_home L 1 (c_str key)"] m [OF _ full(2), of "s_home L 1 (c_str key)"]
  show ?thesis using m0 m1 by (auto simp: loc)
qed

subsection \<open>Moving an item from the bottom level to the top level\<close>

lemma lift_into_pure:
  assumes sh: "shape L n" and p: "(1, idx, i) \<in> positions L" "free_at L (1, idx, i)"
    and js: "\<forall>j \<in> set js. \<forall>b \<in> {f, s}. (0, b, j) \<in> positions L \<and> free_at L (0, b, j)"
  shows "(\<exists>b \<in> {f, s}. \<exists>j \<in> set js. tok L (0, b, j) = 0 \<and>
       lift_into (lock_set L (1, idx, i) BUSY) idx i (ent L (1, idx, i)) js (f, s) =
         Inr (lock_set (relocate L (1, idx, i) (0, b, j)) (1, idx, i) BUSY, True)) \<or>
     lift_into (lock_set L (1, idx, i) BUSY) idx i (ent L (1, idx, i)) js (f, s) =
       Inr (lock_set L (1, idx, i) BUSY, False)"
  using js
proof (induction js)
  case (Cons j js)
  note [simp del] = One_nat_def
  let ?p = "(1, idx, i)" and ?e = "ent L (1, idx, i)" and ?H = "lock_set L (1, idx, i) BUSY"
  have len: "length (slot_key ?e) = KEY_LEN" "length (slot_value ?e) = VALUE_LEN"
    using ent_len [OF sh p(1)] by auto
  have fill: "fill_if_empty ?H 0 b j (slot_key ?e) (slot_value ?e) =
      (if tok L (0, b, j) = 0
       then Inr (lock_set (place L (0, b, j) (slot_key ?e) (slot_value ?e)) ?p BUSY, True)
       else Inr (?H, False))" if "b \<in> {f, s}" for b
  proof -
    have q: "(0, b, j) \<in> positions L" "free_at L (0, b, j)" using Cons.prems that by auto
    have "free_at ?H (0, b, j)" using free_at_other [OF p(2) q(2)] by simp
    then show ?thesis
      using fill_if_empty_pos [of ?H n 0 b j "slot_key ?e" "slot_value ?e"] sh q len by simp
  qed
  show ?case
  proof (cases "tok L (0, f, j) = 0 \<or> tok L (0, s, j) = 0")
    case True
    then show ?thesis
      by (cases "tok L (0, f, j) = 0") (auto simp: fill drop_slot_clear relocate_def)
  next
    case False
    then have "lift_into ?H idx i ?e (j # js) (f, s) = lift_into ?H idx i ?e js (f, s)"
      by (simp add: fill)
    then show ?thesis using Cons by fastforce
  qed
qed simp

lemma b2t_slots_correct:
  assumes wf: "level_wf L" "locks_ok L" and idx: "idx < level_len L 1"
    and full: "\<forall>i \<in> set is. i < ASSOC_NUM \<and> tok L (1, idx, i) = 1"
  shows "(\<exists>i q. i < ASSOC_NUM \<and> (1, idx, i) \<in> occ L \<and> q \<in> positions L \<and> tok L q = 0 \<and>
       at_home L q (key_of L (1, idx, i)) \<and>
       b2t_slots L idx is = Inr (lock_set (relocate L (1, idx, i) q) (1, idx, i) BUSY, Some i)) \<or>
     b2t_slots L idx is = Inr (L, None)"
  using full
proof (induction "is")
  case (Cons i "is")
  obtain n where sh: "shape L n" using wf by (auto simp: level_wf_def)
  have b2: "length (buckets L) = 2" using sh by (simp add: shape_def)
  let ?p = "(1, idx, i)" and ?s = "key_of L (1, idx, i)"
  have p: "?p \<in> positions L" "?p \<in> occ L" "i < ASSOC_NUM"
    using Cons.prems idx by (auto simp: positions_iff occ_def)
  have fp: "free_at L ?p" by (rule locks_ok_free [OF wf(2) b2 p(1)])
  let ?f = "f_home L 0 ?s" and ?b = "s_home L 0 ?s"
  have js: "\<forall>j \<in> set [0..<ASSOC_NUM]. \<forall>b \<in> {?f, ?b}. (0, b, j) \<in> positions L \<and> free_at L (0, b, j)"
    using home_positions [OF sh, of 0 _ ?s] locks_ok_free [OF wf(2) b2] by auto
  let ?lift = "lift_into (lock_set L ?p BUSY) idx i (ent L ?p) [0..<ASSOC_NUM] (?f, ?b)"
  have step: "b2t_slots L idx (i # is) =
      bindR ?lift (\<lambda>(L2, ok). if ok then Inr (L2, Some i)
        else bindR (unlock_slot L2 ?p) (\<lambda>L3. b2t_slots L3 idx is))"
    using locations_top [OF sh, of ?s]
    by (simp add: lock_free_at [OF fp, simplified] entryR_pos [OF sh p(1), simplified]
        hash_of_stored [OF wf(1) p(2), simplified] del: upt_rec_numeral)
  from lift_into_pure [OF sh p(1) fp js] show ?case
  proof (elim disjE bexE conjE)
    fix b j assume bj: "b \<in> {?f, ?b}" "j \<in> set [0..<ASSOC_NUM]" "tok L (0, b, j) = 0"
      and lift: "?lift = Inr (lock_set (relocate L ?p (0, b, j)) ?p BUSY, True)"
    have "b2t_slots L idx (i # is) = Inr (lock_set (relocate L ?p (0, b, j)) ?p BUSY, Some i)"
      unfolding step lift by simp
    moreover have "at_home L (0, b, j) ?s" using bj(1) by (auto simp: at_home_def)
    ultimately show ?thesis using p js bj by blast
  next
    assume "?lift = Inr (lock_set L ?p BUSY, False)"
    then have "b2t_slots L idx (i # is) = b2t_slots L idx is"
      unfolding step by (simp add: unlock_free_at [OF fp, simplified])
    then show ?thesis using Cons by simp
  qed
qed simp

lemma b2t_insert_correct:
  assumes wf: "level_wf L" "locks_ok L" and kv: "good_key key" "good_value value"
    and idx: "idx < level_len L 1" "at_home L (1, idx, 0) (c_str key)"
    and full: "\<forall>i < ASSOC_NUM. tok L (1, idx, i) = 1"
  shows "(\<exists>L'. b2t_insert L idx key value = Inr (L', True) \<and> grown L key value L') \<or>
     b2t_insert L idx key value = Inr (L, False)"
proof -
  obtain n where sh: "shape L n" using wf by (auto simp: level_wf_def)
  have b2: "length (buckets L) = 2" using sh by (simp add: shape_def)
  have kl: "KEY_LEN \<le> length key" "VALUE_LEN \<le> length value"
    using kv by (auto simp: good_key_def good_value_def)
  have "\<forall>i \<in> set [0..<ASSOC_NUM]. i < ASSOC_NUM \<and> tok L (1, idx, i) = 1" using full by simp
  from b2t_slots_correct [OF wf idx(1) this] show ?thesis
  proof (elim disjE exE conjE)
    fix i q assume i: "i < ASSOC_NUM" "(1, idx, i) \<in> occ L"
      and q: "q \<in> positions L" "tok L q = 0" "at_home L q (key_of L (1, idx, i))"
      and mv: "b2t_slots L idx [0..<ASSOC_NUM] =
        Inr (lock_set (relocate L (1, idx, i) q) (1, idx, i) BUSY, Some i)"
    let ?p = "(1, idx, i)" and ?R = "relocate L (1, idx, i) q"
    have p: "?p \<in> positions L" "free_at L ?p" using occD [OF i(2)] locks_ok_free [OF wf(2) b2] by auto
    note r = relocate_correct [OF wf i(2) q]
    obtain m where shR: "shape ?R m" using r(1) by (auto simp: level_wf_def)
    have fill: "fill_slot ?R 1 idx i key value = Inr (place ?R ?p (take KEY_LEN key) (take VALUE_LEN value))"
      using fill_slot_pos [OF shR _ kl] p r(5) by simp
    have fr: "free_at (place ?R ?p (take KEY_LEN key) (take VALUE_LEN value)) ?p"
      using p by (simp add: relocate_def)
    have "b2t_insert L idx key value = Inr (place ?R ?p (take KEY_LEN key) (take VALUE_LEN value), True)"
      unfolding b2t_insert_def b2t_movement_def mv
      using fill unlock_free_at [OF fr] by simp
    moreover have "at_home L ?p (c_str key)" using idx(2) by (simp add: at_home_def)
    ultimately show ?thesis using refill_grown [OF wf kv i(2) _ q] by blast
  next
    assume "b2t_slots L idx [0..<ASSOC_NUM] = Inr (L, None)"
    then show ?thesis by (simp add: b2t_insert_def b2t_movement_def)
  qed
qed

subsection \<open>The whole insertion\<close>

lemma insert_levels_correct:
  assumes wf: "level_wf L" "locks_ok L" and kv: "good_key key" "good_value value"
  shows "(\<exists>L'. insert_levels L key value (hash_str (f_seed L) (c_str key)) (hash_str (s_seed L) (c_str key))
        (f_home L 0 (c_str key), s_home L 0 (c_str key)) [0, 1] = Inr (L', True) \<and> grown L key value L') \<or>
     insert_levels L key value (hash_str (f_seed L) (c_str key)) (hash_str (s_seed L) (c_str key))
        (f_home L 0 (c_str key), s_home L 0 (c_str key)) [0, 1] = Inr (L, False) \<and>
       level_full L 0 (c_str key) \<and> level_full L 1 (c_str key)"
proof -
  obtain n where sh: "shape L n" using wf by (auto simp: level_wf_def)
  note loc = locations_bottom [OF sh, of "c_str key"]
  have two: "(0 :: nat) < 2" "(1 :: nat) < 2" by simp_all
  show ?thesis
    using insert_level_correct [OF wf kv two(1)] insert_level_correct [OF wf kv two(2)]
    unfolding insert_levels.simps by (elim disjE exE conjE) (simp_all add: loc del: upt_rec_numeral)
qed

lemma insert_correct:
  assumes wf: "level_wf L" "locks_ok L" and kv: "good_key key" "good_value value"
  shows "(\<exists>L'. level_insert L key value = Inr (L', 0) \<and> grown L key value L') \<or>
     level_insert L key value = Inr (L, 1) \<and> level_full L 0 (c_str key) \<and> level_full L 1 (c_str key)"
proof -
  note [simp del] = insert_levels.simps movement_levels.simps One_nat_def
  obtain n where sh: "shape L n" using wf by (auto simp: level_wf_def)
  have kk: "0 \<in> set key" "length key < 2 ^ 64"
    using kv good_keyD(1) [OF kv(1)] by (auto simp: good_key_def)
  let ?s = "c_str key"
  note start = level_insert_def hash_of_key [OF kk] locations_top [OF sh, of ?s]
  from insert_levels_correct [OF wf kv] show ?thesis
  proof (elim disjE exE conjE)
    fix L' assume "insert_levels L key value (hash_str (f_seed L) ?s) (hash_str (s_seed L) ?s)
        (f_home L 0 ?s, s_home L 0 ?s) [0, 1] = Inr (L', True)" "grown L key value L'"
    then show ?thesis by (simp add: start)
  next
    assume il: "insert_levels L key value (hash_str (f_seed L) ?s) (hash_str (s_seed L) ?s)
        (f_home L 0 ?s, s_home L 0 ?s) [0, 1] = Inr (L, False)"
      and full: "level_full L 0 ?s" "level_full L 1 ?s"
    have b2t: "(\<exists>L'. b2t_insert L b key value = Inr (L', True) \<and> grown L key value L') \<or>
        b2t_insert L b key value = Inr (L, False)"
      if "b = f_home L 1 ?s \<or> b = s_home L 1 ?s" for b
      using that homes_bound [OF sh, of 1 ?s] full(2)
      by (intro b2t_insert_correct [OF wf kv]) (auto simp: at_home_def level_full_def)
    from movement_levels_correct [OF wf kv full] show ?thesis
    proof (elim disjE exE conjE)
      fix L' fs assume "movement_levels L key value (hash_str (f_seed L) ?s) (hash_str (s_seed L) ?s)
          (f_home L 0 ?s, s_home L 0 ?s) [0, 1] = Inr (L', True, fs)" "grown L key value L'"
      then show ?thesis by (cases fs) (simp add: start il)
    next
      assume "movement_levels L key value (hash_str (f_seed L) ?s) (hash_str (s_seed L) ?s)
          (f_home L 0 ?s, s_home L 0 ?s) [0, 1] = Inr (L, False, f_home L 1 ?s, s_home L 1 ?s)"
      then show ?thesis
        using b2t [of "f_home L 1 ?s"] b2t [of "s_home L 1 ?s"] full
        by (cases "0 < resize_count L") (auto simp: start il)
    qed
  qed
qed

text \<open>
  C5: inserting into a well-formed table terminates without deadlock or undefined behaviour and
  leaves all locks free. It either returns 0 and the stored items are the old ones plus the new
  one - although items may have moved between buckets and levels on the way - or it returns 1,
  changes nothing, and all sixteen candidate slots of the key are occupied.
\<close>

theorem level_insert_correct:
  assumes "level_wf L" "locks_ok L" "good_key key" "good_value value"
  shows "\<exists>L' rc. level_insert L key value = Inr (L', rc) \<and> level_wf L' \<and> locks_ok L' \<and>
     (rc = 0 \<longrightarrow> items L' = add_mset (c_str key, take VALUE_LEN value) (items L)) \<and>
     (rc \<noteq> 0 \<longrightarrow> rc = 1 \<and> L' = L \<and> (\<forall>i < 2. level_full L i (c_str key)))"
  using insert_correct [OF assms] assms by (auto simp: grown_def less_2_cases_iff)

end
