(* ===== verification/LevelHash_Resize.thy ===== *)
theory LevelHash_Resize
  imports LevelHash_Proofs
begin

text \<open>
  Initialisation and resizing of the level hash table. \<open>level_resize\<close> builds a new top level of
  twice the size, rehashes the bottom level into it and makes the old top level the bottom level.
  The theory shows that no stored item is lost or invented, that the invariant holds for the new
  layout, and that the lock arrays, which the code does not enlarge, no longer cover it.
\<close>

section \<open>Initialisation\<close>

text \<open>The seed loop stops at the first iteration whose two seeds differ.\<close>

lemma generate_seeds_step:
  "generate_seeds rand k =
     (if fst (seed_pair rand k) = snd (seed_pair rand k) then generate_seeds rand (k + 4)
      else Some (seed_pair rand k))"
  by (subst generate_seeds.simps) (simp add: Let_def split: prod.splits)

lemma generate_seeds_differ:
  assumes "generate_seeds rand k = Some r"
  shows "fst r \<noteq> snd r"
  using assms
  by (rule generate_seeds.raw_induct [where P = "\<lambda>rand k r. fst r \<noteq> snd r", rotated])
     (auto simp: Let_def split: prod.splits if_splits)

lemma generate_seeds_stops:
  "fst (seed_pair rand (k + 4 * m)) \<noteq> snd (seed_pair rand (k + 4 * m)) \<Longrightarrow>
   \<exists>r. generate_seeds rand k = Some r"
proof (induction m arbitrary: k)
  case 0
  then show ?case by (simp add: generate_seeds_step [of rand k])
next
  case (Suc m)
  then have "\<exists>r. generate_seeds rand (k + 4) = Some r"
    using Suc.IH [of "k + 4"] by (simp add: add.assoc)
  then show ?case by (simp add: generate_seeds_step [of rand k])
qed

lemma zero_bucket_ok: "bucket_ok zero_bucket"
  by (simp add: bucket_ok_def zero_bucket_def zero_entry_def)

lemma tok_zero: "b < n \<Longrightarrow> j < ASSOC_NUM \<Longrightarrow> token (replicate n zero_bucket ! b) ! j = 0"
  by (simp add: zero_bucket_def)

lemma pow2R_of_nat: "n < 64 \<Longrightarrow> pow2R (of_nat n) = Inr (2 ^ n)"
  by (simp add: pow2R_def unat_of_nat_u64)

lemma level_init_result:
  assumes n: "2 \<le> n" "n < 63" and alloc: "\<forall>k. alloc k" and seeds: "generate_seeds rand 0 = Some (f, s)"
  shows "\<exists>L. level_init alloc rand (of_nat n) = Inr L \<and> level_wf L \<and> locks_ok L \<and> items L = {#} \<and>
     f_seed L = f \<and> s_seed L = s \<and> level_size L = of_nat n"
proof -
  have n1: "(of_nat n :: u64) - 1 = of_nat (n - 1)" using n by simp
  have pw: "pow2R (of_nat n) = Inr (2 ^ n)" "pow2R (of_nat n - 1) = Inr (2 ^ (n - 1))"
    using n pow2R_of_nat [of n] pow2R_of_nat [of "n - 1"] unfolding n1 by auto
  have un: "unat (2 ^ n :: u64) = 2 ^ n" "unat (2 ^ (n - 1) :: u64) = 2 ^ (n - 1)"
    using n by (auto intro!: unat_pow2_u64)
  let ?L = "\<lparr>buckets = [replicate (2 ^ n) zero_bucket, replicate (2 ^ (n - 1)) zero_bucket],
      level_locks = [replicate (2 ^ n) (replicate ASSOC_NUM 0), replicate (2 ^ (n - 1)) (replicate ASSOC_NUM 0)],
      thread_num = 0, addr_capacity = 2 ^ n, total_capacity = 2 ^ n + 2 ^ (n - 1),
      level_size = of_nat n, resize_count = 0, f_seed = f, s_seed = s\<rparr>"
  have "level_init alloc rand (of_nat n) = Inr ?L"
    unfolding level_init_def pw bindR.simps un using alloc by (simp add: seeds)
  moreover have sh: "shape ?L n"
    using n zero_bucket_ok by (auto simp: shape_def level_len_def less_2_cases_iff)
  moreover have occ: "occ ?L = {}"
  proof -
    have "tok ?L (i, b, j) = 0" if "(i, b, j) \<in> positions ?L" for i b j
      using that tok_zero by (auto simp: positions_iff tok_def level_len_def less_2_cases_iff)
    then show ?thesis by (auto simp: occ_def)
  qed
  moreover have "locks_ok ?L" by (simp add: locks_ok_def)
  ultimately show ?thesis by (intro exI [of _ ?L]) (auto simp: level_wf_def items_def)
qed

text \<open>
  A table created with a level size between 2 and 62 and all allocations successful is
  well-formed and empty, all its locks are free, and its two seeds differ - provided the random
  numbers eventually give two different seeds, without which the seed loop would not end.
\<close>

theorem level_init_correct:
  assumes "2 \<le> n" "n < 63" "\<forall>k. alloc k"
    and "fst (seed_pair rand (4 * m)) \<noteq> snd (seed_pair rand (4 * m))"
  shows "\<exists>L. level_init alloc rand (of_nat n) = Inr L \<and> level_wf L \<and> locks_ok L \<and> items L = {#} \<and>
     f_seed L \<noteq> s_seed L"
proof -
  obtain f s where g: "generate_seeds rand 0 = Some (f, s)"
    using generate_seeds_stops [of rand 0 m] assms(4) by auto
  then show ?thesis
    using level_init_result [OF assms(1-3) g] generate_seeds_differ [OF g] by auto
qed

text \<open>Concrete data for the witnesses: two levels of 4 and 2 buckets, a one-letter key.\<close>

definition sample_rand :: "nat \<Rightarrow> u64" where
  "sample_rand k = of_nat (k mod 4)"

definition sample_key :: "u8 list" where
  "sample_key = [97, 0, 0, 0, 0, 0, 0, 0]"

lemma sample_seeds: "seed_pair sample_rand 0 = (0, 8)"
  by (simp add: seed_pair_def sample_rand_def)

lemma sample_good: "good_key sample_key" "c_str sample_key = [97]" "good_value sample_key"
  "VALUE_LEN \<le> length sample_key"
  by (simp_all add: good_key_def c_str_def sample_key_def good_value_def)

lemma sample_table:
  "\<exists>L. level_init (\<lambda>_. True) sample_rand 2 = Inr L \<and> level_wf L \<and> locks_ok L \<and> items L = {#} \<and>
     level_size L = 2"
proof -
  have "generate_seeds sample_rand 0 = Some (0, 8)"
    by (subst generate_seeds_step) (simp add: sample_seeds)
  then show ?thesis using level_init_result [of 2 "\<lambda>_. True" sample_rand 0 8] by auto
qed

theorem level_init_correct_witness:
  "\<exists>L. level_init (\<lambda>_. True) sample_rand 2 = Inr L \<and> level_wf L \<and> items L = {#}"
  using level_init_correct [of 2 "\<lambda>_. True" sample_rand 0] by (auto simp: sample_seeds)

theorem level_query_correct_witness:
  "\<exists>L rc out. level_wf L \<and> level_query L sample_key sample_key = Inr (L, rc, out)"
  using sample_table level_query_correct [OF _ _ sample_good(1,4)] by blast

theorem level_delete_correct_witness:
  "\<exists>L L' rc. level_wf L \<and> level_delete L sample_key = Inr (L', rc)"
  using sample_table level_delete_correct [OF _ _ sample_good(1)] by blast

theorem level_update_correct_witness:
  "\<exists>L L' rc. level_wf L \<and> level_update L sample_key sample_key = Inr (L', rc)"
  using sample_table level_update_correct [OF _ _ sample_good(1,4)] by blast

theorem level_insert_correct_witness:
  "\<exists>L L' rc. level_wf L \<and> level_insert L sample_key sample_key = Inr (L', rc) \<and> level_wf L'"
  using sample_table level_insert_correct [OF _ _ sample_good(1,3)] by blast

section \<open>Resizing\<close>

text \<open>The abstraction depends only on the buckets, the sizes and the seeds.\<close>

lemma table_cong:
  assumes "buckets L' = buckets L" "level_size L' = level_size L" "addr_capacity L' = addr_capacity L"
    "f_seed L' = f_seed L" "s_seed L' = s_seed L"
  shows "shape L' n = shape L n" "level_wf L' = level_wf L" "items L' = items L" "positions L' = positions L"
    "tok L' = tok L" "f_home L' = f_home L" "s_home L' = s_home L" "ent L' = ent L"
proof -
  have len: "level_len L' = level_len L" by (simp add: fun_eq_iff level_len_def assms)
  show sh: "shape L' n = shape L n" for n by (simp add: shape_def len assms)
  show ps: "positions L' = positions L" by (simp add: positions_def len)
  show te: "tok L' = tok L" "ent L' = ent L"  by (auto simp: fun_eq_iff tok_def ent_def assms)
  have oc: "occ L' = occ L" by (simp add: occ_def ps te)
  have ko: "key_of L' = key_of L" by (simp add: fun_eq_iff key_of_def te)
  show homes: "f_home L' = f_home L" "s_home L' = s_home L"
    by (simp_all add: fun_eq_iff f_home_def s_home_def half_def len assms)
  then have "at_home L' = at_home L" by (simp add: at_home_def fun_eq_iff)
  then show "level_wf L' = level_wf L" by (simp add: level_wf_def sh oc ko te)
  show "items L' = items L" by (simp add: items_def oc ko te)
qed

text \<open>
  While the bottom level is drained, the table the code is about to install is \<open>joined L new\<close>: the
  new bucket array above the old top level. What is still in the bottom level is \<open>bottom_items\<close>.
\<close>

definition joined :: "level_hash \<Rightarrow> level_bucket list \<Rightarrow> level_hash" where
  "joined L new = L\<lparr>buckets := [new, buckets L ! 0], level_size := level_size L + 1,
                    addr_capacity := 2 * addr_capacity L\<rparr>"

definition bottom_occ :: "level_hash \<Rightarrow> pos set" where
  "bottom_occ L = {p \<in> occ L. fst p = 1}"

definition bottom_items :: "level_hash \<Rightarrow> (u8 list \<times> u8 list) multiset" where
  "bottom_items L = image_mset (\<lambda>p. (key_of L p, slot_value (ent L p))) (mset_set (bottom_occ L))"

lemma joined_clear: "joined (clear L (1, b, j)) new = joined L new"
  by (simp add: joined_def write_defs)

lemma joined_place: "place (joined L new) (0, b, j) k v = joined L (put_item new b j k v)"
  by (simp add: joined_def write_defs)

lemma bottom_clear:
  assumes s: "shape L n" and p: "(1, b, j) \<in> occ L"
  shows "bottom_items L =
      add_mset (key_of L (1, b, j), slot_value (ent L (1, b, j))) (bottom_items (clear L (1, b, j)))"
proof -
  have pp: "(1, b, j) \<in> positions L" using p by (simp add: occ_def)
  have bo: "bottom_occ (clear L (1, b, j)) = bottom_occ L - {(1, b, j)}"
    by (auto simp: bottom_occ_def occ_write(2) [OF s pp] simp del: One_nat_def)
  have "(1, b, j) \<in> bottom_occ L" "finite (bottom_occ L)" using p by (auto simp: bottom_occ_def)
  then show ?thesis
    unfolding bottom_items_def bo
    by (intro image_mset_remove_pos)
       (auto simp: bottom_occ_def occ_def key_of_write [OF s pp] ent_write [OF s pp] simp del: One_nat_def)
qed

definition resize_inv :: "level_hash \<Rightarrow> level_bucket list \<Rightarrow> nat \<Rightarrow> bool" where
  "resize_inv L new n \<longleftrightarrow> shape L n \<and> level_wf L \<and> shape (joined L new) (Suc n) \<and> level_wf (joined L new)"

definition resize_total :: "level_hash \<Rightarrow> level_bucket list \<Rightarrow> (u8 list \<times> u8 list) multiset" where
  "resize_total L new = items (joined L new) + bottom_items L"

text \<open>Each item takes one slot, of the new level or still of the bottom level.\<close>

definition new_occ :: "level_hash \<Rightarrow> level_bucket list \<Rightarrow> pos set" where
  "new_occ L new = {p \<in> occ (joined L new). fst p = 0}"

definition resize_load :: "level_hash \<Rightarrow> level_bucket list \<Rightarrow> nat" where
  "resize_load L new = card (new_occ L new) + card (bottom_occ L)"

lemma finite_resize_occ [simp]: "finite (new_occ L new)" "finite (bottom_occ L)"
  by (simp_all add: new_occ_def bottom_occ_def)

text \<open>Rehashing one item fills an empty slot of one of its two new buckets, or ends the program.\<close>

lemma rehash_into_pure:
  assumes sh: "shape (joined L new) m" and js: "set js \<subseteq> {..<ASSOC_NUM}"
    and f: "f = f_home (joined L new) 0 s" and g: "g = s_home (joined L new) 0 s"
  shows "rehash_into new f g e js = Inl Exited \<and>
      (\<forall>j \<in> set js. tok (joined L new) (0, f, j) \<noteq> 0 \<and> tok (joined L new) (0, g, j) \<noteq> 0) \<or>
    (\<exists>b j. (b = f \<or> b = g) \<and> (0, b, j) \<in> positions (joined L new) \<and> tok (joined L new) (0, b, j) = 0 \<and>
       rehash_into new f g e js = Inr (put_item new b j (slot_key e) (slot_value e)))"
  using js
proof (induction js)
  case (Cons j js)
  have new: "buckets (joined L new) ! 0 = new" by (simp add: joined_def)
  have pos: "(0, f, j) \<in> positions (joined L new)" "(0, g, j) \<in> positions (joined L new)"
    using home_positions [OF sh, of 0 j s] Cons.prems by (auto simp: f g)
  have val: "valid_slot new f j" "valid_slot new g j"
    using shape_valid(2) [OF sh pos(1)] shape_valid(2) [OF sh pos(2)] by (auto simp: new)
  have tok: "tok (joined L new) (0, b, j) = token (new ! b) ! j" for b by (simp add: tok_def new)
  consider (first) "token (new ! f) ! j = 0" | (second) "token (new ! f) ! j \<noteq> 0" "token (new ! g) ! j = 0"
    | (full) "token (new ! f) ! j \<noteq> 0" "token (new ! g) ! j \<noteq> 0" by blast
  then show ?case
  proof cases
    case first
    then show ?thesis using val pos tok by (intro disjI2 exI [of _ f] exI [of _ j]) simp
  next
    case second
    then show ?thesis using val pos tok by (intro disjI2 exI [of _ g] exI [of _ j]) simp
  next
    case full
    then show ?thesis using Cons val tok by auto
  qed
qed simp

text \<open>The code's state during the loop differs from \<open>L\<close> in the capacity field only.\<close>

lemma capacity_frame:
  "tokenR (L\<lparr>addr_capacity := c\<rparr>) i b j = tokenR L i b j"
  "entryR (L\<lparr>addr_capacity := c\<rparr>) i b j = entryR L i b j"
  "F_HASH (L\<lparr>addr_capacity := c\<rparr>) k = F_HASH L k" "S_HASH (L\<lparr>addr_capacity := c\<rparr>) k = S_HASH L k"
  "drop_slot (L\<lparr>addr_capacity := c\<rparr>) i b j = (clear L (i, b, j))\<lparr>addr_capacity := c\<rparr>"
  by (simp_all add: tokenR_def entryR_def F_HASH_def S_HASH_def drop_slot_def write_defs)

definition drained :: "level_hash \<Rightarrow> level_bucket list \<Rightarrow> nat \<Rightarrow> pos set \<Rightarrow> level_hash \<Rightarrow> level_bucket list \<Rightarrow> bool" where
  "drained L new n ps L' new' \<longleftrightarrow> resize_inv L' new' n \<and> resize_total L' new' = resize_total L new \<and>
     resize_load L' new' = resize_load L new \<and> occ L' = occ L - ps \<and> level_locks L' = level_locks L \<and> level_size L' = level_size L \<and>
     addr_capacity L' = addr_capacity L"

lemma drained_trans:
  "drained L new n ps L1 new1 \<Longrightarrow> drained L1 new1 n qs L2 new2 \<Longrightarrow> drained L new n (ps \<union> qs) L2 new2"
  by (auto simp: drained_def)

lemma drained_step:
  assumes inv: "resize_inv L new n" and occ: "(1, b, i) \<in> occ L"
    and q: "(0, c, j) \<in> positions (joined L new)" "tok (joined L new) (0, c, j) = 0"
    and c: "c = f_home (joined L new) 0 (key_of L (1, b, i)) \<or> c = s_home (joined L new) 0 (key_of L (1, b, i))"
  defines "e \<equiv> ent L (1, b, i)"
  shows "drained L new n {(1, b, i)} (clear L (1, b, i)) (put_item new c j (slot_key e) (slot_value e))"
proof -
  let ?V = "joined L new" and ?p = "(1, b, i)"
  have s: "shape L n" and wf: "level_wf L" and sV: "shape ?V (Suc n)" and wV: "level_wf ?V"
    using inv by (auto simp: resize_inv_def)
  have p: "?p \<in> positions L" "tok L ?p = 1" using occ by (auto simp: occ_def)
  have len: "length (slot_key e) = KEY_LEN" "length (slot_value e) = VALUE_LEN"
    using ent_len [OF s p(1)] by (auto simp: e_def)
  have key: "0 \<in> set (slot_key e)" using wf occ by (auto simp: level_wf_def e_def)
  have home: "at_home ?V (0, c, j) (c_str (slot_key e))"
    using c by (simp add: at_home_def e_def key_of_def)
  have new: "joined (clear L ?p) (put_item new c j (slot_key e) (slot_value e)) =
      place ?V (0, c, j) (slot_key e) (slot_value e)"
    by (simp add: joined_place joined_clear del: One_nat_def)
  have n1: "new_occ (clear L ?p) (put_item new c j (slot_key e) (slot_value e)) = insert (0, c, j) (new_occ L new)"
    unfolding new_occ_def new occ_write(1) [OF sV q(1)] by auto
  have n2: "(0, c, j) \<notin> new_occ L new" using q(2) by (simp add: new_occ_def occ_def)
  have b1: "bottom_occ (clear L ?p) = bottom_occ L - {?p}"
    by (auto simp: bottom_occ_def occ_write(2) [OF s p(1)] simp del: One_nat_def)
  have "?p \<in> bottom_occ L" using occ by (simp add: bottom_occ_def)
  then have "card (bottom_occ L) = Suc (card (bottom_occ L - {?p}))" by (intro card.remove) simp_all
  then have load: "resize_load (clear L ?p) (put_item new c j (slot_key e) (slot_value e)) = resize_load L new"
    unfolding resize_load_def n1 b1 using n2 by simp
  show ?thesis
    unfolding drained_def resize_inv_def resize_total_def load new bottom_clear [OF s occ]
      place_correct(1) [OF sV q len]
    using shape_write(2) [OF s p(1)] clear_correct(2) [OF s p wf] shape_write(1) [OF sV q(1) len]
      place_correct(2) [OF sV q len wV key home] occ_write(2) [OF s p(1)]
    by (simp add: e_def key_of_def)
qed

lemma drained_refl:
  "resize_inv L new n \<Longrightarrow> ps \<inter> occ L = {} \<Longrightarrow> drained L new n ps L new"
  by (auto simp: drained_def)

text \<open>An item that cannot be placed found all eight slots of its two new buckets taken.\<close>

lemma load_full:
  assumes sV: "shape (joined L new) m" and occ: "(1, b, i) \<in> occ L"
    and full: "\<forall>j \<in> {..<ASSOC_NUM}. tok (joined L new) (0, f_home (joined L new) 0 s, j) \<noteq> 0 \<and>
      tok (joined L new) (0, s_home (joined L new) 0 s, j) \<noteq> 0"
  shows "9 \<le> resize_load L new"
proof -
  let ?V = "joined L new" and ?f = "f_home (joined L new) 0 s" and ?g = "s_home (joined L new) 0 s"
  have "{0} \<times> {?f, ?g} \<times> {..<ASSOC_NUM} \<subseteq> new_occ L new"
    using full home_positions [OF sV, of 0 _ s] tok_01 [OF sV] by (fastforce simp: new_occ_def occ_def)
  then have "card ({0 :: nat} \<times> {?f, ?g} \<times> {..<ASSOC_NUM}) \<le> card (new_occ L new)"
    by (intro card_mono) auto
  moreover have "?f \<noteq> ?g" by (rule homes_bound(5) [OF sV]) simp
  moreover have "bottom_occ L \<noteq> {}" using occ by (auto simp: bottom_occ_def)
  then have "0 < card (bottom_occ L)" by (simp add: card_gt_0_iff)
  ultimately show ?thesis by (simp add: resize_load_def card_cartesian_product)
qed

lemma rehash_slots_drains:
  assumes "resize_inv L new n" "b < level_len L 1" "set is \<subseteq> {..<ASSOC_NUM}" "c = 2 * addr_capacity L"
  shows "rehash_slots (L\<lparr>addr_capacity := c\<rparr>) new b is = Inl Exited \<and> 9 \<le> resize_load L new \<or>
    (\<exists>L' new'. rehash_slots (L\<lparr>addr_capacity := c\<rparr>) new b is = Inr (L'\<lparr>addr_capacity := c\<rparr>, new') \<and>
       drained L new n ({1} \<times> {b} \<times> set is) L' new')"
  using assms
proof (induction "is" arbitrary: L new)
  case Nil
  then show ?case by (auto intro!: exI drained_refl)
next
  case (Cons i "is")
  note [simp del] = One_nat_def
  let ?V = "joined L new" and ?p = "(1, b, i)"
  have s: "shape L n" and wf: "level_wf L" and sV: "shape ?V (Suc n)"
    using Cons.prems(1) by (auto simp: resize_inv_def)
  have p: "?p \<in> positions L" using Cons.prems by (simp add: positions_iff)
  have split: "{1} \<times> {b} \<times> set (i # is) = {?p} \<union> {1} \<times> {b} \<times> set is" by auto
  show ?case
  proof (cases "tok L ?p = 1")
    case False
    have eq: "rehash_slots (L\<lparr>addr_capacity := c\<rparr>) new b (i # is) = rehash_slots (L\<lparr>addr_capacity := c\<rparr>) new b is"
      using False by (simp add: capacity_frame tokenR_pos [OF s p])
    have "drained L new n {?p} L new" using False Cons.prems(1) by (auto intro!: drained_refl simp: occ_def)
    then show ?thesis
      using Cons.IH [OF Cons.prems(1,2) _ Cons.prems(4)] Cons.prems(3) drained_trans
      unfolding eq split by fastforce
  next
    case True
    then have occ: "?p \<in> occ L" using p by (simp add: occ_def)
    let ?f = "f_home ?V 0 (key_of L ?p)" and ?g = "s_home ?V 0 (key_of L ?p)" and ?e = "ent L ?p"
    have loc: "locations (hash_str (f_seed L) (key_of L ?p)) (hash_str (s_seed L) (key_of L ?p)) c = Inr (?f, ?g)"
      using locations_top [OF sV, of "key_of L ?p"] Cons.prems(4) by (simp add: joined_def)
    have eq: "rehash_slots (L\<lparr>addr_capacity := c\<rparr>) new b (i # is) =
        bindR (rehash_into new ?f ?g ?e [0..<ASSOC_NUM]) (\<lambda>new'.
          rehash_slots ((clear L ?p)\<lparr>addr_capacity := c\<rparr>) new' b is)"
      using True loc
      by (simp add: capacity_frame tokenR_pos [OF s p] entryR_pos [OF s p] hash_of_stored [OF wf occ]
          del: upt_rec_numeral)
    consider (full) "rehash_into new ?f ?g ?e [0..<ASSOC_NUM] = Inl Exited" "9 \<le> resize_load L new"
      | (put) d j where "d = ?f \<or> d = ?g" "(0, d, j) \<in> positions ?V" "tok ?V (0, d, j) = 0"
        "rehash_into new ?f ?g ?e [0..<ASSOC_NUM] = Inr (put_item new d j (slot_key ?e) (slot_value ?e))"
      using rehash_into_pure [OF sV _ refl refl, of "[0..<ASSOC_NUM]" "key_of L ?p" ?e]
        load_full [OF sV occ, of "key_of L ?p"] by (fastforce simp: atLeast0LessThan)
    then show ?thesis
    proof cases
      case full
      then show ?thesis unfolding eq by simp
    next
      case put
      let ?L = "clear L ?p" and ?new = "put_item new d j (slot_key ?e) (slot_value ?e)"
      have d: "drained L new n {?p} ?L ?new" by (rule drained_step [OF Cons.prems(1) occ put(2,3,1)])
      then have load: "resize_load ?L ?new = resize_load L new" by (simp add: drained_def)
      from d have "resize_inv ?L ?new n" by (simp add: drained_def)
      from Cons.IH [OF this] Cons.prems(2-4) drained_trans [OF d]
      show ?thesis unfolding eq put(4) split load by fastforce
    qed
  qed
qed

lemma rehash_buckets_drains:
  assumes "resize_inv L new n" "set bs \<subseteq> {..<level_len L 1}" "c = 2 * addr_capacity L"
  shows "rehash_buckets (L\<lparr>addr_capacity := c\<rparr>) new bs = Inl Exited \<and> 9 \<le> resize_load L new \<or>
    (\<exists>L' new'. rehash_buckets (L\<lparr>addr_capacity := c\<rparr>) new bs = Inr (L'\<lparr>addr_capacity := c\<rparr>, new') \<and>
       drained L new n ({1} \<times> set bs \<times> {..<ASSOC_NUM}) L' new')"
  using assms
proof (induction bs arbitrary: L new)
  case Nil
  then show ?case by (auto intro!: exI drained_refl)
next
  case (Cons b bs)
  note [simp del] = One_nat_def
  have split: "{1 :: nat} \<times> set (b # bs) \<times> {..<ASSOC_NUM} =
      {1} \<times> {b} \<times> set [0..<ASSOC_NUM] \<union> {1} \<times> set bs \<times> {..<ASSOC_NUM}"
    by (auto simp: atLeast0LessThan)
  consider (full) "rehash_slots (L\<lparr>addr_capacity := c\<rparr>) new b [0..<ASSOC_NUM] = Inl Exited" "9 \<le> resize_load L new"
    | (ok) L1 new1 where
      "rehash_slots (L\<lparr>addr_capacity := c\<rparr>) new b [0..<ASSOC_NUM] = Inr (L1\<lparr>addr_capacity := c\<rparr>, new1)"
      "drained L new n ({1} \<times> {b} \<times> set [0..<ASSOC_NUM]) L1 new1"
    using rehash_slots_drains [OF Cons.prems(1) _ _ Cons.prems(3), of b "[0..<ASSOC_NUM]"] Cons.prems(2)
    by fastforce
  then show ?case
  proof cases
    case full
    then show ?thesis by (simp del: upt_rec_numeral)
  next
    case ok
    have inv: "resize_inv L1 new1 n" and cap: "c = 2 * addr_capacity L1"
      using ok(2) Cons.prems(3) by (auto simp: drained_def)
    have load: "resize_load L1 new1 = resize_load L new" using ok(2) by (simp add: drained_def)
    have "level_len L1 1 = level_len L 1"
      using inv Cons.prems(1) by (simp add: resize_inv_def shape_def)
    with Cons.IH [OF inv _ cap] Cons.prems(2) drained_trans [OF ok(2)] show ?thesis
      unfolding split rehash_buckets.simps ok(1) load by fastforce
  qed
qed

text \<open>The start of the loop: an empty new level above the old top level.\<close>

lemma joined_start:
  assumes sh: "shape L n" and wf: "level_wf L" and n: "n < 62"
  defines "new \<equiv> replicate (2 ^ Suc n) zero_bucket"
  shows "resize_inv L new n" "resize_total L new = items L" "resize_load L new = size (bottom_items L)"
proof -
  note [simp del] = One_nat_def
  let ?V = "joined L new"
  have len: "level_len ?V 0 = 2 ^ Suc n" "level_len ?V 1 = level_len L 0"
    by (simp_all add: level_len_def joined_def new_def)
  have "\<forall>bk \<in> set (buckets ?V ! i). bucket_ok bk" if "i < 2" for i
    using that sh zero_bucket_ok by (auto simp: joined_def new_def shape_def less_2_cases_iff)
  then have sV: "shape ?V (Suc n)"
    using sh n len unfolding shape_def by (simp add: joined_def)
  have top: "tok ?V (0, b, j) = 0" if "(0, b, j) \<in> positions ?V" for b j
  proof -
    have "b < 2 ^ Suc n" "j < ASSOC_NUM" using that unfolding positions_iff len by auto
    from tok_zero [OF this] show ?thesis by (simp add: tok_def joined_def new_def)
  qed
  let ?sh = "\<lambda>(i :: nat, b, j). (1 :: nat, b, j)" and ?T = "{p \<in> occ L. fst p = 0}"
  have low: "tok ?V (1, b, j) = tok L (0, b, j)" "ent ?V (1, b, j) = ent L (0, b, j)" for b j
    by (simp_all add: tok_def ent_def joined_def)
  have mem: "(i, b, j) \<in> occ ?V \<longleftrightarrow> i = 1 \<and> (0, b, j) \<in> occ L" for i b j
  proof -
    have "i < 2 \<longleftrightarrow> i = 0 \<or> i = 1" by linarith
    then show ?thesis using top low len by (auto simp: occ_def positions_iff)
  qed
  have occ: "occ ?V = ?sh ` ?T"
    by (auto simp: mem image_iff split: prod.splits)
  have "new_occ L new = {}" by (auto simp: new_occ_def mem)
  then show "resize_load L new = size (bottom_items L)" by (simp add: resize_load_def bottom_items_def)
  have home: "at_home ?V (1, b, j) = at_home L (0, b, j)" for b j
    by (simp add: fun_eq_iff at_home_def f_home_def s_home_def half_def len) (simp add: joined_def)
  have "level_wf ?V"
    using wf sV by (auto simp: level_wf_def mem low home key_of_def)
  then show "resize_inv L new n" using sh wf sV by (simp add: resize_inv_def)
  have inj: "inj_on ?sh ?T" by (auto simp: inj_on_def)
  have "items ?V = image_mset ((\<lambda>p. (key_of ?V p, slot_value (ent ?V p))) \<circ> ?sh) (mset_set ?T)"
    unfolding items_def occ image_mset_mset_set [OF inj, symmetric] by (simp add: multiset.map_comp)
  also have "\<dots> = image_mset (\<lambda>p. (key_of L p, slot_value (ent L p))) (mset_set ?T)"
    by (intro image_mset_cong) (auto simp: key_of_def low)
  finally have top_items: "items ?V = image_mset (\<lambda>p. (key_of L p, slot_value (ent L p))) (mset_set ?T)" .
  have "occ L = ?T \<union> bottom_occ L" "?T \<inter> bottom_occ L = {}"
    by (auto simp: bottom_occ_def occ_def positions_def less_2_cases_iff)
  then have "mset_set (occ L) = mset_set ?T + mset_set (bottom_occ L)"
    using mset_set_Union [of ?T "bottom_occ L"] by (simp add: bottom_occ_def)
  then show "resize_total L new = items L"
    unfolding resize_total_def top_items bottom_items_def by (simp add: items_def)
qed

lemma resize_correct:
  assumes sh: "shape L n" and wf: "level_wf L" and n: "n < 62"
  shows "level_resize True L = Inl Exited \<and> 9 \<le> size (bottom_items L) \<or>
    (\<exists>L'. level_resize True L = Inr L' \<and> shape L' (Suc n) \<and> level_wf L' \<and> items L' = items L \<and>
       level_locks L' = level_locks L)"
proof -
  let ?new = "replicate (2 ^ Suc n) zero_bucket"
  note st = joined_start [OF sh wf n]
  have sz: "level_size L = of_nat n" "addr_capacity L = 2 ^ n" "2 \<le> n" using sh by (auto simp: shape_def)
  have sz1: "level_size L + 1 = of_nat (Suc n)" "level_size L - 1 = of_nat (n - 1)"
    using sz by simp_all
  have p1: "pow2R (level_size L + 1) = Inr (2 ^ Suc n)" "pow2R (level_size L - 1) = Inr (2 ^ (n - 1))"
    "pow2R (level_size L) = Inr (2 ^ n)"
    unfolding sz1 unfolding sz(1) using n by (intro pow2R_of_nat; simp)+
  have u: "unat (2 ^ Suc n :: u64) = 2 ^ Suc n" "unat (2 ^ (n - 1) :: u64) = 2 ^ (n - 1)"
    using n unat_pow2_u64 [of "Suc n"] unat_pow2_u64 [of "n - 1"] by auto
  have len: "level_len L 1 = 2 ^ (n - 1)" using sh by (simp add: shape_def)
  let ?go = "rehash_buckets (L\<lparr>addr_capacity := 2 ^ Suc n\<rparr>) ?new [0..<2 ^ (n - 1)]"
  consider (full) "?go = Inl Exited" "9 \<le> size (bottom_items L)"
    | (ok) L1 new1 where "?go = Inr (L1\<lparr>addr_capacity := 2 ^ Suc n\<rparr>, new1)"
      "drained L ?new n ({1} \<times> {..<2 ^ (n - 1)} \<times> {..<ASSOC_NUM}) L1 new1"
    using rehash_buckets_drains [OF st(1), of "[0..<2 ^ (n - 1)]" "2 ^ Suc n"] sz(2) len st(3)
    by (fastforce simp: atLeast0LessThan)
  then show ?thesis
  proof cases
    case full
    then show ?thesis unfolding level_resize_def p1 bindR.simps u by (simp del: power_Suc)
  next
    case ok
    let ?L' = "L1\<lparr>addr_capacity := 2 ^ Suc n, level_size := level_size L1 + 1,
      total_capacity := 2 ^ Suc n + 2 ^ n, buckets := [new1, buckets L1 ! 0], resize_count := resize_count L1 + 1\<rparr>"
    have d: "resize_inv L1 new1 n" "resize_total L1 new1 = items L" "level_locks L1 = level_locks L"
      "level_size L1 = level_size L" "addr_capacity L1 = 2 ^ n"
      "occ L1 = occ L - {1} \<times> {..<2 ^ (n - 1)} \<times> {..<ASSOC_NUM}"
      using ok(2) st(2) sz(2) by (auto simp: drained_def)
    have "bottom_occ L1 = {}"
      unfolding bottom_occ_def d(6) using len by (auto simp: occ_def positions_def)
    then have it: "items (joined L1 new1) = items L"
      using d(2) by (simp add: resize_total_def bottom_items_def)
    have "level_resize True L = Inr ?L'"
      unfolding level_resize_def p1 bindR.simps u ok(1)
      using d(4) p1 by (simp del: power_Suc)
    moreover have "shape ?L' (Suc n) = shape (joined L1 new1) (Suc n)" "level_wf ?L' = level_wf (joined L1 new1)"
      "items ?L' = items (joined L1 new1)"
      using d(5) by (intro table_cong; simp add: joined_def)+
    ultimately show ?thesis using d(1,3) it by (auto simp: resize_inv_def)
  qed
qed

text \<open>
  C6: resizing a well-formed table keeps every stored item, with its value, exactly once, doubles
  the capacity and leaves a well-formed table; the lock arrays stay as they are. The program exits
  instead when the new level cannot be allocated or an item of the bottom level finds its two new
  buckets full, which takes at least nine items in the bottom level.
\<close>

theorem level_resize_correct:
  assumes "level_wf L" "level_size L < 62"
  shows "(\<exists>L'. level_resize ok L = Inr L' \<and> level_wf L' \<and> items L' = items L \<and>
       level_size L' = level_size L + 1 \<and> addr_capacity L' = 2 * addr_capacity L \<and>
       level_locks L' = level_locks L) \<or>
    level_resize ok L = Inl Exited \<and> (ok \<longrightarrow> 9 \<le> size (bottom_items L))"
proof -
  obtain n where sh: "shape L n" using assms(1) by (auto simp: level_wf_def)
  then have "n < 62"
    using assms(2) by (simp add: shape_def word_less_nat_alt unat_of_nat_u64)
  note r = resize_correct [OF sh assms(1) this]
  show ?thesis
  proof (cases ok)
    case True
    then show ?thesis using r sh by (auto simp: shape_def)
  next
    case False
    have "pow2R (level_size L + 1) = Inr (2 ^ Suc n)"
      using pow2R_of_nat [of "Suc n"] \<open>n < 62\<close> sh by (simp add: shape_def add.commute)
    then show ?thesis using False by (simp add: level_resize_def)
  qed
qed

text \<open>After a resize the top level has twice as many buckets as it has locks.\<close>

lemma resized_query:
  assumes sh: "shape L n" and wf: "level_wf L" and lk: "locks_ok L" and n: "n < 62"
    and r: "level_resize True L = Inr L'" and k: "good_key key" and absent: "\<forall>w. (c_str key, w) \<notin># items L"
  shows "level_query L' key value = Inl UB"
proof -
  let ?s = "c_str key"
  have sh': "shape L' (Suc n)" and wf': "level_wf L'" and it: "items L' = items L"
    and lk': "level_locks L' = level_locks L"
    using resize_correct [OF sh wf n] r by auto
  have kk: "0 \<in> set key" "length key < 2 ^ 64" using k good_keyD(1) [OF k] by (auto simp: good_key_def)
  have half: "half L' 0 = 2 ^ n" using level_len_eq [OF sh', of 0] by (simp add: half_def)
  have b: "length (buckets L) = 2" "length (buckets L ! 0) = 2 ^ n"
    using sh by (auto simp: shape_def level_len_def)
  then have locks: "level_locks L' ! 0 = replicate (2 ^ n) (replicate ASSOC_NUM 0)" "0 < length (level_locks L')"
    using lk lk' by (auto simp: locks_ok_def)
  let ?f = "f_home L' 0 ?s" and ?g = "s_home L' 0 ?s"
  have fg: "?f < 2 ^ n" "2 ^ n \<le> ?g" using homes_bound [OF sh', of 0 ?s] by (auto simp: half)
  have free: "free_at L' (0, ?f, j)" if "j < ASSOC_NUM" for j
    using that fg locks by (simp add: free_at_def lock_exists_def lock_free_def)
  have "find (matches L' ?s) (probe_order L' ?s) = None"
    using probe_finds(1) [OF wf'] absent by (simp add: it)
  then have "find (\<lambda>j. matches L' ?s (0, ?f, j)) [0..<ASSOC_NUM] = None"
    by (simp add: probe_order_def find_append find_map find_None_iff split: option.splits)
  then have first: "visit_slots read_act L' 0 ?f key [0..<ASSOC_NUM] = Inr (L', None)"
    using visit_slots_pure [OF sh' lock_blind_acts(1) k, of "[0..<ASSOC_NUM]" 0 ?f] free
      home_positions(1) [OF sh', of 0 _ ?s] by (simp add: atLeast0LessThan)
  have "\<not> lock_exists L' (0, ?g, 0)" using fg locks by (simp add: lock_exists_def)
  then have second: "visit_slots read_act L' 0 ?g key [0..<ASSOC_NUM] = Inl UB"
    by (simp add: level_lock.acquire_outside upt_rec)
  show ?thesis
    unfolding level_query_def visit_table_def hash_of_key [OF kk] bindR.simps locations_top [OF sh']
      visit_levels.simps first second
    by (simp only: bindR.simps prod.case) (simp add: second del: upt_rec_numeral)
qed

text \<open>
  C7: \<open>level_resize\<close> does not enlarge the lock arrays. After any successful resize of a table whose
  locks covered its buckets, looking up any key that is not stored reads a lock outside the lock
  array of the top level: undefined behaviour.
\<close>

theorem level_resize_breaks_locks:
  assumes "level_wf L" "locks_ok L" "level_size L < 62" "level_resize True L = Inr L'"
    and "good_key key" "\<forall>w. (c_str key, w) \<notin># items L"
  shows "level_query L' key value = Inl UB"
proof -
  obtain n where sh: "shape L n" using assms(1) by (auto simp: level_wf_def)
  then have "n < 62"
    using assms(3) by (simp add: shape_def word_less_nat_alt unat_of_nat_u64)
  from resized_query [OF sh assms(1,2) this assms(4-6)] show ?thesis .
qed

text \<open>Resizing the sample table, which is empty, succeeds.\<close>

lemma sample_resizes:
  "\<exists>L L'. level_wf L \<and> locks_ok L \<and> items L = {#} \<and> level_size L = 2 \<and> level_resize True L = Inr L'"
proof -
  obtain L where L: "level_wf L" "locks_ok L" "items L = {#}" "level_size L = 2"
    using sample_table by blast
  obtain n where sh: "shape L n" using L(1) by (auto simp: level_wf_def)
  have "n < 62" using sh L(4) unat_of_nat_u64 [of n] by (auto simp: shape_def)
  moreover have "bottom_items L = {#}"
    using L(3) by (simp add: bottom_items_def items_def bottom_occ_def mset_set_empty_iff)
  ultimately show ?thesis using resize_correct [OF sh L(1)] L by fastforce
qed

theorem level_resize_correct_witness:
  "\<exists>L L'. level_wf L \<and> level_resize True L = Inr L' \<and> level_wf L' \<and> level_size L' = 3"
proof -
  obtain L where "level_wf L" "level_size L = 2" "\<exists>L'. level_resize True L = Inr L'"
    using sample_resizes by blast
  with level_resize_correct [of L True] show ?thesis by auto
qed

theorem level_resize_breaks_locks_witness:
  "\<exists>L L'. level_wf L \<and> locks_ok L \<and> level_resize True L = Inr L' \<and> level_query L' sample_key sample_key = Inl UB"
proof -
  obtain L L' where L: "level_wf L" "locks_ok L" "items L = {#}" "level_size L = 2" "level_resize True L = Inr L'"
    using sample_resizes by blast
  have "level_query L' sample_key sample_key = Inl UB"
    by (rule level_resize_breaks_locks [OF L(1,2) _ L(5) sample_good(1)]) (simp_all add: L(3,4))
  with L show ?thesis by blast
qed

section \<open>A sequence of operations\<close>

lemma ycsb_op_correct:
  assumes "level_wf L" "locks_ok L" "good_key (tq_key q)" "good_value (tq_key q)" "length value = VALUE_LEN"
  shows "\<exists>L' value' ins'. ycsb_op L value ins q = Inr (L', value', ins') \<and> level_wf L' \<and> locks_ok L' \<and>
    length value' = VALUE_LEN \<and> (\<exists>d. items L' = items L + d \<and> ins' = ins + of_nat (size d) \<and>
      (\<forall>x \<in># d. operation q = 1 \<and> fst x = c_str (tq_key q)))"
proof (cases "operation q = 1")
  case True
  obtain L' rc where r: "level_insert L (tq_key q) (tq_key q) = Inr (L', rc)" "level_wf L'" "locks_ok L'"
      "rc = 0 \<longrightarrow> items L' = add_mset (c_str (tq_key q), take VALUE_LEN (tq_key q)) (items L)"
      "rc \<noteq> 0 \<longrightarrow> L' = L"
  proof -
    from insert_correct [OF assms(1-4)] consider
        (new) L' where "level_insert L (tq_key q) (tq_key q) = Inr (L', 0)"
          "grown L (tq_key q) (tq_key q) L'"
      | (full) "level_insert L (tq_key q) (tq_key q) = Inr (L, 1)" by blast
    then show ?thesis
    proof cases
      case new
      then show ?thesis by (intro that [of L' 0]) (simp_all add: grown_def)
    next
      case full
      then show ?thesis by (intro that [of L 1]) (simp_all add: assms(1,2))
    qed
  qed
  let ?d = "if rc = 0 then {#(c_str (tq_key q), take VALUE_LEN (tq_key q))#} else {#}"
  have "items L' = items L + ?d" using r(4,5) by simp
  then show ?thesis
    using True r(1-3) assms(5) by (auto simp: ycsb_op_def intro!: exI [of _ ?d])
next
  case False
  consider w where "level_query L (tq_key q) value = Inr (L, 0, w)" "(c_str (tq_key q), w) \<in># items L"
    | "level_query L (tq_key q) value = Inr (L, 1, value)"
    using query_correct [OF assms(1-3), of "value"] assms(5) by auto
  moreover have "length w = VALUE_LEN" if "(s, w) \<in># items L" for s w
    using that assms(1) ent_len by (fastforce simp: in_items_iff level_wf_def occ_def)
  ultimately show ?thesis
    using False assms(1,2,5) by cases (auto simp: ycsb_op_def intro!: exI [of _ "{#}"])
qed

lemma ycsb_ops_correct:
  assumes "level_wf L" "locks_ok L" "\<forall>q \<in> set qs. good_key (tq_key q) \<and> good_value (tq_key q)"
    "length value = VALUE_LEN"
  shows "\<exists>L' ins'. ycsb_ops L value ins qs = Inr (L', ins') \<and> level_wf L' \<and> locks_ok L' \<and>
    (\<exists>d. items L' = items L + d \<and> ins' = ins + of_nat (size d) \<and>
      fst ` set_mset d \<subseteq> (\<lambda>q. c_str (tq_key q)) ` {q \<in> set qs. operation q = 1})"
  using assms
proof (induction qs arbitrary: L "value" ins)
  case (Cons q qs)
  obtain L1 v1 i1 d1 where c: "ycsb_op L value ins q = Inr (L1, v1, i1)" "level_wf L1" "locks_ok L1"
      "length v1 = VALUE_LEN" "items L1 = items L + d1" "i1 = ins + of_nat (size d1)"
      "\<forall>x \<in># d1. operation q = 1 \<and> fst x = c_str (tq_key q)"
    using ycsb_op_correct [OF Cons.prems(1,2) _ _ Cons.prems(4), of q ins] Cons.prems(3) by auto
  obtain L2 i2 d2 where r: "ycsb_ops L1 v1 i1 qs = Inr (L2, i2)" "level_wf L2" "locks_ok L2"
      "items L2 = items L1 + d2" "i2 = i1 + of_nat (size d2)"
      "fst ` set_mset d2 \<subseteq> (\<lambda>q. c_str (tq_key q)) ` {q \<in> set qs. operation q = 1}"
    using Cons.IH [OF c(2,3) _ c(4), of i1] Cons.prems(3) by auto
  have "fst ` set_mset (d1 + d2) \<subseteq> (\<lambda>q. c_str (tq_key q)) ` {x \<in> set (q # qs). operation x = 1}"
    using c(7) r(6) by auto
  then show ?case
    using c r by (intro exI [of _ L2] exI [of _ i2] conjI exI [of _ "d1 + d2"]) simp_all
qed simp

text \<open>
  C8: a benchmark thread that runs alone on a well-formed table, with terminated keys and a queue
  as long as its share of the workload, finishes without undefined behaviour or deadlock; it never
  loses an item, it adds only keys of its insert operations, and its \<open>inserted\<close> counter grows by
  the number of items that were added.
\<close>

theorem ycsb_thread_run_correct:
  assumes "level_wf L" "locks_ok L" "thread_num L \<noteq> 0"
    and "READ_WRITE_NUM div unat (thread_num L) \<le> length (run_queue t)"
    and "\<forall>q \<in> set (run_queue t). good_key (tq_key q) \<and> good_value (tq_key q)" "length value = VALUE_LEN"
  shows "\<exists>L' t' d. ycsb_thread_run L value t = Inr (L', t') \<and> level_wf L' \<and> locks_ok L' \<and>
    items L' = items L + d \<and> inserted t' = inserted t + of_nat (size d) \<and>
    fst ` set_mset d \<subseteq> (\<lambda>q. c_str (tq_key q)) ` {q \<in> set (run_queue t). operation q = 1}"
proof -
  let ?qs = "take (READ_WRITE_NUM div unat (thread_num L)) (run_queue t)"
  have sub: "set ?qs \<subseteq> set (run_queue t)" by (rule set_take_subset)
  then obtain L' ins d where r: "ycsb_ops L value (inserted t) ?qs = Inr (L', ins)" "level_wf L'" "locks_ok L'"
      "items L' = items L + d" "ins = inserted t + of_nat (size d)"
      "fst ` set_mset d \<subseteq> (\<lambda>q. c_str (tq_key q)) ` {q \<in> set ?qs. operation q = 1}"
    using ycsb_ops_correct [OF assms(1,2) _ assms(6), of ?qs "inserted t"] assms(5) by blast
  have "fst ` set_mset d \<subseteq> (\<lambda>q. c_str (tq_key q)) ` {q \<in> set (run_queue t). operation q = 1}"
    using r(6) sub by blast
  then show ?thesis
    using r(1-5) assms(3,4)
    by (intro exI [of _ L'] exI [of _ "t\<lparr>inserted := ins\<rparr>"] exI [of _ d]) (simp add: ycsb_thread_run_def Let_def)
qed

theorem ycsb_thread_run_correct_witness:
  "\<exists>L L' t'. level_wf L \<and> ycsb_thread_run L sample_key \<lparr>inserted = 0, run_queue = [\<lparr>tq_key = sample_key, operation = 1\<rparr>]\<rparr> =
     Inr (L', t') \<and> level_wf L'"
proof -
  obtain L0 where L0: "level_wf L0" "locks_ok L0" using sample_table by blast
  let ?L = "L0\<lparr>thread_num := 350000\<rparr>" and ?t = "\<lparr>inserted = 0, run_queue = [\<lparr>tq_key = sample_key, operation = 1\<rparr>]\<rparr>"
  have wf: "level_wf ?L" "locks_ok ?L"
    using L0 table_cong(2) [of ?L L0] by (simp_all add: locks_ok_def)
  moreover have "length sample_key = VALUE_LEN" by (simp add: sample_key_def)
  ultimately have "\<exists>L' t' d. ycsb_thread_run ?L sample_key ?t = Inr (L', t') \<and> level_wf L' \<and> locks_ok L' \<and>
    items L' = items ?L + d \<and> inserted t' = inserted ?t + of_nat (size d) \<and>
    fst ` set_mset d \<subseteq> (\<lambda>q. c_str (tq_key q)) ` {q \<in> set (run_queue ?t). operation q = 1}"
    by (intro ycsb_thread_run_correct) (simp_all add: sample_good)
  with wf show ?thesis by blast
qed

end
