(* ===== verification/PackedWord.thy ===== *)
theory PackedWord
  imports Prelude
begin

text \<open>
  Bit fields packed into a 64-bit word, as the unions of a \<open>uint64_t\<close> and a struct of bit fields in
  the FASTER sources. A layout is the list of the field widths from the least significant bit
  upwards, which is how GCC and Clang lay such structs out on x86-64. \<open>pack\<close> builds a word from
  field values, each truncated to its width as an assignment to a bit field does, and \<open>unpack\<close>
  reads all fields. The locale \<open>packed_word\<close> is the contract of a layout that fills the word; it
  holds the laws every reader and writer of such a word relies on, proved once.

  The second half is the contract of the atomic wrappers: a load, a store and a compare-and-exchange
  that reports the value it found.
\<close>

section \<open>Layouts\<close>

fun pack :: "nat list \<Rightarrow> u64 list \<Rightarrow> u64" where
  "pack (w # ws) (v # vs) = (take_bit w v OR push_bit w (pack ws vs))"
| "pack _ _ = 0"

fun unpack :: "nat list \<Rightarrow> u64 \<Rightarrow> u64 list" where
  "unpack [] x = []"
| "unpack (w # ws) x = take_bit w x # unpack ws (drop_bit w x)"

definition field :: "nat list \<Rightarrow> nat \<Rightarrow> u64 \<Rightarrow> u64" where
  "field ws i x = unpack ws x ! i"

definition set_field :: "nat list \<Rightarrow> nat \<Rightarrow> u64 \<Rightarrow> u64 \<Rightarrow> u64" where
  "set_field ws i v x = pack ws ((unpack ws x)[i := v])"

text \<open>Shifts evaluate faster on integers.\<close>

lemma word_of_int_push_bit: "word_of_int (push_bit n (uint x)) = push_bit n (x :: u64)"
  by (simp add: push_bit_eq_mult)

lemma pack_code [code]:
  "pack ws vs = (case ws of [] \<Rightarrow> 0 | w # ws' \<Rightarrow>
     (case vs of [] \<Rightarrow> 0 | v # vs' \<Rightarrow> take_bit w v OR word_of_int (push_bit w (uint (pack ws' vs')))))"
  by (auto split: list.split simp: word_of_int_push_bit)

lemma length_unpack [simp]: "length (unpack ws x) = length ws"
  by (induction ws arbitrary: x) auto

lemma take_bit_or_push:
  "take_bit w (take_bit w v OR push_bit w p) = take_bit w (v :: u64)"
  by (rule bit_word_eqI) (auto simp: bit_simps)

lemma drop_bit_or_push:
  "w + n \<le> 64 \<Longrightarrow> take_bit n (drop_bit w (take_bit w v OR push_bit w p)) = take_bit n (p :: u64)"
  by (rule bit_word_eqI) (auto simp: bit_simps)

lemma take_bit_split:
  "take_bit w x OR push_bit w (take_bit n (drop_bit w x)) = take_bit (w + n) (x :: u64)"
  by (rule bit_word_eqI) (auto simp: bit_simps)

lemma take_bit_drop_take:
  "w + m \<le> n \<Longrightarrow> take_bit m (drop_bit w (take_bit n x)) = take_bit m (drop_bit w (x :: u64))"
  by (rule bit_word_eqI) (auto simp: bit_simps)

lemma unpack_take_bit: "sum_list ws \<le> n \<Longrightarrow> unpack ws (take_bit n x) = unpack ws x"
proof (induction ws arbitrary: x n)
  case (Cons w ws)
  have "drop_bit w (take_bit n x) = take_bit (n - w) (drop_bit w x)"
    using Cons.prems by (intro bit_word_eqI) (auto simp: bit_simps)
  then show ?case
    using Cons.IH [of "n - w"] Cons.prems by (simp add: min_def)
qed simp

lemma unpack_pack:
  "length vs = length ws \<Longrightarrow> sum_list ws \<le> 64 \<Longrightarrow> unpack ws (pack ws vs) = map2 take_bit ws vs"
proof (induction ws vs rule: pack.induct)
  case (1 w ws v vs)
  have "unpack ws (drop_bit w (take_bit w v OR push_bit w (pack ws vs))) =
      unpack ws (take_bit (sum_list ws) (drop_bit w (take_bit w v OR push_bit w (pack ws vs))))"
    by (rule unpack_take_bit [OF order_refl, symmetric])
  also have "\<dots> = unpack ws (pack ws vs)"
    using "1.prems" by (subst drop_bit_or_push) (simp_all add: unpack_take_bit)
  finally show ?case using 1 by (simp add: take_bit_or_push del: drop_bit_or take_bit_or)
qed auto

lemma pack_unpack: "sum_list ws \<le> 64 \<Longrightarrow> pack ws (unpack ws x) = take_bit (sum_list ws) x"
  by (induction ws arbitrary: x) (simp_all add: take_bit_split)

section \<open>Words filled by their fields\<close>

locale packed_word =
  fixes ws :: "nat list"
  assumes full: "sum_list ws = 64"
begin

lemma pack_unpack_id: "pack ws (unpack ws x) = x"
  by (simp add: pack_unpack full take_bit_word_eq_self)

lemma field_pack: "length vs = length ws \<Longrightarrow> i < length ws \<Longrightarrow> field ws i (pack ws vs) = take_bit (ws ! i) (vs ! i)"
  by (simp add: field_def unpack_pack full)

lemma field_ext: "(\<And>i. i < length ws \<Longrightarrow> field ws i x = field ws i y) \<Longrightarrow> x = y"
  by (metis (no_types, lifting) field_def length_unpack nth_equalityI pack_unpack_id)

lemma field_idem: "i < length ws \<Longrightarrow> take_bit (ws ! i) (field ws i x) = field ws i x"
  using field_pack [of "unpack ws x" i] by (simp add: pack_unpack_id field_def)

lemma field_set_same: "i < length ws \<Longrightarrow> field ws i (set_field ws i v x) = take_bit (ws ! i) v"
  by (simp add: set_field_def field_pack)

lemma field_set_other:
  assumes "j < length ws" "i \<noteq> j"
  shows "field ws j (set_field ws i v x) = field ws j x"
  using assms field_idem [of j x] by (simp add: set_field_def field_pack) (simp add: field_def)

lemma set_field_id: "i < length ws \<Longrightarrow> set_field ws i (field ws i x) x = x"
  by (simp add: set_field_def field_def pack_unpack_id)

lemma pack_eq_iff:
  assumes "length vs = length ws" "length us = length ws"
  shows "pack ws vs = pack ws us \<longleftrightarrow> (\<forall>i < length ws. take_bit (ws ! i) (vs ! i) = take_bit (ws ! i) (us ! i))"
  using assms field_pack field_ext by metis

end

section \<open>Atomic words\<close>

text \<open>
  \<open>std::atomic::compare_exchange_strong\<close> on a cell: (success, value left in \<open>expected\<close>, new cell).
\<close>

definition compare_exchange_strong :: "'a \<Rightarrow> 'a \<Rightarrow> 'a \<Rightarrow> bool \<times> 'a \<times> 'a" where
  "compare_exchange_strong cell expected desired =
     (if cell = expected then (True, expected, desired) else (False, cell, cell))"

lemma compare_exchange_same [simp]: "compare_exchange_strong c c d = (True, c, d)"
  by (simp add: compare_exchange_strong_def)

lemma compare_exchange_diff [simp]: "c \<noteq> e \<Longrightarrow> compare_exchange_strong c e d = (False, c, c)"
  by (simp add: compare_exchange_strong_def)

end
