(* ===== verification/FasterWords.thy ===== *)
theory FasterWords
  imports PackedWord
begin

text \<open>
  The packed words of the FASTER store and the arithmetic on them: log addresses
  (\<open>src/faster/misc/address.h\<close>), key hashes (\<open>core/key_hash.h\<close>), hash bucket entries
  (\<open>core/hash_bucket.h\<close>), record headers and the layout of a record (\<open>core/record.h\<close>), and the
  helpers of \<open>misc/utility.h\<close> and \<open>misc/auto_ptr.h\<close> they use. An object of one of these classes is
  its \<open>control_\<close> word; the constructors and accessors go through the layouts of \<open>PackedWord\<close>.
  An \<open>assert\<close> of the code is \<open>AssertFail\<close>.
\<close>

section \<open>Utilities\<close>

definition Rotr64 :: "u64 \<Rightarrow> nat \<Rightarrow> u64" where
  "Rotr64 x n = (drop_bit n x OR push_bit (64 - n) x)"

definition GetHashCode :: "u64 \<Rightarrow> u64" where
  "GetHashCode input =
     (let h0 = 40343 * 8 + (input AND 0xFFFF);
          h1 = 40343 * h0 + (drop_bit 16 input AND 0xFFFF);
          h2 = 40343 * h1 + (drop_bit 32 input AND 0xFFFF);
          h3 = 40343 * h2 + drop_bit 48 input
      in Rotr64 (40343 * h3) 43)"

definition HashBytes :: "u16 list \<Rightarrow> u64" where
  "HashBytes str =
     Rotr64 (40343 * fold (\<lambda>c h. 40343 * h + ucast c) str (of_nat (length str))) 6"

definition IsPowerOfTwo :: "u64 \<Rightarrow> bool" where
  "IsPowerOfTwo x \<longleftrightarrow> 0 < x \<and> (x AND (x - 1)) = 0"

definition pad_alignment :: "u64 \<Rightarrow> u64 \<Rightarrow> c_error + u64" where
  "pad_alignment sz alignment =
     (if \<not> 0 < alignment \<or> (alignment AND (alignment - 1)) \<noteq> 0 then Inl AssertFail
      else let max_padding = alignment - 1 in Inr ((sz + max_padding) AND NOT max_padding))"

text \<open>
  \<open>_BitScanReverse64\<close> calls \<open>__builtin_clzl\<close>, which is undefined at 0; otherwise it is the index of
  the most significant bit. A shift by 64 or more is undefined.
\<close>

definition msb_index :: "u64 \<Rightarrow> nat" where
  "msb_index x = 63 - length (takeWhile (\<lambda>i. \<not> bit x (63 - i)) [0..<64])"

definition next_power_of_two :: "u64 \<Rightarrow> c_error + u64" where
  "next_power_of_two sz =
     (if sz = 0 then Inl AssertFail
      else if sz - 1 = 0 then Inl UB
      else let k = msb_index (sz - 1) in if k + 1 < 64 then Inr (push_bit (k + 1) 1) else Inl UB)"

section \<open>Log addresses\<close>

type_synonym address = u64

definition kInvalidAddress :: address where "kInvalidAddress = 1"
definition kMaxAddress :: u64 where "kMaxAddress = push_bit 48 1 - 1"
definition kMaxOffset :: u32 where "kMaxOffset = push_bit 25 1 - 1"
definition kMaxPage :: u32 where "kMaxPage = push_bit 23 1 - 1"

definition address_layout :: "nat list" where "address_layout = [25, 23, 16]"

definition Address_of :: "u32 \<Rightarrow> u32 \<Rightarrow> address" where
  "Address_of page offset = pack address_layout [ucast offset, ucast page, 0]"

definition address_reserved :: "address \<Rightarrow> u64" where
  "address_reserved a = field address_layout 2 a"

text \<open>The constructor from a control word.\<close>

definition Address :: "u64 \<Rightarrow> c_error + address" where
  "Address control = (if address_reserved control = 0 then Inr control else Inl AssertFail)"

definition address_add :: "address \<Rightarrow> u64 \<Rightarrow> c_error + address" where
  "address_add a delta = (if delta < 0xFFFFFFFF then Inr (a + delta) else Inl AssertFail)"

definition address_sub :: "address \<Rightarrow> address \<Rightarrow> c_error + address" where
  "address_sub a other = Address (a - other)"

definition address_compare :: "(u64 \<Rightarrow> u64 \<Rightarrow> bool) \<Rightarrow> address \<Rightarrow> address \<Rightarrow> c_error + bool" where
  "address_compare op a other =
     (if address_reserved a = 0 \<and> address_reserved other = 0 then Inr (op a other) else Inl AssertFail)"

definition address_less :: "address \<Rightarrow> address \<Rightarrow> c_error + bool" where
  "address_less = address_compare (<)"
definition address_le :: "address \<Rightarrow> address \<Rightarrow> c_error + bool" where
  "address_le = address_compare (\<le>)"
definition address_greater :: "address \<Rightarrow> address \<Rightarrow> c_error + bool" where
  "address_greater = address_compare (>)"
definition address_ge :: "address \<Rightarrow> address \<Rightarrow> c_error + bool" where
  "address_ge = address_compare (\<ge>)"

definition address_min :: "address \<Rightarrow> address \<Rightarrow> c_error + address" where
  "address_min a b = bindR (address_less b a) (\<lambda>lt. Inr (if lt then b else a))"

definition page :: "address \<Rightarrow> u32" where
  "page a = ucast (field address_layout 1 a)"

definition offset :: "address \<Rightarrow> u32" where
  "offset a = ucast (field address_layout 0 a)"

text \<open>\<open>AtomicAddress\<close>: every value read goes through the checking constructor.\<close>

definition atomic_address_load :: "u64 \<Rightarrow> c_error + address" where
  "atomic_address_load cell = Address cell"

definition atomic_address_cas :: "u64 \<Rightarrow> address \<Rightarrow> address \<Rightarrow> c_error + bool \<times> address \<times> u64" where
  "atomic_address_cas cell expected desired =
     (let (result, seen, cell') = compare_exchange_strong cell expected desired
      in bindR (Address seen) (\<lambda>e. Inr (result, e, cell')))"

section \<open>Key hashes\<close>

definition key_hash_layout :: "nat list" where "key_hash_layout = [48, 14, 2]"

definition hash_idx :: "u64 \<Rightarrow> u64 \<Rightarrow> c_error + u64" where
  "hash_idx h sz =
     (if IsPowerOfTwo sz then Inr (field key_hash_layout 0 h AND (sz - 1)) else Inl AssertFail)"

definition hash_tag :: "u64 \<Rightarrow> u16" where
  "hash_tag h = ucast (field key_hash_layout 1 h)"

section \<open>Hash bucket entries\<close>

type_synonym bucket_entry = u64

definition kInvalidEntry :: bucket_entry where "kInvalidEntry = 0"

definition entry_layout :: "nat list" where "entry_layout = [48, 14, 1, 1]"

definition HashBucketEntry :: "address \<Rightarrow> u16 \<Rightarrow> bool \<Rightarrow> bucket_entry" where
  "HashBucketEntry a tag tentative = pack entry_layout [a, ucast tag, 0, of_bool tentative]"

definition entry_unused :: "bucket_entry \<Rightarrow> bool" where
  "entry_unused e \<longleftrightarrow> e = 0"

text \<open>\<open>Address{address_}\<close>: the 48-bit field always passes the assertion of the constructor.\<close>

definition entry_address :: "bucket_entry \<Rightarrow> address" where
  "entry_address e = field entry_layout 0 e"

definition entry_tag :: "bucket_entry \<Rightarrow> u16" where
  "entry_tag e = ucast (field entry_layout 1 e)"

definition entry_tentative :: "bucket_entry \<Rightarrow> bool" where
  "entry_tentative e \<longleftrightarrow> field entry_layout 3 e \<noteq> 0"

definition set_tentative :: "bucket_entry \<Rightarrow> bool \<Rightarrow> bucket_entry" where
  "set_tentative e desired = set_field entry_layout 3 (of_bool desired) e"

type_synonym overflow_entry = u64

definition overflow_layout :: "nat list" where "overflow_layout = [48, 16]"

definition HashBucketOverflowEntry :: "u64 \<Rightarrow> overflow_entry" where
  "HashBucketOverflowEntry addr = pack overflow_layout [addr, 0]"

definition overflow_unused :: "overflow_entry \<Rightarrow> bool" where
  "overflow_unused e \<longleftrightarrow> field overflow_layout 0 e = 0"

definition overflow_address :: "overflow_entry \<Rightarrow> u64" where
  "overflow_address e = field overflow_layout 0 e"

abbreviation kNumEntries :: nat where "kNumEntries \<equiv> 7"

record hash_bucket =
  entries :: "bucket_entry list"
  overflow_entry :: overflow_entry

section \<open>Record headers and record layout\<close>

type_synonym record_info = u64

definition record_layout :: "nat list" where "record_layout = [48, 13, 1, 1, 1]"

definition RecordInfo :: "u16 \<Rightarrow> bool \<Rightarrow> bool \<Rightarrow> bool \<Rightarrow> address \<Rightarrow> record_info" where
  "RecordInfo version final_bit tombstone invalid prev =
     pack record_layout [prev, ucast version, of_bool invalid, of_bool tombstone, of_bool final_bit]"

definition IsNull :: "record_info \<Rightarrow> bool" where "IsNull r \<longleftrightarrow> r = 0"

definition previous_address :: "record_info \<Rightarrow> address" where
  "previous_address r = field record_layout 0 r"

definition checkpoint_version :: "record_info \<Rightarrow> u64" where
  "checkpoint_version r = field record_layout 1 r"

definition record_invalid :: "record_info \<Rightarrow> bool" where
  "record_invalid r \<longleftrightarrow> field record_layout 2 r \<noteq> 0"

definition record_tombstone :: "record_info \<Rightarrow> bool" where
  "record_tombstone r \<longleftrightarrow> field record_layout 3 r \<noteq> 0"

definition set_invalid :: "record_info \<Rightarrow> record_info" where
  "set_invalid r = set_field record_layout 2 1 r"

text \<open>
  A record is its header, the key and the value, each at its alignment. The arguments are
  \<open>sizeof\<close> and \<open>alignof\<close> of the key and value classes and the sizes the objects report; offsets are
  in bytes from the start of the record. The header has size and alignment 8.
\<close>

definition key_offset :: "u64 \<Rightarrow> c_error + u64" where
  "key_offset align_k = pad_alignment 8 align_k"

definition value_offset :: "u64 \<Rightarrow> u64 \<Rightarrow> u64 \<Rightarrow> c_error + u64" where
  "value_offset align_k align_v key_size =
     bindR (pad_alignment 8 align_k) (\<lambda>o_k. pad_alignment (key_size + o_k) align_v)"

definition record_size :: "u64 \<Rightarrow> u64 \<Rightarrow> u32 \<Rightarrow> u32 \<Rightarrow> c_error + u32" where
  "record_size align_k align_v key_size value_size =
     bindR (value_offset align_k align_v (ucast key_size)) (\<lambda>o_v.
     bindR (pad_alignment (ucast value_size + o_v) 8) (\<lambda>n. Inr (ucast n)))"

definition min_disk_key_size :: "u64 \<Rightarrow> u64 \<Rightarrow> c_error + u32" where
  "min_disk_key_size align_k sizeof_k =
     bindR (pad_alignment 8 align_k) (\<lambda>o_k. Inr (ucast (sizeof_k + o_k)))"

definition min_disk_value_size :: "u64 \<Rightarrow> u64 \<Rightarrow> u64 \<Rightarrow> u32 \<Rightarrow> c_error + u32" where
  "min_disk_value_size align_k align_v sizeof_v key_size =
     bindR (value_offset align_k align_v (ucast key_size)) (\<lambda>o_v. Inr (ucast (sizeof_v + o_v)))"

definition disk_size :: "u64 \<Rightarrow> u64 \<Rightarrow> u32 \<Rightarrow> u32 \<Rightarrow> c_error + u32" where
  "disk_size align_k align_v key_size value_size =
     bindR (value_offset align_k align_v (ucast key_size)) (\<lambda>o_v. Inr (ucast (ucast value_size + o_v)))"

section \<open>The layouts fill their words\<close>

interpretation address_word: packed_word address_layout
  by unfold_locales (simp add: address_layout_def)

interpretation key_hash_word: packed_word key_hash_layout
  by unfold_locales (simp add: key_hash_layout_def)

interpretation entry_word: packed_word entry_layout
  by unfold_locales (simp add: entry_layout_def)

interpretation overflow_word: packed_word overflow_layout
  by unfold_locales (simp add: overflow_layout_def)

interpretation record_word: packed_word record_layout
  by unfold_locales (simp add: record_layout_def)

lemmas layout_defs = address_layout_def key_hash_layout_def entry_layout_def overflow_layout_def
  record_layout_def

section \<open>Fields as numbers\<close>

lemma max_code [code]: "kMaxAddress = 0xFFFFFFFFFFFF" "kMaxOffset = 0x1FFFFFF" "kMaxPage = 0x7FFFFF"
  by (simp_all add: kMaxAddress_def kMaxOffset_def kMaxPage_def)

lemma unat_bits: "unat (take_bit n (drop_bit m x) :: u64) = unat x div 2 ^ m mod 2 ^ n"
proof -
  have "take_bit 64 (unat x) = unat x" by (rule take_bit_nat_eq_self [OF unat_bound_u64])
  moreover have "unat (drop_bit m x) = drop_bit m (take_bit 64 (unat x))"
    using unsigned_drop_bit_eq [of m x, where 'a = nat] by simp
  ultimately have "unat (drop_bit m x) = unat x div 2 ^ m" by (simp add: drop_bit_eq_div [where 'a = nat])
  moreover have "unat (take_bit n y) = take_bit n (unat y)" for y :: u64
    by (simp add: unsigned_take_bit_eq)
  ultimately show ?thesis by (simp add: take_bit_eq_mod [where 'a = nat])
qed

lemma address_fields:
  "field address_layout 0 a = take_bit 25 a" "field address_layout 1 a = take_bit 23 (drop_bit 25 a)"
  "field address_layout 2 a = take_bit 16 (drop_bit 48 a)"
  by (simp_all add: field_def address_layout_def)

lemma unat_ucast_u32: "unat (x :: u64) < 2 ^ 32 \<Longrightarrow> unat (ucast x :: u32) = unat x"
  by (simp add: unsigned_ucast_eq take_bit_nat_eq_self)

lemma unat_offset: "unat (offset a) = unat a mod 2 ^ 25"
proof -
  have u: "unat (field address_layout 0 a) = unat a mod 2 ^ 25"
    using unat_bits [of 25 0 a] by (simp add: address_fields)
  moreover have "unat a mod 2 ^ 25 < 2 ^ 32" by (rule less_trans [of _ "2 ^ 25"]) simp_all
  ultimately show ?thesis unfolding offset_def by (subst unat_ucast_u32) simp_all
qed

lemma unat_page: "unat (page a) = unat a div 2 ^ 25 mod 2 ^ 23"
proof -
  have u: "unat (field address_layout 1 a) = unat a div 2 ^ 25 mod 2 ^ 23"
    unfolding address_fields by (rule unat_bits)
  moreover have "unat a div 2 ^ 25 mod 2 ^ 23 < 2 ^ 32" by (rule less_trans [of _ "2 ^ 23"]) simp_all
  ultimately show ?thesis unfolding page_def by (subst unat_ucast_u32) simp_all
qed

lemma address_reserved_iff: "address_reserved a = 0 \<longleftrightarrow> unat a < 2 ^ 48"
proof -
  have u: "unat (address_reserved a) = unat a div 2 ^ 48 mod 2 ^ 16"
    using unat_bits [of 16 48 a] by (simp add: address_reserved_def address_fields)
  have "unat a div 2 ^ 48 < 2 ^ 16"
    using unat_bound_u64 [of a] by (simp add: less_mult_imp_div_less)
  with u have "unat (address_reserved a) = unat a div 2 ^ 48" by simp
  moreover have "unat a div 2 ^ 48 = 0 \<longleftrightarrow> unat a < 2 ^ 48" by (simp add: div_eq_0_iff)
  ultimately show ?thesis by (simp add: unat_eq_zero [symmetric])
qed

text \<open>
  Advancing a log address carries from the offset into the page: when the page number stays
  below its 23-bit limit, the sum is again a valid address, its offset is the sum of the offsets
  modulo the page size and its page is advanced by the number of page boundaries crossed.
\<close>

theorem address_add_carries:
  assumes "Address a = Inr a" "delta < 0xFFFFFFFF"
    and "unat (page a) + (unat (offset a) + unat delta) div 2 ^ 25 < 2 ^ 23"
  shows "\<exists>b. address_add a delta = Inr b \<and> Address b = Inr b \<and>
     unat (offset b) = (unat (offset a) + unat delta) mod 2 ^ 25 \<and>
     unat (page b) = unat (page a) + (unat (offset a) + unat delta) div 2 ^ 25"
proof -
  let ?x = "unat a" and ?d = "unat delta"
  have x: "?x < 2 ^ 48" using assms(1) by (simp add: Address_def address_reserved_iff split: if_splits)
  then have pg: "?x div 2 ^ 25 < 2 ^ 23" by (simp add: less_mult_imp_div_less)
  have split: "(?x + ?d) div 2 ^ 25 = ?x div 2 ^ 25 + (?x mod 2 ^ 25 + ?d) div 2 ^ 25"
    "(?x + ?d) mod 2 ^ 25 = (?x mod 2 ^ 25 + ?d) mod 2 ^ 25"
  proof -
    have e: "?x + ?d = (?x mod 2 ^ 25 + ?d) + ?x div 2 ^ 25 * 2 ^ 25" by presburger
    show "(?x + ?d) div 2 ^ 25 = ?x div 2 ^ 25 + (?x mod 2 ^ 25 + ?d) div 2 ^ 25"
      by (subst e) (simp only: div_mult_self1 power_not_zero zero_neq_numeral not_False_eq_True simp_thms)
    show "(?x + ?d) mod 2 ^ 25 = (?x mod 2 ^ 25 + ?d) mod 2 ^ 25" by (simp only: mod_add_left_eq)
  qed
  have lim: "(?x + ?d) div 2 ^ 25 < 2 ^ 23"
    unfolding split(1) using assms(3) pg unfolding unat_page unat_offset by simp
  then have lt: "?x + ?d < 2 ^ 48" by (simp add: div_less_iff_less_mult)
  then have sum: "unat (a + delta) = ?x + ?d"
    using unat_add_lem [of a delta] by simp
  have "address_add a delta = Inr (a + delta)" using assms(2) by (simp add: address_add_def)
  moreover have "Address (a + delta) = Inr (a + delta)"
    using lt by (simp add: Address_def address_reserved_iff sum)
  moreover have "unat (offset (a + delta)) = (unat (offset a) + ?d) mod 2 ^ 25"
    unfolding unat_offset sum by (rule split(2))
  moreover have "unat (page (a + delta)) = unat (page a) + (unat (offset a) + ?d) div 2 ^ 25"
    unfolding unat_page unat_offset sum using lim pg split(1) by (metis mod_less)
  ultimately show ?thesis by blast
qed

theorem address_add_carries_witness:
  "\<exists>b. address_add (Address_of 3 0x1FFFFFF) 2 = Inr b \<and> offset b = 1 \<and> page b = 4"
proof -
  have a: "Address_of 3 0x1FFFFFF = 0x7FFFFFF" by (simp add: Address_of_def address_layout_def)
  have op: "unat (offset 0x7FFFFFF) = 0x1FFFFFF" "unat (page 0x7FFFFFF) = 3"
    by (simp_all add: unat_offset unat_page)
  have "\<exists>b. address_add 0x7FFFFFF 2 = Inr b \<and> Address b = Inr b \<and> unat (offset b) = 1 \<and> unat (page b) = 4"
    using address_add_carries [of "0x7FFFFFF" 2]
    by (simp add: op Address_def address_reserved_iff)
  then obtain b where b: "address_add 0x7FFFFFF 2 = Inr b" "unat (offset b) = unat (1 :: u32)" "unat (page b) = unat (4 :: u32)"
    by auto
  then have "offset b = 1" "page b = 4" by (simp_all add: word_unat_eq_iff)
  with b(1) show ?thesis by (simp add: a)
qed

lemma take_bit_self_u64: "unat (x :: u64) < 2 ^ n \<Longrightarrow> take_bit n x = x"
  using unat_bits [of n 0 x] by (simp add: word_unat_eq_iff)

lemma entry_tag_field: "unat (tag :: u16) < 2 ^ 14 \<Longrightarrow> ucast (take_bit 14 (ucast tag :: u64)) = tag"
proof -
  assume "unat tag < 2 ^ 14"
  then have "take_bit 14 tag = tag"
    by (simp add: word_unat_eq_iff unsigned_take_bit_eq take_bit_nat_eq_self)
  moreover have "ucast (take_bit 14 (ucast tag :: u64)) = take_bit 14 tag"
    by (rule bit_word_eqI) (auto simp: bit_simps)
  ultimately show ?thesis by simp
qed

lemma entry_pack_fields:
  "field entry_layout 0 (HashBucketEntry a tag t) = take_bit 48 a"
  "field entry_layout 1 (HashBucketEntry a tag t) = take_bit 14 (ucast tag)"
  "field entry_layout 2 (HashBucketEntry a tag t) = 0"
  "field entry_layout 3 (HashBucketEntry a tag t) = of_bool t"
  unfolding HashBucketEntry_def
  by (subst entry_word.field_pack; simp add: entry_layout_def)+

lemma unpack_fields: "unpack ws x = map (\<lambda>i. field ws i x) [0..<length ws]"
  by (rule nth_equalityI) (simp_all add: field_def)

lemma set_tentative_entry: "set_tentative (HashBucketEntry a tag t) t' = HashBucketEntry a tag t'"
proof -
  have four: "[0..<length entry_layout] = [0, 1, 2, 3]" by (simp add: entry_layout_def upt_rec)
  have "set_tentative (HashBucketEntry a tag t) t' =
      pack entry_layout [take_bit 48 a, take_bit 14 (ucast tag), 0, of_bool t']"
    unfolding set_tentative_def set_field_def unpack_fields four
    using entry_pack_fields [of a tag t] by simp
  also have "\<dots> = HashBucketEntry a tag t'"
    by (simp add: HashBucketEntry_def entry_layout_def)
  finally show ?thesis .
qed

text \<open>
  C9: a hash bucket entry gives back the address, the tag and the tentative bit it was built from,
  changing its tentative bit changes nothing else, and an entry that holds any address but 0 - in
  particular the invalid address 1 - is never taken for an unused slot.
\<close>

theorem bucket_entry_roundtrip:
  assumes "Address a = Inr a" "unat tag < 2 ^ 14"
  shows "entry_address (HashBucketEntry a tag t) = a \<and> entry_tag (HashBucketEntry a tag t) = tag \<and>
    entry_tentative (HashBucketEntry a tag t) = t \<and>
    set_tentative (HashBucketEntry a tag t) t' = HashBucketEntry a tag t' \<and>
    (a \<noteq> 0 \<longrightarrow> \<not> entry_unused (HashBucketEntry a tag t))"
proof -
  have a: "take_bit 48 a = a"
    using assms(1) by (intro take_bit_self_u64) (simp add: Address_def address_reserved_iff split: if_splits)
  have addr: "entry_address (HashBucketEntry a tag t) = a"
    by (simp add: entry_address_def entry_pack_fields a)
  have "entry_address 0 = 0" by (simp add: entry_address_def field_def entry_layout_def)
  then have "a \<noteq> 0 \<longrightarrow> \<not> entry_unused (HashBucketEntry a tag t)"
    using addr by (auto simp: entry_unused_def)
  then show ?thesis
    using addr entry_tag_field [OF assms(2)] set_tentative_entry
    by (simp add: entry_tag_def entry_tentative_def entry_pack_fields(2,4) [unfolded One_nat_def])
qed

theorem bucket_entry_roundtrip_witness:
  "entry_address (HashBucketEntry kInvalidAddress 5 True) = kInvalidAddress \<and>
   \<not> entry_unused (HashBucketEntry kInvalidAddress 5 True)"
  using bucket_entry_roundtrip [of kInvalidAddress 5 True False]
  by (simp add: kInvalidAddress_def Address_def address_reserved_iff)

section \<open>Bucket indices\<close>

lemma IsPowerOfTwo_pow: "k < 64 \<Longrightarrow> IsPowerOfTwo (2 ^ k)"
proof -
  assume k: "k < 64"
  have "(2 ^ k :: u64) - 1 = mask k" by (simp add: mask_eq_exp_minus_1)
  moreover have "(2 ^ k :: u64) AND mask k = 0"
    by (rule bit_word_eqI) (auto simp: bit_simps)
  moreover have "(0 :: u64) < 2 ^ k" using k unat_pow2_u64 [of k] by (simp add: word_less_nat_alt)
  ultimately show ?thesis by (simp add: IsPowerOfTwo_def)
qed

lemma hash_idx_pow:
  assumes "k < 64"
  shows "\<exists>i. hash_idx h (2 ^ k) = Inr i \<and> unat i = unat h mod 2 ^ 48 mod 2 ^ k"
proof -
  have "field key_hash_layout 0 h AND (2 ^ k - 1) = take_bit k (take_bit 48 h)"
    by (simp add: field_def key_hash_layout_def mask_eq_exp_minus_1 [symmetric] take_bit_eq_mask)
  moreover have "unat (take_bit k (take_bit 48 h)) = unat h mod 2 ^ 48 mod 2 ^ k"
    using unat_bits [of k 0 "take_bit 48 h"] unat_bits [of 48 0 h] by simp
  ultimately show ?thesis using IsPowerOfTwo_pow [OF assms] by (simp add: hash_idx_def)
qed

text \<open>
  The bucket index of a hash lies inside a table of any power-of-two size, and doubling the
  table sends every hash of a bucket either to the bucket of the same index or to the one exactly
  one old table size above it; growing the index relies on this.
\<close>

theorem hash_idx_doubling:
  assumes "k < 63"
  shows "\<exists>i j. hash_idx h (2 ^ k) = Inr i \<and> hash_idx h (2 ^ (k + 1)) = Inr j \<and> i < 2 ^ k \<and>
    (j = i \<or> j = i + 2 ^ k)"
proof -
  let ?x = "unat h mod 2 ^ 48"
  obtain i j where i: "hash_idx h (2 ^ k) = Inr i" "unat i = ?x mod 2 ^ k"
    and j: "hash_idx h (2 ^ (k + 1)) = Inr j" "unat j = ?x mod 2 ^ (k + 1)"
    using hash_idx_pow [of k h] hash_idx_pow [of "k + 1" h] assms by auto
  have m: "?x mod 2 ^ (k + 1) = 2 ^ k * (?x div 2 ^ k mod 2) + ?x mod 2 ^ k"
    using mod_mult2_eq [of ?x "2 ^ k" 2] by (simp add: mult.commute)
  have pk: "unat (2 ^ k :: u64) = 2 ^ k" using assms by (simp add: unat_pow2_u64)
  have lt: "i < 2 ^ k" by (simp add: word_less_nat_alt i(2) pk)
  have "(2 :: nat) ^ k + 2 ^ k \<le> 2 ^ 64" using power_increasing [of "k + 1" 64 "2 :: nat"] assms by simp
  moreover have "unat i < 2 ^ k" using lt by (simp add: word_less_nat_alt pk)
  ultimately have sum: "unat (i + 2 ^ k) = unat i + 2 ^ k"
    using unat_add_lem [of i "2 ^ k"] by (simp add: pk)
  have "?x div 2 ^ k mod 2 = 0 \<or> ?x div 2 ^ k mod 2 = 1" by auto
  then have "unat j = unat i \<or> unat j = unat i + 2 ^ k" using i(2) j(2) m by auto
  then have "j = i \<or> j = i + 2 ^ k" using sum by (auto simp: word_unat_eq_iff)
  with i(1) j(1) lt show ?thesis by blast
qed

theorem hash_idx_doubling_witness:
  "\<exists>i j. hash_idx 0xABCDEF (2 ^ 10) = Inr i \<and> hash_idx 0xABCDEF (2 ^ 11) = Inr j \<and> (j = i \<or> j = i + 2 ^ 10)"
  using hash_idx_doubling [of 10 "0xABCDEF"] by auto

section \<open>Record layout\<close>

lemma pad_alignment_pow:
  assumes k: "k < 64" and x: "unat x + 2 ^ k \<le> 2 ^ 64"
  shows "\<exists>y. pad_alignment x (2 ^ k) = Inr y \<and> 2 ^ k dvd unat y \<and> unat x \<le> unat y \<and> unat y < unat x + 2 ^ k"
proof -
  have m: "(2 ^ k :: u64) - 1 = mask k" by (simp add: mask_eq_exp_minus_1)
  have mk: "unat (mask k :: u64) = 2 ^ k - 1"
  proof -
    have "unat (2 ^ k - 1 :: u64) = unat (2 ^ k :: u64) - unat (1 :: u64)"
      using IsPowerOfTwo_pow [OF k] by (intro unat_sub) (simp add: IsPowerOfTwo_def word_le_nat_alt word_less_nat_alt)
    then show ?thesis using unat_pow2_u64 [OF k] by (simp add: m)
  qed
  let ?s = "x + mask k" and ?y = "(x + mask k) AND NOT (mask k)"
  have s: "unat ?s = unat x + (2 ^ k - 1)"
  proof -
    have "unat x + (2 ^ k - 1) < 2 ^ 64" using x zero_less_power [of "2 :: nat" k] by linarith
    then show ?thesis using unat_add_lem [of x "mask k"] mk by simp
  qed
  have split: "?y + take_bit k ?s = ?s"
  proof -
    have "?y = push_bit k (drop_bit k ?s)" by (rule bit_word_eqI) (auto simp: bit_simps)
    then show ?thesis by (simp add: bits_ident)
  qed
  have tb: "unat (take_bit k ?s) = unat ?s mod 2 ^ k" using unat_bits [of k 0 ?s] by simp
  have y: "?y = ?s - take_bit k ?s" using split by (simp add: algebra_simps)
  have "unat ?y = unat ?s - unat ?s mod 2 ^ k"
    unfolding y using tb by (subst unat_sub) (simp_all add: word_le_nat_alt)
  then have uy: "unat ?y = unat ?s div 2 ^ k * 2 ^ k" by (simp add: minus_mod_eq_div_mult)
  have "unat ?s mod 2 ^ k < 2 ^ k" by simp
  then have b: "unat ?s < unat ?y + 2 ^ k" "unat ?y \<le> unat ?s"
    using uy div_mult_mod_eq [of "unat ?s" "2 ^ k"] by linarith+
  have "pad_alignment x (2 ^ k) = Inr ?y"
    using IsPowerOfTwo_pow [OF k] by (simp add: pad_alignment_def IsPowerOfTwo_def Let_def m)
  moreover have "2 ^ k dvd unat ?y" by (simp add: uy)
  ultimately show ?thesis using b s by (intro exI [of _ ?y]) auto
qed

lemma unat_ucast_up: "unat (ucast (x :: u32) :: u64) = unat x"
proof -
  have "unat x < 2 ^ 64" using unsigned_less [of x, where 'a = nat] by simp
  then show ?thesis by (simp add: unsigned_ucast_eq take_bit_nat_eq_self)
qed

lemma record_layout_facts:
  assumes "i \<le> 6" "j \<le> 6" "unat key_size + unat value_size + 200 < 2 ^ 32"
  obtains ok ov d n where "key_offset (2 ^ i) = Inr ok" "value_offset (2 ^ i) (2 ^ j) (ucast key_size) = Inr ov"
    "disk_size (2 ^ i) (2 ^ j) key_size value_size = Inr d" "record_size (2 ^ i) (2 ^ j) key_size value_size = Inr n"
    "8 \<le> unat ok" "2 ^ i dvd unat ok" "unat ok + unat key_size \<le> unat ov" "2 ^ j dvd unat ov"
    "unat d = unat ov + unat value_size" "unat d \<le> unat n" "unat n < unat d + 8" "8 dvd unat n"
proof -
  have pw: "(2 :: nat) ^ i \<le> 64" "(2 :: nat) ^ j \<le> 64"
    using power_increasing [OF assms(1), of "2 :: nat"] power_increasing [OF assms(2), of "2 :: nat"] by simp_all
  let ?k = "ucast key_size :: u64" and ?v = "ucast value_size :: u64"
  obtain ok where ok: "pad_alignment 8 (2 ^ i) = Inr ok" "2 ^ i dvd unat ok" "8 \<le> unat ok" "unat ok < 8 + 2 ^ i"
    using pad_alignment_pow [of i 8] assms(1) pw by auto
  have k1: "unat (?k + ok) = unat key_size + unat ok"
    using unat_add_lem [of ?k ok] ok(4) pw assms(3) by (simp add: unat_ucast_up)
  obtain ov where ov: "pad_alignment (?k + ok) (2 ^ j) = Inr ov" "2 ^ j dvd unat ov"
    "unat key_size + unat ok \<le> unat ov" "unat ov < unat key_size + unat ok + 2 ^ j"
    using pad_alignment_pow [of j "?k + ok"] assms ok(4) pw by (auto simp: k1)
  have v1: "unat (?v + ov) = unat value_size + unat ov"
    using unat_add_lem [of ?v ov] ov(4) ok(4) pw assms(3) by (simp add: unat_ucast_up)
  obtain n where n: "pad_alignment (?v + ov) (2 ^ 3) = Inr n" "2 ^ 3 dvd unat n"
    "unat value_size + unat ov \<le> unat n" "unat n < unat value_size + unat ov + 2 ^ 3"
    using pad_alignment_pow [of 3 "?v + ov"] assms ov(4) ok(4) pw by (auto simp: v1)
  have small: "unat n < 2 ^ 32" "unat (?v + ov) < 2 ^ 32" using n(4) ov(4) ok(4) pw assms(3) v1 by simp_all
  have vo: "value_offset (2 ^ i) (2 ^ j) ?k = Inr ov" using ok(1) ov(1) by (simp add: value_offset_def)
  moreover have "disk_size (2 ^ i) (2 ^ j) key_size value_size = Inr (ucast (?v + ov))"
    by (simp add: disk_size_def vo)
  moreover have "record_size (2 ^ i) (2 ^ j) key_size value_size = Inr (ucast n)"
    using n(1) by (simp add: record_size_def vo)
  ultimately show ?thesis
    using ok ov n small v1 unat_ucast_u32 [OF small(1)] unat_ucast_u32 [OF small(2)]
    by (intro that [of ok ov "ucast (?v + ov)" "ucast n"]) (simp_all add: key_offset_def)
qed

lemma aligned_from_eight:
  assumes "8 dvd a" "k \<le> 3" "2 ^ k dvd x"
  shows "2 ^ k dvd a + (x :: nat)"
proof -
  have "(2 :: nat) ^ k dvd 2 ^ 3" by (rule le_imp_power_dvd [OF assms(2)])
  then have "2 ^ k dvd a" using assms(1) by (auto intro: dvd_trans)
  then show ?thesis using assms(3) by (rule dvd_add)
qed

lemma misaligned_records:
  "key_offset (2 ^ 4) = Inr 16" "record_size (2 ^ 4) (2 ^ 3) 8 16 = Inr 40"
  "key_offset (2 ^ 5) = Inr 32" "record_size (2 ^ 5) (2 ^ 3) 8 16 = Inr 56"
  "key_offset (2 ^ 6) = Inr 64" "record_size (2 ^ 6) (2 ^ 3) 8 16 = Inr 88"
  by (simp_all add: key_offset_def record_size_def value_offset_def pad_alignment_def Let_def)

text \<open>
  C10: for all power-of-two alignments up to a cache line, the key and the value of a record lie at
  offsets that are multiples of their alignments, behind the header and without overlap; the disk size ends exactly behind the value,
  and the record size pads that to a multiple of eight with less than eight bytes. A record that
  starts at a multiple of eight is followed by one that does, and for alignments up to eight the addresses of its key
  and its value are aligned, wherever in the log it stands. For the larger alignments that the static assertions admit this
  is not so: the padding is that of the header, so that behind a record at address 64 the key of the next record is misaligned.
\<close>

theorem record_layout_sound:
  assumes "i \<le> 6" "j \<le> 6" "unat key_size + unat value_size + 200 < 2 ^ 32"
  shows "(\<exists>ok ov d n. key_offset (2 ^ i) = Inr ok \<and> value_offset (2 ^ i) (2 ^ j) (ucast key_size) = Inr ov \<and>
      disk_size (2 ^ i) (2 ^ j) key_size value_size = Inr d \<and>
      record_size (2 ^ i) (2 ^ j) key_size value_size = Inr n \<and>
      8 \<le> unat ok \<and> 2 ^ i dvd unat ok \<and>
      unat ok + unat key_size \<le> unat ov \<and> 2 ^ j dvd unat ov \<and>
      unat d = unat ov + unat value_size \<and> unat d \<le> unat n \<and> unat n < unat d + 8 \<and> 8 dvd unat n \<and>
      (\<forall>a. 8 dvd a \<longrightarrow> 8 dvd a + unat n \<and> (i \<le> 3 \<longrightarrow> 2 ^ i dvd a + unat ok) \<and> (j \<le> 3 \<longrightarrow> 2 ^ j dvd a + unat ov))) \<and>
    (\<forall>m \<in> {4, 5, 6}. \<exists>ok n. key_offset (2 ^ m) = Inr ok \<and> record_size (2 ^ m) (2 ^ 3) 8 16 = Inr n \<and>
      \<not> 2 ^ m dvd (64 + unat n) + unat ok)"
proof (rule conjI, goal_cases)
  case 1
  obtain ok ov d n where *: "key_offset (2 ^ i) = Inr ok" "value_offset (2 ^ i) (2 ^ j) (ucast key_size) = Inr ov"
    "disk_size (2 ^ i) (2 ^ j) key_size value_size = Inr d" "record_size (2 ^ i) (2 ^ j) key_size value_size = Inr n"
    "8 \<le> unat ok" "2 ^ i dvd unat ok" "unat ok + unat key_size \<le> unat ov" "2 ^ j dvd unat ov"
    "unat d = unat ov + unat value_size" "unat d \<le> unat n" "unat n < unat d + 8" "8 dvd unat n"
    by (rule record_layout_facts [OF assms])
  then show ?case
    using aligned_from_eight [OF _ _ *(6)] aligned_from_eight [OF _ _ *(8)]
    by (intro exI [of _ ok] exI [of _ ov] exI [of _ d] exI [of _ n]) (simp add: dvd_add)
next
  case 2
  show ?case using misaligned_records by (simp add: dvd_eq_mod_eq_0)
qed

theorem record_layout_sound_witness:
  "\<exists>n d ov. record_size (2 ^ 3) (2 ^ 2) 8 5 = Inr n \<and> disk_size (2 ^ 3) (2 ^ 2) 8 5 = Inr d \<and>
    value_offset (2 ^ 3) (2 ^ 2) 8 = Inr ov \<and> unat d \<le> unat n \<and> 8 dvd unat n \<and> 2 ^ 2 dvd 72 + unat ov"
proof -
  have "unat (8 :: u32) + unat (5 :: u32) + 200 < 2 ^ 32" "ucast (8 :: u32) = (8 :: u64)" "(8 :: nat) dvd 72" by simp_all
  then show ?thesis using record_layout_sound [of 3 2 8 5] by auto
qed

end
