(* ===== verification/CheckpointLocks.thy ===== *)
theory CheckpointLocks
  imports FasterWords
begin

text \<open>
  The checkpoint locks of the FASTER store (\<open>src/faster/cc/checkpoint_locks.h\<close>): one word per hash
  bucket that counts the operations working on the old and on the new version of its records. Two
  32-bit counters share a 64-bit word that is changed by compare-and-exchange and by atomic
  subtraction. The first part is the word and its operations run alone, the lock table and the
  guard that releases what it took; the second part interleaves any number of operations, one
  atomic access per step, and shows that old and new locks exclude each other.
\<close>

section \<open>The lock word\<close>

definition lock_layout :: "nat list" where "lock_layout = [32, 32]"

interpretation lock_word: packed_word lock_layout
  by unfold_locales (simp add: lock_layout_def)

definition CheckpointLock :: "u32 \<Rightarrow> u32 \<Rightarrow> u64" where
  "CheckpointLock old_lock_count new_lock_count = pack lock_layout [ucast old_lock_count, ucast new_lock_count]"

definition old_lock_count :: "u64 \<Rightarrow> u32" where
  "old_lock_count c = ucast (field lock_layout 0 c)"

definition new_lock_count :: "u64 \<Rightarrow> u32" where
  "new_lock_count c = ucast (field lock_layout 1 c)"

text \<open>Without other threads the exchange succeeds at the first attempt: (result, new word).\<close>

definition try_lock_old :: "u64 \<Rightarrow> bool \<times> u64" where
  "try_lock_old c =
     (if new_lock_count c = 0 then
        (let desired = CheckpointLock (old_lock_count c + 1) 0; (ok, _, c') = compare_exchange_strong c c desired
         in (ok, c'))
      else (False, c))"

definition unlock_old :: "u64 \<Rightarrow> u64" where
  "unlock_old c = c - CheckpointLock 1 0"

definition try_lock_new :: "u64 \<Rightarrow> bool \<times> u64" where
  "try_lock_new c =
     (if old_lock_count c = 0 then
        (let desired = CheckpointLock 0 (new_lock_count c + 1); (ok, _, c') = compare_exchange_strong c c desired
         in (ok, c'))
      else (False, c))"

definition unlock_new :: "u64 \<Rightarrow> u64" where
  "unlock_new c = c - CheckpointLock 0 1"

definition old_locked :: "u64 \<Rightarrow> bool" where
  "old_locked c \<longleftrightarrow> 0 < old_lock_count c"

definition new_locked :: "u64 \<Rightarrow> bool" where
  "new_locked c \<longleftrightarrow> 0 < new_lock_count c"

section \<open>The lock table and the guard\<close>

record checkpoint_locks =
  lock_size :: u64
  locks :: "u64 list option"

definition no_locks :: checkpoint_locks where
  "no_locks = \<lparr>lock_size = 0, locks = None\<rparr>"

text \<open>\<open>INT32_MAX\<close> is 2147483647. The allocation is assumed to succeed.\<close>

definition locks_Initialize :: "u64 \<Rightarrow> checkpoint_locks \<Rightarrow> c_error + checkpoint_locks" where
  "locks_Initialize sz ls =
     (if sz < 2147483647 \<and> IsPowerOfTwo sz
      then Inr \<lparr>lock_size = sz, locks = Some (replicate (unat sz) 0)\<rparr> else Inl AssertFail)"

definition locks_Free :: "checkpoint_locks \<Rightarrow> c_error + checkpoint_locks" where
  "locks_Free ls = (if locks ls = None then Inl AssertFail else Inr no_locks)"

definition get_lock :: "checkpoint_locks \<Rightarrow> u64 \<Rightarrow> c_error + nat" where
  "get_lock ls h =
     bindR (hash_idx h (lock_size ls)) (\<lambda>i.
       case locks ls of None \<Rightarrow> Inl UB
       | Some xs \<Rightarrow> if unat i < length xs then Inr (unat i) else Inl UB)"

definition lock_at :: "checkpoint_locks \<Rightarrow> nat \<Rightarrow> u64" where
  "lock_at ls i = (case locks ls of None \<Rightarrow> 0 | Some xs \<Rightarrow> xs ! i)"

definition put_lock :: "checkpoint_locks \<Rightarrow> nat \<Rightarrow> u64 \<Rightarrow> checkpoint_locks" where
  "put_lock ls i c = ls\<lparr>locks := map_option (\<lambda>xs. xs[i := c]) (locks ls)\<rparr>"

record lock_guard =
  guarded :: "nat option"
  locked_old :: bool
  locked_new :: bool

definition CheckpointLockGuard :: "checkpoint_locks \<Rightarrow> u64 \<Rightarrow> c_error + lock_guard" where
  "CheckpointLockGuard ls h =
     (if 0 < lock_size ls
      then bindR (get_lock ls h) (\<lambda>i. Inr \<lparr>guarded = Some i, locked_old = False, locked_new = False\<rparr>)
      else Inr \<lparr>guarded = None, locked_old = False, locked_new = False\<rparr>)"

definition guard_destroy :: "checkpoint_locks \<Rightarrow> lock_guard \<Rightarrow> checkpoint_locks" where
  "guard_destroy ls g =
     (case guarded g of None \<Rightarrow> ls
      | Some i \<Rightarrow>
          let c1 = (if locked_old g then unlock_old (lock_at ls i) else lock_at ls i);
              c2 = (if locked_new g then unlock_new c1 else c1)
          in put_lock ls i c2)"

definition guard_try_lock_old :: "checkpoint_locks \<Rightarrow> lock_guard \<Rightarrow> c_error + checkpoint_locks \<times> lock_guard \<times> bool" where
  "guard_try_lock_old ls g =
     (case guarded g of None \<Rightarrow> Inl AssertFail
      | Some i \<Rightarrow> if locked_old g then Inl AssertFail
          else let (ok, c) = try_lock_old (lock_at ls i) in Inr (put_lock ls i c, g\<lparr>locked_old := ok\<rparr>, ok))"

definition guard_try_lock_new :: "checkpoint_locks \<Rightarrow> lock_guard \<Rightarrow> c_error + checkpoint_locks \<times> lock_guard \<times> bool" where
  "guard_try_lock_new ls g =
     (case guarded g of None \<Rightarrow> Inl AssertFail
      | Some i \<Rightarrow> if locked_new g then Inl AssertFail
          else let (ok, c) = try_lock_new (lock_at ls i) in Inr (put_lock ls i c, g\<lparr>locked_new := ok\<rparr>, ok))"

definition guard_old_locked :: "checkpoint_locks \<Rightarrow> lock_guard \<Rightarrow> c_error + bool" where
  "guard_old_locked ls g =
     (case guarded g of None \<Rightarrow> Inl AssertFail | Some i \<Rightarrow> Inr (old_locked (lock_at ls i)))"

definition guard_new_locked :: "checkpoint_locks \<Rightarrow> lock_guard \<Rightarrow> c_error + bool" where
  "guard_new_locked ls g =
     (case guarded g of None \<Rightarrow> Inl AssertFail | Some i \<Rightarrow> Inr (new_locked (lock_at ls i)))"

section \<open>Interleaved operations\<close>

text \<open>
  \<open>TryOld e\<close> is at the head of the \<open>while\<close> loop of \<open>try_lock_old\<close> with \<open>e\<close> in \<open>expected\<close>.
  One step is one compare-and-exchange on the shared word; \<open>try_lock_old\<close> and \<open>try_lock_new\<close> above are the same loops when
  no other thread steps in between.
\<close>

datatype lock_pc = LIdle | TryOld u64 | TryNew u64 | HoldOld | HoldNew

record lock_sys =
  lock_cell :: u64
  lock_pcs :: "nat \<Rightarrow> lock_pc"

definition lock_init :: lock_sys where
  "lock_init = \<lparr>lock_cell = 0, lock_pcs = (\<lambda>_. LIdle)\<rparr>"

inductive lock_step :: "nat \<Rightarrow> lock_sys \<Rightarrow> lock_sys \<Rightarrow> bool" for N where
  call_old: "t < N \<Longrightarrow> lock_pcs s t = LIdle \<Longrightarrow>
    lock_step N s (s\<lparr>lock_pcs := (lock_pcs s)(t := TryOld (lock_cell s))\<rparr>)"
| old_refused: "t < N \<Longrightarrow> lock_pcs s t = TryOld e \<Longrightarrow> new_lock_count e \<noteq> 0 \<Longrightarrow>
    lock_step N s (s\<lparr>lock_pcs := (lock_pcs s)(t := LIdle)\<rparr>)"
| old_exchange: "t < N \<Longrightarrow> lock_pcs s t = TryOld e \<Longrightarrow> new_lock_count e = 0 \<Longrightarrow>
    compare_exchange_strong (lock_cell s) e (CheckpointLock (old_lock_count e + 1) 0) = (ok, e', c) \<Longrightarrow>
    lock_step N s \<lparr>lock_cell = c, lock_pcs = (lock_pcs s)(t := if ok then HoldOld else TryOld e')\<rparr>"
| old_release: "t < N \<Longrightarrow> lock_pcs s t = HoldOld \<Longrightarrow>
    lock_step N s \<lparr>lock_cell = unlock_old (lock_cell s), lock_pcs = (lock_pcs s)(t := LIdle)\<rparr>"
| call_new: "t < N \<Longrightarrow> lock_pcs s t = LIdle \<Longrightarrow>
    lock_step N s (s\<lparr>lock_pcs := (lock_pcs s)(t := TryNew (lock_cell s))\<rparr>)"
| new_refused: "t < N \<Longrightarrow> lock_pcs s t = TryNew e \<Longrightarrow> old_lock_count e \<noteq> 0 \<Longrightarrow>
    lock_step N s (s\<lparr>lock_pcs := (lock_pcs s)(t := LIdle)\<rparr>)"
| new_exchange: "t < N \<Longrightarrow> lock_pcs s t = TryNew e \<Longrightarrow> old_lock_count e = 0 \<Longrightarrow>
    compare_exchange_strong (lock_cell s) e (CheckpointLock 0 (new_lock_count e + 1)) = (ok, e', c) \<Longrightarrow>
    lock_step N s \<lparr>lock_cell = c, lock_pcs = (lock_pcs s)(t := if ok then HoldNew else TryNew e')\<rparr>"
| new_release: "t < N \<Longrightarrow> lock_pcs s t = HoldNew \<Longrightarrow>
    lock_step N s \<lparr>lock_cell = unlock_new (lock_cell s), lock_pcs = (lock_pcs s)(t := LIdle)\<rparr>"

inductive lock_reachable :: "nat \<Rightarrow> lock_sys \<Rightarrow> bool" for N where
  start: "lock_reachable N lock_init"
| step: "lock_reachable N s \<Longrightarrow> lock_step N s s' \<Longrightarrow> lock_reachable N s'"

section \<open>Counters as numbers\<close>

text \<open>The word that holds the counts \<open>a\<close> and \<open>b\<close>.\<close>

definition counts :: "nat \<Rightarrow> nat \<Rightarrow> u64" where
  "counts a b = of_nat (a + b * 2 ^ 32)"

lemma unat_counts: "a < 2 ^ 32 \<Longrightarrow> b < 2 ^ 32 \<Longrightarrow> unat (counts a b) = a + b * 2 ^ 32"
  unfolding counts_def by (rule unat_of_nat_u64) simp

lemma lock_fields:
  "field lock_layout 0 c = take_bit 32 c" "field lock_layout 1 c = take_bit 32 (drop_bit 32 c)"
  by (simp_all add: field_def lock_layout_def)

lemma old_count: "a < 2 ^ 32 \<Longrightarrow> b < 2 ^ 32 \<Longrightarrow> unat (old_lock_count (counts a b)) = a"
proof -
  assume ab: "a < 2 ^ 32" "b < 2 ^ 32"
  have "unat (take_bit 32 (counts a b)) = a"
    using unat_bits [of 32 0 "counts a b"] ab unat_counts [OF ab] by simp
  then show ?thesis using ab by (simp add: old_lock_count_def lock_fields unat_ucast_u32)
qed

lemma new_count: "a < 2 ^ 32 \<Longrightarrow> b < 2 ^ 32 \<Longrightarrow> unat (new_lock_count (counts a b)) = b"
proof -
  assume ab: "a < 2 ^ 32" "b < 2 ^ 32"
  have "unat (take_bit 32 (drop_bit 32 (counts a b))) = b"
    using unat_bits [of 32 32 "counts a b"] ab unat_counts [OF ab] by simp
  then show ?thesis using ab unfolding new_lock_count_def lock_fields by (simp add: unat_ucast_u32)
qed

lemma CheckpointLock_counts: "CheckpointLock x y = counts (unat x) (unat y)"
proof -
  have xy: "unat x < 2 ^ 32" "unat y < 2 ^ 32"
    using unsigned_less [of x, where 'a = nat] unsigned_less [of y, where 'a = nat] by simp_all
  have "take_bit 32 (counts (unat x) (unat y)) = ucast x"
    using unat_bits [of 32 0 "counts (unat x) (unat y)"] unat_counts [OF xy] xy
    by (simp add: word_unat_eq_iff unat_ucast_up)
  moreover have "take_bit 32 (drop_bit 32 (counts (unat x) (unat y))) = ucast y"
    using unat_bits [of 32 32 "counts (unat x) (unat y)"] unat_counts [OF xy] xy
    by (simp add: word_unat_eq_iff unat_ucast_up)
  ultimately have "unpack lock_layout (counts (unat x) (unat y)) = [ucast x, ucast y]"
    by (simp add: lock_layout_def)
  then show ?thesis using lock_word.pack_unpack_id [of "counts (unat x) (unat y)"]
    by (simp add: CheckpointLock_def)
qed

lemma counts_unlock:
  "unlock_old (counts (Suc a) b) = counts a b" "unlock_new (counts a (Suc b)) = counts a b"
  unfolding unlock_old_def unlock_new_def CheckpointLock_counts
  by (simp_all add: counts_def algebra_simps)

lemma counts_zero: "counts 0 0 = 0"
  by (simp add: counts_def)

lemma lock_old_step:
  "Suc a < 2 ^ 32 \<Longrightarrow> CheckpointLock (old_lock_count (counts a 0) + 1) 0 = counts (Suc a) 0"
proof -
  assume a: "Suc a < 2 ^ 32"
  then have "unat (old_lock_count (counts a 0)) = a" by (intro old_count) simp_all
  then have "unat (old_lock_count (counts a 0) + 1) = Suc a"
    using a unat_add_lem [of "old_lock_count (counts a 0)" 1] by simp
  then show ?thesis by (simp add: CheckpointLock_counts)
qed

lemma lock_new_step:
  "Suc b < 2 ^ 32 \<Longrightarrow> CheckpointLock 0 (new_lock_count (counts 0 b) + 1) = counts 0 (Suc b)"
proof -
  assume b: "Suc b < 2 ^ 32"
  then have "unat (new_lock_count (counts 0 b)) = b" by (intro new_count) simp_all
  then have "unat (new_lock_count (counts 0 b) + 1) = Suc b"
    using b unat_add_lem [of "new_lock_count (counts 0 b)" 1] by simp
  then show ?thesis by (simp add: CheckpointLock_counts)
qed

section \<open>Exclusion\<close>

definition holders :: "nat \<Rightarrow> lock_pc \<Rightarrow> (nat \<Rightarrow> lock_pc) \<Rightarrow> nat set" where
  "holders N k pcs = {t. t < N \<and> pcs t = k}"

definition lock_inv :: "nat \<Rightarrow> lock_sys \<Rightarrow> bool" where
  "lock_inv N s \<longleftrightarrow>
     lock_cell s = counts (card (holders N HoldOld (lock_pcs s))) (card (holders N HoldNew (lock_pcs s))) \<and>
     (holders N HoldOld (lock_pcs s) = {} \<or> holders N HoldNew (lock_pcs s) = {})"

lemma finite_holders [simp]: "finite (holders N k pcs)"
  by (simp add: holders_def)

lemma card_holders: "card (holders N k pcs) \<le> N"
  using card_mono [of "{..<N}" "holders N k pcs"] by (auto simp: holders_def)

lemma holders_upd:
  "t < N \<Longrightarrow> holders N k (pcs(t := x)) = (if x = k then insert t (holders N k pcs) else holders N k pcs - {t})"
  by (auto simp: holders_def)

lemma holders_upd_other:
  "pcs t \<noteq> k \<Longrightarrow> x \<noteq> k \<Longrightarrow> holders N k (pcs(t := x)) = holders N k pcs"
  by (auto simp: holders_def)

lemma holders_enter:
  assumes "t < N" "pcs t \<noteq> k"
  shows "card (holders N k (pcs(t := k))) = Suc (card (holders N k pcs))"
  using assms by (simp add: holders_upd) (simp add: holders_def)

lemma holders_leave:
  assumes "t < N" "pcs t = k" "x \<noteq> k"
  shows "card (holders N k pcs) = Suc (card (holders N k (pcs(t := x))))"
proof -
  have "t \<in> holders N k pcs" using assms by (simp add: holders_def)
  then have "card (holders N k pcs) = Suc (card (holders N k pcs - {t}))"
    by (intro card.remove) simp_all
  then show ?thesis using assms by (simp add: holders_upd)
qed

lemma lock_inv_quiet:
  assumes "lock_inv N s" "lock_pcs s t \<noteq> HoldOld" "lock_pcs s t \<noteq> HoldNew" "x \<noteq> HoldOld" "x \<noteq> HoldNew"
  shows "lock_inv N (s\<lparr>lock_pcs := (lock_pcs s)(t := x)\<rparr>)"
  using assms by (simp add: lock_inv_def holders_upd_other)

lemma lock_inv_old:
  assumes N: "N < 2 ^ 32" and inv: "lock_inv N s" and t: "t < N" "lock_pcs s t = TryOld (lock_cell s)"
    and free: "new_lock_count (lock_cell s) = 0"
  shows "lock_inv N \<lparr>lock_cell = CheckpointLock (old_lock_count (lock_cell s) + 1) 0,
    lock_pcs = (lock_pcs s)(t := HoldOld)\<rparr>"
proof -
  let ?a = "card (holders N HoldOld (lock_pcs s))" and ?b = "card (holders N HoldNew (lock_pcs s))"
  have ab: "?a < 2 ^ 32" "?b < 2 ^ 32" using card_holders N by (meson le_less_trans)+
  have cell: "lock_cell s = counts ?a ?b" using inv by (simp add: lock_inv_def)
  have "?b = 0" using new_count [OF ab] free by (simp add: cell)
  then have new: "holders N HoldNew (lock_pcs s) = {}" by simp
  have enter: "card (holders N HoldOld ((lock_pcs s)(t := HoldOld))) = Suc ?a"
    using t by (intro holders_enter) simp_all
  then have "Suc ?a < 2 ^ 32" using card_holders [of N HoldOld "(lock_pcs s)(t := HoldOld)"] N by simp
  then have "CheckpointLock (old_lock_count (lock_cell s) + 1) 0 = counts (Suc ?a) 0"
    using lock_old_step [of ?a] \<open>?b = 0\<close> by (simp add: cell)
  moreover have "holders N HoldNew ((lock_pcs s)(t := HoldOld)) = {}"
    using new t by (simp add: holders_upd_other)
  ultimately show ?thesis using enter by (simp add: lock_inv_def)
qed

lemma lock_inv_new:
  assumes N: "N < 2 ^ 32" and inv: "lock_inv N s" and t: "t < N" "lock_pcs s t = TryNew (lock_cell s)"
    and free: "old_lock_count (lock_cell s) = 0"
  shows "lock_inv N \<lparr>lock_cell = CheckpointLock 0 (new_lock_count (lock_cell s) + 1),
    lock_pcs = (lock_pcs s)(t := HoldNew)\<rparr>"
proof -
  let ?a = "card (holders N HoldOld (lock_pcs s))" and ?b = "card (holders N HoldNew (lock_pcs s))"
  have ab: "?a < 2 ^ 32" "?b < 2 ^ 32" using card_holders N by (meson le_less_trans)+
  have cell: "lock_cell s = counts ?a ?b" using inv by (simp add: lock_inv_def)
  have "?a = 0" using old_count [OF ab] free by (simp add: cell)
  then have old: "holders N HoldOld (lock_pcs s) = {}" by simp
  have enter: "card (holders N HoldNew ((lock_pcs s)(t := HoldNew))) = Suc ?b"
    using t by (intro holders_enter) simp_all
  then have "Suc ?b < 2 ^ 32" using card_holders [of N HoldNew "(lock_pcs s)(t := HoldNew)"] N by simp
  then have "CheckpointLock 0 (new_lock_count (lock_cell s) + 1) = counts 0 (Suc ?b)"
    using lock_new_step [of ?b] \<open>?a = 0\<close> by (simp add: cell)
  moreover have "holders N HoldOld ((lock_pcs s)(t := HoldNew)) = {}"
    using old t by (simp add: holders_upd_other)
  ultimately show ?thesis using enter by (simp add: lock_inv_def)
qed

lemma lock_inv_release:
  assumes inv: "lock_inv N s" and t: "t < N"
  shows "lock_pcs s t = HoldOld \<Longrightarrow>
      lock_inv N \<lparr>lock_cell = unlock_old (lock_cell s), lock_pcs = (lock_pcs s)(t := LIdle)\<rparr>"
    and "lock_pcs s t = HoldNew \<Longrightarrow>
      lock_inv N \<lparr>lock_cell = unlock_new (lock_cell s), lock_pcs = (lock_pcs s)(t := LIdle)\<rparr>"
proof -
  let ?f = "(lock_pcs s)(t := LIdle)"
  assume h: "lock_pcs s t = HoldOld"
  then have "t \<in> holders N HoldOld (lock_pcs s)" using t by (simp add: holders_def)
  then have new: "holders N HoldNew (lock_pcs s) = {}" using inv by (auto simp: lock_inv_def)
  have "card (holders N HoldOld (lock_pcs s)) = Suc (card (holders N HoldOld ?f))"
    using t h by (intro holders_leave) simp_all
  then have "unlock_old (lock_cell s) = counts (card (holders N HoldOld ?f)) 0"
    using inv new by (simp add: lock_inv_def counts_unlock)
  then show "lock_inv N \<lparr>lock_cell = unlock_old (lock_cell s), lock_pcs = ?f\<rparr>"
    using new h by (simp add: lock_inv_def holders_upd_other)
next
  let ?f = "(lock_pcs s)(t := LIdle)"
  assume h: "lock_pcs s t = HoldNew"
  then have "t \<in> holders N HoldNew (lock_pcs s)" using t by (simp add: holders_def)
  then have old: "holders N HoldOld (lock_pcs s) = {}" using inv by (auto simp: lock_inv_def)
  have "card (holders N HoldNew (lock_pcs s)) = Suc (card (holders N HoldNew ?f))"
    using t h by (intro holders_leave) simp_all
  then have "unlock_new (lock_cell s) = counts 0 (card (holders N HoldNew ?f))"
    using inv old by (simp add: lock_inv_def counts_unlock)
  then show "lock_inv N \<lparr>lock_cell = unlock_new (lock_cell s), lock_pcs = ?f\<rparr>"
    using old h by (simp add: lock_inv_def holders_upd_other)
qed

lemma lock_step_inv: "lock_step N s s' \<Longrightarrow> N < 2 ^ 32 \<Longrightarrow> lock_inv N s \<Longrightarrow> lock_inv N s'"
proof (induction rule: lock_step.induct)
  case (old_exchange t s e ok e' c)
  show ?case
  proof (cases "lock_cell s = e")
    case True
    then show ?thesis using old_exchange lock_inv_old [of N s t] by auto
  next
    case False
    then show ?thesis using old_exchange lock_inv_quiet [of N s t "TryOld e'"] by (cases s) auto
  qed
next
  case (new_exchange t s e ok e' c)
  show ?case
  proof (cases "lock_cell s = e")
    case True
    then show ?thesis using new_exchange lock_inv_new [of N s t] by auto
  next
    case False
    then show ?thesis using new_exchange lock_inv_quiet [of N s t "TryNew e'"] by (cases s) auto
  qed
qed (simp_all add: lock_inv_quiet lock_inv_release)

lemma lock_reachable_inv: "lock_reachable N s \<Longrightarrow> N < 2 ^ 32 \<Longrightarrow> lock_inv N s"
proof (induction rule: lock_reachable.induct)
  case start
  then show ?case by (simp add: lock_inv_def lock_init_def holders_def counts_zero)
qed (simp add: lock_step_inv)

text \<open>
  C12: in every interleaving of fewer than 2^32 operations, old and new locks exclude each other,
  and the two counters of the word are exactly the numbers of operations that hold each kind.
\<close>

theorem checkpoint_lock_exclusion:
  assumes "lock_reachable N s" "N < 2 ^ 32"
  shows "\<not> (\<exists>t < N. \<exists>u < N. lock_pcs s t = HoldOld \<and> lock_pcs s u = HoldNew) \<and>
    unat (old_lock_count (lock_cell s)) = card {t. t < N \<and> lock_pcs s t = HoldOld} \<and>
    unat (new_lock_count (lock_cell s)) = card {t. t < N \<and> lock_pcs s t = HoldNew}"
proof -
  let ?a = "card (holders N HoldOld (lock_pcs s))" and ?b = "card (holders N HoldNew (lock_pcs s))"
  have inv: "lock_inv N s" by (rule lock_reachable_inv [OF assms])
  have ab: "?a < 2 ^ 32" "?b < 2 ^ 32" using card_holders assms(2) by (meson le_less_trans)+
  show ?thesis
    using inv old_count [OF ab] new_count [OF ab]
    by (auto simp: lock_inv_def) (auto simp: holders_def)
qed

lemma lock_example: "\<exists>s. lock_reachable 2 s \<and> lock_pcs s 0 = HoldOld"
proof -
  let ?s1 = "lock_init\<lparr>lock_pcs := (lock_pcs lock_init)(0 := TryOld (lock_cell lock_init))\<rparr>"
  have 1: "lock_step 2 lock_init ?s1" by (rule lock_step.call_old) (simp_all add: lock_init_def)
  let ?c = "CheckpointLock (old_lock_count 0 + 1) 0"
  have z: "new_lock_count 0 = 0" by (simp add: new_lock_count_def field_def lock_layout_def)
  have 2: "lock_step 2 ?s1 \<lparr>lock_cell = ?c, lock_pcs = (lock_pcs ?s1)(0 := if True then HoldOld else TryOld 0)\<rparr>"
    by (rule lock_step.old_exchange [where e = 0 and e' = 0]) (simp_all add: lock_init_def z)
  show ?thesis
    by (rule exI, rule conjI, rule lock_reachable.step [OF lock_reachable.step [OF lock_reachable.start 1] 2]) simp
qed

theorem checkpoint_lock_exclusion_witness:
  "\<exists>s. lock_reachable 2 s \<and> lock_pcs s 0 = HoldOld \<and> lock_pcs s 1 \<noteq> HoldNew"
proof -
  obtain s where s: "lock_reachable 2 s" "lock_pcs s 0 = HoldOld" using lock_example by blast
  have "\<not> (\<exists>t < (2 :: nat). \<exists>u < 2. lock_pcs s t = HoldOld \<and> lock_pcs s u = HoldNew)"
    using checkpoint_lock_exclusion [OF s(1)] by simp
  moreover have "(0 :: nat) < 2" "(1 :: nat) < 2" by simp_all
  ultimately show ?thesis using s by blast
qed

section \<open>The guard\<close>

lemma put_lock_lock_at:
  assumes "locks ls = Some xs" "i < length xs"
  shows "lock_at (put_lock ls i c) i = c" "put_lock (put_lock ls i c) i (lock_at ls i) = ls"
  using assms by (cases ls; simp add: lock_at_def put_lock_def)+

lemma counts_split: "\<exists>a b. c = counts a b \<and> a < 2 ^ 32 \<and> b < 2 ^ 32"
proof -
  have "unat c div 2 ^ 32 < 2 ^ 32" using unat_bound_u64 [of c] by (simp add: less_mult_imp_div_less)
  moreover have "c = counts (unat c mod 2 ^ 32) (unat c div 2 ^ 32)"
    unfolding counts_def by (simp add: word_unat_eq_iff unat_of_nat_u64 mod_div_decomp)
  ultimately show ?thesis by (metis mod_less_divisor zero_less_numeral zero_less_power)
qed

lemma unlock_after_lock:
  assumes "unat (old_lock_count c) + 1 < 2 ^ 32" "unat (new_lock_count c) + 1 < 2 ^ 32"
  shows "try_lock_old c = (ok, c') \<Longrightarrow> (ok \<longleftrightarrow> new_lock_count c = 0) \<and> (if ok then unlock_old c' else c') = c"
    and "try_lock_new c = (ok, c') \<Longrightarrow> (ok \<longleftrightarrow> old_lock_count c = 0) \<and> (if ok then unlock_new c' else c') = c"
proof -
  obtain a b where c: "c = counts a b" "a < 2 ^ 32" "b < 2 ^ 32" using counts_split by blast
  have ab: "Suc a < 2 ^ 32" "Suc b < 2 ^ 32"
    using assms old_count [OF c(2,3)] new_count [OF c(2,3)] by (simp_all add: c(1))
  have z: "new_lock_count c = 0 \<longleftrightarrow> b = 0" "old_lock_count c = 0 \<longleftrightarrow> a = 0"
    using old_count [OF c(2,3)] new_count [OF c(2,3)] by (simp_all add: c(1) word_unat_eq_iff)
  show "try_lock_old c = (ok, c') \<Longrightarrow> (ok \<longleftrightarrow> new_lock_count c = 0) \<and> (if ok then unlock_old c' else c') = c"
    using lock_old_step [OF ab(1)] counts_unlock(1) [of a 0] z c(1)
    by (auto simp: try_lock_old_def Let_def split: if_splits)
  show "try_lock_new c = (ok, c') \<Longrightarrow> (ok \<longleftrightarrow> old_lock_count c = 0) \<and> (if ok then unlock_new c' else c') = c"
    using lock_new_step [OF ab(2)] counts_unlock(2) [of 0 b] z c(1)
    by (auto simp: try_lock_new_def Let_def split: if_splits)
qed

text \<open>
  On an initialised lock table a guard finds its lock, an attempt to take the old or the new
  lock through it succeeds exactly when no lock of the other kind is held, and destroying the guard
  afterwards gives back the table as it was, whether the attempt succeeded or not.
\<close>

theorem lock_guard_restores:
  assumes "locks_Initialize (2 ^ k) ls0 = Inr ls1" "length xs = 2 ^ k"
    and "\<forall>c \<in> set xs. unat (old_lock_count c) + 1 < 2 ^ 32 \<and> unat (new_lock_count c) + 1 < 2 ^ 32"
  defines "ls \<equiv> ls1\<lparr>locks := Some xs\<rparr>"
  shows "\<exists>i g. CheckpointLockGuard ls h = Inr g \<and> guarded g = Some i \<and> i < 2 ^ k \<and>
    (\<exists>ls' g' ok. guard_try_lock_old ls g = Inr (ls', g', ok) \<and> (ok \<longleftrightarrow> \<not> new_locked (xs ! i)) \<and> guard_destroy ls' g' = ls) \<and>
    (\<exists>ls' g' ok. guard_try_lock_new ls g = Inr (ls', g', ok) \<and> (ok \<longleftrightarrow> \<not> old_locked (xs ! i)) \<and> guard_destroy ls' g' = ls)"
proof -
  have ini: "(2 ^ k :: u64) < 2147483647" "IsPowerOfTwo (2 ^ k)" "ls1 = \<lparr>lock_size = 2 ^ k, locks = Some (replicate (unat (2 ^ k :: u64)) 0)\<rparr>"
    using assms(1) by (auto simp: locks_Initialize_def split: if_splits)
  have k: "k < 64"
  proof (rule ccontr)
    assume "\<not> k < 64"
    then have "(2 ^ k :: u64) = 0" by simp
    then show False using ini(2) unfolding IsPowerOfTwo_def by (metis less_irrefl)
  qed
  have ls: "lock_size ls = 2 ^ k" "locks ls = Some xs" by (simp_all add: ls_def ini(3))
  obtain i where i: "hash_idx h (2 ^ k) = Inr i" "unat i = unat h mod 2 ^ 48 mod 2 ^ k"
    using hash_idx_pow [OF k] by blast
  have ib: "unat i < 2 ^ k" by (simp add: i(2))
  let ?g = "\<lparr>guarded = Some (unat i), locked_old = False, locked_new = False\<rparr>" and ?c = "xs ! unat i"
  have g: "CheckpointLockGuard ls h = Inr ?g"
    using ini(2) ib assms(2) by (simp add: CheckpointLockGuard_def get_lock_def ls i(1) IsPowerOfTwo_def)
  have at: "lock_at ls (unat i) = ?c" by (simp add: lock_at_def ls)
  have "?c \<in> set xs" using ib assms(2) by simp
  then have cb: "unat (old_lock_count ?c) + 1 < 2 ^ 32" "unat (new_lock_count ?c) + 1 < 2 ^ 32"
    using assms(3) by auto
  note put = put_lock_lock_at [OF ls(2), of "unat i"]
  have ub: "unat i < length xs" using ib assms(2) by simp
  have old: "\<exists>ls' g' ok. guard_try_lock_old ls ?g = Inr (ls', g', ok) \<and> (ok \<longleftrightarrow> \<not> new_locked ?c) \<and> guard_destroy ls' g' = ls"
  proof -
    obtain ok c' where t: "try_lock_old ?c = (ok, c')" by (cases "try_lock_old ?c")
    have r: "(ok \<longleftrightarrow> new_lock_count ?c = 0)" "(if ok then unlock_old c' else c') = ?c"
      using unlock_after_lock(1) [OF cb t] by auto
    then show ?thesis
      using put [OF ub] at by (auto simp: guard_try_lock_old_def t guard_destroy_def new_locked_def word_gt_0)
  qed
  have new: "\<exists>ls' g' ok. guard_try_lock_new ls ?g = Inr (ls', g', ok) \<and> (ok \<longleftrightarrow> \<not> old_locked ?c) \<and> guard_destroy ls' g' = ls"
  proof -
    obtain ok c' where t: "try_lock_new ?c = (ok, c')" by (cases "try_lock_new ?c")
    have r: "(ok \<longleftrightarrow> old_lock_count ?c = 0)" "(if ok then unlock_new c' else c') = ?c"
      using unlock_after_lock(2) [OF cb t] by auto
    then show ?thesis
      using put [OF ub] at by (auto simp: guard_try_lock_new_def t guard_destroy_def old_locked_def word_gt_0)
  qed
  show ?thesis using g ib old new by (intro exI [of _ "unat i"] exI [of _ ?g]) simp
qed

theorem lock_guard_restores_witness:
  "\<exists>ls1 g. locks_Initialize (2 ^ 2) no_locks = Inr ls1 \<and>
     CheckpointLockGuard (ls1\<lparr>locks := Some [1, 0, 0, 0]\<rparr>) 5 = Inr g"
proof -
  obtain ls1 where "locks_Initialize (2 ^ 2) no_locks = Inr ls1"
    using IsPowerOfTwo_pow [of 2] by (simp add: locks_Initialize_def)
  moreover have "unat (old_lock_count 1) = 1" "unat (new_lock_count 1) = 0" "unat (old_lock_count 0) = 0"
    "unat (new_lock_count 0) = 0"
    using old_count [of 1 0] new_count [of 1 0] old_count [of 0 0] new_count [of 0 0] by (simp_all add: counts_def)
  ultimately show ?thesis using lock_guard_restores [of 2 no_locks ls1 "[1, 0, 0, 0]" 5] by auto
qed

end
