(* ===== verification/SystemState.thy ===== *)
theory SystemState
  imports PackedWord
begin

text \<open>
  The global state machine of the FASTER store (\<open>src/faster/cc/state_transitions.h\<close>, the phases of
  \<open>memory/phase.h\<close>). A state is an action, a phase and a checkpoint version, packed into one 64-bit
  word that all threads update by compare-and-exchange. The operations that start actions and move
  the machine are in \<open>CheckpointControl\<close>.
\<close>

section \<open>Status codes\<close>

text \<open>The results of the operations of the store (\<open>misc/status.h\<close>) and their numbers (\<open>retStatus\<close>).\<close>

datatype status = Ok | Pending | NotFound | OutOfMemory | IOError | Corruption | Aborted

fun retStatus :: "status \<Rightarrow> int" where
  "retStatus Ok = 0"
| "retStatus Pending = 1"
| "retStatus NotFound = 2"
| "retStatus OutOfMemory = 3"
| "retStatus IOError = 4"
| "retStatus Corruption = 5"
| "retStatus Aborted = 6"

section \<open>Actions, phases and states\<close>

datatype Action = ActionNone | CheckpointFull | CheckpointIndex | CheckpointHybridLog | Recover | GC | GrowIndex

datatype Phase = PREP_INDEX_CHKPT | INDEX_CHKPT | PREPARE | IN_PROGRESS | WAIT_PENDING | WAIT_FLUSH | REST
  | PERSISTENCE_CALLBACK | GC_IO_PENDING | GC_IN_PROGRESS | GROW_PREPARE | GROW_IN_PROGRESS | INVALID

text \<open>The underlying \<open>uint8_t\<close> of the enumerators.\<close>

fun action_code :: "Action \<Rightarrow> u64" where
  "action_code ActionNone = 0"
| "action_code CheckpointFull = 1"
| "action_code CheckpointIndex = 2"
| "action_code CheckpointHybridLog = 3"
| "action_code Recover = 4"
| "action_code GC = 5"
| "action_code GrowIndex = 6"

fun phase_code :: "Phase \<Rightarrow> u64" where
  "phase_code PREP_INDEX_CHKPT = 0"
| "phase_code INDEX_CHKPT = 1"
| "phase_code PREPARE = 2"
| "phase_code IN_PROGRESS = 3"
| "phase_code WAIT_PENDING = 4"
| "phase_code WAIT_FLUSH = 5"
| "phase_code REST = 6"
| "phase_code PERSISTENCE_CALLBACK = 7"
| "phase_code GC_IO_PENDING = 8"
| "phase_code GC_IN_PROGRESS = 9"
| "phase_code GROW_PREPARE = 10"
| "phase_code GROW_IN_PROGRESS = 11"
| "phase_code INVALID = 12"

record system_state =
  action :: Action
  phase :: Phase
  version :: u32

abbreviation SystemState :: "Action \<Rightarrow> Phase \<Rightarrow> u32 \<Rightarrow> system_state" where
  "SystemState a p v \<equiv> \<lparr>action = a, phase = p, version = v\<rparr>"

text \<open>
  The control word: a byte for the action, a byte for the phase, two bytes of padding, which the
  constructor clears, and the version. The equality operators compare control words.
\<close>

definition state_layout :: "nat list" where "state_layout = [8, 8, 16, 32]"

definition state_control :: "system_state \<Rightarrow> u64" where
  "state_control s = pack state_layout [action_code (action s), phase_code (phase s), 0, ucast (version s)]"

interpretation state_word: packed_word state_layout
  by unfold_locales (simp add: state_layout_def)

section \<open>Transitions\<close>

text \<open>The table of \<open>GetNextState\<close>; what is not listed fails the assertion.\<close>

fun GetNextState :: "system_state \<Rightarrow> c_error + system_state" where
  "GetNextState s =
     (let v = version s in
      case action s of
        CheckpointFull \<Rightarrow>
          (case phase s of
             REST \<Rightarrow> Inr (SystemState CheckpointFull PREP_INDEX_CHKPT v)
           | PREP_INDEX_CHKPT \<Rightarrow> Inr (SystemState CheckpointFull INDEX_CHKPT v)
           | INDEX_CHKPT \<Rightarrow> Inr (SystemState CheckpointFull PREPARE v)
           | PREPARE \<Rightarrow> Inr (SystemState CheckpointFull IN_PROGRESS (v + 1))
           | IN_PROGRESS \<Rightarrow> Inr (SystemState CheckpointFull WAIT_PENDING v)
           | WAIT_PENDING \<Rightarrow> Inr (SystemState CheckpointFull WAIT_FLUSH v)
           | WAIT_FLUSH \<Rightarrow> Inr (SystemState CheckpointFull PERSISTENCE_CALLBACK v)
           | PERSISTENCE_CALLBACK \<Rightarrow> Inr (SystemState CheckpointFull REST v)
           | _ \<Rightarrow> Inl AssertFail)
      | CheckpointIndex \<Rightarrow>
          (case phase s of
             REST \<Rightarrow> Inr (SystemState CheckpointIndex PREP_INDEX_CHKPT v)
           | PREP_INDEX_CHKPT \<Rightarrow> Inr (SystemState CheckpointIndex INDEX_CHKPT v)
           | INDEX_CHKPT \<Rightarrow> Inr (SystemState CheckpointIndex REST v)
           | _ \<Rightarrow> Inl AssertFail)
      | CheckpointHybridLog \<Rightarrow>
          (case phase s of
             REST \<Rightarrow> Inr (SystemState CheckpointHybridLog PREPARE v)
           | PREPARE \<Rightarrow> Inr (SystemState CheckpointHybridLog IN_PROGRESS (v + 1))
           | IN_PROGRESS \<Rightarrow> Inr (SystemState CheckpointHybridLog WAIT_PENDING v)
           | WAIT_PENDING \<Rightarrow> Inr (SystemState CheckpointHybridLog WAIT_FLUSH v)
           | WAIT_FLUSH \<Rightarrow> Inr (SystemState CheckpointHybridLog PERSISTENCE_CALLBACK v)
           | PERSISTENCE_CALLBACK \<Rightarrow> Inr (SystemState CheckpointHybridLog REST v)
           | _ \<Rightarrow> Inl AssertFail)
      | GC \<Rightarrow>
          (case phase s of
             REST \<Rightarrow> Inr (SystemState GC GC_IO_PENDING v)
           | GC_IO_PENDING \<Rightarrow> Inr (SystemState GC GC_IN_PROGRESS v)
           | GC_IN_PROGRESS \<Rightarrow> Inr (SystemState GC REST v)
           | _ \<Rightarrow> Inl AssertFail)
      | GrowIndex \<Rightarrow>
          (case phase s of
             REST \<Rightarrow> Inr (SystemState GrowIndex GROW_PREPARE v)
           | GROW_PREPARE \<Rightarrow> Inr (SystemState GrowIndex GROW_IN_PROGRESS v)
           | GROW_IN_PROGRESS \<Rightarrow> Inr (SystemState GrowIndex REST v)
           | _ \<Rightarrow> Inl AssertFail)
      | _ \<Rightarrow> Inl AssertFail)"

section \<open>Cycles\<close>

text \<open>The phases of an action in the order in which it passes through them.\<close>

fun action_phases :: "Action \<Rightarrow> Phase list" where
  "action_phases ActionNone = [REST]"
| "action_phases CheckpointFull =
     [REST, PREP_INDEX_CHKPT, INDEX_CHKPT, PREPARE, IN_PROGRESS, WAIT_PENDING, WAIT_FLUSH, PERSISTENCE_CALLBACK]"
| "action_phases CheckpointIndex = [REST, PREP_INDEX_CHKPT, INDEX_CHKPT]"
| "action_phases CheckpointHybridLog = [REST, PREPARE, IN_PROGRESS, WAIT_PENDING, WAIT_FLUSH, PERSISTENCE_CALLBACK]"
| "action_phases Recover = [REST]"
| "action_phases GC = [REST, GC_IO_PENDING, GC_IN_PROGRESS]"
| "action_phases GrowIndex = [REST, GROW_PREPARE, GROW_IN_PROGRESS]"

definition valid_state :: "system_state \<Rightarrow> bool" where
  "valid_state s \<longleftrightarrow> phase s \<in> set (action_phases (action s))"

definition takes_version :: "Action \<Rightarrow> bool" where
  "takes_version a \<longleftrightarrow> a = CheckpointFull \<or> a = CheckpointHybridLog"

definition moves :: "Action \<Rightarrow> bool" where
  "moves a \<longleftrightarrow> a \<noteq> ActionNone \<and> a \<noteq> Recover"

fun iterate_next :: "nat \<Rightarrow> system_state \<Rightarrow> c_error + system_state" where
  "iterate_next 0 s = Inr s"
| "iterate_next (Suc n) s = bindR (GetNextState s) (iterate_next n)"

lemma GetNextState_valid:
  assumes "valid_state s" "moves (action s)"
  shows "\<exists>s'. GetNextState s = Inr s' \<and> valid_state s' \<and> action s' = action s \<and>
    (version s' = version s \<or> phase s = PREPARE \<and> version s' = version s + 1)"
  using assms
  by (cases s; cases "action s"; cases "phase s") (auto simp: valid_state_def moves_def Let_def)

text \<open>
  C11: every checkpoint, garbage collection and index growth runs through a fixed cycle: from REST,
  \<open>GetNextState\<close> visits each of the action's phases once, in order, without failing its assertions,
  and returns to REST; the checkpoint version grows by one exactly for the actions that checkpoint
  the log.
\<close>

theorem system_state_cycle:
  assumes "moves a"
  shows "iterate_next (length (action_phases a)) (SystemState a REST v) =
      Inr (SystemState a REST (if takes_version a then v + 1 else v)) \<and>
    distinct (action_phases a) \<and>
    (\<forall>i < length (action_phases a). \<exists>w. iterate_next i (SystemState a REST v) = Inr (SystemState a (action_phases a ! i) w))"
  using assms
  by (cases a) (simp_all add: moves_def takes_version_def All_less_Suc)

theorem system_state_cycle_witness:
  "iterate_next 8 (SystemState CheckpointFull REST 4) = Inr (SystemState CheckpointFull REST 5)"
  using conjunct1 [OF system_state_cycle [of CheckpointFull 4]]
  by (simp add: moves_def takes_version_def numeral_eq_Suc)

lemma action_code_bound: "take_bit 8 (action_code a) = action_code a"
  by (cases a) simp_all

lemma phase_code_bound: "take_bit 8 (phase_code p) = phase_code p"
  by (cases p) simp_all

lemma code_inj: "inj action_code" "inj phase_code"
proof -
  show "inj action_code" by (rule injI, rename_tac x y, case_tac x; case_tac y; simp)
  show "inj phase_code" by (rule injI, rename_tac x y, case_tac x; case_tac y; simp)
qed

lemma state_control_inj_aux: "state_control s = state_control s' \<Longrightarrow> s = s'"
proof -
  assume "state_control s = state_control s'"
  then have "\<forall>i < length state_layout.
      take_bit (state_layout ! i) ([action_code (action s), phase_code (phase s), 0, ucast (version s)] ! i) =
      take_bit (state_layout ! i) ([action_code (action s'), phase_code (phase s'), 0, ucast (version s')] ! i)"
    unfolding state_control_def by (subst (asm) state_word.pack_eq_iff) (simp_all add: state_layout_def)
  then have "action_code (action s) = action_code (action s')" "phase_code (phase s) = phase_code (phase s')"
    "take_bit 32 (ucast (version s) :: u64) = take_bit 32 (ucast (version s'))"
    by (simp_all add: state_layout_def All_less_Suc action_code_bound phase_code_bound)
  moreover have "ucast (take_bit 32 (ucast (w :: u32) :: u64)) = w" for w
    by (rule bit_word_eqI) (auto simp: bit_simps)
  ultimately have "action s = action s'" "phase s = phase s'" "version s = version s'"
    using code_inj by (auto dest: injD) (metis)
  then show "s = s'" by simp
qed

text \<open>
  Comparing control words is comparing states: two states have the same control word exactly
  when they agree on action, phase and version, so a compare-and-exchange on the word never mixes
  two states up.
\<close>

theorem state_control_inj: "state_control s = state_control s' \<longleftrightarrow> s = s'"
  using state_control_inj_aux [of s s'] by blast

end
