(* ===== verification/CheckpointControl.thy ===== *)
theory CheckpointControl
  imports SystemState CheckpointLocks
begin

text \<open>
  Checkpoints, recovery, garbage collection and index growth as the store runs them: the metadata of
  \<open>src/faster/cc/checkpoint_state.h\<close>, the states of \<open>memory/gc_state.h\<close> and \<open>memory/grow_state.h\<close>,
  and the functions of \<open>api/faster.h\<close> that start an action and move the system state: \<open>Checkpoint\<close>,
  \<open>CheckpointIndex\<close>, \<open>CheckpointHybridLog\<close>, \<open>Recover\<close>, \<open>ShiftBeginAddress\<close>, \<open>GrowIndex\<close> and
  \<open>GlobalMoveToNextState\<close>. File I/O and callbacks are recorded in \<open>calls\<close>; what the I/O calls return
  and the values read from the log and the allocators are in the record \<open>outside\<close>.
\<close>

section \<open>Metadata\<close>

type_synonym guid = "128 word"

record index_metadata =
  im_version :: u32
  im_table_size :: u64
  num_ht_bytes :: u64
  num_ofb_bytes :: u64
  ofb_count :: u64
  log_begin_address :: address
  checkpoint_start_address :: address

definition IndexMetadata_Initialize :: "u32 \<Rightarrow> u64 \<Rightarrow> address \<Rightarrow> address \<Rightarrow> index_metadata" where
  "IndexMetadata_Initialize v sz log_begin start =
     \<lparr>im_version = v, im_table_size = sz, num_ht_bytes = 0, num_ofb_bytes = 0, ofb_count = 0,
      log_begin_address = log_begin, checkpoint_start_address = start\<rparr>"

definition IndexMetadata_Reset :: index_metadata where
  "IndexMetadata_Reset = \<lparr>im_version = 0, im_table_size = 0, num_ht_bytes = 0, num_ofb_bytes = 0, ofb_count = 0,
     log_begin_address = kInvalidAddress, checkpoint_start_address = kInvalidAddress\<rparr>"

record log_metadata =
  use_snapshot_file :: bool
  lm_version :: u32
  num_threads :: u32
  flushed_address :: address
  final_address :: address
  monotonic_serial_nums :: "u64 list"
  guids :: "guid list"

definition LogMetadata_Initialize :: "bool \<Rightarrow> u32 \<Rightarrow> address \<Rightarrow> log_metadata" where
  "LogMetadata_Initialize snapshot v flushed =
     \<lparr>use_snapshot_file = snapshot, lm_version = v, num_threads = 0, flushed_address = flushed,
      final_address = kMaxAddress, monotonic_serial_nums = replicate 96 0, guids = replicate 96 0\<rparr>"

definition LogMetadata_Reset :: log_metadata where
  "LogMetadata_Reset = LogMetadata_Initialize False 0xFFFFFFFF kInvalidAddress"

record checkpoint_state =
  index_checkpoint_started :: bool
  failed :: bool
  index_metadata :: index_metadata
  log_metadata :: log_metadata
  index_token :: guid
  hybrid_log_token :: guid
  flush_pending :: u32
  index_persistence_callback :: bool
  hybrid_log_persistence_callback :: bool
  continue_tokens :: "(guid \<times> u64) list"

definition InitializeIndexCheckpoint ::
  "guid \<Rightarrow> u32 \<Rightarrow> u64 \<Rightarrow> address \<Rightarrow> address \<Rightarrow> bool \<Rightarrow> checkpoint_state \<Rightarrow> checkpoint_state" where
  "InitializeIndexCheckpoint token v sz log_begin start callback c =
     c\<lparr>failed := False, index_checkpoint_started := False, continue_tokens := [], index_token := token,
       hybrid_log_token := 0, index_metadata := IndexMetadata_Initialize v sz log_begin start,
       log_metadata := LogMetadata_Reset, flush_pending := 0, index_persistence_callback := callback,
       hybrid_log_persistence_callback := False\<rparr>"

definition InitializeHybridLogCheckpoint ::
  "guid \<Rightarrow> u32 \<Rightarrow> bool \<Rightarrow> address \<Rightarrow> bool \<Rightarrow> checkpoint_state \<Rightarrow> checkpoint_state" where
  "InitializeHybridLogCheckpoint token v snapshot flushed callback c =
     c\<lparr>failed := False, index_checkpoint_started := False, continue_tokens := [], index_token := 0,
       hybrid_log_token := token, index_metadata := IndexMetadata_Reset,
       log_metadata := LogMetadata_Initialize snapshot v flushed,
       flush_pending := (if snapshot then 0xFFFFFFFF else 0), index_persistence_callback := False,
       hybrid_log_persistence_callback := callback\<rparr>"

definition InitializeCheckpoint ::
  "guid \<Rightarrow> u32 \<Rightarrow> u64 \<Rightarrow> address \<Rightarrow> address \<Rightarrow> bool \<Rightarrow> address \<Rightarrow> bool \<Rightarrow> bool \<Rightarrow> checkpoint_state \<Rightarrow> checkpoint_state" where
  "InitializeCheckpoint token v sz log_begin start snapshot flushed index_cb log_cb c =
     c\<lparr>failed := False, index_checkpoint_started := False, continue_tokens := [], index_token := token,
       hybrid_log_token := token, index_metadata := IndexMetadata_Initialize v sz log_begin start,
       log_metadata := LogMetadata_Initialize snapshot v flushed,
       flush_pending := (if snapshot then 0xFFFFFFFF else 0), index_persistence_callback := index_cb,
       hybrid_log_persistence_callback := log_cb\<rparr>"

definition CheckpointDone :: "checkpoint_state \<Rightarrow> c_error + checkpoint_state" where
  "CheckpointDone c =
     (if failed c \<or> \<not> (index_token c = 0 \<or> index_checkpoint_started c) \<or> continue_tokens c \<noteq> [] \<or> flush_pending c \<noteq> 0
      then Inl AssertFail
      else Inr (c\<lparr>index_metadata := IndexMetadata_Reset, log_metadata := LogMetadata_Reset,
                  index_persistence_callback := False, hybrid_log_persistence_callback := False\<rparr>))"

definition InitializeRecover :: "guid \<Rightarrow> guid \<Rightarrow> checkpoint_state \<Rightarrow> checkpoint_state" where
  "InitializeRecover it ht c = c\<lparr>failed := False, index_token := it, hybrid_log_token := ht\<rparr>"

definition RecoverDone :: "checkpoint_state \<Rightarrow> c_error + checkpoint_state" where
  "RecoverDone c =
     (if failed c then Inl AssertFail
      else Inr (c\<lparr>index_metadata := IndexMetadata_Reset, log_metadata := LogMetadata_Reset\<rparr>))"

section \<open>Garbage collection and growth\<close>

record gc_state =
  truncate_callback :: bool
  complete_callback :: bool
  gc_num_chunks :: u64
  gc_next_chunk :: u64

definition Gc_Initialize :: "bool \<Rightarrow> bool \<Rightarrow> u64 \<Rightarrow> gc_state" where
  "Gc_Initialize trunc complete chunks =
     \<lparr>truncate_callback = trunc, complete_callback = complete, gc_num_chunks = chunks, gc_next_chunk = 0\<rparr>"

record grow_state =
  grow_callback :: bool
  old_version :: u8
  new_version :: u8
  num_chunks :: u64
  num_pending_chunks :: u64
  next_chunk :: u64

definition Grow_Initialize :: "bool \<Rightarrow> u8 \<Rightarrow> u64 \<Rightarrow> c_error + grow_state" where
  "Grow_Initialize cb current chunks =
     (if current = 0 \<or> current = 1
      then Inr \<lparr>grow_callback = cb, old_version = current, new_version = 1 - current, num_chunks = chunks,
                num_pending_chunks = chunks, next_chunk = 0\<rparr>
      else Inl AssertFail)"

section \<open>The store\<close>

datatype call = FuzzyIndex | WriteIndexMeta | IndexCallback | ShiftReadOnlyToTail | OpenSnapshot | FlushSnapshot
  | WriteCprMeta | TruncateLog | GcComplete | GrowDone u64 | CreateDirectory | RefreshThread

text \<open>
  \<open>phases_finished\<close> are the fields \<open>phase_finished\<close> of the epoch table, by the number of the entry; \<open>epoch_entries\<close> is its
  \<open>num_entries_\<close>.
\<close>

record control =
  system :: system_state
  checkpoint :: checkpoint_state
  cp_locks :: checkpoint_locks
  gc :: gc_state
  grow :: grow_state
  hash_version :: u8
  table_sizes :: "u64 list"
  begin_address :: address
  fold_over_snapshot :: bool
  calls :: "call list"
  epoch_entries :: nat
  phases_finished :: "nat \<Rightarrow> Phase"

text \<open>
  What a transition reads from its surroundings: the outcomes of the I/O calls, \<open>flush_left\<close> being
  the number of snapshot pages not yet written when the flush was issued, and addresses and counts
  of the log and the overflow allocator.
\<close>

record outside =
  fuzzy_index_ok :: bool
  index_metadata_ok :: bool
  snapshot_open_ok :: bool
  cpr_metadata_ok :: bool
  flush_left :: u32
  tail_address :: address
  flushed_until :: address
  ofb_count_now :: u64
  fresh_guid :: guid

definition call_out :: "call list \<Rightarrow> control \<Rightarrow> control" where
  "call_out es c = c\<lparr>calls := calls c @ es\<rparr>"

definition fail_unless :: "bool \<Rightarrow> control \<Rightarrow> control" where
  "fail_unless ok c = (if ok then c else c\<lparr>checkpoint := (checkpoint c)\<lparr>failed := True\<rparr>\<rparr>)"

definition set_idle :: "u32 \<Rightarrow> control \<Rightarrow> control" where
  "set_idle v c = c\<lparr>system := SystemState ActionNone REST v\<rparr>"

definition table_size :: "control \<Rightarrow> u8 \<Rightarrow> u64" where
  "table_size c v = table_sizes c ! unat v"

text \<open>\<open>CheckpointFuzzyIndex\<close> sets \<open>index_checkpoint_started\<close> when all its I/O calls succeed.\<close>

definition CheckpointFuzzyIndex :: "outside \<Rightarrow> control \<Rightarrow> control \<times> bool" where
  "CheckpointFuzzyIndex out c =
     (let c1 = call_out [FuzzyIndex] c
      in if fuzzy_index_ok out then (c1\<lparr>checkpoint := (checkpoint c1)\<lparr>index_checkpoint_started := True\<rparr>\<rparr>, True)
         else (c1, False))"

definition save_ofb_count :: "outside \<Rightarrow> control \<Rightarrow> control" where
  "save_ofb_count out c = c\<lparr>checkpoint := (checkpoint c)\<lparr>index_metadata :=
     (index_metadata (checkpoint c))\<lparr>ofb_count := ofb_count_now out\<rparr>\<rparr>\<rparr>"

definition write_index_metadata :: "outside \<Rightarrow> control \<Rightarrow> control" where
  "write_index_metadata out c = fail_unless (index_metadata_ok out) (call_out [WriteIndexMeta] (save_ofb_count out c))"

definition set_final_address :: "address \<Rightarrow> control \<Rightarrow> control" where
  "set_final_address a c = c\<lparr>checkpoint := (checkpoint c)\<lparr>log_metadata :=
     (log_metadata (checkpoint c))\<lparr>final_address := a\<rparr>\<rparr>\<rparr>"

text \<open>The cases of \<open>GlobalMoveToNextState\<close> for the three kinds of checkpoint.\<close>

definition enter_index_chkpt :: "outside \<Rightarrow> Action \<Rightarrow> control \<Rightarrow> c_error + control" where
  "enter_index_chkpt out a c =
     (if a = CheckpointHybridLog \<or> failed (checkpoint c) then Inl AssertFail
      else let (c1, ok) = CheckpointFuzzyIndex out c in Inr (fail_unless ok c1))"

definition enter_prepare :: "outside \<Rightarrow> Action \<Rightarrow> control \<Rightarrow> c_error + control" where
  "enter_prepare out a c =
     (if a \<noteq> CheckpointFull then Inl AssertFail
      else let c1 = write_index_metadata out c
           in Inr (if index_persistence_callback (checkpoint c1) then call_out [IndexCallback] c1 else c1))"

definition enter_wait_flush :: "outside \<Rightarrow> control \<Rightarrow> control" where
  "enter_wait_flush out c =
     (let c1 = (if fold_over_snapshot c
                then set_final_address (tail_address out) (call_out [ShiftReadOnlyToTail] c)
                else let c0 = fail_unless (snapshot_open_ok out)
                           (call_out [OpenSnapshot] (set_final_address (tail_address out) c))
                     in (call_out [FlushSnapshot] c0)\<lparr>checkpoint := (checkpoint c0)\<lparr>flush_pending := flush_left out\<rparr>\<rparr>)
      in fail_unless (cpr_metadata_ok out) (call_out [WriteCprMeta] c1))"

definition enter_rest :: "outside \<Rightarrow> system_state \<Rightarrow> control \<Rightarrow> c_error + control" where
  "enter_rest out next c =
     (if action next \<noteq> CheckpointIndex then
        bindR (CheckpointDone (checkpoint c)) (\<lambda>cp.
        bindR (locks_Free (cp_locks c)) (\<lambda>ls.
          Inr (set_idle (version next) (c\<lparr>checkpoint := cp, cp_locks := ls\<rparr>))))
      else
        let c1 = write_index_metadata out c; cb = index_persistence_callback (checkpoint c1)
        in bindR (CheckpointDone (checkpoint c1)) (\<lambda>cp.
             let c2 = set_idle (version next) (c1\<lparr>checkpoint := cp\<rparr>)
             in Inr (if cb then call_out [IndexCallback] c2 else c2)))"

definition not_index :: "Action \<Rightarrow> control \<Rightarrow> c_error + control" where
  "not_index a c = (if a = CheckpointIndex then Inl AssertFail else Inr c)"

definition enter_checkpoint :: "outside \<Rightarrow> system_state \<Rightarrow> control \<Rightarrow> c_error + control" where
  "enter_checkpoint out next c =
     (case phase next of
        INDEX_CHKPT \<Rightarrow> enter_index_chkpt out (action next) c
      | PREPARE \<Rightarrow> enter_prepare out (action next) c
      | IN_PROGRESS \<Rightarrow> not_index (action next) c
      | WAIT_PENDING \<Rightarrow> not_index (action next) c
      | WAIT_FLUSH \<Rightarrow> bindR (not_index (action next) c) (\<lambda>c. Inr (enter_wait_flush out c))
      | PERSISTENCE_CALLBACK \<Rightarrow> not_index (action next) c
      | REST \<Rightarrow> enter_rest out next c
      | _ \<Rightarrow> Inl AssertFail)"

definition enter_gc :: "system_state \<Rightarrow> control \<Rightarrow> c_error + control" where
  "enter_gc next c =
     (case phase next of
        GC_IN_PROGRESS \<Rightarrow> Inr (call_out [TruncateLog] c)
      | REST \<Rightarrow> Inr (set_idle (version next) (if complete_callback (gc c) then call_out [GcComplete] c else c))
      | _ \<Rightarrow> Inl AssertFail)"

definition enter_grow :: "system_state \<Rightarrow> control \<Rightarrow> c_error + control" where
  "enter_grow next c =
     (case phase next of
        GROW_IN_PROGRESS \<Rightarrow> Inr (c\<lparr>hash_version := new_version (grow c)\<rparr>)
      | REST \<Rightarrow> Inr (set_idle (version next)
          (if grow_callback (grow c) then call_out [GrowDone (table_size c (new_version (grow c)))] c else c))
      | _ \<Rightarrow> Inl AssertFail)"

definition GlobalMoveToNextState :: "outside \<Rightarrow> system_state \<Rightarrow> control \<Rightarrow> c_error + control \<times> bool" where
  "GlobalMoveToNextState out current_state c =
     bindR (GetNextState current_state) (\<lambda>next.
       if state_control (system c) \<noteq> state_control current_state then Inr (c, False)
       else let c1 = c\<lparr>system := next\<rparr> in
         bindR (case action next of
                  CheckpointFull \<Rightarrow> enter_checkpoint out next c1
                | CheckpointIndex \<Rightarrow> enter_checkpoint out next c1
                | CheckpointHybridLog \<Rightarrow> enter_checkpoint out next c1
                | GC \<Rightarrow> enter_gc next c1
                | GrowIndex \<Rightarrow> enter_grow next c1
                | _ \<Rightarrow> Inl AssertFail) (\<lambda>c2. Inr (c2, True)))"

section \<open>Starting an action\<close>

text \<open>
  All starts exchange the idle state of the current version for the action's REST state; if that
  fails, they return false. \<open>init\<close> is the initialisation and \<open>announce\<close> the first phase that is
  stored at the end.
\<close>

definition start_action ::
  "Action \<Rightarrow> (control \<Rightarrow> c_error + control) \<Rightarrow> (system_state \<Rightarrow> c_error + system_state) \<Rightarrow> control \<Rightarrow> c_error + control \<times> bool" where
  "start_action a init announce c =
     (let expected = SystemState ActionNone REST (version (system c));
          desired = SystemState a REST (version (system c))
      in if state_control (system c) \<noteq> state_control expected then Inr (c, False)
         else bindR (init (c\<lparr>system := desired\<rparr>)) (\<lambda>c1.
              bindR (announce desired) (\<lambda>next. Inr (c1\<lparr>system := next\<rparr>, True))))"

text \<open>\<open>ResetPhaseFinished\<close> of the epoch, and the part of \<open>FinishThreadPhase\<close> in which the threads \<open>ts\<close> report a phase.\<close>

definition resettable :: "Phase \<Rightarrow> bool" where
  "resettable p \<longleftrightarrow> p \<in> {REST, INDEX_CHKPT, PERSISTENCE_CALLBACK, GC_IN_PROGRESS, GROW_IN_PROGRESS}"

definition reset_phases :: "control \<Rightarrow> c_error + control" where
  "reset_phases c =
     (if \<forall>i \<in> {1..epoch_entries c}. resettable (phases_finished c i)
      then Inr (c\<lparr>phases_finished := (\<lambda>i. if i \<in> {1..epoch_entries c} then REST else phases_finished c i)\<rparr>)
      else Inl AssertFail)"

definition report_phase :: "nat set \<Rightarrow> Phase \<Rightarrow> control \<Rightarrow> control" where
  "report_phase ts p c = c\<lparr>phases_finished := (\<lambda>i. if i \<in> ts then p else phases_finished c i)\<rparr>"

definition InitializeCheckpointLocks :: "control \<Rightarrow> c_error + control" where
  "InitializeCheckpointLocks c =
     bindR (locks_Initialize (table_size c (hash_version c)) (cp_locks c)) (\<lambda>ls. Inr (c\<lparr>cp_locks := ls\<rparr>))"

definition Checkpoint :: "outside \<Rightarrow> bool \<Rightarrow> bool \<Rightarrow> control \<Rightarrow> c_error + control \<times> bool" where
  "Checkpoint out index_cb log_cb =
     start_action CheckpointFull
       (\<lambda>c. let snapshot = \<not> fold_over_snapshot c in
          bindR (reset_phases c) (\<lambda>c.
          InitializeCheckpointLocks ((call_out [CreateDirectory, CreateDirectory] c)
            \<lparr>checkpoint := InitializeCheckpoint (fresh_guid out) (version (system c)) (table_size c (hash_version c))
               (begin_address c) (tail_address out) snapshot
               (if snapshot then flushed_until out else kInvalidAddress) index_cb log_cb (checkpoint c)\<rparr>)))
       GetNextState"

definition CheckpointIndex_start :: "outside \<Rightarrow> bool \<Rightarrow> control \<Rightarrow> c_error + control \<times> bool" where
  "CheckpointIndex_start out cb =
     start_action CheckpointIndex
       (\<lambda>c. bindR (reset_phases c) (\<lambda>c. Inr ((call_out [CreateDirectory] c)
          \<lparr>checkpoint := InitializeIndexCheckpoint (fresh_guid out) (version (system c))
             (table_size c (hash_version c)) (begin_address c) (tail_address out) cb (checkpoint c)\<rparr>)))
       GetNextState"

definition CheckpointHybridLog_start :: "outside \<Rightarrow> bool \<Rightarrow> control \<Rightarrow> c_error + control \<times> bool" where
  "CheckpointHybridLog_start out cb =
     start_action CheckpointHybridLog
       (\<lambda>c. let snapshot = \<not> fold_over_snapshot c in
          bindR (reset_phases c) (\<lambda>c.
          InitializeCheckpointLocks ((call_out [CreateDirectory] c)
            \<lparr>checkpoint := InitializeHybridLogCheckpoint (fresh_guid out) (version (system c)) snapshot
               (if snapshot then flushed_until out else kInvalidAddress) cb (checkpoint c)\<rparr>)))
       GetNextState"

definition kGcHashTableChunkSize :: u64 where "kGcHashTableChunkSize = 16384"
definition kGrowHashTableChunkSize :: u64 where "kGrowHashTableChunkSize = 16384"

definition ShiftBeginAddress :: "address \<Rightarrow> bool \<Rightarrow> bool \<Rightarrow> control \<Rightarrow> c_error + control \<times> bool" where
  "ShiftBeginAddress a trunc complete =
     start_action GC
       (\<lambda>c. bindR (reset_phases (c\<lparr>begin_address := a\<rparr>)) (\<lambda>c. Inr (c\<lparr>
          gc := Gc_Initialize trunc complete (max (table_size c (hash_version c) div kGcHashTableChunkSize) 1)\<rparr>)))
       (\<lambda>s. Inr (SystemState GC GC_IO_PENDING (version s)))"

text \<open>\<open>state_[next].Initialize\<close> checks the new size; \<open>Refresh\<close> at the end is the thread's own step.\<close>

definition GrowIndex_start :: "bool \<Rightarrow> control \<Rightarrow> c_error + control \<times> bool" where
  "GrowIndex_start cb =
     start_action GrowIndex
       (\<lambda>c. bindR (reset_phases c) (\<lambda>c.
          let v = hash_version c; sz = 2 * table_size c v in
          if v \<noteq> 0 \<and> v \<noteq> 1 then Inl AssertFail
          else bindR (Grow_Initialize cb v (max (table_size c v div kGrowHashTableChunkSize) 1)) (\<lambda>g.
            if sz < 2147483647 \<and> IsPowerOfTwo sz
            then Inr ((call_out [RefreshThread] c)
                   \<lparr>grow := g, table_sizes := (table_sizes c)[unat (1 - v) := sz]\<rparr>)
            else Inl AssertFail)))
       (\<lambda>s. Inr (SystemState GrowIndex GROW_PREPARE (version s)))"

section \<open>Recovery\<close>

text \<open>
  The files as \<open>Recover\<close> finds them: the two metadata records, if they can be read, and the status
  of the remaining steps, which the code runs in order and stops at the first failure.
\<close>

record recovery_files =
  read_index_metadata :: "index_metadata option"
  read_log_metadata :: "log_metadata option"
  read_contexts :: "status \<times> (guid \<times> u64) list"
  later_steps :: "status list"

definition first_failure :: "status list \<Rightarrow> status" where
  "first_failure ss = (case find (\<lambda>s. s \<noteq> Ok) ss of None \<Rightarrow> Ok | Some s \<Rightarrow> s)"

text \<open>The body of the \<open>do ... while (false)\<close>.\<close>

definition recover_steps :: "recovery_files \<Rightarrow> control \<Rightarrow> control \<times> status" where
  "recover_steps f c =
     (case read_index_metadata f of None \<Rightarrow> (c, IOError)
      | Some im \<Rightarrow>
        let c1 = c\<lparr>checkpoint := (checkpoint c)\<lparr>index_metadata := im\<rparr>\<rparr> in
        (case read_log_metadata f of None \<Rightarrow> (c1, IOError)
         | Some lm \<Rightarrow>
           let c2 = c1\<lparr>checkpoint := (checkpoint c1)\<lparr>log_metadata := lm\<rparr>\<rparr> in
           if im_version im \<noteq> lm_version lm then (c2, Corruption)
           else let c3 = c2\<lparr>system := SystemState Recover REST (lm_version lm + 1)\<rparr>;
                    (st, tokens) = read_contexts f;
                    c4 = c3\<lparr>checkpoint := (checkpoint c3)\<lparr>continue_tokens := tokens\<rparr>\<rparr>
                in (c4, first_failure (st # later_steps f))))"

text \<open>\<open>Recover\<close> returns the new store, the status, the version and the session ids it reports.\<close>

definition Recover_start :: "guid \<Rightarrow> guid \<Rightarrow> recovery_files \<Rightarrow> control \<Rightarrow> c_error + control \<times> status \<times> u32 \<times> guid list" where
  "Recover_start it ht f c =
     (if state_control (system c) \<noteq> state_control (SystemState ActionNone REST (version (system c)))
      then Inr (c, Aborted, 0, [])
      else let c1 = c\<lparr>system := SystemState Recover REST (version (system c)),
                     checkpoint := InitializeRecover it ht (checkpoint c)\<rparr>;
               (c2, st) = recover_steps f c1;
               ver = (if st = Ok then lm_version (log_metadata (checkpoint c2)) else 0);
               ids = (if st = Ok then map fst (continue_tokens (checkpoint c2)) else [])
           in bindR (RecoverDone (checkpoint c2)) (\<lambda>cp.
                let c3 = c2\<lparr>checkpoint := cp\<rparr>
                in Inr (c3\<lparr>system := SystemState ActionNone REST (lm_version (log_metadata cp) + 1)\<rparr>, st, ver, ids)))"

section \<open>The life of an action\<close>

definition idle :: "control \<Rightarrow> bool" where
  "idle c \<longleftrightarrow> action (system c) = ActionNone \<and> phase (system c) = REST"

lemma idle_control:
  "state_control (system c) = state_control (SystemState ActionNone REST (version (system c))) \<longleftrightarrow> idle c"
proof -
  have "state_control s = state_control s' \<longleftrightarrow> s = s'" for s s' :: system_state
    using state_control_inj_aux [of s s'] by blast
  then show ?thesis by (cases "system c") (auto simp: idle_def)
qed

text \<open>All I/O calls succeed and the flush of a snapshot has completed.\<close>

definition io_ok :: "outside \<Rightarrow> bool" where
  "io_ok out \<longleftrightarrow> fuzzy_index_ok out \<and> index_metadata_ok out \<and> snapshot_open_ok out \<and> cpr_metadata_ok out \<and>
     flush_left out = 0"

text \<open>Starting any action; \<open>x\<close> and \<open>y\<close> say which of its callbacks are set.\<close>

fun start_any :: "outside \<Rightarrow> address \<Rightarrow> bool \<Rightarrow> bool \<Rightarrow> Action \<Rightarrow> control \<Rightarrow> c_error + control \<times> bool" where
  "start_any out a x y CheckpointFull c = Checkpoint out x y c"
| "start_any out a x y CheckpointIndex c = CheckpointIndex_start out x c"
| "start_any out a x y CheckpointHybridLog c = CheckpointHybridLog_start out x c"
| "start_any out a x y GC c = ShiftBeginAddress a x y c"
| "start_any out a x y GrowIndex c = GrowIndex_start x c"
| "start_any out a x y _ c = Inl AssertFail"

text \<open>
  \<open>n\<close> moves. Before each of them the threads \<open>ts\<close> report that they have finished the phase, except for the fuzzy index checkpoint
  of a full checkpoint, which any thread ends; the last one moves the system on.
\<close>

definition reported :: "system_state \<Rightarrow> bool" where
  "reported s \<longleftrightarrow> \<not> (action s = CheckpointFull \<and> phase s = INDEX_CHKPT)"

fun run_moves :: "nat set \<Rightarrow> outside \<Rightarrow> nat \<Rightarrow> control \<Rightarrow> c_error + control" where
  "run_moves ts out 0 c = Inr c"
| "run_moves ts out (Suc n) c =
     (let c0 = (if reported (system c) then report_phase ts (phase (system c)) c else c) in
      bindR (GlobalMoveToNextState out (system c0) c0) (\<lambda>(c1, moved). if moved then run_moves ts out n c1 else Inl Spins))"

definition phases_ok :: "control \<Rightarrow> bool" where
  "phases_ok c \<longleftrightarrow> (\<forall>i \<in> {1..epoch_entries c}. resettable (phases_finished c i))"

lemma start_idle:
  "idle c \<Longrightarrow> start_action a init announce c =
     (let desired = SystemState a REST (version (system c)) in
      bindR (init (c\<lparr>system := desired\<rparr>)) (\<lambda>c1. bindR (announce desired) (\<lambda>next. Inr (c1\<lparr>system := next\<rparr>, True))))"
  by (simp add: start_action_def idle_control Let_def)

lemma start_refused: "\<not> idle c \<Longrightarrow> start_action a init announce c = Inr (c, False)"
  by (simp add: start_action_def idle_control Let_def)

lemmas control_defs = enter_checkpoint_def enter_gc_def enter_grow_def enter_index_chkpt_def enter_prepare_def
  enter_wait_flush_def enter_rest_def not_index_def CheckpointFuzzyIndex_def write_index_metadata_def
  save_ofb_count_def set_final_address_def fail_unless_def call_out_def set_idle_def CheckpointDone_def
  locks_Free_def

lemmas start_defs = Checkpoint_def CheckpointIndex_start_def CheckpointHybridLog_start_def ShiftBeginAddress_def
  GrowIndex_start_def InitializeCheckpointLocks_def InitializeCheckpoint_def InitializeIndexCheckpoint_def
  InitializeHybridLogCheckpoint_def locks_Initialize_def Grow_Initialize_def Gc_Initialize_def

lemma report_phase_simps [simp]:
  "system (report_phase ts p c) = system c" "checkpoint (report_phase ts p c) = checkpoint c" "cp_locks (report_phase ts p c) = cp_locks c"
  "gc (report_phase ts p c) = gc c" "grow (report_phase ts p c) = grow c" "hash_version (report_phase ts p c) = hash_version c"
  "table_sizes (report_phase ts p c) = table_sizes c" "begin_address (report_phase ts p c) = begin_address c"
  "fold_over_snapshot (report_phase ts p c) = fold_over_snapshot c" "calls (report_phase ts p c) = calls c"
  "epoch_entries (report_phase ts p c) = epoch_entries c"
  "phases_finished (report_phase ts p c) i = (if i \<in> ts then p else phases_finished c i)"
  by (simp_all add: report_phase_def)

lemma reset_phases_ok:
  "phases_ok c \<Longrightarrow> reset_phases c = Inr (c\<lparr>phases_finished := (\<lambda>i. if i \<in> {1..epoch_entries c} then REST else phases_finished c i)\<rparr>)"
  by (simp add: phases_ok_def reset_phases_def)

lemma phases_ok_cong: "phases_ok (c\<lparr>system := st\<rparr>) = phases_ok c" "phases_ok (c\<lparr>begin_address := b\<rparr>) = phases_ok c"
  by (simp_all add: phases_ok_def)

text \<open>
  C15: an action can only start in the idle state; any other start returns false and changes
  nothing. Let the I/O succeed and let every entry of the epoch table hold a phase that the start of an action may reset. Then
  an action that is started with any choice of callbacks, and whose phases the threads \<open>ts\<close> finish one after the other, passes
  all assertions, that of the reset among them, and is moved through its
  phases back to the idle state, ready for the next one: the version has grown by one exactly for a
  log checkpoint, whose locks are freed again, the hash table version has flipped exactly for a
  growth, nothing is left marked as failed, and the phases can be reset again.
\<close>

theorem action_lifecycle:
  assumes "moves a" "io_ok out" "hash_version c = 0 \<or> hash_version c = 1"
    and "2 * table_size c (hash_version c) < 2147483647" "IsPowerOfTwo (2 * table_size c (hash_version c))"
    and "table_size c (hash_version c) < 2147483647" "IsPowerOfTwo (table_size c (hash_version c))"
    and "\<not> failed (checkpoint c)" "phases_ok c"
  shows "(\<not> idle c \<longrightarrow> start_any out b x y a c = Inr (c, False)) \<and>
    (idle c \<longrightarrow> (\<exists>c1 c'. start_any out b x y a c = Inr (c1, True) \<and>
      run_moves ts out (length (action_phases a) - 1) c1 = Inr c' \<and> idle c' \<and>
      version (system c') = (if takes_version a then version (system c) + 1 else version (system c)) \<and>
      hash_version c' = (if a = GrowIndex then 1 - hash_version c else hash_version c) \<and>
      cp_locks c' = (if takes_version a then no_locks else cp_locks c) \<and> \<not> failed (checkpoint c') \<and> phases_ok c'))"
proof (intro conjI impI)
  assume "\<not> idle c"
  then show "start_any out b x y a c = Inr (c, False)"
    using assms(1) by (cases a) (simp_all add: moves_def start_defs start_refused)
next
  assume i: "idle c"
  then have r: "action (system c) = ActionNone" "phase (system c) = REST" by (simp_all add: idle_def)
  note io = assms(2) [unfolded io_ok_def]
  show "\<exists>c1 c'. start_any out b x y a c = Inr (c1, True) \<and>
      run_moves ts out (length (action_phases a) - 1) c1 = Inr c' \<and> idle c' \<and>
      version (system c') = (if takes_version a then version (system c) + 1 else version (system c)) \<and>
      hash_version c' = (if a = GrowIndex then 1 - hash_version c else hash_version c) \<and>
      cp_locks c' = (if takes_version a then no_locks else cp_locks c) \<and> \<not> failed (checkpoint c') \<and> phases_ok c'"
    using assms(1,3-8) io
    by (cases a; cases "fold_over_snapshot c"; cases x; cases y)
      (simp_all add: moves_def takes_version_def start_idle [OF i] start_defs GlobalMoveToNextState_def control_defs
        Let_def idle_def table_size_def reported_def reset_phases_ok phases_ok_cong assms(9),
       simp_all add: phases_ok_def resettable_def)
qed

definition sample_outside :: outside where
  "sample_outside = \<lparr>fuzzy_index_ok = True, index_metadata_ok = True, snapshot_open_ok = True, cpr_metadata_ok = True,
     flush_left = 0, tail_address = 4096, flushed_until = 64, ofb_count_now = 1, fresh_guid = 7\<rparr>"

definition sample_control :: control where
  "sample_control = \<lparr>system = SystemState ActionNone REST 1,
     checkpoint = \<lparr>index_checkpoint_started = False, failed = False, index_metadata = IndexMetadata_Reset,
       log_metadata = LogMetadata_Reset, index_token = 0, hybrid_log_token = 0, flush_pending = 0,
       index_persistence_callback = False, hybrid_log_persistence_callback = False, continue_tokens = []\<rparr>,
     cp_locks = no_locks, gc = Gc_Initialize False False 0,
     grow = \<lparr>grow_callback = False, old_version = 0, new_version = 0, num_chunks = 0, num_pending_chunks = 0, next_chunk = 0\<rparr>,
     hash_version = 0, table_sizes = [4, 0], begin_address = 64, fold_over_snapshot = True, calls = [],
     epoch_entries = 4, phases_finished = (\<lambda>i. if i = 2 then INDEX_CHKPT else REST)\<rparr>"

theorem action_lifecycle_witness:
  "\<exists>c1 c'. start_any sample_outside 64 True False CheckpointFull sample_control = Inr (c1, True) \<and>
     run_moves {1, 2} sample_outside (length (action_phases CheckpointFull) - 1) c1 = Inr c' \<and> idle c' \<and>
     version (system c') = 2 \<and> phases_ok c'"
proof -
  have p: "IsPowerOfTwo 4" "IsPowerOfTwo 8" using IsPowerOfTwo_pow [of 2] IsPowerOfTwo_pow [of 3] by simp_all
  have "moves CheckpointFull" "io_ok sample_outside" "idle sample_control"
    "version (system sample_control) = 1" "table_size sample_control (hash_version sample_control) = 4"
    "\<not> failed (checkpoint sample_control)" "hash_version sample_control = 0" "takes_version CheckpointFull" "phases_ok sample_control"
    by (simp_all add: moves_def io_ok_def sample_outside_def idle_def sample_control_def table_size_def takes_version_def phases_ok_def resettable_def)
  with action_lifecycle [of CheckpointFull sample_outside sample_control 64 True False "{1, 2}"] p show ?thesis
    by (simp del: action_phases.simps run_moves.simps) blast
qed

section \<open>The version after a recovery\<close>

text \<open>
  C16: \<open>Recover\<close> resets the log metadata before it computes the version to continue with. Whatever
  version the checkpoint files carry, and also when it reports that version to the caller, the
  store continues with version 0.
\<close>

theorem recover_loses_version:
  assumes "idle c" "read_index_metadata f = Some im" "read_log_metadata f = Some lm" "im_version im = lm_version lm"
    and "fst (read_contexts f) = Ok" "\<forall>st \<in> set (later_steps f). st = Ok"
  shows "\<exists>c'. Recover_start it ht f c = Inr (c', Ok, lm_version lm, map fst (snd (read_contexts f))) \<and>
    idle c' \<and> version (system c') = 0"
proof -
  have "find (\<lambda>s. s \<noteq> Ok) (later_steps f) = None" using assms(6) by (simp add: find_None_iff)
  then have "first_failure (Ok # later_steps f) = Ok" by (simp add: first_failure_def)
  then show ?thesis
    using assms
    by (cases "read_contexts f")
       (simp add: Recover_start_def idle_control recover_steps_def InitializeRecover_def RecoverDone_def
         LogMetadata_Reset_def LogMetadata_Initialize_def idle_def Let_def)
qed

theorem recover_loses_version_witness:
  "\<exists>f c'. Recover_start 3 3 f sample_control = Inr (c', Ok, 41, []) \<and> version (system c') = 0"
proof -
  let ?f = "\<lparr>read_index_metadata = Some (IndexMetadata_Initialize 41 4 64 64),
      read_log_metadata = Some (LogMetadata_Initialize False 41 64), read_contexts = (Ok, []), later_steps = [Ok]\<rparr>"
  have "idle sample_control" by (simp add: idle_def sample_control_def)
  then show ?thesis
    using recover_loses_version [of sample_control ?f "IndexMetadata_Initialize 41 4 64 64" "LogMetadata_Initialize False 41 64" 3 3]
    by (auto simp: IndexMetadata_Initialize_def LogMetadata_Initialize_def)
qed

end
