(* ===== verification/LightEpoch.thy ===== *)
theory LightEpoch
  imports SystemState
begin

text \<open>
  Thread ids (\<open>src/faster/misc/thread.h\<close>) and epoch protection (\<open>src/faster/memory/light_epoch.h\<close>).
  Every thread gets a small id, which is its index in the epoch table. A protected thread publishes
  the epoch it entered in; an action registered with a bump of the epoch must not run before every
  thread that entered in that epoch or earlier has left. Each operation is one atomic step here;
  the callback of an action is recorded, with its trigger epoch, in \<open>performed\<close>.
\<close>

section \<open>Thread ids\<close>

abbreviation kMaxNumThreads :: nat where "kMaxNumThreads \<equiv> 96"

record thread_ids =
  next_index :: u32
  id_used :: "bool list"

definition thread_ids_init :: thread_ids where
  "thread_ids_init = \<lparr>next_index = 0, id_used = replicate kMaxNumThreads False\<rparr>"

text \<open>The loop over the candidates from \<open>start\<close> up to \<open>end\<close>; \<open>n\<close> bounds the remaining ones.\<close>

fun reserve_loop :: "bool list \<Rightarrow> nat \<Rightarrow> nat \<Rightarrow> c_error + bool list \<times> nat" where
  "reserve_loop used i 0 = Inl Thrown"
| "reserve_loop used i (Suc n) =
     (let k = i mod kMaxNumThreads in
      if \<not> used ! k then Inr (used[k := True], k) else reserve_loop used (i + 1) n)"

text \<open>\<open>start + 2 * kMaxNumThreads\<close> may wrap around, and then the loop has no iteration.\<close>

definition ReserveEntry :: "thread_ids \<Rightarrow> c_error + thread_ids \<times> nat" where
  "ReserveEntry s =
     (let start = next_index s; end = start + 192 in
      bindR (reserve_loop (id_used s) (unat start) (unat end - unat start)) (\<lambda>(used, k).
        Inr (s\<lparr>next_index := start + 1, id_used := used\<rparr>, k)))"

definition ReleaseEntry :: "thread_ids \<Rightarrow> nat \<Rightarrow> c_error + thread_ids" where
  "ReleaseEntry s i =
     (if i < kMaxNumThreads \<and> id_used s ! i then Inr (s\<lparr>id_used := (id_used s)[i := False]\<rparr>)
      else Inl AssertFail)"

lemma reserve_loop_pos:
  "0 < n \<Longrightarrow> reserve_loop used i n =
     (let k = i mod kMaxNumThreads in
      if \<not> used ! k then Inr (used[k := True], k) else reserve_loop used (i + 1) (n - 1))"
  by (cases n) (simp_all add: Let_def)

lemma reserve_loop_found:
  assumes "length used = kMaxNumThreads" "reserve_loop used i n = Inr (used', k)"
  shows "k < kMaxNumThreads \<and> \<not> used ! k \<and> used' = used[k := True]"
  using assms(2)
proof (induction n arbitrary: i)
  case (Suc n)
  then show ?case using assms(1) by (auto simp: Let_def split: if_splits)
qed simp

lemma reserve_loop_finds:
  "j < n \<Longrightarrow> \<not> used ! ((i + j) mod kMaxNumThreads) \<Longrightarrow> \<exists>r. reserve_loop used i n = Inr r"
proof (induction n arbitrary: i j)
  case (Suc n)
  show ?case
  proof (cases j)
    case 0
    then show ?thesis using Suc.prems by (simp add: Let_def)
  next
    case (Suc j')
    then show ?thesis using Suc.IH [of j' "i + 1"] Suc.prems by (simp add: Let_def)
  qed
qed simp

text \<open>
  While fewer than 2^32 - 192 threads have been created, reserving a thread id succeeds exactly
  when one of the 96 ids is free, returns an id below 96 that was free, and marks exactly that id.
\<close>

theorem ReserveEntry_correct:
  assumes "length (id_used s) = kMaxNumThreads" "unat (next_index s) + 192 < 2 ^ 32"
  shows "((\<exists>k < kMaxNumThreads. \<not> id_used s ! k) \<longleftrightarrow> (\<exists>r. ReserveEntry s = Inr r)) \<and>
    (\<forall>s' k. ReserveEntry s = Inr (s', k) \<longrightarrow>
       k < kMaxNumThreads \<and> \<not> id_used s ! k \<and> id_used s' = (id_used s)[k := True])"
proof -
  let ?i = "unat (next_index s)"
  have "unat (next_index s + 192) = ?i + 192"
    using assms(2) unat_add_lem [of "next_index s" 192] by simp
  then have e: "ReserveEntry s = bindR (reserve_loop (id_used s) ?i 192) (\<lambda>(used, k).
      Inr (s\<lparr>next_index := next_index s + 1, id_used := used\<rparr>, k))"
    by (simp add: ReserveEntry_def Let_def)
  have found: "k < kMaxNumThreads \<and> \<not> id_used s ! k \<and> used' = (id_used s)[k := True]"
    if "reserve_loop (id_used s) ?i 192 = Inr (used', k)" for used' k
    by (rule reserve_loop_found [OF assms(1) that])
  have ex: "\<exists>r. reserve_loop (id_used s) ?i 192 = Inr r" if k: "k < kMaxNumThreads" "\<not> id_used s ! k" for k
  proof -
    let ?j = "(k + kMaxNumThreads - ?i mod kMaxNumThreads) mod kMaxNumThreads"
    have "(?i + ?j) mod kMaxNumThreads = (?i mod kMaxNumThreads + (k + kMaxNumThreads - ?i mod kMaxNumThreads)) mod kMaxNumThreads"
      by (simp only: mod_add_left_eq mod_add_right_eq)
    also have "?i mod kMaxNumThreads + (k + kMaxNumThreads - ?i mod kMaxNumThreads) = k + kMaxNumThreads"
      using mod_less_divisor [of kMaxNumThreads ?i] by linarith
    finally have "(?i + ?j) mod kMaxNumThreads = k" using k(1) by simp
    moreover have "?j < 192" using mod_less_divisor [of kMaxNumThreads "k + kMaxNumThreads - ?i mod kMaxNumThreads"] by linarith
    ultimately show ?thesis using k(2) by (intro reserve_loop_finds [of ?j]) simp_all
  qed
  show ?thesis
    using found ex by (auto simp: e bindR_Inr_iff split: prod.splits) blast+
qed

theorem ReserveEntry_correct_witness:
  "\<exists>s' k. ReserveEntry thread_ids_init = Inr (s', k) \<and> k < kMaxNumThreads"
  using ReserveEntry_correct [of thread_ids_init]
  by (simp add: thread_ids_init_def) (metis nth_replicate surj_pair zero_less_numeral)

section \<open>The epoch table\<close>

record epoch_entry =
  local_current_epoch :: u64
  reentrant :: u32
  phase_finished :: Phase

definition kFree :: u64 where "kFree = 0xFFFFFFFFFFFFFFFF"
definition kLocked :: u64 where "kLocked = 0xFFFFFFFFFFFFFFFE"
definition kUnprotected :: u64 where "kUnprotected = 0"
abbreviation kDrainListSize :: nat where "kDrainListSize \<equiv> 256"

record 'c epoch_action =
  trigger :: u64
  callback :: "'c option"

definition free_action :: "'c epoch_action" where
  "free_action = \<lparr>trigger = kFree, callback = None\<rparr>"

record 'c light_epoch =
  table :: "epoch_entry list"
  num_entries :: nat
  drain_list :: "'c epoch_action list"
  drain_count :: u32
  current_epoch :: u64
  safe_to_reclaim_epoch :: u64
  performed :: "(u64 \<times> 'c) list"

definition new_entry :: epoch_entry where
  "new_entry = \<lparr>local_current_epoch = 0, reentrant = 0, phase_finished = REST\<rparr>"

definition epoch_init :: "nat \<Rightarrow> 'c light_epoch" where
  "epoch_init n = \<lparr>table = replicate (n + 2) new_entry, num_entries = n,
     drain_list = replicate kDrainListSize free_action, drain_count = 0,
     current_epoch = 1, safe_to_reclaim_epoch = 0, performed = []\<rparr>"

definition local_epoch :: "'c light_epoch \<Rightarrow> nat \<Rightarrow> u64" where
  "local_epoch s t = local_current_epoch (table s ! t)"

definition set_local :: "nat \<Rightarrow> u64 \<Rightarrow> 'c light_epoch \<Rightarrow> 'c light_epoch" where
  "set_local t e s = s\<lparr>table := (table s)[t := (table s ! t)\<lparr>local_current_epoch := e\<rparr>]\<rparr>"

text \<open>Calling a null callback is undefined.\<close>

definition perform :: "u64 \<Rightarrow> 'c option \<Rightarrow> 'c light_epoch \<Rightarrow> c_error + 'c light_epoch" where
  "perform e cb s = (case cb of None \<Rightarrow> Inl UB | Some c \<Rightarrow> Inr (s\<lparr>performed := performed s @ [(e, c)]\<rparr>))"

definition TryPop :: "nat \<Rightarrow> u64 \<Rightarrow> 'c light_epoch \<Rightarrow> c_error + 'c light_epoch \<times> bool" where
  "TryPop i expected s =
     (let a = drain_list s ! i in
      if trigger a = expected then
        bindR (perform expected (callback a) (s\<lparr>drain_list := (drain_list s)[i := free_action]\<rparr>)) (\<lambda>s'. Inr (s', True))
      else Inr (s, False))"

definition TryPush :: "nat \<Rightarrow> u64 \<Rightarrow> 'c \<Rightarrow> 'c light_epoch \<Rightarrow> 'c light_epoch \<times> bool" where
  "TryPush i prior c s =
     (if trigger (drain_list s ! i) = kFree
      then (s\<lparr>drain_list := (drain_list s)[i := \<lparr>trigger = prior, callback = Some c\<rparr>]\<rparr>, True)
      else (s, False))"

definition TrySwap :: "nat \<Rightarrow> u64 \<Rightarrow> u64 \<Rightarrow> 'c \<Rightarrow> 'c light_epoch \<Rightarrow> c_error + 'c light_epoch \<times> bool" where
  "TrySwap i expected prior c s =
     (let a = drain_list s ! i in
      if trigger a = expected then
        bindR (perform expected (callback a)
                 (s\<lparr>drain_list := (drain_list s)[i := \<lparr>trigger = prior, callback = Some c\<rparr>]\<rparr>)) (\<lambda>s'. Inr (s', True))
      else Inr (s, False))"

text \<open>The scan covers the indices 1 to \<open>num_entries_\<close>.\<close>

definition oldest_ongoing :: "'c light_epoch \<Rightarrow> u64 \<Rightarrow> u64" where
  "oldest_ongoing s current =
     fold (\<lambda>i oldest. let e = local_epoch s i in if e \<noteq> kUnprotected \<and> e < oldest then e else oldest)
       [1..<num_entries s + 1] current"

definition ComputeNewSafeToReclaimEpoch :: "u64 \<Rightarrow> 'c light_epoch \<Rightarrow> 'c light_epoch" where
  "ComputeNewSafeToReclaimEpoch current s = s\<lparr>safe_to_reclaim_epoch := oldest_ongoing s current - 1\<rparr>"

fun drain_loop :: "nat list \<Rightarrow> 'c light_epoch \<Rightarrow> c_error + 'c light_epoch" where
  "drain_loop [] s = Inr s"
| "drain_loop (i # is) s =
     (let e = trigger (drain_list s ! i) in
      if e \<le> safe_to_reclaim_epoch s then
        bindR (TryPop i e s) (\<lambda>(s1, popped).
          if popped then
            (let s2 = s1\<lparr>drain_count := drain_count s1 - 1\<rparr>
             in if drain_count s2 = 0 then Inr s2 else drain_loop is s2)
          else drain_loop is s1)
      else drain_loop is s)"

definition Drain :: "u64 \<Rightarrow> 'c light_epoch \<Rightarrow> c_error + 'c light_epoch" where
  "Drain next s = drain_loop [0..<kDrainListSize] (ComputeNewSafeToReclaimEpoch next s)"

definition Protect :: "nat \<Rightarrow> 'c light_epoch \<Rightarrow> 'c light_epoch" where
  "Protect t s = set_local t (current_epoch s) s"

definition ProtectAndDrain :: "nat \<Rightarrow> 'c light_epoch \<Rightarrow> c_error + 'c light_epoch" where
  "ProtectAndDrain t s =
     (let s1 = set_local t (current_epoch s) s
      in if 0 < drain_count s1 then Drain (local_epoch s1 t) s1 else Inr s1)"

definition ReentrantProtect :: "nat \<Rightarrow> 'c light_epoch \<Rightarrow> 'c light_epoch" where
  "ReentrantProtect t s =
     (if local_epoch s t \<noteq> kUnprotected then s
      else let s1 = set_local t (current_epoch s) s
           in s1\<lparr>table := (table s1)[t := (table s1 ! t)\<lparr>reentrant := reentrant (table s1 ! t) + 1\<rparr>]\<rparr>)"

definition IsProtected :: "nat \<Rightarrow> 'c light_epoch \<Rightarrow> bool" where
  "IsProtected t s \<longleftrightarrow> local_epoch s t \<noteq> kUnprotected"

definition Unprotect :: "nat \<Rightarrow> 'c light_epoch \<Rightarrow> 'c light_epoch" where
  "Unprotect t s = set_local t kUnprotected s"

definition ReentrantUnprotect :: "nat \<Rightarrow> 'c light_epoch \<Rightarrow> 'c light_epoch" where
  "ReentrantUnprotect t s =
     (let s1 = s\<lparr>table := (table s)[t := (table s ! t)\<lparr>reentrant := reentrant (table s ! t) - 1\<rparr>]\<rparr>
      in if reentrant (table s1 ! t) = 0 then set_local t kUnprotected s1 else s1)"

definition BumpCurrentEpoch :: "'c light_epoch \<Rightarrow> c_error + 'c light_epoch" where
  "BumpCurrentEpoch s =
     (let s1 = s\<lparr>current_epoch := current_epoch s + 1\<rparr>
      in if 0 < drain_count s1 then Drain (current_epoch s1) s1 else Inr s1)"

text \<open>
  Registering an action: the first slot that is free, or whose action may already run, is taken.
  If one pass over the list finds none, nothing changes and every further pass finds none.
\<close>

fun push_loop :: "u64 \<Rightarrow> 'c \<Rightarrow> nat list \<Rightarrow> 'c light_epoch \<Rightarrow> c_error + 'c light_epoch" where
  "push_loop prior c [] s = Inl Spins"
| "push_loop prior c (i # is) s =
     (let e = trigger (drain_list s ! i) in
      if e = kFree then
        (let (s1, ok) = TryPush i prior c s
         in if ok then Inr (s1\<lparr>drain_count := drain_count s1 + 1\<rparr>) else push_loop prior c is s1)
      else if e \<le> safe_to_reclaim_epoch s then
        bindR (TrySwap i e prior c s) (\<lambda>(s1, ok). if ok then Inr s1 else push_loop prior c is s1)
      else push_loop prior c is s)"

definition BumpCurrentEpoch_action :: "'c \<Rightarrow> 'c light_epoch \<Rightarrow> c_error + 'c light_epoch" where
  "BumpCurrentEpoch_action c s =
     bindR (BumpCurrentEpoch s) (\<lambda>s1. push_loop (current_epoch s1 - 1) c [0..<kDrainListSize] s1)"

text \<open>\<open>SpinWaitForSafeToReclaim\<close>: without other threads a further pass computes the same value.\<close>

definition SpinWaitForSafeToReclaim :: "u64 \<Rightarrow> u64 \<Rightarrow> 'c light_epoch \<Rightarrow> c_error + 'c light_epoch" where
  "SpinWaitForSafeToReclaim current wanted s =
     (let s1 = ComputeNewSafeToReclaimEpoch current s
      in if safe_to_reclaim_epoch s1 < wanted then Inl Spins else Inr s1)"

definition IsSafeToReclaim :: "u64 \<Rightarrow> 'c light_epoch \<Rightarrow> bool" where
  "IsSafeToReclaim e s \<longleftrightarrow> e \<le> safe_to_reclaim_epoch s"

definition ResetPhaseFinished :: "'c light_epoch \<Rightarrow> c_error + 'c light_epoch" where
  "ResetPhaseFinished s =
     (if \<forall>i \<in> set [1..<num_entries s + 1]. phase_finished (table s ! i) \<in>
           {REST, INDEX_CHKPT, PERSISTENCE_CALLBACK, GC_IN_PROGRESS, GROW_IN_PROGRESS}
      then Inr (fold (\<lambda>i s. s\<lparr>table := (table s)[i := (table s ! i)\<lparr>phase_finished := REST\<rparr>]\<rparr>) [1..<num_entries s + 1] s)
      else Inl AssertFail)"

definition FinishThreadPhase :: "nat \<Rightarrow> Phase \<Rightarrow> 'c light_epoch \<Rightarrow> 'c light_epoch \<times> bool" where
  "FinishThreadPhase t p s =
     (let s1 = s\<lparr>table := (table s)[t := (table s ! t)\<lparr>phase_finished := p\<rparr>]\<rparr>
      in (s1, \<forall>i \<in> set [1..<num_entries s1 + 1]. \<not> (local_epoch s1 i \<noteq> 0 \<and> phase_finished (table s1 ! i) \<noteq> p)))"

definition HasThreadFinishedPhase :: "nat \<Rightarrow> Phase \<Rightarrow> 'c light_epoch \<Rightarrow> bool" where
  "HasThreadFinishedPhase t p s \<longleftrightarrow> phase_finished (table s ! t) = p"

section \<open>Pending actions\<close>

fun item :: "'c epoch_action \<Rightarrow> (u64 \<times> 'c) multiset" where
  "item a = (if trigger a = kFree then {#} else {#(trigger a, the (callback a))#})"

fun pending :: "'c epoch_action list \<Rightarrow> (u64 \<times> 'c) multiset" where
  "pending [] = {#}"
| "pending (a # as) = item a + pending as"

declare item.simps [simp del]

lemma item_free [simp]: "item free_action = {#}"
  by (simp add: item.simps free_action_def)

lemma pending_update: "i < length xs \<Longrightarrow> pending (xs[i := x]) + item (xs ! i) = pending xs + item x"
proof (induction xs arbitrary: i)
  case (Cons a xs)
  then show ?case by (cases i) (simp_all add: ac_simps)
qed simp

lemma pending_size: "size (pending xs) \<le> length xs"
  by (induction xs) (auto simp: item.simps)

lemma pending_empty: "pending xs = {#} \<Longrightarrow> a \<in> set xs \<Longrightarrow> trigger a = kFree"
  by (induction xs) (auto simp: item.simps split: if_splits)

lemma pending_replicate [simp]: "pending (replicate n free_action) = {#}"
  by (induction n) simp_all

definition slot_ok :: "'c light_epoch \<Rightarrow> 'c epoch_action \<Rightarrow> bool" where
  "slot_ok s a \<longleftrightarrow> a = free_action \<or> trigger a < current_epoch s \<and> callback a \<noteq> None"

definition drain_ok :: "'c light_epoch \<Rightarrow> bool" where
  "drain_ok s \<longleftrightarrow> length (drain_list s) = kDrainListSize \<and> (\<forall>a \<in> set (drain_list s). slot_ok s a) \<and>
     unat (drain_count s) = size (pending (drain_list s)) \<and>
     safe_to_reclaim_epoch s < current_epoch s \<and> current_epoch s < kLocked"

text \<open>What draining and registering leave alone.\<close>

definition same_epochs :: "'c light_epoch \<Rightarrow> 'c light_epoch \<Rightarrow> bool" where
  "same_epochs s s' \<longleftrightarrow> table s' = table s \<and> num_entries s' = num_entries s \<and>
     current_epoch s' = current_epoch s \<and> safe_to_reclaim_epoch s' = safe_to_reclaim_epoch s"

text \<open>The step from \<open>s\<close> to \<open>s'\<close> performs the actions \<open>new\<close>, all of them safe to run.\<close>

definition performs :: "'c light_epoch \<Rightarrow> 'c light_epoch \<Rightarrow> (u64 \<times> 'c) list \<Rightarrow> bool" where
  "performs s s' new \<longleftrightarrow> performed s' = performed s @ new \<and> (\<forall>(e, c) \<in> set new. e \<le> safe_to_reclaim_epoch s')"

lemma not_free_below: "safe_to_reclaim_epoch s < current_epoch s \<Longrightarrow> current_epoch s < kLocked \<Longrightarrow>
    e \<le> safe_to_reclaim_epoch s \<Longrightarrow> e \<noteq> kFree"
proof -
  assume a: "safe_to_reclaim_epoch s < current_epoch s" "current_epoch s < kLocked" "e \<le> safe_to_reclaim_epoch s"
  then have "e < kLocked" by order
  moreover have "kLocked < kFree" by (simp add: kLocked_def kFree_def)
  ultimately show ?thesis by order
qed

lemma safe_below_free: "drain_ok s \<Longrightarrow> safe_to_reclaim_epoch s < kFree"
proof -
  assume "drain_ok s"
  then have "safe_to_reclaim_epoch s < current_epoch s" "current_epoch s < kLocked"
    by (simp_all add: drain_ok_def)
  then have "safe_to_reclaim_epoch s < kLocked" by order
  moreover have "kLocked < kFree" by (simp add: kLocked_def kFree_def)
  ultimately show ?thesis by order
qed

lemma TryPop_pending:
  assumes ok: "drain_ok s" and i: "i < kDrainListSize" and e: "trigger (drain_list s ! i) \<le> safe_to_reclaim_epoch s"
  defines "e' \<equiv> trigger (drain_list s ! i)"
  shows "\<exists>c. TryPop i e' s = Inr (s\<lparr>drain_list := (drain_list s)[i := free_action], performed := performed s @ [(e', c)]\<rparr>, True) \<and>
    pending (drain_list s) = add_mset (e', c) (pending ((drain_list s)[i := free_action]))"
proof -
  let ?a = "drain_list s ! i"
  have len: "i < length (drain_list s)" using ok i by (simp add: drain_ok_def)
  have nf: "trigger ?a \<noteq> kFree" using ok e by (intro not_free_below [of s]) (auto simp: drain_ok_def)
  then have "slot_ok s ?a" "?a \<noteq> free_action" using ok len by (auto simp: drain_ok_def free_action_def)
  then obtain c where c: "callback ?a = Some c" by (auto simp: slot_ok_def)
  have "pending ((drain_list s)[i := free_action]) + item ?a = pending (drain_list s)"
    using pending_update [OF len, of free_action] by simp
  then show ?thesis using nf c by (auto simp: TryPop_def perform_def e'_def Let_def item.simps)
qed

lemma drain_ok_pop:
  assumes ok: "drain_ok s" and i: "i < kDrainListSize" and p: "pending (drain_list s) = add_mset x (pending ((drain_list s)[i := free_action]))"
  shows "drain_ok (s\<lparr>drain_list := (drain_list s)[i := free_action], performed := ps, drain_count := drain_count s - 1\<rparr>)"
proof -
  have "unat (drain_count s) = Suc (size (pending ((drain_list s)[i := free_action])))"
    using ok p by (simp add: drain_ok_def)
  then have "unat (drain_count s - 1) = size (pending ((drain_list s)[i := free_action]))"
    by (subst unat_sub) (simp_all add: word_le_nat_alt)
  moreover have "slot_ok s a" if "a \<in> set ((drain_list s)[i := free_action])" for a
    using that ok set_update_subset_insert [of "drain_list s" i free_action]
    by (auto simp: drain_ok_def slot_ok_def)
  ultimately show ?thesis using ok by (simp add: drain_ok_def slot_ok_def)
qed

lemma drain_loop_spec:
  assumes "drain_ok s" "set is \<subseteq> {..<kDrainListSize}"
  shows "\<exists>s' new. drain_loop is s = Inr s' \<and> drain_ok s' \<and> same_epochs s s' \<and> performs s s' new \<and>
    pending (drain_list s) = pending (drain_list s') + mset new \<and>
    (\<forall>i < kDrainListSize. drain_list s' ! i = drain_list s ! i \<or> drain_list s' ! i = free_action) \<and>
    (\<forall>i \<in> set is. safe_to_reclaim_epoch s < trigger (drain_list s' ! i))"
  using assms
proof (induction "is" arbitrary: s)
  case Nil
  then show ?case by (auto simp: same_epochs_def performs_def)
next
  case (Cons i "is")
  have i: "i < kDrainListSize" using Cons.prems by simp
  have lt: "safe_to_reclaim_epoch s < kFree"
    using Cons.prems(1) by (rule safe_below_free)
  show ?case
  proof (cases "trigger (drain_list s ! i) \<le> safe_to_reclaim_epoch s")
    case False
    obtain s' new where r: "drain_loop is s = Inr s'" "drain_ok s'" "same_epochs s s'" "performs s s' new"
        "pending (drain_list s) = pending (drain_list s') + mset new"
        "\<forall>i < kDrainListSize. drain_list s' ! i = drain_list s ! i \<or> drain_list s' ! i = free_action"
        "\<forall>i \<in> set is. safe_to_reclaim_epoch s < trigger (drain_list s' ! i)"
      using Cons.IH [OF Cons.prems(1)] Cons.prems(2) by auto
    have "safe_to_reclaim_epoch s < trigger (drain_list s' ! i)"
      using r(6) i False lt by (auto simp: free_action_def not_le)
    then show ?thesis using r False by (auto simp: Let_def)
  next
    case True
    let ?dl = "(drain_list s)[i := free_action]" and ?e = "trigger (drain_list s ! i)"
    obtain c where c: "TryPop i ?e s = Inr (s\<lparr>drain_list := ?dl, performed := performed s @ [(?e, c)]\<rparr>, True)"
        "pending (drain_list s) = add_mset (?e, c) (pending ?dl)"
      using TryPop_pending [OF Cons.prems(1) i True] by blast
    let ?s2 = "s\<lparr>drain_list := ?dl, performed := performed s @ [(?e, c)], drain_count := drain_count s - 1\<rparr>"
    have ok2: "drain_ok ?s2" by (rule drain_ok_pop [OF Cons.prems(1) i c(2)])
    have len: "length (drain_list s) = kDrainListSize" using Cons.prems(1) by (simp add: drain_ok_def)
    have e2: "drain_loop (i # is) s = (if drain_count ?s2 = 0 then Inr ?s2 else drain_loop is ?s2)"
      using True c(1) by (simp add: Let_def)
    show ?thesis
    proof (cases "drain_count ?s2 = 0")
      case True
      then have "pending ?dl = {#}" using ok2 by (simp add: drain_ok_def)
      then have "trigger (?dl ! j) = kFree" if "j < kDrainListSize" for j
        using that len pending_empty [of ?dl "?dl ! j"] by simp
      then have all_done: "\<forall>j \<in> set (i # is). safe_to_reclaim_epoch s < trigger (drain_list ?s2 ! j)"
        using lt Cons.prems(2) by auto
      show ?thesis
        using True e2 ok2 c(2) all_done \<open>?e \<le> safe_to_reclaim_epoch s\<close> len
        by (intro exI [of _ ?s2] exI [of _ "[(?e, c)]"])
           (auto simp: same_epochs_def performs_def nth_list_update_case i)
    next
      case False
      obtain s' new where r: "drain_loop is ?s2 = Inr s'" "drain_ok s'" "same_epochs ?s2 s'" "performs ?s2 s' new"
          "pending ?dl = pending (drain_list s') + mset new"
          "\<forall>i < kDrainListSize. drain_list s' ! i = ?dl ! i \<or> drain_list s' ! i = free_action"
          "\<forall>i \<in> set is. safe_to_reclaim_epoch s < trigger (drain_list s' ! i)"
        using Cons.IH [OF ok2] Cons.prems(2) by auto
      have "drain_list s' ! i = free_action" using r(6) i len by auto
      then have "safe_to_reclaim_epoch s < trigger (drain_list s' ! i)" using lt by (simp add: free_action_def)
      moreover have "\<forall>j < kDrainListSize. drain_list s' ! j = drain_list s ! j \<or> drain_list s' ! j = free_action"
      proof (intro allI impI)
        fix j assume j: "j < kDrainListSize"
        show "drain_list s' ! j = drain_list s ! j \<or> drain_list s' ! j = free_action"
          using r(6) [rule_format, OF j] by (cases "j = i") (use i len in \<open>auto\<close>)
      qed
      moreover have "performs s s' ((?e, c) # new)" "same_epochs s s'"
        using r(3,4) \<open>?e \<le> safe_to_reclaim_epoch s\<close> by (auto simp: performs_def same_epochs_def)
      ultimately show ?thesis
        using e2 False r(1,2,5,7) c(2) by (intro exI [of _ s'] exI [of _ "(?e, c) # new"]) auto
    qed
  qed
qed

lemma slot_ok_cong: "current_epoch s' = current_epoch s \<Longrightarrow> slot_ok s' a = slot_ok s a"
  by (simp add: slot_ok_def)

lemma slots_update:
  assumes "drain_ok s" "slot_ok s a"
  shows "\<forall>x \<in> set ((drain_list s)[i := a]). slot_ok s x"
  using assms set_update_subset_insert [of "drain_list s" i a] by (auto simp: drain_ok_def)

lemma push_loop_spec:
  assumes ok: "drain_ok s" and prior: "prior < current_epoch s" and "is": "set is \<subseteq> {..<kDrainListSize}"
  shows "push_loop prior c is s = Inl Spins \<and>
      (\<forall>i \<in> set is. trigger (drain_list s ! i) \<noteq> kFree \<and> safe_to_reclaim_epoch s < trigger (drain_list s ! i)) \<or>
    (\<exists>s' new. push_loop prior c is s = Inr s' \<and> drain_ok s' \<and> same_epochs s s' \<and> performs s s' new \<and>
       pending (drain_list s') + mset new = add_mset (prior, c) (pending (drain_list s)))"
  using "is"
proof (induction "is")
  case (Cons i "is")
  let ?a = "drain_list s ! i" and ?n = "\<lparr>trigger = prior, callback = Some c\<rparr>"
  let ?dl = "(drain_list s)[i := ?n]"
  have i: "i < length (drain_list s)" using ok Cons.prems by (simp add: drain_ok_def)
  have np: "prior \<noteq> kFree"
  proof -
    have "kLocked < kFree" by (simp add: kLocked_def kFree_def)
    then show ?thesis using prior ok unfolding drain_ok_def by (metis order.strict_trans less_irrefl)
  qed
  have slots: "\<forall>x \<in> set ?dl. slot_ok s x" using ok prior by (intro slots_update) (simp_all add: slot_ok_def)
  have pend: "pending ?dl + item ?a = add_mset (prior, c) (pending (drain_list s))"
    using pending_update [OF i, of ?n] np by (simp add: item.simps)
  show ?case
  proof (cases "trigger ?a = kFree")
    case True
    let ?s = "s\<lparr>drain_list := ?dl, drain_count := drain_count s + 1\<rparr>"
    have sz: "size (pending ?dl) = Suc (size (pending (drain_list s)))" using pend True by (simp add: item.simps)
    have "unat (drain_count s) < 2 ^ 32 - 1"
      using ok pending_size [of "drain_list s"] by (simp add: drain_ok_def)
    then have "unat (drain_count s + 1) = Suc (unat (drain_count s))"
      using unat_add_lem [of "drain_count s" 1] by simp
    then have "drain_ok ?s" using ok slots sz by (simp add: drain_ok_def slot_ok_def)
    moreover have "push_loop prior c (i # is) s = Inr ?s" using True by (simp add: TryPush_def Let_def)
    ultimately show ?thesis
      using pend True
      by (intro disjI2 exI [of _ ?s] exI [of _ "[]"]) (simp add: same_epochs_def performs_def item.simps)
  next
    case False
    show ?thesis
    proof (cases "trigger ?a \<le> safe_to_reclaim_epoch s")
      case True
      have "?a \<noteq> free_action" "slot_ok s ?a" using False ok i by (auto simp: drain_ok_def free_action_def)
      then obtain d where d: "callback ?a = Some d" by (auto simp: slot_ok_def)
      let ?s = "s\<lparr>drain_list := ?dl, performed := performed s @ [(trigger ?a, d)]\<rparr>"
      have it: "item ?a = {#(trigger ?a, d)#}" using False d by (simp add: item.simps)
      then have "size (pending ?dl) = size (pending (drain_list s))"
        using arg_cong [OF pend, of size] by simp
      then have "drain_ok ?s" using ok slots by (simp add: drain_ok_def slot_ok_def)
      moreover have "push_loop prior c (i # is) s = Inr ?s"
        using False True d by (simp add: TrySwap_def perform_def Let_def)
      ultimately show ?thesis
        using pend it True
        by (intro disjI2 exI [of _ ?s] exI [of _ "[(trigger ?a, d)]"]) (simp add: same_epochs_def performs_def)
    next
      case notsafe: False
      then have "push_loop prior c (i # is) s = push_loop prior c is s" using False by (simp add: Let_def)
      then show ?thesis using Cons.IH Cons.prems False notsafe by auto
    qed
  qed
qed simp

section \<open>The invariant\<close>

definition protected_ok :: "'c light_epoch \<Rightarrow> bool" where
  "protected_ok s \<longleftrightarrow> (\<forall>i \<in> {1..num_entries s}. local_epoch s i \<noteq> 0 \<longrightarrow>
     safe_to_reclaim_epoch s < local_epoch s i \<and> local_epoch s i \<le> current_epoch s)"

definition epoch_inv :: "'c light_epoch \<Rightarrow> bool" where
  "epoch_inv s \<longleftrightarrow> length (table s) = num_entries s + 2 \<and> drain_ok s \<and> protected_ok s"

lemma oldest_fold:
  fixes s :: "'c light_epoch"
  defines "f \<equiv> (\<lambda>i oldest. let e = local_epoch s i in if e \<noteq> kUnprotected \<and> e < oldest then e else oldest)"
  shows "fold f is c \<le> c \<and> (\<forall>i \<in> set is. local_epoch s i \<noteq> 0 \<longrightarrow> fold f is c \<le> local_epoch s i) \<and>
    (c \<noteq> 0 \<longrightarrow> fold f is c \<noteq> 0)"
proof (induction "is" arbitrary: c)
  case (Cons i "is")
  have step: "f i c \<le> c" "local_epoch s i \<noteq> 0 \<longrightarrow> f i c \<le> local_epoch s i" "c \<noteq> 0 \<longrightarrow> f i c \<noteq> 0"
    by (auto simp: f_def Let_def kUnprotected_def not_less)
  then show ?case using Cons.IH [of "f i c"] by (auto intro: order_trans)
qed simp

lemma oldest_ongoing_spec:
  "oldest_ongoing s c \<le> c" "c \<noteq> 0 \<Longrightarrow> oldest_ongoing s c \<noteq> 0"
  "i \<in> {1..num_entries s} \<Longrightarrow> local_epoch s i \<noteq> 0 \<Longrightarrow> oldest_ongoing s c \<le> local_epoch s i"
  using oldest_fold [of s "[1..<num_entries s + 1]" c] unfolding oldest_ongoing_def by auto

lemma word_pred_less: "(x :: u64) \<noteq> 0 \<Longrightarrow> x - 1 < x"
  using unat_gt_0 [of x] by (simp add: word_less_nat_alt unat_minus_one)

lemma compute_safe:
  assumes "epoch_inv s"
  defines "s' \<equiv> ComputeNewSafeToReclaimEpoch (current_epoch s) s"
  shows "epoch_inv s'"
proof -
  let ?m = "oldest_ongoing s (current_epoch s)"
  have c: "current_epoch s \<noteq> 0" using assms(1) by (auto simp: epoch_inv_def drain_ok_def)
  have m: "?m - 1 < ?m" by (rule word_pred_less [OF oldest_ongoing_spec(2) [OF c]])
  have "?m - 1 < current_epoch s" using m oldest_ongoing_spec(1) [of s "current_epoch s"] by order
  moreover have "?m - 1 < local_epoch s i" if "i \<in> {1..num_entries s}" "local_epoch s i \<noteq> 0" for i
    using m oldest_ongoing_spec(3) [OF that, of "current_epoch s"] by order
  ultimately show ?thesis
    using assms(1)
    by (simp add: epoch_inv_def drain_ok_def protected_ok_def s'_def ComputeNewSafeToReclaimEpoch_def slot_ok_def local_epoch_def)
qed

lemma same_epochs_inv:
  "same_epochs s s' \<Longrightarrow> drain_ok s' \<Longrightarrow> epoch_inv s \<Longrightarrow> epoch_inv s'"
  by (simp add: same_epochs_def epoch_inv_def protected_ok_def local_epoch_def)

text \<open>Every operation keeps the invariant, keeps the registered actions, and performs safe ones only.\<close>

definition epoch_ok_step :: "'c light_epoch \<Rightarrow> (u64 \<times> 'c) multiset \<Rightarrow> 'c light_epoch \<Rightarrow> bool" where
  "epoch_ok_step s added s' \<longleftrightarrow> epoch_inv s' \<and> num_entries s' = num_entries s \<and>
     (\<exists>new. performs s s' new \<and> pending (drain_list s') + mset new = pending (drain_list s) + added)"

lemma Drain_spec:
  assumes "epoch_inv s"
  shows "\<exists>s'. Drain (current_epoch s) s = Inr s' \<and> epoch_ok_step s {#} s' \<and> table s' = table s \<and>
    current_epoch s' = current_epoch s \<and> (\<forall>a \<in> set (drain_list s'). safe_to_reclaim_epoch s' < trigger a)"
proof -
  let ?s = "ComputeNewSafeToReclaimEpoch (current_epoch s) s"
  have inv: "epoch_inv ?s" by (rule compute_safe [OF assms])
  obtain s' new where r: "drain_loop [0..<kDrainListSize] ?s = Inr s'" "drain_ok s'" "same_epochs ?s s'"
      "performs ?s s' new" "pending (drain_list ?s) = pending (drain_list s') + mset new"
      "\<forall>i \<in> set [0..<kDrainListSize]. safe_to_reclaim_epoch ?s < trigger (drain_list s' ! i)"
    using drain_loop_spec [of ?s "[0..<kDrainListSize]"] inv by (auto simp: epoch_inv_def atLeast0LessThan simp del: upt_rec_numeral)
  have "length (drain_list s') = kDrainListSize" using r(2) by (simp add: drain_ok_def)
  then have "\<forall>a \<in> set (drain_list s'). safe_to_reclaim_epoch s' < trigger a"
    using r(3,6) by (auto simp: same_epochs_def in_set_conv_nth)
  moreover have "epoch_inv s'" by (rule same_epochs_inv [OF r(3,2) inv])
  ultimately show ?thesis
    using r by (auto simp: Drain_def epoch_ok_step_def same_epochs_def performs_def ComputeNewSafeToReclaimEpoch_def
        simp del: upt_rec_numeral)
qed

section \<open>Runs\<close>

text \<open>
  One operation of a thread \<open>t\<close>; \<open>added\<close> holds the action a bump registers. The epoch counter stays
  below the two reserved values.
\<close>

inductive epoch_step :: "'c light_epoch \<Rightarrow> (u64 \<times> 'c) multiset \<Rightarrow> 'c light_epoch \<Rightarrow> bool" where
  protect: "t \<in> {1..num_entries s} \<Longrightarrow> epoch_step s {#} (Protect t s)"
| protect_drain: "t \<in> {1..num_entries s} \<Longrightarrow> ProtectAndDrain t s = Inr s' \<Longrightarrow> epoch_step s {#} s'"
| reenter: "t \<in> {1..num_entries s} \<Longrightarrow> epoch_step s {#} (ReentrantProtect t s)"
| unprotect: "t \<in> {1..num_entries s} \<Longrightarrow> epoch_step s {#} (Unprotect t s)"
| leave: "t \<in> {1..num_entries s} \<Longrightarrow> epoch_step s {#} (ReentrantUnprotect t s)"
| bump: "current_epoch s + 1 < kLocked \<Longrightarrow> BumpCurrentEpoch s = Inr s' \<Longrightarrow> epoch_step s {#} s'"
| bump_action: "current_epoch s + 1 < kLocked \<Longrightarrow> BumpCurrentEpoch_action c s = Inr s' \<Longrightarrow>
    epoch_step s {#(current_epoch s, c)#} s'"
| finish: "t \<in> {1..num_entries s} \<Longrightarrow> FinishThreadPhase t p s = (s', r) \<Longrightarrow> epoch_step s {#} s'"

inductive epoch_reachable :: "nat \<Rightarrow> 'c light_epoch \<Rightarrow> bool" for n where
  start: "epoch_reachable n (epoch_init n)"
| step: "epoch_reachable n s \<Longrightarrow> epoch_step s added s' \<Longrightarrow> epoch_reachable n s'"

lemma table_step:
  assumes inv: "epoch_inv s" and len: "length tb = length (table s)"
    and loc: "\<forall>i \<in> {1..num_entries s}. local_current_epoch (tb ! i) \<in> {local_epoch s i, 0, current_epoch s}"
  shows "epoch_ok_step s {#} (s\<lparr>table := tb\<rparr>)"
proof -
  have "protected_ok (s\<lparr>table := tb\<rparr>)"
  proof (unfold protected_ok_def, intro ballI impI)
    fix i assume "i \<in> {1..num_entries (s\<lparr>table := tb\<rparr>)}" "local_epoch (s\<lparr>table := tb\<rparr>) i \<noteq> 0"
    then show "safe_to_reclaim_epoch (s\<lparr>table := tb\<rparr>) < local_epoch (s\<lparr>table := tb\<rparr>) i \<and>
        local_epoch (s\<lparr>table := tb\<rparr>) i \<le> current_epoch (s\<lparr>table := tb\<rparr>)"
      using bspec [OF loc, of i] inv by (auto simp: epoch_inv_def protected_ok_def drain_ok_def local_epoch_def)
  qed
  then show ?thesis
    using inv len
    by (auto simp: epoch_ok_step_def epoch_inv_def drain_ok_def slot_ok_def performs_def intro!: exI [of _ "[]"])
qed

lemma set_local_step:
  assumes "epoch_inv s" "t < length (table s)" "e = 0 \<or> e = current_epoch s"
  shows "epoch_ok_step s {#} (set_local t e s)"
  unfolding set_local_def using assms
  by (intro table_step) (auto simp: nth_list_update local_epoch_def)

lemma bump_raise:
  assumes inv: "epoch_inv s" and b: "current_epoch s + 1 < kLocked"
  shows "epoch_inv (s\<lparr>current_epoch := current_epoch s + 1\<rparr>)" "current_epoch s < current_epoch s + 1"
proof -
  have c: "current_epoch s < kLocked" using inv by (simp add: epoch_inv_def drain_ok_def)
  then have "unat (current_epoch s) + 1 < 2 ^ 64"
    by (simp add: word_less_nat_alt kLocked_def)
  then have "unat (current_epoch s + 1) = unat (current_epoch s) + 1"
    using unat_add_lem [of "current_epoch s" 1] by simp
  then show lt: "current_epoch s < current_epoch s + 1" by (simp add: word_less_nat_alt)
  have "slot_ok (s\<lparr>current_epoch := current_epoch s + 1\<rparr>) a" if "slot_ok s a" for a
    using that lt by (auto simp: slot_ok_def)
  moreover have "protected_ok (s\<lparr>current_epoch := current_epoch s + 1\<rparr>)"
    using inv lt by (fastforce simp: epoch_inv_def protected_ok_def local_epoch_def)
  ultimately show "epoch_inv (s\<lparr>current_epoch := current_epoch s + 1\<rparr>)"
    using inv b lt by (auto simp: epoch_inv_def drain_ok_def)
qed

lemma maybe_drain:
  assumes inv: "epoch_inv s"
  shows "\<exists>s'. (if 0 < drain_count s then Drain (current_epoch s) s else Inr s) = Inr s' \<and> epoch_ok_step s {#} s' \<and>
    table s' = table s \<and> current_epoch s' = current_epoch s"
proof (cases "0 < drain_count s")
  case True
  then show ?thesis using Drain_spec [OF inv] by auto
next
  case False
  then show ?thesis using inv by (auto simp: epoch_ok_step_def performs_def intro!: exI [of _ "[]"])
qed

lemma epoch_ok_step_trans:
  assumes "epoch_ok_step s a s1" "epoch_ok_step s1 b s2" "safe_to_reclaim_epoch s1 \<le> safe_to_reclaim_epoch s2 \<or> performed s1 = performed s"
  shows "epoch_ok_step s (a + b) s2"
proof -
  obtain n1 n2 where n: "performs s s1 n1" "pending (drain_list s1) + mset n1 = pending (drain_list s) + a"
    "performs s1 s2 n2" "pending (drain_list s2) + mset n2 = pending (drain_list s1) + b"
    using assms(1,2) by (auto simp: epoch_ok_step_def)
  have "performs s s2 (n1 @ n2)" using n(1,3) assms(3) by (auto simp: performs_def intro: order_trans)
  moreover have "pending (drain_list s2) + mset (n1 @ n2) = pending (drain_list s) + (a + b)"
    using n(2,4) by (simp add: ac_simps)
  ultimately show ?thesis using assms(1,2) by (auto simp: epoch_ok_step_def)
qed

lemma ProtectAndDrain_spec:
  assumes inv: "epoch_inv s" and t: "t \<in> {1..num_entries s}"
  shows "\<exists>s'. ProtectAndDrain t s = Inr s' \<and> epoch_ok_step s {#} s'"
proof -
  let ?s1 = "set_local t (current_epoch s) s"
  have len: "t < length (table s)" using inv t by (simp add: epoch_inv_def)
  have 1: "epoch_ok_step s {#} ?s1" by (rule set_local_step [OF inv len]) simp
  then have inv1: "epoch_inv ?s1" by (simp add: epoch_ok_step_def)
  have c: "local_epoch ?s1 t = current_epoch ?s1" using len by (simp add: local_epoch_def set_local_def)
  obtain s' where 2: "(if 0 < drain_count ?s1 then Drain (current_epoch ?s1) ?s1 else Inr ?s1) = Inr s'"
    "epoch_ok_step ?s1 {#} s'" using maybe_drain [OF inv1] by blast
  have "epoch_ok_step s ({#} + {#}) s'"
    by (rule epoch_ok_step_trans [OF 1 2(2)]) (simp add: set_local_def)
  then show ?thesis using 2(1) by (auto simp: ProtectAndDrain_def Let_def c)
qed

lemma Bump_spec:
  assumes inv: "epoch_inv s" and b: "current_epoch s + 1 < kLocked"
  shows "\<exists>s'. BumpCurrentEpoch s = Inr s' \<and> epoch_ok_step s {#} s' \<and> current_epoch s' = current_epoch s + 1"
proof -
  let ?s1 = "s\<lparr>current_epoch := current_epoch s + 1\<rparr>"
  obtain s' where 2: "(if 0 < drain_count ?s1 then Drain (current_epoch ?s1) ?s1 else Inr ?s1) = Inr s'"
    "epoch_ok_step ?s1 {#} s'" "current_epoch s' = current_epoch ?s1"
    using maybe_drain [OF bump_raise(1) [OF inv b]] by blast
  then show ?thesis by (auto simp: BumpCurrentEpoch_def Let_def epoch_ok_step_def performs_def)
qed

lemma Bump_action_spec:
  assumes inv: "epoch_inv s" and b: "current_epoch s + 1 < kLocked"
    and r: "BumpCurrentEpoch_action c s = Inr s'"
  shows "epoch_ok_step s {#(current_epoch s, c)#} s'"
proof -
  obtain s1 where 1: "BumpCurrentEpoch s = Inr s1" "epoch_ok_step s {#} s1" "current_epoch s1 = current_epoch s + 1"
    using Bump_spec [OF inv b] by blast
  have p: "current_epoch s1 - 1 = current_epoch s" using 1(3) by simp
  have ok: "drain_ok s1" and i1: "epoch_inv s1" using 1(2) by (auto simp: epoch_ok_step_def epoch_inv_def)
  have lt: "current_epoch s < current_epoch s1" using bump_raise(2) [OF inv b] by (simp add: 1(3))
  have "push_loop (current_epoch s) c [0..<kDrainListSize] s1 = Inr s'"
    using r 1(1) p by (simp add: BumpCurrentEpoch_action_def del: upt_rec_numeral)
  then obtain new where 2: "drain_ok s'" "same_epochs s1 s'" "performs s1 s' new"
      "pending (drain_list s') + mset new = add_mset (current_epoch s, c) (pending (drain_list s1))"
    using push_loop_spec [OF ok lt, of "[0..<kDrainListSize]" c]
    by (auto simp: atLeast0LessThan simp del: upt_rec_numeral)
  have "epoch_ok_step s1 {#(current_epoch s, c)#} s'"
    using same_epochs_inv [OF 2(2,1) i1] 2 by (auto simp: epoch_ok_step_def same_epochs_def)
  then have "epoch_ok_step s ({#} + {#(current_epoch s, c)#}) s'"
    using 2(2) by (intro epoch_ok_step_trans [OF 1(2)]) (auto simp: same_epochs_def)
  then show ?thesis by simp
qed

lemma epoch_step_ok: "epoch_step s added s' \<Longrightarrow> epoch_inv s \<Longrightarrow> epoch_ok_step s added s'"
proof (induction rule: epoch_step.induct)
  case (protect t s)
  then show ?case unfolding Protect_def by (intro set_local_step) (auto simp: epoch_inv_def)
next
  case (protect_drain t s s')
  then show ?case using ProtectAndDrain_spec [of s t] by auto
next
  case (reenter t s)
  then show ?case
    unfolding ReentrantProtect_def Let_def set_local_def
    using table_step [of s "table s"]
    by (auto simp: local_epoch_def epoch_inv_def nth_list_update intro!: table_step)
next
  case (unprotect t s)
  then show ?case unfolding Unprotect_def by (intro set_local_step) (auto simp: epoch_inv_def kUnprotected_def)
next
  case (leave t s)
  then show ?case
    unfolding ReentrantUnprotect_def Let_def set_local_def
    by (auto simp: local_epoch_def epoch_inv_def nth_list_update kUnprotected_def intro!: table_step split: if_splits)
next
  case (bump s s')
  then show ?case using Bump_spec [of s] by auto
next
  case (bump_action s c s')
  then show ?case by (intro Bump_action_spec) auto
next
  case (finish t s p s' r)
  then have "s' = s\<lparr>table := (table s)[t := (table s ! t)\<lparr>phase_finished := p\<rparr>]\<rparr>"
    by (simp add: FinishThreadPhase_def Let_def)
  then show ?case
    using finish
    by (auto simp: local_epoch_def epoch_inv_def nth_list_update intro!: table_step split: if_splits)
qed

lemma epoch_init_inv: "epoch_inv (epoch_init n :: 'c light_epoch)"
proof -
  have tb: "table (epoch_init n :: 'c light_epoch) ! i = new_entry" if "i \<in> {1..n}" for i
    using that nth_replicate [of i "n + 2" new_entry] unfolding epoch_init_def by simp
  have "local_epoch (epoch_init n :: 'c light_epoch) i = 0" if "i \<in> {1..n}" for i
    using tb [OF that] by (simp add: local_epoch_def) (simp add: new_entry_def)
  then show ?thesis
    by (simp add: epoch_inv_def drain_ok_def protected_ok_def epoch_init_def slot_ok_def kLocked_def)
qed

lemma epoch_reachable_inv: "epoch_reachable n s \<Longrightarrow> epoch_inv s \<and> num_entries s = n"
proof (induction rule: epoch_reachable.induct)
  case start
  show ?case using epoch_init_inv by (simp add: epoch_init_def)
next
  case (step s added s')
  then show ?case using epoch_step_ok [of s added s'] by (auto simp: epoch_ok_step_def)
qed

text \<open>
  C13: in every run of threads with ids 1 to n, whenever an operation runs an action that was
  registered when the epoch moved past \<open>e\<close>, every thread that is protected at that moment entered in
  an epoch later than \<open>e\<close>; and no action is lost or run twice: what was pending or is added is
  exactly what is pending afterwards or has just run.
\<close>

theorem epoch_safety:
  assumes "epoch_reachable n s" "epoch_step s added s'"
  shows "\<exists>new. performed s' = performed s @ new \<and>
    pending (drain_list s) + added = pending (drain_list s') + mset new \<and>
    (\<forall>(e, c) \<in> set new. \<forall>i \<in> {1..n}. IsProtected i s' \<longrightarrow> e < local_epoch s' i)"
proof -
  have inv: "epoch_inv s" "num_entries s = n" using epoch_reachable_inv [OF assms(1)] by auto
  obtain new where st: "epoch_inv s'" "num_entries s' = n" "performs s s' new"
      "pending (drain_list s') + mset new = pending (drain_list s) + added"
    using epoch_step_ok [OF assms(2) inv(1)] inv(2) by (auto simp: epoch_ok_step_def)
  have "e < local_epoch s' i" if "(e, c) \<in> set new" "i \<in> {1..n}" "IsProtected i s'" for e c i
  proof -
    have "e \<le> safe_to_reclaim_epoch s'" using st(3) that(1) by (auto simp: performs_def)
    moreover have "safe_to_reclaim_epoch s' < local_epoch s' i"
      using st(1,2) that(2,3) by (auto simp: epoch_inv_def protected_ok_def IsProtected_def kUnprotected_def)
    ultimately show ?thesis by order
  qed
  then show ?thesis using st(3,4) by (auto simp: performs_def)
qed

lemma first_protect: "epoch_step (epoch_init 3 :: 'c light_epoch) {#} (Protect 2 (epoch_init 3))"
  by (rule epoch_step.protect) (simp add: epoch_init_def)

theorem epoch_safety_witness:
  "\<exists>(s :: nat light_epoch) s' added. epoch_reachable 3 s \<and> epoch_step s added s' \<and> IsProtected 2 s' \<and>
     (\<exists>new. performed s' = performed s @ new)"
proof -
  let ?s = "epoch_init 3 :: nat light_epoch"
  have st: "epoch_step ?s {#} (Protect 2 ?s)" by (rule first_protect)
  have re: "epoch_reachable 3 ?s" by (rule epoch_reachable.start)
  obtain new where "performed (Protect 2 ?s) = performed ?s @ new" using epoch_safety [OF re st] by metis
  moreover have "IsProtected 2 (Protect 2 ?s)"
    by (simp add: IsProtected_def Protect_def set_local_def local_epoch_def epoch_init_def kUnprotected_def)
  ultimately show ?thesis using re st by (intro exI conjI)
qed

lemma oldest_cases:
  fixes s :: "'c light_epoch"
  shows "oldest_ongoing s c = c \<or> (\<exists>i \<in> {1..num_entries s}. local_epoch s i \<noteq> 0 \<and> oldest_ongoing s c = local_epoch s i)"
proof -
  let ?f = "\<lambda>i oldest. let e = local_epoch s i in if e \<noteq> kUnprotected \<and> e < oldest then e else oldest"
  have "fold ?f is c = c \<or> (\<exists>i \<in> set is. local_epoch s i \<noteq> 0 \<and> fold ?f is c = local_epoch s i)" for "is"
  proof (induction "is" arbitrary: c)
    case (Cons i "is")
    show ?case using Cons.IH [of "?f i c"] by (auto simp: Let_def kUnprotected_def split: if_splits)
  qed simp
  from this [of "[1..<num_entries s + 1]"] show ?thesis unfolding oldest_ongoing_def by auto
qed

lemma below_pred: "(e :: u64) < m \<Longrightarrow> e \<le> m - 1"
proof -
  assume a: "e < m"
  then have "m \<noteq> 0" by auto
  then show ?thesis using a by (simp add: word_less_nat_alt word_le_nat_alt unat_minus_one)
qed

lemma drain_left:
  assumes "epoch_reachable n s" "t \<in> {1..n}" "e < current_epoch s"
    and "\<forall>i \<in> {1..n}. i \<noteq> t \<longrightarrow> IsProtected i s \<longrightarrow> e < local_epoch s i"
  shows "\<exists>s'. ProtectAndDrain t s = Inr s' \<and> (\<forall>a \<in> set (drain_list s'). e < trigger a)"
proof -
  have inv: "epoch_inv s" "num_entries s = n" using epoch_reachable_inv [OF assms(1)] by auto
  let ?s1 = "set_local t (current_epoch s) s"
  have len: "t < length (table s)" using inv assms(2) by (simp add: epoch_inv_def)
  have inv1: "epoch_inv ?s1" using set_local_step [OF inv(1) len] by (simp add: epoch_ok_step_def)
  have c: "current_epoch ?s1 = current_epoch s" "num_entries ?s1 = n" using inv(2) by (simp_all add: set_local_def)
  have loc: "local_epoch ?s1 i = (if i = t then current_epoch s else local_epoch s i)" for i
    using len by (simp add: local_epoch_def set_local_def nth_list_update)
  have old: "e < oldest_ongoing ?s1 (current_epoch s)"
    using oldest_cases [of ?s1 "current_epoch s"] assms(3,4) c(2)
    by (auto simp: loc IsProtected_def kUnprotected_def split: if_splits)
  show ?thesis
  proof (cases "0 < drain_count ?s1")
    case True
    obtain s' where d: "Drain (current_epoch ?s1) ?s1 = Inr s'" "\<forall>a \<in> set (drain_list s'). safe_to_reclaim_epoch s' < trigger a"
      using Drain_spec [OF inv1] by blast
    obtain s'' where "drain_loop [0..<kDrainListSize] (ComputeNewSafeToReclaimEpoch (current_epoch ?s1) ?s1) = Inr s''"
        "same_epochs (ComputeNewSafeToReclaimEpoch (current_epoch ?s1) ?s1) s''"
      using drain_loop_spec [of "ComputeNewSafeToReclaimEpoch (current_epoch ?s1) ?s1" "[0..<kDrainListSize]"]
        compute_safe [OF inv1] by (auto simp: epoch_inv_def atLeast0LessThan simp del: upt_rec_numeral)
    then have "safe_to_reclaim_epoch s' = oldest_ongoing ?s1 (current_epoch s) - 1"
      using d(1) c(1) by (simp add: Drain_def same_epochs_def ComputeNewSafeToReclaimEpoch_def del: upt_rec_numeral)
    then have "e \<le> safe_to_reclaim_epoch s'" using below_pred [OF old] by simp
    then have "\<forall>a \<in> set (drain_list s'). e < trigger a" using d(2) by (meson order.strict_trans1)
    moreover have "ProtectAndDrain t s = Inr s'"
      using True d(1) c(1) by (simp add: ProtectAndDrain_def Let_def loc)
    ultimately show ?thesis by blast
  next
    case False
    then have "drain_count ?s1 = 0" by (simp add: word_gt_0)
    then have "pending (drain_list ?s1) = {#}" using inv1 by (simp add: epoch_inv_def drain_ok_def)
    then have "\<forall>a \<in> set (drain_list ?s1). trigger a = kFree" using pending_empty by blast
    moreover have "e < kFree"
    proof -
      have "current_epoch s < kLocked" using inv(1) by (simp add: epoch_inv_def drain_ok_def)
      moreover have "kLocked < kFree" by (simp add: kLocked_def kFree_def)
      ultimately show ?thesis using assms(3) by order
    qed
    ultimately show ?thesis using False by (simp add: ProtectAndDrain_def Let_def)
  qed
qed

lemma pending_triggers: "p \<in># pending xs \<Longrightarrow> \<exists>a \<in> set xs. trigger a = fst p"
  by (induction xs) (auto simp: item.simps split: if_splits)

lemma filter_none: "\<forall>x \<in># M. \<not> P x \<Longrightarrow> filter_mset P M = {#}"
  by (induction M) auto

text \<open>
  C14: once no other thread protects \<open>e\<close> or an earlier epoch, the next thread that refreshes its
  protection performs every pending action that was registered up to \<open>e\<close>, each of them exactly once: what it performs of them is, as
  a multiset, what was pending of them. No action is lost: what was pending is still pending or was performed.
\<close>

theorem epoch_drains:
  assumes "epoch_reachable n s" "t \<in> {1..n}" "e < current_epoch s"
    and "\<forall>i \<in> {1..n}. i \<noteq> t \<longrightarrow> IsProtected i s \<longrightarrow> e < local_epoch s i"
  shows "\<exists>s' new. ProtectAndDrain t s = Inr s' \<and> performed s' = performed s @ new \<and>
    filter_mset (\<lambda>a. fst a \<le> e) (mset new) = filter_mset (\<lambda>a. fst a \<le> e) (pending (drain_list s)) \<and>
    pending (drain_list s) = pending (drain_list s') + mset new \<and> (\<forall>a \<in> set (drain_list s'). e < trigger a)"
proof -
  obtain s' where s': "ProtectAndDrain t s = Inr s'" "\<forall>a \<in> set (drain_list s'). e < trigger a"
    using drain_left [OF assms] by blast
  have inv: "epoch_inv s" "num_entries s = n" using epoch_reachable_inv [OF assms(1)] by auto
  have "epoch_step s {#} s'" by (rule epoch_step.protect_drain [OF _ s'(1)]) (use assms(2) inv(2) in simp)
  then obtain new where new: "performed s' = performed s @ new" "pending (drain_list s') + mset new = pending (drain_list s)"
    using epoch_step_ok [OF _ inv(1), of "{#}" s'] by (auto simp: epoch_ok_step_def performs_def)
  have "filter_mset (\<lambda>a. fst a \<le> e) (pending (drain_list s')) = {#}"
    by (rule filter_none) (use s'(2) pending_triggers [of _ "drain_list s'"] in fastforce)
  then have "filter_mset (\<lambda>a. fst a \<le> e) (mset new) = filter_mset (\<lambda>a. fst a \<le> e) (pending (drain_list s))"
    unfolding new(2) [symmetric] by simp
  then show ?thesis using s' new by metis
qed

lemma bump_registers:
  fixes c :: 'c
  defines "dl \<equiv> (replicate kDrainListSize free_action)[0 := \<lparr>trigger = 1, callback = Some c\<rparr>]"
  shows "BumpCurrentEpoch_action c (epoch_init n) = Inr ((epoch_init n)\<lparr>current_epoch := 2, drain_list := dl, drain_count := 1\<rparr>)"
    "pending dl = {#(1, c)#}"
proof -
  have up: "[0..<kDrainListSize] = 0 # [1..<kDrainListSize]" by (simp add: upt_conv_Cons)
  show "BumpCurrentEpoch_action c (epoch_init n) = Inr ((epoch_init n)\<lparr>current_epoch := 2, drain_list := dl, drain_count := 1\<rparr>)"
    unfolding BumpCurrentEpoch_action_def BumpCurrentEpoch_def up push_loop.simps
    by (simp add: Let_def TryPush_def epoch_init_def free_action_def dl_def)
  have "item \<lparr>trigger = 1, callback = Some c\<rparr> = {#(1, c)#}" by (simp add: item.simps kFree_def)
  then show "pending dl = {#(1, c)#}"
    using pending_update [of 0 "replicate kDrainListSize (free_action :: 'c epoch_action)" "\<lparr>trigger = 1, callback = Some c\<rparr>"]
    by (simp add: dl_def)
qed

theorem epoch_drains_witness:
  "\<exists>s s'. BumpCurrentEpoch_action 5 (epoch_init 2 :: nat light_epoch) = Inr s \<and> epoch_reachable 2 s \<and> ProtectAndDrain 1 s = Inr s' \<and>
     performed s' = [(1, 5)]"
proof -
  let ?s0 = "epoch_init 2 :: nat light_epoch"
  obtain s where s: "BumpCurrentEpoch_action 5 ?s0 = Inr s" "current_epoch s = 2" "pending (drain_list s) = {#(1, 5)#}" "performed s = []"
      "table s = table ?s0"
    using bump_registers(1) [of "5 :: nat" 2] bump_registers(2) [of "5 :: nat"] by (auto simp: epoch_init_def)
  have "epoch_step ?s0 {#(current_epoch ?s0, 5)#} s"
    by (rule epoch_step.bump_action [OF _ s(1)]) (simp add: epoch_init_def kLocked_def)
  then have r: "epoch_reachable 2 s" by (rule epoch_reachable.step [OF epoch_reachable.start])
  have u: "\<not> IsProtected i s" if "i \<in> {1..2}" for i
    using that s(5) by (auto simp: IsProtected_def local_epoch_def epoch_init_def kUnprotected_def new_entry_def nth_append nth_Cons')
  have q: "\<forall>i \<in> {1..2}. i \<noteq> 1 \<longrightarrow> IsProtected i s \<longrightarrow> 1 < local_epoch s i" using u by blast
  have e: "1 \<in> {1..(2 :: nat)}" "1 < current_epoch s" using s(2) by simp_all
  obtain s' new where d: "ProtectAndDrain 1 s = Inr s'" "performed s' = performed s @ new"
    "filter_mset (\<lambda>a. fst a \<le> 1) (mset new) = filter_mset (\<lambda>a. fst a \<le> 1) (pending (drain_list s))"
    "pending (drain_list s) = pending (drain_list s') + mset new"
    using epoch_drains [OF r e q] by blast
  have f: "filter_mset (\<lambda>a. fst a \<le> 1) (mset new) = {#(1, 5)#}" unfolding d(3) s(3) by simp
  have ne: "mset new \<noteq> {#}"
  proof
    assume "mset new = {#}"
    then show False using f by simp
  qed
  have "{#(1, 5)#} = pending (drain_list s') + mset new" using d(4) unfolding s(3) .
  then have "mset new = {#(1, 5)#}" using ne unfolding single_is_union by blast
  then have "new = [(1, 5)]" by simp
  then show ?thesis using s(1,4) r d(1,2) by auto
qed

section \<open>Thread 0\<close>

text \<open>
  The first thread gets id 0, which the scans of the epoch table skip. Although thread 0 is
  protected in epoch 1 throughout, an action registered when the epoch moved past 1 runs as soon as
  thread 1 refreshes its own protection.
\<close>

theorem thread_zero_not_protected:
  fixes c :: 'c
  shows "\<exists>ids s2 s3. ReserveEntry thread_ids_init = Inr (ids, 0) \<and>
     BumpCurrentEpoch_action c (Protect 0 (epoch_init 96)) = Inr s2 \<and> ProtectAndDrain 1 s2 = Inr s3 \<and>
     performed s3 = [(1, c)] \<and> IsProtected 0 s3 \<and> local_epoch s3 0 = 1"
proof -
  let ?s1 = "Protect 0 (epoch_init 96) :: 'c light_epoch"
  let ?dl = "(replicate kDrainListSize free_action)[0 := \<lparr>trigger = 1, callback = Some c\<rparr>]"
  let ?s2 = "?s1\<lparr>current_epoch := 2, drain_list := ?dl, drain_count := 1\<rparr>"
  let ?s2' = "set_local 1 2 ?s2"
  let ?s3 = "?s2'\<lparr>safe_to_reclaim_epoch := 1, drain_list := ?dl[0 := free_action], performed := [(1, c)], drain_count := 0\<rparr>"
  have f: "(1 :: u64) \<noteq> kFree" "free_action \<noteq> \<lparr>trigger = 1, callback = Some c\<rparr>"
    by (simp_all add: kFree_def free_action_def)
  have up: "[0..<kDrainListSize] = 0 # [1..<kDrainListSize]" by (simp add: upt_conv_Cons)
  have s1: "drain_list ?s1 = replicate kDrainListSize free_action" "drain_count ?s1 = 0" "current_epoch ?s1 = 1"
    "performed ?s1 = []" "num_entries ?s1 = 96" "safe_to_reclaim_epoch ?s1 = 0"
    by (simp_all add: Protect_def set_local_def epoch_init_def)
  have tb: "table ?s1 = (replicate 98 new_entry)[0 := new_entry\<lparr>local_current_epoch := 1\<rparr>]"
    by (simp add: Protect_def set_local_def epoch_init_def)
  have "ReserveEntry thread_ids_init = Inr (thread_ids_init\<lparr>next_index := 1, id_used := (replicate kMaxNumThreads False)[0 := True]\<rparr>, 0)"
    by (simp add: ReserveEntry_def thread_ids_init_def reserve_loop_pos Let_def)
  moreover have "BumpCurrentEpoch_action c ?s1 = Inr ?s2"
    unfolding BumpCurrentEpoch_action_def BumpCurrentEpoch_def up push_loop.simps
    using s1 by (simp add: Let_def TryPush_def free_action_def)
  moreover have "ProtectAndDrain 1 ?s2 = Inr ?s3"
  proof -
    have loc: "local_epoch ?s2' i = (if i = 1 then 2 else 0)" if "i \<in> {1..96}" for i
      using that tb by (simp add: local_epoch_def set_local_def nth_list_update new_entry_def)
    have "oldest_ongoing ?s2' 2 = 2"
      using oldest_cases [of ?s2' 2] loc by (auto simp: set_local_def s1 split: if_splits)
    moreover have "local_epoch ?s2' 1 = 2" using loc [of 1] by simp
    ultimately show ?thesis
      unfolding ProtectAndDrain_def Drain_def up drain_loop.simps
      by (simp add: Let_def ComputeNewSafeToReclaimEpoch_def TryPop_def perform_def s1 set_local_def)
  qed
  moreover have "local_epoch ?s3 0 = 1"
    using tb by (simp add: local_epoch_def set_local_def)
  moreover have "IsProtected 0 ?s3" using \<open>local_epoch ?s3 0 = 1\<close> by (simp add: IsProtected_def kUnprotected_def)
  ultimately show ?thesis
    by (intro exI conjI) (assumption | simp)+
qed

end
