(* ===== verification/FixedPages.thy ===== *)
theory FixedPages
  imports FasterWords SystemState
begin

text \<open>
  The allocator of the overflow buckets (\<open>memory/malloc_fixed_page_size.h\<close>) and the bookkeeping of
  asynchronous checkpoints and recoveries that it shares with the hash table
  (\<open>core/hash_table.h\<close>).

  A page is a function from offsets to items; a page array is a list of pages, \<open>None\<close> for a null
  pointer. Each operation runs without interference of other threads, so that every
  compare-and-exchange succeeds. \<open>retired\<close> collects the sizes of the page arrays whose deletion was
  registered with the epoch.
\<close>

section \<open>Addresses\<close>

definition fixed_layout :: "nat list" where "fixed_layout = [20, 28, 16]"

definition fp_offset :: "u64 \<Rightarrow> u32" where
  "fp_offset a = ucast (field fixed_layout 0 a)"

definition fp_page :: "u64 \<Rightarrow> u64" where
  "fp_page a = field fixed_layout 1 a"

definition fp_reserved :: "u64 \<Rightarrow> u64" where
  "fp_reserved a = field fixed_layout 2 a"

definition fp_ge :: "u64 \<Rightarrow> u64 \<Rightarrow> c_error + bool" where
  "fp_ge a b = (if fp_reserved a = 0 \<and> fp_reserved b = 0 then Inr (a \<ge> b) else Inl AssertFail)"

definition fp_kMaxOffset :: u64 where "fp_kMaxOffset = 0xFFFFF"
definition fp_kPageSize :: u64 where "fp_kPageSize = 0x100000"

section \<open>Page arrays\<close>

type_synonym 'a fixed_page = "u32 \<Rightarrow> 'a"
type_synonym 'a page_array = "'a fixed_page option list"

text \<open>
  The constructor copies the pages of the old array, waiting for each to be there: without other
  threads it waits forever for a missing one.
\<close>

definition array_Create :: "u64 \<Rightarrow> 'a page_array option \<Rightarrow> c_error + 'a page_array" where
  "array_Create sz old =
     (if \<not> IsPowerOfTwo sz then Inl AssertFail
      else case old of None \<Rightarrow> Inr (replicate (unat sz) None)
      | Some arr \<Rightarrow>
          if \<not> length arr < unat sz then Inl AssertFail
          else if None \<in> set arr then Inl Spins
          else Inr (arr @ replicate (unat sz - length arr) None))"

definition array_Get :: "u64 \<Rightarrow> 'a page_array \<Rightarrow> c_error + 'a fixed_page option" where
  "array_Get page_idx arr = (if unat page_idx < length arr then Inr (arr ! unat page_idx) else Inl AssertFail)"

text \<open>A new page holds value-initialised items, here \<open>zero\<close>.\<close>

definition array_AddPage :: "'a \<Rightarrow> u64 \<Rightarrow> 'a page_array \<Rightarrow> c_error + 'a page_array" where
  "array_AddPage zero page_idx arr =
     (if \<not> unat page_idx < length arr then Inl AssertFail
      else Inr (if arr ! unat page_idx = None then arr[unat page_idx := Some (\<lambda>_. zero)] else arr))"

definition array_GetOrAdd :: "'a \<Rightarrow> u64 \<Rightarrow> 'a page_array \<Rightarrow> c_error + 'a page_array" where
  "array_GetOrAdd zero page_idx arr =
     bindR (array_Get page_idx arr) (\<lambda>p. if p = None then array_AddPage zero page_idx arr else Inr arr)"

text \<open>A value-initialised bucket, the item of the allocator of the overflow buckets.\<close>

definition empty_bucket :: hash_bucket where
  "empty_bucket = \<lparr>entries = replicate kNumEntries 0, overflow_entry = 0\<rparr>"

section \<open>The allocator\<close>

record 'a fixed_alloc =
  page_array :: "'a page_array"
  alloc_count :: u64
  free_lists :: "nat \<Rightarrow> (u64 \<times> u64) list"
  retired :: "u64 list"

definition alloc_Get :: "u64 \<Rightarrow> 'a fixed_alloc \<Rightarrow> c_error + 'a" where
  "alloc_Get a s =
     bindR (array_Get (fp_page a) (page_array s)) (\<lambda>p.
       case p of None \<Rightarrow> Inl AssertFail
       | Some f \<Rightarrow> if ucast (fp_offset a) \<le> fp_kMaxOffset then Inr (f (fp_offset a)) else Inl AssertFail)"

text \<open>Writing through the reference that \<open>Get\<close> returns.\<close>

definition alloc_put :: "u64 \<Rightarrow> 'a \<Rightarrow> 'a fixed_alloc \<Rightarrow> c_error + 'a fixed_alloc" where
  "alloc_put a x s =
     bindR (array_Get (fp_page a) (page_array s)) (\<lambda>p.
       case p of None \<Rightarrow> Inl AssertFail
       | Some f \<Rightarrow> if ucast (fp_offset a) \<le> fp_kMaxOffset
           then Inr (s\<lparr>page_array := (page_array s)[unat (fp_page a) := Some (f(fp_offset a := x))]\<rparr>)
           else Inl AssertFail)"

definition ExpandArray :: "u64 \<Rightarrow> 'a fixed_alloc \<Rightarrow> c_error + 'a fixed_alloc" where
  "ExpandArray new_size s =
     bindR (array_Create new_size (Some (page_array s))) (\<lambda>arr.
       Inr (s\<lparr>page_array := arr, retired := retired s @ [of_nat (length (page_array s))]\<rparr>))"

text \<open>Taking the next address that was never given out.\<close>

definition alloc_next :: "'a \<Rightarrow> 'a fixed_alloc \<Rightarrow> c_error + u64 \<times> 'a fixed_alloc" where
  "alloc_next zero s =
     (let addr = alloc_count s; s1 = s\<lparr>alloc_count := alloc_count s + 1\<rparr> in
      bindR (if unat (fp_page addr) \<ge> length (page_array s1)
             then bindR (next_power_of_two (fp_page addr + 1)) (\<lambda>n. ExpandArray n s1) else Inr s1) (\<lambda>s2.
      bindR (if fp_offset addr = 0 \<and> unat (fp_page addr + 1) < length (page_array s2)
             then bindR (array_AddPage zero (fp_page addr + 1) (page_array s2)) (\<lambda>arr. Inr (s2\<lparr>page_array := arr\<rparr>))
             else Inr s2) (\<lambda>s3.
      bindR (array_GetOrAdd zero (fp_page addr) (page_array s3)) (\<lambda>arr.
        Inr (addr, s3\<lparr>page_array := arr\<rparr>)))))"

text \<open>\<open>safe\<close> is the epoch that is safe to reclaim, \<open>t\<close> the calling thread.\<close>

definition alloc_Allocate :: "'a \<Rightarrow> nat \<Rightarrow> u64 \<Rightarrow> 'a fixed_alloc \<Rightarrow> c_error + u64 \<times> 'a fixed_alloc" where
  "alloc_Allocate zero t safe s =
     (if free_lists s t \<noteq> [] \<and> snd (hd (free_lists s t)) \<le> safe
      then Inr (fst (hd (free_lists s t)), s\<lparr>free_lists := (free_lists s)(t := tl (free_lists s t))\<rparr>)
      else alloc_next zero s)"

definition FreeAtEpoch :: "nat \<Rightarrow> u64 \<Rightarrow> u64 \<Rightarrow> 'a fixed_alloc \<Rightarrow> 'a fixed_alloc" where
  "FreeAtEpoch t addr removed_epoch s =
     s\<lparr>free_lists := (free_lists s)(t := free_lists s t @ [(addr, removed_epoch)])\<rparr>"

text \<open>\<open>Initialize\<close> of a new allocator; the free lists are empty.\<close>

definition alloc_Initialize :: "'a \<Rightarrow> nat \<Rightarrow> u64 \<Rightarrow> c_error + 'a fixed_alloc" where
  "alloc_Initialize zero t safe =
     bindR (array_Create 2 None) (\<lambda>arr.
     bindR (array_AddPage zero 0 arr) (\<lambda>arr.
     bindR (alloc_Allocate zero t safe \<lparr>page_array = arr, alloc_count = 0, free_lists = (\<lambda>_. []), retired = []\<rparr>) (\<lambda>(_, s).
       Inr s)))"

section \<open>Asynchronous checkpoints and recoveries\<close>

text \<open>
  The three flags that a checkpoint (or a recovery) of the allocator and of the hash table use:
  \<open>pending_checkpoint_writes_\<close>, \<open>checkpoint_pending_\<close> and \<open>checkpoint_failed_\<close>.
\<close>

record async_io =
  pending_requests :: u64
  io_pending :: bool
  io_failed :: bool

definition no_io :: async_io where
  "no_io = \<lparr>pending_requests = 0, io_pending = False, io_failed = False\<rparr>"

text \<open>
  Issuing the requests with numbers \<open>0..<n\<close>: \<open>accepted\<close> tells for each whether \<open>WriteAsync\<close> or
  \<open>ReadAsync\<close> accepts it; the first refusal ends the call with an error. The result is the list of
  the accepted requests.
\<close>

fun issue :: "(nat \<Rightarrow> bool) \<Rightarrow> nat list \<Rightarrow> nat list \<times> status" where
  "issue accepted [] = ([], Ok)"
| "issue accepted (i # is) =
     (if accepted i then (let (js, st) = issue accepted is in (i # js, st)) else ([], IOError))"

definition start_io :: "(nat \<Rightarrow> bool) \<Rightarrow> u64 \<Rightarrow> async_io \<Rightarrow> c_error + async_io \<times> nat list \<times> status" where
  "start_io accepted n io =
     (if io_pending io \<or> pending_requests io \<noteq> 0 then Inl AssertFail
      else let (reqs, st) = issue accepted [0..<unat n]
           in Inr (\<lparr>pending_requests = n, io_pending = True, io_failed = False\<rparr>, reqs, st))"

text \<open>The callback of one request; \<open>close_ok\<close> is the outcome of closing the file.\<close>

definition io_callback :: "bool \<Rightarrow> bool \<Rightarrow> async_io \<Rightarrow> async_io" where
  "io_callback close_ok ok io =
     (let io1 = (if ok then io else io\<lparr>io_failed := True\<rparr>);
          io2 = io1\<lparr>pending_requests := pending_requests io1 - 1\<rparr>
      in if pending_requests io2 \<noteq> 0 then io2
         else (if close_ok then io2 else io2\<lparr>io_failed := True\<rparr>)\<lparr>io_pending := False\<rparr>)"

text \<open>
  \<open>CheckpointComplete\<close> and \<open>RecoverComplete\<close>, after the callbacks of \<open>TryComplete\<close> have run.
\<close>

definition io_complete :: "async_io \<Rightarrow> status" where
  "io_complete io = (if io_pending io then Pending else if io_failed io then IOError else Ok)"

text \<open>Pages that a count of items reaches into.\<close>

definition num_levels :: "u64 \<Rightarrow> u64" where
  "num_levels c = fp_page c + (if fp_offset c > 0 then 1 else 0)"

text \<open>
  \<open>MallocFixedPageSize::Checkpoint\<close>: each request writes the whole page at the given file offset;
  the last component is the size in bytes for items of \<open>item_size\<close> bytes.
\<close>

definition alloc_Checkpoint ::
  "u64 \<Rightarrow> (nat \<Rightarrow> bool) \<Rightarrow> 'a fixed_alloc \<Rightarrow> async_io \<Rightarrow> c_error + async_io \<times> (nat \<times> u64) list \<times> status \<times> u64" where
  "alloc_Checkpoint item_size accepted s io =
     (let write_size = ucast (ucast (fp_kPageSize * item_size) :: u32) :: u64 in
      bindR (start_io accepted (num_levels (alloc_count s)) io) (\<lambda>(io', reqs, st).
        Inr (io', map (\<lambda>i. (i, of_nat i * write_size)) reqs, st, if st = Ok then alloc_count s * item_size else 0)))"

text \<open>\<open>MallocFixedPageSize::Recover\<close>: reads the pages of the file into pages of the allocator.\<close>

fun add_pages :: "'a \<Rightarrow> nat list \<Rightarrow> 'a page_array \<Rightarrow> c_error + 'a page_array" where
  "add_pages zero [] arr = Inr arr"
| "add_pages zero (i # is) arr = bindR (array_GetOrAdd zero (of_nat i) arr) (add_pages zero is)"

definition alloc_Recover ::
  "'a \<Rightarrow> u64 \<Rightarrow> (nat \<Rightarrow> bool) \<Rightarrow> u64 \<Rightarrow> u64 \<Rightarrow> 'a fixed_alloc \<Rightarrow> async_io \<Rightarrow>
   c_error + 'a fixed_alloc \<times> async_io \<times> (nat \<times> u64) list \<times> status" where
  "alloc_Recover zero item_size accepted file_size cnt s io =
     (if file_size mod item_size \<noteq> 0 then Inl AssertFail
      else let file_end = file_size div item_size; file_levels = num_levels file_end; levels = num_levels cnt in
        if file_levels = 0 then Inl AssertFail
        else bindR (fp_ge cnt file_end) (\<lambda>ge.
          if \<not> ge \<or> levels = 0 then Inl AssertFail
          else bindR (if length (page_array s) < unat levels
                      then bindR (next_power_of_two levels) (\<lambda>n. ExpandArray n s) else Inr s) (\<lambda>s1.
            let s2 = s1\<lparr>alloc_count := cnt\<rparr> in
            bindR (start_io accepted file_levels io) (\<lambda>(io', reqs, st).
            bindR (add_pages zero [0..<min (unat file_levels) (length reqs + 1)] (page_array s2)) (\<lambda>arr.
              Inr (s2\<lparr>page_array := arr\<rparr>, io', map (\<lambda>i. (i, of_nat i * (fp_kPageSize * item_size))) reqs, st))))))"

end
