(* ===== verification/FasterIndex.thy ===== *)
theory FasterIndex
  imports FixedPages CheckpointControl
begin

text \<open>
  The hash index of FASTER: the table of buckets (\<open>core/hash_table.h\<close>) and the operations of
  \<open>api/faster.h\<close> on bucket chains: searching a tag, creating an entry, removing entries of truncated
  records.

  A pointer to a bucket is a \<open>bucket_ref\<close>: a bucket of the table or an overflow bucket; a pointer to
  an entry adds the index of the entry. Each call runs without interference of other threads, so a
  compare-and-exchange on an entry just read succeeds, and a loop that would only end through the
  action of another thread is \<open>Spins\<close>.
\<close>

section \<open>The hash table\<close>

definition kNumMergeChunks :: u32 where "kNumMergeChunks = 256"

text \<open>\<open>size_\<close> is the length of \<open>buckets\<close>; \<open>ckpt_io\<close> and \<open>rec_io\<close> are the flags of a checkpoint and of a recovery.\<close>

record hash_table =
  buckets :: "hash_bucket list"
  ckpt_io :: async_io
  rec_io :: async_io

definition io_idle :: "async_io \<Rightarrow> bool" where
  "io_idle io \<longleftrightarrow> pending_requests io = 0 \<and> \<not> io_pending io \<and> \<not> io_failed io"

definition table_Initialize :: "u64 \<Rightarrow> u64 \<Rightarrow> hash_table \<Rightarrow> c_error + hash_table" where
  "table_Initialize new_size alignment t =
     (if new_size < 2147483647 \<and> IsPowerOfTwo new_size \<and> IsPowerOfTwo alignment \<and> alignment \<ge> 64
         \<and> io_idle (ckpt_io t) \<and> io_idle (rec_io t)
      then Inr (t\<lparr>buckets := replicate (unat new_size) empty_bucket\<rparr>) else Inl AssertFail)"

definition table_Uninitialize :: "hash_table \<Rightarrow> c_error + hash_table" where
  "table_Uninitialize t =
     (if io_idle (ckpt_io t) \<and> io_idle (rec_io t) then Inr (t\<lparr>buckets := []\<rparr>) else Inl AssertFail)"

definition table_size_of :: "hash_table \<Rightarrow> u64" where
  "table_size_of t = of_nat (length (buckets t))"

text \<open>The index of the bucket of a hash; \<open>bucket(idx)\<close> asserts that the index is in range.\<close>

definition bucket_of_hash :: "u64 \<Rightarrow> hash_table \<Rightarrow> c_error + u64" where
  "bucket_of_hash h t = hash_idx h (table_size_of t)"

text \<open>
  \<open>Checkpoint\<close>: the accepted requests (first bucket, file offset, bytes), all computed in 32 bits,
  the status and the size of the checkpoint.
\<close>

definition table_Checkpoint ::
  "u32 \<Rightarrow> (nat \<Rightarrow> bool) \<Rightarrow> hash_table \<Rightarrow> c_error + hash_table \<times> (u32 \<times> u32 \<times> u32) list \<times> status \<times> u64" where
  "table_Checkpoint alignment accepted t =
     (let sz = table_size_of t;
          chunk_size = ucast (sz div ucast kNumMergeChunks) :: u32;
          write_size = ucast (ucast chunk_size * 64 :: u64) :: u32
      in if sz mod ucast kNumMergeChunks \<noteq> 0 \<or> write_size mod alignment \<noteq> 0 then Inl AssertFail
         else bindR (start_io accepted (ucast kNumMergeChunks) (ckpt_io t)) (\<lambda>(io, reqs, st).
           Inr (t\<lparr>ckpt_io := io\<rparr>,
                map (\<lambda>i. (of_nat i * chunk_size, of_nat i * write_size, write_size)) reqs, st,
                if st = Ok then sz * 64 else 0)))"

text \<open>\<open>Recover\<close>: the accepted requests (file offset, first bucket, bytes).\<close>

definition table_Recover ::
  "u32 \<Rightarrow> (nat \<Rightarrow> bool) \<Rightarrow> u64 \<Rightarrow> hash_table \<Rightarrow> c_error + hash_table \<times> (u32 \<times> u32 \<times> u32) list \<times> status" where
  "table_Recover alignment accepted checkpoint_size t =
     (let read_size = ucast (checkpoint_size div ucast kNumMergeChunks) :: u32;
          chunk_size = ucast (ucast read_size div 64 :: u64) :: u32
      in if \<not> 0 < checkpoint_size \<or> checkpoint_size mod 64 \<noteq> 0 \<or> checkpoint_size mod ucast kNumMergeChunks \<noteq> 0
            \<or> read_size mod alignment \<noteq> 0 then Inl AssertFail
         else bindR (table_Initialize (checkpoint_size div 64) (ucast alignment) (t\<lparr>rec_io := (rec_io t)\<lparr>io_failed := False\<rparr>\<rparr>)) (\<lambda>t1.
           bindR (start_io accepted (ucast kNumMergeChunks) (rec_io t1)) (\<lambda>(io, reqs, st).
             Inr (t1\<lparr>rec_io := io\<rparr>, map (\<lambda>i. (of_nat i * read_size, of_nat i * chunk_size, read_size)) reqs, st))))"

section \<open>The index\<close>

text \<open>\<open>hash_version\<close> is \<open>resize_info_.version\<close>; the two tables and allocators are indexed by it.\<close>

record index =
  index_version :: u8
  state :: "u8 \<Rightarrow> hash_table"
  overflow_buckets :: "u8 \<Rightarrow> hash_bucket fixed_alloc"

datatype bucket_ref = InTable u64 | InOverflow u64

type_synonym slot = "bucket_ref \<times> nat"

definition get_bucket :: "u8 \<Rightarrow> bucket_ref \<Rightarrow> index \<Rightarrow> c_error + hash_bucket" where
  "get_bucket v r x = (case r of
       InTable i \<Rightarrow> if unat i < length (buckets (state x v)) then Inr (buckets (state x v) ! unat i) else Inl AssertFail
     | InOverflow a \<Rightarrow> alloc_Get a (overflow_buckets x v))"

definition put_bucket :: "u8 \<Rightarrow> bucket_ref \<Rightarrow> hash_bucket \<Rightarrow> index \<Rightarrow> c_error + index" where
  "put_bucket v r b x = (case r of
       InTable i \<Rightarrow> if unat i < length (buckets (state x v))
         then Inr (x\<lparr>state := (state x)(v := (state x v)\<lparr>buckets := (buckets (state x v))[unat i := b]\<rparr>)\<rparr>)
         else Inl AssertFail
     | InOverflow a \<Rightarrow> bindR (alloc_put a b (overflow_buckets x v)) (\<lambda>o'.
         Inr (x\<lparr>overflow_buckets := (overflow_buckets x)(v := o')\<rparr>)))"

definition load_entry :: "u8 \<Rightarrow> slot \<Rightarrow> index \<Rightarrow> c_error + bucket_entry" where
  "load_entry v s x = bindR (get_bucket v (fst s) x) (\<lambda>b. nthR (entries b) (snd s))"

definition store_entry :: "u8 \<Rightarrow> slot \<Rightarrow> bucket_entry \<Rightarrow> index \<Rightarrow> c_error + index" where
  "store_entry v s e x = bindR (get_bucket v (fst s) x) (\<lambda>b.
     if snd s < length (entries b) then put_bucket v (fst s) (b\<lparr>entries := (entries b)[snd s := e]\<rparr>) x else Inl UB)"

text \<open>\<open>AtomicHashBucketEntry::compare_exchange_strong\<close>: success, \<open>expected\<close> afterwards, index.\<close>

definition cas_entry :: "u8 \<Rightarrow> slot \<Rightarrow> bucket_entry \<Rightarrow> bucket_entry \<Rightarrow> index \<Rightarrow> c_error + bool \<times> bucket_entry \<times> index" where
  "cas_entry v s expected desired x =
     bindR (load_entry v s x) (\<lambda>cell.
       let (ok, expected', cell') = compare_exchange_strong cell expected desired
       in if ok then bindR (store_entry v s cell' x) (\<lambda>x'. Inr (ok, expected', x')) else Inr (ok, expected', x))"

text \<open>
  Allocating an overflow bucket and linking it behind bucket \<open>r\<close>. \<open>t\<close> is the calling thread and \<open>safe\<close>
  the epoch that is safe to reclaim.
\<close>

definition new_bucket :: "nat \<Rightarrow> u64 \<Rightarrow> u8 \<Rightarrow> index \<Rightarrow> c_error + bucket_ref \<times> index" where
  "new_bucket t safe v x =
     bindR (alloc_Allocate empty_bucket t safe (overflow_buckets x v)) (\<lambda>(a, o').
       Inr (InOverflow a, x\<lparr>overflow_buckets := (overflow_buckets x)(v := o')\<rparr>))"

definition overflow_to :: "bucket_ref \<Rightarrow> overflow_entry" where
  "overflow_to r = (case r of InOverflow a \<Rightarrow> HashBucketOverflowEntry a | InTable _ \<Rightarrow> 0)"

definition link_bucket :: "nat \<Rightarrow> u64 \<Rightarrow> u8 \<Rightarrow> bucket_ref \<Rightarrow> index \<Rightarrow> c_error + bucket_ref \<times> index" where
  "link_bucket t safe v r x =
     bindR (new_bucket t safe v x) (\<lambda>(d, x1).
     bindR (get_bucket v r x1) (\<lambda>b.
     bindR (put_bucket v r (b\<lparr>overflow_entry := overflow_to d\<rparr>) x1) (\<lambda>x2.
     bindR (get_bucket v d x2) (\<lambda>_. Inr (d, x2)))))"

section \<open>Walking a chain\<close>

text \<open>
  The loops over a bucket chain share one shape: \<open>body\<close> looks at a bucket and returns or goes on with
  a new accumulator. \<open>seen\<close> lists the overflow buckets visited: as the index does not change, coming
  back to one of them means that the loop never ends.
\<close>

function walk_chain ::
  "u8 \<Rightarrow> ('acc \<Rightarrow> bucket_ref \<Rightarrow> hash_bucket \<Rightarrow> 'res + 'acc) \<Rightarrow> index \<Rightarrow> u64 list \<Rightarrow> bucket_ref \<Rightarrow> 'acc \<Rightarrow>
   c_error + ('res + 'acc \<times> bucket_ref)" where
  "walk_chain v body x seen r acc =
     (case get_bucket v r x of Inl e \<Rightarrow> Inl e
      | Inr b \<Rightarrow> (case body acc r b of Inl res \<Rightarrow> Inr (Inl res)
        | Inr acc' \<Rightarrow>
            let entry = overflow_entry b; a = overflow_address entry in
            if overflow_unused entry then Inr (Inr (acc', r))
            else if a \<in> set seen then Inl Spins
            else walk_chain v body x (a # seen) (InOverflow a) acc'))"
  by pat_completeness auto
termination
proof (relation "measure (\<lambda>(v, body, x, seen, r, acc). card (- set seen))")
  fix seen :: "u64 list" and a :: u64
  assume "a \<notin> set seen"
  then have "- set (a # seen) \<subset> - set seen" by auto
  then have "card (- set (a # seen)) < card (- set seen)" by (intro psubset_card_mono) auto
  then show "((v, body, x, a # seen, InOverflow a, acc'), v, body, x, seen, r, acc)
      \<in> measure (\<lambda>(v, body, x, seen, r, acc). card (- set seen))" for v body x acc' r acc
    by simp
qed simp

declare walk_chain.simps [simp del]

text \<open>The first entry of a bucket that satisfies \<open>P\<close>.\<close>

fun scan_entries :: "(bucket_entry \<Rightarrow> bool) \<Rightarrow> nat \<Rightarrow> bucket_entry list \<Rightarrow> nat option" where
  "scan_entries P i [] = None"
| "scan_entries P i (e # es) = (if P e then Some i else scan_entries P (i + 1) es)"

definition matches :: "u16 \<Rightarrow> bucket_entry \<Rightarrow> bool" where
  "matches tag e \<longleftrightarrow> \<not> entry_unused e \<and> entry_tag e = tag \<and> \<not> entry_tentative e"

definition FindEntry :: "u64 \<Rightarrow> index \<Rightarrow> c_error + slot option" where
  "FindEntry h x =
     (let v = index_version x in
      bindR (bucket_of_hash h (state x v)) (\<lambda>i.
      bindR (walk_chain v (\<lambda>_ r b. case scan_entries (matches (hash_tag h)) 0 (entries b) of
                Some k \<Rightarrow> Inl (r, k) | None \<Rightarrow> Inr ()) x [] (InTable i) ()) (\<lambda>res.
        Inr (case res of Inl s \<Rightarrow> Some s | Inr _ \<Rightarrow> None))))"

text \<open>
  \<open>FindTentativeEntry\<close> scans a bucket for the tag and remembers the first free slot of the chain.
\<close>

fun scan_tentative :: "u16 \<Rightarrow> bucket_ref \<Rightarrow> nat \<Rightarrow> bucket_entry list \<Rightarrow> slot option \<Rightarrow> (slot \<times> bucket_entry) + slot option" where
  "scan_tentative tag r i [] free = Inr free"
| "scan_tentative tag r i (e # es) free =
     (if entry_unused e then scan_tentative tag r (i + 1) es (case free of None \<Rightarrow> Some (r, i) | Some s \<Rightarrow> Some s)
      else if entry_tag e = tag \<and> \<not> entry_tentative e then Inl ((r, i), e)
      else scan_tentative tag r (i + 1) es free)"

text \<open>
  The result is the slot, the entry found there (\<open>kInvalidEntry\<close> for a free slot) and the index.
\<close>

definition FindTentativeEntry ::
  "nat \<Rightarrow> u64 \<Rightarrow> u64 \<Rightarrow> u64 \<Rightarrow> u8 \<Rightarrow> index \<Rightarrow> c_error + slot \<times> bucket_entry \<times> index" where
  "FindTentativeEntry t safe h i v x =
     bindR (walk_chain v (\<lambda>free r b. scan_tentative (hash_tag h) r 0 (entries b) free) x [] (InTable i) None) (\<lambda>res.
       case res of Inl (s, e) \<Rightarrow> Inr (s, e, x)
       | Inr (Some s, _) \<Rightarrow> Inr (s, kInvalidEntry, x)
       | Inr (None, r) \<Rightarrow> bindR (link_bucket t safe v r x) (\<lambda>(d, x2). Inr ((d, 0), kInvalidEntry, x2)))"

definition HasConflictingEntry :: "slot \<Rightarrow> u64 \<Rightarrow> u8 \<Rightarrow> index \<Rightarrow> c_error + bool" where
  "HasConflictingEntry s i v x =
     bindR (load_entry v s x) (\<lambda>own.
     bindR (walk_chain v (\<lambda>_ r b.
         if \<exists>k < length (entries b). entries b ! k \<noteq> kInvalidEntry \<and> entry_tag (entries b ! k) = entry_tag own \<and> s \<noteq> (r, k)
         then Inl () else Inr ()) x [] (InTable i) ()) (\<lambda>res.
       Inr (case res of Inl _ \<Rightarrow> True | Inr _ \<Rightarrow> False)))"

text \<open>
  \<open>FindOrCreateEntry\<close>: the slot, the entry in it and the index. After a conflict or a failed
  exchange the loop starts again in the same situation.
\<close>

definition FindOrCreateEntry :: "nat \<Rightarrow> u64 \<Rightarrow> u64 \<Rightarrow> index \<Rightarrow> c_error + slot \<times> bucket_entry \<times> index" where
  "FindOrCreateEntry t safe h x =
     (let v = index_version x in
      if \<not> v \<le> 1 then Inl AssertFail
      else bindR (bucket_of_hash h (state x v)) (\<lambda>i.
        bindR (FindTentativeEntry t safe h i v x) (\<lambda>(s, expected, x1).
          if expected \<noteq> kInvalidEntry then Inr (s, expected, x1)
          else bindR (cas_entry v s expected (HashBucketEntry kInvalidAddress (hash_tag h) True) x1) (\<lambda>(ok, _, x2).
            if \<not> ok then Inl Spins
            else bindR (HasConflictingEntry s i v x2) (\<lambda>conflict.
              if conflict then Inl Spins
              else let e = HashBucketEntry kInvalidAddress (hash_tag h) False in
                bindR (store_entry v s e x2) (\<lambda>x3. Inr (s, e, x3)))))))"

section \<open>Removing the entries of truncated records\<close>

definition clean_entry :: "address \<Rightarrow> bucket_entry \<Rightarrow> c_error + bucket_entry" where
  "clean_entry lim e =
     (if \<not> entry_unused e \<and> entry_address e \<noteq> kInvalidAddress
      then bindR (address_less (entry_address e) lim) (\<lambda>old. Inr (if old then kInvalidEntry else e)) else Inr e)"

fun clean_entries :: "address \<Rightarrow> bucket_entry list \<Rightarrow> c_error + bucket_entry list" where
  "clean_entries lim [] = Inr []"
| "clean_entries lim (e # es) = bindR (clean_entry lim e) (\<lambda>e'. bindR (clean_entries lim es) (\<lambda>es'. Inr (e' # es')))"

text \<open>The chain of one bucket; cleaning leaves the links alone, so \<open>seen\<close> detects an endless loop.\<close>

function clean_chain :: "u8 \<Rightarrow> address \<Rightarrow> u64 list \<Rightarrow> bucket_ref \<Rightarrow> index \<Rightarrow> c_error + index" where
  "clean_chain v lim seen r x =
     (case get_bucket v r x of Inl e \<Rightarrow> Inl e
      | Inr b \<Rightarrow> (case clean_entries lim (entries b) of Inl e \<Rightarrow> Inl e
        | Inr es \<Rightarrow> (case put_bucket v r (b\<lparr>entries := es\<rparr>) x of Inl e \<Rightarrow> Inl e
          | Inr x1 \<Rightarrow>
              let entry = overflow_entry b; a = overflow_address entry in
              if overflow_unused entry then Inr x1
              else if a \<in> set seen then Inl Spins
              else clean_chain v lim (a # seen) (InOverflow a) x1)))"
  by pat_completeness auto
termination
proof (relation "measure (\<lambda>(v, lim, seen, r, x). card (- set seen))")
  fix seen :: "u64 list" and a :: u64
  assume "a \<notin> set seen"
  then have "- set (a # seen) \<subset> - set seen" by auto
  then have "card (- set (a # seen)) < card (- set seen)" by (intro psubset_card_mono) auto
  then show "((v, lim, a # seen, InOverflow a, x1), v, lim, seen, r, x)
      \<in> measure (\<lambda>(v, lim, seen, r, x). card (- set seen))" for v lim x1 r x
    by simp
qed simp

declare clean_chain.simps [simp del]

fun clean_buckets :: "u8 \<Rightarrow> address \<Rightarrow> u64 \<Rightarrow> nat list \<Rightarrow> index \<Rightarrow> c_error + index" where
  "clean_buckets v lim base [] x = Inr x"
| "clean_buckets v lim base (i # is) x =
     bindR (clean_chain v lim [] (InTable (base + of_nat i)) x) (clean_buckets v lim base is)"

definition CleanHashTableBuckets ::
  "address \<Rightarrow> grow_state \<Rightarrow> gc_state \<Rightarrow> index \<Rightarrow> c_error + bool \<times> gc_state \<times> index" where
  "CleanHashTableBuckets lim gs gcs x =
     (let chunk = gc_next_chunk gcs; gcs' = gcs\<lparr>gc_next_chunk := chunk + 1\<rparr>; v = index_version x in
      if chunk \<ge> gc_num_chunks gcs then Inr (False, gcs', x)
      else let upper_bound = (if chunk + 1 < num_chunks gs then kGrowHashTableChunkSize
                              else table_size_of (state x v) - chunk * kGcHashTableChunkSize)
        in bindR (clean_buckets v lim (chunk * kGcHashTableChunkSize) [0..<unat upper_bound] x) (\<lambda>x'.
             Inr (True, gcs', x')))"

section \<open>Growing\<close>

text \<open>\<open>AddHashEntry\<close>: the bucket and the next free entry of it, and the index.\<close>

definition AddHashEntry ::
  "nat \<Rightarrow> u64 \<Rightarrow> u8 \<Rightarrow> bucket_entry \<Rightarrow> bucket_ref \<times> nat \<Rightarrow> index \<Rightarrow> c_error + (bucket_ref \<times> nat) \<times> index" where
  "AddHashEntry t safe v e p x =
     (let (r, next_idx) = p in
      bindR (if next_idx = kNumEntries
             then bindR (link_bucket t safe v r x) (\<lambda>(d, x2). Inr ((d, 0), x2))
             else Inr (p, x)) (\<lambda>((r, next_idx), x).
        bindR (store_entry v (r, next_idx) e x) (\<lambda>x'. Inr ((r, next_idx + 1), x'))))"

section \<open>Distribution\<close>

text \<open>\<open>DumpDistribution\<close>: the number of entries of each bucket's chain, their total, and the histogram.\<close>

definition chain_count :: "u8 \<Rightarrow> index \<Rightarrow> u64 \<Rightarrow> c_error + nat" where
  "chain_count v x i =
     bindR (walk_chain v (\<lambda>n r b. Inr (n + length (filter (\<lambda>e. \<not> entry_unused e) (entries b)))) x [] (InTable i) 0) (\<lambda>res.
       case res of Inl () \<Rightarrow> Inl UB | Inr (n, _) \<Rightarrow> Inr n)"

fun count_chains :: "u8 \<Rightarrow> index \<Rightarrow> nat list \<Rightarrow> nat \<times> nat list \<Rightarrow> c_error + nat \<times> nat list" where
  "count_chains v x [] acc = Inr acc"
| "count_chains v x (i # is) (tot, hist) =
     bindR (chain_count v x (of_nat i)) (\<lambda>n.
       let k = (if n < 15 then n else 15) in count_chains v x is (tot + n, hist[k := hist ! k + 1]))"

definition DumpDistribution :: "u8 \<Rightarrow> index \<Rightarrow> c_error + nat \<times> nat list" where
  "DumpDistribution v x = count_chains v x [0..<length (buckets (state x v))] (0, replicate 16 0)"

end
