(* ===== verification/HybridLog.thy ===== *)
theory HybridLog
  imports FasterWords
begin

text \<open>
  The hybrid log of FASTER (\<open>io/persistent_memory_malloc.h\<close>), the allocator of the records: a
  circular buffer of pages of \<open>2^25\<close> bytes. A frame of the buffer holds what is stored at the
  offsets of its page (\<open>pages\<close>; \<open>None\<close> is a null page pointer), so clearing a page forgets it.

  Triggers registered with \<open>BumpCurrentEpoch\<close> are returned as a list of \<open>log_action\<close>s, writes
  issued with \<open>WriteAsync\<close> as a list of (page, until address); both are carried out by separate
  events, in any order. An event is one whole call; what a call does between two atomic operations
  of other threads is not split further.
\<close>

section \<open>Page status\<close>

datatype FlushStatus = Flushed | InProgress
datatype CloseStatus = Closed | Open

record FlushCloseStatus =
  flush :: FlushStatus
  close :: CloseStatus

definition Ready :: "FlushCloseStatus \<Rightarrow> bool" where
  "Ready s \<longleftrightarrow> flush s = Flushed \<and> close s = Open"

record FullPageStatus =
  LastFlushedUntilAddress :: address
  status :: FlushCloseStatus

definition initial_status :: FullPageStatus where
  "initial_status = \<lparr>LastFlushedUntilAddress = 0, status = \<lparr>flush = Flushed, close = Closed\<rparr>\<rparr>"

section \<open>The tail\<close>

definition page_offset_layout :: "nat list" where "page_offset_layout = [41, 23]"

definition PageOffset :: "u32 \<Rightarrow> u64 \<Rightarrow> c_error + u64" where
  "PageOffset p off =
     (if p \<le> kMaxPage then Inr (pack page_offset_layout [off, ucast p]) else Inl AssertFail)"

definition po_offset :: "u64 \<Rightarrow> u64" where
  "po_offset c = field page_offset_layout 0 c"

definition po_page :: "u64 \<Rightarrow> u32" where
  "po_page c = ucast (field page_offset_layout 1 c)"

definition po_address :: "u64 \<Rightarrow> c_error + address" where
  "po_address c =
     (if po_offset c \<le> ucast kMaxOffset then Inr (Address_of (po_page c) (ucast (po_offset c))) else Inl AssertFail)"

text \<open>\<open>Reserve\<close> returns the old tail and the new one.\<close>

definition Reserve :: "u32 \<Rightarrow> u64 \<Rightarrow> c_error + u64 \<times> u64" where
  "Reserve num_slots tail =
     (if num_slots \<le> kMaxOffset
      then bindR (PageOffset 0 (ucast num_slots)) (\<lambda>po. Inr (tail, tail + po)) else Inl AssertFail)"

text \<open>\<open>AtomicPageOffset::NewPage\<close>: (result, \<open>won_cas\<close>, new tail).\<close>

definition tail_NewPage :: "u32 \<Rightarrow> u64 \<Rightarrow> c_error + bool \<times> bool \<times> u64" where
  "tail_NewPage old_page tail =
     (if \<not> old_page < kMaxPage then Inl AssertFail
      else if old_page \<noteq> po_page tail
      then if old_page < po_page tail then Inr (True, False, tail) else Inl AssertFail
      else bindR (PageOffset (old_page + 1) 0) (\<lambda>new_page.
        let (won, expected, tail') = compare_exchange_strong tail tail new_page
        in Inr (po_page expected > old_page, won, tail')))"

section \<open>The log\<close>

text \<open>\<open>kPageSize\<close> is \<open>kMaxOffset + 1\<close>.\<close>

definition kPageSize :: u64 where "kPageSize = 0x2000000"
definition kNumHeadPages :: u32 where "kNumHeadPages = 4"

record 'r hlog =
  sector_size :: u32
  read_only_address :: address
  safe_read_only_address :: address
  head_address :: address
  safe_head_address :: address
  flushed_until_address :: address
  begin_address :: address
  buffer_size :: u32
  num_mutable_pages :: u32
  pages :: "(u32 \<rightharpoonup> 'r) option list"
  page_status :: "FullPageStatus list"
  tail_page_offset :: u64

datatype log_action = OnPagesClosed address | OnPagesMarkedReadOnly address

type_synonym flush_request = "u32 \<times> address"

definition frame :: "'r hlog \<Rightarrow> u32 \<Rightarrow> nat" where
  "frame h p = unat (p mod buffer_size h)"

definition Page :: "u32 \<Rightarrow> 'r hlog \<Rightarrow> c_error + (u32 \<rightharpoonup> 'r) option" where
  "Page p h = (if p \<le> kMaxPage then nthR (pages h) (frame h p) else Inl AssertFail)"

definition PageStatus :: "u32 \<Rightarrow> 'r hlog \<Rightarrow> c_error + FullPageStatus" where
  "PageStatus p h = (if p \<le> kMaxPage then nthR (page_status h) (frame h p) else Inl AssertFail)"

definition set_page :: "u32 \<Rightarrow> (u32 \<rightharpoonup> 'r) \<Rightarrow> 'r hlog \<Rightarrow> 'r hlog" where
  "set_page p m h = h\<lparr>pages := (pages h)[frame h p := Some m]\<rparr>"

definition set_status :: "u32 \<Rightarrow> FullPageStatus \<Rightarrow> 'r hlog \<Rightarrow> 'r hlog" where
  "set_status p s h = h\<lparr>page_status := (page_status h)[frame h p := s]\<rparr>"

text \<open>
  \<open>memset(Page(p), 0, kPageSize)\<close>; the null page is undefined behaviour.
\<close>

definition clear_page :: "u32 \<Rightarrow> 'r hlog \<Rightarrow> c_error + 'r hlog" where
  "clear_page p h = bindR (Page p h) (\<lambda>m. if m = None then Inl UB else Inr (set_page p Map.empty h))"

definition GetTailAddress :: "'r hlog \<Rightarrow> address" where
  "GetTailAddress h = Address_of (po_page (tail_page_offset h)) (min kMaxOffset (ucast (po_offset (tail_page_offset h))))"

text \<open>Reading and writing the record at an address: undefined on a null page.\<close>

definition Get :: "address \<Rightarrow> 'r hlog \<Rightarrow> c_error + 'r option" where
  "Get a h = bindR (Page (page a) h) (\<lambda>m. case m of None \<Rightarrow> Inl UB | Some f \<Rightarrow> Inr (f (offset a)))"

definition put_record :: "address \<Rightarrow> 'r \<Rightarrow> 'r hlog \<Rightarrow> c_error + 'r hlog" where
  "put_record a r h = bindR (Page (page a) h) (\<lambda>m.
     case m of None \<Rightarrow> Inl UB | Some f \<Rightarrow> Inr (set_page (page a) (f(offset a \<mapsto> r)) h))"

definition AllocatePage :: "u32 \<Rightarrow> 'r hlog \<Rightarrow> c_error + 'r hlog" where
  "AllocatePage index h =
     bindR (nthR (pages h) (frame h index)) (\<lambda>m.
     bindR (nthR (page_status h) (frame h index)) (\<lambda>s.
       if m \<noteq> None then Inl AssertFail
       else Inr (set_status index (s\<lparr>status := \<lparr>flush = Flushed, close = Open\<rparr>\<rparr>) (set_page index Map.empty h))))"

text \<open>\<open>Allocate\<close>: (address, \<open>closed_page\<close>, log).\<close>

definition Allocate :: "u32 \<Rightarrow> 'r hlog \<Rightarrow> c_error + address \<times> u32 \<times> 'r hlog" where
  "Allocate num_slots h =
     bindR (Reserve num_slots (tail_page_offset h)) (\<lambda>(po, tail).
       let h1 = h\<lparr>tail_page_offset := tail\<rparr>
       in if po_offset po + ucast num_slots > kPageSize then Inr (kInvalidAddress, po_page po, h1)
          else bindR (Page (po_page po) h1) (\<lambda>m.
            if m = None then Inl AssertFail
            else bindR (po_address po) (\<lambda>a. Inr (a, 0xFFFFFFFF, h1))))"

text \<open>\<open>MonotonicUpdate\<close>: (updated, old value, new value of the variable).\<close>

definition MonotonicUpdate :: "address \<Rightarrow> address \<Rightarrow> c_error + bool \<times> address \<times> address" where
  "MonotonicUpdate variable new_value =
     bindR (address_less variable new_value) (\<lambda>lt.
       Inr (if lt then (True, variable, new_value) else (False, variable, variable)))"

definition PageAlignedShiftReadOnlyAddress :: "u32 \<Rightarrow> 'r hlog \<Rightarrow> c_error + 'r hlog \<times> log_action list" where
  "PageAlignedShiftReadOnlyAddress tail_page h =
     (if tail_page \<le> num_mutable_pages h then Inr (h, [])
      else let desired = Address_of (tail_page - num_mutable_pages h) 0 in
        bindR (MonotonicUpdate (read_only_address h) desired) (\<lambda>(updated, _, a).
          Inr (h\<lparr>read_only_address := a\<rparr>, if updated then [OnPagesMarkedReadOnly desired] else [])))"

definition PageAlignedShiftHeadAddress :: "u32 \<Rightarrow> 'r hlog \<Rightarrow> c_error + 'r hlog \<times> log_action list" where
  "PageAlignedShiftHeadAddress tail_page h =
     (if tail_page \<le> buffer_size h - kNumHeadPages then Inr (h, [])
      else let desired = Address_of (tail_page - (buffer_size h - kNumHeadPages)) 0 in
        bindR (address_less (flushed_until_address h) desired) (\<lambda>lt.
          let desired = (if lt then Address_of (page (flushed_until_address h)) 0 else desired) in
          bindR (MonotonicUpdate (head_address h) desired) (\<lambda>(updated, _, a).
            Inr (h\<lparr>head_address := a\<rparr>, if updated then [OnPagesClosed desired] else []))))"

definition shift_addresses :: "u32 \<Rightarrow> 'r hlog \<Rightarrow> c_error + 'r hlog \<times> log_action list" where
  "shift_addresses tail_page h =
     bindR (PageAlignedShiftReadOnlyAddress tail_page h) (\<lambda>(h1, acts1).
     bindR (PageAlignedShiftHeadAddress tail_page h1) (\<lambda>(h2, acts2). Inr (h2, acts1 @ acts2)))"

text \<open>
  \<open>NewPage\<close>: (result, log, triggers). \<open>disk->TryComplete()\<close> runs completions of writes, which are
  events of their own.
\<close>

definition NewPage :: "u32 \<Rightarrow> 'r hlog \<Rightarrow> c_error + bool \<times> 'r hlog \<times> log_action list" where
  "NewPage old_page h =
     (if \<not> old_page < kMaxPage then Inl AssertFail
      else if old_page + 2 \<ge> page (safe_head_address h) + buffer_size h
      then bindR (shift_addresses (old_page + 1) h) (\<lambda>(h1, acts). Inr (False, h1, acts))
      else bindR (PageStatus (old_page + 1) h) (\<lambda>s.
        if \<not> Ready (status s)
        then bindR (shift_addresses (old_page + 1) h) (\<lambda>(h1, acts). Inr (False, h1, acts))
        else bindR (tail_NewPage old_page (tail_page_offset h)) (\<lambda>(retval, won_cas, tail).
          let h1 = h\<lparr>tail_page_offset := tail\<rparr>
          in if \<not> won_cas then Inr (retval, h1, [])
             else bindR (shift_addresses (old_page + 1) h1) (\<lambda>(h2, acts).
               bindR (Page (old_page + 2) h2) (\<lambda>m.
                 if m = None then bindR (AllocatePage (old_page + 2) h2) (\<lambda>h3. Inr (retval, h3, acts))
                 else Inr (retval, h2, acts))))))"

definition ShiftReadOnlyToTail :: "'r hlog \<Rightarrow> c_error + address \<times> 'r hlog \<times> log_action list" where
  "ShiftReadOnlyToTail h =
     (let tail_address = GetTailAddress h in
      bindR (MonotonicUpdate (read_only_address h) tail_address) (\<lambda>(updated, _, a).
        Inr (tail_address, h\<lparr>read_only_address := a\<rparr>, if updated then [OnPagesMarkedReadOnly tail_address] else [])))"

section \<open>Triggers and completions\<close>

text \<open>
  One page of \<open>OnPagesClosed\<close>. The compare-exchange loop ends with the status it read.
\<close>

definition close_page :: "u32 \<Rightarrow> 'r hlog \<Rightarrow> c_error + 'r hlog" where
  "close_page idx h =
     bindR (PageStatus idx h) (\<lambda>s.
       let h1 = set_status idx (s\<lparr>status := (status s)\<lparr>close := Closed\<rparr>\<rparr>) h
       in if flush (status s) = Flushed
          then bindR (clear_page idx h1) (\<lambda>h2.
            Inr (set_status idx (s\<lparr>status := \<lparr>flush = Flushed, close = Open\<rparr>\<rparr>) h2))
          else Inr h1)"

fun fold_pages :: "(u32 \<Rightarrow> 'h \<Rightarrow> c_error + 'h) \<Rightarrow> nat list \<Rightarrow> 'h \<Rightarrow> c_error + 'h" where
  "fold_pages f [] h = Inr h"
| "fold_pages f (i # is) h = bindR (f (of_nat i) h) (fold_pages f is)"

definition run_OnPagesClosed :: "address \<Rightarrow> 'r hlog \<Rightarrow> c_error + 'r hlog" where
  "run_OnPagesClosed new_safe_head_address h =
     bindR (MonotonicUpdate (safe_head_address h) new_safe_head_address) (\<lambda>(updated, old, a).
       let h1 = h\<lparr>safe_head_address := a\<rparr>
       in if updated then fold_pages close_page [unat (page old)..<unat (page new_safe_head_address)] h1
          else Inr h1)"

text \<open>
  One page of \<open>AsyncFlushPages\<close>; \<open>write_ok\<close> tells whether \<open>WriteAsync\<close> accepts the write of a page.
\<close>

definition start_flush :: "u32 \<Rightarrow> 'r hlog \<Rightarrow> c_error + 'r hlog" where
  "start_flush flush_page h =
     bindR (PageStatus flush_page h) (\<lambda>s.
       Inr (set_status flush_page \<lparr>LastFlushedUntilAddress = 0, status = (status s)\<lparr>flush := InProgress\<rparr>\<rparr> h))"

fun flush_pages :: "(u32 \<Rightarrow> bool) \<Rightarrow> address \<Rightarrow> nat list \<Rightarrow> 'r hlog \<Rightarrow> c_error + 'r hlog \<times> flush_request list" where
  "flush_pages write_ok until [] h = Inr (h, [])"
| "flush_pages write_ok until (i # is) h =
     (let p = of_nat i in
      bindR (address_min (Address_of (p + 1) 0) until) (\<lambda>u.
      bindR (start_flush p h) (\<lambda>h1.
        if \<not> write_ok p then Inr (h1, [])
        else bindR (flush_pages write_ok until is h1) (\<lambda>(h2, reqs). Inr (h2, (p, u) # reqs)))))"

definition AsyncFlushPages :: "(u32 \<Rightarrow> bool) \<Rightarrow> u32 \<Rightarrow> address \<Rightarrow> 'r hlog \<Rightarrow> c_error + 'r hlog \<times> flush_request list" where
  "AsyncFlushPages write_ok start_page until h =
     (let num_pages = page until - start_page + (if offset until > 0 then 1 else 0) in
      if num_pages > 0 then flush_pages write_ok until [unat start_page..<unat (start_page + num_pages)] h
      else Inl AssertFail)"

definition run_OnPagesMarkedReadOnly ::
  "(u32 \<Rightarrow> bool) \<Rightarrow> address \<Rightarrow> 'r hlog \<Rightarrow> c_error + 'r hlog \<times> flush_request list" where
  "run_OnPagesMarkedReadOnly write_ok new_address h =
     bindR (MonotonicUpdate (safe_read_only_address h) new_address) (\<lambda>(updated, old, a).
       let h1 = h\<lparr>safe_read_only_address := a\<rparr>
       in if updated then AsyncFlushPages write_ok (page old) new_address h1 else Inr (h1, []))"

lemma PageStatus_less: "PageStatus p h = Inr s \<Longrightarrow> unat p < unat (p + 1)"
proof -
  assume "PageStatus p h = Inr s"
  then have "p \<le> kMaxPage" by (simp add: PageStatus_def split: if_splits)
  then have "unat p \<le> 2 ^ 23 - 1" by (simp add: word_le_nat_alt kMaxPage_def)
  then show ?thesis using unat_add_lem [of p 1] by simp
qed

text \<open>
  The loop of \<open>ShiftFlushedUntilAddress\<close>: the address reached from page \<open>p\<close> and whether it was
  updated. It ends because \<open>PageStatus\<close> fails beyond the last page number.
\<close>

function flushed_loop :: "u32 \<Rightarrow> address \<Rightarrow> bool \<Rightarrow> 'r hlog \<Rightarrow> c_error + address \<times> bool" where
  "flushed_loop p current update h =
     (case PageStatus p h of Inl e \<Rightarrow> Inl e
      | Inr s \<Rightarrow> (case address_ge (LastFlushedUntilAddress s) current of Inl e \<Rightarrow> Inl e
        | Inr ge \<Rightarrow> if ge then flushed_loop (p + 1) (LastFlushedUntilAddress s) True h else Inr (current, update)))"
  by pat_completeness auto

termination
proof (relation "measure (\<lambda>(p, _). 2 ^ 32 - unat p)")
  fix p :: u32 and h :: "'r hlog" and s current update ge
  assume "PageStatus p h = Inr s"
  then have "unat p < unat (p + 1)" by (rule PageStatus_less)
  moreover have "unat (p + 1) < 2 ^ 32" using unsigned_less [of "p + 1"] by simp
  ultimately show "((p + 1, LastFlushedUntilAddress s, True, h), (p, current, update, h)) \<in> measure (\<lambda>(p, _). 2 ^ 32 - unat p)"
    by simp
qed simp

declare flushed_loop.simps [simp del]

definition ShiftFlushedUntilAddress :: "'r hlog \<Rightarrow> c_error + 'r hlog" where
  "ShiftFlushedUntilAddress h =
     (let current = flushed_until_address h in
      bindR (flushed_loop (page current) current False h) (\<lambda>(current, update).
        if update then bindR (MonotonicUpdate (flushed_until_address h) current) (\<lambda>(_, _, a).
          Inr (h\<lparr>flushed_until_address := a\<rparr>))
        else Inr h))"

text \<open>The callback of a write of \<open>AsyncFlushPages\<close>; a failed write is only reported on \<open>stderr\<close>.\<close>

definition flush_done :: "flush_request \<Rightarrow> 'r hlog \<Rightarrow> c_error + 'r hlog" where
  "flush_done req h =
     (let (p, until) = req in
      bindR (PageStatus p h) (\<lambda>s.
        let h1 = set_status p \<lparr>LastFlushedUntilAddress = until, status = (status s)\<lparr>flush := Flushed\<rparr>\<rparr> h in
        bindR (if close (status s) = Closed
               then bindR (clear_page p h1) (\<lambda>h2. Inr (set_status p
                 \<lparr>LastFlushedUntilAddress = until, status = \<lparr>flush = Flushed, close = Open\<rparr>\<rparr> h2))
               else Inr h1) ShiftFlushedUntilAddress))"

section \<open>Construction, reads and truncation\<close>

text \<open>
  The first constructor. The number of mutable pages is the product of the buffer size and a
  floating-point fraction, here an argument.
\<close>

definition new_hlog :: "u64 \<Rightarrow> u32 \<Rightarrow> address \<Rightarrow> u32 \<Rightarrow> c_error + 'r hlog" where
  "new_hlog log_size sector start mutable_pages =
     (let buffer = ucast (log_size div kPageSize) in
      if page start > kMaxPage then Inl AssertFail
      else if log_size mod kPageSize \<noteq> 0 then Inl Thrown
      else if log_size mod kPageSize > 0xFFFFFFFF then Inl Thrown
      else if buffer \<le> kNumHeadPages + 1 then Inl Thrown
      else if mutable_pages \<le> 1 then Inl Thrown
      else bindR (PageOffset (page start) (ucast (offset start))) (\<lambda>tail.
        let h = \<lparr>sector_size = sector, read_only_address = start, safe_read_only_address = start,
                 head_address = start, safe_head_address = start, flushed_until_address = start,
                 begin_address = start, buffer_size = buffer, num_mutable_pages = mutable_pages,
                 pages = replicate (unat buffer) None, page_status = replicate (unat buffer) initial_status,
                 tail_page_offset = tail\<rparr>
        in bindR (AllocatePage (po_page tail) h) (AllocatePage (po_page tail + 1))))"

text \<open>The second constructor starts at 0 and discards the first cache line of 64 bytes.\<close>

definition empty_hlog :: "u64 \<Rightarrow> u32 \<Rightarrow> u32 \<Rightarrow> c_error + 'r hlog" where
  "empty_hlog log_size sector mutable_pages =
     bindR (new_hlog log_size sector 0 mutable_pages) (\<lambda>h0.
     bindR (Allocate 64 h0) (\<lambda>(_, discard, h).
       if discard \<noteq> 0xFFFFFFFF then Inl AssertFail
       else bindR (po_address (tail_page_offset h)) (\<lambda>t.
         Inr (h\<lparr>begin_address := t, read_only_address := t, safe_read_only_address := t,
                head_address := t, safe_head_address := t\<rparr>))))"

text \<open>\<open>GetFileReadBoundaries\<close>: (\<open>begin_read\<close>, \<open>end_read\<close>, \<open>offset\<close>, \<open>length\<close>).\<close>

definition GetFileReadBoundaries :: "address \<Rightarrow> u32 \<Rightarrow> 'r hlog \<Rightarrow> c_error + u64 \<times> u64 \<times> u32 \<times> u32" where
  "GetFileReadBoundaries read_offset read_length h =
     (let sector = ucast (sector_size h) :: u64; mask = sector - 1;
          begin_read = read_offset AND NOT mask;
          end_read = (read_offset + ucast read_length + mask) AND NOT mask
      in if \<not> (0 < sector \<and> IsPowerOfTwo sector \<and> end_read - begin_read \<le> 0xFFFFFFFF) then Inl AssertFail
         else Inr (begin_read, end_read, ucast (read_offset AND mask), ucast (end_read - begin_read)))"

text \<open>The offset up to which \<open>Truncate\<close> cuts the file.\<close>

definition Truncate :: "'r hlog \<Rightarrow> c_error + u64" where
  "Truncate h =
     (let sector = ucast (sector_size h) :: u64
      in if 0 < sector \<and> IsPowerOfTwo sector then Inr (begin_address h AND NOT (sector - 1)) else Inl AssertFail)"

definition RecoveryReset :: "address \<Rightarrow> address \<Rightarrow> address \<Rightarrow> 'r hlog \<Rightarrow> c_error + 'r hlog" where
  "RecoveryReset begin head tail h =
     bindR (PageOffset (page tail) (ucast (offset tail))) (\<lambda>po.
       let h1 = h\<lparr>begin_address := begin, tail_page_offset := po, head_address := head, safe_head_address := head,
                  flushed_until_address := Address_of (page tail) 0, read_only_address := tail,
                  safe_read_only_address := tail\<rparr>;
           end_page = (if offset tail = 0 then page tail else page tail + 1);
           ensure = (\<lambda>p h. bindR (Page p h) (\<lambda>m. if m = None then AllocatePage p h else Inr h))
       in bindR (ensure end_page h1) (\<lambda>h2. bindR (ensure (end_page + 1) h2) (\<lambda>h3.
            Inr (h3\<lparr>page_status := map (\<lambda>s. s\<lparr>status := \<lparr>flush = Flushed, close = Open\<rparr>\<rparr>) (page_status h3)\<rparr>))))"

section \<open>Events\<close>

text \<open>
  \<open>waiting\<close> maps a thread whose last \<open>Allocate\<close> found the page full to that page: as in
  \<open>BlockAllocate\<close> such a thread calls \<open>NewPage\<close> until it returns true before it allocates again.
  \<open>blocks\<close> lists the blocks given out, the latest first. An event that is not enabled does nothing.
\<close>

record 'r log_sys =
  log :: "'r hlog"
  actions :: "log_action list"
  flushes :: "flush_request list"
  waiting :: "nat \<rightharpoonup> u32"
  blocks :: "(address \<times> u32) list"

datatype 'r log_event = EAllocate nat u32 | ENewPage nat | EToTail | EPerform nat "u32 \<Rightarrow> bool"
  | EFlushed nat | EWrite address 'r

definition remove_nth :: "nat \<Rightarrow> 'a list \<Rightarrow> 'a list" where
  "remove_nth i xs = take i xs @ drop (Suc i) xs"

definition do_allocate :: "nat \<Rightarrow> u32 \<Rightarrow> 'r log_sys \<Rightarrow> c_error + 'r log_sys" where
  "do_allocate t n s =
     (if t < 96 \<and> waiting s t = None \<and> 0 < n \<and> n \<le> kMaxOffset
      then bindR (Allocate n (log s)) (\<lambda>(a, closed, h).
        Inr (if a = kInvalidAddress then s\<lparr>log := h, waiting := (waiting s)(t \<mapsto> closed)\<rparr>
             else s\<lparr>log := h, blocks := (a, n) # blocks s\<rparr>))
      else Inr s)"

definition do_new_page :: "nat \<Rightarrow> 'r log_sys \<Rightarrow> c_error + 'r log_sys" where
  "do_new_page t s =
     (case waiting s t of None \<Rightarrow> Inr s
      | Some p \<Rightarrow> bindR (NewPage p (log s)) (\<lambda>(ok, h, acts).
          Inr (s\<lparr>log := h, actions := actions s @ acts, waiting := (if ok then (waiting s)(t := None) else waiting s)\<rparr>)))"

definition do_to_tail :: "'r log_sys \<Rightarrow> c_error + 'r log_sys" where
  "do_to_tail s =
     bindR (ShiftReadOnlyToTail (log s)) (\<lambda>(_, h, acts). Inr (s\<lparr>log := h, actions := actions s @ acts\<rparr>))"

definition do_perform :: "nat \<Rightarrow> (u32 \<Rightarrow> bool) \<Rightarrow> 'r log_sys \<Rightarrow> c_error + 'r log_sys" where
  "do_perform i write_ok s =
     (if i < length (actions s)
      then (case actions s ! i of
          OnPagesClosed a \<Rightarrow> bindR (run_OnPagesClosed a (log s)) (\<lambda>h. Inr (s\<lparr>log := h, actions := remove_nth i (actions s)\<rparr>))
        | OnPagesMarkedReadOnly a \<Rightarrow> bindR (run_OnPagesMarkedReadOnly write_ok a (log s)) (\<lambda>(h, reqs).
            Inr (s\<lparr>log := h, actions := remove_nth i (actions s), flushes := flushes s @ reqs\<rparr>)))
      else Inr s)"

definition do_flushed :: "nat \<Rightarrow> 'r log_sys \<Rightarrow> c_error + 'r log_sys" where
  "do_flushed i s =
     (if i < length (flushes s)
      then bindR (flush_done (flushes s ! i) (log s)) (\<lambda>h. Inr (s\<lparr>log := h, flushes := remove_nth i (flushes s)\<rparr>))
      else Inr s)"

text \<open>A thread writes records only into the blocks it was given.\<close>

definition do_write :: "address \<Rightarrow> 'r \<Rightarrow> 'r log_sys \<Rightarrow> c_error + 'r log_sys" where
  "do_write a r s =
     (if a \<in> fst ` set (blocks s) \<and> a \<ge> head_address (log s)
      then bindR (put_record a r (log s)) (\<lambda>h. Inr (s\<lparr>log := h\<rparr>)) else Inr s)"

fun log_step :: "'r log_event \<Rightarrow> 'r log_sys \<Rightarrow> c_error + 'r log_sys" where
  "log_step (EAllocate t n) = do_allocate t n"
| "log_step (ENewPage t) = do_new_page t"
| "log_step EToTail = do_to_tail"
| "log_step (EPerform i write_ok) = do_perform i write_ok"
| "log_step (EFlushed i) = do_flushed i"
| "log_step (EWrite a r) = do_write a r"

fun run_log :: "'r log_event list \<Rightarrow> 'r log_sys \<Rightarrow> c_error + 'r log_sys" where
  "run_log [] s = Inr s"
| "run_log (e # es) s = bindR (log_step e s) (run_log es)"

definition start_sys :: "'r hlog \<Rightarrow> 'r log_sys" where
  "start_sys h = \<lparr>log = h, actions = [], flushes = [], waiting = Map.empty, blocks = []\<rparr>"

end
