(* ===== verification/FasterStore.thy ===== *)
theory FasterStore
  imports FasterIndex HybridLog CheckpointLocks
begin

text \<open>
  The state of the FASTER store as one of its threads sees it (\<open>api/faster.h\<close>, contexts of
  \<open>cc/internal_contexts.h\<close>), and what the thread does besides its operations: following the phases of
  the system (\<open>Refresh\<close>, \<open>HandleSpecialPhases\<close>), splitting the hash table, and waiting for space in the log.

  The classes of the template parameters are arguments: \<open>key_class\<close> gives the hash and the sizes of
  keys and values, a \<open>client\<close> the callbacks of the caller's context (\<open>put_atomic\<close> and \<open>rmw_atomic\<close> return
  \<open>None\<close> where the C++ method returns false).

  The rest of the system acts while the thread is in \<open>Refresh\<close> or waits: each such point takes one
  element of \<open>env\<close>, which says what the triggers of the epoch, the completions of writes and the other
  threads do to the log and to the shared control state, and how the epoch and the devices answer until
  the next point. A thread that needs more points than \<open>env\<close> has elements is still waiting when the
  observation ends; this is \<open>Spins\<close>. The index is changed by this thread alone, so the exchange of an
  entry that was just read succeeds.
\<close>

section \<open>Records and contexts\<close>

record ('k, 'v) log_record =
  rec_header :: record_info
  rec_key :: 'k
  rec_value :: 'v

text \<open>\<open>blank_value\<close> is what the zeroed memory of a new record reads as.\<close>

record ('k, 'v) key_class =
  GetHash :: "'k \<Rightarrow> u64"
  key_bytes :: "'k \<Rightarrow> u32"
  key_align :: u64
  sizeof_key :: u64
  stored_bytes :: "'v \<Rightarrow> u32"
  value_align :: u64
  sizeof_value :: u64
  blank_value :: 'v

record 'v client =
  put_value :: 'v
  put_atomic :: "'v \<Rightarrow> 'v option"
  rmw_initial :: 'v
  rmw_copy :: "'v \<Rightarrow> 'v"
  rmw_atomic :: "'v \<Rightarrow> 'v option"
  value_bytes :: u32

datatype OperationType = OpRead | OpRMW | OpUpsert | OpInsert | OpDelete

datatype OperationStatus = SUCCESS | NOT_FOUND | RETRY_NOW | RETRY_LATER | RECORD_ON_DISK
  | SUCCESS_UNMARK | NOT_FOUND_UNMARK | CPR_SHIFT_DETECTED

text \<open>
  \<open>op_class\<close> is the class of the context and \<open>op_type\<close> the tag that a dispatch reads: the constructor of
  \<open>AsyncPendingDeleteContext\<close> passes \<open>OperationType::Upsert\<close>. \<open>got\<close> is what \<open>Get\<close> or \<open>GetAtomic\<close> handed to the caller.
\<close>

record ('k, 'v) pending =
  op_class :: OperationType
  op_type :: OperationType
  op_key :: 'k
  op_client :: "'v client"
  pend_version :: u32
  pend_phase :: Phase
  pend_address :: address
  pend_entry :: bucket_entry
  got :: "'v option"

definition new_pending :: "OperationType \<Rightarrow> 'k \<Rightarrow> 'v client \<Rightarrow> ('k, 'v) pending" where
  "new_pending ty k c = \<lparr>op_class = ty, op_type = (if ty = OpDelete then OpUpsert else ty), op_key = k, op_client = c,
     pend_version = 0xFFFFFFFF, pend_phase = INVALID, pend_address = kInvalidAddress, pend_entry = kInvalidEntry,
     got = None\<rparr>"

definition go_async :: "Phase \<Rightarrow> u32 \<Rightarrow> address \<Rightarrow> bucket_entry \<Rightarrow> ('k, 'v) pending \<Rightarrow> ('k, 'v) pending" where
  "go_async ph ver a e p = p\<lparr>pend_phase := ph, pend_version := ver, pend_address := a, pend_entry := e\<rparr>"

definition continue_async :: "address \<Rightarrow> bucket_entry \<Rightarrow> ('k, 'v) pending \<Rightarrow> ('k, 'v) pending" where
  "continue_async a e p = p\<lparr>pend_address := a, pend_entry := e\<rparr>"

text \<open>\<open>AsyncIOContext\<close>: a read of the disk; \<open>io_slot\<close> is the context whose queue gets the answer.\<close>

record ('k, 'v) io_context =
  io_slot :: bool
  io_number :: u64
  io_address :: address
  io_record :: "('k, 'v) log_record option"
  io_caller :: "('k, 'v) pending"

text \<open>
  \<open>ExecutionContext\<close>: \<open>pending_ios\<close> lists the numbers of the reads under way, each with the hash of its key, in
  the order in which they were inserted; \<open>io_responses\<close> holds the finished reads.
\<close>

record ('k, 'v) exec_context =
  serial_num :: u64
  ctx_version :: u32
  ctx_guid :: guid
  ctx_phase :: Phase
  retry_requests :: "('k, 'v) pending list"
  io_id :: u64
  pending_ios :: "(u64 \<times> u64) list"
  io_responses :: "('k, 'v) io_context list"

definition context_Initialize :: "Phase \<Rightarrow> u32 \<Rightarrow> guid \<Rightarrow> u64 \<Rightarrow> ('k, 'v) exec_context \<Rightarrow> c_error + ('k, 'v) exec_context" where
  "context_Initialize ph ver gid serial c =
     (if retry_requests c \<noteq> [] \<or> pending_ios c \<noteq> [] \<or> io_responses c \<noteq> [] then Inl AssertFail
      else Inr (c\<lparr>ctx_version := ver, ctx_guid := gid, serial_num := serial, ctx_phase := ph, io_id := 0\<rparr>))"

section \<open>The store\<close>

record ('k, 'v) env_step =
  log_events :: "('k, 'v) log_record log_event list"
  others :: "control \<Rightarrow> control"
  finish_phase :: "Phase \<Rightarrow> bool"
  has_finished :: "Phase \<Rightarrow> bool"
  fuzzy_complete :: status
  io_outcome :: outside

text \<open>
  \<open>contexts\<close> and \<open>cur\<close> are the thread's \<open>ThreadContext\<close>. \<open>disk_reads\<close> lists the requests of \<open>AsyncGetFromDisk\<close>
  that are not answered, each with the number of bytes to read. \<open>now\<close> holds the answers in force.
\<close>

record ('k, 'v) store =
  kv_index :: index
  kv_log :: "('k, 'v) log_record log_sys"
  ctl :: control
  contexts :: "bool \<Rightarrow> ('k, 'v) exec_context"
  cur :: bool
  safe_epoch :: u64
  disk_reads :: "(u32 \<times> ('k, 'v) io_context) list"
  num_pending_ios :: u64
  now :: "('k, 'v) env_step"
  env :: "('k, 'v) env_step list"

abbreviation hlog_of :: "('k, 'v) store \<Rightarrow> ('k, 'v) log_record hlog" where
  "hlog_of s \<equiv> log (kv_log s)"

abbreviation ctx :: "('k, 'v) store \<Rightarrow> ('k, 'v) exec_context" where
  "ctx s \<equiv> contexts s (cur s)"

abbreviation prev_ctx :: "('k, 'v) store \<Rightarrow> ('k, 'v) exec_context" where
  "prev_ctx s \<equiv> contexts s (\<not> cur s)"

abbreviation kv_locks :: "('k, 'v) store \<Rightarrow> checkpoint_locks" where
  "kv_locks s \<equiv> cp_locks (ctl s)"

definition put_hlog :: "('k, 'v) log_record hlog \<Rightarrow> ('k, 'v) store \<Rightarrow> ('k, 'v) store" where
  "put_hlog h s = s\<lparr>kv_log := (kv_log s)\<lparr>log := h\<rparr>\<rparr>"

definition put_ctx :: "bool \<Rightarrow> ('k, 'v) exec_context \<Rightarrow> ('k, 'v) store \<Rightarrow> ('k, 'v) store" where
  "put_ctx b c s = s\<lparr>contexts := (contexts s)(b := c)\<rparr>"

definition put_locks :: "checkpoint_locks \<Rightarrow> ('k, 'v) store \<Rightarrow> ('k, 'v) store" where
  "put_locks ls s = s\<lparr>ctl := (ctl s)\<lparr>cp_locks := ls\<rparr>\<rparr>"

definition set_phase :: "Phase \<Rightarrow> u32 \<Rightarrow> ('k, 'v) store \<Rightarrow> ('k, 'v) store" where
  "set_phase ph ver s = put_ctx (cur s) ((ctx s)\<lparr>ctx_phase := ph, ctx_version := ver\<rparr>) s"

text \<open>The record a pointer into the log refers to; there is none in memory that was never written.\<close>

definition record_at :: "address \<Rightarrow> ('k, 'v) log_record hlog \<Rightarrow> c_error + ('k, 'v) log_record" where
  "record_at a h = bindR (Get a h) (\<lambda>r. case r of None \<Rightarrow> Inl UB | Some r \<Rightarrow> Inr r)"

definition write_record :: "address \<Rightarrow> ('k, 'v) log_record \<Rightarrow> ('k, 'v) store \<Rightarrow> c_error + ('k, 'v) store" where
  "write_record a r s = bindR (put_record a r (hlog_of s)) (\<lambda>h. Inr (put_hlog h s))"

section \<open>Walking the records of an entry\<close>

text \<open>
  The loops over a chain of records: from \<open>a\<close> back to \<open>lim\<close>, until \<open>stop\<close> holds of a record. The log does not
  change meanwhile, so coming back to an address of \<open>seen\<close> means that the loop never ends.
\<close>

function trace_back ::
  "(('k, 'v) log_record \<Rightarrow> c_error + bool) \<Rightarrow> address \<Rightarrow> ('k, 'v) log_record hlog \<Rightarrow> address list \<Rightarrow> address \<Rightarrow>
   c_error + address" where
  "trace_back stop lim h seen a =
     (case address_ge a lim of Inl e \<Rightarrow> Inl e
      | Inr ge \<Rightarrow> if \<not> ge then Inr a
          else (case record_at a h of Inl e \<Rightarrow> Inl e
            | Inr r \<Rightarrow> (case stop r of Inl e \<Rightarrow> Inl e
              | Inr yes \<Rightarrow> if yes then Inr a
                  else if a \<in> set seen then Inl Spins
                  else trace_back stop lim h (a # seen) (previous_address (rec_header r)))))"
  by pat_completeness auto
termination
proof (relation "measure (\<lambda>(stop, lim, h, seen, a). card (- set seen))")
  fix seen :: "u64 list" and a :: u64
  assume "a \<notin> set seen"
  then have "- set (a # seen) \<subset> - set seen" by auto
  then have "card (- set (a # seen)) < card (- set seen)" by (intro psubset_card_mono) auto
  then show "((stop, lim, h, a # seen, b), stop, lim, h, seen, a)
      \<in> measure (\<lambda>(stop, lim, h, seen, a). card (- set seen))"
    for stop :: "('k, 'v) log_record \<Rightarrow> c_error + bool" and lim h b
    by simp
qed simp

declare trace_back.simps [simp del]

definition TraceBackForKeyMatch :: "'k \<Rightarrow> address \<Rightarrow> address \<Rightarrow> ('k, 'v) log_record hlog \<Rightarrow> c_error + address" where
  "TraceBackForKeyMatch k from_address min_offset h =
     trace_back (\<lambda>r. Inr (k = rec_key r)) min_offset h [] from_address"

definition TraceBackForOtherChainStart ::
  "('k, 'v) key_class \<Rightarrow> u64 \<Rightarrow> u64 \<Rightarrow> address \<Rightarrow> address \<Rightarrow> nat \<Rightarrow> ('k, 'v) log_record hlog \<Rightarrow> c_error + address" where
  "TraceBackForOtherChainStart K old_size new_size from_address min_address side h =
     (if side \<noteq> 0 \<and> side \<noteq> 1 then Inl AssertFail
      else trace_back (\<lambda>r. bindR (hash_idx (GetHash K (rec_key r)) new_size) (\<lambda>i.
             Inr ((i < old_size) \<noteq> (side = 0)))) min_address h [] from_address)"

section \<open>Splitting the hash table\<close>

text \<open>The next free entries of the two new buckets, and the index.\<close>

type_synonym split_state = "slot \<times> slot \<times> index"

definition add_side :: "nat \<Rightarrow> u64 \<Rightarrow> u8 \<Rightarrow> nat \<Rightarrow> bucket_entry \<Rightarrow> split_state \<Rightarrow> c_error + split_state" where
  "add_side t safe v side e st =
     (let (p0, p1, x) = st in
      if side = 0 then bindR (AddHashEntry t safe v e p0 x) (\<lambda>(p, x'). Inr (p, p1, x'))
      else bindR (AddHashEntry t safe v e p1 x) (\<lambda>(p, x'). Inr (p0, p, x')))"

text \<open>One old entry.\<close>

definition split_entry ::
  "('k, 'v) key_class \<Rightarrow> nat \<Rightarrow> u64 \<Rightarrow> u8 \<Rightarrow> u64 \<Rightarrow> u64 \<Rightarrow> ('k, 'v) log_record hlog \<Rightarrow> bucket_entry \<Rightarrow> split_state \<Rightarrow>
   c_error + split_state" where
  "split_entry K t safe v old_size new_size h e st =
     (if entry_unused e then Inr st
      else bindR (address_less (entry_address e) (head_address h)) (\<lambda>on_disk.
        if on_disk then bindR (add_side t safe v 0 e st) (add_side t safe v 1 e)
        else bindR (record_at (entry_address e) h) (\<lambda>r.
          bindR (hash_idx (GetHash K (rec_key r)) new_size) (\<lambda>i.
            let side = (if i < old_size then 0 else 1) in
            bindR (add_side t safe v side e st) (\<lambda>st1.
            bindR (TraceBackForOtherChainStart K old_size new_size (previous_address (rec_header r))
                     (head_address h) side h) (\<lambda>other.
            bindR (address_ge other (hlog.begin_address h)) (\<lambda>found.
              if found then add_side t safe v (1 - side) (HashBucketEntry other (entry_tag e) False) st1
              else Inr st1)))))))"

fun split_entries ::
  "('k, 'v) key_class \<Rightarrow> nat \<Rightarrow> u64 \<Rightarrow> u8 \<Rightarrow> u64 \<Rightarrow> u64 \<Rightarrow> ('k, 'v) log_record hlog \<Rightarrow> bucket_entry list \<Rightarrow> split_state \<Rightarrow>
   c_error + split_state" where
  "split_entries K t safe v old_size new_size h [] st = Inr st"
| "split_entries K t safe v old_size new_size h (e # es) st =
     bindR (split_entry K t safe v old_size new_size h e st) (split_entries K t safe v old_size new_size h es)"

text \<open>
  The chain of an old bucket. Only the new version of the table is written, so the old chain can be
  read from the index as it was.
\<close>

definition split_bucket ::
  "('k, 'v) key_class \<Rightarrow> nat \<Rightarrow> u64 \<Rightarrow> grow_state \<Rightarrow> ('k, 'v) log_record hlog \<Rightarrow> u64 \<Rightarrow> index \<Rightarrow> c_error + index" where
  "split_bucket K t safe g h i x =
     (let old_size = table_size_of (state x (old_version g)); new_size = table_size_of (state x (new_version g)) in
      bindR (walk_chain (old_version g)
               (\<lambda>st r b. split_entries K t safe (new_version g) old_size new_size h (entries b) st)
               x [] (InTable i) ((InTable i, 0), (InTable (old_size + i), 0), x)) (\<lambda>res.
        case res of Inl e \<Rightarrow> Inl e | Inr ((_, _, x'), _) \<Rightarrow> Inr x'))"

fun split_buckets ::
  "('k, 'v) key_class \<Rightarrow> nat \<Rightarrow> u64 \<Rightarrow> grow_state \<Rightarrow> ('k, 'v) log_record hlog \<Rightarrow> u64 \<Rightarrow> nat list \<Rightarrow> index \<Rightarrow> c_error + index" where
  "split_buckets K t safe g h base [] x = Inr x"
| "split_buckets K t safe g h base (i # is) x =
     bindR (split_bucket K t safe g h (base + of_nat i) x) (split_buckets K t safe g h base is)"

definition split_chunk ::
  "('k, 'v) key_class \<Rightarrow> nat \<Rightarrow> u64 \<Rightarrow> grow_state \<Rightarrow> ('k, 'v) log_record hlog \<Rightarrow> u64 \<Rightarrow> index \<Rightarrow> c_error + index" where
  "split_chunk K t safe g h chunk x =
     (let old_size = table_size_of (state x (old_version g)); new_size = table_size_of (state x (new_version g));
          upper_bound = (if chunk + 1 < num_chunks g then kGrowHashTableChunkSize
                         else old_size - chunk * kGrowHashTableChunkSize)
      in if new_size \<noteq> old_size * 2 then Inl AssertFail
         else split_buckets K t safe g h (chunk * kGrowHashTableChunkSize) [0..<unat upper_bound] x)"

text \<open>The old table and its overflow buckets are freed after the last chunk.\<close>

definition free_version :: "u8 \<Rightarrow> index \<Rightarrow> c_error + index" where
  "free_version v x = bindR (table_Uninitialize (state x v)) (\<lambda>t'.
     Inr (x\<lparr>state := (state x)(v := t'),
            overflow_buckets := (overflow_buckets x)(v := (overflow_buckets x v)\<lparr>page_array := []\<rparr>)\<rparr>))"

function split_chunks ::
  "('k, 'v) key_class \<Rightarrow> nat \<Rightarrow> u64 \<Rightarrow> ('k, 'v) log_record hlog \<Rightarrow> grow_state \<Rightarrow> index \<Rightarrow> c_error + grow_state \<times> index" where
  "split_chunks K t safe h g x =
     (let chunk = next_chunk g; g1 = g\<lparr>next_chunk := chunk + 1\<rparr> in
      if \<not> chunk < num_chunks g then Inr (g1, x)
      else (case split_chunk K t safe g1 h chunk x of Inl e \<Rightarrow> Inl e
        | Inr x1 \<Rightarrow>
            let g2 = g1\<lparr>num_pending_chunks := num_pending_chunks g1 - 1\<rparr> in
            if num_pending_chunks g2 = 0 then bindR (free_version (old_version g2) x1) (\<lambda>x2. Inr (g2, x2))
            else split_chunks K t safe h g2 x1))"
  by pat_completeness auto
termination
proof (relation "measure (\<lambda>(K, t, safe, h, g, x). unat (num_chunks g) - unat (next_chunk g))")
  fix K :: "('k, 'v) key_class" and t :: nat and safe :: u64 and h :: "('k, 'v) log_record hlog" and g g1 g2 :: grow_state
    and x x1 chunk
  assume c: "chunk = next_chunk g" and lt: "\<not> \<not> chunk < num_chunks g"
    and g: "g1 = g\<lparr>next_chunk := chunk + 1\<rparr>" "g2 = g1\<lparr>num_pending_chunks := num_pending_chunks g1 - 1\<rparr>"
  have "unat (next_chunk g + 1) = unat (next_chunk g) + 1"
    using lt c unat_add_lem [of "next_chunk g" 1] unat_bound_u64 [of "num_chunks g"] by (simp add: word_less_nat_alt)
  then show "((K, t, safe, h, g2, x1), (K, t, safe, h, g, x))
      \<in> measure (\<lambda>(K, t, safe, h, g, x). unat (num_chunks g) - unat (next_chunk g))"
    using lt c g by (auto simp: word_less_nat_alt)
qed simp

declare split_chunks.simps [simp del]

section \<open>Following the phases\<close>

text \<open>
  The control state as the transitions of \<open>CheckpointControl\<close> see it: the sizes of the tables and the
  begin address are those of the index and the log.
\<close>

definition ctl_view :: "('k, 'v) store \<Rightarrow> control" where
  "ctl_view s = (ctl s)\<lparr>hash_version := index_version (kv_index s),
     table_sizes := [table_size_of (state (kv_index s) 0), table_size_of (state (kv_index s) 1)],
     control.begin_address := hlog.begin_address (hlog_of s), calls := []\<rparr>"

text \<open>\<open>GlobalMoveToNextState\<close> with its effects on the index and on the log.\<close>

definition move_to_next :: "system_state \<Rightarrow> ('k, 'v) store \<Rightarrow> c_error + ('k, 'v) store" where
  "move_to_next current s =
     (let out = (io_outcome (now s))\<lparr>tail_address := GetTailAddress (hlog_of s),
                  ofb_count_now := alloc_count (overflow_buckets (kv_index s) (index_version (kv_index s)))\<rparr> in
      bindR (GlobalMoveToNextState out current (ctl_view s)) (\<lambda>(c, _).
        let s1 = s\<lparr>ctl := c, kv_index := (kv_index s)\<lparr>index_version := hash_version c\<rparr>\<rparr> in
        if call.ShiftReadOnlyToTail \<in> set (calls c)
        then bindR (do_to_tail (kv_log s1)) (\<lambda>l. Inr (s1\<lparr>kv_log := l\<rparr>)) else Inr s1))"

text \<open>The thread tells the epoch that it has finished a phase; the last one moves the system on.\<close>

definition ack_phase :: "Phase \<Rightarrow> system_state \<Rightarrow> ('k, 'v) store \<Rightarrow> c_error + ('k, 'v) store" where
  "ack_phase ph current s = (if finish_phase (now s) ph then move_to_next current s else Inr s)"

text \<open>One element of \<open>env\<close> takes effect.\<close>

definition env_acts :: "('k, 'v) env_step \<Rightarrow> ('k, 'v) env_step list \<Rightarrow> ('k, 'v) store \<Rightarrow> c_error + ('k, 'v) store" where
  "env_acts e es s = bindR (run_log (log_events e) (kv_log s)) (\<lambda>l.
     Inr (s\<lparr>kv_log := l, ctl := others e (ctl s), now := e, env := es\<rparr>))"

text \<open>Spinning until the other threads have split their chunks.\<close>

fun await_grown :: "('k, 'v) env_step list \<Rightarrow> ('k, 'v) store \<Rightarrow> c_error + ('k, 'v) store" where
  "await_grown es s =
     (if phase (system (ctl s)) \<noteq> GROW_IN_PROGRESS then Inr s
      else case es of [] \<Rightarrow> Inl Spins
        | e # es' \<Rightarrow> bindR (env_acts e es' s) (await_grown es'))"

declare await_grown.simps [simp del]

definition SplitHashTableBuckets :: "('k, 'v) key_class \<Rightarrow> nat \<Rightarrow> ('k, 'v) store \<Rightarrow> c_error + ('k, 'v) store" where
  "SplitHashTableBuckets K t s =
     bindR (split_chunks K t (safe_epoch s) (hlog_of s) (grow (ctl s)) (kv_index s)) (\<lambda>(g, x).
       let s1 = s\<lparr>kv_index := x, ctl := (ctl s)\<lparr>grow := g\<rparr>\<rparr>;
           s2 = put_ctx (cur s1) ((ctx s1)\<lparr>ctx_phase := REST\<rparr>) s1
       in if finish_phase (now s2) GROW_IN_PROGRESS
          then move_to_next (SystemState GrowIndex GROW_IN_PROGRESS (ctx_version (ctx s2))) s2
          else await_grown (env s2) s2)"

text \<open>Locking the records of the operations that are pending.\<close>

fun mark_all :: "u64 list \<Rightarrow> checkpoint_locks \<Rightarrow> c_error + checkpoint_locks" where
  "mark_all [] ls = Inr ls"
| "mark_all (hash # hs) ls = bindR (get_lock ls hash) (\<lambda>i.
     let (ok, c) = try_lock_old (lock_at ls i)
     in if ok then mark_all hs (put_lock ls i c) else Inl AssertFail)"

definition MarkAllPendingRequests :: "('k, 'v) key_class \<Rightarrow> ('k, 'v) store \<Rightarrow> c_error + ('k, 'v) store" where
  "MarkAllPendingRequests K s =
     bindR (mark_all (map (\<lambda>p. GetHash K (op_key p)) (retry_requests (ctx s)) @ map snd (pending_ios (ctx s))) (kv_locks s)) (\<lambda>ls.
       Inr (put_locks ls s))"

text \<open>Taking the other context of the thread into use.\<close>

definition swap_contexts :: "Phase \<Rightarrow> u32 \<Rightarrow> ('k, 'v) store \<Rightarrow> c_error + ('k, 'v) store" where
  "swap_contexts ph ver s =
     (let old = prev_ctx s in
      if retry_requests old \<noteq> [] \<or> pending_ios old \<noteq> [] \<or> io_responses old \<noteq> [] then Inl AssertFail
      else let s1 = s\<lparr>cur := \<not> cur s\<rparr> in
        bindR (context_Initialize ph ver (ctx_guid (prev_ctx s1)) (serial_num (prev_ctx s1)) (ctx s1)) (\<lambda>c.
          Inr (put_ctx (cur s1) c s1)))"

definition set_failed :: "('k, 'v) store \<Rightarrow> ('k, 'v) store" where
  "set_failed s = s\<lparr>ctl := (ctl s)\<lparr>checkpoint := (checkpoint (ctl s))\<lparr>failed := True\<rparr>\<rparr>\<rparr>"

definition set_rest :: "('k, 'v) store \<Rightarrow> ('k, 'v) store" where
  "set_rest s = put_ctx (cur s) ((ctx s)\<lparr>ctx_phase := REST\<rparr>) s"

definition previous_done :: "('k, 'v) store \<Rightarrow> bool" where
  "previous_done s \<longleftrightarrow> pending_ios (prev_ctx s) = [] \<and> retry_requests (prev_ctx s) = []"

text \<open>The cases of \<open>HandleSpecialPhases\<close>: the thread comes from \<open>previous\<close> and enters \<open>current\<close>.\<close>

definition thread_index_chkpt :: "system_state \<Rightarrow> ('k, 'v) store \<Rightarrow> c_error + ('k, 'v) store" where
  "thread_index_chkpt current s =
     (let result = (if index_checkpoint_started (checkpoint (ctl s)) then fuzzy_complete (now s) else Pending);
          s1 = (if result \<noteq> Pending \<and> result \<noteq> Ok then set_failed s else s)
      in if result = Pending then Inr s1
         else if action current = CheckpointIndex then ack_phase INDEX_CHKPT current (set_rest s1)
         else move_to_next current s1)"

definition thread_prepare :: "('k, 'v) key_class \<Rightarrow> nat \<Rightarrow> system_state \<Rightarrow> system_state \<Rightarrow> ('k, 'v) store \<Rightarrow> c_error + ('k, 'v) store" where
  "thread_prepare K t previous current s =
     (if phase previous = PREPARE then Inr s
      else bindR (MarkAllPendingRequests K s) (\<lambda>s1.
        let lm = log_metadata (checkpoint (ctl s1));
            lm' = lm\<lparr>num_threads := num_threads lm + 1, guids := (guids lm)[t := ctx_guid (ctx s1)]\<rparr>
        in ack_phase PREPARE current (s1\<lparr>ctl := (ctl s1)\<lparr>checkpoint := (checkpoint (ctl s1))\<lparr>log_metadata := lm'\<rparr>\<rparr>\<rparr>)))"

definition thread_wait_flush :: "system_state \<Rightarrow> ('k, 'v) store \<Rightarrow> c_error + ('k, 'v) store" where
  "thread_wait_flush current s =
     (if has_finished (now s) WAIT_FLUSH then Inr s
      else bindR (if fold_over_snapshot (ctl s)
                  then address_ge (flushed_until_address (hlog_of s)) (final_address (log_metadata (checkpoint (ctl s))))
                  else Inr (flush_pending (checkpoint (ctl s)) = 0)) (\<lambda>flushed.
        if flushed then ack_phase WAIT_FLUSH current s else Inr s))"

definition thread_checkpoint :: "('k, 'v) key_class \<Rightarrow> nat \<Rightarrow> system_state \<Rightarrow> system_state \<Rightarrow> ('k, 'v) store \<Rightarrow> c_error + ('k, 'v) store" where
  "thread_checkpoint K t previous current s =
     (let index_only = (action current = CheckpointIndex); log_only = (action current = CheckpointHybridLog) in
      case phase current of
        PREP_INDEX_CHKPT \<Rightarrow> if log_only then Inl AssertFail
          else if phase previous = REST then ack_phase PREP_INDEX_CHKPT current s else Inr s
      | INDEX_CHKPT \<Rightarrow> if log_only then Inl AssertFail else thread_index_chkpt current s
      | PREPARE \<Rightarrow> if index_only then Inl AssertFail else thread_prepare K t previous current s
      | IN_PROGRESS \<Rightarrow> if index_only then Inl AssertFail
          else if phase previous = PREPARE
          then bindR (swap_contexts IN_PROGRESS (version current) s) (ack_phase IN_PROGRESS current) else Inr s
      | WAIT_PENDING \<Rightarrow> if index_only then Inl AssertFail
          else if \<not> has_finished (now s) WAIT_PENDING \<and> previous_done s then ack_phase WAIT_PENDING current s else Inr s
      | WAIT_FLUSH \<Rightarrow> if index_only then Inl AssertFail else thread_wait_flush current s
      | PERSISTENCE_CALLBACK \<Rightarrow> if index_only then Inl AssertFail
          else if phase previous = WAIT_FLUSH then ack_phase PERSISTENCE_CALLBACK current (set_rest s) else Inr s
      | _ \<Rightarrow> Inr s)"

definition clean_chunk :: "('k, 'v) store \<Rightarrow> c_error + bool \<times> ('k, 'v) store" where
  "clean_chunk s =
     bindR (CleanHashTableBuckets (hlog.begin_address (hlog_of s)) (grow (ctl s)) (gc (ctl s)) (kv_index s)) (\<lambda>(worked, g, x).
       Inr (worked, s\<lparr>kv_index := x, ctl := (ctl s)\<lparr>gc := g\<rparr>\<rparr>))"

definition thread_gc :: "system_state \<Rightarrow> system_state \<Rightarrow> ('k, 'v) store \<Rightarrow> c_error + ('k, 'v) store" where
  "thread_gc previous current s =
     (case phase current of
        GC_IO_PENDING \<Rightarrow>
          bindR (if phase previous = REST then swap_contexts GC_IO_PENDING (version current) s else Inr s) (\<lambda>s1.
            if \<not> has_finished (now s1) GC_IO_PENDING \<and> previous_done s1 then ack_phase GC_IO_PENDING current s1 else Inr s1)
      | GC_IN_PROGRESS \<Rightarrow>
          if has_finished (now s) GC_IN_PROGRESS then Inr s
          else bindR (clean_chunk s) (\<lambda>(worked, s1).
            if worked then Inr s1 else ack_phase GC_IN_PROGRESS current (set_rest s1))
      | _ \<Rightarrow> Inl AssertFail)"

definition thread_grow :: "('k, 'v) key_class \<Rightarrow> nat \<Rightarrow> system_state \<Rightarrow> system_state \<Rightarrow> ('k, 'v) store \<Rightarrow> c_error + ('k, 'v) store" where
  "thread_grow K t previous current s =
     (case phase current of
        GROW_PREPARE \<Rightarrow> if phase previous = REST then ack_phase GROW_PREPARE current s else Inr s
      | GROW_IN_PROGRESS \<Rightarrow> SplitHashTableBuckets K t s
      | _ \<Rightarrow> Inr s)"

definition thread_enters :: "('k, 'v) key_class \<Rightarrow> nat \<Rightarrow> system_state \<Rightarrow> system_state \<Rightarrow> ('k, 'v) store \<Rightarrow> c_error + ('k, 'v) store" where
  "thread_enters K t previous current s =
     (case action current of
        CheckpointFull \<Rightarrow> thread_checkpoint K t previous current s
      | CheckpointIndex \<Rightarrow> thread_checkpoint K t previous current s
      | CheckpointHybridLog \<Rightarrow> thread_checkpoint K t previous current s
      | GC \<Rightarrow> thread_gc previous current s
      | GrowIndex \<Rightarrow> thread_grow K t previous current s
      | _ \<Rightarrow> Inr s)"

text \<open>
  The loop runs from the state of the thread to the state of the system. A thread is at most one
  action behind, which is fewer than \<open>phase_fuel\<close> transitions; a loop that takes more never ends.
\<close>

definition phase_fuel :: nat where "phase_fuel = 16"

fun follow_phases ::
  "nat \<Rightarrow> ('k, 'v) key_class \<Rightarrow> nat \<Rightarrow> system_state \<Rightarrow> system_state \<Rightarrow> ('k, 'v) store \<Rightarrow> c_error + ('k, 'v) store" where
  "follow_phases 0 K t final previous s = Inl Spins"
| "follow_phases (Suc n) K t final previous s =
     bindR (if previous = final then Inr final else GetNextState previous) (\<lambda>current.
     bindR (thread_enters K t previous current s) (\<lambda>s1.
       let s2 = set_phase (phase current) (version current) s1
       in if current = final then Inr s2 else follow_phases n K t final current s2))"

definition HandleSpecialPhases :: "('k, 'v) key_class \<Rightarrow> nat \<Rightarrow> ('k, 'v) store \<Rightarrow> c_error + ('k, 'v) store" where
  "HandleSpecialPhases K t s =
     (let final = system (ctl s) in
      if phase final = REST then Inr (set_phase REST (version final) s)
      else follow_phases phase_fuel K t final
             (SystemState (action final) (ctx_phase (ctx s)) (ctx_version (ctx s))) s)"

definition Refresh :: "('k, 'v) key_class \<Rightarrow> nat \<Rightarrow> ('k, 'v) store \<Rightarrow> c_error + ('k, 'v) store" where
  "Refresh K t s = (case env s of [] \<Rightarrow> Inl Spins
     | e # es \<Rightarrow> bindR (env_acts e es s) (\<lambda>s1.
         if ctx_phase (ctx s1) = REST \<and> phase (system (ctl s1)) = REST then Inr s1 else HandleSpecialPhases K t s1))"

section \<open>The rest of the system gets fewer turns\<close>

text \<open>No operation adds to \<open>env\<close>, which bounds the loops below.\<close>

named_theorems env_len \<open>operations do not extend the environment\<close>

lemma env_simps [simp]:
  "env (put_hlog h s) = env s" "env (put_ctx b c s) = env s" "env (put_locks ls s) = env s"
  "env (set_phase ph ver s) = env s" "env (set_failed s) = env s" "env (set_rest s) = env s"
  by (simp_all add: put_hlog_def put_ctx_def put_locks_def set_phase_def set_failed_def set_rest_def)

lemma move_to_next_env [env_len]: "move_to_next cs s = Inr s' \<Longrightarrow> length (env s') \<le> length (env s)"
  by (auto simp: move_to_next_def bindR_Inr_iff Let_def split: if_splits)

lemma ack_phase_env [env_len]: "ack_phase ph cs s = Inr s' \<Longrightarrow> length (env s') \<le> length (env s)"
  by (auto simp: ack_phase_def dest: env_len split: if_splits)

lemma env_acts_env: "env_acts e es s = Inr s' \<Longrightarrow> env s' = es"
  by (auto simp: env_acts_def bindR_Inr_iff)

lemma await_grown_env: "await_grown es s = Inr s' \<Longrightarrow> length es \<le> length (env s) \<Longrightarrow> length (env s') \<le> length (env s)"
proof (induction es s rule: await_grown.induct)
  case (1 es s)
  show ?case
  proof (cases "phase (system (ctl s)) \<noteq> GROW_IN_PROGRESS \<or> es = []")
    case True
    then show ?thesis using "1.prems" by (auto simp: await_grown.simps [of es] split: if_splits)
  next
    case False
    then obtain e es' where es: "es = e # es'" by (cases es) auto
    then obtain s1 where s1: "env_acts e es' s = Inr s1" "await_grown es' s1 = Inr s'"
      using "1.prems" False by (auto simp: await_grown.simps [of "e # es'"] bindR_Inr_iff)
    with "1.IH" [of e es' s1] False es env_acts_env [OF s1(1)] "1.prems" show ?thesis by simp
  qed
qed

lemma Split_env [env_len]: "SplitHashTableBuckets K t s = Inr s' \<Longrightarrow> length (env s') \<le> length (env s)"
  by (auto simp: SplitHashTableBuckets_def bindR_Inr_iff Let_def dest!: env_len await_grown_env split: if_splits)

lemma Mark_env [env_len]: "MarkAllPendingRequests K s = Inr s' \<Longrightarrow> length (env s') \<le> length (env s)"
  by (auto simp: MarkAllPendingRequests_def bindR_Inr_iff)

lemma swap_env [env_len]: "swap_contexts ph ver s = Inr s' \<Longrightarrow> length (env s') \<le> length (env s)"
  by (auto simp: swap_contexts_def bindR_Inr_iff Let_def split: if_splits)

lemma thread_enters_env [env_len]:
  assumes "thread_enters K t previous current s = Inr s'"
  shows "length (env s') \<le> length (env s)"
proof -
  have ic: "thread_index_chkpt current s = Inr s' \<Longrightarrow> ?thesis"
    by (auto simp: thread_index_chkpt_def Let_def dest!: env_len split: if_splits)
  have pr: "thread_prepare K t previous current s = Inr s' \<Longrightarrow> ?thesis"
    by (fastforce simp: thread_prepare_def bindR_Inr_iff Let_def dest!: env_len split: if_splits)
  have wf: "thread_wait_flush current s = Inr s' \<Longrightarrow> ?thesis"
    by (auto simp: thread_wait_flush_def bindR_Inr_iff dest!: env_len split: if_splits)
  have ip: "bindR (swap_contexts IN_PROGRESS v s) (ack_phase IN_PROGRESS current) = Inr s' \<Longrightarrow> ?thesis" for v
    by (fastforce simp: bindR_Inr_iff dest!: env_len)
  have cp: "thread_checkpoint K t previous current s = Inr s' \<Longrightarrow> ?thesis"
    using ic pr wf ip by (auto simp: thread_checkpoint_def Let_def dest!: env_len split: Phase.splits if_splits)
  have gc: "thread_gc previous current s = Inr s' \<Longrightarrow> ?thesis"
    by (fastforce simp: thread_gc_def clean_chunk_def bindR_Inr_iff dest!: env_len split: Phase.splits if_splits)
  have gr: "thread_grow K t previous current s = Inr s' \<Longrightarrow> ?thesis"
    by (auto simp: thread_grow_def dest!: env_len split: Phase.splits if_splits)
  show ?thesis using assms cp gc gr by (auto simp: thread_enters_def split: Action.splits)
qed

lemma follow_phases_env [env_len]:
  "follow_phases n K t final previous s = Inr s' \<Longrightarrow> length (env s') \<le> length (env s)"
proof (induction n arbitrary: previous s)
  case (Suc n)
  then show ?case
    by (fastforce simp: bindR_Inr_iff Let_def dest!: thread_enters_env split: if_splits)
qed simp

lemma Refresh_env: "Refresh K t s = Inr s' \<Longrightarrow> length (env s') < length (env s)"
proof -
  assume "Refresh K t s = Inr s'"
  then obtain e es s1 where s1: "env s = e # es" "env_acts e es s = Inr s1"
    "(if ctx_phase (ctx s1) = REST \<and> phase (system (ctl s1)) = REST then Inr s1 else HandleSpecialPhases K t s1) = Inr s'"
    by (auto simp: Refresh_def bindR_Inr_iff split: list.splits)
  then have "length (env s') \<le> length (env s1)"
    by (auto simp: HandleSpecialPhases_def Let_def dest!: follow_phases_env split: if_splits)
  then show ?thesis using s1 env_acts_env by fastforce
qed

section \<open>Work on behalf of an action\<close>

text \<open>The loop of \<open>HeavyEnter\<close>.\<close>

function await_grow_start :: "('k, 'v) key_class \<Rightarrow> nat \<Rightarrow> ('k, 'v) store \<Rightarrow> c_error + ('k, 'v) store" where
  "await_grow_start K t s =
     (if ctx_phase (ctx s) \<noteq> GROW_PREPARE then Inr s
      else case Refresh K t s of Inl e \<Rightarrow> Inl e | Inr s1 \<Rightarrow> await_grow_start K t s1)"
  by pat_completeness auto
termination
  by (relation "measure (\<lambda>(K, t, s). length (env s))") (auto dest: Refresh_env)

declare await_grow_start.simps [simp del]

definition HeavyEnter :: "('k, 'v) key_class \<Rightarrow> nat \<Rightarrow> ('k, 'v) store \<Rightarrow> c_error + ('k, 'v) store" where
  "HeavyEnter K t s =
     (if ctx_phase (ctx s) = GC_IO_PENDING \<or> ctx_phase (ctx s) = GC_IN_PROGRESS
      then bindR (clean_chunk s) (\<lambda>(_, s1). Inr s1)
      else bindR (await_grow_start K t s) (\<lambda>s1.
        if ctx_phase (ctx s1) = GROW_IN_PROGRESS then SplitHashTableBuckets K t s1 else Inr s1))"

section \<open>Allocating a record\<close>

text \<open>\<open>hlog.Allocate\<close> and \<open>hlog.NewPage\<close>, with the bookkeeping of the log's model for the calling thread \<open>t\<close>.\<close>

definition log_Allocate :: "nat \<Rightarrow> u32 \<Rightarrow> ('k, 'v) store \<Rightarrow> c_error + address \<times> u32 \<times> ('k, 'v) store" where
  "log_Allocate t n s =
     bindR (Allocate n (hlog_of s)) (\<lambda>(a, closed, h).
       Inr (a, closed, s\<lparr>kv_log := (if a = kInvalidAddress
         then (kv_log s)\<lparr>log := h, waiting := (waiting (kv_log s))(t \<mapsto> closed)\<rparr>
         else (kv_log s)\<lparr>log := h, blocks := (a, n) # blocks (kv_log s)\<rparr>)\<rparr>))"

definition log_NewPage :: "nat \<Rightarrow> u32 \<Rightarrow> ('k, 'v) store \<Rightarrow> c_error + bool \<times> ('k, 'v) store" where
  "log_NewPage t p s =
     bindR (NewPage p (hlog_of s)) (\<lambda>(ok, h, acts).
       Inr (ok, s\<lparr>kv_log := (kv_log s)\<lparr>log := h, actions := actions (kv_log s) @ acts,
         waiting := (if ok then (waiting (kv_log s))(t := None) else waiting (kv_log s))\<rparr>\<rparr>))"

lemma log_NewPage_env: "log_NewPage t p s = Inr (ok, s') \<Longrightarrow> env s' = env s"
  by (auto simp: log_NewPage_def bindR_Inr_iff)

lemma log_Allocate_env: "log_Allocate t n s = Inr (a, p, s') \<Longrightarrow> env s' = env s"
  by (auto simp: log_Allocate_def bindR_Inr_iff)

text \<open>The inner loop of \<open>BlockAllocate\<close>: a new page is requested until there is one.\<close>

function new_page_loop :: "('k, 'v) key_class \<Rightarrow> nat \<Rightarrow> u32 \<Rightarrow> ('k, 'v) store \<Rightarrow> c_error + ('k, 'v) store" where
  "new_page_loop K t p s =
     (case log_NewPage t p s of Inl e \<Rightarrow> Inl e
      | Inr (ok, s1) \<Rightarrow> (case Refresh K t s1 of Inl e \<Rightarrow> Inl e
        | Inr s2 \<Rightarrow> if ok then Inr s2 else new_page_loop K t p s2))"
  by pat_completeness auto
termination
  by (relation "measure (\<lambda>(K, t, p, s). length (env s))") (auto, metis Refresh_env log_NewPage_env)

declare new_page_loop.simps [simp del]

lemma new_page_loop_env: "new_page_loop K t p s = Inr s' \<Longrightarrow> length (env s') < length (env s)"
proof (induction K t p s rule: new_page_loop.induct)
  case (1 K t p s)
  from "1.prems" obtain ok s1 s2 where s: "log_NewPage t p s = Inr (ok, s1)" "Refresh K t s1 = Inr s2"
    "(if ok then Inr s2 else new_page_loop K t p s2) = Inr s'"
    by (subst (asm) new_page_loop.simps) (auto split: sum.splits prod.splits)
  then show ?case using Refresh_env [OF s(2)] log_NewPage_env [OF s(1)] "1.IH" [OF s(1) refl s(2)]
    by (auto split: if_splits)
qed

text \<open>The outer loop: \<open>a\<close> and \<open>p\<close> are what the last \<open>Allocate\<close> returned.\<close>

function block_loop :: "('k, 'v) key_class \<Rightarrow> nat \<Rightarrow> u32 \<Rightarrow> address \<Rightarrow> u32 \<Rightarrow> ('k, 'v) store \<Rightarrow> c_error + address \<times> ('k, 'v) store" where
  "block_loop K t n a p s =
     (case address_less a (read_only_address (hlog_of s)) of Inl e \<Rightarrow> Inl e
      | Inr again \<Rightarrow>
          if \<not> again then Inr (a, s)
          else (case Refresh K t s of Inl e \<Rightarrow> Inl e
            | Inr s1 \<Rightarrow> (case (if a = kInvalidAddress then new_page_loop K t p s1 else Inr s1) of Inl e \<Rightarrow> Inl e
              | Inr s2 \<Rightarrow> (case log_Allocate t n s2 of Inl e \<Rightarrow> Inl e
                | Inr (a', p', s3) \<Rightarrow> block_loop K t n a' p' s3))))"
  by pat_completeness auto
termination
proof (relation "measure (\<lambda>(K, t, n, a, p, s). length (env s))")
  fix K :: "('k, 'v) key_class" and t n a p and s s1 s2 s3 :: "('k, 'v) store" and r again x a' y p'
  assume "Refresh K t s = Inr s1" "(if a = kInvalidAddress then new_page_loop K t p s1 else Inr s1) = Inr s2"
    "log_Allocate t n s2 = Inr x" "(a', y) = x" "(p', s3) = y"
  then have "length (env s1) < length (env s)" "length (env s2) \<le> length (env s1)" "env s3 = env s2"
    using Refresh_env log_Allocate_env [of t n s2 a' p' s3] new_page_loop_env [of K t p s1 s2] by (auto split: if_splits)
  then show "((K, t, n, a', p', s3), (K, t, n, a, p, s)) \<in> measure (\<lambda>(K, t, n, a, p, s). length (env s))" by simp
qed simp

declare block_loop.simps [simp del]

definition BlockAllocate :: "('k, 'v) key_class \<Rightarrow> nat \<Rightarrow> u32 \<Rightarrow> ('k, 'v) store \<Rightarrow> c_error + address \<times> ('k, 'v) store" where
  "BlockAllocate K t n s = bindR (log_Allocate t n s) (\<lambda>(a, p, s1). block_loop K t n a p s1)"

end
