(* ===== verification/FasterOps.thy ===== *)
theory FasterOps
  imports FasterStore
begin

text \<open>
  The operations of the FASTER store (\<open>api/faster.h\<close>): Read, Upsert, Rmw and Delete of one thread, in every
  phase of a checkpoint, of a garbage collection and of growth; the retries and the completion of
  operations that went pending, with the reads of the disk. \<open>K\<close> is the class of the keys and values, \<open>t\<close> the
  thread.

  An internal operation returns its status, its context and the store. A call that failed to exchange
  the entry of its key starts again; the entry can only have changed while the thread was in \<open>Refresh\<close>, so
  a call that fails without one would fail for ever, which is \<open>Spins\<close>.
\<close>

section \<open>Common parts\<close>

text \<open>The record of the key in memory: its address, and the version of the latest record of the entry.\<close>

definition find_record :: "'k \<Rightarrow> address \<Rightarrow> ('k, 'v) log_record hlog \<Rightarrow> c_error + address \<times> u64" where
  "find_record k a h =
     bindR (address_ge a (head_address h)) (\<lambda>in_memory.
       if \<not> in_memory then Inr (a, 0)
       else bindR (record_at a h) (\<lambda>r.
         let latest_record_version = checkpoint_version (rec_header r) in
         if k = rec_key r then Inr (a, latest_record_version)
         else bindR (TraceBackForKeyMatch k (previous_address (rec_header r)) (head_address h) h) (\<lambda>a'.
           Inr (a', latest_record_version))))"

datatype lock_result = Proceed | CreateRecord | GiveUp (give_up_status: OperationStatus)

text \<open>The switch over the phase of a checkpoint, which \<open>Upsert\<close>, \<open>Rmw\<close> and \<open>Delete\<close> share.\<close>

definition acquire_locks ::
  "Phase \<Rightarrow> u32 \<Rightarrow> u64 \<Rightarrow> checkpoint_locks \<Rightarrow> lock_guard \<Rightarrow> c_error + lock_result \<times> checkpoint_locks \<times> lock_guard" where
  "acquire_locks ph ver latest ls g =
     (case ph of
        PREPARE \<Rightarrow> bindR (guard_try_lock_old ls g) (\<lambda>(ls', g', ok).
          Inr (if \<not> ok \<or> latest > ucast ver then GiveUp CPR_SHIFT_DETECTED else Proceed, ls', g'))
      | IN_PROGRESS \<Rightarrow> if latest < ucast ver
          then bindR (guard_try_lock_new ls g) (\<lambda>(ls', g', ok).
            Inr (if ok then CreateRecord else GiveUp RETRY_LATER, ls', g'))
          else Inr (Proceed, ls, g)
      | WAIT_PENDING \<Rightarrow> if latest < ucast ver
          then bindR (guard_old_locked ls g) (\<lambda>locked. Inr (if locked then GiveUp RETRY_LATER else CreateRecord, ls, g))
          else Inr (Proceed, ls, g)
      | WAIT_FLUSH \<Rightarrow> Inr (if latest < ucast ver then CreateRecord else Proceed, ls, g)
      | _ \<Rightarrow> Inr (Proceed, ls, g))"

text \<open>The destructor of the guard; a lock that was freed meanwhile is undefined behaviour.\<close>

definition release_guard :: "lock_guard \<Rightarrow> ('k, 'v) store \<Rightarrow> c_error + ('k, 'v) store" where
  "release_guard g s =
     (if (locked_old g \<or> locked_new g) \<and> locks (kv_locks s) = None then Inl UB
      else Inr (put_locks (guard_destroy (kv_locks s) g) s))"

definition heavy_enter :: "('k, 'v) key_class \<Rightarrow> nat \<Rightarrow> Phase \<Rightarrow> ('k, 'v) store \<Rightarrow> c_error + ('k, 'v) store" where
  "heavy_enter K t ph s = (if ph \<noteq> REST then HeavyEnter K t s else Inr s)"

text \<open>\<open>record_t::size\<close>.\<close>

definition new_record_size :: "('k, 'v) key_class \<Rightarrow> ('k, 'v) pending \<Rightarrow> c_error + u32" where
  "new_record_size K p = record_size (key_align K) (value_align K) (key_bytes K (op_key p)) (value_bytes (op_client p))"

text \<open>
  Exchanging the entry for one that leads to the new record \<open>r\<close> at \<open>a\<close>: success and the store. On failure
  the record becomes invalid.
\<close>

definition install_record ::
  "u8 \<Rightarrow> slot \<Rightarrow> bucket_entry \<Rightarrow> u64 \<Rightarrow> address \<Rightarrow> ('k, 'v) log_record \<Rightarrow> ('k, 'v) store \<Rightarrow> c_error + bool \<times> ('k, 'v) store" where
  "install_record v sl expected hash a r s =
     bindR (cas_entry v sl expected (HashBucketEntry a (hash_tag hash) False) (kv_index s)) (\<lambda>(ok, _, x).
       if ok then Inr (True, s\<lparr>kv_index := x\<rparr>)
       else bindR (write_record a (r\<lparr>rec_header := set_invalid (rec_header r)\<rparr>) s) (\<lambda>s'. Inr (False, s')))"

section \<open>Reading\<close>

definition InternalRead ::
  "('k, 'v) key_class \<Rightarrow> nat \<Rightarrow> ('k, 'v) pending \<Rightarrow> ('k, 'v) store \<Rightarrow>
   c_error + OperationStatus \<times> ('k, 'v) pending \<times> ('k, 'v) store" where
  "InternalRead K t p s =
     bindR (heavy_enter K t (ctx_phase (ctx s)) s) (\<lambda>s0.
     bindR (FindEntry (GetHash K (op_key p)) (kv_index s0)) (\<lambda>found.
       case found of None \<Rightarrow> Inr (NOT_FOUND, p, s0)
       | Some sl \<Rightarrow>
           let h = hlog_of s0; ph = ctx_phase (ctx s0); ver = ctx_version (ctx s0) in
           bindR (load_entry (index_version (kv_index s0)) sl (kv_index s0)) (\<lambda>entry.
           bindR (find_record (op_key p) (entry_address entry) h) (\<lambda>(a, latest).
             if ph = PREPARE \<and> latest > ucast ver then Inr (CPR_SHIFT_DETECTED, go_async ph ver a entry p, s0)
             else bindR (address_ge a (safe_read_only_address h)) (\<lambda>fuzzy.
               bindR (address_ge a (head_address h)) (\<lambda>in_memory.
               bindR (address_ge a (hlog.begin_address h)) (\<lambda>on_disk.
                 if fuzzy \<or> in_memory
                 then bindR (record_at a h) (\<lambda>r. Inr (SUCCESS, p\<lparr>got := Some (rec_value r)\<rparr>, s0))
                 else if on_disk then Inr (RECORD_ON_DISK, go_async ph ver a entry p, s0)
                 else Inr (NOT_FOUND, p, s0))))))))"

section \<open>Upsert\<close>

text \<open>
  One pass of an operation that may start again: the status, or \<open>None\<close> when it does; the guard is released
  at the end of the outermost call.
\<close>

type_synonym ('k, 'v) pass =
  "OperationStatus option \<times> ('k, 'v) pending \<times> ('k, 'v) store \<times> lock_guard"

text \<open>The label \<open>create_record\<close> of \<open>InternalUpsert\<close> and \<open>InternalDelete\<close>.\<close>

definition create_put ::
  "('k, 'v) key_class \<Rightarrow> nat \<Rightarrow> u8 \<Rightarrow> slot \<Rightarrow> bucket_entry \<Rightarrow> ('k, 'v) pending \<Rightarrow> lock_guard \<Rightarrow> ('k, 'v) store \<Rightarrow>
   c_error + ('k, 'v) pass" where
  "create_put K t v sl expected p g s =
     bindR (new_record_size K p) (\<lambda>n.
     bindR (BlockAllocate K t n s) (\<lambda>(a, s1).
       let r = \<lparr>rec_header = RecordInfo (ucast (ctx_version (ctx s1))) True False False (entry_address expected),
                rec_key = op_key p, rec_value = put_value (op_client p)\<rparr> in
       bindR (write_record a r s1) (\<lambda>s2.
       bindR (install_record v sl expected (GetHash K (op_key p)) a r s2) (\<lambda>(ok, s3).
         Inr (if ok then Some SUCCESS else None, p, s3, g)))))"

text \<open>Updating the record at \<open>a\<close> in place with \<open>f\<close>, or creating a new one when that is refused.\<close>

definition update_in_place ::
  "address \<Rightarrow> ('v \<Rightarrow> 'v option) \<Rightarrow> (('k, 'v) store \<Rightarrow> c_error + ('k, 'v) pass) \<Rightarrow> ('k, 'v) pending \<Rightarrow> lock_guard \<Rightarrow>
   ('k, 'v) store \<Rightarrow> c_error + ('k, 'v) pass" where
  "update_in_place a f create p g s =
     bindR (record_at a (hlog_of s)) (\<lambda>r. case f (rec_value r) of
         Some w \<Rightarrow> bindR (write_record a (r\<lparr>rec_value := w\<rparr>) s) (\<lambda>s'. Inr (Some SUCCESS, p, s', g))
       | None \<Rightarrow> create s)"

definition upsert_pass ::
  "('k, 'v) key_class \<Rightarrow> nat \<Rightarrow> ('k, 'v) pending \<Rightarrow> ('k, 'v) store \<Rightarrow> c_error + ('k, 'v) pass" where
  "upsert_pass K t p s =
     bindR (heavy_enter K t (ctx_phase (ctx s)) s) (\<lambda>s0.
     let hash = GetHash K (op_key p); v = index_version (kv_index s0) in
     bindR (FindOrCreateEntry t (safe_epoch s0) hash (kv_index s0)) (\<lambda>(sl, expected, x).
     let s1 = s0\<lparr>kv_index := x\<rparr>; h = hlog_of s1; ph = ctx_phase (ctx s1); ver = ctx_version (ctx s1) in
     bindR (find_record (op_key p) (entry_address expected) h) (\<lambda>(a, latest).
     bindR (CheckpointLockGuard (kv_locks s1) hash) (\<lambda>g.
     bindR (address_ge a (read_only_address h)) (\<lambda>mutable_region.
       let in_place = (\<lambda>g s. update_in_place a (put_atomic (op_client p)) (create_put K t v sl expected p g) p g s) in
       if ph = REST \<and> mutable_region then in_place g s1
       else bindR (acquire_locks ph ver latest (kv_locks s1) g) (\<lambda>(d, ls, g1).
         let s2 = put_locks ls s1 in
         case d of GiveUp st \<Rightarrow> Inr (Some st, go_async ph ver a expected p, s2, g1)
         | CreateRecord \<Rightarrow> create_put K t v sl expected p g1 s2
         | Proceed \<Rightarrow>
             if mutable_region
             then bindR (load_entry v sl (kv_index s2)) (\<lambda>entry.
               if entry \<noteq> expected then Inr (Some RETRY_NOW, p, s2, g1) else in_place g1 s2)
             else create_put K t v sl expected p g1 s2))))))"

function retry_pass ::
  "(('k, 'v) pending \<Rightarrow> ('k, 'v) store \<Rightarrow> c_error + ('k, 'v) pass) \<Rightarrow> ('k, 'v) pending \<Rightarrow> ('k, 'v) store \<Rightarrow>
   c_error + OperationStatus \<times> ('k, 'v) pending \<times> ('k, 'v) store" where
  "retry_pass body p s =
     (case body p s of Inl e \<Rightarrow> Inl e
      | Inr (Some st, p1, s1, g) \<Rightarrow> bindR (release_guard g s1) (\<lambda>s2. Inr (st, p1, s2))
      | Inr (None, p1, s1, g) \<Rightarrow>
          if \<not> length (env s1) < length (env s) then Inl Spins
          else (case retry_pass body p1 s1 of Inl e \<Rightarrow> Inl e
            | Inr (st, p2, s2) \<Rightarrow> bindR (release_guard g s2) (\<lambda>s3. Inr (st, p2, s3))))"
  by pat_completeness auto
termination
  by (relation "measure (\<lambda>(body, p, s). length (env s))") auto

declare retry_pass.simps [simp del]

definition InternalUpsert ::
  "('k, 'v) key_class \<Rightarrow> nat \<Rightarrow> ('k, 'v) pending \<Rightarrow> ('k, 'v) store \<Rightarrow>
   c_error + OperationStatus \<times> ('k, 'v) pending \<times> ('k, 'v) store" where
  "InternalUpsert K t = retry_pass (upsert_pass K t)"

section \<open>Delete\<close>

definition delete_pass ::
  "('k, 'v) key_class \<Rightarrow> nat \<Rightarrow> ('k, 'v) pending \<Rightarrow> ('k, 'v) store \<Rightarrow> c_error + ('k, 'v) pass" where
  "delete_pass K t p s =
     bindR (heavy_enter K t (ctx_phase (ctx s)) s) (\<lambda>s0.
     let hash = GetHash K (op_key p); v = index_version (kv_index s0) in
     bindR (FindOrCreateEntry t (safe_epoch s0) hash (kv_index s0)) (\<lambda>(sl, expected, x).
     let s1 = s0\<lparr>kv_index := x\<rparr>; h = hlog_of s1; ph = ctx_phase (ctx s1); ver = ctx_version (ctx s1) in
     bindR (find_record (op_key p) (entry_address expected) h) (\<lambda>(a, latest).
     bindR (CheckpointLockGuard (kv_locks s1) hash) (\<lambda>g.
     bindR (acquire_locks ph ver latest (kv_locks s1) g) (\<lambda>(d, ls, g1).
       let s2 = put_locks ls s1 in
       case d of GiveUp st \<Rightarrow> Inr (Some st, go_async ph ver a expected p, s2, g1)
       | CreateRecord \<Rightarrow> create_put K t v sl expected p g1 s2
       | Proceed \<Rightarrow>
           bindR (address_ge a (read_only_address h)) (\<lambda>mutable_region.
             if mutable_region
             then bindR (load_entry v sl (kv_index s2)) (\<lambda>entry.
               if entry_address entry = a
               then bindR (store_entry v sl kInvalidEntry (kv_index s2)) (\<lambda>x'. Inr (Some SUCCESS, p, s2\<lparr>kv_index := x'\<rparr>, g1))
               else Inr (Some SUCCESS, p, s2, g1))
             else create_put K t v sl expected p g1 s2))))))"

definition InternalDelete ::
  "('k, 'v) key_class \<Rightarrow> nat \<Rightarrow> ('k, 'v) pending \<Rightarrow> ('k, 'v) store \<Rightarrow>
   c_error + OperationStatus \<times> ('k, 'v) pending \<times> ('k, 'v) store" where
  "InternalDelete K t = retry_pass (delete_pass K t)"

section \<open>Read-modify-write\<close>

definition note_async :: "bool \<Rightarrow> Phase \<Rightarrow> u32 \<Rightarrow> address \<Rightarrow> bucket_entry \<Rightarrow> ('k, 'v) pending \<Rightarrow> ('k, 'v) pending" where
  "note_async retrying ph ver a e p = (if retrying then continue_async a e p else go_async ph ver a e p)"

text \<open>
  The label \<open>create_record\<close> of \<open>InternalRmw\<close>. The record is made before it is known whether the old value is
  still in memory.
\<close>

definition create_rmw ::
  "('k, 'v) key_class \<Rightarrow> nat \<Rightarrow> bool \<Rightarrow> Phase \<Rightarrow> u32 \<Rightarrow> u8 \<Rightarrow> slot \<Rightarrow> bucket_entry \<Rightarrow> address \<Rightarrow> ('k, 'v) pending \<Rightarrow> lock_guard \<Rightarrow>
   ('k, 'v) store \<Rightarrow> c_error + ('k, 'v) pass" where
  "create_rmw K t retrying ph ver v sl expected a p g s =
     bindR (new_record_size K p) (\<lambda>n.
     bindR (BlockAllocate K t n s) (\<lambda>(a', s1).
       let h = hlog_of s1;
           ph' = (if retrying then ph else ctx_phase (ctx s1));
           ver' = (if retrying then ver else ctx_version (ctx s1));
           r = \<lparr>rec_header = RecordInfo (ucast ver') True False False (entry_address expected),
                rec_key = op_key p, rec_value = blank_value K\<rparr>;
           link = (\<lambda>w s. let r' = r\<lparr>rec_value := w\<rparr> in
             bindR (write_record a' r' s) (\<lambda>s2.
             bindR (install_record v sl expected (GetHash K (op_key p)) a' r' s2) (\<lambda>(ok, s3).
               Inr (if ok then (Some SUCCESS, p, s3, g)
                    else (Some RETRY_NOW, note_async retrying ph' ver' a expected p, s3, g)))))
       in bindR (write_record a' r s1) (\<lambda>s2.
          bindR (address_less a (hlog.begin_address h)) (\<lambda>none.
            if none then link (rmw_initial (op_client p)) s2
            else bindR (address_ge a (head_address h)) (\<lambda>in_memory.
              if in_memory
              then bindR (record_at a (hlog_of s2)) (\<lambda>old. link (rmw_copy (op_client p) (rec_value old)) s2)
              else bindR (write_record a' (r\<lparr>rec_header := set_invalid (rec_header r)\<rparr>) s2) (\<lambda>s3.
                Inr (Some RECORD_ON_DISK, note_async retrying ph' ver' a expected p, s3, g)))))))"

definition rmw_pass ::
  "('k, 'v) key_class \<Rightarrow> nat \<Rightarrow> bool \<Rightarrow> ('k, 'v) pending \<Rightarrow> ('k, 'v) store \<Rightarrow> c_error + ('k, 'v) pass" where
  "rmw_pass K t retrying p s =
     (let ph = (if retrying then pend_phase p else ctx_phase (ctx s));
          ver = (if retrying then pend_version p else ctx_version (ctx s)) in
     bindR (heavy_enter K t ph s) (\<lambda>s0.
     let hash = GetHash K (op_key p); v = index_version (kv_index s0) in
     bindR (FindOrCreateEntry t (safe_epoch s0) hash (kv_index s0)) (\<lambda>(sl, expected, x).
     let s1 = s0\<lparr>kv_index := x\<rparr>; h = hlog_of s1 in
     bindR (find_record (op_key p) (entry_address expected) h) (\<lambda>(a, latest).
     bindR (CheckpointLockGuard (kv_locks s1) hash) (\<lambda>g.
     bindR (address_ge a (read_only_address h)) (\<lambda>mutable_region.
       let create = create_rmw K t retrying ph ver v sl expected a p;
           in_place = (\<lambda>g s. update_in_place a (rmw_atomic (op_client p)) (create g) p g s);
           later = (\<lambda>st g s. Inr (Some st, note_async retrying ph ver a expected p, s, g)) in
       if ph = REST \<and> mutable_region then in_place g s1
       else bindR (acquire_locks ph ver latest (kv_locks s1) g) (\<lambda>(d, ls, g1).
         let s2 = put_locks ls s1 in
         case d of
           GiveUp st \<Rightarrow> if st = CPR_SHIFT_DETECTED \<and> retrying then Inl AssertFail else later st g1 s2
         | CreateRecord \<Rightarrow> create g1 s2
         | Proceed \<Rightarrow>
             if mutable_region
             then bindR (load_entry v sl (kv_index s2)) (\<lambda>entry.
               if entry \<noteq> expected then Inr (Some RETRY_NOW, p, s2, g1) else in_place g1 s2)
             else bindR (address_ge a (safe_read_only_address h)) (\<lambda>fuzzy.
               if fuzzy then later RETRY_LATER g1 s2
               else bindR (address_ge a (head_address h)) (\<lambda>in_memory.
                 if in_memory then create g1 s2
                 else bindR (address_ge a (hlog.begin_address h)) (\<lambda>on_disk.
                   if on_disk then later RECORD_ON_DISK g1 s2 else create g1 s2))))))))))"

definition InternalRmw ::
  "('k, 'v) key_class \<Rightarrow> nat \<Rightarrow> bool \<Rightarrow> ('k, 'v) pending \<Rightarrow> ('k, 'v) store \<Rightarrow>
   c_error + OperationStatus \<times> ('k, 'v) pending \<times> ('k, 'v) store" where
  "InternalRmw K t retrying = retry_pass (rmw_pass K t retrying)"

definition InternalRetryPendingRmw ::
  "('k, 'v) key_class \<Rightarrow> nat \<Rightarrow> ('k, 'v) pending \<Rightarrow> ('k, 'v) store \<Rightarrow>
   c_error + OperationStatus \<times> ('k, 'v) pending \<times> ('k, 'v) store" where
  "InternalRetryPendingRmw K t p s =
     bindR (InternalRmw K t True p s) (\<lambda>(st, p', s').
       Inr (if st = SUCCESS \<and> pend_version p' \<noteq> ctx_version (ctx s') then SUCCESS_UNMARK else st, p', s'))"

section \<open>Reads of the disk\<close>

text \<open>\<open>AsyncGetFromDisk\<close>; the throttling of a thread with many reads under way is a delay only.\<close>

definition AsyncGetFromDisk :: "u32 \<Rightarrow> ('k, 'v) io_context \<Rightarrow> ('k, 'v) store \<Rightarrow> ('k, 'v) store" where
  "AsyncGetFromDisk n io s = s\<lparr>disk_reads := disk_reads s @ [(n, io)], num_pending_ios := num_pending_ios s + 1\<rparr>"

definition MinIoRequestSize :: "('k, 'v) key_class \<Rightarrow> c_error + u32" where
  "MinIoRequestSize K =
     bindR (min_disk_key_size (key_align K) (sizeof_key K)) (\<lambda>n.
     bindR (pad_alignment (ucast n) (value_align K)) (\<lambda>m. Inr (ucast (sizeof_value K + m))))"

definition IssueAsyncIoRequest ::
  "('k, 'v) key_class \<Rightarrow> ('k, 'v) pending \<Rightarrow> ('k, 'v) store \<Rightarrow> c_error + status \<times> bool \<times> ('k, 'v) store" where
  "IssueAsyncIoRequest K p s =
     (let c = ctx s; num = io_id c;
          c' = c\<lparr>io_id := num + 1, pending_ios := pending_ios c @ [(num, GetHash K (op_key p))]\<rparr>;
          io = \<lparr>io_slot = cur s, io_number = num, io_address = pend_address p, io_record = None, io_caller = p\<rparr>
      in bindR (MinIoRequestSize K) (\<lambda>n. Inr (Pending, True, AsyncGetFromDisk n io (put_ctx (cur s) c' s))))"

text \<open>
  The callback of a read: \<open>result\<close> is its status, \<open>available\<close> the number of bytes that were read and \<open>r\<close> the
  record they belong to.
\<close>

definition AsyncGetFromDiskCallback ::
  "('k, 'v) key_class \<Rightarrow> status \<Rightarrow> u64 \<Rightarrow> ('k, 'v) log_record \<Rightarrow> ('k, 'v) io_context \<Rightarrow> ('k, 'v) store \<Rightarrow> c_error + ('k, 'v) store" where
  "AsyncGetFromDiskCallback K result available r io s =
     (let s1 = s\<lparr>num_pending_ios := num_pending_ios s - 1\<rparr>;
          push = (\<lambda>io. let c = contexts s1 (io_slot io) in put_ctx (io_slot io) (c\<lparr>io_responses := io_responses c @ [io]\<rparr>) s1)
      in if result \<noteq> Ok then Inr s1
         else bindR (min_disk_key_size (key_align K) (sizeof_key K)) (\<lambda>n1.
           if ucast n1 > available then Inr (AsyncGetFromDisk n1 io s1)
           else bindR (min_disk_value_size (key_align K) (value_align K) (sizeof_value K) (key_bytes K (rec_key r))) (\<lambda>n2.
             if ucast n2 > available then Inr (AsyncGetFromDisk n2 io s1)
             else bindR (disk_size (key_align K) (value_align K) (key_bytes K (rec_key r)) (stored_bytes K (rec_value r))) (\<lambda>n3.
               if ucast n3 > available then Inr (AsyncGetFromDisk n3 io s1)
               else if op_key (io_caller io) = rec_key r then Inr (push (io\<lparr>io_record := Some r\<rparr>))
               else let io' = io\<lparr>io_address := previous_address (rec_header r), io_record := Some r\<rparr> in
                 bindR (address_ge (io_address io') (hlog.begin_address (hlog_of s1))) (\<lambda>go_on.
                   if go_on then bindR (MinIoRequestSize K) (\<lambda>n. Inr (AsyncGetFromDisk n io' s1))
                   else Inr (push io'))))))"

text \<open>The operation whose read of the disk is finished; \<open>b\<close> is the slot of its context.\<close>

definition InternalContinuePendingRead ::
  "bool \<Rightarrow> ('k, 'v) io_context \<Rightarrow> ('k, 'v) store \<Rightarrow> c_error + OperationStatus \<times> ('k, 'v) pending \<times> ('k, 'v) store" where
  "InternalContinuePendingRead b io s =
     (let unmark = (ctx_version (ctx s) > ctx_version (contexts s b)); p = io_caller io in
      bindR (address_ge (io_address io) (hlog.begin_address (hlog_of s))) (\<lambda>found.
        if found then (case io_record io of None \<Rightarrow> Inl UB
          | Some r \<Rightarrow> Inr (if unmark then SUCCESS_UNMARK else SUCCESS, p\<lparr>got := Some (rec_value r)\<rparr>, s))
        else Inr (if unmark then NOT_FOUND_UNMARK else NOT_FOUND, p, s)))"

definition InternalContinuePendingRmw ::
  "('k, 'v) key_class \<Rightarrow> nat \<Rightarrow> bool \<Rightarrow> ('k, 'v) io_context \<Rightarrow> ('k, 'v) store \<Rightarrow>
   c_error + OperationStatus \<times> ('k, 'v) pending \<times> ('k, 'v) store" where
  "InternalContinuePendingRmw K t b io s =
     (let p = io_caller io; hash = GetHash K (op_key p); v = index_version (kv_index s) in
      bindR (FindOrCreateEntry t (safe_epoch s) hash (kv_index s)) (\<lambda>(sl, expected, x).
      let s1 = s\<lparr>kv_index := x\<rparr> in
      bindR (find_record (op_key p) (entry_address expected) (hlog_of s1)) (\<lambda>(a, _).
      bindR (address_greater a (entry_address (pend_entry p))) (\<lambda>newer.
        if newer then Inr (RETRY_NOW, continue_async a expected p, s1)
        else bindR (address_less a (hlog.begin_address (hlog_of s1))) (\<lambda>none.
          if \<not> none \<and> a \<noteq> entry_address (pend_entry p) then Inl AssertFail
          else bindR (new_record_size K p) (\<lambda>n.
            bindR (BlockAllocate K t n s1) (\<lambda>(a', s2).
            bindR (address_less (io_address io) (hlog.begin_address (hlog_of s2))) (\<lambda>missing.
            bindR (if missing then Inr (rmw_initial (op_client p))
                   else case io_record io of None \<Rightarrow> Inl UB | Some old \<Rightarrow> Inr (rmw_copy (op_client p) (rec_value old))) (\<lambda>w.
              let r = \<lparr>rec_header = RecordInfo (ucast (ctx_version (contexts s2 b))) True False False (entry_address expected),
                       rec_key = op_key p, rec_value = w\<rparr> in
              bindR (write_record a' r s2) (\<lambda>s3.
              bindR (install_record v sl expected hash a' r s3) (\<lambda>(ok, s4).
                if \<not> ok then Inr (RETRY_NOW, continue_async a expected p, s4)
                else if \<not> ctx_version (ctx s4) \<ge> ctx_version (contexts s4 b) then Inl AssertFail
                else Inr (if ctx_version (ctx s4) = ctx_version (contexts s4 b) then SUCCESS else SUCCESS_UNMARK, p, s4))))))))))))"

section \<open>The rest of the system gets fewer turns\<close>

lemma await_grow_start_env [env_len]: "await_grow_start K t s = Inr s' \<Longrightarrow> length (env s') \<le> length (env s)"
proof (induction K t s rule: await_grow_start.induct)
  case (1 K t s)
  show ?case
  proof (cases "ctx_phase (ctx s) = GROW_PREPARE")
    case True
    then obtain s1 where "Refresh K t s = Inr s1" "await_grow_start K t s1 = Inr s'"
      using "1.prems" by (subst (asm) await_grow_start.simps) (auto split: sum.splits)
    then show ?thesis using "1.IH" [of s1] True Refresh_env [of K t s s1] by simp
  next
    case False
    then show ?thesis using "1.prems" by (subst (asm) await_grow_start.simps) auto
  qed
qed

lemma heavy_enter_env [env_len]: "heavy_enter K t ph s = Inr s' \<Longrightarrow> length (env s') \<le> length (env s)"
  by (fastforce simp: heavy_enter_def HeavyEnter_def clean_chunk_def bindR_Inr_iff dest!: env_len split: if_splits)

lemma block_loop_env: "block_loop K t n a p s = Inr (a', s') \<Longrightarrow> length (env s') \<le> length (env s)"
proof (induction K t n a p s rule: block_loop.induct)
  case (1 K t n a p s)
  from "1.prems" obtain again where ag: "address_less a (read_only_address (hlog_of s)) = Inr again"
    by (subst (asm) block_loop.simps) (auto split: sum.splits)
  show ?case
  proof (cases again)
    case False
    then show ?thesis using "1.prems" ag by (subst (asm) block_loop.simps) auto
  next
    case True
    with "1.prems" ag obtain s1 s2 b q s3 where s: "Refresh K t s = Inr s1"
      "(if a = kInvalidAddress then new_page_loop K t p s1 else Inr s1) = Inr s2"
      "log_Allocate t n s2 = Inr (b, q, s3)" "block_loop K t n b q s3 = Inr (a', s')"
      by (subst (asm) block_loop.simps) (auto split: sum.splits)
    have "length (env s') \<le> length (env s3)" using "1.IH" [OF ag _ s(1,2,3) refl refl s(4)] True by simp
    moreover have "length (env s2) \<le> length (env s1)" using s(2) new_page_loop_env [of K t p s1 s2] by (auto split: if_splits)
    ultimately show ?thesis using Refresh_env [OF s(1)] log_Allocate_env [OF s(3)] by simp
  qed
qed

lemma BlockAllocate_env: "BlockAllocate K t n s = Inr (a, s') \<Longrightarrow> length (env s') \<le> length (env s)"
  by (auto simp: BlockAllocate_def bindR_Inr_iff dest!: block_loop_env log_Allocate_env)

lemma write_record_env: "write_record a r s = Inr s' \<Longrightarrow> env s' = env s"
  by (auto simp: write_record_def bindR_Inr_iff)

lemma install_record_env: "install_record v sl e hash a r s = Inr (ok, s') \<Longrightarrow> env s' = env s"
  by (auto simp: install_record_def bindR_Inr_iff dest: write_record_env split: if_splits)

lemma create_put_env: "create_put K t v sl e p g s = Inr (st, p', s', g') \<Longrightarrow> length (env s') \<le> length (env s)"
  by (fastforce simp: create_put_def bindR_Inr_iff Let_def dest!: BlockAllocate_env write_record_env install_record_env)

lemma update_in_place_env:
  assumes "update_in_place a f c p g s = Inr (st, p', s', g')"
    and "\<And>s1 st p' s' g'. c s1 = Inr (st, p', s', g') \<Longrightarrow> length (env s') \<le> length (env s1)"
  shows "length (env s') \<le> length (env s)"
  using assms by (auto simp: update_in_place_def bindR_Inr_iff dest!: write_record_env split: option.splits)

lemma create_rmw_env:
  "create_rmw K t b ph ver v sl e a p g s = Inr (st, p', s', g') \<Longrightarrow> length (env s') \<le> length (env s)"
  by (auto simp: create_rmw_def bindR_Inr_iff Let_def dest!: BlockAllocate_env write_record_env install_record_env
      split: if_splits)

lemma put_in_place_env:
  "update_in_place a f (create_put K t v sl e p g) q g1 s = Inr (st, p', s', g') \<Longrightarrow> length (env s') \<le> length (env s)"
  by (erule update_in_place_env) (rule create_put_env)

lemma rmw_in_place_env:
  "update_in_place a f (create_rmw K t b ph ver v sl e a1 p g) q g1 s = Inr (st, p', s', g') \<Longrightarrow>
   length (env s') \<le> length (env s)"
  by (erule update_in_place_env) (rule create_rmw_env)

lemma upsert_pass_env: "upsert_pass K t p s = Inr (st, p', s', g') \<Longrightarrow> length (env s') \<le> length (env s)"
  by (auto simp: upsert_pass_def bindR_Inr_iff Let_def lock_result.case_eq_if dest!: heavy_enter_env create_put_env put_in_place_env
      split: if_splits)

lemma delete_pass_env: "delete_pass K t p s = Inr (st, p', s', g') \<Longrightarrow> length (env s') \<le> length (env s)"
  by (auto simp: delete_pass_def bindR_Inr_iff Let_def lock_result.case_eq_if dest!: heavy_enter_env create_put_env
      split: if_splits)

lemma rmw_pass_env: "rmw_pass K t b p s = Inr (st, p', s', g') \<Longrightarrow> length (env s') \<le> length (env s)"
  by (auto simp: rmw_pass_def bindR_Inr_iff Let_def lock_result.case_eq_if dest!: heavy_enter_env create_rmw_env rmw_in_place_env
      split: if_splits)

lemma retry_pass_env:
  assumes "retry_pass body p s = Inr (st, p', s')"
    and "\<forall>p s st p' s' g'. body p s = Inr (st, p', s', g') \<longrightarrow> length (env s') \<le> length (env s)"
  shows "length (env s') \<le> length (env s)"
  using assms
proof (induction body p s arbitrary: st p' s' rule: retry_pass.induct)
  case (1 body p s)
  obtain o1 p1 s1 g where b: "body p s = Inr (o1, p1, s1, g)"
    using "1.prems"(1) by (subst (asm) retry_pass.simps) (auto split: sum.splits)
  then have le: "length (env s1) \<le> length (env s)" using "1.prems"(2) by blast
  show ?case
  proof (cases o1)
    case (Some st1)
    then show ?thesis using "1.prems"(1) b le
      by (subst (asm) retry_pass.simps) (auto simp: bindR_Inr_iff release_guard_def split: if_splits)
  next
    case None
    then obtain st2 p2 s2 where r: "length (env s1) < length (env s)" "retry_pass body p1 s1 = Inr (st2, p2, s2)"
      "release_guard g s2 = Inr s'"
      using "1.prems"(1) b by (subst (asm) retry_pass.simps) (auto simp: bindR_Inr_iff split: sum.splits if_splits)
    then have "length (env s2) \<le> length (env s1)" using "1.IH" [OF b refl None refl refl] "1.prems"(2) by auto
    then show ?thesis using r by (auto simp: release_guard_def split: if_splits)
  qed
qed

section \<open>Handling a status\<close>

text \<open>
  The dispatch on the tag of the context. A context of another class is undefined behaviour; for \<open>Insert\<close>
  there is no case.
\<close>

definition run_internal ::
  "('k, 'v) key_class \<Rightarrow> nat \<Rightarrow> ('k, 'v) pending \<Rightarrow> ('k, 'v) store \<Rightarrow>
   c_error + OperationStatus \<times> ('k, 'v) pending \<times> ('k, 'v) store" where
  "run_internal K t p s =
     (if op_type p = OpInsert then Inr (RETRY_NOW, p, s)
      else if op_class p \<noteq> op_type p then Inl UB
      else case op_type p of
        OpRead \<Rightarrow> InternalRead K t p s
      | OpUpsert \<Rightarrow> InternalUpsert K t p s
      | OpDelete \<Rightarrow> InternalDelete K t p s
      | _ \<Rightarrow> InternalRmw K t False p s)"

lemma run_internal_env: "run_internal K t p s = Inr (st, p', s') \<Longrightarrow> length (env s') \<le> length (env s)"
proof -
  have rd: "InternalRead K t p s = Inr (st, p', s') \<Longrightarrow> ?thesis"
    by (auto simp: InternalRead_def bindR_Inr_iff Let_def dest!: heavy_enter_env split: if_splits option.splits)
  have up: "retry_pass (upsert_pass K t) p s = Inr (st, p', s') \<Longrightarrow> ?thesis"
    by (erule retry_pass_env) (use upsert_pass_env in blast)
  have de: "retry_pass (delete_pass K t) p s = Inr (st, p', s') \<Longrightarrow> ?thesis"
    by (erule retry_pass_env) (use delete_pass_env in blast)
  have rm: "retry_pass (rmw_pass K t False) p s = Inr (st, p', s') \<Longrightarrow> ?thesis"
    by (erule retry_pass_env) (use rmw_pass_env in blast)
  show "run_internal K t p s = Inr (st, p', s') \<Longrightarrow> ?thesis"
    using rd up de rm by (auto simp: run_internal_def InternalUpsert_def InternalDelete_def InternalRmw_def
        split: if_splits OperationType.splits)
qed

text \<open>Locking the record of an operation that goes pending in the phase \<open>PREPARE\<close>, and unlocking it.\<close>

definition lock_pending :: "('k, 'v) key_class \<Rightarrow> ('k, 'v) pending \<Rightarrow> ('k, 'v) store \<Rightarrow> c_error + bool \<times> ('k, 'v) store" where
  "lock_pending K p s =
     bindR (get_lock (kv_locks s) (GetHash K (op_key p))) (\<lambda>i.
       let (ok, c) = try_lock_old (lock_at (kv_locks s) i) in Inr (ok, put_locks (put_lock (kv_locks s) i c) s))"

definition unlock_pending :: "('k, 'v) key_class \<Rightarrow> ('k, 'v) pending \<Rightarrow> ('k, 'v) store \<Rightarrow> c_error + ('k, 'v) store" where
  "unlock_pending K p s =
     bindR (get_lock (kv_locks s) (GetHash K (op_key p))) (\<lambda>i.
       Inr (put_locks (put_lock (kv_locks s) i (unlock_old (lock_at (kv_locks s) i))) s))"

definition RetryLater :: "bool \<Rightarrow> ('k, 'v) pending \<Rightarrow> ('k, 'v) store \<Rightarrow> status \<times> bool \<times> ('k, 'v) store" where
  "RetryLater b p s =
     (let c = contexts s b in (Pending, True, put_ctx b (c\<lparr>retry_requests := retry_requests c @ [p]\<rparr>) s))"

text \<open>\<open>PivotAndRetry\<close> up to its last call: the slot of the new context, the operation and the store.\<close>

definition pivot ::
  "('k, 'v) key_class \<Rightarrow> nat \<Rightarrow> bool \<Rightarrow> ('k, 'v) pending \<Rightarrow> ('k, 'v) store \<Rightarrow> c_error + bool \<times> ('k, 'v) pending \<times> ('k, 'v) store" where
  "pivot K t b p s =
     (if ctx_version (contexts s b) \<noteq> ctx_version (ctx s) \<or> ctx_phase (ctx s) \<noteq> PREPARE then Inl AssertFail
      else bindR (Refresh K t s) (\<lambda>s1.
        if ctx_version (ctx s1) \<noteq> ctx_version (contexts s1 b) + 1 then Inl AssertFail
        else Inr (cur s1, p\<lparr>pend_phase := ctx_phase (ctx s1), pend_version := ctx_version (ctx s1)\<rparr>, s1)))"

lemma pivot_env: "pivot K t b p s = Inr (b', p', s') \<Longrightarrow> length (env s') < length (env s)"
  by (auto simp: pivot_def bindR_Inr_iff dest!: Refresh_env split: if_splits)

text \<open>
  \<open>HandleOperationStatus\<close> for the context in slot \<open>b\<close>: the status, \<open>async\<close> and the store. What needs no further
  attempt is \<open>settle\<close>; \<open>Inr None\<close> there stands for \<open>PivotAndRetry\<close>.
\<close>

definition settle ::
  "('k, 'v) key_class \<Rightarrow> bool \<Rightarrow> ('k, 'v) pending \<Rightarrow> OperationStatus \<Rightarrow> ('k, 'v) store \<Rightarrow>
   c_error + (status \<times> bool \<times> ('k, 'v) store) option \<times> ('k, 'v) store" where
  "settle K b p st s =
     (case st of
        RETRY_LATER \<Rightarrow>
          if ctx_phase (ctx s) = PREPARE
          then if op_type p \<noteq> OpRMW then Inl AssertFail
               else bindR (lock_pending K p s) (\<lambda>(ok, s1). Inr (if ok then Some (RetryLater b p s1) else None, s1))
          else Inr (Some (RetryLater b p s), s)
      | RECORD_ON_DISK \<Rightarrow>
          if ctx_phase (ctx s) = PREPARE
          then if op_type p \<noteq> OpRead \<and> op_type p \<noteq> OpRMW then Inl AssertFail
               else bindR (lock_pending K p s) (\<lambda>(ok, s1).
                 if ok then bindR (IssueAsyncIoRequest K p s1) (\<lambda>res. Inr (Some res, s1)) else Inr (None, s1))
          else bindR (IssueAsyncIoRequest K p s) (\<lambda>res. Inr (Some res, s))
      | SUCCESS_UNMARK \<Rightarrow> bindR (unlock_pending K p s) (\<lambda>s1. Inr (Some (Ok, False, s1), s1))
      | NOT_FOUND_UNMARK \<Rightarrow> bindR (unlock_pending K p s) (\<lambda>s1. Inr (Some (NotFound, False, s1), s1))
      | CPR_SHIFT_DETECTED \<Rightarrow> Inr (None, s)
      | _ \<Rightarrow> Inl AssertFail)"

lemma settle_env: "settle K b p st s = Inr (res, s') \<Longrightarrow> env s' = env s"
  by (auto simp: settle_def lock_pending_def unlock_pending_def bindR_Inr_iff case_prod_unfold Let_def
      split: OperationStatus.splits if_splits)

function HandleOperationStatus ::
  "('k, 'v) key_class \<Rightarrow> nat \<Rightarrow> bool \<Rightarrow> ('k, 'v) pending \<Rightarrow> OperationStatus \<Rightarrow> ('k, 'v) store \<Rightarrow>
   c_error + status \<times> bool \<times> ('k, 'v) pending \<times> ('k, 'v) store" where
  "HandleOperationStatus K t b p st s =
     (if st = RETRY_NOW
      then (case run_internal K t p s of Inl e \<Rightarrow> Inl e
        | Inr (st', p', s') \<Rightarrow>
            if st' = SUCCESS then Inr (Ok, False, p', s')
            else if st' = RETRY_NOW \<and> \<not> length (env s') < length (env s) then Inl Spins
            else HandleOperationStatus K t b p' st' s')
      else (case settle K b p st s of Inl e \<Rightarrow> Inl e
        | Inr (Some (res, async, s'), _) \<Rightarrow> Inr (res, async, p, s')
        | Inr (None, s') \<Rightarrow> (case pivot K t b p s' of Inl e \<Rightarrow> Inl e
            | Inr (b', p', s'') \<Rightarrow> HandleOperationStatus K t b' p' RETRY_NOW s'')))"
  by pat_completeness auto
termination
proof (relation "inv_image (less_than <*lex*> less_than)
    (\<lambda>(K, t, b, p, st, s). (length (env s), if st = RETRY_NOW then 1 else 0 :: nat))", goal_cases)
  case 1
  show ?case by (intro wf_inv_image wf_lex_prod wf_less_than)
next
  case (2 K t b p st s x st' y p' s')
  then show ?case using run_internal_env [of K t p s st' p' s'] by auto
next
  case (3 K t b p st s x o' s' y b' z p' s'')
  then show ?case using settle_env [of K b p st s None s'] pivot_env [of K t b p s' b' p' s''] by auto
qed

declare HandleOperationStatus.simps [simp del]

section \<open>The operations\<close>

definition set_serial :: "u64 \<Rightarrow> ('k, 'v) store \<Rightarrow> ('k, 'v) store" where
  "set_serial n s = put_ctx (cur s) ((ctx s)\<lparr>serial_num := n\<rparr>) s"

text \<open>What \<open>Upsert\<close>, \<open>Rmw\<close> and \<open>Delete\<close> do with the status of their first attempt; the context is part of the result.\<close>

definition conclude ::
  "('k, 'v) key_class \<Rightarrow> nat \<Rightarrow> u64 \<Rightarrow> OperationStatus \<times> ('k, 'v) pending \<times> ('k, 'v) store \<Rightarrow>
   c_error + status \<times> ('k, 'v) pending \<times> ('k, 'v) store" where
  "conclude K t n res =
     (let (st, p, s) = res in
      if st = SUCCESS then Inr (Ok, p, set_serial n s)
      else bindR (HandleOperationStatus K t (cur s) p st s) (\<lambda>(r, _, p', s'). Inr (r, p', set_serial n s')))"

definition Read ::
  "('k, 'v) key_class \<Rightarrow> nat \<Rightarrow> 'k \<Rightarrow> 'v client \<Rightarrow> u64 \<Rightarrow> ('k, 'v) store \<Rightarrow> c_error + status \<times> ('k, 'v) pending \<times> ('k, 'v) store" where
  "Read K t k c n s =
     bindR (InternalRead K t (new_pending OpRead k c) s) (\<lambda>(st, p, s1).
       if st = NOT_FOUND then Inr (NotFound, p, set_serial n s1)
       else if st \<noteq> SUCCESS \<and> st \<noteq> RECORD_ON_DISK then Inl AssertFail
       else conclude K t n (st, p, s1))"

definition Upsert ::
  "('k, 'v) key_class \<Rightarrow> nat \<Rightarrow> 'k \<Rightarrow> 'v client \<Rightarrow> u64 \<Rightarrow> ('k, 'v) store \<Rightarrow> c_error + status \<times> ('k, 'v) pending \<times> ('k, 'v) store" where
  "Upsert K t k c n s = bindR (InternalUpsert K t (new_pending OpUpsert k c) s) (conclude K t n)"

definition Rmw ::
  "('k, 'v) key_class \<Rightarrow> nat \<Rightarrow> 'k \<Rightarrow> 'v client \<Rightarrow> u64 \<Rightarrow> ('k, 'v) store \<Rightarrow> c_error + status \<times> ('k, 'v) pending \<times> ('k, 'v) store" where
  "Rmw K t k c n s = bindR (InternalRmw K t False (new_pending OpRMW k c) s) (conclude K t n)"

definition Delete ::
  "('k, 'v) key_class \<Rightarrow> nat \<Rightarrow> 'k \<Rightarrow> 'v client \<Rightarrow> u64 \<Rightarrow> ('k, 'v) store \<Rightarrow> c_error + status \<times> ('k, 'v) pending \<times> ('k, 'v) store" where
  "Delete K t k c n s = bindR (InternalDelete K t (new_pending OpDelete k c) s) (conclude K t n)"

section \<open>Completing pending operations\<close>

text \<open>
  The callbacks of the callers are returned as a list of operations with their results. The queue of
  finished reads gets no new element while it is worked off.
\<close>

type_synonym ('k, 'v) callbacks = "(('k, 'v) pending \<times> status) list"

definition report ::
  "('k, 'v) key_class \<Rightarrow> nat \<Rightarrow> bool \<Rightarrow> OperationStatus \<times> ('k, 'v) pending \<times> ('k, 'v) store \<Rightarrow>
   c_error + ('k, 'v) callbacks \<times> ('k, 'v) store" where
  "report K t b res =
     (let (st, p, s) = res in
      if st = SUCCESS then Inr ([(p, Ok)], s)
      else bindR (HandleOperationStatus K t b p st s) (\<lambda>(r, async, p', s').
        Inr (if async then [] else [(p', r)], s')))"

definition complete_io :: "('k, 'v) key_class \<Rightarrow> nat \<Rightarrow> bool \<Rightarrow> ('k, 'v) store \<Rightarrow> c_error + ('k, 'v) callbacks \<times> ('k, 'v) store" where
  "complete_io K t b s =
     (let c = contexts s b in
      case io_responses c of [] \<Rightarrow> Inr ([], s)
      | io # rest \<Rightarrow>
          if io_number io \<notin> fst ` set (pending_ios c) then Inl AssertFail
          else let s1 = put_ctx b (c\<lparr>io_responses := rest,
                          pending_ios := filter (\<lambda>q. fst q \<noteq> io_number io) (pending_ios c)\<rparr>) s in
            bindR (if op_type (io_caller io) = OpRead then InternalContinuePendingRead b io s1
                   else if op_type (io_caller io) = OpRMW then InternalContinuePendingRmw K t b io s1
                   else Inl AssertFail) (\<lambda>(st, p, s2).
              if st = NOT_FOUND then Inr ([(p, NotFound)], s2) else report K t b (st, p, s2)))"

fun repeat_complete ::
  "(('k, 'v) store \<Rightarrow> c_error + ('k, 'v) callbacks \<times> ('k, 'v) store) \<Rightarrow> nat \<Rightarrow> ('k, 'v) store \<Rightarrow>
   c_error + ('k, 'v) callbacks \<times> ('k, 'v) store" where
  "repeat_complete f 0 s = Inr ([], s)"
| "repeat_complete f (Suc n) s =
     bindR (f s) (\<lambda>(cs, s1). bindR (repeat_complete f n s1) (\<lambda>(cs', s2). Inr (cs @ cs', s2)))"

definition CompleteIoPendingRequests ::
  "('k, 'v) key_class \<Rightarrow> nat \<Rightarrow> bool \<Rightarrow> ('k, 'v) store \<Rightarrow> c_error + ('k, 'v) callbacks \<times> ('k, 'v) store" where
  "CompleteIoPendingRequests K t b s = repeat_complete (complete_io K t b) (length (io_responses (contexts s b))) s"

definition complete_retry :: "('k, 'v) key_class \<Rightarrow> nat \<Rightarrow> bool \<Rightarrow> ('k, 'v) store \<Rightarrow> c_error + ('k, 'v) callbacks \<times> ('k, 'v) store" where
  "complete_retry K t b s =
     (let c = contexts s b in
      case retry_requests c of [] \<Rightarrow> Inl UB
      | p # rest \<Rightarrow>
          let s1 = put_ctx b (c\<lparr>retry_requests := rest\<rparr>) s in
          bindR (if op_type p = OpRMW then InternalRetryPendingRmw K t p s1
                 else if op_type p = OpUpsert
                 then (if op_class p = OpUpsert then InternalUpsert K t p s1 else Inl UB)
                 else Inl AssertFail) (report K t b))"

definition CompleteRetryRequests ::
  "('k, 'v) key_class \<Rightarrow> nat \<Rightarrow> bool \<Rightarrow> ('k, 'v) store \<Rightarrow> c_error + ('k, 'v) callbacks \<times> ('k, 'v) store" where
  "CompleteRetryRequests K t b s = repeat_complete (complete_retry K t b) (length (retry_requests (contexts s b))) s"

text \<open>
  \<open>disk.TryComplete\<close> runs the callbacks of finished reads: an answer is the position of the read in
  \<open>disk_reads\<close>, its status, the bytes read and their record.
\<close>

type_synonym ('k, 'v) disk_answer = "nat \<times> status \<times> u64 \<times> ('k, 'v) log_record"

fun TryComplete :: "('k, 'v) key_class \<Rightarrow> ('k, 'v) disk_answer list \<Rightarrow> ('k, 'v) store \<Rightarrow> c_error + ('k, 'v) store" where
  "TryComplete K [] s = Inr s"
| "TryComplete K ((i, result, available, r) # ds) s =
     (if i < length (disk_reads s)
      then bindR (AsyncGetFromDiskCallback K result available r (snd (disk_reads s ! i))
             (s\<lparr>disk_reads := remove_nth i (disk_reads s)\<rparr>)) (TryComplete K ds)
      else TryComplete K ds s)"

text \<open>One round of \<open>CompletePending\<close>: whether all is done, the callbacks and the store.\<close>

definition complete_round ::
  "('k, 'v) key_class \<Rightarrow> nat \<Rightarrow> ('k, 'v) disk_answer list \<Rightarrow> ('k, 'v) store \<Rightarrow> c_error + bool \<times> ('k, 'v) callbacks \<times> ('k, 'v) store" where
  "complete_round K t ds s =
     bindR (TryComplete K ds s) (\<lambda>s1.
     bindR (if ctx_phase (ctx s1) \<noteq> WAIT_PENDING \<and> ctx_phase (ctx s1) \<noteq> IN_PROGRESS
            then CompleteIoPendingRequests K t (cur s1) s1 else Inr ([], s1)) (\<lambda>(cs1, s2).
     bindR (Refresh K t s2) (\<lambda>s3.
     bindR (CompleteRetryRequests K t (cur s3) s3) (\<lambda>(cs2, s4).
       let finished = (pending_ios (ctx s4) = [] \<and> retry_requests (ctx s4) = []) in
       if ctx_phase (ctx s4) = REST then Inr (finished, cs1 @ cs2, s4)
       else bindR (CompleteIoPendingRequests K t (\<not> cur s4) s4) (\<lambda>(cs3, s5).
         bindR (Refresh K t s5) (\<lambda>s6.
         bindR (CompleteRetryRequests K t (\<not> cur s6) s6) (\<lambda>(cs4, s7).
           Inr (False, cs1 @ cs2 @ cs3 @ cs4, s7))))))))"

text \<open>\<open>CompletePending\<close> gets the answers of the disk for each of its rounds; without further answers it is still waiting.\<close>

fun CompletePending ::
  "('k, 'v) key_class \<Rightarrow> nat \<Rightarrow> bool \<Rightarrow> ('k, 'v) disk_answer list list \<Rightarrow> ('k, 'v) store \<Rightarrow>
   c_error + bool \<times> ('k, 'v) callbacks \<times> ('k, 'v) store" where
  "CompletePending K t wait [] s = Inl Spins"
| "CompletePending K t wait (ds # dss) s =
     bindR (complete_round K t ds s) (\<lambda>(finished, cs, s1).
       if finished then Inr (True, cs, s1)
       else if wait then bindR (CompletePending K t wait dss s1) (\<lambda>(res, cs', s2). Inr (res, cs @ cs', s2))
       else Inr (False, cs, s1))"

section \<open>Sessions\<close>

definition StartSession :: "('k, 'v) key_class \<Rightarrow> nat \<Rightarrow> guid \<Rightarrow> ('k, 'v) store \<Rightarrow> c_error + guid \<times> ('k, 'v) store" where
  "StartSession K t fresh s =
     (let st = system (ctl s) in
      if phase st \<noteq> REST then Inl Thrown
      else bindR (context_Initialize (phase st) (version st) fresh 0 (ctx s)) (\<lambda>c.
        bindR (Refresh K t (put_ctx (cur s) c s)) (\<lambda>s1. Inr (ctx_guid (ctx s1), s1))))"

definition ContinueSession :: "('k, 'v) key_class \<Rightarrow> nat \<Rightarrow> guid \<Rightarrow> ('k, 'v) store \<Rightarrow> c_error + u64 \<times> ('k, 'v) store" where
  "ContinueSession K t session_id s =
     (let st = system (ctl s) in
      case map_of (continue_tokens (checkpoint (ctl s))) session_id of None \<Rightarrow> Inl Thrown
      | Some serial \<Rightarrow>
          if phase st \<noteq> REST then Inl Thrown
          else bindR (context_Initialize (phase st) (version st) session_id serial (ctx s)) (\<lambda>c.
            bindR (Refresh K t (put_ctx (cur s) c s)) (\<lambda>s1. Inr (serial, s1))))"

fun StopSession ::
  "('k, 'v) key_class \<Rightarrow> nat \<Rightarrow> ('k, 'v) disk_answer list list \<Rightarrow> ('k, 'v) store \<Rightarrow> c_error + ('k, 'v) callbacks \<times> ('k, 'v) store" where
  "StopSession K t dss s =
     (if ctx_phase (ctx s) \<noteq> REST \<or> pending_ios (ctx s) \<noteq> [] \<or> retry_requests (ctx s) \<noteq> []
      then (case dss of [] \<Rightarrow> Inl Spins
        | ds # dss' \<Rightarrow> bindR (CompletePending K t False [ds] s) (\<lambda>(_, cs, s1).
            bindR (StopSession K t dss' s1) (\<lambda>(cs', s2). Inr (cs @ cs', s2))))
      else if io_responses (ctx s) \<noteq> [] \<or> retry_requests (prev_ctx s) \<noteq> [] \<or> pending_ios (prev_ctx s) \<noteq> []
         \<or> io_responses (prev_ctx s) \<noteq> [] then Inl AssertFail
      else Inr ([], s))"

declare StopSession.simps [simp del]

section \<open>Construction\<close>

definition new_context :: "('k, 'v) exec_context" where
  "new_context = \<lparr>serial_num = 0, ctx_version = 0, ctx_guid = 0, ctx_phase = INVALID, retry_requests = [], io_id = 0,
     pending_ios = [], io_responses = []\<rparr>"

text \<open>
  The constructor: \<open>h\<close> is the log that the constructor of the log returns, \<open>c\<close> the checkpoint, collection
  and growth states as their constructors leave them, \<open>e\<close> and \<open>es\<close> the environment.
\<close>

definition new_store ::
  "nat \<Rightarrow> u64 \<Rightarrow> u64 \<Rightarrow> ('k, 'v) log_record hlog \<Rightarrow> control \<Rightarrow> ('k, 'v) env_step \<Rightarrow> ('k, 'v) env_step list \<Rightarrow> u64 \<Rightarrow>
   c_error + ('k, 'v) store" where
  "new_store t table_sz alignment h c e es safe =
     (if \<not> IsPowerOfTwo table_sz then Inl Thrown
      else if table_sz > 2147483647 then Inl Thrown
      else let none = \<lparr>buckets = [], ckpt_io = no_io, rec_io = no_io\<rparr> in
        bindR (table_Initialize table_sz alignment none) (\<lambda>tab.
        bindR (alloc_Initialize empty_bucket t safe) (\<lambda>ofb.
          Inr \<lparr>kv_index = \<lparr>index_version = 0, state = (\<lambda>_. none)(0 := tab),
                  overflow_buckets = (\<lambda>_. \<lparr>page_array = [], alloc_count = 0, free_lists = (\<lambda>_. []), retired = []\<rparr>)(0 := ofb)\<rparr>,
                kv_log = start_sys h, ctl = c\<lparr>system := SystemState ActionNone REST 1, cp_locks := no_locks, hash_version := 0\<rparr>,
                contexts = (\<lambda>_. new_context), cur = False, safe_epoch = safe, disk_reads = [], num_pending_ios = 0,
                now = e, env = es\<rparr>)))"

end
