(* ===== verification/ItemStore.thy ===== *)
theory ItemStore
  imports Prelude
begin

text \<open>
  Chains of items that refer to each other, and the contract of a store that holds them: what the
  hash index relies on when it walks bucket chains and adds buckets to them. The allocator of the
  overflow buckets and the index itself (table buckets and overflow buckets together) are
  interpretations.
\<close>

section \<open>Chains\<close>

fun path :: "('r \<Rightarrow> c_error + 'a) \<Rightarrow> ('a \<Rightarrow> 'r option) \<Rightarrow> 'r option \<Rightarrow> 'r list \<Rightarrow> bool" where
  "path get succ r [] \<longleftrightarrow> r = None"
| "path get succ r (b # bs) \<longleftrightarrow> r = Some b \<and> (\<exists>x. get b = Inr x \<and> path get succ (succ x) bs)"

lemma path_unique: "path get succ r as \<Longrightarrow> path get succ r bs \<Longrightarrow> as = bs"
proof (induction as arbitrary: r bs)
  case Nil then show ?case by (cases bs) auto
next
  case (Cons c as) then show ?case by (cases bs) auto
qed

lemma path_suffix: "path get succ r (as @ b # bs) \<Longrightarrow> path get succ (Some b) (b # bs)"
  by (induction as arbitrary: r) auto

text \<open>A chain that ends visits nothing twice.\<close>

lemma path_distinct:
  assumes "path get succ r as"
  shows "distinct as"
proof (rule ccontr)
  assume "\<not> distinct as"
  then obtain xs ys zs y where as: "as = xs @ [y] @ ys @ [y] @ zs" using not_distinct_decomp by blast
  have "path get succ (Some y) (y # ys @ [y] @ zs)" "path get succ (Some y) (y # zs)"
    using path_suffix [of get succ r xs y "ys @ [y] @ zs"] path_suffix [of get succ r "xs @ [y] @ ys" y zs] assms as
    by simp_all
  from path_unique [OF this] have "length (y # ys @ [y] @ zs) = length (y # zs)" by simp
  then show False by simp
qed

lemma path_defined: "path get succ r as \<Longrightarrow> b \<in> set as \<Longrightarrow> \<exists>x. get b = Inr x"
  by (induction as arbitrary: r) auto

lemma path_cong:
  assumes "path get succ r as" "\<And>b x. b \<in> set as \<Longrightarrow> get b = Inr x \<Longrightarrow> \<exists>y. get' b = Inr y \<and> succ y = succ x"
  shows "path get' succ r as"
  using assms
proof (induction as arbitrary: r)
  case (Cons b as)
  then obtain x where x: "r = Some b" "get b = Inr x" "path get succ (succ x) as" by auto
  obtain y where "get' b = Inr y" "succ y = succ x" using Cons.prems(2) [of b x] x by auto
  with Cons.IH [OF x(3)] Cons.prems(2) x show ?case by simp
qed simp

text \<open>Linking a new last item.\<close>

lemma path_append:
  assumes "path get succ r as" "as \<noteq> []" "get' d = Inr z" "succ z = None"
    "\<exists>y. get' (last as) = Inr y \<and> succ y = Some d"
    "\<And>b x. b \<in> set (butlast as) \<Longrightarrow> get b = Inr x \<Longrightarrow> \<exists>y. get' b = Inr y \<and> succ y = succ x"
  shows "path get' succ r (as @ [d])"
  using assms
proof (induction as arbitrary: r)
  case (Cons b as)
  then obtain x where x: "r = Some b" "get b = Inr x" "path get succ (succ x) as" by auto
  show ?case
  proof (cases "as = []")
    case True
    then show ?thesis using Cons.prems x by auto
  next
    case False
    then obtain y where "get' b = Inr y" "succ y = succ x" using Cons.prems(6) [of b x] x by auto
    with Cons.IH [OF x(3) False] Cons.prems(3-6) False x show ?thesis by simp
  qed
qed simp

section \<open>Stores\<close>

text \<open>
  Items in use can be read and written and keep their values; a new item was not in use and holds
  \<open>zero\<close>. \<open>succ\<close> is the next item of a chain.
\<close>

locale item_store =
  fixes inv :: "'s \<Rightarrow> bool" and used :: "'s \<Rightarrow> 'r set" and room :: "'s \<Rightarrow> bool"
    and get :: "'r \<Rightarrow> 's \<Rightarrow> c_error + 'a" and put :: "'r \<Rightarrow> 'a \<Rightarrow> 's \<Rightarrow> c_error + 's"
    and alloc :: "'s \<Rightarrow> c_error + 'r \<times> 's" and zero :: 'a and succ :: "'a \<Rightarrow> 'r option"
  assumes get_used: "inv s \<Longrightarrow> r \<in> used s \<Longrightarrow> \<exists>x. get r s = Inr x"
    and put_used: "inv s \<Longrightarrow> r \<in> used s \<Longrightarrow> \<exists>s'. put r x s = Inr s' \<and> inv s' \<and> used s' = used s \<and> get r s' = Inr x \<and>
      (\<forall>b \<in> used s. b \<noteq> r \<longrightarrow> get b s' = get b s)"
    and alloc_new: "inv s \<Longrightarrow> room s \<Longrightarrow> \<exists>d s'. alloc s = Inr (d, s') \<and> inv s' \<and> d \<notin> used s \<and>
      used s' = insert d (used s) \<and> get d s' = Inr zero \<and> (\<forall>b \<in> used s. get b s' = get b s)"
    and succ_zero: "succ zero = None"
begin

lemma put_path:
  assumes "inv s" "b \<in> used s" "put b x s = Inr s'" "get b s = Inr y" "succ x = succ y"
    "path (\<lambda>a. get a s) succ r as" "set as \<subseteq> used s"
  shows "path (\<lambda>a. get a s') succ r as"
proof (rule path_cong [OF assms(6)])
  fix c z assume "c \<in> set as" "get c s = Inr z"
  then show "\<exists>y. get c s' = Inr y \<and> succ y = succ z"
    using put_used [OF assms(1,2), of x] assms(3-5,7) by (cases "c = b") auto
qed

lemma alloc_path:
  assumes "inv s" "room s" "alloc s = Inr (d, s')" "path (\<lambda>a. get a s) succ r as" "set as \<subseteq> used s"
  shows "path (\<lambda>a. get a s') succ r as"
proof (rule path_cong [OF assms(4)])
  fix c z assume "c \<in> set as" "get c s = Inr z"
  then show "\<exists>y. get c s' = Inr y \<and> succ y = succ z"
    using alloc_new [OF assms(1,2)] assms(3,5) by auto
qed

text \<open>A new item at the end of a chain: the chain grows by it and every other item is as before.\<close>

lemma link_new:
  assumes "inv s" "room s" "path (\<lambda>a. get a s) succ r as" "as \<noteq> []" "set as \<subseteq> used s" "get (last as) s = Inr y"
    "\<forall>d s1. alloc s = Inr (d, s1) \<and> inv s1 \<and> used s1 = insert d (used s) \<longrightarrow> succ (f d) = Some d"
  shows "\<exists>d s1 s2. alloc s = Inr (d, s1) \<and> get (last as) s1 = Inr y \<and> put (last as) (f d) s1 = Inr s2 \<and> inv s2 \<and>
    d \<notin> used s \<and> used s2 = insert d (used s) \<and> path (\<lambda>a. get a s2) succ r (as @ [d]) \<and> get d s2 = Inr zero \<and>
    get (last as) s2 = Inr (f d) \<and> (\<forall>b \<in> used s. b \<noteq> last as \<longrightarrow> get b s2 = get b s)"
proof -
  obtain d s1 where a: "alloc s = Inr (d, s1)" "inv s1" "d \<notin> used s" "used s1 = insert d (used s)"
    "get d s1 = Inr zero" "\<forall>b \<in> used s. get b s1 = get b s"
    using alloc_new [OF assms(1,2)] by blast
  have l: "last as \<in> set as" "last as \<in> used s" using assms(4,5) by auto
  then obtain s2 where p: "put (last as) (f d) s1 = Inr s2" "inv s2" "used s2 = used s1" "get (last as) s2 = Inr (f d)"
    "\<forall>b \<in> used s1. b \<noteq> last as \<longrightarrow> get b s2 = get b s1"
    using put_used [OF a(2), of "last as" "f d"] a(4) by auto
  have dl: "d \<noteq> last as" using a(3) l(2) by auto
  have "path (\<lambda>a. get a s2) succ r (as @ [d])"
  proof (rule path_append [OF assms(3,4)])
    show "get d s2 = Inr zero" using p(5) a(4,5) dl by auto
    show "\<exists>y. get (last as) s2 = Inr y \<and> succ y = Some d" using p(4) assms(7) a(1,2,4) by blast
    fix b y assume b: "b \<in> set (butlast as)" "get b s = Inr y"
    have "as = butlast as @ [last as]" using assms(4) by simp
    then have "distinct (butlast as @ [last as])" using path_distinct [OF assms(3)] by metis
    then have "b \<noteq> last as" using b(1) by auto
    moreover have "b \<in> used s" using b(1) assms(5) in_set_butlastD by fastforce
    ultimately show "\<exists>z. get b s2 = Inr z \<and> succ z = succ y" using p(5) a(4,6) b(2) by auto
  qed (use succ_zero in auto)
  then show ?thesis using a p dl l assms(6) by auto
qed

end

end
