(* ===== verification/FixedPages_Proofs.thy ===== *)
theory FixedPages_Proofs
  imports FixedPages ItemStore
begin

text \<open>
  The allocator of fixed-size items: the arithmetic of its page array, its invariant and what an
  allocation does; the interpretation of the contract \<open>item_store\<close> for the overflow buckets; and the completion of
  asynchronous checkpoints and recoveries.
\<close>

section \<open>Powers of two\<close>

lemma bit_u64_iff_odd: "bit (x :: u64) k \<longleftrightarrow> odd (unat x div 2 ^ k)"
proof -
  have "bit x k \<longleftrightarrow> bit (unat x) k" using bit_imp_le_length [of x k] by (auto simp: bit_simps)
  then show ?thesis by (simp add: bit_iff_odd)
qed

lemma msb_index_bounds:
  assumes "x \<noteq> 0"
  shows "2 ^ msb_index x \<le> unat x" "unat x < 2 ^ (msb_index x + 1)" "msb_index x < 64"
proof -
  let ?P = "\<lambda>i. \<not> bit x (63 - i)" and ?xs = "[0..<64] :: nat list"
  define n where "n = length (takeWhile ?P ?xs)"
  obtain j where j: "bit x j" using assms by (auto simp: bit_eq_iff)
  then have "j < 64" using bit_imp_le_length [OF j] by simp
  then have "\<not> (\<forall>i \<in> set ?xs. ?P i)" using j by (auto intro!: bexI [of _ "63 - j"])
  then have n: "n < 64" using takeWhile_eq_all_conv [of ?P ?xs] length_takeWhile_le [of ?P ?xs] n_def
    by (metis (no_types, lifting) diff_zero le_neq_implies_less length_upt takeWhile_eq_take take_all_iff linorder_le_less_linear)
  have m: "msb_index x = 63 - n" by (simp add: msb_index_def n_def)
  have b: "bit x (63 - n)" using nth_length_takeWhile [of ?P ?xs] n by (simp add: n_def)
  then show "2 ^ msb_index x \<le> unat x"
    unfolding m bit_u64_iff_odd by (metis div_less even_zero linorder_not_less)
  have above: "\<not> bit x i" if "63 - n < i" for i
  proof (cases "i < 64")
    case True
    then have "63 - i < n" using that n by simp
    then have "takeWhile ?P ?xs ! (63 - i) \<in> set (takeWhile ?P ?xs)" unfolding n_def by (rule nth_mem)
    then have "?P (takeWhile ?P ?xs ! (63 - i))" using set_takeWhileD by fastforce
    moreover have "takeWhile ?P ?xs ! (63 - i) = 63 - i"
      using takeWhile_nth [of "63 - i" ?P ?xs] \<open>63 - i < n\<close> n by (simp add: n_def)
    ultimately show ?thesis using True by simp
  next
    case False then show ?thesis using bit_imp_le_length [of x i] by auto
  qed
  have "i < 64 - n" if "bit x i" for i using above [of i] that n by (cases "63 - n < i") auto
  then have "take_bit (64 - n) x = x" by (intro bit_word_eqI) (auto simp: bit_simps)
  then have "unat x = unat x mod 2 ^ (64 - n)" using unat_bits [of "64 - n" 0 x] by simp
  then have "unat x < 2 ^ (64 - n)" by (metis mod_less_divisor zero_less_numeral zero_less_power)
  then show "unat x < 2 ^ (msb_index x + 1)" using n by (simp add: m Suc_diff_le [symmetric] flip: power_Suc)
  show "msb_index x < 64" by (simp add: m)
qed

lemma IsPowerOfTwo_ex:
  assumes "IsPowerOfTwo x"
  shows "\<exists>k < 64. unat x = 2 ^ k"
proof -
  have x: "x \<noteq> 0" "x AND (x - 1) = 0" using assms by (auto simp: IsPowerOfTwo_def)
  let ?k = "msb_index x"
  note b = msb_index_bounds [OF x(1)]
  have top: "bit y ?k" if "2 ^ ?k \<le> unat y" "unat y < 2 ^ (?k + 1)" for y :: u64
  proof -
    have "unat y div 2 ^ ?k = 1" using that by (intro div_nat_eqI) simp_all
    then show ?thesis by (simp add: bit_u64_iff_odd)
  qed
  have "unat x = 2 ^ ?k"
  proof (rule ccontr)
    assume "unat x \<noteq> 2 ^ ?k"
    then have m: "unat (x - 1) = unat x - 1" "2 ^ ?k \<le> unat x - 1"
      using b(1) unat_minus_one [OF x(1)] by simp_all
    then have "bit (x AND (x - 1)) ?k" using top [OF b(1,2)] top [of "x - 1"] b(2) by (simp add: bit_and_iff)
    then show False using x(2) by simp
  qed
  then show ?thesis using b(3) by blast
qed

text \<open>The smallest power of two that is at least the argument.\<close>

lemma next_power_of_two_spec:
  assumes "1 < unat x" "unat x \<le> 2 ^ 63"
  shows "\<exists>k. next_power_of_two x = Inr (2 ^ k) \<and> 1 \<le> k \<and> k < 64 \<and> unat x \<le> 2 ^ k \<and> 2 ^ k < 2 * unat x"
proof -
  have m: "unat (x - 1) = unat x - 1" using assms(1) by (intro unat_minus_one) auto
  then have nz: "x - 1 \<noteq> 0" "x \<noteq> 0" using assms(1) by (auto simp: unat_eq_0 [symmetric])
  let ?k = "msb_index (x - 1)"
  note b = msb_index_bounds [OF nz(1)]
  have "?k < 63" 
  proof (rule ccontr)
    assume "\<not> ?k < 63"
    then have "(2 :: nat) ^ 63 \<le> 2 ^ ?k" by (intro power_increasing) auto
    with b(1) m assms show False by simp
  qed
  moreover have "push_bit (?k + 1) 1 = (2 ^ (?k + 1) :: u64)" by (simp only: push_bit_of_1)
  ultimately show ?thesis using b(1,2) m nz assms
    by (intro exI [of _ "?k + 1"]) (auto simp: next_power_of_two_def Let_def)
qed

section \<open>The page array grows\<close>

lemma fp_fields: "unat (fp_page a) = unat a div 2 ^ 20 mod 2 ^ 28" "unat (fp_offset a) = unat a mod 2 ^ 20"
proof -
  have "field fixed_layout 1 a = take_bit 28 (drop_bit 20 a)" "field fixed_layout 0 a = take_bit 20 a"
    by (simp_all add: field_def fixed_layout_def)
  moreover have "unat (take_bit 20 a) < 2 ^ 32" using unat_bits [of 20 0 a] by simp
  ultimately show "unat (fp_page a) = unat a div 2 ^ 20 mod 2 ^ 28" "unat (fp_offset a) = unat a mod 2 ^ 20"
    using unat_bits [of 28 20 a] unat_bits [of 20 0 a]
    by (simp_all add: fp_page_def fp_offset_def unat_ucast_u32)
qed

lemma fp_small: "unat a < 2 ^ 48 \<Longrightarrow> unat (fp_page a) = unat a div 2 ^ 20"
  by (simp add: fp_fields less_mult_imp_div_less)

definition page_at :: "'a page_array \<Rightarrow> nat \<Rightarrow> 'a fixed_page option" where
  "page_at P i = (if i < length P then P ! i else None)"

definition grows :: "'a \<Rightarrow> 'a page_array \<Rightarrow> 'a page_array \<Rightarrow> bool" where
  "grows zero P Q \<longleftrightarrow> length P \<le> length Q \<and>
     (\<forall>i. page_at Q i = page_at P i \<or> page_at P i = None \<and> page_at Q i = Some (\<lambda>_. zero))"

lemma grows_refl: "grows zero P P" by (simp add: grows_def)

lemma grows_trans: "grows zero P Q \<Longrightarrow> grows zero Q R \<Longrightarrow> grows zero P R"
  unfolding grows_def by (metis order_trans)

lemma grows_kept: "grows zero P Q \<Longrightarrow> page_at P i = Some f \<Longrightarrow> page_at Q i = Some f"
  unfolding grows_def by (metis option.distinct(1))

lemma grows_new: "grows zero P Q \<Longrightarrow> page_at Q i = Some f \<Longrightarrow> page_at P i = Some f \<or> f = (\<lambda>_. zero)"
  unfolding grows_def by (metis option.inject)

lemma array_AddPage_grows:
  assumes "unat p < length P"
  shows "\<exists>Q. array_AddPage zero p P = Inr Q \<and> grows zero P Q \<and> length Q = length P \<and> page_at Q (unat p) \<noteq> None"
  using assms by (auto simp: array_AddPage_def grows_def page_at_def nth_list_update)

lemma array_GetOrAdd_grows:
  assumes "unat p < length P"
  shows "\<exists>Q. array_GetOrAdd zero p P = Inr Q \<and> grows zero P Q \<and> length Q = length P \<and> page_at Q (unat p) \<noteq> None"
  using array_AddPage_grows [OF assms, of zero] assms by (auto simp: array_GetOrAdd_def array_Get_def page_at_def grows_refl)

lemma array_Create_grows:
  assumes "k < 64" "length P < 2 ^ k" "None \<notin> set P"
  shows "\<exists>Q. array_Create (2 ^ k) (Some P) = Inr Q \<and> grows zero P Q \<and> length Q = 2 ^ k"
  using assms IsPowerOfTwo_pow [OF assms(1)] unat_pow2_u64 [OF assms(1)]
  by (auto simp: array_Create_def grows_def page_at_def nth_append)


section \<open>Items\<close>

definition pages_ok :: "'a \<Rightarrow> 'a page_array \<Rightarrow> nat \<Rightarrow> bool" where
  "pages_ok zero P n \<longleftrightarrow>
     (\<exists>k. 1 \<le> k \<and> k \<le> 28 \<and> length P = 2 ^ k) \<and> n \<le> length P * 2 ^ 20 \<and>
     (\<forall>i. i * 2 ^ 20 < n \<longrightarrow> page_at P i \<noteq> None) \<and>
     (\<forall>i f off. page_at P i = Some f \<and> n \<le> i * 2 ^ 20 + unat off \<longrightarrow> f off = zero)"

lemma alloc_Get_page:
  assumes "page_at (page_array s) (unat (fp_page a)) = Some f"
  shows "alloc_Get a s = Inr (f (fp_offset a))"
proof -
  have "unat (fp_offset a) < 2 ^ 20" by (simp add: fp_fields)
  then have "(ucast (fp_offset a) :: u64) \<le> fp_kMaxOffset"
    by (simp add: word_le_nat_alt fp_kMaxOffset_def unat_ucast_up)
  then show ?thesis using assms by (simp add: alloc_Get_def array_Get_def page_at_def split: if_splits)
qed

lemma alloc_Get_grows:
  assumes "grows zero (page_array s) (page_array s')" "alloc_Get a s = Inr x"
  shows "alloc_Get a s' = Inr x"
proof -
  obtain f where f: "page_at (page_array s) (unat (fp_page a)) = Some f"
    using assms(2) by (auto simp: alloc_Get_def array_Get_def page_at_def split: if_splits option.splits)
  from alloc_Get_page [OF this] alloc_Get_page [OF grows_kept [OF assms(1) this]] assms(2) show ?thesis by simp
qed

text \<open>Growing the array keeps it well-formed for one more item, once the page of that item is there.\<close>

lemma pages_ok_grows:
  assumes "pages_ok zero P n" "grows zero P Q" "length Q = 2 ^ k" "1 \<le> k" "k \<le> 28"
    "page_at Q (n div 2 ^ 20) \<noteq> None" "n < length Q * 2 ^ 20"
  shows "pages_ok zero Q (n + 1)"
proof -
  have "page_at Q i \<noteq> None" if "i * 2 ^ 20 < n + 1" for i
  proof (cases "i * 2 ^ 20 < n")
    case True
    then obtain f where "page_at P i = Some f" using assms(1) by (auto simp: pages_ok_def)
    then show ?thesis using grows_kept [OF assms(2)] by auto
  next
    case False
    then have "n = i * 2 ^ 20" using that by simp
    then show ?thesis using assms(6) by simp
  qed
  moreover have "f off = zero" if "page_at Q i = Some f" "n + 1 \<le> i * 2 ^ 20 + unat off" for i f off
  proof -
    have "n \<le> i * 2 ^ 20 + unat off" using that(2) by simp
    then show ?thesis using grows_new [OF assms(2) that(1)] assms(1) unfolding pages_ok_def by blast
  qed
  ultimately show ?thesis using assms(3-5,7) unfolding pages_ok_def by auto
qed

lemma alloc_expand:
  assumes ok: "pages_ok zero (page_array s) (unat c)" and c: "unat c < 2 ^ 48" 
  shows "\<exists>s2. (if unat (fp_page c) \<ge> length (page_array s)
      then bindR (next_power_of_two (fp_page c + 1)) (\<lambda>n. ExpandArray n s) else Inr s) = Inr s2 \<and>
    (\<exists>k. 1 \<le> k \<and> k \<le> 28 \<and> length (page_array s2) = 2 ^ k) \<and> grows zero (page_array s) (page_array s2) \<and>
    unat (fp_page c) < length (page_array s2) \<and> alloc_count s2 = alloc_count s \<and> free_lists s2 = free_lists s"
proof (cases "unat (fp_page c) \<ge> length (page_array s)")
  case False
  then show ?thesis using ok by (auto simp: pages_ok_def grows_refl)
next
  case True
  note p = fp_small [OF c]
  obtain k0 where k0: "1 \<le> k0" "k0 \<le> 28" "length (page_array s) = 2 ^ k0" using ok by (auto simp: pages_ok_def)
  have pb: "unat (fp_page c) < 2 ^ 28" using c by (simp add: p less_mult_imp_div_less)
  then have p1: "unat (fp_page c + 1) = unat (fp_page c) + 1" by (subst unat_add_lem [THEN iffD1]) simp_all
  have "2 ^ 1 \<le> length (page_array s)" unfolding k0(3) by (rule power_increasing) (use k0(1) in auto)
  then obtain k where k: "next_power_of_two (fp_page c + 1) = Inr (2 ^ k)" "1 \<le> k" "k < 64"
    "unat (fp_page c) + 1 \<le> 2 ^ k" "2 ^ k < 2 * (unat (fp_page c) + 1)"
    using next_power_of_two_spec [of "fp_page c + 1"] True pb p1 by auto
  have k28: "k \<le> 28"
  proof (rule ccontr)
    assume "\<not> k \<le> 28"
    then have "(2 :: nat) ^ 29 \<le> 2 ^ k" by (intro power_increasing) auto
    then show False using k(5) pb by simp
  qed
  have "None \<notin> set (page_array s)"
  proof
    assume "None \<in> set (page_array s)"
    then obtain i where i: "i < length (page_array s)" "page_array s ! i = None" by (auto simp: in_set_conv_nth)
    have "length (page_array s) * 2 ^ 20 \<le> unat c div 2 ^ 20 * 2 ^ 20" using True p by simp
    then have "i * 2 ^ 20 < unat c" using i(1) div_times_less_eq_dividend [of "unat c" "2 ^ 20"] by simp
    then show False using ok i by (auto simp: pages_ok_def page_at_def)
  qed
  moreover have "length (page_array s) < 2 ^ k" using True k(4) by simp
  ultimately obtain Q where Q: "array_Create (2 ^ k) (Some (page_array s)) = Inr Q" "grows zero (page_array s) Q" "length Q = 2 ^ k"
    using array_Create_grows [OF k(3), of "page_array s" zero] by auto
  let ?s2 = "s\<lparr>page_array := Q, retired := retired s @ [of_nat (length (page_array s))]\<rparr>"
  have "bindR (next_power_of_two (fp_page c + 1)) (\<lambda>n. ExpandArray n s) = Inr ?s2"
    unfolding k(1) by (simp add: ExpandArray_def Q(1))
  moreover have "unat (fp_page c) < length Q" using k(4) Q(3) by simp
  ultimately show ?thesis using True k(2) k28 Q by (intro exI [of _ ?s2]) auto
qed

lemma alloc_next_spec:
  assumes ok: "pages_ok zero (page_array s) (unat (alloc_count s))" and c: "unat (alloc_count s) < 2 ^ 48"
  shows "\<exists>s'. alloc_next zero s = Inr (alloc_count s, s') \<and> pages_ok zero (page_array s') (unat (alloc_count s) + 1) \<and>
    alloc_count s' = alloc_count s + 1 \<and> free_lists s' = free_lists s \<and> grows zero (page_array s) (page_array s')"
proof -
  let ?c = "alloc_count s" and ?s1 = "s\<lparr>alloc_count := alloc_count s + 1\<rparr>"
  obtain s2 k where s2: "(if unat (fp_page ?c) \<ge> length (page_array ?s1)
      then bindR (next_power_of_two (fp_page ?c + 1)) (\<lambda>n. ExpandArray n ?s1) else Inr ?s1) = Inr s2"
    "1 \<le> k" "k \<le> 28" "length (page_array s2) = 2 ^ k" "grows zero (page_array s) (page_array s2)"
    "unat (fp_page ?c) < length (page_array s2)" "alloc_count s2 = ?c + 1" "free_lists s2 = free_lists s"
    using alloc_expand [of zero ?s1 ?c] ok c by auto
  let ?add = "fp_offset ?c = 0 \<and> unat (fp_page ?c + 1) < length (page_array s2)"
  obtain s3 where s3: "(if ?add then bindR (array_AddPage zero (fp_page ?c + 1) (page_array s2)) (\<lambda>arr. Inr (s2\<lparr>page_array := arr\<rparr>))
      else Inr s2) = Inr s3" "grows zero (page_array s2) (page_array s3)" "length (page_array s3) = length (page_array s2)"
    "alloc_count s3 = ?c + 1" "free_lists s3 = free_lists s"
    using array_AddPage_grows [of "fp_page ?c + 1" "page_array s2" zero] s2(7,8) grows_refl [of zero "page_array s2"]
    by (cases ?add) auto
  obtain Q where Q: "array_GetOrAdd zero (fp_page ?c) (page_array s3) = Inr Q" "grows zero (page_array s3) Q"
    "length Q = length (page_array s3)" "page_at Q (unat (fp_page ?c)) \<noteq> None"
    using array_GetOrAdd_grows [of "fp_page ?c" "page_array s3" zero] s2(6) s3(3) by auto
  have g: "grows zero (page_array s) Q" using s2(5) s3(2) Q(2) grows_trans by metis
  have "unat ?c < length Q * 2 ^ 20"
    using s2(6) s3(3) Q(3) fp_small [OF c] by (simp add: div_less_iff_less_mult)
  then have "pages_ok zero Q (unat ?c + 1)"
    using pages_ok_grows [OF ok g] s2(2-4) s3(3) Q(3,4) fp_small [OF c] by simp
  then show ?thesis using s2(1) s3 Q(1) g by (simp add: alloc_next_def Let_def)
qed


section \<open>The allocator's contract\<close>

text \<open>An address is in use from its allocation until it is freed; 0 is the null pointer.\<close>

definition freed :: "'a fixed_alloc \<Rightarrow> u64 set" where
  "freed s = (\<Union>t. fst ` set (free_lists s t))"

definition in_use :: "'a fixed_alloc \<Rightarrow> u64 set" where
  "in_use s = {a. 0 < a \<and> a < alloc_count s} - freed s"

definition frees_ok :: "'a fixed_alloc \<Rightarrow> bool" where
  "frees_ok s \<longleftrightarrow> freed s \<subseteq> {a. 0 < a \<and> a < alloc_count s} \<and>
     (\<forall>t. distinct (map fst (free_lists s t))) \<and>
     (\<forall>t u. t \<noteq> u \<longrightarrow> fst ` set (free_lists s t) \<inter> fst ` set (free_lists s u) = {})"

definition alloc_inv :: "'a \<Rightarrow> 'a fixed_alloc \<Rightarrow> bool" where
  "alloc_inv zero s \<longleftrightarrow> 0 < alloc_count s \<and> unat (alloc_count s) \<le> 2 ^ 48 \<and>
     pages_ok zero (page_array s) (unat (alloc_count s)) \<and> frees_ok s"

lemma page_in_use:
  assumes "pages_ok zero (page_array s) (unat (alloc_count s))" "unat (alloc_count s) \<le> 2 ^ 48" "a < alloc_count s"
  obtains f where "page_at (page_array s) (unat (fp_page a)) = Some f" "alloc_Get a s = Inr (f (fp_offset a))"
proof -
  have "unat a < unat (alloc_count s)" using assms(3) by (simp add: word_less_nat_alt)
  then have "unat (fp_page a) * 2 ^ 20 < unat (alloc_count s)"
    using fp_small [of a] assms(2) div_times_less_eq_dividend [of "unat a" "2 ^ 20"] by simp
  then obtain f where f: "page_at (page_array s) (unat (fp_page a)) = Some f"
    using assms(1) by (auto simp: pages_ok_def)
  from that [OF this alloc_Get_page [OF this]] show thesis .
qed

lemma alloc_Get_in_use: "alloc_inv zero s \<Longrightarrow> a \<in> in_use s \<Longrightarrow> \<exists>x. alloc_Get a s = Inr x"
  using page_in_use [of zero s a] by (auto simp: alloc_inv_def in_use_def)

text \<open>A fresh address holds a value-initialised item.\<close>

lemma alloc_next_correct:
  assumes inv: "alloc_inv zero s" and room: "unat (alloc_count s) < 2 ^ 48"
  shows "\<exists>s'. alloc_next zero s = Inr (alloc_count s, s') \<and> alloc_inv zero s' \<and> alloc_count s \<notin> in_use s \<and>
    in_use s' = insert (alloc_count s) (in_use s) \<and> free_lists s' = free_lists s \<and> alloc_Get (alloc_count s) s' = Inr zero \<and>
    grows zero (page_array s) (page_array s')"
proof -
  let ?c = "alloc_count s"
  obtain s' where s': "alloc_next zero s = Inr (?c, s')" "pages_ok zero (page_array s') (unat ?c + 1)"
    "alloc_count s' = ?c + 1" "free_lists s' = free_lists s" "grows zero (page_array s) (page_array s')"
    using alloc_next_spec [OF _ room] inv by (auto simp: alloc_inv_def)
  have c1: "unat (?c + 1) = unat ?c + 1" using room by (subst unat_add_lem [THEN iffD1]) simp_all
  have lt: "a < ?c + 1 \<longleftrightarrow> a = ?c \<or> a < ?c" for a
    by (auto simp: word_less_nat_alt c1 word_unat_eq_iff)
  have fr: "freed s' = freed s" "freed s \<subseteq> {a. 0 < a \<and> a < ?c}"
    using inv s'(4) by (simp_all add: freed_def alloc_inv_def frees_ok_def)
  have "alloc_inv zero s'"
    using inv s' c1 room fr lt unfolding alloc_inv_def frees_ok_def by (auto simp: word_less_nat_alt)
  moreover have "in_use s' = insert ?c (in_use s)"
    using fr lt inv by (auto simp: in_use_def s'(3) alloc_inv_def)
  moreover obtain f where f: "page_at (page_array s') (unat (fp_page ?c)) = Some f" "alloc_Get ?c s' = Inr (f (fp_offset ?c))"
    using page_in_use [of zero s' ?c] s'(2,3) c1 room lt by auto
  moreover have "f (fp_offset ?c) = zero"
  proof -
    have "unat (fp_page ?c) * 2 ^ 20 + unat (fp_offset ?c) = unat ?c"
      using fp_small [OF room] by (simp add: fp_fields(2))
    then show ?thesis using grows_new [OF s'(5) f(1)] inv unfolding alloc_inv_def pages_ok_def by (metis order_refl)
  qed
  ultimately show ?thesis using s' by (auto simp: in_use_def)
qed

lemma alloc_put_correct:
  assumes inv: "alloc_inv zero s" and a: "a \<in> in_use s"
  shows "\<exists>s'. alloc_put a x s = Inr s' \<and> alloc_inv zero s' \<and> in_use s' = in_use s \<and> free_lists s' = free_lists s \<and>
    alloc_Get a s' = Inr x \<and> (\<forall>b. b < alloc_count s \<and> b \<noteq> a \<longrightarrow> alloc_Get b s' = alloc_Get b s) \<and> alloc_count s' = alloc_count s"
proof -
  have ac: "a < alloc_count s" and pk: "pages_ok zero (page_array s) (unat (alloc_count s))" "unat (alloc_count s) \<le> 2 ^ 48"
    using a inv by (auto simp: in_use_def alloc_inv_def)
  obtain f where f: "page_at (page_array s) (unat (fp_page a)) = Some f" "alloc_Get a s = Inr (f (fp_offset a))"
    by (rule page_in_use [OF pk ac])
  define P where "P = (page_array s)[unat (fp_page a) := Some (f(fp_offset a := x))]"
  have put: "alloc_put a x s = Inr (s\<lparr>page_array := P\<rparr>)"
    using f by (auto simp: alloc_put_def alloc_Get_def array_Get_def page_at_def P_def split: if_splits)
  have at: "page_at P i = (if i = unat (fp_page a) then Some (f(fp_offset a := x)) else page_at (page_array s) i)" for i
    using f(1) by (auto simp: P_def page_at_def split: if_splits)
  have a48: "unat a < 2 ^ 48" and an: "unat a < unat (alloc_count s)" using ac pk(2) by (auto simp: word_less_nat_alt)
  have au: "unat (fp_page a) * 2 ^ 20 + unat (fp_offset a) = unat a"
    using fp_small [OF a48] by (simp add: fp_fields(2))
  have z: "g off = zero" if "page_at P i = Some g" "unat (alloc_count s) \<le> i * 2 ^ 20 + unat off" for i g off
  proof (cases "i = unat (fp_page a)")
    case True
    then have "off \<noteq> fp_offset a" using that(2) au an by auto
    then show ?thesis using that True at f(1) pk(1) unfolding pages_ok_def by auto
  next
    case False
    then show ?thesis using that at pk(1) unfolding pages_ok_def by auto
  qed
  have "page_at P i \<noteq> None" if "i * 2 ^ 20 < unat (alloc_count s)" for i
    using pk(1) that at unfolding pages_ok_def by auto
  moreover have "length P = length (page_array s)" by (simp add: P_def)
  ultimately have "pages_ok zero P (unat (alloc_count s))"
    using pk(1) z unfolding pages_ok_def by (metis (no_types, lifting))
  moreover have "alloc_Get a (s\<lparr>page_array := P\<rparr>) = Inr x" using alloc_Get_page [of "s\<lparr>page_array := P\<rparr>" a] at by simp
  moreover have "alloc_Get b (s\<lparr>page_array := P\<rparr>) = alloc_Get b s" if b: "b < alloc_count s" "b \<noteq> a" for b
  proof -
    obtain g where g: "page_at (page_array s) (unat (fp_page b)) = Some g" "alloc_Get b s = Inr (g (fp_offset b))"
      by (rule page_in_use [OF pk b(1)])
    have b48: "unat b < 2 ^ 48" using b(1) pk(2) by (simp add: word_less_nat_alt)
    have "fp_offset b \<noteq> fp_offset a" if "unat (fp_page b) = unat (fp_page a)"
      using that au fp_small [OF b48] b(2) fp_fields(2) [of b] by (metis div_mult_mod_eq word_unat_eq_iff)
    moreover have "alloc_Get b (s\<lparr>page_array := P\<rparr>) =
        Inr (if unat (fp_page b) = unat (fp_page a) then (f(fp_offset a := x)) (fp_offset b) else g (fp_offset b))"
      using alloc_Get_page [of "s\<lparr>page_array := P\<rparr>" b] at [of "unat (fp_page b)"] g(1) by (cases "unat (fp_page b) = unat (fp_page a)") simp_all
    ultimately show ?thesis using g f(1) by (auto split: if_splits)
  qed
  ultimately show ?thesis using inv put
    by (intro exI [of _ "s\<lparr>page_array := P\<rparr>"]) (simp add: alloc_inv_def frees_ok_def freed_def in_use_def)
qed


lemma freed_split: "freed s = fst ` set (free_lists s t) \<union> (\<Union>u \<in> - {t}. fst ` set (free_lists s u))"
  unfolding freed_def by blast

lemma freed_upd: "freed (s\<lparr>free_lists := (free_lists s)(t := l)\<rparr>) = fst ` set l \<union> (\<Union>u \<in> - {t}. fst ` set (free_lists s u))"
  by (simp add: freed_split [of _ t])

lemma freed_sub: "fst ` set (free_lists s t) \<subseteq> freed s" "(\<Union>u \<in> - {t}. fst ` set (free_lists s u)) \<subseteq> freed s"
  by (simp_all add: freed_split [of s t])

lemma frees_okD:
  assumes "frees_ok s"
  shows "freed s \<subseteq> {a. 0 < a \<and> a < alloc_count s}" "distinct (map fst (free_lists s t))"
    "t \<noteq> u \<Longrightarrow> fst ` set (free_lists s t) \<inter> fst ` set (free_lists s u) = {}"
  using assms by (simp_all add: frees_ok_def)

lemma frees_ok_upd:
  assumes "frees_ok s" "distinct (map fst l)" "fst ` set l \<subseteq> {a. 0 < a \<and> a < alloc_count s}"
    "\<And>u. u \<noteq> t \<Longrightarrow> fst ` set l \<inter> fst ` set (free_lists s u) = {}"
  shows "frees_ok (s\<lparr>free_lists := (free_lists s)(t := l)\<rparr>)"
proof -
  have "freed (s\<lparr>free_lists := (free_lists s)(t := l)\<rparr>) \<subseteq> {a. 0 < a \<and> a < alloc_count s}"
    unfolding freed_upd using order_trans [OF freed_sub(2) frees_okD(1) [OF assms(1)]] assms(3) by (rule Un_least [rotated])
  moreover have "fst ` set (((free_lists s)(t := l)) v) \<inter> fst ` set (((free_lists s)(t := l)) u) = {}" if "v \<noteq> u" for v u
    using assms(1,4) that unfolding frees_ok_def by (cases "v = t"; cases "u = t") (simp_all add: Int_commute)
  ultimately show ?thesis using assms(1,2) unfolding frees_ok_def by simp
qed

text \<open>Taking the head of a free list.\<close>

lemma alloc_reuse:
  assumes inv: "alloc_inv zero s" and ne: "free_lists s t = (a, e) # rest"
  shows "alloc_inv zero (s\<lparr>free_lists := (free_lists s)(t := rest)\<rparr>) \<and> a \<in> freed s \<and> 0 < a \<and>
    freed (s\<lparr>free_lists := (free_lists s)(t := rest)\<rparr>) = freed s - {a} \<and>
    in_use (s\<lparr>free_lists := (free_lists s)(t := rest)\<rparr>) = insert a (in_use s)"
proof -
  let ?s = "s\<lparr>free_lists := (free_lists s)(t := rest)\<rparr>"
  have fr: "frees_ok s" using inv by (simp add: alloc_inv_def)
  have a: "a \<in> fst ` set (free_lists s t)" using ne by simp
  then have af: "a \<in> freed s" by (auto simp: freed_def)
  have d: "a \<notin> fst ` set rest" "distinct (map fst rest)"
    using fr ne unfolding frees_ok_def by (metis (no_types) distinct.simps(2) fst_conv list.set_map list.simps(9))+
  have o: "a \<notin> fst ` set (free_lists s u)" if "u \<noteq> t" for u
    using fr a that unfolding frees_ok_def by blast
  have f': "freed ?s = freed s - {a}"
    unfolding freed_upd freed_split [of s t] using d(1) o ne by auto
  have "frees_ok ?s"
  proof (rule frees_ok_upd [OF fr d(2)])
    have "fst ` set rest \<subseteq> fst ` set (free_lists s t)" using ne by auto
    note sub = this
    from order_trans [OF order_trans [OF sub freed_sub(1)] frees_okD(1) [OF fr]]
    show "fst ` set rest \<subseteq> {a. 0 < a \<and> a < alloc_count s}" .
    show "fst ` set rest \<inter> fst ` set (free_lists s u) = {}" if "u \<noteq> t" for u
      using sub frees_okD(3) [OF fr, of t u] that by blast
  qed
  then show ?thesis using inv fr af f' by (auto simp: alloc_inv_def in_use_def frees_ok_def)
qed


lemma FreeAtEpoch_inv:
  assumes inv: "alloc_inv zero s" and a: "a \<in> in_use s"
  shows "alloc_inv zero (FreeAtEpoch t a e s)" "in_use (FreeAtEpoch t a e s) = in_use s - {a}"
    "freed (FreeAtEpoch t a e s) = insert a (freed s)"
proof -
  have fr: "frees_ok s" and na: "a \<notin> freed s" and ac: "0 < a" "a < alloc_count s"
    using inv a by (auto simp: alloc_inv_def in_use_def)
  have "frees_ok (FreeAtEpoch t a e s)" unfolding FreeAtEpoch_def
  proof (rule frees_ok_upd [OF fr])
    show "distinct (map fst (free_lists s t @ [(a, e)]))" using fr na freed_split [of s t] by (auto simp: frees_ok_def)
    show "fst ` set (free_lists s t @ [(a, e)]) \<subseteq> {a. 0 < a \<and> a < alloc_count s}"
      using fr ac freed_split [of s t] by (auto simp: frees_ok_def)
    show "fst ` set (free_lists s t @ [(a, e)]) \<inter> fst ` set (free_lists s u) = {}" if "u \<noteq> t" for u
      using fr na that freed_split [of s u] unfolding frees_ok_def by auto
  qed
  then show "alloc_inv zero (FreeAtEpoch t a e s)" using inv by (simp add: alloc_inv_def FreeAtEpoch_def)
  show f: "freed (FreeAtEpoch t a e s) = insert a (freed s)"
    unfolding FreeAtEpoch_def freed_upd using freed_split [of s t] by auto
  show "in_use (FreeAtEpoch t a e s) = in_use s - {a}"
    unfolding in_use_def f by (auto simp: FreeAtEpoch_def)
qed

lemma alloc_Allocate_inv:
  assumes inv: "alloc_inv zero s" and room: "unat (alloc_count s) < 2 ^ 48"
  shows "\<exists>a s'. alloc_Allocate zero t safe s = Inr (a, s') \<and> alloc_inv zero s' \<and> 0 < a \<and> a \<notin> in_use s \<and>
    in_use s' = insert a (in_use s) \<and> freed s' = freed s - {a} \<and> (a \<notin> freed s \<longrightarrow> alloc_Get a s' = Inr zero) \<and>
    (\<forall>b x. alloc_Get b s = Inr x \<longrightarrow> alloc_Get b s' = Inr x)"
proof (cases "free_lists s t \<noteq> [] \<and> snd (hd (free_lists s t)) \<le> safe")
  case True
  then obtain a e rest where ne: "free_lists s t = (a, e) # rest" by (cases "free_lists s t") auto
  have "alloc_Allocate zero t safe s = Inr (a, s\<lparr>free_lists := (free_lists s)(t := rest)\<rparr>)"
    using True ne by (simp add: alloc_Allocate_def)
  moreover have "a \<notin> in_use s" using alloc_reuse [OF inv ne] by (simp add: in_use_def)
  ultimately show ?thesis using alloc_reuse [OF inv ne]
    by (intro exI [of _ a] exI [of _ "s\<lparr>free_lists := (free_lists s)(t := rest)\<rparr>"]) (simp add: alloc_Get_def)
next
  case False
  obtain s' where s': "alloc_next zero s = Inr (alloc_count s, s')" "alloc_inv zero s'" "alloc_count s \<notin> in_use s"
    "in_use s' = insert (alloc_count s) (in_use s)" "free_lists s' = free_lists s" "alloc_Get (alloc_count s) s' = Inr zero"
    "grows zero (page_array s) (page_array s')"
    using alloc_next_correct [OF inv room] by blast
  have "alloc_count s \<notin> freed s" "0 < alloc_count s" using inv by (auto simp: alloc_inv_def frees_ok_def)
  moreover have "freed s' = freed s" by (simp add: freed_def s'(5))
  moreover have "alloc_Allocate zero t safe s = Inr (alloc_count s, s')" using s'(1) unfolding alloc_Allocate_def if_not_P [OF False] .
  ultimately show ?thesis using s' alloc_Get_grows [OF s'(7)] by auto
qed


section \<open>The allocator of the overflow buckets\<close>

definition next_bucket :: "hash_bucket \<Rightarrow> u64 option" where
  "next_bucket b = (if overflow_unused (overflow_entry b) then None else Some (overflow_address (overflow_entry b)))"

text \<open>Only buckets that were never linked into a chain are freed, so freed buckets are empty.\<close>

definition bucket_inv :: "hash_bucket fixed_alloc \<Rightarrow> bool" where
  "bucket_inv s \<longleftrightarrow> alloc_inv empty_bucket s \<and> (\<forall>a \<in> freed s. alloc_Get a s = Inr empty_bucket)"

definition alloc_room :: "'a fixed_alloc \<Rightarrow> bool" where
  "alloc_room s \<longleftrightarrow> alloc_count s < 0x1000000000000"

lemma alloc_room_iff: "alloc_room s \<longleftrightarrow> unat (alloc_count s) < 2 ^ 48"
  by (simp add: alloc_room_def word_less_nat_alt)

interpretation ofb: item_store bucket_inv in_use alloc_room alloc_Get alloc_put
    "alloc_Allocate empty_bucket t safe" empty_bucket next_bucket for t safe
proof
  fix s :: "hash_bucket fixed_alloc" and a x
  assume inv: "bucket_inv s" and a: "a \<in> in_use s"
  show "\<exists>x. alloc_Get a s = Inr x" using inv a alloc_Get_in_use by (auto simp: bucket_inv_def)
  obtain s' where s': "alloc_put a x s = Inr s'" "alloc_inv empty_bucket s'" "in_use s' = in_use s" "free_lists s' = free_lists s"
    "alloc_Get a s' = Inr x" "\<And>b. b < alloc_count s \<Longrightarrow> b \<noteq> a \<Longrightarrow> alloc_Get b s' = alloc_Get b s" "alloc_count s' = alloc_count s"
    using alloc_put_correct [of empty_bucket s a x] inv a by (auto simp: bucket_inv_def)
  have f: "freed s' = freed s" "a \<notin> freed s" "b \<in> freed s \<Longrightarrow> b < alloc_count s" for b
  proof -
    show "freed s' = freed s" by (simp add: freed_def s'(4))
    show "a \<notin> freed s" using a by (simp add: in_use_def)
    have "frees_ok s" using inv by (simp add: bucket_inv_def alloc_inv_def)
    from frees_okD(1) [OF this] show "b \<in> freed s \<Longrightarrow> b < alloc_count s" by auto
  qed
  then have "bucket_inv s'" using s'(2,6) inv unfolding bucket_inv_def by metis
  moreover have "b < alloc_count s" if "b \<in> in_use s" for b using that by (simp add: in_use_def)
  ultimately show "\<exists>s'. alloc_put a x s = Inr s' \<and> bucket_inv s' \<and> in_use s' = in_use s \<and> alloc_Get a s' = Inr x \<and>
      (\<forall>b \<in> in_use s. b \<noteq> a \<longrightarrow> alloc_Get b s' = alloc_Get b s)" using s' by auto
next
  fix s :: "hash_bucket fixed_alloc"
  assume inv: "bucket_inv s" and room: "alloc_room s"
  obtain a s' where s': "alloc_Allocate empty_bucket t safe s = Inr (a, s')" "alloc_inv empty_bucket s'" "0 < a" "a \<notin> in_use s"
    "in_use s' = insert a (in_use s)" "freed s' = freed s - {a}" "a \<notin> freed s \<longrightarrow> alloc_Get a s' = Inr empty_bucket"
    "\<And>b x. alloc_Get b s = Inr x \<Longrightarrow> alloc_Get b s' = Inr x"
    using alloc_Allocate_inv [of empty_bucket s t safe] inv room by (auto simp: bucket_inv_def alloc_room_iff)
  have "\<forall>b \<in> in_use s. alloc_Get b s' = alloc_Get b s"
    using alloc_Get_in_use [of empty_bucket s] inv s'(8) by (fastforce simp: bucket_inv_def)
  moreover have "bucket_inv s'" "alloc_Get a s' = Inr empty_bucket" using s'(2,6-8) inv unfolding bucket_inv_def by auto
  ultimately show "\<exists>a s'. alloc_Allocate empty_bucket t safe s = Inr (a, s') \<and> bucket_inv s' \<and> a \<notin> in_use s \<and>
      in_use s' = insert a (in_use s) \<and> alloc_Get a s' = Inr empty_bucket \<and> (\<forall>b \<in> in_use s. alloc_Get b s' = alloc_Get b s)"
    using s' by auto
qed (simp add: empty_bucket_def next_bucket_def overflow_unused_def field_def overflow_layout_def)

section \<open>Properties\<close>

text \<open>The states an allocator can be in: items are freed and written only while they are in use.\<close>

inductive alloc_reachable :: "'a \<Rightarrow> 'a fixed_alloc \<Rightarrow> bool" for zero where
  init: "alloc_Initialize zero t safe = Inr s \<Longrightarrow> alloc_reachable zero s"
| allocate: "alloc_reachable zero s \<Longrightarrow> alloc_room s \<Longrightarrow> alloc_Allocate zero t safe s = Inr (a, s') \<Longrightarrow> alloc_reachable zero s'"
| free: "alloc_reachable zero s \<Longrightarrow> a \<in> in_use s \<Longrightarrow> alloc_reachable zero (FreeAtEpoch t a e s)"
| put: "alloc_reachable zero s \<Longrightarrow> a \<in> in_use s \<Longrightarrow> alloc_put a x s = Inr s' \<Longrightarrow> alloc_reachable zero s'"

lemma replicate_two: "replicate (unat (2 :: u64)) x = [x, x]"
proof -
  have "unat (2 :: u64) = 2" by simp
  then show ?thesis by (simp only: numeral_2_eq_2) simp
qed

lemma alloc_Initialize_inv:
  shows "\<exists>s. alloc_Initialize zero t safe = Inr s \<and> alloc_inv zero s \<and> in_use s = {} \<and> alloc_count s = 1 \<and> free_lists s = (\<lambda>_. [])"
proof -
  have p: "IsPowerOfTwo 2" using IsPowerOfTwo_pow [of 1] by simp
  define s0 where "s0 = \<lparr>page_array = [Some (\<lambda>_. zero), None], alloc_count = 0, free_lists = (\<lambda>_. []), retired = []\<rparr>"
  have "pages_ok zero (page_array s0) (unat (alloc_count s0))"
    unfolding pages_ok_def by (auto simp: s0_def page_at_def nth_Cons split: nat.splits if_splits intro: exI [of _ 1])
  then obtain s where s: "alloc_next zero s0 = Inr (0, s)" "pages_ok zero (page_array s) 1" "alloc_count s = 1" "free_lists s = (\<lambda>_. [])"
    using alloc_next_spec [of zero s0] by (auto simp: s0_def)
  have "alloc_Initialize zero t safe = bindR (alloc_Allocate zero t safe s0) (\<lambda>(_, s). Inr s)"
    using p by (simp only: alloc_Initialize_def array_Create_def replicate_two) (simp add: array_AddPage_def s0_def)
  then have "alloc_Initialize zero t safe = Inr s" using s(1) by (simp add: alloc_Allocate_def s0_def)
  moreover have "freed s = {}" "{a :: u64. 0 < a \<and> a < 1} = {}" by (auto simp: freed_def s(4) word_less_nat_alt)
  ultimately show ?thesis using s by (simp add: alloc_inv_def frees_ok_def in_use_def)
qed

lemma alloc_reachable_inv: "alloc_reachable zero s \<Longrightarrow> alloc_inv zero s"
proof (induction rule: alloc_reachable.induct)
  case (init t safe s)
  then show ?case using alloc_Initialize_inv [of zero t safe] by auto
next
  case (allocate s t safe a s')
  then show ?case using alloc_Allocate_inv [of zero s t safe] by (auto simp: alloc_room_iff)
next
  case (free s a t e)
  then show ?case by (intro FreeAtEpoch_inv(1))
next
  case (put s a x s')
  then show ?case using alloc_put_correct [of zero s a x] by auto
qed

lemma alloc_next_count:
  assumes "free_lists s t = []" "alloc_Allocate zero t safe s = Inr (a, s')"
  shows "alloc_count s' = alloc_count s + 1"
  using assms by (auto simp: alloc_Allocate_def alloc_next_def ExpandArray_def Let_def bindR_Inr_iff split: if_splits)

text \<open>Where an allocated address comes from: the head of the thread's own free list when that is safe, the counter otherwise.\<close>

lemma alloc_Allocate_source:
  assumes inv: "alloc_inv zero s" and room: "unat (alloc_count s) < 2 ^ 48" and ok: "alloc_Allocate zero t safe s = Inr (a, s')"
  shows "a \<in> freed s \<longleftrightarrow> (\<exists>e rest. free_lists s t = (a, e) # rest \<and> e \<le> safe)"
    "free_lists s t = (b, e) # rest \<Longrightarrow> e \<le> safe \<Longrightarrow> a = b"
    "a \<notin> freed s \<Longrightarrow> a = alloc_count s"
    "free_lists s' = (if a \<in> freed s then (free_lists s)(t := tl (free_lists s t)) else free_lists s)"
proof -
  let ?g = "free_lists s t \<noteq> [] \<and> snd (hd (free_lists s t)) \<le> safe"
  have nc: "alloc_count s \<notin> freed s" using inv by (auto simp: alloc_inv_def frees_ok_def)
  have reuse: "a \<in> freed s" "free_lists s t = (a, snd (hd (free_lists s t))) # tl (free_lists s t)"
      "free_lists s' = (free_lists s)(t := tl (free_lists s t))" if ?g
    using that ok by (auto simp: alloc_Allocate_def freed_def intro!: exI [of _ t] image_eqI [of _ fst "hd (free_lists s t)"])
  have fresh: "a = alloc_count s" "free_lists s' = free_lists s" if "\<not> ?g"
    using ok alloc_next_correct [OF inv room] unfolding alloc_Allocate_def if_not_P [OF that] by auto
  have g: "a \<in> freed s \<longleftrightarrow> ?g" using reuse(1) fresh(1) nc by metis
  show "a \<in> freed s \<longleftrightarrow> (\<exists>e rest. free_lists s t = (a, e) # rest \<and> e \<le> safe)"
    unfolding g using reuse(2) by (cases "free_lists s t") auto
  show "a = b" if "free_lists s t = (b, e) # rest" "e \<le> safe" using reuse(2) that by simp
  show "a = alloc_count s" if "a \<notin> freed s" using fresh(1) that g by metis
  show "free_lists s' = (if a \<in> freed s then (free_lists s)(t := tl (free_lists s t)) else free_lists s)"
    unfolding g using reuse(3) fresh(2) by simp
qed

text \<open>
  C20: as long as the 48-bit address space is not used up, the fixed-page allocator always gives out
  an address that is neither null nor in use, growing the page array when it must; every item in use,
  the new one included, can be read, and allocating changes none of the others. The address is that of a freed item
  exactly when this item heads the free list of the calling thread and the epoch it was freed in is safe to reclaim, and then it leaves
  the free list; otherwise it is the address that the counter stands at, and its item is value-initialised. The allocator's invariant is kept.
\<close>

theorem alloc_Allocate_correct:
  assumes "alloc_reachable zero s" "alloc_room s"
  shows "\<exists>a s'. alloc_Allocate zero t safe s = Inr (a, s') \<and> a \<noteq> 0 \<and> a \<notin> in_use s \<and>
    in_use s' = insert a (in_use s) \<and> (\<forall>b \<in> in_use s'. \<exists>x. alloc_Get b s' = Inr x) \<and>
    (\<forall>b \<in> in_use s. alloc_Get b s' = alloc_Get b s) \<and>
    alloc_inv zero s' \<and> freed s' = freed s - {a} \<and>
    (a \<in> freed s \<longleftrightarrow> (\<exists>e rest. free_lists s t = (a, e) # rest \<and> e \<le> safe)) \<and>
    (\<forall>b e rest. free_lists s t = (b, e) # rest \<and> e \<le> safe \<longrightarrow> a = b) \<and>
    free_lists s' = (if a \<in> freed s then (free_lists s)(t := tl (free_lists s t)) else free_lists s) \<and>
    (a \<notin> freed s \<longrightarrow> a = alloc_count s \<and> alloc_Get a s' = Inr zero)"
proof -
  have inv: "alloc_inv zero s" and room: "unat (alloc_count s) < 2 ^ 48"
    using alloc_reachable_inv [OF assms(1)] assms(2) by (simp_all add: alloc_room_iff)
  obtain a s' where s': "alloc_Allocate zero t safe s = Inr (a, s')" "alloc_inv zero s'" "0 < a" "a \<notin> in_use s"
    "in_use s' = insert a (in_use s)" "\<And>b x. alloc_Get b s = Inr x \<Longrightarrow> alloc_Get b s' = Inr x"
    "freed s' = freed s - {a}" "a \<notin> freed s \<longrightarrow> alloc_Get a s' = Inr zero"
    using alloc_Allocate_inv [OF inv room, of t safe] by auto
  have "\<forall>b \<in> in_use s. alloc_Get b s' = alloc_Get b s" using alloc_Get_in_use [OF inv] s'(6) by fastforce
  moreover note src = alloc_Allocate_source [OF inv room s'(1)]
  have "\<forall>b e rest. free_lists s t = (b, e) # rest \<and> e \<le> safe \<longrightarrow> a = b" using src(2) by blast
  moreover have "a \<notin> freed s \<longrightarrow> a = alloc_count s \<and> alloc_Get a s' = Inr zero" using src(3) s'(8) by blast
  moreover have "a \<noteq> 0" "\<forall>b \<in> in_use s'. \<exists>x. alloc_Get b s' = Inr x" using s'(3) alloc_Get_in_use [OF s'(2)] by auto
  ultimately show ?thesis using s'(1,2,4,5,7) src(1,4) by blast
qed

text \<open>An item that was freed in epoch 4 is not reused while only epoch 3 is safe, and is reused once epoch 4 is.\<close>

theorem alloc_Allocate_correct_witness:
  "\<exists>s s1 a b s2 s3. alloc_Initialize (0 :: nat) 3 0 = Inr s \<and> alloc_Allocate 0 3 0 s = Inr (a, s1) \<and> a = 1 \<and>
     alloc_Allocate 0 3 3 (FreeAtEpoch 3 a 4 s1) = Inr (b, s2) \<and> b \<noteq> a \<and>
     alloc_Allocate 0 3 4 (FreeAtEpoch 3 a 4 s1) = Inr (a, s3) \<and> in_use s3 = {a}"
proof -
  obtain s where s: "alloc_Initialize (0 :: nat) 3 0 = Inr s" "in_use s = {}" "alloc_count s = 1" "free_lists s = (\<lambda>_. [])"
    using alloc_Initialize_inv by metis
  have r: "alloc_reachable 0 s" "alloc_room s" using alloc_reachable.init [OF s(1)] by (simp_all add: alloc_room_def s(3))
  obtain a s1 where s1: "alloc_Allocate 0 3 0 s = Inr (a, s1)" "a \<noteq> 0" "in_use s1 = {a}" "a \<notin> freed s" "a = alloc_count s" "free_lists s1 = (\<lambda>_. [])"
    using alloc_Allocate_correct [OF r, of 3 0] s by (auto simp: freed_def)
  have "a \<in> in_use s1" by (simp add: s1(3))
  have r1: "alloc_reachable 0 s1" by (rule alloc_reachable.allocate [OF r s1(1)])
  then have inv1: "alloc_inv 0 s1" by (rule alloc_reachable_inv)
  let ?f = "FreeAtEpoch 3 a 4 s1"
  have rf: "alloc_reachable 0 ?f" by (rule alloc_reachable.free [OF r1]) fact
  have fl: "free_lists ?f 3 = [(a, 4)]" "freed ?f = {a}" "in_use ?f = {}"
    using FreeAtEpoch_inv [OF inv1 \<open>a \<in> in_use s1\<close>, of 3 4] by (simp_all add: FreeAtEpoch_def s1(3,6) freed_def)
  have "alloc_count s1 = 2" using alloc_next_count [OF _ s1(1)] s(3,4) by simp
  then have room: "alloc_room ?f" by (simp add: alloc_room_def FreeAtEpoch_def)
  obtain b s2 where s2: "alloc_Allocate 0 3 3 ?f = Inr (b, s2)" "b \<in> freed ?f \<longleftrightarrow> (\<exists>e rest. free_lists ?f 3 = (b, e) # rest \<and> e \<le> 3)"
    using alloc_Allocate_correct [OF rf room, of 3 3] by (elim exE conjE) (rule that, assumption+)
  then have "b \<noteq> a" unfolding fl by (auto simp: word_le_nat_alt)
  moreover obtain c s3 where s3: "alloc_Allocate 0 3 4 ?f = Inr (c, s3)" "in_use s3 = insert c (in_use ?f)"
      "\<forall>b e rest. free_lists ?f 3 = (b, e) # rest \<and> e \<le> 4 \<longrightarrow> c = b"
    using alloc_Allocate_correct [OF rf room, of 3 4] by (elim exE conjE) (rule that, assumption+)
  have "c = a" using s3(3) fl(1) by simp
  moreover have "in_use s3 = {c}" using s3(2) fl(3) by simp
  moreover have "a = 1" using s1(5) s(3) by simp
  ultimately show ?thesis using s(1) s1(1) s2(1) s3(1) by blast
qed

lemma io_callbacks:
  assumes "io_pending io" "length oks \<le> unat (pending_requests io)" "0 < pending_requests io"
  shows "let io' = fold (io_callback close_ok) oks io in
    unat (pending_requests io') = unat (pending_requests io) - length oks \<and>
    (length oks < unat (pending_requests io) \<longrightarrow> io_pending io') \<and>
    (length oks = unat (pending_requests io) \<longrightarrow> \<not> io_pending io' \<and>
      io_failed io' = (io_failed io \<or> \<not> (\<forall>ok \<in> set oks. ok) \<or> \<not> close_ok))"
  using assms
proof (induction oks arbitrary: io)
  case (Cons ok oks)
  define io1 where "io1 = io_callback close_ok ok io"
  have u: "unat (pending_requests io - 1) = unat (pending_requests io) - 1" using Cons.prems(3) by (intro unat_minus_one) auto
  have p: "pending_requests io1 = pending_requests io - 1" by (simp add: io1_def io_callback_def Let_def)
  show ?case
  proof (cases "pending_requests io = 1")
    case True
    then have "oks = []" using Cons.prems(2) by (simp add: Suc_le_eq)
    then show ?thesis using True by (simp add: io_callback_def Let_def)
  next
    case False
    then have nz: "pending_requests io - 1 \<noteq> 0" by simp
    then have i: "io_pending io1" "io_failed io1 = (io_failed io \<or> \<not> ok)"
      using Cons.prems(1) by (simp_all add: io1_def io_callback_def Let_def)
    have l: "length oks \<le> unat (pending_requests io1)" "0 < pending_requests io1"
      using Cons.prems(2) u by (simp add: p) (simp add: p word_gt_0 False)
    have "0 < unat (pending_requests io)" using Cons.prems(3) by (simp add: word_less_nat_alt)
    note pos = this
    have e: "unat (pending_requests io1) - length oks = unat (pending_requests io) - length (ok # oks)"
      "length oks < unat (pending_requests io1) \<longleftrightarrow> length (ok # oks) < unat (pending_requests io)"
      "length oks = unat (pending_requests io1) \<longleftrightarrow> length (ok # oks) = unat (pending_requests io)"
      "(io_failed io1 \<or> \<not> (\<forall>ok \<in> set oks. ok) \<or> \<not> close_ok) = (io_failed io \<or> \<not> (\<forall>ok \<in> set (ok # oks). ok) \<or> \<not> close_ok)"
      using pos i(2) p u by auto
    have s: "fold (io_callback close_ok) (ok # oks) io = fold (io_callback close_ok) oks io1" by (simp add: io1_def)
    show ?thesis using Cons.IH [OF i(1) l] unfolding Let_def e s .
  qed
qed (simp add: Let_def word_less_nat_alt)

lemma issue_all: "issue accepted is = (js, st) \<Longrightarrow> (st = Ok \<longleftrightarrow> length js = length is) \<and> length js \<le> length is"
  by (induction "is" arbitrary: js st) (auto split: if_splits prod.splits)

text \<open>
  C21: a checkpoint (or recovery) that issued all its requests reports pending until the last
  callback has run, and then success exactly if every request and the closing of the file succeeded.
  If the file refuses a request, the operation stays pending for ever.
\<close>

theorem async_io_completes:
  assumes "start_io accepted n io = Inr (io', reqs, st)" "0 < n" "length oks \<le> length reqs"
  shows "io_complete (fold (io_callback close_ok) oks io') =
    (if st = Ok \<and> length oks = unat n then if close_ok \<and> (\<forall>ok \<in> set oks. ok) then Ok else IOError else Pending)"
proof -
  have io': "io' = \<lparr>pending_requests = n, io_pending = True, io_failed = False\<rparr>" and
    r: "(st = Ok \<longleftrightarrow> length reqs = unat n) \<and> length reqs \<le> unat n"
    using assms(1) issue_all [of accepted "[0..<unat n]"] by (auto simp: start_io_def Let_def split: if_splits prod.splits)
  have p: "io_pending io'" "pending_requests io' = n" "\<not> io_failed io'" "length oks \<le> unat n" using io' r assms(3) by simp_all
  note c = io_callbacks [of io' oks close_ok, unfolded p(2) Let_def, OF p(1,4) assms(2)]
  show ?thesis
  proof (cases "length oks = unat n")
    case True
    then have "st = Ok" using r assms(3) by simp
    then show ?thesis using c True p(3) by (auto simp: io_complete_def)
  next
    case False
    then show ?thesis using c p(4) by (simp add: io_complete_def)
  qed
qed

theorem async_io_completes_witness:
  "io_complete (fold (io_callback True) [True, True] \<lparr>pending_requests = 2, io_pending = True, io_failed = False\<rparr>) = Ok"
proof -
  have "start_io (\<lambda>_. True) 2 no_io = Inr (\<lparr>pending_requests = 2, io_pending = True, io_failed = False\<rparr>, [0, 1], Ok)"
    by (simp add: start_io_def no_io_def upt_rec)
  from async_io_completes [OF this, of "[True, True]" True] show ?thesis by simp
qed

end
