(* ===== verification/FasterIndex_Proofs.thy ===== *)
theory FasterIndex_Proofs
  imports FasterIndex FixedPages_Proofs
begin

text \<open>
  The index as a store of bucket chains, its invariant, and what searching and creating entries do
  to it: the index refines a map from (bucket, tag) to log addresses.
\<close>

section \<open>The index as an item store\<close>

definition next_ref :: "hash_bucket \<Rightarrow> bucket_ref option" where
  "next_ref b = map_option InOverflow (next_bucket b)"

definition ix_inv :: "u8 \<Rightarrow> index \<Rightarrow> bool" where
  "ix_inv v x \<longleftrightarrow> bucket_inv (overflow_buckets x v)"

definition ix_used :: "u8 \<Rightarrow> index \<Rightarrow> bucket_ref set" where
  "ix_used v x = InTable ` {i. unat i < length (buckets (state x v))} \<union> InOverflow ` in_use (overflow_buckets x v)"

definition ix_room :: "u8 \<Rightarrow> index \<Rightarrow> bool" where
  "ix_room v x \<longleftrightarrow> alloc_room (overflow_buckets x v)"

lemma ix_put_used:
  assumes "ix_inv v x" "r \<in> ix_used v x"
  shows "\<exists>x'. put_bucket v r b x = Inr x' \<and> ix_inv v x' \<and> ix_used v x' = ix_used v x \<and> get_bucket v r x' = Inr b \<and>
    (\<forall>r' \<in> ix_used v x. r' \<noteq> r \<longrightarrow> get_bucket v r' x' = get_bucket v r' x)"
proof (cases r)
  case (InTable i)
  then have i: "unat i < length (buckets (state x v))" using assms(2) by (auto simp: ix_used_def)
  let ?x = "x\<lparr>state := (state x)(v := (state x v)\<lparr>buckets := (buckets (state x v))[unat i := b]\<rparr>)\<rparr>"
  have "put_bucket v r b x = Inr ?x" using i by (simp add: put_bucket_def InTable)
  moreover have "get_bucket v r' ?x = get_bucket v r' x" if "r' \<noteq> r" for r'
    using that by (cases r') (auto simp: get_bucket_def InTable nth_list_update word_unat_eq_iff)
  ultimately show ?thesis using assms(1) i by (intro exI [of _ ?x]) (simp add: ix_inv_def ix_used_def get_bucket_def InTable)
next
  case (InOverflow a)
  then have a: "a \<in> in_use (overflow_buckets x v)" using assms(2) by (auto simp: ix_used_def)
  obtain o' where o': "alloc_put a b (overflow_buckets x v) = Inr o'" "bucket_inv o'" "in_use o' = in_use (overflow_buckets x v)"
    "alloc_Get a o' = Inr b" "\<forall>c \<in> in_use (overflow_buckets x v). c \<noteq> a \<longrightarrow> alloc_Get c o' = alloc_Get c (overflow_buckets x v)"
    using ofb.put_used [of "overflow_buckets x v" a b] a assms(1) by (auto simp: ix_inv_def)
  let ?x = "x\<lparr>overflow_buckets := (overflow_buckets x)(v := o')\<rparr>"
  have "get_bucket v r' ?x = get_bucket v r' x" if "r' \<in> ix_used v x" "r' \<noteq> r" for r'
    using that o'(5) by (cases r') (auto simp: get_bucket_def InOverflow ix_used_def)
  then show ?thesis using o' by (intro exI [of _ ?x]) (simp add: put_bucket_def InOverflow ix_inv_def ix_used_def get_bucket_def)
qed

lemma ix_alloc_new:
  assumes "ix_inv v x" "ix_room v x"
  shows "\<exists>d x'. new_bucket t safe v x = Inr (d, x') \<and> ix_inv v x' \<and> d \<notin> ix_used v x \<and> ix_used v x' = insert d (ix_used v x) \<and>
    get_bucket v d x' = Inr empty_bucket \<and> (\<forall>b \<in> ix_used v x. get_bucket v b x' = get_bucket v b x)"
proof -
  obtain a o' where o': "alloc_Allocate empty_bucket t safe (overflow_buckets x v) = Inr (a, o')" "bucket_inv o'"
    "a \<notin> in_use (overflow_buckets x v)" "in_use o' = insert a (in_use (overflow_buckets x v))" "alloc_Get a o' = Inr empty_bucket"
    "\<forall>b \<in> in_use (overflow_buckets x v). alloc_Get b o' = alloc_Get b (overflow_buckets x v)"
    using ofb.alloc_new [of "overflow_buckets x v" t safe] assms by (auto simp: ix_inv_def ix_room_def)
  let ?x = "x\<lparr>overflow_buckets := (overflow_buckets x)(v := o')\<rparr>"
  have "get_bucket v b ?x = get_bucket v b x" if "b \<in> ix_used v x" for b
    using that o'(6) by (cases b) (auto simp: get_bucket_def ix_used_def)
  then show ?thesis using o' by (intro exI [of _ "InOverflow a"] exI [of _ ?x])
    (auto simp: new_bucket_def ix_inv_def ix_used_def get_bucket_def)
qed

interpretation ix: item_store "ix_inv v" "ix_used v" "ix_room v" "get_bucket v" "put_bucket v"
    "new_bucket t safe v" empty_bucket next_ref for t safe v
proof
  show "\<exists>b. get_bucket v r x = Inr b" if "ix_inv v x" "r \<in> ix_used v x" for x r
    using that ofb.get_used [of "overflow_buckets x v"] by (auto simp: get_bucket_def ix_used_def ix_inv_def)
  show "next_ref empty_bucket = None" using ofb.succ_zero by (simp add: next_ref_def)
qed (rule ix_put_used ix_alloc_new; assumption)+

section \<open>Chains and their entries\<close>

definition bucket_at :: "u8 \<Rightarrow> index \<Rightarrow> bucket_ref \<Rightarrow> hash_bucket" where
  "bucket_at v x r = (case get_bucket v r x of Inr b \<Rightarrow> b | Inl _ \<Rightarrow> empty_bucket)"

abbreviation chain :: "u8 \<Rightarrow> index \<Rightarrow> u64 \<Rightarrow> bucket_ref list \<Rightarrow> bool" where
  "chain v x i rs \<equiv> path (\<lambda>r. get_bucket v r x) next_ref (Some (InTable i)) rs"

text \<open>What a walk over the buckets \<open>rs\<close> of a chain computes.\<close>

fun walk_refs :: "('acc \<Rightarrow> bucket_ref \<Rightarrow> hash_bucket \<Rightarrow> 'res + 'acc) \<Rightarrow> (bucket_ref \<Rightarrow> hash_bucket) \<Rightarrow> bucket_ref list \<Rightarrow> 'acc \<Rightarrow> 'res + 'acc" where
  "walk_refs body B [] acc = Inr acc"
| "walk_refs body B (r # rs) acc = (case body acc r (B r) of Inl res \<Rightarrow> Inl res | Inr acc' \<Rightarrow> walk_refs body B rs acc')"

lemma walk_chain_refs:
  assumes "path (\<lambda>r. get_bucket v r x) next_ref (Some r) rs" "InOverflow ` set seen \<inter> set (tl rs) = {}"
  shows "walk_chain v body x seen r acc =
    Inr (case walk_refs body (bucket_at v x) rs acc of Inl res \<Rightarrow> Inl res | Inr acc' \<Rightarrow> Inr (acc', last rs))"
  using assms
proof (induction rs arbitrary: r seen acc)
  case (Cons b rs)
  then obtain y where y: "b = r" "get_bucket v r x = Inr y" "path (\<lambda>r. get_bucket v r x) next_ref (next_ref y) rs" by auto
  have at: "bucket_at v x r = y" by (simp add: bucket_at_def y(2))
  show ?case
  proof (cases "overflow_unused (overflow_entry y)")
    case True
    then have "rs = []" using y(3) by (cases rs) (auto simp: next_ref_def next_bucket_def)
    then show ?thesis using True y at by (subst walk_chain.simps) (auto split: sum.splits)
  next
    case False
    let ?a = "overflow_address (overflow_entry y)"
    obtain rs' where rs: "rs = InOverflow ?a # rs'" using y(3) False by (cases rs) (auto simp: next_ref_def next_bucket_def)
    have p: "path (\<lambda>r. get_bucket v r x) next_ref (Some (InOverflow ?a)) rs"
      using y(3) False by (simp add: next_ref_def next_bucket_def)
    have na: "?a \<notin> set seen" using Cons.prems(2) rs by auto
    have "InOverflow ` set (?a # seen) \<inter> set (tl rs) = {}"
      using Cons.prems(2) rs path_distinct [OF p] by auto
    from Cons.IH [OF p this] show ?thesis using False na y at rs
      by (subst walk_chain.simps) (auto split: sum.splits)
  qed
qed simp

text \<open>The slots of a chain in the order of a search, with their entries.\<close>

fun numbered :: "bucket_ref \<Rightarrow> nat \<Rightarrow> bucket_entry list \<Rightarrow> (slot \<times> bucket_entry) list" where
  "numbered r i [] = []"
| "numbered r i (e # es) = ((r, i), e) # numbered r (i + 1) es"

definition slots :: "(bucket_ref \<Rightarrow> hash_bucket) \<Rightarrow> bucket_ref list \<Rightarrow> (slot \<times> bucket_entry) list" where
  "slots B rs = concat (map (\<lambda>r. numbered r 0 (entries (B r))) rs)"

lemma slots_simps [simp]:
  "slots B [] = []"
  "slots B (r # rs) = numbered r 0 (entries (B r)) @ slots B rs"
  "slots B (rs @ rs') = slots B rs @ slots B rs'"
  by (simp_all add: slots_def)

lemma in_numbered: "((r', k), e) \<in> set (numbered r i es) \<longleftrightarrow> r' = r \<and> i \<le> k \<and> k < i + length es \<and> e = es ! (k - i)"
proof (induction es arbitrary: i)
  case (Cons a es)
  show ?case
  proof (cases "k = i")
    case True then show ?thesis using Cons by auto
  next
    case False
    then have "i < k \<Longrightarrow> k - i = Suc (k - Suc i)" by simp
    then show ?thesis using False Cons by (auto simp: Suc_le_eq nth_Cons' split: if_splits)
  qed
qed simp

lemma in_slots: "((r, k), e) \<in> set (slots B rs) \<longleftrightarrow> r \<in> set rs \<and> k < length (entries (B r)) \<and> e = entries (B r) ! k"
  by (induction rs) (auto simp: in_numbered)

lemma slots_cong: "(\<And>r. r \<in> set rs \<Longrightarrow> entries (B r) = entries (B' r)) \<Longrightarrow> slots B rs = slots B' rs"
  by (induction rs) auto

definition put_slot :: "slot \<Rightarrow> bucket_entry \<Rightarrow> slot \<times> bucket_entry \<Rightarrow> slot \<times> bucket_entry" where
  "put_slot s e p = (fst p, if fst p = s then e else snd p)"

lemma numbered_put: "map (put_slot (r, k) e) (numbered r i es) = numbered r i (if i \<le> k then es[k - i := e] else es)"
proof (induction es arbitrary: i)
  case (Cons a es)
  show ?case
  proof (cases "i < k")
    case True
    then have "k - i = Suc (k - Suc i)" by simp
    then show ?thesis using True Cons by (simp add: put_slot_def)
  next
    case False then show ?thesis using Cons by (cases "i = k") (simp_all add: put_slot_def)
  qed
qed simp

lemma numbered_put_other: "r' \<noteq> r \<Longrightarrow> map (put_slot (r', k) e) (numbered r i es) = numbered r i es"
  by (induction es arbitrary: i) (simp_all add: put_slot_def)

lemma slots_put:
  "slots (B(r := (B r)\<lparr>entries := (entries (B r))[k := e]\<rparr>)) rs = map (put_slot (r, k) e) (slots B rs)"
proof (induction rs)
  case (Cons r' rs)
  then show ?case using numbered_put [of r k e 0 "entries (B r)"] numbered_put_other [of r r' k e 0 "entries (B r')"]
    by (cases "r' = r") simp_all
qed simp

section \<open>Searches\<close>

lemma scan_numbered: "scan_entries P i es = map_option (\<lambda>(s, e). snd s) (find (\<lambda>(s, e). P e) (numbered r i es))"
  by (induction es arbitrary: i) auto

lemma find_numbered_ref: "find P (numbered r i es) = Some ((r', k), e) \<Longrightarrow> r' = r"
  by (induction es arbitrary: i) (auto split: if_splits)

lemma walk_find:
  "walk_refs (\<lambda>_ r b. case scan_entries P 0 (entries b) of Some k \<Rightarrow> Inl (r, k) | None \<Rightarrow> Inr ()) B rs () =
    (case find (\<lambda>(s, e). P e) (slots B rs) of Some (s, e) \<Rightarrow> Inl s | None \<Rightarrow> Inr ())"
proof (induction rs)
  case (Cons r rs)
  show ?case
  proof (cases "find (\<lambda>(s, e). P e) (numbered r 0 (entries (B r)))")
    case None
    then show ?thesis using Cons scan_numbered [of P 0 "entries (B r)" r] by (simp add: find_append)
  next
    case (Some q)
    then obtain k e where "q = ((r, k), e)" using find_numbered_ref by (cases q) (metis prod.collapse)
    then show ?thesis using Some scan_numbered [of P 0 "entries (B r)" r] by (simp add: find_append)
  qed
qed simp

lemma scan_tentative_numbered:
  "scan_tentative tag r i es free = (case find (\<lambda>(s, e). matches tag e) (numbered r i es) of Some q \<Rightarrow> Inl q
     | None \<Rightarrow> Inr (case free of Some s \<Rightarrow> Some s | None \<Rightarrow> map_option fst (find (\<lambda>(s, e). entry_unused e) (numbered r i es))))"
  by (induction tag r i es free rule: scan_tentative.induct) (auto simp: matches_def split: option.splits)

lemma walk_tentative:
  "walk_refs (\<lambda>free r b. scan_tentative tag r 0 (entries b) free) B rs free =
    (case find (\<lambda>(s, e). matches tag e) (slots B rs) of Some q \<Rightarrow> Inl q
     | None \<Rightarrow> Inr (case free of Some s \<Rightarrow> Some s | None \<Rightarrow> map_option fst (find (\<lambda>(s, e). entry_unused e) (slots B rs))))"
proof (induction rs arbitrary: free)
  case (Cons r rs)
  then show ?case by (simp add: scan_tentative_numbered find_append split: option.splits)
qed (simp split: option.splits)

lemma walk_conflict:
  "walk_refs (\<lambda>_ r b. if \<exists>k < length (entries b). P (entries b ! k) \<and> s \<noteq> (r, k) then Inl () else Inr ()) B rs () =
    (if \<exists>(s', e) \<in> set (slots B rs). P e \<and> s \<noteq> s' then Inl () else Inr ())"
proof (induction rs)
  case (Cons r rs)
  have "(\<exists>(s', e) \<in> set (numbered r 0 (entries (B r))). P e \<and> s \<noteq> s') \<longleftrightarrow>
      (\<exists>k < length (entries (B r)). P (entries (B r) ! k) \<and> s \<noteq> (r, k))"
    by (force simp: in_numbered)
  then show ?case using Cons by (auto simp: bex_Un)
qed simp

section \<open>The invariant\<close>

definition bucket_number :: "u8 \<Rightarrow> index \<Rightarrow> nat" where
  "bucket_number v x = length (buckets (state x v))"

text \<open>\<open>C\<close> gives the chain of every bucket; different chains share no bucket.\<close>

definition struct_ok :: "u8 \<Rightarrow> index \<Rightarrow> (u64 \<Rightarrow> bucket_ref list) \<Rightarrow> bool" where
  "struct_ok v x C \<longleftrightarrow> ix_inv v x \<and> (\<exists>k < 31. bucket_number v x = 2 ^ k) \<and>
     (\<forall>i. unat i < bucket_number v x \<longrightarrow> chain v x i (C i) \<and> set (C i) \<subseteq> ix_used v x \<and>
       (\<forall>r \<in> set (C i). length (entries (bucket_at v x r)) = kNumEntries)) \<and>
     (\<forall>i j. unat i < bucket_number v x \<and> unat j < bucket_number v x \<and> i \<noteq> j \<longrightarrow> set (C i) \<inter> set (C j) = {})"

text \<open>No entry is tentative and no tag occurs twice.\<close>

definition tags_ok :: "(slot \<times> bucket_entry) list \<Rightarrow> bool" where
  "tags_ok S \<longleftrightarrow> (\<forall>p \<in> set S. snd p = 0 \<or> \<not> entry_tentative (snd p)) \<and>
     (\<forall>p \<in> set S. \<forall>q \<in> set S. snd p \<noteq> 0 \<and> snd q \<noteq> 0 \<and> entry_tag (snd p) = entry_tag (snd q) \<longrightarrow> fst p = fst q)"

definition index_ok :: "u8 \<Rightarrow> index \<Rightarrow> bool" where
  "index_ok v x \<longleftrightarrow> (\<exists>C. struct_ok v x C \<and> (\<forall>i. unat i < bucket_number v x \<longrightarrow> tags_ok (slots (bucket_at v x) (C i))))"

lemma struct_okD:
  assumes "struct_ok v x C" "unat i < bucket_number v x"
  shows "ix_inv v x" "chain v x i (C i)" "set (C i) \<subseteq> ix_used v x" "r \<in> set (C i) \<Longrightarrow> length (entries (bucket_at v x r)) = kNumEntries"
    "unat j < bucket_number v x \<Longrightarrow> i \<noteq> j \<Longrightarrow> set (C i) \<inter> set (C j) = {}" "C i \<noteq> []"
proof -
  show "ix_inv v x" "chain v x i (C i)" "set (C i) \<subseteq> ix_used v x" "r \<in> set (C i) \<Longrightarrow> length (entries (bucket_at v x r)) = kNumEntries"
    using assms by (auto simp: struct_ok_def)
  show "unat j < bucket_number v x \<Longrightarrow> i \<noteq> j \<Longrightarrow> set (C i) \<inter> set (C j) = {}" using assms unfolding struct_ok_def by blast
  then show "C i \<noteq> []" using \<open>chain v x i (C i)\<close> by auto
qed

lemma bucket_at_Inr: "ix_inv v x \<Longrightarrow> r \<in> ix_used v x \<Longrightarrow> get_bucket v r x = Inr (bucket_at v x r)"
  using ix.get_used [of v x r] by (auto simp: bucket_at_def)

lemma put_bucket_frame:
  assumes "put_bucket v r b x = Inr x'"
  shows "index_version x' = index_version x" "bucket_number v x' = bucket_number v x"
  using assms by (auto simp: put_bucket_def bucket_number_def bindR_Inr_iff split: bucket_ref.splits if_splits)

lemma new_bucket_frame:
  assumes "new_bucket t safe v x = Inr (d, x')"
  shows "index_version x' = index_version x" "bucket_number v x' = bucket_number v x"
  using assms by (auto simp: new_bucket_def bucket_number_def bindR_Inr_iff)

text \<open>Storing an entry changes that slot only.\<close>

lemma store_entry_struct:
  assumes ok: "struct_ok v x C" and i: "unat i < bucket_number v x" and r: "r \<in> set (C i)" and k: "k < kNumEntries"
  shows "\<exists>x'. store_entry v (r, k) e x = Inr x' \<and> struct_ok v x' C \<and> load_entry v (r, k) x' = Inr e \<and>
    index_version x' = index_version x \<and> bucket_number v x' = bucket_number v x \<and>
    (\<forall>j. unat j < bucket_number v x \<longrightarrow> slots (bucket_at v x') (C j) = map (put_slot (r, k) e) (slots (bucket_at v x) (C j)))"
proof -
  note D = struct_okD [OF ok]
  let ?B = "bucket_at v x" and ?b = "(bucket_at v x r)\<lparr>entries := (entries (bucket_at v x r))[k := e]\<rparr>"
  have inv: "ix_inv v x" and ru: "r \<in> ix_used v x" using D(1,3) i r by blast+
  have g: "get_bucket v r x = Inr (?B r)" by (rule bucket_at_Inr [OF inv ru])
  obtain x' where x': "put_bucket v r ?b x = Inr x'" "ix_inv v x'" "ix_used v x' = ix_used v x" "get_bucket v r x' = Inr ?b"
    "\<And>r'. r' \<in> ix_used v x \<Longrightarrow> r' \<noteq> r \<Longrightarrow> get_bucket v r' x' = get_bucket v r' x"
    using ix.put_used [OF inv ru, of ?b] by blast
  have fr: "index_version x' = index_version x" "bucket_number v x' = bucket_number v x" using put_bucket_frame [OF x'(1)] by auto
  have at: "bucket_at v x' r' = (if r' = r then ?b else ?B r')" if "r' \<in> ix_used v x" for r'
    using x'(4,5) that by (simp add: bucket_at_def)
  have len: "length (entries (?B r)) = kNumEntries" using D(4) [OF i r] .
  have ch: "chain v x' j (C j)" if "unat j < bucket_number v x" for j
    by (rule ix.put_path [OF inv ru x'(1) g _ D(2) [OF that] D(3) [OF that]]) (simp add: next_ref_def next_bucket_def)
  have ln: "length (entries (bucket_at v x' r')) = kNumEntries" if "unat j < bucket_number v x" "r' \<in> set (C j)" for j r'
    using D(4) [OF that] at [of r'] D(3) [OF that(1)] that(2) len by auto
  have st: "struct_ok v x' C"
    using ok ch ln x'(2,3) unfolding struct_ok_def fr by auto
  have "slots (bucket_at v x') (C j) = map (put_slot (r, k) e) (slots ?B (C j))" if "unat j < bucket_number v x" for j
    unfolding slots_put [symmetric] using at D(3) [OF that] by (intro slots_cong) auto
  moreover have "store_entry v (r, k) e x = Inr x'" using g x'(1) len k by (simp add: store_entry_def)
  moreover have "load_entry v (r, k) x' = Inr e" using x'(4) len k by (simp add: load_entry_def)
  ultimately show ?thesis using st fr by auto
qed

lemma overflow_to_next:
  assumes "new_bucket t safe v x = Inr (d, x1)" "ix_inv v x1" "ix_used v x1 = insert d (ix_used v x)"
  shows "next_ref (b\<lparr>overflow_entry := overflow_to d\<rparr>) = Some d"
proof -
  obtain a where d: "d = InOverflow a" using assms(1) by (auto simp: new_bucket_def bindR_Inr_iff)
  then have "a \<in> in_use (overflow_buckets x1 v)" using assms(3) by (auto simp: ix_used_def)
  moreover have "alloc_inv empty_bucket (overflow_buckets x1 v)" using assms(2) by (simp add: ix_inv_def bucket_inv_def)
  ultimately have a: "0 < a" "unat a < 2 ^ 48" by (auto simp: in_use_def alloc_inv_def word_less_nat_alt)
  have "field overflow_layout 0 (HashBucketOverflowEntry a) = take_bit 48 a"
    unfolding HashBucketOverflowEntry_def by (subst overflow_word.field_pack) (simp_all add: overflow_layout_def)
  then have "field overflow_layout 0 (HashBucketOverflowEntry a) = a" using take_bit_self_u64 [OF a(2)] by simp
  then show ?thesis using a(1)
    by (simp add: d overflow_to_def next_ref_def next_bucket_def overflow_unused_def overflow_address_def)
qed

text \<open>A new bucket adds seven free slots to one chain.\<close>

lemma link_bucket_struct:
  assumes ok: "struct_ok v x C" and i: "unat i < bucket_number v x" and room: "ix_room v x"
  shows "\<exists>d x'. link_bucket t safe v (last (C i)) x = Inr (d, x') \<and> struct_ok v x' (C(i := C i @ [d])) \<and>
    index_version x' = index_version x \<and> bucket_number v x' = bucket_number v x \<and>
    (\<forall>j. unat j < bucket_number v x \<longrightarrow> slots (bucket_at v x') (C j) = slots (bucket_at v x) (C j)) \<and>
    slots (bucket_at v x') [d] = numbered d 0 (replicate kNumEntries 0)"
proof -
  note D = struct_okD [OF ok]
  let ?B = "bucket_at v x" and ?l = "last (C i)"
  let ?b = "\<lambda>d. (?B ?l)\<lparr>overflow_entry := overflow_to d\<rparr>"
  have l: "?l \<in> set (C i)" using D(6) [OF i] by simp
  have inv: "ix_inv v x" and lu: "?l \<in> ix_used v x" using D(1,3) i l by blast+
  have nx: "\<forall>d s1. new_bucket t safe v x = Inr (d, s1) \<and> ix_inv v s1 \<and> ix_used v s1 = insert d (ix_used v x) \<longrightarrow> next_ref (?b d) = Some d"
    using overflow_to_next by blast
  obtain d x1 x2 where n: "new_bucket t safe v x = Inr (d, x1)" "get_bucket v ?l x1 = Inr (?B ?l)" "put_bucket v ?l (?b d) x1 = Inr x2"
    "ix_inv v x2" "d \<notin> ix_used v x" "ix_used v x2 = insert d (ix_used v x)" "chain v x2 i (C i @ [d])"
    "get_bucket v d x2 = Inr empty_bucket" "get_bucket v ?l x2 = Inr (?b d)"
    "\<And>r. r \<in> ix_used v x \<Longrightarrow> r \<noteq> ?l \<Longrightarrow> get_bucket v r x2 = get_bucket v r x"
    using ix.link_new [where f = ?b, OF inv room D(2) [OF i] D(6) [OF i] D(3) [OF i] bucket_at_Inr [OF inv lu] nx]
    by blast
  have fr: "index_version x2 = index_version x" "bucket_number v x2 = bucket_number v x"
    using put_bucket_frame [OF n(3)] new_bucket_frame [OF n(1)] by auto
  have at: "bucket_at v x2 r = (if r = ?l then ?b d else ?B r)" if "r \<in> ix_used v x" for r
    using n(9,10) that by (simp add: bucket_at_def)
  have atd: "bucket_at v x2 d = empty_bucket" by (simp add: bucket_at_def n(8))
  have ch: "chain v x2 j (C j)" if j: "unat j < bucket_number v x" "j \<noteq> i" for j
  proof (rule path_cong [OF D(2) [OF j(1)]])
    fix r y assume r: "r \<in> set (C j)" "get_bucket v r x = Inr y"
    then have "r \<noteq> ?l" "r \<in> ix_used v x" using D(5) [OF i j(1)] j(2) l D(3) [OF j(1)] by auto
    then show "\<exists>z. get_bucket v r x2 = Inr z \<and> next_ref z = next_ref y" using n(10) r by auto
  qed
  have ln: "length (entries (bucket_at v x2 r)) = kNumEntries" if "unat j < bucket_number v x" "r \<in> set (C j)" for j r
    using D(4) [OF that] at [of r] D(3) [OF that(1)] that(2) D(4) [OF i l] by auto
  have nd: "d \<notin> set (C j)" if "unat j < bucket_number v x" for j using D(3) [OF that] n(5) by blast
  have "struct_ok v x2 (C(i := C i @ [d]))"
    unfolding struct_ok_def fr
  proof (intro conjI allI impI)
    show "\<exists>k < 31. bucket_number v x = 2 ^ k" using ok by (auto simp: struct_ok_def)
    fix j :: u64 assume j: "unat j < bucket_number v x"
    show "chain v x2 j ((C(i := C i @ [d])) j)" using ch [OF j] n(7) by simp
    show "set ((C(i := C i @ [d])) j) \<subseteq> ix_used v x2" using D(3) [OF j] n(6) by auto
    show "\<forall>r \<in> set ((C(i := C i @ [d])) j). length (entries (bucket_at v x2 r)) = kNumEntries"
      using ln [OF j] atd by (simp add: empty_bucket_def)
  next
    fix j j' :: u64 assume "unat j < bucket_number v x \<and> unat j' < bucket_number v x \<and> j \<noteq> j'"
    then show "set ((C(i := C i @ [d])) j) \<inter> set ((C(i := C i @ [d])) j') = {}"
      using D(5) [of j j'] nd by auto
  qed (fact n(4))
  moreover have "slots (bucket_at v x2) (C j) = slots ?B (C j)" if "unat j < bucket_number v x" for j
    using at D(3) [OF that] by (intro slots_cong) auto
  moreover have "link_bucket t safe v ?l x = Inr (d, x2)" using n by (simp add: link_bucket_def)
  ultimately show ?thesis using fr atd by (auto simp: empty_bucket_def)
qed

section \<open>The index as a map\<close>

definition chain_refs :: "u8 \<Rightarrow> index \<Rightarrow> u64 \<Rightarrow> bucket_ref list" where
  "chain_refs v x i = (case walk_chain v (\<lambda>rs r b. Inr (rs @ [r]) :: unit + bucket_ref list) x [] (InTable i) [] of
     Inr (Inr (rs, _)) \<Rightarrow> rs | _ \<Rightarrow> [])"

definition chain_slots :: "u8 \<Rightarrow> index \<Rightarrow> u64 \<Rightarrow> (slot \<times> bucket_entry) list" where
  "chain_slots v x i = slots (bucket_at v x) (chain_refs v x i)"

text \<open>The slot and the entry of a tag in the chain of bucket \<open>i\<close>.\<close>

definition entry_in :: "u8 \<Rightarrow> index \<Rightarrow> u64 \<Rightarrow> u16 \<Rightarrow> (slot \<times> bucket_entry) option" where
  "entry_in v x i tag = find (\<lambda>(s, e). matches tag e) (chain_slots v x i)"

definition index_map :: "u8 \<Rightarrow> index \<Rightarrow> u64 \<times> u16 \<Rightarrow> address option" where
  "index_map v x = (\<lambda>(i, tag). map_option (\<lambda>(s, e). entry_address e) (entry_in v x i tag))"

lemma walk_collect: "walk_refs (\<lambda>rs r b. Inr (rs @ [r]) :: unit + bucket_ref list) B rs acc = Inr (acc @ rs)"
  by (induction rs arbitrary: acc) auto

lemma tl_chain: "chain v x i rs \<Longrightarrow> \<exists>rs'. rs = InTable i # rs'"
  by (cases rs) auto

lemma walk_chain_ok:
  "chain v x i rs \<Longrightarrow> walk_chain v body x [] (InTable i) acc =
    Inr (case walk_refs body (bucket_at v x) rs acc of Inl res \<Rightarrow> Inl res | Inr acc' \<Rightarrow> Inr (acc', last rs))"
  by (rule walk_chain_refs) simp_all

lemma chain_refs_eq: "chain v x i rs \<Longrightarrow> chain_refs v x i = rs"
  by (simp add: chain_refs_def walk_chain_ok walk_collect)

lemma chain_slots_eq: "struct_ok v x C \<Longrightarrow> unat i < bucket_number v x \<Longrightarrow> chain_slots v x i = slots (bucket_at v x) (C i)"
  by (simp add: chain_slots_def chain_refs_eq [OF struct_okD(2)])

lemma index_okD:
  assumes "index_ok v x"
  obtains C where "struct_ok v x C" "\<And>i. unat i < bucket_number v x \<Longrightarrow> tags_ok (chain_slots v x i)"
  using assms unfolding index_ok_def by (metis chain_slots_eq)

lemma index_okI:
  assumes "struct_ok v x C" "\<And>i. unat i < bucket_number v x \<Longrightarrow> tags_ok (chain_slots v x i)"
  shows "index_ok v x"
  using assms unfolding index_ok_def by (metis chain_slots_eq)

lemma hash_tag_bound: "unat (hash_tag h) < 2 ^ 14"
proof -
  have f: "field key_hash_layout 1 h = take_bit 14 (drop_bit 48 h)" by (simp add: field_def key_hash_layout_def)
  have "unat (take_bit 14 (drop_bit 48 h)) < 2 ^ 14" using unat_bits [of 14 48 h] by simp
  then show ?thesis by (simp add: hash_tag_def f [unfolded One_nat_def] unsigned_ucast_eq take_bit_nat_eq_self)
qed

lemma bucket_entry_facts:
  assumes "unat tag < 2 ^ 14"
  shows "entry_tag (HashBucketEntry a tag t) = tag" "entry_tentative (HashBucketEntry a tag t) = t"
    "unat a < 2 ^ 48 \<Longrightarrow> entry_address (HashBucketEntry a tag t) = a"
    "unat a < 2 ^ 48 \<Longrightarrow> a \<noteq> 0 \<Longrightarrow> HashBucketEntry a tag t \<noteq> 0"
proof -
  show "entry_tag (HashBucketEntry a tag t) = tag" "entry_tentative (HashBucketEntry a tag t) = t"
    using entry_tag_field [OF assms] by (simp_all add: entry_tag_def entry_tentative_def entry_pack_fields(2,4) [unfolded One_nat_def])
  show ad: "entry_address (HashBucketEntry a tag t) = a" if "unat a < 2 ^ 48"
    using take_bit_self_u64 [OF that] by (simp add: entry_address_def entry_pack_fields)
  have z: "entry_address 0 = 0" by (simp add: entry_address_def field_def entry_layout_def)
  show "HashBucketEntry a tag t \<noteq> 0" if "unat a < 2 ^ 48" "a \<noteq> 0"
  proof
    assume "HashBucketEntry a tag t = 0"
    then have "entry_address (HashBucketEntry a tag t) = 0" by (simp only: z)
    with ad [OF that(1)] that(2) show False by simp
  qed
qed

lemma find_unique: "q \<in> set L \<Longrightarrow> P q \<Longrightarrow> (\<And>p. p \<in> set L \<Longrightarrow> P p \<Longrightarrow> p = q) \<Longrightarrow> find P L = Some q"
proof (induction L)
  case (Cons a L)
  show ?case
  proof (cases "P a")
    case True then show ?thesis using Cons.prems(3) [of a] by simp
  next
    case False
    then have q: "q \<in> set L" using Cons.prems(1,2) by auto
    have "find P L = Some q" by (rule Cons.IH [OF q Cons.prems(2)]) (rule Cons.prems(3), simp_all)
    then show ?thesis using False by simp
  qed
qed simp

lemma find_put_same:
  assumes "(s, e0) \<in> set S" "matches tag e" "\<And>p. p \<in> set S \<Longrightarrow> fst p \<noteq> s \<Longrightarrow> \<not> matches tag (snd p)"
  shows "find (\<lambda>(s, e). matches tag e) (map (put_slot s e) S) = Some (s, e)"
proof (rule find_unique)
  show "(s, e) \<in> set (map (put_slot s e) S)" using assms(1) by (force simp: put_slot_def)
  fix p assume "p \<in> set (map (put_slot s e) S)" "case p of (s, e) \<Rightarrow> matches tag e"
  then show "p = (s, e)" using assms(3) by (force simp: put_slot_def split: if_splits)
qed (use assms(2) in simp)

lemma find_put_other:
  assumes "\<not> matches tag e" "\<And>p. p \<in> set S \<Longrightarrow> fst p = s \<Longrightarrow> \<not> matches tag (snd p)"
  shows "find (\<lambda>(s, e). matches tag e) (map (put_slot s e) S) = find (\<lambda>(s, e). matches tag e) S"
  using assms
proof (induction S)
  case (Cons p S)
  then have "find (\<lambda>(s, e). matches tag e) (map (put_slot s e) S) = find (\<lambda>(s, e). matches tag e) S" by simp
  moreover have "put_slot s e p = (fst p, if fst p = s then e else snd p)" by (simp add: put_slot_def)
  ultimately show ?case using Cons.prems(1) Cons.prems(2) [of p] by (cases p) auto
qed simp

section \<open>Searching and creating entries\<close>

lemma FindEntry_entry_in:
  assumes "struct_ok v x C" "v = index_version x" "bucket_of_hash h (state x v) = Inr i" "unat i < bucket_number v x"
  shows "FindEntry h x = Inr (map_option fst (entry_in v x i (hash_tag h)))"
proof -
  have c: "chain v x i (C i)" by (rule struct_okD(2) [OF assms(1,4)])
  show ?thesis
    unfolding FindEntry_def entry_in_def chain_slots_eq [OF assms(1,4)] Let_def assms(2) [symmetric] assms(3) bindR.simps
      walk_chain_ok [OF c] walk_find
    by (auto split: option.splits)
qed

lemma slots_fun: "(s, e) \<in> set (slots B rs) \<Longrightarrow> (s, e') \<in> set (slots B rs) \<Longrightarrow> e = e'"
  by (cases s) (simp add: in_slots)

lemma put_slot_twice: "map (put_slot s e) (map (put_slot s e') S) = map (put_slot s e) S"
  by (simp add: put_slot_def)

lemma tags_ok_put:
  assumes "tags_ok S" "e = 0 \<or> \<not> entry_tentative e" "\<And>p. p \<in> set S \<Longrightarrow> fst p \<noteq> s \<Longrightarrow> snd p \<noteq> 0 \<Longrightarrow> e \<noteq> 0 \<Longrightarrow> entry_tag (snd p) \<noteq> entry_tag e"
  shows "tags_ok (map (put_slot s e) S)"
  unfolding tags_ok_def
proof (intro conjI ballI impI)
  show "snd q = 0 \<or> \<not> entry_tentative (snd q)" if q: "q \<in> set (map (put_slot s e) S)" for q
  proof -
    obtain a where "a \<in> set S" "q = put_slot s e a" using q by auto
    then show ?thesis using assms(1,2) unfolding tags_ok_def by (cases "fst a = s") (simp_all add: put_slot_def)
  qed
  fix p q assume "p \<in> set (map (put_slot s e) S)" "q \<in> set (map (put_slot s e) S)"
    and nz: "snd p \<noteq> 0 \<and> snd q \<noteq> 0 \<and> entry_tag (snd p) = entry_tag (snd q)"
  then obtain a b where ab: "a \<in> set S" "p = put_slot s e a" "b \<in> set S" "q = put_slot s e b" by auto
  show "fst p = fst q"
  proof (cases "fst a = s"; cases "fst b = s")
    assume "fst a \<noteq> s" "fst b \<noteq> s"
    then have "snd p = snd a" "snd q = snd b" "fst p = fst a" "fst q = fst b" using ab by (simp_all add: put_slot_def)
    then show ?thesis using assms(1) ab(1,3) nz unfolding tags_ok_def by metis
  qed (use ab nz assms(3) [of a] assms(3) [of b] in \<open>auto simp: put_slot_def\<close>)
qed

text \<open>Installing a new tag in a free slot, first as a tentative entry.\<close>

lemma install_entry:
  assumes ok: "struct_ok v x C" and i: "unat i < bucket_number v x" and s: "(s, 0) \<in> set (slots (bucket_at v x) (C i))"
    and none: "\<And>p. p \<in> set (slots (bucket_at v x) (C i)) \<Longrightarrow> snd p \<noteq> 0 \<Longrightarrow> entry_tag (snd p) \<noteq> tag" and tag: "unat tag < 2 ^ 14"
  defines "e \<equiv> HashBucketEntry kInvalidAddress tag False" and "e1 \<equiv> HashBucketEntry kInvalidAddress tag True"
  shows "\<exists>x2 x3. cas_entry v s kInvalidEntry e1 x = Inr (True, kInvalidEntry, x2) \<and> HasConflictingEntry s i v x2 = Inr False \<and>
    store_entry v s e x2 = Inr x3 \<and> struct_ok v x3 C \<and> index_version x3 = index_version x \<and> bucket_number v x3 = bucket_number v x \<and>
    (\<forall>j. unat j < bucket_number v x \<longrightarrow> slots (bucket_at v x3) (C j) = map (put_slot s e) (slots (bucket_at v x) (C j)))"
proof -
  obtain r k where rk: "s = (r, k)" by (cases s)
  note D = struct_okD [OF ok i]
  have r: "r \<in> set (C i)" "k < kNumEntries" "entries (bucket_at v x r) ! k = 0"
    using s D(4) [of r] by (auto simp: rk in_slots)
  have "get_bucket v r x = Inr (bucket_at v x r)" using bucket_at_Inr [OF D(1)] D(3) r(1) by blast
  then have ld: "load_entry v s x = Inr 0" using r D(4) [OF r(1)] by (simp add: load_entry_def rk)
  obtain x2 where x2: "store_entry v s e1 x = Inr x2" "struct_ok v x2 C" "load_entry v s x2 = Inr e1"
    "index_version x2 = index_version x" "bucket_number v x2 = bucket_number v x"
    "\<And>j. unat j < bucket_number v x \<Longrightarrow> slots (bucket_at v x2) (C j) = map (put_slot s e1) (slots (bucket_at v x) (C j))"
    using store_entry_struct [OF ok i r(1,2), of e1] unfolding rk by auto
  obtain x3 where x3: "store_entry v s e x2 = Inr x3" "struct_ok v x3 C"
    "index_version x3 = index_version x2" "bucket_number v x3 = bucket_number v x2"
    "\<And>j. unat j < bucket_number v x2 \<Longrightarrow> slots (bucket_at v x3) (C j) = map (put_slot s e) (slots (bucket_at v x2) (C j))"
    using store_entry_struct [OF x2(2) _ r(1,2), of e] i x2(5) unfolding rk by auto
  have t1: "entry_tag e1 = tag" using bucket_entry_facts(1) [OF tag] by (simp add: e1_def)
  have nc: "\<not> (\<exists>(s', e') \<in> set (slots (bucket_at v x2) (C i)). e' \<noteq> kInvalidEntry \<and> entry_tag e' = entry_tag e1 \<and> s \<noteq> s')"
    unfolding x2(6) [OF i] t1 using none by (force simp: put_slot_def kInvalidEntry_def)
  have i2: "unat i < bucket_number v x2" using i x2(5) by simp
  have "HasConflictingEntry s i v x2 = Inr False"
    unfolding HasConflictingEntry_def x2(3) bindR.simps walk_chain_ok [OF struct_okD(2) [OF x2(2) i2]]
    using walk_conflict [where P = "\<lambda>e'. e' \<noteq> kInvalidEntry \<and> entry_tag e' = entry_tag e1", of s "bucket_at v x2" "C i"]
    unfolding conj_assoc if_not_P [OF nc] by simp
  moreover have "cas_entry v s kInvalidEntry e1 x = Inr (True, kInvalidEntry, x2)"
    using ld x2(1) by (simp add: cas_entry_def kInvalidEntry_def)
  ultimately show ?thesis using x2 x3 put_slot_twice by auto
qed

text \<open>The bucket of a hash lies in the table.\<close>

lemma bucket_of_hash_ok:
  assumes "struct_ok v x C"
  shows "\<exists>i. bucket_of_hash h (state x v) = Inr i \<and> unat i < bucket_number v x \<and> unat i = unat h mod 2 ^ 48 mod bucket_number v x"
proof -
  obtain k where k: "k < 31" "bucket_number v x = 2 ^ k" using assms by (auto simp: struct_ok_def)
  have "table_size_of (state x v) = 2 ^ k" using k(2) by (simp add: table_size_of_def bucket_number_def)
  moreover have "(2 :: nat) ^ k > 0" by simp
  ultimately show ?thesis using hash_idx_pow [of k h] k by (auto simp: bucket_of_hash_def)
qed

lemma not_matches: "tags_ok S \<Longrightarrow> find (\<lambda>(s, e). matches tag e) S = None \<Longrightarrow> p \<in> set S \<Longrightarrow> snd p \<noteq> 0 \<Longrightarrow> entry_tag (snd p) \<noteq> tag"
  by (cases p) (fastforce simp: find_None_iff tags_ok_def matches_def entry_unused_def)

definition same_but :: "u8 \<Rightarrow> index \<Rightarrow> index \<Rightarrow> u64 \<Rightarrow> u16 \<Rightarrow> bool" where
  "same_but v x x' i tag \<longleftrightarrow> index_version x' = index_version x \<and> bucket_number v x' = bucket_number v x \<and>
     (\<forall>j tag'. unat j < bucket_number v x \<and> (j, tag') \<noteq> (i, tag) \<longrightarrow> entry_in v x' j tag' = entry_in v x j tag')"

text \<open>After writing an entry of one tag into a slot of a chain, the other tags are found as before.\<close>

lemma put_slots_index:
  assumes ok: "struct_ok v x C" "struct_ok v x' C" "bucket_number v x' = bucket_number v x" "index_version x' = index_version x"
    and tags: "\<And>j. unat j < bucket_number v x \<Longrightarrow> tags_ok (chain_slots v x j)"
    and sl: "\<And>j. unat j < bucket_number v x \<Longrightarrow> slots (bucket_at v x') (C j) = map (put_slot s e) (slots (bucket_at v x) (C j))"
    and i: "unat i < bucket_number v x" and s: "(s, e0) \<in> set (slots (bucket_at v x) (C i))"
    and e: "e = 0 \<or> matches tag e" and e0: "e0 = 0 \<or> entry_tag e0 = tag"
    and own: "\<And>p. p \<in> set (slots (bucket_at v x) (C i)) \<Longrightarrow> fst p \<noteq> s \<Longrightarrow> snd p \<noteq> 0 \<Longrightarrow> entry_tag (snd p) \<noteq> tag"
  shows "index_ok v x'" "entry_in v x' i tag = (if e = 0 then None else Some (s, e))" "same_but v x x' i tag"
proof -
  let ?S = "\<lambda>j. slots (bucket_at v x) (C j)"
  have cs: "chain_slots v x j = ?S j" "chain_slots v x' j = map (put_slot s e) (?S j)" if "unat j < bucket_number v x" for j
    using chain_slots_eq [OF ok(1)] chain_slots_eq [OF ok(2)] sl [OF that] ok(3) that by simp_all
  have te: "e = 0 \<or> \<not> entry_tentative e \<and> entry_tag e = tag" using e by (auto simp: matches_def)
  have elsewhere: "fst p \<noteq> s" if "p \<in> set (?S j)" "unat j < bucket_number v x" "j \<noteq> i" for p j
  proof
    assume "fst p = s"
    then obtain r k where "p = ((r, k), snd p)" "s = (r, k)" by (cases s) (auto simp: prod_eq_iff)
    then have "r \<in> set (C j)" "r \<in> set (C i)" using that(1) s by (metis in_slots)+
    then show False using struct_okD(5) [OF ok(1) i that(2)] that(3) by blast
  qed
  have id: "map (put_slot s e) (?S j) = ?S j" if "unat j < bucket_number v x" "j \<noteq> i" for j
    using elsewhere [OF _ that] by (intro map_idI) (simp add: put_slot_def)
  have "tags_ok (chain_slots v x' j)" if j: "unat j < bucket_number v x" for j
  proof (cases "j = i")
    case True
    then show ?thesis unfolding cs(2) [OF j] using tags [OF j] te own unfolding cs(1) [OF j]
      by (intro tags_ok_put) auto
  next
    case False
    then show ?thesis using tags [OF j] id [OF j False] cs [OF j] by simp
  qed
  then show "index_ok v x'" using ok(2,3) by (intro index_okI) auto
  have nm: "\<not> matches tag' (snd p)" if "p \<in> set (?S i)" "fst p = s" "tag' \<noteq> tag" for p tag'
  proof -
    have "snd p = e0" using slots_fun [OF s] that(1,2) by (metis prod.collapse)
    then show ?thesis using e0 that(3) by (auto simp: matches_def entry_unused_def)
  qed
  show "entry_in v x' i tag = (if e = 0 then None else Some (s, e))"
  proof (cases "e = 0")
    case False
    then have "find (\<lambda>(s, e). matches tag e) (map (put_slot s e) (?S i)) = Some (s, e)"
      using e own by (intro find_put_same [OF s]) (auto simp: matches_def entry_unused_def)
    then show ?thesis using False by (simp add: entry_in_def cs(2) [OF i])
  next
    case True
    have "\<not> matches tag (snd p)" if p: "p \<in> set (map (put_slot s e) (?S i))" for p
    proof -
      obtain q where "q \<in> set (?S i)" "p = put_slot s e q" using p by auto
      then show ?thesis using own [of q] True by (cases "fst q = s") (auto simp: put_slot_def matches_def entry_unused_def)
    qed
    then have "find (\<lambda>(s, e). matches tag e) (map (put_slot s e) (?S i)) = None"
      unfolding find_None_iff case_prod_unfold by blast
    then show ?thesis using True by (simp add: entry_in_def cs(2) [OF i])
  qed
  have "entry_in v x' j tag' = entry_in v x j tag'" if j: "unat j < bucket_number v x" "(j, tag') \<noteq> (i, tag)" for j tag'
  proof (cases "j = i")
    case True
    then have "tag' \<noteq> tag" using j(2) by simp
    then have "\<not> matches tag' e" using te by (auto simp: matches_def entry_unused_def)
    from find_put_other [OF this nm [OF _ _ \<open>tag' \<noteq> tag\<close>], of "?S i"] show ?thesis
      by (simp add: entry_in_def True cs [OF i])
  next
    case False
    then show ?thesis using id [OF j(1)] by (simp add: entry_in_def cs [OF j(1)])
  qed
  then show "same_but v x x' i tag" using ok(3,4) by (simp add: same_but_def)
qed

lemma FindOrCreateEntry_found:
  assumes "struct_ok v x C" "v = index_version x" "v \<le> 1" "bucket_of_hash h (state x v) = Inr i" "unat i < bucket_number v x"
    "entry_in v x i (hash_tag h) = Some (s, e)"
  shows "FindOrCreateEntry t safe h x = Inr (s, e, x)" "matches (hash_tag h) e"
proof -
  have f: "find (\<lambda>(s, e). matches (hash_tag h) e) (slots (bucket_at v x) (C i)) = Some (s, e)"
    using assms(6) by (simp add: entry_in_def chain_slots_eq [OF assms(1,5)])
  then show m: "matches (hash_tag h) e" by (auto simp: find_Some_iff)
  have "FindTentativeEntry t safe h i v x = Inr (s, e, x)"
    unfolding FindTentativeEntry_def walk_chain_ok [OF struct_okD(2) [OF assms(1,5)]] walk_tentative f by simp
  then show "FindOrCreateEntry t safe h x = Inr (s, e, x)"
    using assms(2-4) m by (simp add: FindOrCreateEntry_def matches_def entry_unused_def kInvalidEntry_def)
qed

text \<open>A free slot for a tag that the chain does not have, possibly in a new bucket.\<close>

lemma FindTentativeEntry_free:
  assumes ok: "struct_ok v x C" and i: "unat i < bucket_number v x" and room: "ix_room v x"
    and none: "entry_in v x i (hash_tag h) = None"
  shows "\<exists>s x1 C1 zs. FindTentativeEntry t safe h i v x = Inr (s, kInvalidEntry, x1) \<and> struct_ok v x1 C1 \<and>
    index_version x1 = index_version x \<and> bucket_number v x1 = bucket_number v x \<and> (s, 0) \<in> set (slots (bucket_at v x1) (C1 i)) \<and>
    (\<forall>j. unat j < bucket_number v x \<longrightarrow> slots (bucket_at v x1) (C1 j) = slots (bucket_at v x) (C j) @ (if j = i then zs else [])) \<and>
    (\<forall>p \<in> set zs. snd p = 0)"
proof -
  let ?S = "slots (bucket_at v x) (C i)"
  have f: "find (\<lambda>(s, e). matches (hash_tag h) e) ?S = None"
    using none by (simp add: entry_in_def chain_slots_eq [OF ok i])
  note w = walk_chain_ok [OF struct_okD(2) [OF ok i], where body = "\<lambda>free r b. scan_tentative (hash_tag h) r 0 (entries b) free" and acc = None,
    unfolded walk_tentative f]
  show ?thesis
  proof (cases "find (\<lambda>(s, e). entry_unused e) ?S")
    case (Some q)
    then obtain s where q: "q = (s, 0)" "(s, 0) \<in> set ?S" using find_SomeD [OF Some] by (cases q) (simp add: entry_unused_def)
    have "FindTentativeEntry t safe h i v x = Inr (s, kInvalidEntry, x)"
      unfolding FindTentativeEntry_def w Some q(1) by simp
    then show ?thesis using ok q(2) by (intro exI [of _ s] exI [of _ x] exI [of _ C] exI [of _ "[]"]) simp
  next
    case None
    obtain d x1 where l: "link_bucket t safe v (last (C i)) x = Inr (d, x1)" "struct_ok v x1 (C(i := C i @ [d]))"
      "index_version x1 = index_version x" "bucket_number v x1 = bucket_number v x"
      "\<And>j. unat j < bucket_number v x \<Longrightarrow> slots (bucket_at v x1) (C j) = slots (bucket_at v x) (C j)"
      "slots (bucket_at v x1) [d] = numbered d 0 (replicate kNumEntries 0)"
      using link_bucket_struct [OF ok i room, of t safe] by auto
    have "FindTentativeEntry t safe h i v x = Inr ((d, 0), kInvalidEntry, x1)"
      unfolding FindTentativeEntry_def w None using l(1) by simp
    moreover have "((d, 0), 0) \<in> set (numbered d 0 (replicate kNumEntries 0))" by (simp add: in_numbered)
    moreover have "snd p = 0" if "p \<in> set (numbered d 0 (replicate kNumEntries 0))" for p
    proof -
      obtain r k e where "p = ((r, k), e)" by (metis prod.collapse)
      then show ?thesis using that by (simp add: in_numbered)
    qed
    ultimately show ?thesis using l(2-6)
      by (intro exI [of _ "(d, 0)"] exI [of _ x1] exI [of _ "C(i := C i @ [d])"] exI [of _ "numbered d 0 (replicate kNumEntries 0)"])
        auto
  qed
qed

lemma tags_ok_zeros: "tags_ok S \<Longrightarrow> (\<forall>p \<in> set zs. snd p = 0) \<Longrightarrow> tags_ok (S @ zs)"
  unfolding tags_ok_def set_append by (intro conjI ballI impI) (metis UnE)+

lemma find_zeros: "(\<forall>p \<in> set zs. snd p = 0) \<Longrightarrow> find (\<lambda>(s, e). matches tag e) (S @ zs) = find (\<lambda>(s, e). matches tag e) S"
proof -
  assume "\<forall>p \<in> set zs. snd p = 0"
  then have "\<not> matches tag (snd p)" if "p \<in> set zs" for p using that by (simp add: matches_def entry_unused_def)
  then have "find (\<lambda>(s, e). matches tag e) zs = None"
    unfolding find_None_iff case_prod_unfold by blast
  then show ?thesis by (simp add: find_append split: option.splits)
qed

lemma FindOrCreateEntry_created:
  assumes ok: "index_ok v x" and v: "v = index_version x" "v \<le> 1" and room: "ix_room v x"
    and b: "bucket_of_hash h (state x v) = Inr i" and i: "unat i < bucket_number v x"
    and none: "entry_in v x i (hash_tag h) = None"
  defines "e \<equiv> HashBucketEntry kInvalidAddress (hash_tag h) False"
  shows "\<exists>s x'. FindOrCreateEntry t safe h x = Inr (s, e, x') \<and> index_ok v x' \<and>
    entry_in v x' i (hash_tag h) = Some (s, e) \<and> same_but v x x' i (hash_tag h)"
proof -
  let ?tag = "hash_tag h"
  obtain C where C: "struct_ok v x C" "\<And>j. unat j < bucket_number v x \<Longrightarrow> tags_ok (chain_slots v x j)"
    using index_okD [OF ok] by blast
  obtain s x1 C1 zs where f: "FindTentativeEntry t safe h i v x = Inr (s, kInvalidEntry, x1)" "struct_ok v x1 C1"
    "index_version x1 = index_version x" "bucket_number v x1 = bucket_number v x" "(s, 0) \<in> set (slots (bucket_at v x1) (C1 i))"
    "\<And>j. unat j < bucket_number v x \<Longrightarrow> slots (bucket_at v x1) (C1 j) = slots (bucket_at v x) (C j) @ (if j = i then zs else [])"
    "\<forall>p \<in> set zs. snd p = 0"
    using FindTentativeEntry_free [OF C(1) i room none, of t safe] by blast
  have cs: "chain_slots v x j = slots (bucket_at v x) (C j)"
    "chain_slots v x1 j = slots (bucket_at v x) (C j) @ (if j = i then zs else [])" if "unat j < bucket_number v x" for j
    using chain_slots_eq [OF C(1) that] chain_slots_eq [OF f(2)] f(4,6) that by simp_all
  have t1: "tags_ok (chain_slots v x1 j)" if "unat j < bucket_number v x1" for j
    using C(2) [of j] cs [of j] f(4) that tags_ok_zeros f(7) by auto
  have e1: "entry_in v x1 j tag' = entry_in v x j tag'" if "unat j < bucket_number v x" for j tag'
    unfolding entry_in_def cs [OF that] using find_zeros [of "if j = i then zs else []"] f(7) by simp
  have n1: "entry_tag (snd p) \<noteq> ?tag" if "p \<in> set (slots (bucket_at v x1) (C1 i))" "snd p \<noteq> 0" for p
    using not_matches [OF t1 _ _ that(2), of i ?tag] e1 [OF i, of ?tag] none i f(4) that(1) chain_slots_eq [OF f(2), of i]
    by (simp add: entry_in_def)
  have i1: "unat i < bucket_number v x1" using i f(4) by simp
  obtain x2 x3 where x3: "cas_entry v s kInvalidEntry (HashBucketEntry kInvalidAddress ?tag True) x1 = Inr (True, kInvalidEntry, x2)"
    "HasConflictingEntry s i v x2 = Inr False" "store_entry v s e x2 = Inr x3" "struct_ok v x3 C1"
    "index_version x3 = index_version x1" "bucket_number v x3 = bucket_number v x1"
    "\<And>j. unat j < bucket_number v x1 \<Longrightarrow> slots (bucket_at v x3) (C1 j) = map (put_slot s e) (slots (bucket_at v x1) (C1 j))"
    using install_entry [OF f(2) i1 f(5) n1 hash_tag_bound] unfolding e_def by blast
  have m: "matches ?tag e" "e \<noteq> 0"
    using bucket_entry_facts [OF hash_tag_bound [of h], of kInvalidAddress False]
    by (simp_all add: e_def matches_def entry_unused_def kInvalidAddress_def)
  have "index_ok v x3" "entry_in v x3 i ?tag = (if e = 0 then None else Some (s, e))" "same_but v x1 x3 i ?tag"
    by (rule put_slots_index [OF f(2) x3(4,6,5) t1 x3(7) i1 f(5), where tag = ?tag], assumption+; use m n1 in simp)+
  note P = this
  have "same_but v x x3 i ?tag" using P(3) m e1 f(3,4) unfolding same_but_def by auto
  moreover have "FindOrCreateEntry t safe h x = Inr (s, e, x3)"
    using v b f(1) x3(1-3) by (simp add: FindOrCreateEntry_def e_def)
  ultimately show ?thesis using P(1,2) m by auto
qed

lemma entry_inD:
  assumes "struct_ok v x C" "unat i < bucket_number v x" "entry_in v x i tag = Some (s, e)"
  shows "(s, e) \<in> set (slots (bucket_at v x) (C i))" "matches tag e" "load_entry v s x = Inr e"
    "fst s \<in> set (C i)" "snd s < kNumEntries"
proof -
  show se: "(s, e) \<in> set (slots (bucket_at v x) (C i))" and "matches tag e"
    using find_SomeD [of _ "chain_slots v x i" "(s, e)"] assms(3)
    by (auto simp: entry_in_def chain_slots_eq [OF assms(1,2)])
  note D = struct_okD [OF assms(1,2)]
  obtain r k where s: "s = (r, k)" by (cases s)
  have r: "r \<in> set (C i)" "k < length (entries (bucket_at v x r))" "e = entries (bucket_at v x r) ! k" using se by (auto simp: s in_slots)
  then have "get_bucket v r x = Inr (bucket_at v x r)" using bucket_at_Inr [OF D(1)] D(3) by blast
  then show "load_entry v s x = Inr e" using r by (simp add: load_entry_def s)
  show "fst s \<in> set (C i)" "snd s < kNumEntries" using r D(4) [OF r(1)] by (simp_all add: s)
qed

text \<open>Replacing the entry of a tag, or removing it.\<close>

lemma store_entry_index:
  assumes ok: "index_ok v x" and i: "unat i < bucket_number v x" and s: "entry_in v x i tag = Some (s, e)"
    and e': "e' = 0 \<or> matches tag e'"
  shows "\<exists>x'. store_entry v s e' x = Inr x' \<and> index_ok v x' \<and> same_but v x x' i tag \<and>
    entry_in v x' i tag = (if e' = 0 then None else Some (s, e'))"
proof -
  obtain C where C: "struct_ok v x C" "\<And>j. unat j < bucket_number v x \<Longrightarrow> tags_ok (chain_slots v x j)"
    using index_okD [OF ok] by blast
  note E = entry_inD [OF C(1) i s]
  have e: "e \<noteq> 0" "entry_tag e = tag" using E(2) by (auto simp: matches_def entry_unused_def)
  obtain x' where x': "store_entry v s e' x = Inr x'" "struct_ok v x' C" "index_version x' = index_version x"
    "bucket_number v x' = bucket_number v x"
    "\<And>j. unat j < bucket_number v x \<Longrightarrow> slots (bucket_at v x') (C j) = map (put_slot s e') (slots (bucket_at v x) (C j))"
    using store_entry_struct [OF C(1) i E(4,5), of e'] by auto
  have own: "entry_tag (snd p) \<noteq> tag" if "p \<in> set (slots (bucket_at v x) (C i))" "fst p \<noteq> s" "snd p \<noteq> 0" for p
    using C(2) [OF i] that E(1) e unfolding tags_ok_def chain_slots_eq [OF C(1) i] by fastforce
  have "index_ok v x'" "entry_in v x' i tag = (if e' = 0 then None else Some (s, e'))" "same_but v x x' i tag"
    by (rule put_slots_index [OF C(1) x'(2,4,3) C(2) x'(5) i E(1) e' _ own], assumption+; use e in simp)+
  with x'(1) show ?thesis by blast
qed

lemma cas_entry_index:
  assumes ok: "index_ok v x" and i: "unat i < bucket_number v x" and s: "entry_in v x i tag = Some (s, e)"
    and a: "unat a < 2 ^ 48" "a \<noteq> 0" and tag: "unat tag < 2 ^ 14"
  shows "\<exists>x'. cas_entry v s e (HashBucketEntry a tag False) x = Inr (True, e, x') \<and> index_ok v x' \<and> same_but v x x' i tag \<and>
    entry_in v x' i tag = Some (s, HashBucketEntry a tag False)"
proof -
  obtain C where C: "struct_ok v x C" using index_okD [OF ok] by blast
  note E = entry_inD [OF C i s] and F = bucket_entry_facts [OF tag, of a False]
  have "matches tag (HashBucketEntry a tag False)" "HashBucketEntry a tag False \<noteq> 0"
    using F a by (simp_all add: matches_def entry_unused_def)
  then show ?thesis using store_entry_index [OF ok i s, of "HashBucketEntry a tag False"] E(3)
    by (auto simp: cas_entry_def)
qed

lemma index_ok_bucket:
  assumes "index_ok v x"
  shows "\<exists>i. bucket_of_hash h (state x v) = Inr i \<and> unat i < bucket_number v x \<and> unat i = unat h mod 2 ^ 48 mod bucket_number v x"
  using bucket_of_hash_ok index_okD [OF assms] by metis

text \<open>Outside the table there is nothing to find, so the maps agree there too.\<close>

lemma index_map_outside: "\<not> unat i < bucket_number v x \<Longrightarrow> index_map v x (i, tag) = None"
  by (simp add: index_map_def entry_in_def chain_slots_def chain_refs_def walk_chain.simps get_bucket_def bucket_number_def)

lemma same_but_map:
  assumes "same_but v x x' i tag" "unat i < bucket_number v x"
  shows "index_map v x' = (index_map v x)((i, tag) := index_map v x' (i, tag))"
proof
  fix q :: "u64 \<times> u16"
  obtain j tag' where q: "q = (j, tag')" by (cases q)
  show "index_map v x' q = ((index_map v x)((i, tag) := index_map v x' (i, tag))) q"
  proof (cases "unat j < bucket_number v x")
    case True
    then show ?thesis using assms(1) unfolding q same_but_def by (cases "(j, tag') = (i, tag)") (auto simp: index_map_def)
  next
    case False
    then have "j \<noteq> i" using assms(2) by auto
    then show ?thesis using False assms(1) by (simp add: q index_map_outside same_but_def)
  qed
qed

section \<open>A new index\<close>

lemma new_index_ok:
  assumes t: "table_Initialize sz al t0 = Inr t" and ob: "alloc_Initialize empty_bucket th safe = Inr ob"
    and x: "state x v = t" "overflow_buckets x v = ob"
  shows "index_ok v x" "index_map v x = (\<lambda>_. None)" "ix_room v x" "bucket_number v x = unat sz"
proof -
  have p: "sz < 2147483647" "IsPowerOfTwo sz" "buckets t = replicate (unat sz) empty_bucket"
    using t by (auto simp: table_Initialize_def split: if_splits)
  show n: "bucket_number v x = unat sz" by (simp add: bucket_number_def x p(3))
  have a: "alloc_inv empty_bucket ob" "in_use ob = {}" "alloc_count ob = 1" "free_lists ob = (\<lambda>_. [])"
    using alloc_Initialize_inv [of empty_bucket th safe] ob by auto
  show "ix_room v x" by (simp add: ix_room_def x alloc_room_def a)
  have inv: "ix_inv v x" using a by (simp add: ix_inv_def bucket_inv_def x freed_def)
  obtain k where k: "unat sz = 2 ^ k" using IsPowerOfTwo_ex [OF p(2)] by blast
  then have "(2 :: nat) ^ k < 2 ^ 31" using p(1) by (simp add: word_less_nat_alt)
  then have k31: "k < 31" by (simp only: power_strict_increasing_iff one_less_numeral_iff semiring_norm)
  let ?C = "\<lambda>i. [InTable i]"
  have g: "get_bucket v (InTable i) x = Inr empty_bucket" if "unat i < unat sz" for i
    using that by (simp add: get_bucket_def x p(3))
  have at: "bucket_at v x (InTable i) = empty_bucket" if "unat i < unat sz" for i using g [OF that] by (simp add: bucket_at_def)
  have st: "struct_ok v x ?C"
    unfolding struct_ok_def n
  proof (intro conjI allI impI)
    show "\<exists>k < 31. unat sz = 2 ^ k" using k k31 by auto
    fix i :: u64 assume i: "unat i < unat sz"
    show "chain v x i [InTable i]" using g [OF i] ix.succ_zero by simp
    show "set [InTable i] \<subseteq> ix_used v x" using i by (simp add: ix_used_def x p(3))
    show "\<forall>r \<in> set [InTable i]. length (entries (bucket_at v x r)) = kNumEntries" using at [OF i] by (simp add: empty_bucket_def)
  qed (use inv in auto)
  have sl: "\<forall>p \<in> set (chain_slots v x i). snd p = 0" if "unat i < unat sz" for i
  proof
    fix p assume "p \<in> set (chain_slots v x i)"
    moreover obtain r j e where "p = ((r, j), e)" by (metis prod.collapse)
    ultimately show "snd p = 0" using chain_slots_eq [OF st, of i] that n at [OF that] by (simp add: in_numbered empty_bucket_def)
  qed
  have "tags_ok (chain_slots v x i)" if "unat i < bucket_number v x" for i
    using tags_ok_zeros [of "[]"] sl [of i] that n by (simp add: tags_ok_def)
  then show "index_ok v x" by (rule index_okI [OF st])
  show "index_map v x = (\<lambda>_. None)"
  proof
    fix q :: "u64 \<times> u16"
    obtain i tag where q: "q = (i, tag)" by (cases q)
    show "index_map v x q = None"
    proof (cases "unat i < unat sz")
      case True
      then show ?thesis using find_zeros [of "chain_slots v x i" tag "[]"] sl by (simp add: q index_map_def entry_in_def)
    next
      case False
      then show ?thesis using index_map_outside n by (simp add: q)
    qed
  qed
qed

section \<open>Properties\<close>

text \<open>
  C22: the bucket chains refine a finite map from (bucket, tag) to log addresses. Creating the entry
  of a hash that has none adds it with the invalid address, otherwise nothing changes; the slot that
  is returned is the one every later search finds; and exchanging the entry in it updates the map at
  exactly this place. All of it ends, in particular no walk over a chain runs for ever.
\<close>

theorem index_refines_map:
  assumes "index_ok v x" "v = index_version x" "v \<le> 1" "ix_room v x" "a \<noteq> 0" "Address a = Inr a"
  shows "\<exists>i s e x' x''. bucket_of_hash h (state x v) = Inr i \<and> FindOrCreateEntry t safe h x = Inr (s, e, x') \<and>
    index_ok v x' \<and> FindEntry h x = Inr (if index_map v x (i, hash_tag h) = None then None else Some s) \<and>
    index_map v x' = (if index_map v x (i, hash_tag h) = None then (index_map v x)((i, hash_tag h) \<mapsto> kInvalidAddress) else index_map v x) \<and>
    index_map v x' (i, hash_tag h) = Some (entry_address e) \<and> FindEntry h x' = Inr (Some s) \<and>
    cas_entry v s e (HashBucketEntry a (hash_tag h) False) x' = Inr (True, e, x'') \<and> index_ok v x'' \<and>
    index_map v x'' = (index_map v x')((i, hash_tag h) \<mapsto> a) \<and> FindEntry h x'' = Inr (Some s)"
proof -
  let ?tag = "hash_tag h"
  have a: "unat a < 2 ^ 48" using assms(6) by (simp add: Address_def address_reserved_iff split: if_splits)
  obtain C where C: "struct_ok v x C" using index_okD [OF assms(1)] by blast
  obtain i where i: "bucket_of_hash h (state x v) = Inr i" "unat i < bucket_number v x" "unat i = unat h mod 2 ^ 48 mod bucket_number v x"
    using index_ok_bucket [OF assms(1)] by blast
  obtain s e x' where c: "FindOrCreateEntry t safe h x = Inr (s, e, x')" "index_ok v x'" "entry_in v x' i ?tag = Some (s, e)"
    "same_but v x x' i ?tag" "entry_in v x i ?tag = Some (s, e) \<and> x' = x \<or> entry_in v x i ?tag = None \<and> e = HashBucketEntry kInvalidAddress ?tag False"
  proof (cases "entry_in v x i ?tag")
    case None
    then show thesis using FindOrCreateEntry_created [OF assms(1-4) i(1,2) None, of t safe] that by blast
  next
    case (Some q)
    obtain s e where q: "q = (s, e)" by (cases q)
    have "same_but v x x i ?tag" by (simp add: same_but_def)
    then show thesis using FindOrCreateEntry_found(1) [OF C assms(2,3) i(1,2) Some [unfolded q]] Some assms(1) that q by metis
  qed
  have fr: "index_version x' = v" "bucket_number v x' = bucket_number v x" using c(4) assms(2) by (simp_all add: same_but_def)
  have "unat i < bucket_number v x'" using i(2) fr by simp
  then obtain x'' where u: "cas_entry v s e (HashBucketEntry a ?tag False) x' = Inr (True, e, x'')" "index_ok v x''" "same_but v x' x'' i ?tag"
    "entry_in v x'' i ?tag = Some (s, HashBucketEntry a ?tag False)"
    using cas_entry_index [OF c(2) _ c(3) a assms(5) hash_tag_bound] by blast
  have fr': "index_version x'' = v" "bucket_number v x'' = bucket_number v x" using u(3) fr by (simp_all add: same_but_def)
  have fnd: "FindEntry h y = Inr (map_option fst (entry_in v y i ?tag))"
    if y: "index_ok v y" "index_version y = v" "bucket_number v y = bucket_number v x" for y
  proof -
    obtain D where D: "struct_ok v y D" using index_okD [OF y(1)] by blast
    obtain j where j: "bucket_of_hash h (state y v) = Inr j" "unat j = unat i" using bucket_of_hash_ok [OF D, of h] i(3) y(3) by auto
    then have "j = i" by (simp add: word_unat_eq_iff)
    then show ?thesis using FindEntry_entry_in [OF D _ j(1)] y i(2) by simp
  qed
  have ad: "entry_address (HashBucketEntry kInvalidAddress ?tag False) = kInvalidAddress" "entry_address (HashBucketEntry a ?tag False) = a"
    using bucket_entry_facts(3) [OF hash_tag_bound [of h]] a by (simp_all add: kInvalidAddress_def)
  have m: "index_map v x' (i, ?tag) = Some (entry_address e)" "index_map v x'' (i, ?tag) = Some a"
    using c(3) u(4) ad by (simp_all add: index_map_def)
  have "index_map v x' = (if index_map v x (i, ?tag) = None then (index_map v x)((i, ?tag) \<mapsto> kInvalidAddress) else index_map v x)"
    using same_but_map [OF c(4) i(2)] c(5) m(1) ad(1) by (auto simp: index_map_def)
  moreover have "index_map v x'' = (index_map v x')((i, ?tag) \<mapsto> a)"
    using same_but_map [OF u(3)] i(2) fr m(2) by simp
  moreover have "FindEntry h x = Inr (if index_map v x (i, ?tag) = None then None else Some s)"
    using fnd [OF assms(1)] assms(2) c(5) by (auto simp: index_map_def)
  ultimately show ?thesis using i(1) c(1,2) m(1) fnd [OF c(2) fr] fnd [OF u(2) fr'] c(3) u by auto
qed

text \<open>A new index of four buckets.\<close>

definition new_table :: hash_table where
  "new_table = \<lparr>buckets = [], ckpt_io = no_io, rec_io = no_io\<rparr>"

definition small_index :: "hash_table \<Rightarrow> hash_bucket fixed_alloc \<Rightarrow> index" where
  "small_index t ob = \<lparr>index_version = 0, state = (\<lambda>_. t), overflow_buckets = (\<lambda>_. ob)\<rparr>"

lemma small_index_ok:
  "\<exists>t ob. table_Initialize 4 64 new_table = Inr t \<and> alloc_Initialize empty_bucket 1 0 = Inr ob \<and>
     index_ok 0 (small_index t ob) \<and> ix_room 0 (small_index t ob) \<and> index_map 0 (small_index t ob) = (\<lambda>_. None) \<and>
     bucket_number 0 (small_index t ob) = 4"
proof -
  have "IsPowerOfTwo 4" "IsPowerOfTwo 64" using IsPowerOfTwo_pow [of 2] IsPowerOfTwo_pow [of 6] by simp_all
  then obtain t where t: "table_Initialize 4 64 new_table = Inr t"
    by (simp add: table_Initialize_def io_idle_def new_table_def no_io_def)
  obtain ob where ob: "alloc_Initialize empty_bucket 1 0 = Inr ob" using alloc_Initialize_inv [of empty_bucket 1 0] by auto
  have s: "state (small_index t ob) 0 = t" "overflow_buckets (small_index t ob) 0 = ob" by (simp_all add: small_index_def)
  show ?thesis using t ob new_index_ok [OF t ob s] by (intro exI [of _ t] exI [of _ ob]) simp
qed

theorem index_refines_map_witness:
  "\<exists>x i s x' x''. FindOrCreateEntry 1 0 5 x = Inr (s, HashBucketEntry kInvalidAddress (hash_tag 5) False, x') \<and>
     cas_entry 0 s (HashBucketEntry kInvalidAddress (hash_tag 5) False) (HashBucketEntry 64 (hash_tag 5) False) x' =
       Inr (True, HashBucketEntry kInvalidAddress (hash_tag 5) False, x'') \<and>
     index_map 0 x = (\<lambda>_. None) \<and> index_map 0 x'' = [(i, hash_tag 5) \<mapsto> 64]"
proof -
  obtain t ob where x: "index_ok 0 (small_index t ob)" "ix_room 0 (small_index t ob)" "index_map 0 (small_index t ob) = (\<lambda>_. None)"
    using small_index_ok by auto
  have h: "index_version (small_index t ob) = 0" "Address 64 = Inr 64"
    by (simp_all add: small_index_def Address_def address_reserved_iff)
  obtain i s e x' x'' where r: "bucket_of_hash 5 (state (small_index t ob) 0) = Inr i"
      "FindOrCreateEntry 1 0 5 (small_index t ob) = Inr (s, e, x')"
      "cas_entry 0 s e (HashBucketEntry 64 (hash_tag 5) False) x' = Inr (True, e, x'')"
      "index_map 0 x' = [(i, hash_tag 5) \<mapsto> kInvalidAddress]" "index_map 0 x'' = (index_map 0 x')((i, hash_tag 5) \<mapsto> 64)"
    using index_refines_map [of 0 "small_index t ob" 64 5 1 0] x h by auto
  obtain C where C: "struct_ok 0 (small_index t ob) C" using index_okD [OF x(1)] by blast
  obtain j where j: "bucket_of_hash 5 (state (small_index t ob) 0) = Inr j" "unat j < bucket_number 0 (small_index t ob)"
    using bucket_of_hash_ok [OF C] by blast
  have n: "entry_in 0 (small_index t ob) j (hash_tag 5) = None" using fun_cong [OF x(3), of "(j, hash_tag 5)"] by (simp add: index_map_def)
  have "e = HashBucketEntry kInvalidAddress (hash_tag 5) False"
    using FindOrCreateEntry_created [OF x(1) _ _ x(2) j n, of 1 0] r(2) h(1) by auto
  then show ?thesis using r x(3) by (intro exI [of _ "small_index t ob"] exI [of _ i] exI [of _ s] exI [of _ x'] exI [of _ x'']) simp
qed

section \<open>Checkpoints of the table\<close>

lemma issue_accepted: "issue (\<lambda>_. True) is = (is, Ok)"
  by (induction "is") auto

text \<open>
  The file offsets of a checkpoint of the table are computed in 32 bits. A table of up to \<open>2^26\<close>
  buckets is written in 256 disjoint pieces, one after the other; from \<open>2^27\<close> buckets on, different
  pieces are written to the same place of the file, so the checkpoint loses buckets.
\<close>

theorem table_checkpoint_offsets:
  assumes "length (buckets t) = 2 ^ k" "8 \<le> k" "k < 31" "table_Checkpoint alignment (\<lambda>_. True) t = Inr (t', reqs, st, size')"
  shows "st = Ok \<and> unat size' = 2 ^ (k + 6) \<and> length reqs = 256 \<and>
    (\<forall>i < 256. unat (fst (snd (reqs ! i))) = i * 2 ^ (k - 2) mod 2 ^ 32 \<and> unat (snd (snd (reqs ! i))) = 2 ^ (k - 2)) \<and>
    (distinct (map (\<lambda>r. fst (snd r)) reqs) \<longleftrightarrow> k \<le> 26)"
proof -
  obtain m where m: "k = m + 8" using assms(2) by (metis le_add_diff_inverse2)
  have m23: "m < 23" using assms(3) m by simp
  have p: "(2 :: nat) ^ k < 2 ^ 31" "(2 :: nat) ^ m < 2 ^ 23" "(2 :: nat) ^ (m + 6) < 2 ^ 29" "(2 :: nat) ^ (k + 6) < 2 ^ 64"
    by (rule power_strict_increasing; use m23 m in simp)+
  let ?sz = "table_size_of t"
  have sz: "unat ?sz = 2 ^ k" using unat_pow2_u64 [of k] assms(1,3) by (simp add: table_size_of_def)
  define chunk where "chunk = (ucast (?sz div ucast kNumMergeChunks) :: u32)"
  define w where "w = (ucast (ucast chunk * 64 :: u64) :: u32)"
  have q: "unat (ucast kNumMergeChunks :: u64) = 256" by (simp add: kNumMergeChunks_def)
  have "unat (?sz div ucast kNumMergeChunks) = 2 ^ m" by (simp add: unat_div_distrib sz q m power_add)
  then have chunk: "unat chunk = 2 ^ m" using p(2) by (simp add: chunk_def unat_ucast_u32)
  have "unat (ucast chunk * 64 :: u64) = 2 ^ (m + 6)"
    using chunk p(3) by (subst unat_mult_lem [THEN iffD1]) (simp_all add: unat_ucast_up power_add)
  then have w: "unat w = 2 ^ (k - 2)" using p(3) by (simp add: w_def unat_ucast_u32 m add.commute)
  have r: "reqs = map (\<lambda>i. (of_nat i * chunk, of_nat i * w, w)) [0..<256]" and st: "st = Ok" and s': "size' = ?sz * 64"
    using assms(4) unfolding table_Checkpoint_def Let_def chunk_def [symmetric] w_def [symmetric] start_io_def issue_accepted
    by (auto simp: bindR_Inr_iff q split: if_splits)
  have "unat (?sz * 64) = 2 ^ (k + 6)" using sz p(4) by (subst unat_mult_lem [THEN iffD1]) (simp_all add: power_add)
  moreover have off: "unat (of_nat i * w) = i * 2 ^ (k - 2) mod 2 ^ 32" if "i < 256" for i
    using that w by (simp add: unat_word_ariths unat_of_nat mod_mult_left_eq)
  moreover have "distinct (map (\<lambda>r. fst (snd r)) reqs) \<longleftrightarrow> k \<le> 26"
  proof
    assume d: "distinct (map (\<lambda>r. fst (snd r)) reqs)"
    show "k \<le> 26"
    proof (rule ccontr)
      assume "\<not> k \<le> 26"
      then obtain n where "k - 2 = 25 + n" by (intro that [of "k - 27"]) simp
      then have "(128 :: nat) * 2 ^ (k - 2) = 2 ^ 32 * 2 ^ n" by (simp add: power_add)
      then have "unat (of_nat 128 * w) = unat (of_nat 0 * w)" using off [of 128] off [of 0] by simp
      then have "map (\<lambda>r. fst (snd r)) reqs ! 128 = map (\<lambda>r. fst (snd r)) reqs ! 0" by (simp add: r word_unat_eq_iff)
      then show False using d nth_eq_iff_index_eq [OF d, of 128 0] by (simp add: r)
    qed
  next
    assume k: "k \<le> 26"
    have "of_nat i * w \<noteq> of_nat j * w" if "i < j" "j < 256" for i j
    proof -
      have "(2 :: nat) ^ (k - 2) \<le> 2 ^ 24" by (rule power_increasing) (use k in simp_all)
      then have "(256 :: nat) * 2 ^ (k - 2) \<le> 2 ^ 32" by simp
      moreover have "j * 2 ^ (k - 2) < 256 * 2 ^ (k - 2)" using that by (intro mult_strict_right_mono) simp_all
      ultimately have "j * 2 ^ (k - 2) < 2 ^ 32" by (rule less_le_trans [rotated])
      moreover have "i * 2 ^ (k - 2) < j * 2 ^ (k - 2)" using that by simp
      moreover from calculation have "i * 2 ^ (k - 2) mod 2 ^ 32 = i * 2 ^ (k - 2)" by (intro mod_less) (rule less_trans)
      ultimately have "unat (of_nat i * w) < unat (of_nat j * w)" using off [of i] off [of j] that by simp
      then show ?thesis by auto
    qed
    then show "distinct (map (\<lambda>r. fst (snd r)) reqs)" unfolding r distinct_conv_nth
      by (auto simp: linorder_neq_iff)
  qed
  ultimately show ?thesis using st s' w by (simp add: r)
qed

theorem table_checkpoint_offsets_witness:
  "\<exists>t' reqs st sz. table_Checkpoint 512 (\<lambda>_. True) (new_table\<lparr>buckets := replicate (2 ^ 27) empty_bucket\<rparr>) = Inr (t', reqs, st, sz) \<and>
     length reqs = 256 \<and> \<not> distinct (map (\<lambda>r. fst (snd r)) reqs)"
proof -
  let ?t = "new_table\<lparr>buckets := replicate (2 ^ 27) empty_bucket\<rparr>"
  have "table_size_of ?t = 0x8000000" unfolding table_size_of_def hash_table.simps hash_table.update_convs length_replicate by simp
  then obtain t' reqs st sz where r: "table_Checkpoint 512 (\<lambda>_. True) ?t = Inr (t', reqs, st, sz)"
    by (simp add: table_Checkpoint_def kNumMergeChunks_def Let_def start_io_def issue_accepted new_table_def no_io_def)
  from table_checkpoint_offsets [OF _ _ _ r, of 27] show ?thesis using r by auto
qed

end
