(* ===== verification/HybridLog_Proofs.thy ===== *)
theory HybridLog_Proofs
  imports HybridLog
begin

text \<open>
  The hybrid log is safe in every interleaving of its events: the order of its addresses, the
  disjointness of the blocks it gives out, and the pages in memory. The proofs work with page
  numbers and addresses as natural numbers.
\<close>

section \<open>Addresses as numbers\<close>

definition pg :: "address \<Rightarrow> nat" where "pg a = unat a div 2 ^ 25"

interpretation page_offset_word: packed_word page_offset_layout
  by unfold_locales (simp add: page_offset_layout_def)

lemma unat_page_pg: "unat a < 2 ^ 48 \<Longrightarrow> unat (page a) = pg a"
  by (simp add: unat_page pg_def less_mult_imp_div_less)

lemma unat_kMaxPage: "unat kMaxPage = 2 ^ 23 - 1"
  by (simp add: kMaxPage_def)

lemma unat_kMaxOffset: "unat kMaxOffset = 2 ^ 25 - 1"
  by (simp add: kMaxOffset_def)

lemma le_kMaxPage_iff: "p \<le> kMaxPage \<longleftrightarrow> unat p < 2 ^ 23"
  unfolding word_le_nat_alt unat_kMaxPage by auto

lemma unat_Address_of:
  assumes "unat p < 2 ^ 23" "unat off < 2 ^ 25"
  shows "unat (Address_of p off) = unat p * 2 ^ 25 + unat off"
proof -
  let ?a = "Address_of p off"
  have f: "field address_layout 0 ?a = take_bit 25 (ucast off)" "field address_layout 1 ?a = take_bit 23 (ucast p)"
    "field address_layout 2 ?a = 0"
    unfolding Address_of_def by (subst address_word.field_pack; simp add: address_layout_def)+
  have t: "take_bit 25 (ucast off :: u64) = ucast off" "take_bit 23 (ucast p :: u64) = ucast p"
    using assms by (simp_all add: take_bit_self_u64 unat_ucast_up)
  have lt: "unat ?a < 2 ^ 48" using f(3) address_reserved_iff [of ?a] by (simp add: address_reserved_def)
  have "unat ?a mod 2 ^ 25 = unat off"
    using unat_bits [of 25 0 ?a] f(1) t(1) by (simp add: address_fields unat_ucast_up)
  moreover have "unat ?a div 2 ^ 25 mod 2 ^ 23 = unat p"
    using unat_bits [of 23 25 ?a] f(2) t(2) by (simp add: address_fields unat_ucast_up del: One_nat_def)
  moreover have "unat ?a div 2 ^ 25 < 2 ^ 23" using lt by (simp add: less_mult_imp_div_less)
  ultimately show ?thesis by (metis div_mult_mod_eq mod_less)
qed

lemma page_offset_fields:
  "field page_offset_layout 0 c = take_bit 41 c" "field page_offset_layout 1 c = take_bit 23 (drop_bit 41 c)"
  by (simp_all add: field_def page_offset_layout_def)

lemma unat_po_offset: "unat (po_offset c) = unat c mod 2 ^ 41"
  using unat_bits [of 41 0 c] by (simp add: po_offset_def page_offset_fields)

lemma unat_po_page: "unat (po_page c) = unat c div 2 ^ 41"
proof -
  have "unat c div 2 ^ 41 < 2 ^ 23" using unat_bound_u64 [of c] by (simp add: less_mult_imp_div_less)
  then have "unat (field page_offset_layout 1 c) = unat c div 2 ^ 41"
    unfolding page_offset_fields using unat_bits [of 23 41 c] by simp
  moreover have "unat c div 2 ^ 41 < 2 ^ 32"
    using unat_bound_u64 [of c] by (simp add: less_mult_imp_div_less)
  ultimately show ?thesis unfolding po_page_def by (subst unat_ucast_u32) simp_all
qed

lemma PageOffset_unat:
  assumes "unat p < 2 ^ 23" "unat off < 2 ^ 41"
  obtains c where "PageOffset p off = Inr c" "unat c = unat p * 2 ^ 41 + unat off"
proof
  let ?c = "pack page_offset_layout [off, ucast p]"
  have f: "field page_offset_layout 0 ?c = take_bit 41 off" "field page_offset_layout 1 ?c = take_bit 23 (ucast p)"
    by (subst page_offset_word.field_pack; simp add: page_offset_layout_def)+
  have t: "take_bit 41 off = off" "take_bit 23 (ucast p :: u64) = ucast p"
    using assms by (simp_all add: take_bit_self_u64 unat_ucast_up)
  show "PageOffset p off = Inr ?c" using assms by (simp add: PageOffset_def le_kMaxPage_iff)
  have "unat ?c mod 2 ^ 41 = unat off"
    using unat_bits [of 41 0 ?c] f(1) t(1) by (simp add: page_offset_fields)
  moreover have "unat ?c div 2 ^ 41 mod 2 ^ 23 = unat p"
    using unat_bits [of 23 41 ?c] f(2) t(2) by (simp add: page_offset_fields unat_ucast_up del: One_nat_def)
  moreover have "unat ?c div 2 ^ 41 < 2 ^ 23" using unat_bound_u64 [of ?c] by (simp add: less_mult_imp_div_less)
  ultimately show "unat ?c = unat p * 2 ^ 41 + unat off" by (metis div_mult_mod_eq mod_less)
qed

lemma address_compare_Inr:
  "unat a < 2 ^ 48 \<Longrightarrow> unat b < 2 ^ 48 \<Longrightarrow> address_less a b = Inr (unat a < unat b)"
  "unat a < 2 ^ 48 \<Longrightarrow> unat b < 2 ^ 48 \<Longrightarrow> address_ge a b = Inr (unat b \<le> unat a)"
  by (simp_all add: address_less_def address_ge_def address_compare_def address_reserved_iff
      word_less_nat_alt word_le_nat_alt)

lemma MonotonicUpdate_Inr:
  "unat a < 2 ^ 48 \<Longrightarrow> unat b < 2 ^ 48 \<Longrightarrow>
   MonotonicUpdate a b = Inr (if unat a < unat b then (True, a, b) else (False, a, a))"
  by (simp add: MonotonicUpdate_def address_compare_Inr)

section \<open>The tail\<close>

abbreviation tail_page :: "'r hlog \<Rightarrow> nat" where
  "tail_page h \<equiv> unat (po_page (tail_page_offset h))"

abbreviation tail_offset :: "'r hlog \<Rightarrow> nat" where
  "tail_offset h \<equiv> unat (po_offset (tail_page_offset h))"

lemma tail_split: "unat (tail_page_offset h) = tail_page h * 2 ^ 41 + tail_offset h"
  by (simp add: unat_po_page unat_po_offset)

lemma tail_page_bound: "unat (po_page c) < 2 ^ 23"
  using unat_bound_u64 [of c] by (simp add: unat_po_page less_mult_imp_div_less)

lemma tail_offset_bound: "unat (po_offset c) < 2 ^ 41"
  by (simp add: unat_po_offset)

lemma po_parts:
  assumes "unat c = p * 2 ^ 41 + n" "n < 2 ^ 41"
  shows "unat (po_page c) = p" "unat (po_offset c) = n"
  using assms by (simp_all add: unat_po_page unat_po_offset)

lemma Reserve_Inr:
  assumes "unat n < 2 ^ 25" "unat (po_offset tail) + unat n < 2 ^ 41"
  obtains tail' where "Reserve n tail = Inr (tail, tail')" "unat (po_page tail') = unat (po_page tail)"
    "unat (po_offset tail') = unat (po_offset tail) + unat n"
proof -
  have n: "unat (ucast n :: u64) < 2 ^ 41" using assms(1) by (simp add: unat_ucast_up)
  obtain c where c: "PageOffset 0 (ucast n) = Inr c" "unat c = unat n"
    using PageOffset_unat [of 0 "ucast n"] n by (auto simp: unat_ucast_up)
  have "unat tail + unat n = unat (po_page tail) * 2 ^ 41 + (unat (po_offset tail) + unat n)"
    by (simp add: unat_po_page unat_po_offset)
  also have "\<dots> < 2 ^ 64"
  proof -
    have "unat (po_page tail) \<le> 2 ^ 23 - 1" using tail_page_bound [of tail] by simp
    then have "unat (po_page tail) * 2 ^ 41 \<le> (2 ^ 23 - 1) * 2 ^ 41" by (rule mult_right_mono) simp
    then show ?thesis using assms(2) by simp
  qed
  finally have "unat tail + unat n < 2 ^ 64" .
  then have s: "unat (tail + c) = unat tail + unat n"
    using unat_add_lem [of tail c] by (simp add: c(2))
  then have "unat (tail + c) = unat (po_page tail) * 2 ^ 41 + (unat (po_offset tail) + unat n)"
    by (simp add: unat_po_page unat_po_offset)
  from po_parts [OF this assms(2)] have "unat (po_page (tail + c)) = unat (po_page tail)"
    "unat (po_offset (tail + c)) = unat (po_offset tail) + unat n" .
  moreover have "Reserve n tail = Inr (tail, tail + c)"
    using assms(1) by (simp add: Reserve_def c(1) word_le_nat_alt unat_kMaxOffset)
  ultimately show thesis using that by blast
qed

section \<open>The invariant\<close>

abbreviation bsize :: "'r hlog \<Rightarrow> nat" where "bsize h \<equiv> unat (buffer_size h)"

definition hlog_shape :: "'r hlog \<Rightarrow> bool" where
  "hlog_shape h \<longleftrightarrow> 5 < bsize h \<and> 1 < unat (num_mutable_pages h) \<and>
     length (pages h) = bsize h \<and> length (page_status h) = bsize h"

text \<open>Where \<open>GetTailAddress\<close> points, as a number.\<close>

definition tail_addr :: "'r hlog \<Rightarrow> nat" where
  "tail_addr h = tail_page h * 2 ^ 25 + min (2 ^ 25 - 1) (tail_offset h)"

definition order_ok :: "'r hlog \<Rightarrow> bool" where
  "order_ok h \<longleftrightarrow> unat (safe_head_address h) \<le> unat (head_address h) \<and>
     pg (head_address h) \<le> pg (flushed_until_address h) \<and>
     unat (flushed_until_address h) \<le> unat (safe_read_only_address h) \<and>
     unat (safe_read_only_address h) \<le> unat (read_only_address h) \<and>
     unat (read_only_address h) \<le> tail_addr h \<and>
     unat (head_address h) \<le> tail_addr h \<and> unat (head_address h) \<le> unat (safe_read_only_address h) \<and>
     tail_page h + 1 < pg (safe_head_address h) + bsize h"

definition frames_ok :: "'r hlog \<Rightarrow> bool" where
  "frames_ok h \<longleftrightarrow> (\<forall>p \<le> tail_page h + 1. pages h ! (p mod bsize h) \<noteq> None) \<and>
     (\<forall>p. pg (safe_head_address h) \<le> p \<and> p \<le> tail_page h \<longrightarrow>
        close (status (page_status h ! (p mod bsize h))) = Open)"

text \<open>An address up to which page \<open>p\<close> has been written, or a request to write it.\<close>

definition until_ok :: "'r hlog \<Rightarrow> nat \<Rightarrow> address \<Rightarrow> bool" where
  "until_ok h p u \<longleftrightarrow> p * 2 ^ 25 < unat u \<and> unat u \<le> (p + 1) * 2 ^ 25 \<and> unat u \<le> unat (safe_read_only_address h)"

definition lasts_ok :: "'r hlog \<Rightarrow> bool" where
  "lasts_ok h \<longleftrightarrow> (\<forall>f < bsize h. let u = LastFlushedUntilAddress (page_status h ! f)
     in u = 0 \<or> (\<exists>p. p mod bsize h = f \<and> until_ok h p u))"

definition hlog_core :: "'r hlog \<Rightarrow> bool" where
  "hlog_core h \<longleftrightarrow> hlog_shape h \<and> order_ok h \<and> lasts_ok h"

definition hlog_inv :: "'r hlog \<Rightarrow> bool" where
  "hlog_inv h \<longleftrightarrow> hlog_core h \<and> frames_ok h"

fun action_ok :: "'r hlog \<Rightarrow> log_action \<Rightarrow> bool" where
  "action_ok h (OnPagesClosed a) \<longleftrightarrow> unat a \<le> unat (head_address h)"
| "action_ok h (OnPagesMarkedReadOnly a) \<longleftrightarrow> unat a \<le> unat (read_only_address h)"

lemma action_ok_cong:
  "head_address h' = head_address h \<Longrightarrow> read_only_address h' = read_only_address h \<Longrightarrow> action_ok h' = action_ok h"
proof
  fix x
  assume "head_address h' = head_address h" "read_only_address h' = read_only_address h"
  then show "action_ok h' x = action_ok h x" by (cases x) simp_all
qed

lemma set_frame_simps [simp]:
  "tail_page_offset (set_status p st h) = tail_page_offset h" "tail_page_offset (set_page p m h) = tail_page_offset h"
  "buffer_size (set_status p st h) = buffer_size h" "buffer_size (set_page p m h) = buffer_size h"
  "num_mutable_pages (set_status p st h) = num_mutable_pages h" "num_mutable_pages (set_page p m h) = num_mutable_pages h"
  "safe_head_address (set_status p st h) = safe_head_address h" "safe_head_address (set_page p m h) = safe_head_address h"
  "head_address (set_status p st h) = head_address h" "head_address (set_page p m h) = head_address h"
  "read_only_address (set_status p st h) = read_only_address h" "read_only_address (set_page p m h) = read_only_address h"
  "safe_read_only_address (set_status p st h) = safe_read_only_address h"
  "safe_read_only_address (set_page p m h) = safe_read_only_address h"
  "flushed_until_address (set_status p st h) = flushed_until_address h"
  "flushed_until_address (set_page p m h) = flushed_until_address h"
  "page_status (set_page p m h) = page_status h" "pages (set_status p st h) = pages h"
  "begin_address (set_status p st h) = begin_address h" "begin_address (set_page p m h) = begin_address h"
  by (simp_all add: set_status_def set_page_def)

text \<open>The log can still grow by two rounds of the buffer before it runs out of page numbers.\<close>

definition room :: "'r hlog \<Rightarrow> bool" where
  "room h \<longleftrightarrow> ucast (po_page (tail_page_offset h)) + 2 * ucast (buffer_size h) + 3 < (0x800000 :: u64)"

lemma room_iff: "room h \<longleftrightarrow> tail_page h + 2 * bsize h + 3 < 2 ^ 23"
proof -
  have b: "tail_page h < 2 ^ 32" "bsize h < 2 ^ 32"
    using unsigned_less [of "po_page (tail_page_offset h)"] unsigned_less [of "buffer_size h"] by simp_all
  have d: "unat (2 * ucast (buffer_size h) :: u64) = 2 * bsize h"
    using unat_mult_lem [of 2 "ucast (buffer_size h) :: u64"] b(2) by (simp add: unat_ucast_up)
  have s: "unat (ucast (po_page (tail_page_offset h)) + 2 * ucast (buffer_size h) :: u64) = tail_page h + 2 * bsize h"
    using unat_add_lem [of "ucast (po_page (tail_page_offset h)) :: u64" "2 * ucast (buffer_size h)"] b d
    by (simp add: unat_ucast_up)
  have "unat (ucast (po_page (tail_page_offset h)) + 2 * ucast (buffer_size h) + 3 :: u64) = tail_page h + 2 * bsize h + 3"
    using unat_add_lem [of "ucast (po_page (tail_page_offset h)) + 2 * ucast (buffer_size h) :: u64" 3] b s by simp
  then show ?thesis by (simp add: room_def word_less_nat_alt)
qed

text \<open>No page between the safe head and the tail changes, the begin address stays and the tail moves by at most a page.\<close>

definition keeps :: "'r hlog \<Rightarrow> 'r hlog \<Rightarrow> bool" where
  "keeps h h' \<longleftrightarrow> buffer_size h' = buffer_size h \<and> begin_address h' = begin_address h \<and>
     tail_page h \<le> tail_page h' \<and> tail_page h' \<le> tail_page h + 1 \<and>
     unat (safe_head_address h) \<le> unat (safe_head_address h') \<and>
     unat (head_address h) \<le> unat (head_address h') \<and>
     (\<forall>p. pg (safe_head_address h') \<le> p \<and> p \<le> tail_page h \<longrightarrow>
        pages h' ! (p mod bsize h) = pages h ! (p mod bsize h))"

lemma keeps_refl [simp]: "keeps h h"
  by (simp add: keeps_def)

lemma tail_addr_bound: "tail_addr h < 2 ^ 48"
proof -
  have "tail_page h * 2 ^ 25 \<le> (2 ^ 23 - 1) * 2 ^ 25"
    using tail_page_bound [of "tail_page_offset h"] by (intro mult_right_mono) simp_all
  then show ?thesis by (simp add: tail_addr_def)
qed

lemma pg_tail: "tail_addr h div 2 ^ 25 = tail_page h"
  by (simp add: tail_addr_def min_def)

lemma pg_mono: "unat a \<le> unat b \<Longrightarrow> pg a \<le> pg b"
  by (simp add: pg_def div_le_mono)

lemma pg_le_tail: "unat a \<le> tail_addr h \<Longrightarrow> pg a \<le> tail_page h"
  using div_le_mono [of "unat a" "tail_addr h" "2 ^ 25"] by (simp only: pg_def pg_tail)

lemma pg_div: "p * 2 ^ 25 \<le> unat a \<longleftrightarrow> p \<le> pg a"
  by (simp add: pg_def less_eq_div_iff_mult_less_eq)

lemma order_addrs:
  assumes "order_ok h"
  shows "unat (safe_head_address h) < 2 ^ 48" "unat (head_address h) < 2 ^ 48"
    "unat (flushed_until_address h) < 2 ^ 48" "unat (safe_read_only_address h) < 2 ^ 48"
    "unat (read_only_address h) < 2 ^ 48" "pg (safe_head_address h) \<le> tail_page h"
    "pg (head_address h) \<le> tail_page h" "pg (flushed_until_address h) \<le> tail_page h"
proof -
  have o: "unat (safe_head_address h) \<le> tail_addr h" "unat (head_address h) \<le> tail_addr h"
    "unat (flushed_until_address h) \<le> tail_addr h" "unat (safe_read_only_address h) \<le> tail_addr h"
    "unat (read_only_address h) \<le> tail_addr h"
    using assms by (auto simp: order_ok_def)
  then show "unat (safe_head_address h) < 2 ^ 48" "unat (head_address h) < 2 ^ 48"
    "unat (flushed_until_address h) < 2 ^ 48" "unat (safe_read_only_address h) < 2 ^ 48"
    "unat (read_only_address h) < 2 ^ 48"
    using tail_addr_bound [of h] by linarith+
  from o show "pg (safe_head_address h) \<le> tail_page h" "pg (head_address h) \<le> tail_page h"
    "pg (flushed_until_address h) \<le> tail_page h"
    by (simp_all add: pg_le_tail)
qed

lemma frame_mod: "frame h p = unat p mod bsize h"
  by (simp add: frame_def unat_mod)

lemma frame_less: "hlog_shape h \<Longrightarrow> p mod bsize h < bsize h"
  by (simp add: hlog_shape_def)

lemma Page_Inr: "hlog_shape h \<Longrightarrow> unat p < 2 ^ 23 \<Longrightarrow> Page p h = Inr (pages h ! (unat p mod bsize h))"
  by (simp add: Page_def le_kMaxPage_iff frame_mod hlog_shape_def)

lemma PageStatus_Inr: "hlog_shape h \<Longrightarrow> unat p < 2 ^ 23 \<Longrightarrow> PageStatus p h = Inr (page_status h ! (unat p mod bsize h))"
  by (simp add: PageStatus_def le_kMaxPage_iff frame_mod hlog_shape_def)

text \<open>Pages less than a round apart are in different frames.\<close>

lemma mod_window:
  assumes "p mod b = q mod b" "(p :: nat) < q + b" "q < p + b"
  shows "p = q"
proof -
  have *: "p = q" if "p \<le> q" "p mod b = q mod b" "q < p + b" for p q :: nat
  proof -
    have "b dvd q - p" using mod_eq_dvd_iff_nat [of p q b] that by simp
    then obtain k where k: "q - p = b * k" by (rule dvdE)
    show ?thesis
    proof (cases k)
      case 0
      then show ?thesis using k that by simp
    next
      case (Suc n)
      then have "b \<le> q - p" using k by simp
      then show ?thesis using that by linarith
    qed
  qed
  show ?thesis using assms * [of p q] * [of q p] by (metis nle_le)
qed

section \<open>Shifting the addresses\<close>

lemma unat_sub_u32: "b \<le> (a :: u32) \<Longrightarrow> unat (a - b) = unat a - unat b"
  by (rule unat_sub)

text \<open>Changing only the read-only and the head address, within their bounds, keeps the invariant.\<close>

lemma shift_inv:
  assumes "hlog_core h" "unat (read_only_address h) \<le> unat a" "unat a \<le> tail_addr h"
    "unat (head_address h) \<le> unat b" "unat b \<le> tail_addr h" "pg b \<le> pg (flushed_until_address h)"
    "unat b \<le> unat (safe_read_only_address h)"
  shows "hlog_core (h\<lparr>read_only_address := a, head_address := b\<rparr>)"
  using assms
  by (auto simp: hlog_core_def hlog_shape_def order_ok_def frames_ok_def lasts_ok_def until_ok_def tail_addr_def)

lemma page_start:
  assumes "unat p < 2 ^ 23"
  shows "unat (Address_of p 0) = unat p * 2 ^ 25" "unat (Address_of p 0) < 2 ^ 48" "pg (Address_of p 0) = unat p"
proof -
  show u: "unat (Address_of p 0) = unat p * 2 ^ 25" using unat_Address_of [OF assms, of 0] by simp
  show "pg (Address_of p 0) = unat p" by (simp add: pg_def u)
  have "unat p * 2 ^ 25 \<le> (2 ^ 23 - 1) * 2 ^ 25" using assms by (intro mult_right_mono) simp_all
  then show "unat (Address_of p 0) < 2 ^ 48" unfolding u by simp
qed

lemma shift_read_only:
  assumes "hlog_core h" "unat t \<le> tail_page h + 1" "unat t < 2 ^ 23"
  shows "\<exists>a acts. PageAlignedShiftReadOnlyAddress t h = Inr (h\<lparr>read_only_address := a\<rparr>, acts) \<and>
    unat (read_only_address h) \<le> unat a \<and> unat a \<le> tail_addr h \<and>
    (\<forall>x \<in> set acts. x = OnPagesMarkedReadOnly a)"
proof (cases "t \<le> num_mutable_pages h")
  case True
  moreover have "unat (read_only_address h) \<le> tail_addr h" using assms(1) by (simp add: hlog_core_def order_ok_def)
  ultimately show ?thesis by (intro exI [of _ "read_only_address h"] exI [of _ "[]"])
      (simp add: PageAlignedShiftReadOnlyAddress_def)
next
  case False
  let ?m = "num_mutable_pages h" and ?d = "Address_of (t - num_mutable_pages h) 0"
  have m: "1 < unat ?m" and o: "order_ok h" using assms(1) by (auto simp: hlog_core_def hlog_shape_def)
  have u: "unat (t - ?m) = unat t - unat ?m" using False by (intro unat_sub_u32) simp
  then have lt: "unat (t - ?m) < 2 ^ 23" "unat (t - ?m) \<le> tail_page h" using assms m by linarith+
  note d = page_start [OF lt(1)]
  have le: "unat ?d \<le> tail_addr h" unfolding d tail_addr_def using lt(2) by (simp add: trans_le_add1)
  have "PageAlignedShiftReadOnlyAddress t h = Inr (h\<lparr>read_only_address :=
      if unat (read_only_address h) < unat ?d then ?d else read_only_address h\<rparr>,
      if unat (read_only_address h) < unat ?d then [OnPagesMarkedReadOnly ?d] else [])"
    using False MonotonicUpdate_Inr [OF order_addrs(5) [OF o] d(2)]
    by (simp add: PageAlignedShiftReadOnlyAddress_def Let_def)
  then show ?thesis using le o
    by (intro exI [of _ "if unat (read_only_address h) < unat ?d then ?d else read_only_address h"]
        exI [of _ "if unat (read_only_address h) < unat ?d then [OnPagesMarkedReadOnly ?d] else []"])
      (simp add: order_ok_def)
qed

lemma shift_head:
  assumes "hlog_core h" "unat t \<le> tail_page h + 1" "unat t < 2 ^ 23"
  shows "\<exists>b acts. PageAlignedShiftHeadAddress t h = Inr (h\<lparr>head_address := b\<rparr>, acts) \<and>
    unat (head_address h) \<le> unat b \<and> unat b \<le> tail_addr h \<and> pg b \<le> pg (flushed_until_address h) \<and>
    unat b \<le> unat (safe_read_only_address h) \<and> (\<forall>x \<in> set acts. x = OnPagesClosed b)"
proof (cases "t \<le> buffer_size h - kNumHeadPages")
  case True
  moreover have "unat (head_address h) \<le> tail_addr h" "pg (head_address h) \<le> pg (flushed_until_address h)"
    "unat (head_address h) \<le> unat (safe_read_only_address h)"
    using assms(1) by (simp_all add: hlog_core_def order_ok_def)
  ultimately show ?thesis by (intro exI [of _ "head_address h"] exI [of _ "[]"])
      (simp add: PageAlignedShiftHeadAddress_def)
next
  case False
  let ?l = "buffer_size h - kNumHeadPages" and ?f = "flushed_until_address h"
  have o: "order_ok h" using assms(1) by (auto simp: hlog_core_def)
  have lt: "unat (t - ?l) < 2 ^ 23" using False assms(3) unat_sub_u32 [of ?l t] by simp
  define d where "d = (if unat ?f < unat (Address_of (t - ?l) 0) then Address_of (page ?f) 0 else Address_of (t - ?l) 0)"
  have f: "unat (page ?f) = pg ?f" by (rule unat_page_pg [OF order_addrs(3) [OF o]])
  have pf: "pg ?f \<le> tail_page h" by (rule order_addrs(8) [OF o])
  have lt': "unat (page ?f) < 2 ^ 23" using f pf tail_page_bound [of "tail_page_offset h"] by simp
  have d: "unat d = pg d * 2 ^ 25" "unat d < 2 ^ 48" "pg d \<le> pg ?f"
  proof -
    show "unat d = pg d * 2 ^ 25" "unat d < 2 ^ 48"
      using page_start [OF lt] page_start [OF lt'] by (simp_all add: d_def)
    show "pg d \<le> pg ?f"
    proof (cases "unat ?f < unat (Address_of (t - ?l) 0)")
      case True
      then show ?thesis using page_start(3) [OF lt'] f by (simp add: d_def)
    next
      case False
      then show ?thesis by (simp add: d_def pg_mono)
    qed
  qed
  have le: "unat d \<le> tail_addr h"
    unfolding d(1) tail_addr_def using d(3) pf by (intro trans_le_add1 mult_right_mono) simp_all
  have "pg d * 2 ^ 25 \<le> unat ?f" using d(3) by (simp only: pg_div)
  then have sro: "unat d \<le> unat (safe_read_only_address h)" using d(1) o by (simp add: order_ok_def)
  have "PageAlignedShiftHeadAddress t h = Inr (h\<lparr>head_address :=
      if unat (head_address h) < unat d then d else head_address h\<rparr>,
      if unat (head_address h) < unat d then [OnPagesClosed d] else [])"
    using False MonotonicUpdate_Inr [OF order_addrs(2) [OF o] d(2)]
      address_compare_Inr(1) [OF order_addrs(3) [OF o] page_start(2) [OF lt]]
    by (simp add: PageAlignedShiftHeadAddress_def Let_def d_def)
  then show ?thesis using le o d(3) sro
    by (intro exI [of _ "if unat (head_address h) < unat d then d else head_address h"]
        exI [of _ "if unat (head_address h) < unat d then [OnPagesClosed d] else []"])
      (simp add: order_ok_def)
qed

lemma shift_addresses_inv:
  assumes "hlog_core h" "unat t \<le> tail_page h + 1" "unat t < 2 ^ 23"
  shows "\<exists>a b acts. shift_addresses t h = Inr (h\<lparr>read_only_address := a, head_address := b\<rparr>, acts) \<and>
    hlog_core (h\<lparr>read_only_address := a, head_address := b\<rparr>) \<and>
    unat (read_only_address h) \<le> unat a \<and> unat (head_address h) \<le> unat b \<and>
    (\<forall>x \<in> set acts. action_ok (h\<lparr>read_only_address := a, head_address := b\<rparr>) x)"
proof -
  obtain a acts1 where r: "PageAlignedShiftReadOnlyAddress t h = Inr (h\<lparr>read_only_address := a\<rparr>, acts1)"
    "unat (read_only_address h) \<le> unat a" "unat a \<le> tail_addr h" "\<forall>x \<in> set acts1. x = OnPagesMarkedReadOnly a"
    using shift_read_only [OF assms] by auto
  let ?h = "h\<lparr>read_only_address := a\<rparr>"
  have "hlog_core ?h"
    using shift_inv [OF assms(1) r(2,3), of "head_address h"] assms(1)
    by (simp add: hlog_core_def order_ok_def)
  then obtain b acts2 where d: "PageAlignedShiftHeadAddress t ?h = Inr (?h\<lparr>head_address := b\<rparr>, acts2)"
    "unat (head_address h) \<le> unat b" "unat b \<le> tail_addr h" "pg b \<le> pg (flushed_until_address h)"
    "unat b \<le> unat (safe_read_only_address h)" "\<forall>x \<in> set acts2. x = OnPagesClosed b"
    using shift_head [of ?h t] assms by (auto simp: tail_addr_def)
  have "shift_addresses t h = Inr (h\<lparr>read_only_address := a, head_address := b\<rparr>, acts1 @ acts2)"
    using r(1) d(1) by (simp add: shift_addresses_def)
  moreover have "hlog_core (h\<lparr>read_only_address := a, head_address := b\<rparr>)"
    using shift_inv [OF assms(1) r(2,3) d(2-5)] .
  ultimately show ?thesis using r d by fastforce
qed

section \<open>Allocating\<close>

lemma room_page: "room h \<Longrightarrow> p \<le> tail_page h + 2 \<Longrightarrow> p < 2 ^ 23"
  by (simp add: room_iff)

lemma tail_change_inv:
  assumes "hlog_inv h" "unat (po_page c) = tail_page h" "tail_offset h \<le> unat (po_offset c)"
  shows "hlog_inv (h\<lparr>tail_page_offset := c\<rparr>)"
proof -
  have "tail_addr h \<le> tail_addr (h\<lparr>tail_page_offset := c\<rparr>)" using assms by (simp add: tail_addr_def min_def)
  then show ?thesis
    using assms(1,2) by (auto simp: hlog_inv_def hlog_core_def hlog_shape_def order_ok_def frames_ok_def lasts_ok_def until_ok_def)
qed

text \<open>
  \<open>Allocate\<close> returns the block at the tail, inside the page, or the closed page.
\<close>

lemma Allocate_cases:
  assumes "hlog_inv h" "0 < n" "unat n < 2 ^ 25" "tail_offset h + unat n < 2 ^ 41"
  obtains (full) c where "Allocate n h = Inr (kInvalidAddress, po_page (tail_page_offset h), h\<lparr>tail_page_offset := c\<rparr>)"
      "unat (po_page c) = tail_page h" "unat (po_offset c) = tail_offset h + unat n" "2 ^ 25 < tail_offset h + unat n"
    | (fits) c a where "Allocate n h = Inr (a, 0xFFFFFFFF, h\<lparr>tail_page_offset := c\<rparr>)"
      "unat (po_page c) = tail_page h" "unat (po_offset c) = tail_offset h + unat n" "tail_offset h + unat n \<le> 2 ^ 25"
      "unat a = tail_page h * 2 ^ 25 + tail_offset h"
proof -
  let ?t = "tail_page_offset h"
  obtain c where c: "Reserve n ?t = Inr (?t, c)" "unat (po_page c) = tail_page h" "unat (po_offset c) = tail_offset h + unat n"
    using Reserve_Inr [OF assms(3,4)] by blast
  let ?h = "h\<lparr>tail_page_offset := c\<rparr>"
  have i: "hlog_shape h" "frames_ok h" using assms(1) by (auto simp: hlog_inv_def hlog_core_def)
  have sum: "unat (po_offset ?t + ucast n) = tail_offset h + unat n"
    using unat_add_lem [of "po_offset ?t" "ucast n"] assms(4) by (simp add: unat_ucast_up)
  have gt: "po_offset ?t + ucast n > kPageSize \<longleftrightarrow> 2 ^ 25 < tail_offset h + unat n"
    by (simp add: word_less_nat_alt sum kPageSize_def)
  show thesis
  proof (cases "2 ^ 25 < tail_offset h + unat n")
    case True
    then have "Allocate n h = Inr (kInvalidAddress, po_page ?t, ?h)"
      using c(1) gt by (simp add: Allocate_def)
    then show thesis by (rule full [OF _ c(2,3) True])
  next
    case False
    have n0: "0 < unat n" using assms(2) by (simp add: word_less_nat_alt)
    have off: "tail_offset h < 2 ^ 25" using False n0 by simp
    have cs: "unat (ucast (po_offset ?t) :: u32) = tail_offset h"
      by (rule unat_ucast_u32) (use off in simp)
    let ?a = "Address_of (po_page ?t) (ucast (po_offset ?t))"
    have "po_address ?t = Inr ?a"
      using off by (simp add: po_address_def word_le_nat_alt unat_ucast_up unat_kMaxOffset)
    moreover have "unat ?a = tail_page h * 2 ^ 25 + tail_offset h"
      using unat_Address_of [OF tail_page_bound [of ?t], of "ucast (po_offset ?t)"] off by (simp add: cs)
    moreover have "Page (po_page ?t) ?h = Inr (pages h ! (tail_page h mod bsize h))"
      using Page_Inr [of ?h "po_page ?t"] i(1) tail_page_bound [of ?t] by (simp add: hlog_shape_def)
    moreover have "pages h ! (tail_page h mod bsize h) \<noteq> None" using i(2) by (simp add: frames_ok_def)
    ultimately have "Allocate n h = Inr (?a, 0xFFFFFFFF, ?h)" "unat ?a = tail_page h * 2 ^ 25 + tail_offset h"
      using False c(1) gt by (simp_all add: Allocate_def)
    then show thesis using fits [OF _ c(2,3)] False by simp
  qed
qed

lemma frames_ok_shift [simp]: "frames_ok (h\<lparr>read_only_address := a, head_address := b\<rparr>) = frames_ok h"
  by (simp add: frames_ok_def)

lemma AllocatePage_Inr:
  assumes "hlog_core h" "pages h ! (unat p mod bsize h) = None"
  shows "AllocatePage p h = Inr (set_status p ((page_status h ! (unat p mod bsize h))
    \<lparr>status := \<lparr>flush = Flushed, close = Open\<rparr>\<rparr>) (set_page p Map.empty h))"
  using assms by (simp add: AllocatePage_def hlog_core_def hlog_shape_def frame_mod)

lemma AllocatePage_core:
  assumes "hlog_core h"
  shows "hlog_core (set_status p ((page_status h ! (unat p mod bsize h))\<lparr>status := st\<rparr>) (set_page p Map.empty h))"
  using assms
  by (auto simp: hlog_core_def hlog_shape_def order_ok_def lasts_ok_def until_ok_def tail_addr_def set_status_def
      set_page_def frame_mod nth_list_update Let_def)

lemma NewPage_tail_inv:
  assumes "hlog_inv h" "room h" "unat (po_page c) = tail_page h + 1" "tail_page h + 2 < pg (safe_head_address h) + bsize h"
  shows "hlog_core (h\<lparr>tail_page_offset := c\<rparr>)"
proof -
  have "tail_addr h \<le> tail_addr (h\<lparr>tail_page_offset := c\<rparr>)" using assms by (simp add: tail_addr_def min_def)
  then show ?thesis
    using assms by (auto simp: hlog_inv_def hlog_core_def hlog_shape_def order_ok_def lasts_ok_def until_ok_def)
qed

lemma unat_plus_u32: "unat (p :: u32) + n < 2 ^ 32 \<Longrightarrow> unat (p + of_nat n) = unat p + n"
proof -
  assume a: "unat p + n < 2 ^ 32"
  then have "unat (of_nat n :: u32) = n" by (simp add: unat_of_nat take_bit_nat_eq_self)
  then show ?thesis using unat_add_lem [of p "of_nat n"] a by simp
qed

lemma NewPage_inv:
  assumes inv: "hlog_inv h" and r: "room h" and old: "unat old \<le> tail_page h"
  obtains ok h' acts where "NewPage old h = Inr (ok, h', acts)" "hlog_inv h'" "keeps h h'"
    "\<forall>x \<in> set acts. action_ok h' x" "unat (read_only_address h) \<le> unat (read_only_address h')"
    "safe_read_only_address h' = safe_read_only_address h" "safe_head_address h' = safe_head_address h"
    "flushed_until_address h' = flushed_until_address h"
    "tail_page_offset h' = tail_page_offset h \<and> (ok \<longrightarrow> unat old < tail_page h) \<or>
     \<not> ok \<and> tail_page h' = tail_page h + 1 \<and> tail_offset h' = 0"
proof -
  note finish = that
  have i: "hlog_core h" "frames_ok h" "hlog_shape h" "order_ok h" using inv by (auto simp: hlog_inv_def hlog_core_def)
  have lim: "tail_page h + 2 * bsize h + 3 < 2 ^ 23" using r by (simp add: room_iff)
  have u: "unat (old + 1) = unat old + 1" "unat (old + 2) = unat old + 2"
    using unat_plus_u32 [of old 1] unat_plus_u32 [of old 2] old lim by simp_all
  have lt: "old < kMaxPage" using old lim by (simp add: word_less_nat_alt unat_kMaxPage)
  have sh: "unat (page (safe_head_address h)) = pg (safe_head_address h)" "pg (safe_head_address h) \<le> tail_page h"
    using unat_page_pg order_addrs(1,6) [OF i(4)] by simp_all
  have sum: "unat (page (safe_head_address h) + buffer_size h) = pg (safe_head_address h) + bsize h"
    using unat_add_lem [of "page (safe_head_address h)" "buffer_size h"] sh lim by simp
  have ge: "old + 2 \<ge> page (safe_head_address h) + buffer_size h \<longleftrightarrow> pg (safe_head_address h) + bsize h \<le> unat old + 2"
    by (simp add: word_le_nat_alt u sum)
  have t: "unat (old + 1) \<le> tail_page h + 1" "unat (old + 1) < 2 ^ 23" using u old lim by simp_all
  obtain a b acts where s: "shift_addresses (old + 1) h = Inr (h\<lparr>read_only_address := a, head_address := b\<rparr>, acts)"
    "hlog_core (h\<lparr>read_only_address := a, head_address := b\<rparr>)"
    "unat (read_only_address h) \<le> unat a" "unat (head_address h) \<le> unat b"
    "\<forall>x \<in> set acts. action_ok (h\<lparr>read_only_address := a, head_address := b\<rparr>) x"
    using shift_addresses_inv [OF i(1) t] by blast
  have stay: thesis if "NewPage old h = Inr (False, h\<lparr>read_only_address := a, head_address := b\<rparr>, acts)"
    using that s i by (intro finish [of False "h\<lparr>read_only_address := a, head_address := b\<rparr>" acts])
      (simp_all add: hlog_inv_def keeps_def)
  have st: "PageStatus (old + 1) h = Inr (page_status h ! ((unat old + 1) mod bsize h))"
    using PageStatus_Inr [OF i(3) t(2)] u(1) by simp
  show thesis
  proof (cases "pg (safe_head_address h) + bsize h \<le> unat old + 2 \<or>
      \<not> Ready (status (page_status h ! ((unat old + 1) mod bsize h)))")
    case True
    show thesis
      by (rule stay) (use True ge lt st s(1) in \<open>auto simp: NewPage_def\<close>)
  next
    case guard: False
    show thesis
    proof (cases "unat old = tail_page h")
      case False
      then have "old < po_page (tail_page_offset h)" "old \<noteq> po_page (tail_page_offset h)"
        using old by (auto simp: word_less_nat_alt)
      then have "NewPage old h = Inr (True, h\<lparr>tail_page_offset := tail_page_offset h\<rparr>, [])"
        using guard ge lt st by (simp add: NewPage_def tail_NewPage_def)
      then show thesis using inv False old by (intro finish [of True h "[]"]) simp_all
    next
      case True
      then have eq: "old = po_page (tail_page_offset h)" by (simp add: word_unat_eq_iff)
      obtain c where c: "PageOffset (old + 1) 0 = Inr c" "unat c = unat (old + 1) * 2 ^ 41 + 0"
        using PageOffset_unat [OF t(2), of 0] by auto
      have cp: "unat (po_page c) = tail_page h + 1" "unat (po_offset c) = 0"
        using po_parts [OF c(2)] True u(1) by simp_all
      let ?h = "h\<lparr>tail_page_offset := c\<rparr>"
      have core: "hlog_core ?h" using NewPage_tail_inv [OF inv r cp(1)] guard True by simp
      obtain a b acts where s: "shift_addresses (old + 1) ?h = Inr (?h\<lparr>read_only_address := a, head_address := b\<rparr>, acts)"
        "hlog_core (?h\<lparr>read_only_address := a, head_address := b\<rparr>)"
        "unat (read_only_address h) \<le> unat a" "unat (head_address h) \<le> unat b"
        "\<forall>x \<in> set acts. action_ok (?h\<lparr>read_only_address := a, head_address := b\<rparr>) x"
        using shift_addresses_inv [OF core, of "old + 1"] t cp u(1) True by auto
      let ?k = "?h\<lparr>read_only_address := a, head_address := b\<rparr>"
      let ?f = "(tail_page h + 2) mod bsize h"
      have pagek: "Page (old + 2) ?k = Inr (pages h ! ?f)"
        using Page_Inr [of ?k "old + 2"] s(2) u(2) True lim by (simp add: hlog_core_def)
      have np: "NewPage old h = (if pages h ! ?f = None
          then bindR (AllocatePage (old + 2) ?k) (\<lambda>h3. Inr (False, h3, acts)) else Inr (False, ?k, acts))"
        using guard ge lt st s(1) pagek c(1) eq by (simp add: NewPage_def tail_NewPage_def Let_def)
      have open1: "close (status (page_status h ! (p mod bsize h))) = Open"
        if "pg (safe_head_address h) \<le> p" "p \<le> tail_page h + 1" for p
      proof (cases "p = tail_page h + 1")
        case True
        then show ?thesis using guard \<open>unat old = tail_page h\<close> by (simp add: Ready_def)
      next
        case False
        then show ?thesis using i(2) that by (simp add: frames_ok_def)
      qed
      have there: "pages h ! (p mod bsize h) \<noteq> None" if "p \<le> tail_page h + 1" for p
        using i(2) that by (simp add: frames_ok_def)
      show thesis
      proof (cases "pages h ! ?f = None")
        case none: True
        let ?s = "(page_status ?k ! ?f)\<lparr>status := \<lparr>flush = Flushed, close = Open\<rparr>\<rparr>"
        let ?g = "set_status (old + 2) ?s (set_page (old + 2) Map.empty ?k)"
        have al: "AllocatePage (old + 2) ?k = Inr ?g"
          using AllocatePage_Inr [OF s(2), of "old + 2"] none u(2) True by simp
        have g: "pages ?g = (pages h)[?f := Some Map.empty]" "page_status ?g = (page_status h)[?f := ?s]"
          using u(2) True by (simp_all add: set_status_def set_page_def frame_mod)
        have gr: "tail_page_offset ?g = c" "buffer_size ?g = buffer_size h" "safe_head_address ?g = safe_head_address h"
          "read_only_address ?g = a" "head_address ?g = b" "safe_read_only_address ?g = safe_read_only_address h"
          "flushed_until_address ?g = flushed_until_address h"
          by (simp_all add: set_status_def set_page_def)
        have len: "length (pages h) = bsize h" "length (page_status h) = bsize h" "0 < bsize h"
          using i(3) by (auto simp: hlog_shape_def)
        have "hlog_core ?g" using AllocatePage_core [OF s(2), of "old + 2"] u(2) True by simp
        moreover have "frames_ok ?g"
          unfolding frames_ok_def gr g cp
          using there open1 len by (auto simp: nth_list_update le_Suc_eq)
        moreover have "keeps h ?g"
        proof -
          have "?f \<noteq> p mod bsize h" if "p \<le> tail_page h" for p
            using there [of p] none that by (metis le_add1 le_trans)
          then show ?thesis unfolding keeps_def gr g cp using s(4) by (auto simp del: add_2_eq_Suc')
        qed
        moreover have "action_ok ?g = action_ok ?k"
          by (rule action_ok_cong) simp_all
        ultimately show thesis
          using np none al s cp gr
          by (intro finish [of False ?g acts]) (simp_all add: hlog_inv_def)
      next
        case False
        then have "frames_ok ?k"
          using there open1 by (auto simp: frames_ok_def cp le_Suc_eq)
        moreover have "keeps h ?k" using s(4) by (simp add: keeps_def cp)
        moreover have "NewPage old h = Inr (False, ?k, acts)" unfolding np if_not_P [OF False] ..
        ultimately show thesis
          using s cp by (intro finish [of False ?k acts]) (simp_all add: hlog_inv_def)
      qed
    qed
  qed
qed

section \<open>Marking pages read-only\<close>

lemma unat_GetTailAddress: "tail_offset h < 2 ^ 32 \<Longrightarrow> unat (GetTailAddress h) = tail_addr h"
proof -
  assume "tail_offset h < 2 ^ 32"
  then have c: "unat (ucast (po_offset (tail_page_offset h)) :: u32) = tail_offset h" by (rule unat_ucast_u32)
  have m: "unat (min kMaxOffset (ucast (po_offset (tail_page_offset h)))) = min (2 ^ 25 - 1) (tail_offset h)"
    using c unat_kMaxOffset by (simp add: min_def word_le_nat_alt)
  then have lt: "unat (min kMaxOffset (ucast (po_offset (tail_page_offset h)))) < 2 ^ 25" by (simp add: min_def)
  show ?thesis
    using unat_Address_of [OF tail_page_bound lt, of "tail_page_offset h"] m
    by (simp only: GetTailAddress_def tail_addr_def)
qed

lemma ShiftReadOnlyToTail_inv:
  assumes "hlog_inv h" "tail_offset h < 2 ^ 32"
  shows "\<exists>t a acts. ShiftReadOnlyToTail h = Inr (t, h\<lparr>read_only_address := a\<rparr>, acts) \<and>
    hlog_inv (h\<lparr>read_only_address := a\<rparr>) \<and> unat (read_only_address h) \<le> unat a \<and>
    (\<forall>x \<in> set acts. action_ok (h\<lparr>read_only_address := a\<rparr>) x) \<and> keeps h (h\<lparr>read_only_address := a\<rparr>)"
proof -
  let ?t = "GetTailAddress h" and ?r = "read_only_address h"
  have t: "unat ?t = tail_addr h" "unat ?t < 2 ^ 48"
    using unat_GetTailAddress [OF assms(2)] tail_addr_bound [of h] by simp_all
  have i: "hlog_core h" "frames_ok h" "order_ok h" using assms(1) by (auto simp: hlog_inv_def hlog_core_def)
  define a where "a = (if unat ?r < unat ?t then ?t else ?r)"
  have a: "unat ?r \<le> unat a" "unat a \<le> tail_addr h" using i(3) t by (auto simp: a_def order_ok_def)
  have "hlog_core (h\<lparr>read_only_address := a\<rparr>)"
    using shift_inv [OF i(1) a, of "head_address h"] i(3) by (simp add: order_ok_def)
  moreover have "frames_ok (h\<lparr>read_only_address := a\<rparr>)" using i(2) by (simp add: frames_ok_def)
  moreover have "ShiftReadOnlyToTail h =
      Inr (?t, h\<lparr>read_only_address := a\<rparr>, if unat ?r < unat ?t then [OnPagesMarkedReadOnly ?t] else [])"
    using MonotonicUpdate_Inr [OF order_addrs(5) [OF i(3)] t(2)] by (simp add: ShiftReadOnlyToTail_def a_def Let_def)
  ultimately show ?thesis using a
    by (intro exI [of _ ?t] exI [of _ a] exI [of _ "if unat ?r < unat ?t then [OnPagesMarkedReadOnly ?t] else []"])
      (simp add: hlog_inv_def keeps_def a_def)
qed

text \<open>A flush changes the flush status of its page only.\<close>

lemma set_status_inv:
  assumes "hlog_inv h" "LastFlushedUntilAddress s = 0 \<or> until_ok h (unat p) (LastFlushedUntilAddress s)"
    "close (status (page_status h ! (unat p mod bsize h))) = Open \<longrightarrow> close (status s) = Open"
  shows "hlog_inv (set_status p s h)"
proof -
  have ps: "page_status (set_status p s h) = (page_status h)[unat p mod bsize h := s]"
    by (simp add: set_status_def frame_mod)
  have i: "hlog_shape h" "order_ok h" "frames_ok h" "lasts_ok h" using assms(1) by (auto simp: hlog_inv_def hlog_core_def)
  have u: "until_ok (set_status p s h) = until_ok h" by (intro ext) (simp add: until_ok_def)
  have "hlog_shape (set_status p s h)" using i(1) by (simp add: hlog_shape_def ps)
  moreover have "order_ok (set_status p s h)" using i(2) by (simp add: order_ok_def tail_addr_def)
  moreover have "frames_ok (set_status p s h)"
    using i(1,3) assms(3) by (auto simp: frames_ok_def ps nth_list_update hlog_shape_def)
  moreover have "lasts_ok (set_status p s h)"
    using i(1,4) assms(2) by (auto simp: lasts_ok_def ps u nth_list_update hlog_shape_def Let_def)
  ultimately show ?thesis by (simp add: hlog_inv_def hlog_core_def)
qed

lemma start_flush_inv:
  assumes "hlog_inv h" "unat p < 2 ^ 23"
  shows "\<exists>ps. start_flush p h = Inr (h\<lparr>page_status := ps\<rparr>) \<and> hlog_inv (h\<lparr>page_status := ps\<rparr>)"
proof -
  let ?s = "\<lparr>LastFlushedUntilAddress = 0, status = (status (page_status h ! (unat p mod bsize h)))\<lparr>flush := InProgress\<rparr>\<rparr>"
  have "hlog_shape h" using assms(1) by (simp add: hlog_inv_def hlog_core_def)
  then have "start_flush p h = Inr (set_status p ?s h)"
    using assms(2) by (simp add: start_flush_def PageStatus_Inr)
  moreover have "hlog_inv (set_status p ?s h)" by (rule set_status_inv [OF assms(1)]) simp_all
  ultimately show ?thesis
    by (intro exI [of _ "(page_status h)[frame h p := ?s]"]) (simp add: set_status_def)
qed

lemma flush_pages_inv:
  assumes "hlog_inv h" "\<forall>i \<in> set is. i * 2 ^ 25 < unat u \<and> i + 1 < 2 ^ 23" "unat u \<le> unat (safe_read_only_address h)"
  shows "\<exists>ps reqs. flush_pages write_ok u is h = Inr (h\<lparr>page_status := ps\<rparr>, reqs) \<and>
    hlog_inv (h\<lparr>page_status := ps\<rparr>) \<and> (\<forall>(p, v) \<in> set reqs. until_ok h (unat p) v)"
  using assms
proof (induction "is" arbitrary: h)
  case Nil
  then show ?case by (intro exI [of _ "page_status h"]) simp
next
  case (Cons i "is")
  have b: "i * 2 ^ 25 < unat u" "i + 1 < 2 ^ 23" using Cons.prems(2) by simp_all
  then have i: "unat (of_nat i :: u32) = i" by (simp add: unat_of_nat take_bit_nat_eq_self)
  have i1: "unat (of_nat i + 1 :: u32) = i + 1" using unat_plus_u32 [of "of_nat i" 1] i b(2) by simp
  note e = page_start [of "of_nat i + 1 :: u32", unfolded i1, OF b(2)]
  have "order_ok h" using Cons.prems(1) by (simp add: hlog_inv_def hlog_core_def)
  then have u48: "unat u < 2 ^ 48" using Cons.prems(3) order_addrs(4) [of h] by linarith
  define v where "v = (if unat u < unat (Address_of (of_nat i + 1) 0) then u else Address_of (of_nat i + 1) 0)"
  have m: "address_min (Address_of (of_nat i + 1) 0) u = Inr v"
    using address_compare_Inr(1) [OF u48 e(2)] by (simp add: address_min_def v_def)
  have v: "until_ok h i v" using b(1) Cons.prems(3) e(1) by (auto simp: v_def until_ok_def)
  obtain ps where ps: "start_flush (of_nat i) h = Inr (h\<lparr>page_status := ps\<rparr>)" "hlog_inv (h\<lparr>page_status := ps\<rparr>)"
    using start_flush_inv [OF Cons.prems(1), of "of_nat i"] i b(2) by auto
  obtain ps' reqs where r: "flush_pages write_ok u is (h\<lparr>page_status := ps\<rparr>) = Inr (h\<lparr>page_status := ps'\<rparr>, reqs)"
    "hlog_inv (h\<lparr>page_status := ps'\<rparr>)" "\<forall>(p, v) \<in> set reqs. until_ok h (unat p) v"
    using Cons.IH [OF ps(2)] Cons.prems(2,3) by (auto simp: until_ok_def)
  show ?case
  proof (cases "write_ok (of_nat i)")
    case True
    then show ?thesis using m ps(1) r v i
      by (intro exI [of _ ps'] exI [of _ "(of_nat i, v) # reqs"]) (simp add: Let_def)
  next
    case False
    then show ?thesis using m ps by (intro exI [of _ ps] exI [of _ "[]"]) (simp add: Let_def)
  qed
qed

lemma run_OnPagesMarkedReadOnly_inv:
  assumes inv: "hlog_inv h" and r: "room h" and a: "unat a \<le> unat (read_only_address h)"
  shows "\<exists>b ps reqs. run_OnPagesMarkedReadOnly write_ok a h =
      Inr (h\<lparr>safe_read_only_address := b, page_status := ps\<rparr>, reqs) \<and>
    hlog_inv (h\<lparr>safe_read_only_address := b, page_status := ps\<rparr>) \<and>
    unat (safe_read_only_address h) \<le> unat b \<and>
    (\<forall>(p, u) \<in> set reqs. until_ok (h\<lparr>safe_read_only_address := b, page_status := ps\<rparr>) (unat p) u)"
proof -
  have o: "order_ok h" using inv by (simp add: hlog_inv_def hlog_core_def)
  let ?old = "safe_read_only_address h"
  have at: "unat a \<le> tail_addr h" using a o by (simp add: order_ok_def)
  then have a48: "unat a < 2 ^ 48" using tail_addr_bound [of h] by linarith
  note mono = MonotonicUpdate_Inr [OF order_addrs(4) [OF o] a48]
  show ?thesis
  proof (cases "unat ?old < unat a")
    case False
    then have "run_OnPagesMarkedReadOnly write_ok a h =
        Inr (h\<lparr>safe_read_only_address := ?old, page_status := page_status h\<rparr>, [])"
      using mono by (simp add: run_OnPagesMarkedReadOnly_def)
    then show ?thesis using inv
      by (intro exI [of _ ?old] exI [of _ "page_status h"] exI [of _ "[]"]) simp
  next
    case True
    let ?h = "h\<lparr>safe_read_only_address := a\<rparr>"
    let ?e = "if offset a > 0 then 1 else 0 :: nat"
    have inv': "hlog_inv ?h"
    proof -
      have i: "hlog_shape h" "frames_ok h" "lasts_ok h" using inv by (auto simp: hlog_inv_def hlog_core_def)
      have "until_ok h p u \<Longrightarrow> until_ok ?h p u" for p u using True by (simp add: until_ok_def)
      then have "lasts_ok ?h" using i(3) unfolding lasts_ok_def Let_def by simp blast
      moreover have "order_ok ?h" using o True a by (simp add: order_ok_def tail_addr_def)
      moreover have "frames_ok ?h" "hlog_shape ?h" using i by (simp_all add: frames_ok_def hlog_shape_def)
      ultimately show ?thesis by (simp add: hlog_inv_def hlog_core_def)
    qed
    have pa: "unat (page a) = pg a" "unat (page ?old) = pg ?old"
      using unat_page_pg a48 order_addrs(4) [OF o] by simp_all
    have oa: "offset a > 0 \<longleftrightarrow> 0 < unat a mod 2 ^ 25" by (simp add: word_less_nat_alt unat_offset)
    have le: "pg ?old \<le> pg a" using True by (simp add: pg_mono)
    have lim: "pg a + 2 * bsize h + 3 < 2 ^ 23" using pg_le_tail [OF at] r by (simp add: room_iff)
    define num where "num = page a - page ?old + (if offset a > 0 then 1 else 0)"
    have num: "unat num = pg a - pg ?old + ?e"
    proof -
      have "unat (page a - page ?old) = pg a - pg ?old"
        using unat_sub_u32 [of "page ?old" "page a"] le pa by (simp add: word_le_nat_alt)
      then show ?thesis
        using unat_plus_u32 [of "page a - page ?old" 1] lim by (cases "offset a > 0") (simp_all add: num_def)
    qed
    have pos: "0 < unat num"
    proof (cases "pg ?old = pg a")
      case True
      then have "unat a mod 2 ^ 25 \<noteq> 0"
        using \<open>unat ?old < unat a\<close> unfolding pg_def
        by (metis add_0_right div_mult_mod_eq le_add1 not_less)
      then show ?thesis using num oa by simp
    next
      case False
      then show ?thesis using le num by simp
    qed
    have sum: "unat (page ?old + num) = pg a + ?e"
    proof -
      have "unat (page ?old) + unat num < 2 ^ 32" using num pa le lim by simp
      then show ?thesis using unat_add_lem [of "page ?old" num] num pa le by simp
    qed
    have flush: "AsyncFlushPages write_ok (page ?old) a ?h = flush_pages write_ok a [pg ?old..<pg a + ?e] ?h"
      using pos sum pa unfolding AsyncFlushPages_def Let_def num_def [symmetric] by (simp add: word_less_nat_alt)
    have "\<forall>i \<in> set [pg ?old..<pg a + ?e]. i * 2 ^ 25 < unat a \<and> i + 1 < 2 ^ 23"
    proof
      fix i
      assume i: "i \<in> set [pg ?old..<pg a + ?e]"
      have "i * 2 ^ 25 < unat a"
      proof (cases "i < pg a")
        case True
        then have "(i + 1) * 2 ^ 25 \<le> unat a" using pg_div [of "i + 1" a] by simp
        then show ?thesis by simp
      next
        case False
        then have "i = pg a" "0 < unat a mod 2 ^ 25" using i oa by (auto split: if_splits)
        then show ?thesis
          using div_mult_mod_eq [of "unat a" "2 ^ 25"] unfolding pg_def by (metis less_add_same_cancel1)
      qed
      then show "i * 2 ^ 25 < unat a \<and> i + 1 < 2 ^ 23" using i lim by (simp split: if_splits)
    qed
    from flush_pages_inv [OF inv' this, of write_ok]
    obtain ps reqs where f: "flush_pages write_ok a [pg ?old..<pg a + ?e] ?h = Inr (?h\<lparr>page_status := ps\<rparr>, reqs)"
      "hlog_inv (?h\<lparr>page_status := ps\<rparr>)" "\<forall>(p, v) \<in> set reqs. until_ok ?h (unat p) v" by auto
    have "run_OnPagesMarkedReadOnly write_ok a h = Inr (?h\<lparr>page_status := ps\<rparr>, reqs)"
      using mono True flush f(1) by (simp add: run_OnPagesMarkedReadOnly_def)
    then show ?thesis using f True
      by (intro exI [of _ a] exI [of _ ps] exI [of _ reqs]) (simp add: until_ok_def)
  qed
qed

section \<open>Closing pages\<close>

text \<open>\<open>h'\<close> differs from \<open>h\<close> in the frames of a set only, and no frame is lost.\<close>

definition only_frames :: "nat set \<Rightarrow> 'r hlog \<Rightarrow> 'r hlog \<Rightarrow> bool" where
  "only_frames F h h' \<longleftrightarrow> h' = h\<lparr>pages := pages h', page_status := page_status h'\<rparr> \<and>
     length (pages h') = length (pages h) \<and> length (page_status h') = length (page_status h) \<and>
     (\<forall>f. f \<notin> F \<longrightarrow> pages h' ! f = pages h ! f \<and> page_status h' ! f = page_status h ! f) \<and>
     (\<forall>f. pages h ! f \<noteq> None \<longrightarrow> pages h' ! f \<noteq> None) \<and>
     (\<forall>f. LastFlushedUntilAddress (page_status h' ! f) = LastFlushedUntilAddress (page_status h ! f))"

lemma only_frames_eqs:
  assumes "only_frames F h h'"
  shows "buffer_size h' = buffer_size h" "num_mutable_pages h' = num_mutable_pages h"
    "safe_head_address h' = safe_head_address h" "head_address h' = head_address h"
    "flushed_until_address h' = flushed_until_address h" "safe_read_only_address h' = safe_read_only_address h"
    "read_only_address h' = read_only_address h" "tail_page_offset h' = tail_page_offset h"
    "begin_address h' = begin_address h"
proof -
  from assms have e: "h' = h\<lparr>pages := pages h', page_status := page_status h'\<rparr>" by (simp add: only_frames_def)
  show "buffer_size h' = buffer_size h" "num_mutable_pages h' = num_mutable_pages h"
    "safe_head_address h' = safe_head_address h" "head_address h' = head_address h"
    "flushed_until_address h' = flushed_until_address h" "safe_read_only_address h' = safe_read_only_address h"
    "read_only_address h' = read_only_address h" "tail_page_offset h' = tail_page_offset h"
    "begin_address h' = begin_address h"
    by (subst e, simp)+
qed

lemma only_frames_refl: "only_frames F h h"
  by (simp add: only_frames_def)

lemma only_frames_trans:
  assumes "only_frames F h h1" "only_frames G h1 h2"
  shows "only_frames (F \<union> G) h h2"
proof -
  have "h2 = h1\<lparr>pages := pages h2, page_status := page_status h2\<rparr>"
    "h1 = h\<lparr>pages := pages h1, page_status := page_status h1\<rparr>"
    using assms by (simp_all add: only_frames_def)
  then have "h2 = h\<lparr>pages := pages h2, page_status := page_status h2\<rparr>"
    by (metis (no_types, lifting) hlog.select_convs(10) hlog.surjective hlog.update_convs(10) hlog.update_convs(11))
  then show ?thesis using assms unfolding only_frames_def by auto
qed

lemma close_page_frames:
  assumes "hlog_shape h" "unat p < 2 ^ 23" "pages h ! (unat p mod bsize h) \<noteq> None"
  shows "\<exists>h'. close_page p h = Inr h' \<and> only_frames {unat p mod bsize h} h h'"
proof -
  let ?f = "unat p mod bsize h"
  let ?s = "page_status h ! ?f"
  have len: "?f < length (pages h)" "?f < length (page_status h)" using assms(1) by (simp_all add: hlog_shape_def)
  have fr: "frame h p = ?f" by (rule frame_mod)
  let ?h = "set_status p (?s\<lparr>status := (status ?s)\<lparr>close := Closed\<rparr>\<rparr>) h"
  have sh: "hlog_shape ?h" using assms(1) by (simp add: hlog_shape_def set_status_def)
  have cl: "clear_page p ?h = Inr (set_page p Map.empty ?h)"
    using Page_Inr [OF sh assms(2)] assms(3) by (simp add: clear_page_def)
  show ?thesis
  proof (cases "flush (status ?s) = Flushed")
    case True
    then have "close_page p h = Inr (set_status p (?s\<lparr>status := \<lparr>flush = Flushed, close = Open\<rparr>\<rparr>) (set_page p Map.empty ?h))"
      using PageStatus_Inr [OF assms(1,2)] cl by (simp add: close_page_def Let_def)
    moreover have "only_frames {?f} h (set_status p (?s\<lparr>status := \<lparr>flush = Flushed, close = Open\<rparr>\<rparr>) (set_page p Map.empty ?h))"
      using len fr by (auto simp: only_frames_def set_status_def set_page_def frame_def nth_list_update_case)
    ultimately show ?thesis by blast
  next
    case False
    then have "close_page p h = Inr ?h"
      using PageStatus_Inr [OF assms(1,2)] by (simp add: close_page_def Let_def)
    moreover have "only_frames {?f} h ?h"
      using len fr by (auto simp: only_frames_def set_status_def frame_def nth_list_update_case)
    ultimately show ?thesis by blast
  qed
qed

lemma fold_close_frames:
  assumes "hlog_shape h" "\<forall>i \<in> set is. i < 2 ^ 23 \<and> pages h ! (i mod bsize h) \<noteq> None"
  shows "\<exists>h'. fold_pages close_page is h = Inr h' \<and> only_frames ((\<lambda>i. i mod bsize h) ` set is) h h'"
  using assms
proof (induction "is" arbitrary: h)
  case Nil
  then show ?case by (simp add: only_frames_refl)
next
  case (Cons i "is")
  have i: "unat (of_nat i :: u32) = i" using Cons.prems(2) by (simp add: unat_of_nat take_bit_nat_eq_self)
  obtain h1 where h1: "close_page (of_nat i) h = Inr h1" "only_frames {i mod bsize h} h h1"
    using close_page_frames [OF Cons.prems(1), of "of_nat i"] Cons.prems(2) i by auto
  have "hlog_shape h1" using Cons.prems(1) h1(2) only_frames_eqs [OF h1(2)] by (simp add: hlog_shape_def only_frames_def)
  then obtain h' where h': "fold_pages close_page is h1 = Inr h'" "only_frames ((\<lambda>i. i mod bsize h) ` set is) h1 h'"
    using Cons.IH [of h1] Cons.prems(2) h1(2) only_frames_eqs(1) [OF h1(2)] by (auto simp: only_frames_def)
  then show ?case using h1 only_frames_trans [OF h1(2) h'(2)] by (simp add: insert_is_Un [symmetric])
qed

lemma run_OnPagesClosed_inv:
  assumes inv: "hlog_inv h" and a: "unat a \<le> unat (head_address h)"
  shows "\<exists>h'. run_OnPagesClosed a h = Inr h' \<and> hlog_inv h' \<and> keeps h h' \<and>
    tail_page_offset h' = tail_page_offset h \<and> head_address h' = head_address h \<and>
    read_only_address h' = read_only_address h \<and> safe_read_only_address h' = safe_read_only_address h"
proof -
  have i: "hlog_shape h" "order_ok h" "frames_ok h" "lasts_ok h" using inv by (auto simp: hlog_inv_def hlog_core_def)
  let ?old = "safe_head_address h" and ?h = "h\<lparr>safe_head_address := a\<rparr>"
  have a48: "unat a < 2 ^ 48" using a order_addrs(2) [OF i(2)] by linarith
  note mono = MonotonicUpdate_Inr [OF order_addrs(1) [OF i(2)] a48]
  show ?thesis
  proof (cases "unat ?old < unat a")
    case False
    then show ?thesis using mono inv by (intro exI [of _ h]) (simp add: run_OnPagesClosed_def)
  next
    case True
    have pa: "pg ?old \<le> pg a" "pg a \<le> tail_page h"
      using True pg_mono [of ?old a] pg_mono [OF a] order_addrs(7) [OF i(2)] by simp_all
    have up: "unat (page a) = pg a" "unat (page ?old) = pg ?old"
      using unat_page_pg a48 order_addrs(1) [OF i(2)] by simp_all
    let ?is = "[pg ?old..<pg a]"
    have "\<forall>i \<in> set ?is. i < 2 ^ 23 \<and> pages ?h ! (i mod bsize ?h) \<noteq> None"
      using i(3) pa tail_page_bound [of "tail_page_offset h"] by (auto simp: frames_ok_def)
    moreover have "hlog_shape ?h" using i(1) by (simp add: hlog_shape_def)
    ultimately obtain h' where h': "fold_pages close_page ?is ?h = Inr h'"
      "only_frames ((\<lambda>i. i mod bsize h) ` set ?is) ?h h'"
      using fold_close_frames [of ?h ?is] by auto
    note e = only_frames_eqs [OF h'(2), simplified]
    have run: "run_OnPagesClosed a h = Inr h'" using mono True up h'(1) by (simp add: run_OnPagesClosed_def)
    have win: "tail_page h + 1 < pg ?old + bsize h" using i(2) by (simp add: order_ok_def)
    have out: "p mod bsize h \<notin> (\<lambda>i. i mod bsize h) ` set ?is" if "pg a \<le> p" "p \<le> tail_page h" for p
    proof
      assume "p mod bsize h \<in> (\<lambda>i. i mod bsize h) ` set ?is"
      then obtain j where j: "pg ?old \<le> j" "j < pg a" "p mod bsize h = j mod bsize h" by auto
      then show False using mod_window [of p "bsize h" j] that win by simp
    qed
    have same: "pages h' ! (p mod bsize h) = pages h ! (p mod bsize h)"
      "page_status h' ! (p mod bsize h) = page_status h ! (p mod bsize h)" if "pg a \<le> p" "p \<le> tail_page h" for p
      using h'(2) out [OF that] by (simp_all add: only_frames_def)
    have "hlog_shape h'" using h'(2) i(1) e by (simp add: only_frames_def hlog_shape_def)
    moreover have "order_ok h'" using i(2) a pa win e by (simp add: order_ok_def tail_addr_def)
    moreover have "frames_ok h'"
      using i(3) same pa h'(2) unfolding frames_ok_def e by (simp add: only_frames_def)
    moreover have "lasts_ok h'"
    proof -
      have "until_ok h' = until_ok h" by (intro ext) (simp add: until_ok_def e)
      then show ?thesis using i(4) h'(2) by (simp add: lasts_ok_def e only_frames_def)
    qed
    moreover have "keeps h h'" using same True by (simp add: keeps_def e)
    ultimately show ?thesis using run e by (simp add: hlog_inv_def hlog_core_def)
  qed
qed

section \<open>Completing a flush\<close>

abbreviation last_of :: "'r hlog \<Rightarrow> nat \<Rightarrow> nat" where
  "last_of h p \<equiv> unat (LastFlushedUntilAddress (page_status h ! (p mod bsize h)))"

lemma last_of_bounds:
  assumes "hlog_core h"
  shows "last_of h p \<le> unat (safe_read_only_address h)" "last_of h p < 2 ^ 48"
proof -
  have i: "hlog_shape h" "order_ok h" "lasts_ok h" using assms by (simp_all add: hlog_core_def)
  have "p mod bsize h < bsize h" using i(1) by (rule frame_less)
  then show "last_of h p \<le> unat (safe_read_only_address h)"
    using i(3) by (force simp: lasts_ok_def until_ok_def Let_def)
  then show "last_of h p < 2 ^ 48" using order_addrs(4) [OF i(2)] by linarith
qed

text \<open>Two frames never have the same address in them, except 0.\<close>

lemma last_of_distinct:
  assumes "hlog_core h" "last_of h p = last_of h q" "0 < last_of h p"
  shows "p mod bsize h = q mod bsize h"
proof -
  have i: "hlog_shape h" "lasts_ok h" using assms(1) by (simp_all add: hlog_core_def)
  have ex: "\<exists>r. r mod bsize h = p mod bsize h \<and> r * 2 ^ 25 < last_of h p \<and> last_of h p \<le> (r + 1) * 2 ^ 25"
    if "0 < last_of h p" for p
    using i(2) frame_less [OF i(1), of p] that by (force simp: lasts_ok_def until_ok_def Let_def)
  obtain r1 where r1: "r1 mod bsize h = p mod bsize h" "r1 * 2 ^ 25 < last_of h p" "last_of h p \<le> (r1 + 1) * 2 ^ 25"
    using ex [OF assms(3)] by blast
  obtain r2 where r2: "r2 mod bsize h = q mod bsize h" "r2 * 2 ^ 25 < last_of h q" "last_of h q \<le> (r2 + 1) * 2 ^ 25"
    using ex [of q] assms by auto
  have "r1 * 2 ^ 25 < (r2 + 1) * 2 ^ 25" "r2 * 2 ^ 25 < (r1 + 1) * 2 ^ 25" using r1 r2 assms(2) by linarith+
  then have "r1 = r2" unfolding mult_less_cancel2 by simp
  then show ?thesis using r1(1) r2(1) by simp
qed

lemma flushed_loop_step:
  assumes "hlog_core h" "unat p < 2 ^ 23" "unat cur < 2 ^ 48"
  shows "flushed_loop p cur upd h =
    (if unat cur \<le> last_of h (unat p) then flushed_loop (p + 1) (LastFlushedUntilAddress (page_status h ! (unat p mod bsize h))) True h
     else Inr (cur, upd))"
  using assms PageStatus_Inr [of h p] address_compare_Inr(2) [OF last_of_bounds(2) [OF assms(1), of "unat p"] assms(3)]
  by (subst flushed_loop.simps) (simp add: hlog_core_def)

text \<open>
  Once the loop stands on a proper address, every further step meets a strictly larger one.
\<close>

lemma flushed_loop_rises:
  assumes "hlog_core h" "unat p = Suc q" "unat cur = last_of h q" "0 < last_of h q"
    "card {f. f < bsize h \<and> last_of h q < last_of h f} < k" "unat p + k \<le> 2 ^ 23"
  shows "\<exists>cur' upd'. flushed_loop p cur upd h = Inr (cur', upd') \<and> unat cur \<le> unat cur' \<and>
    unat cur' \<le> unat (safe_read_only_address h)"
  using assms(2-)
proof (induction k arbitrary: p q cur upd)
  case 0
  then show ?case by simp
next
  case (Suc k)
  have lt: "unat p < 2 ^ 23" using Suc.prems(5) by simp
  have c48: "unat cur < 2 ^ 48" using Suc.prems(2) last_of_bounds(2) [OF assms(1), of q] by simp
  have shape: "hlog_shape h" using assms(1) by (simp add: hlog_core_def)
  note step = flushed_loop_step [OF assms(1) lt c48, of upd]
  show ?case
  proof (cases "unat cur \<le> last_of h (unat p)")
    case False
    then show ?thesis using step Suc.prems(2) last_of_bounds(1) [OF assms(1), of q] by simp
  next
    case True
    have "last_of h q \<noteq> last_of h (unat p)"
    proof
      assume "last_of h q = last_of h (unat p)"
      from last_of_distinct [OF assms(1) this Suc.prems(3)] have "q mod bsize h = Suc q mod bsize h"
        using Suc.prems(1) by simp
      then show False using mod_window [of q "bsize h" "Suc q"] shape by (simp add: hlog_shape_def)
    qed
    then have less: "last_of h q < last_of h (unat p)" using True Suc.prems(2) by simp
    let ?S = "\<lambda>q. {f. f < bsize h \<and> last_of h q < last_of h f}"
    have "?S (unat p) \<subset> ?S q"
    proof
      show "?S (unat p) \<subseteq> ?S q" using less by auto
      have "unat p mod bsize h \<in> ?S q" using less frame_less [OF shape] by simp
      moreover have "unat p mod bsize h \<notin> ?S (unat p)" by simp
      ultimately show "?S (unat p) \<noteq> ?S q" by blast
    qed
    then have "card (?S (unat p)) < card (?S q)" by (intro psubset_card_mono) auto
    then have c: "card (?S (unat p)) < k" using Suc.prems(4) by simp
    have p1: "unat (p + 1) = Suc (unat p)" using unat_plus_u32 [of p 1] lt by simp
    obtain cur' upd' where r: "flushed_loop (p + 1) (LastFlushedUntilAddress (page_status h ! (unat p mod bsize h))) True h = Inr (cur', upd')"
      "last_of h (unat p) \<le> unat cur'" "unat cur' \<le> unat (safe_read_only_address h)"
      using Suc.IH [of "p + 1" "unat p" "LastFlushedUntilAddress (page_status h ! (unat p mod bsize h))" True]
        p1 less c Suc.prems by auto
    then show ?thesis using step True by auto
  qed
qed

text \<open>At address 0 the loop skips the pages without an address up to the first that has one.\<close>

lemma flushed_loop_zero:
  assumes "hlog_core h" "0 < last_of h (unat p + d)" "unat p + d + bsize h + 2 \<le> 2 ^ 23"
  shows "\<exists>cur' upd'. flushed_loop p 0 upd h = Inr (cur', upd') \<and> unat cur' \<le> unat (safe_read_only_address h)"
  using assms(2-)
proof (induction d arbitrary: p upd rule: less_induct)
  case (less d)
  have lt: "unat p < 2 ^ 23" using less.prems(2) by simp
  have p1: "unat (p + 1) = Suc (unat p)" using unat_plus_u32 [of p 1] lt by simp
  let ?l = "LastFlushedUntilAddress (page_status h ! (unat p mod bsize h))"
  have step: "flushed_loop p 0 upd h = flushed_loop (p + 1) ?l True h"
    using flushed_loop_step [OF assms(1) lt, of 0 upd] by simp
  show ?case
  proof (cases "unat ?l = 0")
    case True
    then have "d \<noteq> 0" using less.prems(1) by (intro notI) simp
    then obtain e where e: "d = Suc e" by (cases d) simp_all
    have "?l = 0" using True by (simp add: unat_eq_zero)
    then show ?thesis unfolding step using less.IH [of e "p + 1" True] less.prems p1 e by simp
  next
    case False
    have "{f. f < bsize h \<and> last_of h (unat p) < last_of h f} \<subseteq> {..<bsize h}" by auto
    then have "card {f. f < bsize h \<and> last_of h (unat p) < last_of h f} \<le> card {..<bsize h}" by (intro card_mono) simp_all
    then have c: "card {f. f < bsize h \<and> last_of h (unat p) < last_of h f} < bsize h + 1" by simp
    have "0 < last_of h (unat p)" using False by simp
    moreover have "unat (p + 1) + (bsize h + 1) \<le> 2 ^ 23" using p1 less.prems by simp
    ultimately show ?thesis
      unfolding step using flushed_loop_rises [OF assms(1) p1 refl _ c, of True] by blast
  qed
qed

lemma ShiftFlushedUntilAddress_inv:
  assumes inv: "hlog_inv h" and r: "room h" and pos: "0 < last_of h q"
  shows "\<exists>u. ShiftFlushedUntilAddress h = Inr (h\<lparr>flushed_until_address := u\<rparr>) \<and>
    hlog_inv (h\<lparr>flushed_until_address := u\<rparr>) \<and> unat (flushed_until_address h) \<le> unat u"
proof -
  let ?c = "flushed_until_address h" and ?B = "bsize h"
  let ?p = "page ?c"
  have i: "hlog_core h" "hlog_shape h" "order_ok h" using inv by (simp_all add: hlog_inv_def hlog_core_def)
  have p: "unat ?p = pg ?c" "pg ?c \<le> tail_page h" "unat ?c < 2 ^ 48"
    using unat_page_pg order_addrs(3,8) [OF i(3)] by simp_all
  have lim: "unat ?p + 2 * ?B + 3 < 2 ^ 23" using p r by (simp add: room_iff)
  let ?l = "LastFlushedUntilAddress (page_status h ! (unat ?p mod ?B))"
  have p1: "unat (?p + 1) = Suc (unat ?p)" using unat_plus_u32 [of ?p 1] lim by simp
  have cle: "unat ?c \<le> unat (safe_read_only_address h)" using i(3) by (simp add: order_ok_def)
  have "\<exists>cur' upd'. flushed_loop ?p ?c False h = Inr (cur', upd') \<and> unat cur' \<le> unat (safe_read_only_address h)"
  proof (cases "unat ?c \<le> last_of h (unat ?p)")
    case False
    then show ?thesis
      using flushed_loop_step [OF i(1) _ p(3), of ?p False] lim cle
      by (intro exI [of _ ?c] exI [of _ False]) simp
  next
    case True
    have step: "flushed_loop ?p ?c False h = flushed_loop (?p + 1) ?l True h"
      using flushed_loop_step [OF i(1) _ p(3), of ?p False] lim True by simp
    show ?thesis
    proof (cases "unat ?l = 0")
      case True
      have B: "0 < ?B" using i(2) by (simp add: hlog_shape_def)
      define d where "d = (q + ?B - Suc (unat ?p) mod ?B) mod ?B"
      have "(Suc (unat ?p) + d) mod ?B = (Suc (unat ?p) mod ?B + (q + ?B - Suc (unat ?p) mod ?B)) mod ?B"
        unfolding d_def by (simp only: mod_add_left_eq mod_add_right_eq)
      also have "Suc (unat ?p) mod ?B + (q + ?B - Suc (unat ?p) mod ?B) = q + ?B"
        using mod_less_divisor [OF B, of "Suc (unat ?p)"] by simp
      finally have "(unat (?p + 1) + d) mod ?B = q mod ?B" unfolding p1 by simp
      then have d: "0 < last_of h (unat (?p + 1) + d)" "d < ?B" using pos B by (simp_all add: d_def)
      have "?l = 0" using True by (simp add: unat_eq_zero)
      then show ?thesis
        unfolding step using flushed_loop_zero [OF i(1) d(1), of True] p1 lim d(2) by simp
    next
      case False
      have "{f. f < ?B \<and> last_of h (unat ?p) < last_of h f} \<subseteq> {..<?B}" by auto
      then have "card {f. f < ?B \<and> last_of h (unat ?p) < last_of h f} \<le> card {..<?B}" by (intro card_mono) simp_all
      then have c: "card {f. f < ?B \<and> last_of h (unat ?p) < last_of h f} < ?B + 1" by simp
      have "0 < last_of h (unat ?p)" using False by simp
      moreover have "unat (?p + 1) + (?B + 1) \<le> 2 ^ 23" using p1 lim by simp
      ultimately show ?thesis
        unfolding step using flushed_loop_rises [OF i(1) p1 refl _ c, of True] by blast
    qed
  qed
  then obtain c' b where f: "flushed_loop ?p ?c False h = Inr (c', b)" "unat c' \<le> unat (safe_read_only_address h)"
    by blast
  define u where "u = (if b \<and> unat ?c < unat c' then c' else ?c)"
  have "unat c' < 2 ^ 48" using f(2) order_addrs(4) [OF i(3)] by linarith
  from MonotonicUpdate_Inr [OF p(3) this]
  have "ShiftFlushedUntilAddress h = Inr (h\<lparr>flushed_until_address := u\<rparr>)"
    using f(1) by (auto simp: ShiftFlushedUntilAddress_def Let_def u_def)
  moreover have u: "unat ?c \<le> unat u" "unat u \<le> unat (safe_read_only_address h)"
    using f(2) cle by (simp_all add: u_def)
  moreover have "hlog_inv (h\<lparr>flushed_until_address := u\<rparr>)"
  proof -
    have "pg (head_address h) \<le> pg u" using i(3) pg_mono [OF u(1)] by (simp add: order_ok_def)
    then show ?thesis
      using inv u by (simp add: hlog_inv_def hlog_core_def hlog_shape_def order_ok_def frames_ok_def lasts_ok_def
          until_ok_def tail_addr_def)
  qed
  ultimately show ?thesis by blast
qed

text \<open>Clearing a frame that no page from the safe head to the tail is in.\<close>

lemma set_page_inv:
  assumes "hlog_inv h" "\<And>q. pg (safe_head_address h) \<le> q \<Longrightarrow> q \<le> tail_page h \<Longrightarrow> q mod bsize h \<noteq> unat p mod bsize h"
  shows "hlog_inv (set_page p m h)" "keeps h (set_page p m h)"
proof -
  have ps: "pages (set_page p m h) = (pages h)[unat p mod bsize h := Some m]" by (simp add: set_page_def frame_mod)
  have i: "hlog_shape h" "order_ok h" "frames_ok h" "lasts_ok h" using assms(1) by (auto simp: hlog_inv_def hlog_core_def)
  have u: "until_ok (set_page p m h) = until_ok h" by (intro ext) (simp add: until_ok_def)
  have "hlog_shape (set_page p m h)" using i(1) by (simp add: hlog_shape_def ps)
  moreover have "order_ok (set_page p m h)" using i(2) by (simp add: order_ok_def tail_addr_def)
  moreover have "frames_ok (set_page p m h)"
    using i(1,3) by (auto simp: frames_ok_def ps nth_list_update hlog_shape_def)
  moreover have "lasts_ok (set_page p m h)" using i(4) by (simp add: lasts_ok_def u)
  ultimately show "hlog_inv (set_page p m h)" by (simp add: hlog_inv_def hlog_core_def)
  have "unat p mod bsize h \<noteq> q mod bsize h" if "pg (safe_head_address h) \<le> q" "q \<le> tail_page h" for q
    using assms(2) [OF that] by simp
  then show "keeps h (set_page p m h)" by (simp add: keeps_def ps)
qed

lemma flush_done_inv:
  assumes inv: "hlog_inv h" and r: "room h" and u: "until_ok h (unat p) u"
  shows "\<exists>h'. flush_done (p, u) h = Inr h' \<and> hlog_inv h' \<and> keeps h h' \<and>
    tail_page_offset h' = tail_page_offset h \<and> head_address h' = head_address h \<and>
    read_only_address h' = read_only_address h \<and> safe_read_only_address h' = safe_read_only_address h"
proof -
  have i: "hlog_shape h" "order_ok h" "frames_ok h" using inv by (auto simp: hlog_inv_def hlog_core_def)
  have "unat u \<le> tail_addr h" using u i(2) by (simp add: until_ok_def order_ok_def)
  moreover have "unat p \<le> pg u" using u pg_div [of "unat p" u] by (simp add: until_ok_def)
  ultimately have pt: "unat p \<le> tail_page h" using pg_le_tail [of u h] by linarith
  then have p: "unat p < 2 ^ 23" using tail_page_bound [of "tail_page_offset h"] by linarith
  let ?f = "unat p mod bsize h"
  let ?s = "page_status h ! ?f"
  let ?s1 = "\<lparr>LastFlushedUntilAddress = u, status = (status ?s)\<lparr>flush := Flushed\<rparr>\<rparr>"
  let ?s2 = "\<lparr>LastFlushedUntilAddress = u, status = \<lparr>flush = Flushed, close = Open\<rparr>\<rparr>"
  let ?h1 = "set_status p ?s1 h"
  have h1: "hlog_inv ?h1" using u by (intro set_status_inv [OF inv]) simp_all
  have f: "?f < length (page_status h)" using i(1) by (simp add: hlog_shape_def)
  have uh: "until_ok (set_page q m h) = until_ok h" "until_ok (set_status q st h) = until_ok h" for q m st and h :: "'a hlog"
    by (intro ext, simp add: until_ok_def)+
  obtain h2 where h2: "(if close (status ?s) = Closed
      then bindR (clear_page p ?h1) (\<lambda>h2. Inr (set_status p ?s2 h2)) else Inr ?h1) = Inr h2"
    "hlog_inv h2" "keeps h h2" "LastFlushedUntilAddress (page_status h2 ! ?f) = u" "buffer_size h2 = buffer_size h"
    "tail_page_offset h2 = tail_page_offset h" "head_address h2 = head_address h"
    "read_only_address h2 = read_only_address h" "safe_read_only_address h2 = safe_read_only_address h"
    "safe_head_address h2 = safe_head_address h" "flushed_until_address h2 = flushed_until_address h"
  proof (cases "close (status ?s) = Closed")
    case True
    have out: "q mod bsize h \<noteq> ?f" if "pg (safe_head_address h) \<le> q" "q \<le> tail_page h" for q
      using True i(3) that by (metis CloseStatus.distinct(1) frames_ok_def)
    have k: "hlog_inv (set_page p Map.empty ?h1)"
      by (rule set_page_inv(1) [OF h1]) (use out in simp)
    have k': "keeps h (set_page p Map.empty h)" by (rule set_page_inv(2) [OF inv out])
    have cl: "clear_page p ?h1 = Inr (set_page p Map.empty ?h1)"
    proof -
      have "hlog_shape ?h1" using h1 by (simp add: hlog_inv_def hlog_core_def)
      moreover have "pages h ! ?f \<noteq> None" using i(3) pt by (simp add: frames_ok_def)
      ultimately show ?thesis using Page_Inr [of ?h1 p] p by (simp add: clear_page_def)
    qed
    let ?h2 = "set_status p ?s2 (set_page p Map.empty ?h1)"
    have "hlog_inv ?h2" using u by (intro set_status_inv [OF k]) (simp_all add: uh)
    moreover have "keeps h ?h2" using k' by (simp add: keeps_def set_page_def set_status_def frame_def)
    moreover have "LastFlushedUntilAddress (page_status ?h2 ! ?f) = u"
      using f by (simp add: set_status_def set_page_def frame_mod)
    ultimately show thesis using that [of ?h2] True cl by simp
  next
    case False
    moreover have "LastFlushedUntilAddress (page_status ?h1 ! ?f) = u" using f by (simp add: set_status_def frame_mod)
    moreover have "keeps h ?h1" by (simp add: keeps_def)
    ultimately show thesis using that [of ?h1] h1 by simp
  qed
  have "0 < last_of h2 (unat p)" using h2(4,5) u by (simp add: until_ok_def)
  moreover have "room h2" using r h2 by (simp add: room_iff)
  ultimately obtain v where v: "ShiftFlushedUntilAddress h2 = Inr (h2\<lparr>flushed_until_address := v\<rparr>)"
    "hlog_inv (h2\<lparr>flushed_until_address := v\<rparr>)"
    using ShiftFlushedUntilAddress_inv [OF h2(2)] by blast
  have "flush_done (p, u) h = Inr (h2\<lparr>flushed_until_address := v\<rparr>)"
    using PageStatus_Inr [OF i(1) p] h2(1) v(1) by (simp add: flush_done_def Let_def)
  then show ?thesis using v(2) h2 by (intro exI [of _ "h2\<lparr>flushed_until_address := v\<rparr>"]) (simp add: keeps_def)
qed

section \<open>All interleavings\<close>

text \<open>
  The blocks given out lie below the tail, inside one page each and apart from each other; at most
  one reservation per waiting thread went past the end of the page.
\<close>

definition tail_pos :: "'r hlog \<Rightarrow> nat" where
  "tail_pos h = tail_page h * 2 ^ 25 + min (2 ^ 25) (tail_offset h)"

definition blocks_ok :: "'r hlog \<Rightarrow> (address \<times> u32) list \<Rightarrow> bool" where
  "blocks_ok h bs \<longleftrightarrow>
     (\<forall>(a, n) \<in> set bs. 0 < unat n \<and> unat a mod 2 ^ 25 + unat n \<le> 2 ^ 25 \<and> unat a + unat n \<le> tail_pos h) \<and>
     sorted_wrt (\<lambda>(a, n) (b, m). unat b + unat m \<le> unat a) bs"

definition waiting_ok :: "'r hlog \<Rightarrow> (nat \<rightharpoonup> u32) \<Rightarrow> bool" where
  "waiting_ok h w \<longleftrightarrow> dom w \<subseteq> {..<96} \<and> (\<forall>p \<in> ran w. unat p \<le> tail_page h) \<and>
     tail_offset h \<le> 2 ^ 25 + card {t. map_option unat (w t) = Some (tail_page h)} * 2 ^ 25"

definition log_inv :: "'r log_sys \<Rightarrow> bool" where
  "log_inv s \<longleftrightarrow> hlog_inv (log s) \<and> 64 \<le> tail_pos (log s) \<and> (\<forall>x \<in> set (actions s). action_ok (log s) x) \<and>
     (\<forall>(p, u) \<in> set (flushes s). until_ok (log s) (unat p) u) \<and> waiting_ok (log s) (waiting s) \<and>
     blocks_ok (log s) (blocks s)"

lemma waiting_subset: "waiting_ok h w \<Longrightarrow> {t. map_option unat (w t) = Some (tail_page h)} \<subseteq> {..<96}"
proof
  fix t
  assume "waiting_ok h w" "t \<in> {t. map_option unat (w t) = Some (tail_page h)}"
  then have "dom w \<subseteq> {..<96}" "t \<in> dom w" by (auto simp: waiting_ok_def simp del: ball_simps)
  then show "t \<in> {..<96}" by (rule subsetD)
qed

lemma waiting_offset: "waiting_ok h w \<Longrightarrow> tail_offset h \<le> 97 * 2 ^ 25"
proof -
  assume w: "waiting_ok h w"
  have "card {t. map_option unat (w t) = Some (tail_page h)} \<le> card {..<96 :: nat}"
    by (intro card_mono waiting_subset [OF w]) simp_all
  then show ?thesis using w by (simp add: waiting_ok_def)
qed

lemma action_ok_mono:
  "action_ok h x \<Longrightarrow> unat (head_address h) \<le> unat (head_address h') \<Longrightarrow>
   unat (read_only_address h) \<le> unat (read_only_address h') \<Longrightarrow> action_ok h' x"
  by (cases x) simp_all

lemma remove_nth_subset: "set (remove_nth i xs) \<subseteq> set xs"
  by (auto simp: remove_nth_def dest: in_set_takeD in_set_dropD)

lemma log_inv_cong:
  assumes "log_inv s" "hlog_inv h" "tail_page_offset h = tail_page_offset (log s)"
    "unat (head_address (log s)) \<le> unat (head_address h)"
    "unat (read_only_address (log s)) \<le> unat (read_only_address h)"
    "unat (safe_read_only_address (log s)) \<le> unat (safe_read_only_address h)"
    "\<forall>x \<in> set as. x \<in> set (actions s) \<or> action_ok h x"
    "\<forall>(p, u) \<in> set fs. (p, u) \<in> set (flushes s) \<or> until_ok h (unat p) u"
  shows "log_inv (s\<lparr>log := h, actions := as, flushes := fs\<rparr>)"
proof -
  have "action_ok h x" if "x \<in> set as" for x
    using assms(1,4,5,7) that by (auto simp: log_inv_def intro: action_ok_mono)
  moreover have "until_ok h (unat p) u" if "(p, u) \<in> set fs" for p u
  proof (cases "(p, u) \<in> set (flushes s)")
    case True
    then have "until_ok (log s) (unat p) u" using assms(1) by (auto simp: log_inv_def)
    then show ?thesis using assms(6) by (simp add: until_ok_def)
  next
    case False
    then show ?thesis using assms(8) that by auto
  qed
  moreover have "tail_pos h = tail_pos (log s)" using assms(3) by (simp add: tail_pos_def)
  ultimately show ?thesis using assms(1-3) by (auto simp: log_inv_def waiting_ok_def blocks_ok_def)
qed

lemma do_allocate_inv:
  assumes inv: "log_inv s"
  shows "\<exists>s'. do_allocate t n s = Inr s' \<and> log_inv s' \<and> keeps (log s) (log s')"
proof (cases "t < 96 \<and> waiting s t = None \<and> 0 < n \<and> n \<le> kMaxOffset")
  case False
  then show ?thesis using inv unfolding do_allocate_def if_not_P [OF False] by simp
next
  case True
  let ?h = "log s"
  have i: "hlog_inv ?h" "waiting_ok ?h (waiting s)" "64 \<le> tail_pos ?h" "blocks_ok ?h (blocks s)"
    using inv by (auto simp: log_inv_def)
  have n: "0 < unat n" "unat n < 2 ^ 25"
    using True by (simp_all add: word_less_nat_alt word_le_nat_alt unat_kMaxOffset)
  have off: "tail_offset ?h + unat n < 2 ^ 41" using waiting_offset [OF i(2)] n(2) by simp
  have ob: "unat (po_page c) = tail_page ?h \<Longrightarrow> unat (po_offset c) = tail_offset ?h + unat n \<Longrightarrow>
      hlog_inv (?h\<lparr>tail_page_offset := c\<rparr>) \<and> keeps ?h (?h\<lparr>tail_page_offset := c\<rparr>) \<and>
      tail_pos ?h \<le> tail_pos (?h\<lparr>tail_page_offset := c\<rparr>)" for c
    using tail_change_inv [OF i(1), of c] by (auto simp: keeps_def tail_pos_def min_def)
  have rest: "action_ok (?h\<lparr>tail_page_offset := c\<rparr>) = action_ok ?h" "until_ok (?h\<lparr>tail_page_offset := c\<rparr>) = until_ok ?h" for c
    by (rule action_ok_cong; simp) (intro ext, simp add: until_ok_def)
  have np: "0 < n" using True by simp
  show ?thesis
  proof (cases rule: Allocate_cases [OF i(1) np n(2) off, case_names full fits])
    case (full c)
    let ?k = "?h\<lparr>tail_page_offset := c\<rparr>" and ?w = "(waiting s)(t \<mapsto> po_page (tail_page_offset ?h))"
    let ?W = "\<lambda>w. {u. map_option unat (w u) = Some (tail_page ?h)}"
    have eq: "do_allocate t n s = Inr (s\<lparr>log := ?k, waiting := ?w\<rparr>)" using True full(1) by (simp add: do_allocate_def)
    have "?W ?w = insert t (?W (waiting s))" "t \<notin> ?W (waiting s)" using True by auto
    moreover have "finite (?W (waiting s))" by (rule finite_subset [OF waiting_subset [OF i(2)]]) simp
    ultimately have "card (?W ?w) = Suc (card (?W (waiting s)))" by simp
    then have "waiting_ok ?k ?w" using i(2) True full(2,3) n(2) by (auto simp: waiting_ok_def)
    moreover have "blocks_ok ?k (blocks s)" using i(4) ob [OF full(2,3)] by (auto simp: blocks_ok_def intro: le_trans)
    ultimately show ?thesis using eq inv ob [OF full(2,3)] rest by (auto simp: log_inv_def)
  next
    case (fits c a)
    let ?k = "?h\<lparr>tail_page_offset := c\<rparr>"
    have off: "tail_offset ?h < 2 ^ 25" using fits(4) n(1) by simp
    have a: "unat a = tail_pos ?h" "unat a mod 2 ^ 25 = tail_offset ?h" "unat a + unat n = tail_pos ?k"
      using fits off by (simp_all add: tail_pos_def)
    have "unat a \<noteq> unat kInvalidAddress" using a(1) i(3) by (simp add: kInvalidAddress_def)
    then have "a \<noteq> kInvalidAddress" by auto
    then have eq: "do_allocate t n s = Inr (s\<lparr>log := ?k, blocks := (a, n) # blocks s\<rparr>)"
      using True fits(1) by (simp add: do_allocate_def)
    have "waiting_ok ?k (waiting s)" using i(2) fits(2-4) by (auto simp: waiting_ok_def)
    moreover have "blocks_ok ?k ((a, n) # blocks s)"
      using i(4) ob [OF fits(2,3)] a fits(4) n(1) by (auto simp: blocks_ok_def intro: le_trans)
    ultimately show ?thesis using eq inv ob [OF fits(2,3)] rest by (auto simp: log_inv_def)
  qed
qed

lemma do_new_page_inv:
  assumes inv: "log_inv s" and r: "room (log s)"
  shows "\<exists>s'. do_new_page t s = Inr s' \<and> log_inv s' \<and> keeps (log s) (log s')"
proof (cases "waiting s t")
  case None
  then show ?thesis using inv by (simp add: do_new_page_def)
next
  case (Some p)
  let ?h = "log s"
  have i: "hlog_inv ?h" "waiting_ok ?h (waiting s)" "blocks_ok ?h (blocks s)" using inv by (auto simp: log_inv_def)
  have "unat p \<le> tail_page ?h" using i(2) Some by (auto simp: waiting_ok_def ran_def)
  from i(1) r this obtain ok h' acts where h': "NewPage p ?h = Inr (ok, h', acts)" "hlog_inv h'" "keeps ?h h'"
    "\<forall>x \<in> set acts. action_ok h' x" "unat (read_only_address ?h) \<le> unat (read_only_address h')"
    "safe_read_only_address h' = safe_read_only_address ?h" "safe_head_address h' = safe_head_address ?h"
    "tail_page_offset h' = tail_page_offset ?h \<and> (ok \<longrightarrow> unat p < tail_page ?h) \<or>
     \<not> ok \<and> tail_page h' = tail_page ?h + 1 \<and> tail_offset h' = 0"
    by (rule NewPage_inv)
  let ?w = "if ok then (waiting s)(t := None) else waiting s"
  let ?s = "s\<lparr>log := h', actions := actions s @ acts, waiting := ?w\<rparr>"
  have eq: "do_new_page t s = Inr ?s" using Some h'(1) by (simp add: do_new_page_def)
  have hd: "unat (head_address ?h) \<le> unat (head_address h')" using h'(3) by (simp add: keeps_def)
  have acts: "\<forall>x \<in> set (actions s @ acts). action_ok h' x"
    using inv h'(4,5) hd by (auto simp: log_inv_def intro: action_ok_mono)
  have "until_ok h' = until_ok ?h" by (intro ext) (simp add: until_ok_def h'(6))
  then have fl: "\<forall>(p, u) \<in> set (flushes s). until_ok h' (unat p) u" using inv by (simp add: log_inv_def)
  have "waiting_ok h' ?w \<and> tail_pos ?h \<le> tail_pos h'"
    using h'(8)
  proof
    assume a: "tail_page_offset h' = tail_page_offset ?h \<and> (ok \<longrightarrow> unat p < tail_page ?h)"
    have "{u. map_option unat (?w u) = Some (tail_page ?h)} = {u. map_option unat (waiting s u) = Some (tail_page ?h)}"
      using a Some by auto
    then have "waiting_ok h' ?w" using i(2) a by (auto simp: waiting_ok_def ran_def)
    then show ?thesis using a by (simp add: tail_pos_def)
  next
    assume a: "\<not> ok \<and> tail_page h' = tail_page ?h + 1 \<and> tail_offset h' = 0"
    then have "waiting_ok h' ?w" using i(2) by (auto simp: waiting_ok_def)
    then show ?thesis using a by (simp add: tail_pos_def)
  qed
  moreover from this have "blocks_ok h' (blocks s)" using i(3) by (auto simp: blocks_ok_def intro: le_trans)
  ultimately have "log_inv ?s" using inv h'(2) acts fl by (auto simp: log_inv_def)
  then show ?thesis using eq h'(3) by simp
qed

lemma do_to_tail_inv:
  assumes inv: "log_inv s"
  shows "\<exists>s'. do_to_tail s = Inr s' \<and> log_inv s' \<and> keeps (log s) (log s')"
proof -
  have i: "hlog_inv (log s)" "waiting_ok (log s) (waiting s)" using inv by (auto simp: log_inv_def)
  have "tail_offset (log s) < 2 ^ 32" using waiting_offset [OF i(2)] by simp
  from ShiftReadOnlyToTail_inv [OF i(1) this] obtain t a acts where
    h: "ShiftReadOnlyToTail (log s) = Inr (t, (log s)\<lparr>read_only_address := a\<rparr>, acts)"
    "hlog_inv ((log s)\<lparr>read_only_address := a\<rparr>)" "unat (read_only_address (log s)) \<le> unat a"
    "\<forall>x \<in> set acts. action_ok ((log s)\<lparr>read_only_address := a\<rparr>) x" "keeps (log s) ((log s)\<lparr>read_only_address := a\<rparr>)"
    by blast
  then have "log_inv (s\<lparr>log := (log s)\<lparr>read_only_address := a\<rparr>, actions := actions s @ acts, flushes := flushes s\<rparr>)"
    by (intro log_inv_cong [OF inv]) auto
  then show ?thesis using h by (simp add: do_to_tail_def)
qed

lemma do_perform_inv:
  assumes inv: "log_inv s" and r: "room (log s)"
  shows "\<exists>s'. do_perform i write_ok s = Inr s' \<and> log_inv s' \<and> keeps (log s) (log s')"
proof (cases "i < length (actions s)")
  case False
  then show ?thesis using inv by (simp add: do_perform_def)
next
  case True
  have hi: "hlog_inv (log s)" using inv by (simp add: log_inv_def)
  have ok: "action_ok (log s) (actions s ! i)" using inv True by (simp add: log_inv_def)
  have rem: "\<forall>x \<in> set (remove_nth i (actions s)). x \<in> set (actions s) \<or> action_ok h x" for h :: "'a hlog"
    using remove_nth_subset [of i "actions s"] by auto
  show ?thesis
  proof (cases "actions s ! i")
    case (OnPagesClosed a)
    then obtain h' where h': "run_OnPagesClosed a (log s) = Inr h'" "hlog_inv h'" "keeps (log s) h'"
      "tail_page_offset h' = tail_page_offset (log s)" "head_address h' = head_address (log s)"
      "read_only_address h' = read_only_address (log s)" "safe_read_only_address h' = safe_read_only_address (log s)"
      using run_OnPagesClosed_inv [OF hi] ok by auto
    then have "log_inv (s\<lparr>log := h', actions := remove_nth i (actions s), flushes := flushes s\<rparr>)"
      using rem by (intro log_inv_cong [OF inv]) auto
    then show ?thesis using True OnPagesClosed h' by (simp add: do_perform_def)
  next
    case (OnPagesMarkedReadOnly a)
    then obtain b ps reqs where h': "run_OnPagesMarkedReadOnly write_ok a (log s) =
        Inr ((log s)\<lparr>safe_read_only_address := b, page_status := ps\<rparr>, reqs)"
      "hlog_inv ((log s)\<lparr>safe_read_only_address := b, page_status := ps\<rparr>)"
      "unat (safe_read_only_address (log s)) \<le> unat b"
      "\<forall>(p, u) \<in> set reqs. until_ok ((log s)\<lparr>safe_read_only_address := b, page_status := ps\<rparr>) (unat p) u"
      using run_OnPagesMarkedReadOnly_inv [OF hi r, of a write_ok] ok by auto
    let ?h = "(log s)\<lparr>safe_read_only_address := b, page_status := ps\<rparr>"
    have "log_inv (s\<lparr>log := ?h, actions := remove_nth i (actions s), flushes := flushes s @ reqs\<rparr>)"
      using h' rem by (intro log_inv_cong [OF inv]) auto
    moreover have "keeps (log s) ?h" by (simp add: keeps_def)
    ultimately show ?thesis using True OnPagesMarkedReadOnly h'(1) by (simp add: do_perform_def)
  qed
qed

lemma do_flushed_inv:
  assumes inv: "log_inv s" and r: "room (log s)"
  shows "\<exists>s'. do_flushed i s = Inr s' \<and> log_inv s' \<and> keeps (log s) (log s')"
proof (cases "i < length (flushes s)")
  case False
  then show ?thesis using inv by (simp add: do_flushed_def)
next
  case True
  obtain p u where pu: "flushes s ! i = (p, u)" by (cases "flushes s ! i")
  have hi: "hlog_inv (log s)" using inv by (simp add: log_inv_def)
  have "(p, u) \<in> set (flushes s)" using True pu by (metis nth_mem)
  then have "until_ok (log s) (unat p) u" using inv by (auto simp: log_inv_def)
  from flush_done_inv [OF hi r this] obtain h' where h': "flush_done (p, u) (log s) = Inr h'" "hlog_inv h'" "keeps (log s) h'"
      "tail_page_offset h' = tail_page_offset (log s)" "head_address h' = head_address (log s)"
      "read_only_address h' = read_only_address (log s)" "safe_read_only_address h' = safe_read_only_address (log s)"
    by blast
  then have "log_inv (s\<lparr>log := h', actions := actions s, flushes := remove_nth i (flushes s)\<rparr>)"
    using remove_nth_subset [of i "flushes s"] by (intro log_inv_cong [OF inv]) auto
  then show ?thesis using True pu h' by (simp add: do_flushed_def)
qed

lemma block_page:
  assumes "log_inv s" "(a, n) \<in> set (blocks s)"
  shows "unat a < 2 ^ 48" "pg a \<le> tail_page (log s)"
proof -
  let ?t = "tail_page (log s)"
  have b: "0 < unat n" "unat a + unat n \<le> tail_pos (log s)" "unat a mod 2 ^ 25 + unat n \<le> 2 ^ 25"
    using assms by (auto simp: log_inv_def blocks_ok_def)
  have "tail_pos (log s) \<le> (?t + 1) * 2 ^ 25" by (simp add: tail_pos_def)
  then have lt: "unat a < (?t + 1) * 2 ^ 25" using b by linarith
  then show "pg a \<le> ?t" unfolding pg_def by (simp add: less_mult_imp_div_less less_Suc_eq_le [symmetric])
  have "(?t + 1) * 2 ^ 25 \<le> 2 ^ 23 * 2 ^ 25"
    using tail_page_bound [of "tail_page_offset (log s)"] by (intro mult_right_mono) simp_all
  then show "unat a < 2 ^ 48" using lt by simp
qed

text \<open>Storing a record changes nothing but the contents of one frame.\<close>

lemma store_inv:
  assumes "log_inv s"
  shows "log_inv (s\<lparr>log := set_page p m (log s)\<rparr>)"
proof -
  let ?h = "log s"
  let ?k = "set_page p m ?h"
  have ps: "pages ?k = (pages ?h)[unat p mod bsize ?h := Some m]" by (simp add: set_page_def frame_mod)
  have i: "hlog_shape ?h" "order_ok ?h" "frames_ok ?h" "lasts_ok ?h"
    using assms by (auto simp: log_inv_def hlog_inv_def hlog_core_def)
  have u: "until_ok ?k = until_ok ?h" by (intro ext) (simp add: until_ok_def)
  have "hlog_shape ?k" using i(1) by (simp add: hlog_shape_def ps)
  moreover have "order_ok ?k" using i(2) by (simp add: order_ok_def tail_addr_def)
  moreover have "frames_ok ?k" using i(1,3) by (auto simp: frames_ok_def ps nth_list_update hlog_shape_def)
  moreover have "lasts_ok ?k" using i(4) by (simp add: lasts_ok_def u)
  ultimately have "hlog_inv ?k" by (simp add: hlog_inv_def hlog_core_def)
  moreover have "action_ok ?k = action_ok ?h" by (rule action_ok_cong) simp_all
  moreover have "tail_pos ?k = tail_pos ?h" by (simp add: tail_pos_def)
  ultimately show ?thesis using assms by (simp add: log_inv_def u waiting_ok_def blocks_ok_def)
qed

text \<open>The page of an address at or above the head and below the tail is in memory.\<close>

lemma Get_Inr:
  assumes "log_inv s" "unat a < 2 ^ 48" "pg a \<le> tail_page (log s)"
  shows "\<exists>f. Page (page a) (log s) = Inr (Some f) \<and> pages (log s) ! (pg a mod bsize (log s)) = Some f"
proof -
  have i: "hlog_shape (log s)" "frames_ok (log s)" using assms(1) by (auto simp: log_inv_def hlog_inv_def hlog_core_def)
  have "unat (page a) < 2 ^ 23" using assms(3) tail_page_bound [of "tail_page_offset (log s)"] unat_page_pg [OF assms(2)] by simp
  moreover have "pages (log s) ! (pg a mod bsize (log s)) \<noteq> None" using i(2) assms(3) by (simp add: frames_ok_def)
  ultimately show ?thesis using Page_Inr [OF i(1)] unat_page_pg [OF assms(2)] by auto
qed

lemma do_write_inv:
  assumes inv: "log_inv s"
  shows "\<exists>s'. do_write a r s = Inr s' \<and> log_inv s'"
proof (cases "a \<in> fst ` set (blocks s) \<and> a \<ge> head_address (log s)")
  case False
  then show ?thesis using inv unfolding do_write_def if_not_P [OF False] by simp
next
  case True
  then obtain n where n: "(a, n) \<in> set (blocks s)" by auto
  obtain f where "Page (page a) (log s) = Inr (Some f)" using Get_Inr [OF inv block_page [OF inv n]] by blast
  then have "do_write a r s = Inr (s\<lparr>log := set_page (page a) (f(offset a \<mapsto> r)) (log s)\<rparr>)"
    using True by (simp add: do_write_def put_record_def)
  then show ?thesis using store_inv [OF inv] by blast
qed

lemma log_step_inv:
  assumes "log_inv s" "room (log s)"
  shows "\<exists>s'. log_step e s = Inr s' \<and> log_inv s' \<and> ((\<forall>a r. e \<noteq> EWrite a r) \<longrightarrow> keeps (log s) (log s'))"
proof (cases e)
  case (EWrite a r)
  then show ?thesis using do_write_inv [OF assms(1)] by auto
qed (use do_allocate_inv [OF assms(1)] do_new_page_inv [OF assms] do_to_tail_inv [OF assms(1)]
    do_perform_inv [OF assms] do_flushed_inv [OF assms] in auto)

text \<open>A run that keeps some page numbers in reserve.\<close>

fun in_room :: "'r log_event list \<Rightarrow> 'r log_sys \<Rightarrow> bool" where
  "in_room [] s \<longleftrightarrow> room (log s)"
| "in_room (e # es) s \<longleftrightarrow> room (log s) \<and> (case log_step e s of Inl _ \<Rightarrow> True | Inr s' \<Rightarrow> in_room es s')"

lemma run_log_inv:
  assumes "log_inv s" "in_room es s"
  shows "\<exists>s'. run_log es s = Inr s' \<and> log_inv s' \<and> room (log s')"
  using assms
proof (induction es arbitrary: s)
  case Nil
  then show ?case by simp
next
  case (Cons e es)
  obtain s1 where s1: "log_step e s = Inr s1" "log_inv s1"
    using log_step_inv [OF Cons.prems(1), of e] Cons.prems(2) by auto
  then show ?case using Cons.IH [OF s1(2)] Cons.prems(2) by simp
qed

section \<open>The initial log\<close>

lemma po_zero: "po_page 0 = 0" "po_offset 0 = 0" "PageOffset 0 0 = Inr 0" "page 0 = 0" "offset 0 = 0"
  by (simp_all add: word_unat_eq_iff unat_po_page unat_po_offset unat_page unat_offset)
    (simp add: PageOffset_def page_offset_layout_def le_kMaxPage_iff)

lemma new_hlog_inv:
  assumes "new_hlog sz sector 0 m = Inr h"
  shows "hlog_inv h" "tail_page_offset h = 0" "read_only_address h = 0" "safe_read_only_address h = 0"
    "head_address h = 0" "safe_head_address h = 0" "flushed_until_address h = 0"
    "\<forall>s \<in> set (page_status h). LastFlushedUntilAddress s = 0"
proof -
  define b :: u32 where "b = ucast (sz div kPageSize)"
  have nz: "\<not> b \<le> kNumHeadPages + 1" "\<not> m \<le> 1"
    using assms by (auto simp: new_hlog_def Let_def b_def split: if_splits)
  have b5: "5 < unat b" "1 < unat m"
    using nz by (simp_all add: kNumHeadPages_def word_le_nat_alt)
  let ?h = "\<lparr>sector_size = sector, read_only_address = 0, safe_read_only_address = 0,
     head_address = 0, safe_head_address = 0, flushed_until_address = 0,
     begin_address = 0, buffer_size = b, num_mutable_pages = m,
     pages = replicate (unat b) None, page_status = replicate (unat b) initial_status, tail_page_offset = 0\<rparr> :: 'a hlog"
  let ?st = "initial_status\<lparr>status := \<lparr>flush = Flushed, close = Open\<rparr>\<rparr>"
  have new: "bindR (AllocatePage 0 ?h) (AllocatePage 1) = Inr h"
    using assms by (simp add: new_hlog_def Let_def b_def po_zero split: if_splits)
  have "1 mod unat b = 1" using b5 by simp
  then have fr: "frame (h' :: 'a hlog) 0 = 0" "buffer_size h' = b \<Longrightarrow> frame h' 1 = 1" for h'
    by (simp_all add: frame_mod)
  have h: "h = ?h\<lparr>pages := (replicate (unat b) None)[0 := Some Map.empty, 1 := Some Map.empty],
      page_status := (replicate (unat b) initial_status)[0 := ?st, 1 := ?st]\<rparr>"
    using new b5 fr(1) fr(2) by (simp add: AllocatePage_def set_page_def set_status_def del: One_nat_def)
  show tp: "tail_page_offset h = 0" "read_only_address h = 0" "safe_read_only_address h = 0"
    "head_address h = 0" "safe_head_address h = 0" "flushed_until_address h = 0"
    by (simp_all add: h)
  have bs: "buffer_size h = b" "num_mutable_pages h = m" by (simp_all add: h)
  show l: "\<forall>s \<in> set (page_status h). LastFlushedUntilAddress s = 0"
    by (auto simp: h initial_status_def dest!: set_update_subset_insert [THEN subsetD] split: if_splits)
  have "hlog_shape h" using b5 by (simp add: hlog_shape_def h)
  moreover have "order_ok h" using b5 by (simp add: order_ok_def tp bs tail_addr_def po_zero pg_def)
  moreover have "frames_ok h"
    using b5 by (auto simp: frames_ok_def tp bs po_zero h le_Suc_eq nth_list_update)
  moreover have "lasts_ok h"
    using l \<open>hlog_shape h\<close> by (simp add: lasts_ok_def hlog_shape_def)
  ultimately show "hlog_inv h" by (simp add: hlog_inv_def hlog_core_def)
qed

lemma empty_hlog_facts:
  fixes h :: "'r hlog"
  assumes "empty_hlog sz sector m = Inr h"
  shows "log_inv (start_sys h)" "unat (hlog.begin_address h) = 64" "head_address h = hlog.begin_address h" "tail_page h = 0"
    "tail_offset h = 64" "read_only_address h = hlog.begin_address h"
proof -
  obtain h0 :: "'r hlog" where h0: "new_hlog sz sector 0 m = Inr h0"
    using assms by (auto simp: empty_hlog_def bindR_Inr_iff)
  note i = new_hlog_inv [OF h0]
  have t0: "tail_page h0 = 0" "tail_offset h0 = 0" by (simp_all add: i(2) po_zero)
  have o: "order_ok h0" "hlog_shape h0" "frames_ok h0" "lasts_ok h0" using i(1) by (auto simp: hlog_inv_def hlog_core_def)
  have side: "0 < (64 :: u32)" "unat (64 :: u32) < 2 ^ 25" "tail_offset h0 + unat (64 :: u32) < 2 ^ 41"
    by (simp_all add: t0)
  obtain c a where c: "Allocate 64 h0 = Inr (a, 0xFFFFFFFF, h0\<lparr>tail_page_offset := c\<rparr>)"
    "unat (po_page c) = 0" "unat (po_offset c) = 64"
  proof (cases rule: Allocate_cases [OF i(1) side, case_names full fits])
    case (full c)
    then show thesis by (simp add: t0)
  next
    case (fits c a)
    then show thesis using that [of a c] by (simp add: t0)
  qed
  define t where "t = Address_of (po_page c) (ucast (po_offset c))"
  have cs: "unat (ucast (po_offset c) :: u32) = 64" using unat_ucast_u32 [of "po_offset c"] c(3) by simp
  have t: "po_address c = Inr t" "unat t = 64"
    using unat_Address_of [of "po_page c" "ucast (po_offset c)"] c cs
    by (simp_all add: t_def po_address_def word_le_nat_alt unat_ucast_up unat_kMaxOffset)
  have h: "h = h0\<lparr>tail_page_offset := c, begin_address := t, read_only_address := t, safe_read_only_address := t,
      head_address := t, safe_head_address := t\<rparr>"
    using assms h0 c(1) t(1) by (simp add: empty_hlog_def)
  have pt: "pg t = 0" by (simp add: pg_def t(2))
  have "order_ok h" using o(1,2) c t(2) pt by (simp add: order_ok_def h tail_addr_def i pg_def hlog_shape_def)
  moreover have "hlog_shape h" using o(2) by (simp add: hlog_shape_def h)
  moreover have "frames_ok h" using o(3) c t0 pt by (simp add: frames_ok_def h i po_zero pg_def)
  moreover have "lasts_ok h" using i(8) o(2) by (simp add: lasts_ok_def h hlog_shape_def)
  ultimately have "hlog_inv h" by (simp add: hlog_inv_def hlog_core_def)
  moreover have "64 \<le> tail_pos h" using c by (simp add: tail_pos_def h)
  moreover have "waiting_ok h Map.empty" using c by (simp add: waiting_ok_def h)
  ultimately show "log_inv (start_sys h)" by (simp add: log_inv_def start_sys_def blocks_ok_def)
  show "unat (hlog.begin_address h) = 64" "head_address h = hlog.begin_address h" "tail_page h = 0" "tail_offset h = 64"
    "read_only_address h = hlog.begin_address h" using t(2) c(2,3) by (simp_all add: h)
qed

lemmas empty_hlog_inv = empty_hlog_facts(1)

section \<open>Properties\<close>

text \<open>
  C17: starting from an empty log, every interleaving of allocations, page changes, triggers, write
  completions and record writes by up to 96 threads runs without a failed assertion, a null page or
  any other error, as long as two rounds of page numbers are left. In every state reached, the safe head
  is not above the head, and flushed-until, safe read-only, read-only and tail address are in this order. The head is compared with the
  flushed-until address by pages only: its page is not above the page of flushed-until (in the empty log the head is 64 and
  nothing is flushed, so flushed-until is 0). The buffer has a frame for every page from the safe head to one past the tail.
\<close>

theorem hlog_addresses_ordered:
  assumes "empty_hlog log_size sector mutable_pages = Inr h0" "in_room es (start_sys h0)"
  shows "\<exists>s. run_log es (start_sys h0) = Inr s \<and>
    unat (safe_head_address (log s)) \<le> unat (head_address (log s)) \<and>
    unat (page (head_address (log s))) \<le> unat (page (flushed_until_address (log s))) \<and>
    unat (flushed_until_address (log s)) \<le> unat (safe_read_only_address (log s)) \<and>
    unat (safe_read_only_address (log s)) \<le> unat (read_only_address (log s)) \<and>
    unat (read_only_address (log s)) \<le> unat (GetTailAddress (log s)) \<and>
    unat (po_page (tail_page_offset (log s))) + 1 <
      unat (page (safe_head_address (log s))) + unat (buffer_size (log s))"
proof -
  obtain s where s: "run_log es (start_sys h0) = Inr s" "log_inv s"
    using run_log_inv [OF empty_hlog_inv [OF assms(1)] assms(2)] by blast
  let ?h = "log s"
  have o: "order_ok ?h" and w: "waiting_ok ?h (waiting s)"
    using s(2) by (auto simp: log_inv_def hlog_inv_def hlog_core_def)
  have "tail_offset ?h < 2 ^ 32" using waiting_offset [OF w] by simp
  from unat_GetTailAddress [OF this] unat_page_pg [OF order_addrs(1) [OF o]] unat_page_pg [OF order_addrs(2) [OF o]]
    unat_page_pg [OF order_addrs(3) [OF o]]
  show ?thesis using s(1) o by (intro exI [of _ s]) (simp add: order_ok_def)
qed

lemma run_log_reachable:
  assumes "empty_hlog log_size sector mutable_pages = Inr h0" "in_room es (start_sys h0)"
    "run_log es (start_sys h0) = Inr s"
  shows "log_inv s" "room (log s)"
  using run_log_inv [OF empty_hlog_inv [OF assms(1)] assms(2)] assms(3) by auto

text \<open>
  C18: two blocks the log has given out never overlap, whatever the threads did in between, and no
  block crosses a page boundary or reaches past the tail.
\<close>

theorem hlog_blocks_disjoint:
  assumes "empty_hlog log_size sector mutable_pages = Inr h0" "in_room es (start_sys h0)"
    "run_log es (start_sys h0) = Inr s"
  shows "(\<forall>i j a n b m. i < j \<and> j < length (blocks s) \<and> blocks s ! i = (a, n) \<and> blocks s ! j = (b, m) \<longrightarrow>
      unat b + unat m \<le> unat a) \<and>
    (\<forall>(a, n) \<in> set (blocks s). unat (offset a) + unat n \<le> 2 ^ 25 \<and>
      unat (page a) \<le> unat (po_page (tail_page_offset (log s))))"
proof -
  have inv: "log_inv s" by (rule run_log_reachable [OF assms])
  then have b: "blocks_ok (log s) (blocks s)" by (simp add: log_inv_def)
  have "unat b + unat m \<le> unat a" if "i < j" "j < length (blocks s)" "blocks s ! i = (a, n)" "blocks s ! j = (b, m)"
    for i j a n b m
    using b sorted_wrt_nth_less [OF _ that(1,2)] that(3,4) by (fastforce simp: blocks_ok_def)
  moreover have "unat (offset a) + unat n \<le> 2 ^ 25 \<and> unat (page a) \<le> tail_page (log s)" if "(a, n) \<in> set (blocks s)" for a n
    using b that block_page [OF inv that] unat_page_pg [of a] by (auto simp: blocks_ok_def unat_offset)
  ultimately show ?thesis by blast
qed

text \<open>Writing one record changes no other record on a page in memory.\<close>

lemma do_write_others:
  assumes inv: "log_inv s" and w: "do_write b r s = Inr s'" and "b \<noteq> a" and a48: "unat a < 2 ^ 48"
    and ps: "pg (safe_head_address (log s')) \<le> pg a" and pt: "pg a \<le> tail_page (log s)"
  shows "Get a (log s') = Get a (log s)"
proof (cases "b \<in> fst ` set (blocks s) \<and> b \<ge> head_address (log s)")
  case False
  have "do_write b r s = Inr s" unfolding do_write_def if_not_P [OF False] ..
  then show ?thesis using w by simp
next
  case True
  then obtain n where n: "(b, n) \<in> set (blocks s)" by auto
  note bp = block_page [OF inv n]
  obtain f where f: "Page (page b) (log s) = Inr (Some f)" "pages (log s) ! (pg b mod bsize (log s)) = Some f"
    using Get_Inr [OF inv bp] by blast
  have pp: "unat (page b) = pg b" "unat (page a) = pg a" by (rule unat_page_pg, fact)+
  have sh: "hlog_shape (log s)" "order_ok (log s)" using inv by (simp_all add: log_inv_def hlog_inv_def hlog_core_def)
  have s2: "s' = s\<lparr>log := set_page (page b) (f(offset b \<mapsto> r)) (log s)\<rparr>"
    using w True f(1) by (auto simp: do_write_def put_record_def)
  have pgs: "pages (log s') = (pages (log s))[pg b mod bsize (log s) := Some (f(offset b \<mapsto> r))]"
    by (simp add: s2 set_page_def frame_mod pp)
  obtain g where g: "Page (page a) (log s) = Inr (Some g)" "pages (log s) ! (pg a mod bsize (log s)) = Some g"
    using Get_Inr [OF inv a48 pt] by blast
  obtain g' where g': "Page (page a) (log s') = Inr (Some g')" "pages (log s') ! (pg a mod bsize (log s)) = Some g'"
    using Get_Inr [OF store_inv [OF inv] a48] pt by (auto simp: s2)
  show ?thesis
  proof (cases "pg a mod bsize (log s) = pg b mod bsize (log s)")
    case False
    then show ?thesis using g g' pgs by (simp add: Get_def)
  next
    case same: True
    have "unat (safe_head_address (log s)) \<le> unat b" using True sh(2) by (simp add: order_ok_def word_le_nat_alt)
    then have "pg a = pg b"
      using mod_window [OF same] pg_mono bp(2) pt ps sh(2) by (fastforce simp: s2 order_ok_def)
    then have "offset a \<noteq> offset b"
      using \<open>b \<noteq> a\<close> unat_offset [of a] unat_offset [of b] unfolding pg_def
      by (metis div_mult_mod_eq word_unat_eq_iff)
    moreover have "g' = f(offset b \<mapsto> r)" "g = f" using same f(2) g(2) g'(2) pgs sh(1) by (simp_all add: hlog_shape_def)
    ultimately show ?thesis using g(1) g'(1) by (simp add: Get_def)
  qed
qed

text \<open>
  C19: no event other than a write to the very address takes a record away: what can be read at an
  address on a page from the new safe head page to the tail is what could be read before, so a page
  is cleared and reused only after every thread has left it.
\<close>

theorem hlog_retains_records:
  assumes "empty_hlog log_size sector mutable_pages = Inr h0" "in_room es (start_sys h0)"
    "run_log es (start_sys h0) = Inr s" "log_step e s = Inr s'" "Address a = Inr a"
    "unat (page (safe_head_address (log s'))) \<le> unat (page a)" "unat (page a) \<le> unat (po_page (tail_page_offset (log s)))"
    "\<forall>r. e \<noteq> EWrite a r"
  shows "Get a (log s') = Get a (log s)"
proof -
  note inv = run_log_reachable [OF assms(1-3)]
  have s': "log_inv s'" "(\<forall>a r. e \<noteq> EWrite a r) \<longrightarrow> keeps (log s) (log s')"
    using log_step_inv [OF inv, of e] assms(4) by auto
  have a48: "unat a < 2 ^ 48" using assms(5) by (simp add: Address_def address_reserved_iff split: if_splits)
  have o: "order_ok (log s')" using s'(1) by (simp add: log_inv_def hlog_inv_def hlog_core_def)
  have pt: "pg a \<le> tail_page (log s)" and ps: "pg (safe_head_address (log s')) \<le> pg a"
    using assms(6,7) unat_page_pg [OF a48] unat_page_pg [OF order_addrs(1) [OF o]] by simp_all
  show ?thesis
  proof (cases "\<forall>b r. e \<noteq> EWrite b r")
    case True
    then have k: "keeps (log s) (log s')" using s'(2) by blast
    have "pg a \<le> tail_page (log s')" using pt k by (simp add: keeps_def)
    from Get_Inr [OF s'(1) a48 this] Get_Inr [OF inv(1) a48 pt] k ps pt show ?thesis
      by (auto simp: keeps_def Get_def)
  next
    case False
    then obtain b r where "e = EWrite b r" by blast
    then show ?thesis using do_write_others [OF inv(1) _ _ a48 ps pt, of b r] assms(4,8) by auto
  qed
qed

text \<open>A small log of six pages, two of them mutable, and a run that flushes two pages.\<close>

definition small_hlog :: "nat hlog" where
  "small_hlog = (case empty_hlog 0xC000000 512 2 of Inr h \<Rightarrow> h | Inl _ \<Rightarrow> undefined)"

definition flush_order :: "nat log_event list" where
  "flush_order =
     [EAllocate 0 0x1FFFFFF, ENewPage 0, ENewPage 0, EAllocate 0 100, EToTail, EPerform 0 (\<lambda>_. True), EFlushed 1,
      EAllocate 0 0x1FFFFFF, ENewPage 0, ENewPage 0, EAllocate 0 0x1FFFFFF, EAllocate 0 0x1FFFFFF, ENewPage 0]"

lemma small_hlog: "empty_hlog 0xC000000 512 2 = Inr small_hlog"
proof -
  have "case (empty_hlog 0xC000000 512 2 :: c_error + nat hlog) of Inr h \<Rightarrow> True | Inl _ \<Rightarrow> False" by code_simp
  then show ?thesis by (auto simp: small_hlog_def split: sum.splits)
qed

theorem hlog_addresses_ordered_witness:
  "in_room [EAllocate 0 100, EToTail, EPerform 0 (\<lambda>_. True)] (start_sys small_hlog) \<and>
   (\<exists>s. run_log [EAllocate 0 100, EToTail, EPerform 0 (\<lambda>_. True)] (start_sys small_hlog) = Inr s \<and>
     unat (read_only_address (log s)) \<le> unat (GetTailAddress (log s)))"
proof -
  have r: "in_room [EAllocate 0 100, EToTail, EPerform 0 (\<lambda>_. True)] (start_sys small_hlog)" by code_simp
  from r hlog_addresses_ordered [OF small_hlog r] show ?thesis by blast
qed

theorem hlog_blocks_disjoint_witness:
  "case run_log [EAllocate 0 100, EAllocate 1 200] (start_sys small_hlog) of Inl _ \<Rightarrow> False
   | Inr s \<Rightarrow> length (blocks s) = 2 \<and>
       unat (fst (blocks s ! 1)) + unat (snd (blocks s ! 1)) \<le> unat (fst (blocks s ! 0))"
proof -
  have r: "in_room [EAllocate 0 100, EAllocate 1 200] (start_sys small_hlog)" by code_simp
  have l: "case run_log [EAllocate 0 100, EAllocate 1 200] (start_sys small_hlog) of Inl _ \<Rightarrow> False
    | Inr s \<Rightarrow> length (blocks s) = 2" by code_simp
  then obtain s where s: "run_log [EAllocate 0 100, EAllocate 1 200] (start_sys small_hlog) = Inr s" "length (blocks s) = 2"
    by (auto split: sum.splits)
  have "unat (fst (blocks s ! 1)) + unat (snd (blocks s ! 1)) \<le> unat (fst (blocks s ! 0))"
    using hlog_blocks_disjoint [OF small_hlog r s(1), THEN conjunct1, rule_format, of 0 1] s(2)
    by (cases "blocks s ! 0"; cases "blocks s ! 1") simp
  with s show ?thesis by simp
qed

theorem hlog_retains_records_witness:
  "case run_log [EAllocate 0 100, EWrite 64 7] (start_sys small_hlog) of Inl _ \<Rightarrow> False
   | Inr s \<Rightarrow> (case log_step EToTail s of Inl _ \<Rightarrow> False
     | Inr s' \<Rightarrow> Get 64 (log s) = Inr (Some 7) \<and> Get 64 (log s') = Get 64 (log s))"
proof -
  have r: "in_room [EAllocate 0 100, EWrite 64 7] (start_sys small_hlog)" by code_simp
  have "case run_log [EAllocate 0 100, EWrite 64 7] (start_sys small_hlog) of Inl _ \<Rightarrow> False
    | Inr s \<Rightarrow> (case log_step EToTail s of Inl _ \<Rightarrow> False
      | Inr s' \<Rightarrow> Get 64 (log s) = Inr (Some 7) \<and> page (safe_head_address (log s')) = 0)" by code_simp
  then obtain s s' where s: "run_log [EAllocate 0 100, EWrite 64 7] (start_sys small_hlog) = Inr s"
    "log_step EToTail s = Inr s'" "Get 64 (log s) = Inr (Some 7)" "page (safe_head_address (log s')) = 0"
    by (auto split: sum.splits)
  have "Get 64 (log s') = Get 64 (log s)"
    by (rule hlog_retains_records [OF small_hlog r s(1,2)])
      (simp_all add: s(4) Address_def address_reserved_iff unat_page)
  with s show ?thesis by simp
qed

text \<open>
  The head address can pass a page that has not been written to disk. The flush of page 0 is
  pending, the flush of page 1 completes first; page 0 carries the address 0 while it is being
  flushed, which equals the initial flushed-until address, so the scan takes page 0 for flushed,
  moves the flushed-until address past it, and the next page change moves the head past it.
\<close>

theorem hlog_head_passes_unflushed:
  "\<exists>h0 es s p u. empty_hlog 0xC000000 512 2 = Inr (h0 :: nat hlog) \<and> run_log es (start_sys h0) = Inr s \<and>
     (p, u) \<in> set (flushes s) \<and> flush (status (page_status (log s) ! unat p)) = InProgress \<and>
     p < page (head_address (log s)) \<and> u \<le> flushed_until_address (log s)"
proof -
  have "case run_log flush_order (start_sys small_hlog) of Inl _ \<Rightarrow> False
    | Inr s \<Rightarrow> flushes s = [(0, Address_of 1 0)] \<and> flush (status (page_status (log s) ! 0)) = InProgress \<and>
        0 < page (head_address (log s)) \<and> Address_of 1 0 \<le> flushed_until_address (log s)" by code_simp
  then obtain s where "run_log flush_order (start_sys small_hlog) = Inr s" "flushes s = [(0, Address_of 1 0)]"
    "flush (status (page_status (log s) ! 0)) = InProgress" "0 < page (head_address (log s))"
    "Address_of 1 0 \<le> flushed_until_address (log s)" by (auto split: sum.splits)
  then show ?thesis using small_hlog
    by (intro exI [of _ small_hlog] exI [of _ flush_order] exI [of _ s] exI [of _ 0] exI [of _ "Address_of 1 0"]) simp
qed

end
