(* ===== verification/FasterOps_Proofs.thy ===== *)
theory FasterOps_Proofs
  imports FasterOps FasterIndex_Proofs HybridLog_Proofs
begin

text \<open>
  The operations of the FASTER store outside of any action (phase \<open>REST\<close>) implement a map from keys to
  values: the records of an entry form a chain through the log, the latest record of a key gives its
  value, and what the head address has passed must be read from the disk.

  The first part collects what the operations need of the log, while other threads allocate, change
  pages, flush and close: blocks of the thread stay, and so does what they hold while the head has not
  passed them.
\<close>

section \<open>The log while other threads use it\<close>

definition log_grows :: "'r log_sys \<Rightarrow> 'r log_sys \<Rightarrow> bool" where
  "log_grows l l' \<longleftrightarrow> log_inv l' \<and> hlog.begin_address (log l') = hlog.begin_address (log l) \<and>
     bsize (log l') = bsize (log l) \<and> unat (head_address (log l)) \<le> unat (head_address (log l')) \<and>
     set (blocks l) \<subseteq> set (blocks l') \<and>
     (\<forall>(a, n) \<in> set (blocks l). unat (head_address (log l')) \<le> unat a \<longrightarrow> Get a (log l') = Get a (log l))"

lemma log_grows_refl: "log_inv l \<Longrightarrow> log_grows l l"
  by (simp add: log_grows_def)

lemma log_grows_trans: "log_grows l1 l2 \<Longrightarrow> log_grows l2 l3 \<Longrightarrow> log_grows l1 l3"
  by (fastforce simp: log_grows_def)

lemma keeps_Get:
  assumes "log_inv l" "log_inv l'" "keeps (log l) (log l')" "(a, n) \<in> set (blocks l)"
    "unat (head_address (log l')) \<le> unat a"
  shows "Get a (log l') = Get a (log l)"
proof -
  note b = block_page [OF assms(1,4)]
  have "unat (safe_head_address (log l')) \<le> unat a"
    using assms(2,5) by (simp add: log_inv_def hlog_inv_def hlog_core_def order_ok_def)
  then have p: "pg (safe_head_address (log l')) \<le> pg a" by (rule pg_mono)
  have "pg a \<le> tail_page (log l')" using b(2) assms(3) by (simp add: keeps_def)
  from Get_Inr [OF assms(2) b(1) this] Get_Inr [OF assms(1) b] assms(3) p b(2) show ?thesis
    by (auto simp: keeps_def Get_def)
qed

lemma keeps_grows:
  assumes "log_inv l" "log_inv l'" "keeps (log l) (log l')" "set (blocks l) \<subseteq> set (blocks l')"
  shows "log_grows l l'"
  using assms keeps_Get [OF assms(1-3)] by (auto simp: log_grows_def keeps_def)

text \<open>Events of other threads that write no records.\<close>

fun quiet_event :: "nat \<Rightarrow> 'r log_event \<Rightarrow> bool" where
  "quiet_event t (EAllocate u n) \<longleftrightarrow> u \<noteq> t"
| "quiet_event t (ENewPage u) \<longleftrightarrow> u \<noteq> t"
| "quiet_event t (EWrite a r) \<longleftrightarrow> False"
| "quiet_event t e \<longleftrightarrow> True"

lemma log_step_frame:
  assumes "log_step e l = Inr l'"
  shows "set (blocks l) \<subseteq> set (blocks l')" "quiet_event t e \<Longrightarrow> waiting l' t = waiting l t"
  using assms
  by (cases e; auto simp: do_allocate_def do_new_page_def do_to_tail_def do_perform_def do_flushed_def do_write_def
      bindR_Inr_iff split: if_splits option.splits log_action.splits)+

lemma log_step_grows:
  assumes "log_inv l" "room (log l)" "quiet_event t e"
  shows "\<exists>l'. log_step e l = Inr l' \<and> log_grows l l' \<and> waiting l' t = waiting l t \<and>
    tail_page (log l') \<le> tail_page (log l) + 1"
proof -
  have "\<forall>a r. e \<noteq> EWrite a r" using assms(3) by (cases e) auto
  then obtain l' where l': "log_step e l = Inr l'" "log_inv l'" "keeps (log l) (log l')"
    using log_step_inv [OF assms(1,2), of e] by blast
  then show ?thesis
    using keeps_grows [OF assms(1) l'(2,3)] log_step_frame [OF l'(1)] assms(3) by (auto simp: keeps_def)
qed

lemma run_log_grows:
  assumes "log_inv l" "tail_page (log l) + length es + 2 * bsize (log l) + 3 < 2 ^ 23" "\<forall>e \<in> set es. quiet_event t e"
  shows "\<exists>l'. run_log es l = Inr l' \<and> log_grows l l' \<and> waiting l' t = waiting l t \<and>
    tail_page (log l') \<le> tail_page (log l) + length es"
  using assms
proof (induction es arbitrary: l)
  case Nil
  then show ?case by (simp add: log_grows_refl)
next
  case (Cons e es)
  have "room (log l)" using Cons.prems(2) by (simp add: room_iff)
  then obtain l1 where l1: "log_step e l = Inr l1" "log_grows l l1" "waiting l1 t = waiting l t"
    "tail_page (log l1) \<le> tail_page (log l) + 1"
    using log_step_grows [OF Cons.prems(1)] Cons.prems(3) by (metis list.set_intros(1))
  moreover have "tail_page (log l1) + length es + 2 * bsize (log l1) + 3 < 2 ^ 23" "log_inv l1"
    using l1 Cons.prems(2) by (simp_all add: log_grows_def)
  ultimately obtain l2 where "run_log es l1 = Inr l2" "log_grows l1 l2" "waiting l2 t = waiting l1 t"
    "tail_page (log l2) \<le> tail_page (log l1) + length es"
    using Cons.IH [of l1] Cons.prems(3) by auto
  then show ?case using l1 log_grows_trans [OF l1(2)] by auto
qed

section \<open>A thread outside of any action\<close>

definition quiet_env :: "nat \<Rightarrow> ('k, 'v) env_step \<Rightarrow> bool" where
  "quiet_env t e \<longleftrightarrow> (\<forall>x \<in> set (log_events e). quiet_event t x) \<and>
     (\<forall>c. phase (system c) = REST \<longrightarrow> phase (system (others e c)) = REST \<and> cp_locks (others e c) = cp_locks c)"

definition rest_ok :: "nat \<Rightarrow> ('k, 'v) store \<Rightarrow> bool" where
  "rest_ok t s \<longleftrightarrow> ctx_phase (ctx s) = REST \<and> phase (system (ctl s)) = REST \<and> lock_size (kv_locks s) = 0 \<and>
     (\<forall>e \<in> set (env s). quiet_env t e)"

text \<open>Each turn of the environment and each page change of the thread itself advances the tail by at most one page.\<close>

definition turns :: "('k, 'v) store \<Rightarrow> nat" where
  "turns s = sum_list (map (\<lambda>e. length (log_events e) + 1) (env s))"

definition kv_room :: "('k, 'v) store \<Rightarrow> bool" where
  "kv_room s \<longleftrightarrow> tail_page (hlog_of s) + turns s + 2 * bsize (hlog_of s) + 3 < 2 ^ 23"

lemma kv_room_room: "kv_room s \<Longrightarrow> room (hlog_of s)"
  by (simp add: kv_room_def room_iff)

text \<open>Time passes for the thread: the log grows and the environment has fewer turns; the rest stays.\<close>

definition passes :: "nat \<Rightarrow> ('k, 'v) store \<Rightarrow> ('k, 'v) store \<Rightarrow> bool" where
  "passes t s s' \<longleftrightarrow> kv_index s' = kv_index s \<and> contexts s' = contexts s \<and> cur s' = cur s \<and>
     safe_epoch s' = safe_epoch s \<and> disk_reads s' = disk_reads s \<and> num_pending_ios s' = num_pending_ios s \<and>
     log_grows (kv_log s) (kv_log s') \<and> rest_ok t s' \<and> kv_room s'"

lemma passes_refl: "log_inv (kv_log s) \<Longrightarrow> rest_ok t s \<Longrightarrow> kv_room s \<Longrightarrow> passes t s s"
  by (simp add: passes_def log_grows_refl)

lemma passes_trans: "passes t s1 s2 \<Longrightarrow> passes t s2 s3 \<Longrightarrow> passes t s1 s3"
  by (auto simp: passes_def intro: log_grows_trans)

lemma passes_inv: "passes t s s' \<Longrightarrow> log_inv (kv_log s')"
  by (simp add: passes_def log_grows_def)

text \<open>The page change before a turn of the environment is paid for by the turn.\<close>

definition almost_room :: "('k, 'v) store \<Rightarrow> bool" where
  "almost_room s \<longleftrightarrow> tail_page (hlog_of s) + turns s + 2 * bsize (hlog_of s) + 3 \<le> 2 ^ 23"

lemma Refresh_rest:
  assumes "rest_ok t s" "log_inv (kv_log s)" "almost_room s"
  shows "Refresh K t s = Inl Spins \<and> env s = [] \<or>
    (\<exists>s'. Refresh K t s = Inr s' \<and> passes t s s' \<and> waiting (kv_log s') t = waiting (kv_log s) t)"
proof (cases "env s")
  case Nil
  then show ?thesis by (simp add: Refresh_def)
next
  case (Cons e es)
  have q: "quiet_env t e" "\<forall>e \<in> set es. quiet_env t e" using assms(1) Cons by (auto simp: rest_ok_def)
  have tu: "turns s = length (log_events e) + 1 + sum_list (map (\<lambda>e. length (log_events e) + 1) es)"
    using Cons by (simp add: turns_def)
  have lim: "tail_page (hlog_of s) + length (log_events e) + 2 * bsize (hlog_of s) + 3 < 2 ^ 23"
    using assms(3) tu by (simp add: almost_room_def)
  obtain l where l: "run_log (log_events e) (kv_log s) = Inr l" "log_grows (kv_log s) l" "waiting l t = waiting (kv_log s) t"
    "tail_page (log l) \<le> tail_page (hlog_of s) + length (log_events e)"
    using run_log_grows [OF assms(2) lim, of t] q(1) unfolding quiet_env_def by blast
  let ?s = "s\<lparr>kv_log := l, ctl := others e (ctl s), now := e, env := es\<rparr>"
  have c: "phase (system (others e (ctl s))) = REST" "cp_locks (others e (ctl s)) = kv_locks s"
    using q(1) assms(1) by (auto simp: quiet_env_def rest_ok_def)
  then have "Refresh K t s = Inr ?s"
    using assms(1) Cons l(1) by (simp add: Refresh_def env_acts_def rest_ok_def)
  moreover have "rest_ok t ?s" using assms(1) c q(2) by (simp add: rest_ok_def)
  moreover have "bsize (log l) = bsize (hlog_of s)" using l(2) by (simp add: log_grows_def)
  moreover from this have "kv_room ?s" using assms(3) tu l(4) by (simp add: kv_room_def almost_room_def turns_def)
  ultimately show ?thesis using l by (intro disjI2 exI [of _ ?s]) (simp add: passes_def turns_def)
qed

section \<open>Allocating a record\<close>

lemma head_bounds:
  assumes "log_inv l"
  shows "unat (head_address (log l)) < 2 ^ 48" "unat (read_only_address (log l)) < 2 ^ 48"
    "unat (safe_read_only_address (log l)) < 2 ^ 48"
    "unat (head_address (log l)) \<le> unat (safe_read_only_address (log l))"
    "unat (safe_read_only_address (log l)) \<le> unat (read_only_address (log l))"
    "unat (read_only_address (log l)) \<le> tail_addr (log l)"
  using assms order_addrs [of "log l"] by (auto simp: log_inv_def hlog_inv_def hlog_core_def order_ok_def)

definition fits :: "u32 \<Rightarrow> 'r hlog \<Rightarrow> bool" where
  "fits n h \<longleftrightarrow> unat (po_offset (tail_page_offset h)) + unat n \<le> 2 ^ 25"

text \<open>The allocation of \<open>n\<close> bytes on the tail page moves no boundary but the tail.\<close>

definition stays :: "u32 \<Rightarrow> 'r hlog \<Rightarrow> 'r hlog \<Rightarrow> bool" where
  "stays n h h' \<longleftrightarrow> head_address h' = head_address h \<and> read_only_address h' = read_only_address h \<and>
     tail_offset h' \<le> tail_offset h + unat n"

text \<open>A block that was not in use before and can be written.\<close>

definition fresh_block :: "address \<Rightarrow> u32 \<Rightarrow> 'r log_sys \<Rightarrow> 'r log_sys \<Rightarrow> bool" where
  "fresh_block a n l l' \<longleftrightarrow> (a, n) \<in> set (blocks l') \<and> (\<forall>b \<in> fst ` set (blocks l). unat b < unat a) \<and>
     unat (read_only_address (log l')) \<le> unat a"

lemma log_Allocate_rest:
  assumes "log_inv (kv_log s)" "t < 96" "waiting (kv_log s) t = None" "0 < n" "n \<le> kMaxOffset"
  obtains (full) l p where "\<not> fits n (hlog_of s)" "log_Allocate t n s = Inr (kInvalidAddress, p, s\<lparr>kv_log := l\<rparr>)"
      "log_grows (kv_log s) l" "waiting l t = Some p" "tail_page (log l) = tail_page (hlog_of s)"
      "blocks l = blocks (kv_log s)" "head_address (log l) = head_address (hlog_of s)"
    | (fits) l a p where "fits n (hlog_of s)" "log_Allocate t n s = Inr (a, p, s\<lparr>kv_log := l\<rparr>)"
      "log_grows (kv_log s) l" "waiting l t = None" "tail_page (log l) = tail_page (hlog_of s)"
      "fresh_block a n (kv_log s) l" "a \<noteq> kInvalidAddress" "stays n (hlog_of s) (log l)"
proof -
  note f1 = full and f2 = fits
  let ?l = "kv_log s"
  let ?h = "log ?l"
  have i: "hlog_inv ?h" "waiting_ok ?h (waiting ?l)" "64 \<le> tail_pos ?h" "blocks_ok ?h (blocks ?l)"
    using assms(1) by (auto simp: log_inv_def)
  have n: "0 < unat n" "unat n < 2 ^ 25"
    using assms(4,5) by (simp_all add: word_less_nat_alt word_le_nat_alt unat_kMaxOffset)
  have off: "tail_offset ?h + unat n < 2 ^ 41" using waiting_offset [OF i(2)] n(2) by simp
  obtain l where l: "do_allocate t n ?l = Inr l" "log_inv l" "keeps ?h (log l)"
    using do_allocate_inv [OF assms(1), of t n] by blast
  have g: "log_grows ?l l"
    using keeps_grows [OF assms(1) l(2,3)] log_step_frame(1) [of "EAllocate t n" ?l l] l(1) by simp
  show thesis
  proof (cases rule: Allocate_cases [OF i(1) assms(4) n(2) off, case_names full fits])
    case (full c)
    let ?p = "po_page (tail_page_offset ?h)"
    have le: "l = ?l\<lparr>log := ?h\<lparr>tail_page_offset := c\<rparr>, waiting := (waiting ?l)(t \<mapsto> ?p)\<rparr>"
      using l(1) assms full(1) by (simp add: do_allocate_def)
    have "\<not> fits n ?h" using full(4) by (simp add: fits_def)
    moreover have "log_Allocate t n s = Inr (kInvalidAddress, ?p, s\<lparr>kv_log := l\<rparr>)"
      using full(1) le by (simp add: log_Allocate_def)
    moreover have "waiting l t = Some ?p" "tail_page (log l) = tail_page ?h" "blocks l = blocks ?l"
      "head_address (log l) = head_address ?h" using le full(2) by simp_all
    ultimately show thesis using g by (intro f1)
  next
    case (fits c a)
    have fo: "tail_offset ?h < 2 ^ 25" using fits(4) n(1) by simp
    have a: "unat a = tail_pos ?h" using fits fo by (simp add: tail_pos_def)
    then have ai: "a \<noteq> kInvalidAddress" using i(3) by (auto simp: kInvalidAddress_def)
    have le: "l = ?l\<lparr>log := ?h\<lparr>tail_page_offset := c\<rparr>, blocks := (a, n) # blocks ?l\<rparr>"
      using l(1) assms fits(1) ai by (simp add: do_allocate_def)
    then have al: "log_Allocate t n s = Inr (a, 0xFFFFFFFF, s\<lparr>kv_log := l\<rparr>)"
      using fits(1) ai by (simp add: log_Allocate_def)
    have "unat b < unat a" if "(b, m) \<in> set (blocks ?l)" for b m
      using i(4) that a by (fastforce simp: blocks_ok_def)
    moreover have "unat (read_only_address ?h) \<le> unat a"
      using head_bounds(6) [OF assms(1)] fits(5) fo by (simp add: tail_addr_def)
    ultimately have fb: "fresh_block a n ?l l" using le by (auto simp: fresh_block_def)
    moreover have "fits n ?h" using fits(4) by (simp add: fits_def)
    moreover have "waiting l t = None" "tail_page (log l) = tail_page ?h" "stays n ?h (log l)"
      using le fits(2,3) assms(3) by (simp_all add: stays_def)
    ultimately show thesis using g al ai by (intro f2)
  qed
qed

lemma log_NewPage_rest:
  assumes "log_inv (kv_log s)" "room (hlog_of s)" "waiting (kv_log s) t = Some p"
  shows "\<exists>ok l. log_NewPage t p s = Inr (ok, s\<lparr>kv_log := l\<rparr>) \<and> log_grows (kv_log s) l \<and>
    waiting l t = (if ok then None else Some p) \<and> tail_page (log l) \<le> tail_page (hlog_of s) + 1"
proof -
  obtain l where l: "do_new_page t (kv_log s) = Inr l" "log_inv l" "keeps (hlog_of s) (log l)"
    using do_new_page_inv [OF assms(1,2), of t] by blast
  have g: "log_grows (kv_log s) l"
    using keeps_grows [OF assms(1) l(2,3)] log_step_frame(1) [of "ENewPage t" "kv_log s" l] l(1) by simp
  from l(1) assms(3) obtain ok h acts where n: "NewPage p (hlog_of s) = Inr (ok, h, acts)"
    "l = (kv_log s)\<lparr>log := h, actions := actions (kv_log s) @ acts,
       waiting := (if ok then (waiting (kv_log s))(t := None) else waiting (kv_log s))\<rparr>"
    by (auto simp: do_new_page_def bindR_Inr_iff)
  then have "log_NewPage t p s = Inr (ok, s\<lparr>kv_log := l\<rparr>)" by (simp add: log_NewPage_def)
  then show ?thesis using g n(2) l(3) assms(3) by (intro exI [of _ ok] exI [of _ l]) (auto simp: keeps_def)
qed

text \<open>The invariant of the waiting loops.\<close>

definition in_loop :: "nat \<Rightarrow> ('k, 'v) store \<Rightarrow> bool" where
  "in_loop t s \<longleftrightarrow> log_inv (kv_log s) \<and> rest_ok t s \<and> kv_room s"

lemma in_loop_passes: "passes t s s' \<Longrightarrow> in_loop t s'"
  by (simp add: passes_def in_loop_def log_grows_def)

lemma passes_log:
  assumes "in_loop t s" "log_grows (kv_log s) l" "tail_page (log l) = tail_page (hlog_of s)"
  shows "passes t s (s\<lparr>kv_log := l\<rparr>)"
  using assms by (simp add: in_loop_def passes_def rest_ok_def kv_room_def turns_def log_grows_def)

lemma new_page_loop_rest:
  assumes "in_loop t s" "waiting (kv_log s) t = Some p"
  shows "new_page_loop K t p s = Inl Spins \<or>
    (\<exists>s'. new_page_loop K t p s = Inr s' \<and> passes t s s' \<and> waiting (kv_log s') t = None)"
  using assms
proof (induction K t p s rule: new_page_loop.induct)
  case (1 K t p s)
  have i: "log_inv (kv_log s)" "rest_ok t s" "kv_room s" using "1.prems"(1) by (simp_all add: in_loop_def)
  obtain ok l where l: "log_NewPage t p s = Inr (ok, s\<lparr>kv_log := l\<rparr>)" "log_grows (kv_log s) l"
    "waiting l t = (if ok then None else Some p)" "tail_page (log l) \<le> tail_page (hlog_of s) + 1"
    using log_NewPage_rest [OF i(1) kv_room_room [OF i(3)] "1.prems"(2)] by blast
  let ?s = "s\<lparr>kv_log := l\<rparr>"
  have r: "rest_ok t ?s" "log_inv (kv_log ?s)" "almost_room ?s"
    using i l(2,4) by (simp_all add: rest_ok_def log_grows_def almost_room_def kv_room_def turns_def)
  show ?case
  proof (cases "\<exists>s1. Refresh K t ?s = Inr s1")
    case False
    then have "Refresh K t ?s = Inl Spins" using Refresh_rest [OF r, of K] by blast
    then show ?thesis using l(1) by (subst new_page_loop.simps) simp
  next
    case True
    then obtain s1 where s1: "Refresh K t ?s = Inr s1" "passes t ?s s1" "waiting (kv_log s1) t = waiting l t"
      using Refresh_rest [OF r, of K] by auto
    have p1: "passes t s s1" using s1(2) log_grows_trans [OF l(2)] by (simp add: passes_def)
    have eq: "new_page_loop K t p s = (if ok then Inr s1 else new_page_loop K t p s1)"
      using l(1) s1(1) by (subst new_page_loop.simps) simp
    show ?thesis
    proof (cases ok)
      case True
      then show ?thesis using eq p1 s1(3) l(3) by simp
    next
      case False
      then have "new_page_loop K t p s1 = Inl Spins \<or>
          (\<exists>s'. new_page_loop K t p s1 = Inr s' \<and> passes t s1 s' \<and> waiting (kv_log s') t = None)"
        using "1.IH" [OF l(1) refl s1(1) False in_loop_passes [OF p1]] s1(3) l(3) by simp
      then show ?thesis using eq False passes_trans [OF p1] by auto
    qed
  qed
qed

lemma fresh_block_grows: "log_grows l l1 \<Longrightarrow> fresh_block a n l1 l' \<Longrightarrow> fresh_block a n l l'"
  by (auto simp: fresh_block_def log_grows_def)

lemma address_less_Inr:
  "unat a < 2 ^ 48 \<Longrightarrow> unat b < 2 ^ 48 \<Longrightarrow> address_less a b = Inr (unat a < unat b)"
  "unat a < 2 ^ 48 \<Longrightarrow> unat b < 2 ^ 48 \<Longrightarrow> address_ge a b = Inr (unat b \<le> unat a)"
  by (simp_all add: address_less_def address_ge_def address_compare_def address_reserved_iff word_less_nat_alt word_le_nat_alt)

lemma block_loop_return:
  assumes "log_inv (kv_log s)" "fresh_block a n l (kv_log s)"
  shows "block_loop K t n a p s = Inr (a, s)"
proof -
  have "unat a < 2 ^ 48" "unat (read_only_address (hlog_of s)) \<le> unat a"
    using assms block_page(1) [OF assms(1), of a n] by (simp_all add: fresh_block_def)
  then show ?thesis
    using head_bounds(2) [OF assms(1)] by (subst block_loop.simps) (simp add: address_less_Inr)
qed

lemma block_loop_rest:
  assumes "in_loop t s" "t < 96" "0 < n" "n \<le> kMaxOffset" "waiting (kv_log s) t = Some p"
    "1 < unat (head_address (hlog_of s))"
  shows "block_loop K t n kInvalidAddress p s = Inl Spins \<or>
    (\<exists>a s'. block_loop K t n kInvalidAddress p s = Inr (a, s') \<and> passes t s s' \<and>
       waiting (kv_log s') t = None \<and> fresh_block a n (kv_log s) (kv_log s'))"
  using assms
proof (induction "length (env s)" arbitrary: s p rule: less_induct)
  case less
  have i: "log_inv (kv_log s)" "rest_ok t s" "kv_room s" using less.prems(1) by (simp_all add: in_loop_def)
  have ro: "address_less kInvalidAddress (read_only_address (hlog_of s)) = Inr True"
    using head_bounds [OF i(1)] less.prems(6) by (simp add: address_less_Inr kInvalidAddress_def)
  have ar: "almost_room s" using i(3) by (simp add: kv_room_def almost_room_def)
  show ?case
  proof (cases "\<exists>s1 s2. Refresh K t s = Inr s1 \<and> new_page_loop K t p s1 = Inr s2")
    case False
    have "(\<exists>s1. Refresh K t s = Inr s1 \<and> new_page_loop K t p s1 = Inl Spins) \<or> Refresh K t s = Inl Spins"
      using Refresh_rest [OF i(2,1) ar, of K] new_page_loop_rest [of t _ p K] in_loop_passes False less.prems(5) by metis
    then show ?thesis using ro by (subst block_loop.simps) (auto simp: block_loop.simps [of K t n kInvalidAddress p s])
  next
    case True
    then obtain s1 s2 where s1: "Refresh K t s = Inr s1" "passes t s s1" "waiting (kv_log s1) t = Some p"
      and s2: "new_page_loop K t p s1 = Inr s2"
      using Refresh_rest [OF i(2,1) ar, of K] less.prems(5) by auto
    have "passes t s1 s2" and w2: "waiting (kv_log s2) t = None"
      using new_page_loop_rest [OF in_loop_passes [OF s1(2)] s1(3), of K] s2 by auto
    then have p2: "passes t s s2" using passes_trans [OF s1(2)] by blast
    note il = in_loop_passes [OF p2]
    then have i2: "log_inv (kv_log s2)" by (simp add: in_loop_def)
    have eq: "block_loop K t n kInvalidAddress p s = block_loop K t n a q s3"
      if "log_Allocate t n s2 = Inr (a, q, s3)" for a q s3
      using ro s1(1) s2 that by (subst block_loop.simps) simp
    show ?thesis
    proof (cases rule: log_Allocate_rest [OF i2 less.prems(2) w2 less.prems(3,4), case_names full fits])
      case (full l q)
      let ?s = "s2\<lparr>kv_log := l\<rparr>"
      have p3: "passes t s ?s" using passes_trans [OF p2 passes_log [OF il full(3,5)]] .
      moreover have "length (env ?s) < length (env s)"
        using Refresh_env [OF s1(1)] new_page_loop_env [OF s2] by simp
      moreover have "1 < unat (head_address (hlog_of ?s))" using p3 less.prems(6) by (simp add: passes_def log_grows_def)
      ultimately have "block_loop K t n kInvalidAddress q ?s = Inl Spins \<or>
         (\<exists>a s'. block_loop K t n kInvalidAddress q ?s = Inr (a, s') \<and> passes t ?s s' \<and>
            waiting (kv_log s') t = None \<and> fresh_block a n (kv_log ?s) (kv_log s'))"
        using less.hyps [of ?s q] in_loop_passes [OF p3] less.prems(2-4) full(4) by simp
      moreover have "log_grows (kv_log s) (kv_log ?s)" using p3 by (simp add: passes_def)
      ultimately show ?thesis
        unfolding eq [OF full(2)] using passes_trans [OF p3] fresh_block_grows by blast
    next
      case (fits l a q)
      let ?s = "s2\<lparr>kv_log := l\<rparr>"
      have p3: "passes t s ?s" using passes_trans [OF p2 passes_log [OF il fits(3,5)]] .
      have "block_loop K t n a q ?s = Inr (a, ?s)"
        using block_loop_return [of ?s a n "kv_log s2" K t q] fits(6) passes_inv [OF p3] by simp
      then show ?thesis
        unfolding eq [OF fits(2)] using p3 fits(4) fresh_block_grows [OF _ fits(6), of "kv_log s"] p2
        by (auto simp: passes_def)
    qed
  qed
qed

lemma BlockAllocate_rest:
  assumes "in_loop t s" "t < 96" "0 < n" "n \<le> kMaxOffset" "waiting (kv_log s) t = None"
    "1 < unat (head_address (hlog_of s))"
  shows "BlockAllocate K t n s = Inl Spins \<and> \<not> fits n (hlog_of s) \<or>
    (\<exists>a s'. BlockAllocate K t n s = Inr (a, s') \<and> passes t s s' \<and> waiting (kv_log s') t = None \<and>
       fresh_block a n (kv_log s) (kv_log s') \<and>
       (fits n (hlog_of s) \<longrightarrow> stays n (hlog_of s) (hlog_of s')))"
proof -
  have i: "log_inv (kv_log s)" using assms(1) by (simp add: in_loop_def)
  show ?thesis
  proof (cases rule: log_Allocate_rest [OF i assms(2,5,3,4), case_names full fits])
    case (full l p)
    let ?s = "s\<lparr>kv_log := l\<rparr>"
    note p = passes_log [OF assms(1) full(3,5)]
    have "1 < unat (head_address (hlog_of ?s))" using full(7) assms(6) by simp
    from block_loop_rest [of t ?s n p K, OF in_loop_passes [OF p] assms(2-4) _ this] full(4)
    have "block_loop K t n kInvalidAddress p ?s = Inl Spins \<or>
      (\<exists>a s'. block_loop K t n kInvalidAddress p ?s = Inr (a, s') \<and> passes t ?s s' \<and>
         waiting (kv_log s') t = None \<and> fresh_block a n (kv_log ?s) (kv_log s'))" by simp
    then show ?thesis
      using full(1,2) passes_trans [OF p] fresh_block_grows [OF full(3)] by (auto simp: BlockAllocate_def)
  next
    case (fits l a p)
    let ?s = "s\<lparr>kv_log := l\<rparr>"
    note p = passes_log [OF assms(1) fits(3,5)]
    have "block_loop K t n a p ?s = Inr (a, ?s)"
      using block_loop_return [of ?s a n "kv_log s" K t p] fits(6) passes_inv [OF p] by simp
    then show ?thesis using fits p by (auto simp: BlockAllocate_def)
  qed
qed

section \<open>Writing a record\<close>

definition same_addresses :: "'r hlog \<Rightarrow> 'r hlog \<Rightarrow> bool" where
  "same_addresses h h' \<longleftrightarrow> head_address h' = head_address h \<and> hlog.begin_address h' = hlog.begin_address h \<and>
     read_only_address h' = read_only_address h \<and> safe_read_only_address h' = safe_read_only_address h \<and>
     tail_page_offset h' = tail_page_offset h \<and> buffer_size h' = buffer_size h"

lemma write_record_ok:
  assumes inv: "log_inv (kv_log s)" and b: "(a, n) \<in> set (blocks (kv_log s))" and hd: "unat (head_address (hlog_of s)) \<le> unat a"
  obtains h where "write_record a r s = Inr (put_hlog h s)" "log_inv ((kv_log s)\<lparr>log := h\<rparr>)"
    "same_addresses (hlog_of s) h" "Get a h = Inr (Some r)"
    "\<And>c m. (c, m) \<in> set (blocks (kv_log s)) \<Longrightarrow> c \<noteq> a \<Longrightarrow> unat (head_address (hlog_of s)) \<le> unat c \<Longrightarrow>
       Get c h = Get c (hlog_of s)"
proof -
  note bp = block_page [OF inv b]
  obtain f where f: "Page (page a) (hlog_of s) = Inr (Some f)" using Get_Inr [OF inv bp] by blast
  define h where "h = set_page (page a) (f(offset a \<mapsto> r)) (hlog_of s)"
  have w: "write_record a r s = Inr (put_hlog h s)" using f by (simp add: write_record_def put_record_def h_def)
  have li: "log_inv ((kv_log s)\<lparr>log := h\<rparr>)" unfolding h_def by (rule store_inv [OF inv])
  have sa: "same_addresses (hlog_of s) h" by (simp add: same_addresses_def h_def)
  have dw: "do_write a r (kv_log s) = Inr ((kv_log s)\<lparr>log := h\<rparr>)"
    using b hd f by (auto simp: do_write_def put_record_def h_def word_le_nat_alt image_iff intro: bexI [of _ "(a, n)"])
  have g: "Get a h = Inr (Some r)"
  proof -
    have "hlog_shape (hlog_of s)" using inv by (simp add: log_inv_def hlog_inv_def hlog_core_def)
    then have "frame (hlog_of s) (page a) < length (pages (hlog_of s))" using frame_less by (simp add: frame_mod hlog_shape_def)
    then show ?thesis using f by (simp add: Get_def Page_def h_def set_page_def frame_def split: if_splits)
  qed
  have "Get c h = Get c (hlog_of s)"
    if c: "(c, m) \<in> set (blocks (kv_log s))" "c \<noteq> a" "unat (head_address (hlog_of s)) \<le> unat c" for c m
  proof -
    have "order_ok h" using li by (simp add: log_inv_def hlog_inv_def hlog_core_def)
    then have "pg (safe_head_address h) \<le> pg c" using c(3) sa by (intro pg_mono) (simp add: order_ok_def same_addresses_def)
    then show ?thesis
      using do_write_others [OF inv dw _ block_page(1) [OF inv c(1)] _ block_page(2) [OF inv c(1)]] c(2) by simp
  qed
  then show thesis by (rule that [OF w li sa g])
qed

section \<open>The records of an entry\<close>

text \<open>The records of a chain that are in memory, the latest first, and the address where the chain leaves memory.\<close>

inductive rchain :: "('k, 'v) log_record hlog \<Rightarrow> address \<Rightarrow> (address \<times> ('k, 'v) log_record) list \<Rightarrow> address \<Rightarrow> bool" for h where
  stop: "unat a < unat (head_address h) \<Longrightarrow> rchain h a [] a"
| step: "unat (head_address h) \<le> unat a \<Longrightarrow> Get a h = Inr (Some r) \<Longrightarrow> unat (previous_address (rec_header r)) < unat a \<Longrightarrow>
    rchain h (previous_address (rec_header r)) rs z \<Longrightarrow> rchain h a ((a, r) # rs) z"

inductive_cases rchain_Nil: "rchain h a [] z"
inductive_cases rchain_Cons: "rchain h a (p # rs) z"

function chain_of :: "('k, 'v) log_record hlog \<Rightarrow> address \<Rightarrow> (address \<times> ('k, 'v) log_record) list \<times> address" where
  "chain_of h a =
     (if a < head_address h then ([], a)
      else case Get a h of
        Inr (Some r) \<Rightarrow>
          let b = previous_address (rec_header r) in
          if b < a then (case chain_of h b of (rs, z) \<Rightarrow> ((a, r) # rs, z)) else ([], a)
      | _ \<Rightarrow> ([], a))"
  by pat_completeness auto
termination
  by (relation "measure (\<lambda>(h, a). unat a)") (auto simp: word_less_nat_alt)

declare chain_of.simps [simp del]

lemma rchain_chain_of: "rchain h a rs z \<Longrightarrow> chain_of h a = (rs, z)"
proof (induction rule: rchain.induct)
  case (stop a)
  then show ?case by (simp add: chain_of.simps [of h a] word_less_nat_alt)
next
  case (step a r rs z)
  then show ?case by (simp add: chain_of.simps [of h a] word_less_nat_alt)
qed

lemma rchain_bounds:
  assumes "rchain h a rs z"
  shows "unat z < unat (head_address h)" "(b, r) \<in> set rs \<Longrightarrow> unat (head_address h) \<le> unat b \<and> unat b \<le> unat a \<and> Get b h = Inr (Some r)"
  using assms by (induction rule: rchain.induct) auto

text \<open>A chain is a matter of the records on it.\<close>

lemma rchain_cong:
  assumes "rchain h a rs z" "head_address h' = head_address h" "\<forall>(b, r) \<in> set rs. Get b h' = Get b h"
  shows "rchain h' a rs z"
  using assms by (induction rule: rchain.induct) (auto intro: rchain.intros)

text \<open>When the head moves on, the chain is cut there.\<close>

lemma rchain_cut:
  assumes "rchain h a rs z" "unat (head_address h) \<le> unat (head_address h')"
    "\<forall>(b, r) \<in> set rs. unat (head_address h') \<le> unat b \<longrightarrow> Get b h' = Get b h"
  shows "\<exists>rs' cut z'. rchain h' a rs' z' \<and> rs = rs' @ cut \<and> (cut = [] \<and> z' = z \<or> cut \<noteq> [] \<and> z' = fst (hd cut))"
  using assms
proof (induction rule: rchain.induct)
  case (stop a)
  then show ?case by (intro exI [of _ "[]"] exI [of _ a]) (auto intro: rchain.stop)
next
  case (step a r rs z)
  show ?case
  proof (cases "unat (head_address h') \<le> unat a")
    case True
    obtain rs' cut z' where c: "rchain h' (previous_address (rec_header r)) rs' z'" "rs = rs' @ cut"
      "cut = [] \<and> z' = z \<or> cut \<noteq> [] \<and> z' = fst (hd cut)"
      using step.IH step.prems by auto
    have "Get a h' = Inr (Some r)" using step.prems(2) True step.hyps(2) by simp
    then have "rchain h' a ((a, r) # rs') z'" using rchain.step [OF True _ step.hyps(3) c(1)] by simp
    then show ?thesis using c by (intro exI [of _ "(a, r) # rs'"] exI [of _ cut] exI [of _ z']) auto
  next
    case False
    then have "rchain h' a [] a" by (intro rchain.stop) simp
    then show ?thesis by (intro exI [of _ "[]"] exI [of _ "(a, r) # rs"] exI [of _ a]) simp
  qed
qed

section \<open>Searching a chain\<close>

definition found_at :: "'k \<Rightarrow> (address \<times> ('k, 'v) log_record) list \<Rightarrow> address \<Rightarrow> address" where
  "found_at k rs z = (case find (\<lambda>p. rec_key (snd p) = k) rs of Some p \<Rightarrow> fst p | None \<Rightarrow> z)"

lemma previous_address_bound: "unat (previous_address r) < 2 ^ 48"
  using unat_bits [of 48 0 r] by (simp add: previous_address_def field_def record_layout_def)

lemma entry_address_bound: "unat (entry_address e) < 2 ^ 48"
  using unat_bits [of 48 0 e] by (simp add: entry_address_def field_def entry_layout_def)

lemma trace_back_chain:
  assumes "rchain h a rs z" "unat a < 2 ^ 48" "unat (head_address h) < 2 ^ 48" "\<forall>b \<in> set seen. unat a < unat b"
  shows "trace_back (\<lambda>r. Inr (k = rec_key r)) (head_address h) h seen a = Inr (found_at k rs z)"
  using assms
proof (induction arbitrary: seen rule: rchain.induct)
  case (stop a)
  then show ?case by (subst trace_back.simps) (simp add: address_less_Inr found_at_def)
next
  case (step a r rs z)
  have ge: "address_ge a (head_address h) = Inr True" using step by (simp add: address_less_Inr)
  have "record_at a h = Inr r" using step.hyps(2) by (simp add: record_at_def)
  moreover have "a \<notin> set seen" using step.prems(3) by auto
  moreover have "\<forall>b \<in> set (a # seen). unat (previous_address (rec_header r)) < unat b" using step.hyps(3) step.prems(3) by auto
  ultimately show ?case
    using ge step.IH [OF previous_address_bound step.prems(2)] by (subst trace_back.simps) (simp add: found_at_def)
qed

lemma find_record_chain:
  assumes "rchain h a rs z" "unat a < 2 ^ 48" "unat (head_address h) < 2 ^ 48"
  shows "\<exists>ver. find_record k a h = Inr (found_at k rs z, ver)"
  using assms(1)
proof (cases rule: rchain.cases)
  case stop
  then show ?thesis using assms by (simp add: find_record_def address_less_Inr found_at_def)
next
  case (step r rs')
  then have "record_at a h = Inr r" "address_ge a (head_address h) = Inr True"
    using assms(2,3) by (simp_all add: record_at_def address_less_Inr)
  then show ?thesis
    using step trace_back_chain [OF step(5) previous_address_bound assms(3), of "[]" k]
    by (auto simp: find_record_def found_at_def TraceBackForKeyMatch_def Let_def)
qed

section \<open>The map that the store implements\<close>

text \<open>\<open>OnDisk\<close>: whether there is a record of the key can only be told by reading the disk.\<close>

datatype 'v lookup = Found 'v | OnDisk | Absent

definition lookup_chain :: "'k \<Rightarrow> ('k, 'v) log_record hlog \<Rightarrow> address \<Rightarrow> 'v lookup" where
  "lookup_chain k h a =
     (let (rs, z) = chain_of h a in
      case find (\<lambda>p. rec_key (snd p) = k) rs of Some p \<Rightarrow> Found (rec_value (snd p))
      | None \<Rightarrow> if hlog.begin_address h \<le> z then OnDisk else Absent)"

text \<open>The bucket and the tag of a key.\<close>

definition home :: "('k, 'v) key_class \<Rightarrow> index \<Rightarrow> 'k \<Rightarrow> u64 \<times> u16" where
  "home K x k = (case bucket_of_hash (GetHash K k) (state x (index_version x)) of Inr i \<Rightarrow> i | Inl _ \<Rightarrow> 0,
     hash_tag (GetHash K k))"

definition lookup :: "('k, 'v) key_class \<Rightarrow> index \<Rightarrow> ('k, 'v) log_record hlog \<Rightarrow> 'k \<Rightarrow> 'v lookup" where
  "lookup K x h k = (case index_map (index_version x) x (home K x k) of None \<Rightarrow> Absent | Some a \<Rightarrow> lookup_chain k h a)"

text \<open>\<open>B\<close> is a set of blocks that contains all records of the chains in memory.\<close>

definition chain_ok :: "('k, 'v) key_class \<Rightarrow> index \<Rightarrow> ('k, 'v) log_record hlog \<Rightarrow> address set \<Rightarrow> u64 \<times> u16 \<Rightarrow> address \<Rightarrow> bool" where
  "chain_ok K x h B q a \<longleftrightarrow> (\<exists>rs z. rchain h a rs z \<and> (\<forall>(b, r) \<in> set rs. b \<in> B \<and> home K x (rec_key r) = q))"

definition chains_ok :: "('k, 'v) key_class \<Rightarrow> index \<Rightarrow> ('k, 'v) log_record hlog \<Rightarrow> address set \<Rightarrow> bool" where
  "chains_ok K x h B \<longleftrightarrow> (\<forall>q a. index_map (index_version x) x q = Some a \<longrightarrow> chain_ok K x h B q a)"

lemma chains_okD: "chains_ok K x h B \<Longrightarrow> index_map (index_version x) x q = Some a \<Longrightarrow> chain_ok K x h B q a"
  unfolding chains_ok_def by blast

lemma lookup_rchain:
  "rchain h a rs z \<Longrightarrow> lookup_chain k h a =
     (case find (\<lambda>p. rec_key (snd p) = k) rs of Some p \<Rightarrow> Found (rec_value (snd p))
      | None \<Rightarrow> if hlog.begin_address h \<le> z then OnDisk else Absent)"
  by (simp add: lookup_chain_def rchain_chain_of)

text \<open>Passing time: a key keeps its value unless its record has left memory.\<close>

lemma chain_grows:
  assumes g: "log_grows l l'" and B: "B \<subseteq> fst ` set (blocks l)" and ok: "chain_ok K x (log l) B q a"
    and b: "unat (hlog.begin_address (log l)) \<le> unat (head_address (log l))"
  shows "chain_ok K x (log l') B q a"
    and "lookup_chain k (log l') a = lookup_chain k (log l) a \<or> lookup_chain k (log l') a = OnDisk"
    and "head_address (log l') = head_address (log l) \<Longrightarrow> lookup_chain k (log l') a = lookup_chain k (log l) a"
proof -
  obtain rs z where rs: "rchain (log l) a rs z" "\<forall>(b, r) \<in> set rs. b \<in> B \<and> home K x (rec_key r) = q"
    using ok by (auto simp: chain_ok_def)
  have gt: "\<forall>(b, r) \<in> set rs. unat (head_address (log l')) \<le> unat b \<longrightarrow> Get b (log l') = Get b (log l)"
    using g B rs(2) by (fastforce simp: log_grows_def)
  have bg: "hlog.begin_address (log l') = hlog.begin_address (log l)" "unat (head_address (log l)) \<le> unat (head_address (log l'))"
    using g by (simp_all add: log_grows_def)
  obtain rs' cut z' where c: "rchain (log l') a rs' z'" "rs = rs' @ cut" "cut = [] \<and> z' = z \<or> cut \<noteq> [] \<and> z' = fst (hd cut)"
    using rchain_cut [OF rs(1) bg(2) gt] by blast
  then show "chain_ok K x (log l') B q a" using rs(2) by (auto simp: chain_ok_def)
  have z: "cut \<noteq> [] \<Longrightarrow> hlog.begin_address (log l') \<le> z'"
  proof -
    assume "cut \<noteq> []"
    then have "hd cut \<in> set rs" "z' = fst (hd cut)" using c(2,3) by auto
    then have "(z', snd (hd cut)) \<in> set rs" by simp
    then have "unat (head_address (log l)) \<le> unat z'" using rchain_bounds(2) [OF rs(1)] by blast
    then show ?thesis using b bg(1) by (simp add: word_le_nat_alt)
  qed
  note L = lookup_rchain [OF c(1), of k] lookup_rchain [OF rs(1), of k]
  show "lookup_chain k (log l') a = lookup_chain k (log l) a \<or> lookup_chain k (log l') a = OnDisk"
    unfolding L using c(2,3) z bg(1) by (auto simp: find_append split: option.splits)
  assume "head_address (log l') = head_address (log l)"
  then have "rchain (log l') a rs z" using gt rchain_bounds(2) [OF rs(1)] by (intro rchain_cong [OF rs(1)]) fastforce+
  then show "lookup_chain k (log l') a = lookup_chain k (log l) a" using L(2) bg(1) by (simp add: lookup_rchain)
qed

lemma chains_grow:
  assumes "log_grows l l'" "B \<subseteq> fst ` set (blocks l)" "chains_ok K x (log l) B"
    "unat (hlog.begin_address (log l)) \<le> unat (head_address (log l))"
  shows "chains_ok K x (log l') B"
    and "lookup K x (log l') k = lookup K x (log l) k \<or> lookup K x (log l') k = OnDisk"
    and "head_address (log l') = head_address (log l) \<Longrightarrow> lookup K x (log l') k = lookup K x (log l) k"
proof -
  have c: "chain_ok K x (log l) B q a" if "index_map (index_version x) x q = Some a" for q a
    by (rule chains_okD [OF assms(3) that])
  note g = chain_grows [OF assms(1,2) c assms(4)]
  show "chains_ok K x (log l') B" using g(1) by (auto simp: chains_ok_def)
  show "lookup K x (log l') k = lookup K x (log l) k \<or> lookup K x (log l') k = OnDisk"
    using g(2) by (auto simp: lookup_def split: option.splits)
  show "head_address (log l') = head_address (log l) \<Longrightarrow> lookup K x (log l') k = lookup K x (log l) k"
    using g(3) by (auto simp: lookup_def split: option.splits)
qed

text \<open>Writing outside of the chains changes nothing.\<close>

lemma chains_write:
  assumes "chains_ok K x h B" "same_addresses h h'" "\<And>b r. b \<in> B \<Longrightarrow> unat (head_address h) \<le> unat b \<Longrightarrow> Get b h' = Get b h"
  shows "chains_ok K x h' B" "lookup K x h' k = lookup K x h k"
proof -
  have c: "rchain h' a rs z" if "rchain h a rs z" "\<forall>(b, r) \<in> set rs. b \<in> B \<and> home K x (rec_key r) = q" for a rs z q
    using rchain_cong [OF that(1), of h'] rchain_bounds(2) [OF that(1)] assms(2,3) that(2) by (fastforce simp: same_addresses_def)
  show "chains_ok K x h' B" using assms(1) c unfolding chains_ok_def chain_ok_def by meson
  have "lookup_chain k h' a = lookup_chain k h a" if co: "chain_ok K x h B (home K x k) a" for a
  proof -
    obtain rs z where rs: "rchain h a rs z" "\<forall>(b, r) \<in> set rs. b \<in> B \<and> home K x (rec_key r) = home K x k"
      using co unfolding chain_ok_def by blast
    show ?thesis
      unfolding lookup_rchain [OF rs(1)] lookup_rchain [OF c [OF rs]] using assms(2) by (simp add: same_addresses_def)
  qed
  then show "lookup K x h' k = lookup K x h k"
    using chains_okD [OF assms(1), of "home K x k"] by (auto simp: lookup_def split: option.splits)
qed

text \<open>Changing the entry of one tag.\<close>

lemma home_same_but: "same_but v x x' i tag \<Longrightarrow> v = index_version x \<Longrightarrow> home K x' = home K x"
  by (intro ext) (simp add: home_def same_but_def bucket_of_hash_def table_size_of_def bucket_number_def)

lemma chain_ok_home: "home K x' = home K x \<Longrightarrow> chain_ok K x' h B q a = chain_ok K x h B q a"
  by (simp add: chain_ok_def)

lemma chain_ok_mono: "chain_ok K x h B q a \<Longrightarrow> B \<subseteq> B' \<Longrightarrow> chain_ok K x h B' q a"
  by (fastforce simp: chain_ok_def)

lemma chains_ok_mono: "chains_ok K x h B \<Longrightarrow> B \<subseteq> B' \<Longrightarrow> chains_ok K x h B'"
  unfolding chains_ok_def using chain_ok_mono by blast

text \<open>Linking a new record in front of a chain.\<close>

lemma chains_install:
  assumes ok: "chains_ok K x h B" and sb: "same_but v x x' i tag" "v = index_version x" "unat i < bucket_number v x"
    and q: "home K x k = (i, tag)" and e: "index_map v x (i, tag) = Some a0" "index_map v x' (i, tag) = Some a"
    and r: "Get a h = Inr (Some r)" "rec_key r = k" "previous_address (rec_header r) = a0"
    and a: "unat (head_address h) \<le> unat a" "unat a0 < unat a"
  shows "chains_ok K x' h (insert a B)" "lookup K x' h k' = (if k' = k then Found (rec_value r) else lookup K x h k')"
proof -
  have hm: "home K x' = home K x" by (rule home_same_but [OF sb(1,2)])
  have v': "index_version x' = v" using sb(1,2) by (simp add: same_but_def)
  have im: "index_map v x' = (index_map v x)((i, tag) \<mapsto> a)" using same_but_map [OF sb(1,3)] e(2) by simp
  obtain rs z where rs: "rchain h a0 rs z" "\<forall>(b, r) \<in> set rs. b \<in> B \<and> home K x (rec_key r) = (i, tag)"
    using ok e(1) sb(2) unfolding chains_ok_def chain_ok_def by blast
  have new: "rchain h a ((a, r) # rs) z" using rchain.step [OF a(1) r(1)] r(3) a(2) rs(1) by simp
  then have "chain_ok K x h (insert a B) (i, tag) a" using rs(2) q r(2) by (fastforce simp: chain_ok_def)
  then have "chain_ok K x h (insert a B) p b" if "index_map v x' p = Some b" for p b
    using that im sb(2) chain_ok_mono [OF chains_okD [OF ok], of p b "insert a B"] by (auto split: if_splits)
  then show "chains_ok K x' h (insert a B)" unfolding chains_ok_def chain_ok_home [OF hm] v' by blast
  have "lookup_chain k' h a = (if k' = k then Found (rec_value r) else lookup_chain k' h a0)"
    unfolding lookup_rchain [OF new] lookup_rchain [OF rs(1)] using r(2) by simp
  then show "lookup K x' h k' = (if k' = k then Found (rec_value r) else lookup K x h k')"
    using im e(1) q sb(2) by (auto simp: lookup_def hm v' split: option.splits)
qed

text \<open>Changing the value of a record in place.\<close>

definition replace_record :: "address \<Rightarrow> 'r \<Rightarrow> address \<times> 'r \<Rightarrow> address \<times> 'r" where
  "replace_record b r p = (if fst p = b then (b, r) else p)"

lemma rchain_replace:
  assumes "rchain h a rs z" "head_address h' = head_address h" "Get b h' = Inr (Some r')"
    "\<forall>(c, s) \<in> set rs. c \<noteq> b \<longrightarrow> Get c h' = Get c h" "\<forall>(c, s) \<in> set rs. c = b \<longrightarrow> rec_header r' = rec_header s"
  shows "rchain h' a (map (replace_record b r') rs) z"
  using assms
proof (induction rule: rchain.induct)
  case (stop a)
  then show ?case by (simp add: rchain.stop)
next
  case (step a r rs z)
  have IH: "rchain h' (previous_address (rec_header r)) (map (replace_record b r') rs) z"
    using step.IH step.prems by auto
  show ?case
  proof (cases "a = b")
    case True
    then have "rec_header r' = rec_header r" using step.prems(4) by auto
    then show ?thesis using rchain.step [of h' a r'] step True IH by (simp add: replace_record_def)
  next
    case False
    then show ?thesis using rchain.step [of h' a r] step IH by (simp add: replace_record_def)
  qed
qed

lemma find_replace:
  assumes "find (\<lambda>p. rec_key (snd p) = k) rs = Some (b, r)" "rec_key r' = k" "\<forall>(c, s) \<in> set rs. c = b \<longrightarrow> s = r"
  shows "find (\<lambda>p. rec_key (snd p) = k') (map (replace_record b r') rs) =
    (if k' = k then Some (b, r') else find (\<lambda>p. rec_key (snd p) = k') rs)"
proof -
  have rk: "rec_key r = k" using find_SomeD [OF assms(1)] by simp
  then have "\<forall>p \<in> set rs. (rec_key (snd (replace_record b r' p)) = k') = (rec_key (snd p) = k')"
    using assms(2,3) by (auto simp: replace_record_def)
  then have "find (\<lambda>p. rec_key (snd p) = k') (map (replace_record b r') rs) =
      map_option (replace_record b r') (find (\<lambda>p. rec_key (snd p) = k') rs)"
    unfolding find_map by (intro arg_cong [where f = "map_option (replace_record b r')"] find_cong) auto
  moreover have "map_option (replace_record b r') (find (\<lambda>p. rec_key (snd p) = k') rs) = find (\<lambda>p. rec_key (snd p) = k') rs"
    if k: "k' \<noteq> k"
  proof (cases "find (\<lambda>p. rec_key (snd p) = k') rs")
    case (Some p)
    then have "p \<in> set rs" "rec_key (snd p) = k'" using find_SomeD by fastforce+
    then have "fst p \<noteq> b" using assms(3) rk k by (cases p) auto
    then show ?thesis using Some by (simp add: replace_record_def)
  qed simp
  ultimately show ?thesis using assms(1) by (auto simp: replace_record_def)
qed

lemma chains_replace:
  assumes ok: "chains_ok K x h B" and im: "index_map (index_version x) x (home K x k) = Some a"
    and ch: "rchain h a rs z" "find (\<lambda>p. rec_key (snd p) = k) rs = Some (b, r)"
    and sa: "same_addresses h h'" and g: "Get b h' = Inr (Some r')" "rec_header r' = rec_header r" "rec_key r' = rec_key r"
    and o: "\<And>c. c \<in> B \<Longrightarrow> c \<noteq> b \<Longrightarrow> unat (head_address h) \<le> unat c \<Longrightarrow> Get c h' = Get c h"
  shows "chains_ok K x h' B" "lookup K x h' k' = (if k' = k then Found (rec_value r') else lookup K x h k')"
proof -
  have hd: "head_address h' = head_address h" and bg: "hlog.begin_address h' = hlog.begin_address h"
    using sa by (simp_all add: same_addresses_def)
  have br: "(b, r) \<in> set rs" "rec_key r = k" using find_SomeD [OF ch(2)] by auto
  have one: "s = r" if c: "rchain h a' rs' z'" "(b, s) \<in> set rs'" for a' rs' z' s
    using rchain_bounds(2) [OF c] rchain_bounds(2) [OF ch(1) br(1)] by simp
  have rep: "rchain h' a' (map (replace_record b r') rs') z'"
    if c: "rchain h a' rs' z'" "\<forall>(c, s) \<in> set rs'. c \<in> B \<and> home K x (rec_key s) = q" for a' rs' z' q
  proof (rule rchain_replace [OF c(1) hd g(1)])
    show "\<forall>(c, s) \<in> set rs'. c \<noteq> b \<longrightarrow> Get c h' = Get c h"
      using c(2) o rchain_bounds(2) [OF c(1)] by fastforce
    show "\<forall>(c, s) \<in> set rs'. c = b \<longrightarrow> rec_header r' = rec_header s" using one [OF c(1)] g(2) by blast
  qed
  have keys: "\<forall>(c, s) \<in> set (map (replace_record b r') rs'). c \<in> B \<and> home K x (rec_key s) = q"
    if c: "rchain h a' rs' z'" "\<forall>(c, s) \<in> set rs'. c \<in> B \<and> home K x (rec_key s) = q" for a' rs' z' q
    using c(2) one [OF c(1)] g(3) by (fastforce simp: replace_record_def)
  have "chain_ok K x h' B q a'" if im': "index_map (index_version x) x q = Some a'" for q a'
  proof -
    obtain rs' z' where c: "rchain h a' rs' z'" "\<forall>(c, s) \<in> set rs'. c \<in> B \<and> home K x (rec_key s) = q"
      using chains_okD [OF ok im'] unfolding chain_ok_def by blast
    show ?thesis unfolding chain_ok_def using rep [OF c] keys [OF c] by blast
  qed
  then show "chains_ok K x h' B" unfolding chains_ok_def by blast
  show "lookup K x h' k' = (if k' = k then Found (rec_value r') else lookup K x h k')"
  proof (cases "home K x k' = home K x k")
    case True
    obtain rs' z' where c: "rchain h a rs' z'" "\<forall>(c, s) \<in> set rs'. c \<in> B \<and> home K x (rec_key s) = home K x k"
      using chains_okD [OF ok im] unfolding chain_ok_def by blast
    have "rs' = rs" using rchain_chain_of [OF c(1)] rchain_chain_of [OF ch(1)] by simp
    note q = c(2) [unfolded this]
    have "find (\<lambda>p. rec_key (snd p) = k') (map (replace_record b r') rs) =
        (if k' = k then Some (b, r') else find (\<lambda>p. rec_key (snd p) = k') rs)"
      using find_replace [OF ch(2)] g(3) br(2) one [OF ch(1)] by blast
    then show ?thesis
      using im True lookup_rchain [OF rep [OF ch(1) q], of k'] lookup_rchain [OF ch(1), of k'] bg by (simp add: lookup_def)
  next
    case False
    then have "k' \<noteq> k" by auto
    moreover have "lookup_chain k' h' a' = lookup_chain k' h a'"
      if im': "index_map (index_version x) x (home K x k') = Some a'" for a'
    proof -
      obtain rs' z' where c: "rchain h a' rs' z'" "\<forall>(c, s) \<in> set rs'. c \<in> B \<and> home K x (rec_key s) = home K x k'"
        using chains_okD [OF ok im'] unfolding chain_ok_def by blast
      then have "\<forall>(c, s) \<in> set rs'. c \<noteq> b" using one [OF c(1)] br(2) False by fastforce
      then have "map (replace_record b r') rs' = rs'" by (intro map_idI) (auto simp: replace_record_def)
      then show ?thesis using lookup_rchain [OF rep [OF c], of k'] lookup_rchain [OF c(1), of k'] bg by simp
    qed
    ultimately show ?thesis by (simp add: lookup_def split: option.split)
  qed
qed

section \<open>The invariant of the store\<close>

definition kv_inv :: "('k, 'v) key_class \<Rightarrow> nat \<Rightarrow> ('k, 'v) store \<Rightarrow> bool" where
  "kv_inv K t s \<longleftrightarrow> in_loop t s \<and> t < 96 \<and> waiting (kv_log s) t = None \<and>
     index_ok (index_version (kv_index s)) (kv_index s) \<and> index_version (kv_index s) \<le> 1 \<and>
     1 < unat (hlog.begin_address (hlog_of s)) \<and>
     unat (hlog.begin_address (hlog_of s)) \<le> unat (head_address (hlog_of s)) \<and>
     chains_ok K (kv_index s) (hlog_of s) (fst ` set (blocks (kv_log s)))"

definition kv_lookup :: "('k, 'v) key_class \<Rightarrow> ('k, 'v) store \<Rightarrow> 'k \<Rightarrow> 'v lookup" where
  "kv_lookup K s = lookup K (kv_index s) (hlog_of s)"

text \<open>There is space for one more overflow bucket.\<close>

definition kv_space :: "('k, 'v) store \<Rightarrow> bool" where
  "kv_space s \<longleftrightarrow> ix_room (index_version (kv_index s)) (kv_index s)"

lemma kv_invD:
  assumes "kv_inv K t s"
  shows "log_inv (kv_log s)" "rest_ok t s" "kv_room s" "ctx_phase (ctx s) = REST" "lock_size (kv_locks s) = 0"
    "unat (head_address (hlog_of s)) < 2 ^ 48" "unat (hlog.begin_address (hlog_of s)) < 2 ^ 48"
    "1 < unat (head_address (hlog_of s))"
  using assms head_bounds(1) [of "kv_log s"] by (auto simp: kv_inv_def in_loop_def rest_ok_def)

lemma home_bucket:
  assumes "index_ok (index_version x) x"
  shows "\<exists>i. bucket_of_hash (GetHash K k) (state x (index_version x)) = Inr i \<and> unat i < bucket_number (index_version x) x \<and>
    home K x k = (i, hash_tag (GetHash K k))"
  using index_ok_bucket [OF assms, of "GetHash K k"] by (auto simp: home_def)

lemma kv_chain:
  assumes "kv_inv K t s" "index_map (index_version (kv_index s)) (kv_index s) q = Some a"
  obtains rs z where "rchain (hlog_of s) a rs z"
    "\<forall>(b, r) \<in> set rs. b \<in> fst ` set (blocks (kv_log s)) \<and> home K (kv_index s) (rec_key r) = q"
proof -
  have "chains_ok K (kv_index s) (hlog_of s) (fst ` set (blocks (kv_log s)))" using assms(1) by (simp add: kv_inv_def)
  from chains_okD [OF this assms(2)] show thesis unfolding chain_ok_def using that by blast
qed

text \<open>What the search for a key finds.\<close>

lemma kv_lookup_found:
  assumes "rchain (hlog_of s) a rs z" "index_map (index_version (kv_index s)) (kv_index s) (home K (kv_index s) k) = Some a"
  shows "kv_lookup K s k = (case find (\<lambda>p. rec_key (snd p) = k) rs of Some p \<Rightarrow> Found (rec_value (snd p))
    | None \<Rightarrow> if unat (hlog.begin_address (hlog_of s)) \<le> unat z then OnDisk else Absent)"
  using assms by (simp add: kv_lookup_def lookup_def lookup_rchain word_le_nat_alt)

section \<open>Reading\<close>

lemma InternalRead_rest:
  assumes inv: "kv_inv K t s"
  shows "case kv_lookup K s (op_key p) of
      Found v \<Rightarrow> InternalRead K t p s = Inr (SUCCESS, p\<lparr>got := Some v\<rparr>, s)
    | Absent \<Rightarrow> InternalRead K t p s = Inr (NOT_FOUND, p, s)
    | OnDisk \<Rightarrow> \<exists>a e. InternalRead K t p s = Inr (RECORD_ON_DISK, go_async REST (ctx_version (ctx s)) a e p, s) \<and>
        hlog.begin_address (hlog_of s) \<le> a \<and> a < head_address (hlog_of s)"
proof -
  let ?x = "kv_index s" and ?h = "hlog_of s" and ?k = "op_key p"
  let ?v = "index_version ?x" and ?hash = "GetHash K ?k"
  note d = kv_invD [OF inv]
  have ok: "index_ok ?v ?x" using inv by (simp add: kv_inv_def)
  obtain C where C: "struct_ok ?v ?x C" using ok by (auto simp: index_ok_def)
  obtain i where i: "bucket_of_hash ?hash (state ?x ?v) = Inr i" "unat i < bucket_number ?v ?x" "home K ?x ?k = (i, hash_tag ?hash)"
    using home_bucket [OF ok, of K ?k] by blast
  have fe: "FindEntry ?hash ?x = Inr (map_option fst (entry_in ?v ?x i (hash_tag ?hash)))"
    by (rule FindEntry_entry_in [OF C refl i(1,2)])
  have he: "heavy_enter K t (ctx_phase (ctx s)) s = Inr s" using d(4) by (simp add: heavy_enter_def)
  show ?thesis
  proof (cases "entry_in ?v ?x i (hash_tag ?hash)")
    case None
    then have "kv_lookup K s ?k = Absent" using i(3) by (simp add: kv_lookup_def lookup_def index_map_def)
    then show ?thesis using None fe he by (simp add: InternalRead_def)
  next
    case (Some se)
    obtain sl e where se: "se = (sl, e)" by (cases se)
    have le: "load_entry ?v sl ?x = Inr e" using entry_inD(3) [OF C i(2)] Some se by simp
    have im: "index_map ?v ?x (home K ?x ?k) = Some (entry_address e)" using Some se i(3) by (simp add: index_map_def)
    obtain rs z where rs: "rchain ?h (entry_address e) rs z" using kv_chain [OF inv im] by blast
    obtain ver where fr: "find_record ?k (entry_address e) ?h = Inr (found_at ?k rs z, ver)"
      using find_record_chain [OF rs entry_address_bound d(6)] by blast
    let ?a = "found_at ?k rs z"
    have zb: "unat z < unat (head_address ?h)" using rchain_bounds(1) [OF rs] .
    have eq: "InternalRead K t p s = bindR (address_ge ?a (safe_read_only_address ?h)) (\<lambda>fuzzy.
               bindR (address_ge ?a (head_address ?h)) (\<lambda>in_memory.
               bindR (address_ge ?a (hlog.begin_address ?h)) (\<lambda>on_disk.
                 if fuzzy \<or> in_memory
                 then bindR (record_at ?a ?h) (\<lambda>r. Inr (SUCCESS, p\<lparr>got := Some (rec_value r)\<rparr>, s))
                 else if on_disk then Inr (RECORD_ON_DISK, go_async REST (ctx_version (ctx s)) ?a e p, s)
                 else Inr (NOT_FOUND, p, s))))"
      using fe Some se he le fr d(4) by (simp add: InternalRead_def Let_def)
    show ?thesis
    proof (cases "find (\<lambda>p. rec_key (snd p) = ?k) rs")
      case (Some q)
      then have "q \<in> set rs" using find_SomeD by fastforce
      then have q: "unat (head_address ?h) \<le> unat (fst q)" "Get (fst q) ?h = Inr (Some (snd q))" "unat (fst q) \<le> unat (entry_address e)"
        using rchain_bounds(2) [OF rs, of "fst q" "snd q"] by simp_all
      have "?a = fst q" using Some by (simp add: found_at_def)
      moreover have "kv_lookup K s ?k = Found (rec_value (snd q))" using kv_lookup_found [OF rs im] Some by simp
      moreover have "unat (fst q) < 2 ^ 48" using q(3) entry_address_bound [of e] by simp
      ultimately show ?thesis
        unfolding eq using q d(6,7) head_bounds(3) [OF d(1)] by (simp add: address_less_Inr record_at_def)
    next
      case None
      then have a: "?a = z" by (simp add: found_at_def)
      have z48: "unat z < 2 ^ 48" using zb d(6) by simp
      have "\<not> unat (safe_read_only_address ?h) \<le> unat z" "\<not> unat (head_address ?h) \<le> unat z"
        using zb head_bounds(4) [OF d(1)] by simp_all
      then show ?thesis
        unfolding eq a using kv_lookup_found [OF rs im] None zb z48 d(6,7) head_bounds(3) [OF d(1)]
        by (auto simp: address_less_Inr word_le_nat_alt word_less_nat_alt)
    qed
  qed
qed

section \<open>The entry of a key\<close>

lemma kv_inv_index:
  assumes inv: "kv_inv K t s" and x: "index_ok (index_version (kv_index s)) x'" "same_but (index_version (kv_index s)) (kv_index s) x' i tag"
    and c: "chains_ok K x' (hlog_of s) (fst ` set (blocks (kv_log s)))"
  shows "kv_inv K t (s\<lparr>kv_index := x'\<rparr>)"
proof -
  have "index_version x' = index_version (kv_index s)" using x(2) by (simp add: same_but_def)
  then show ?thesis using inv x(1) c by (simp add: kv_inv_def in_loop_def rest_ok_def kv_room_def turns_def)
qed

text \<open>Creating the entry of a key changes no value: it leads to the invalid address.\<close>

lemma find_or_create_rest:
  fixes K :: "('k, 'v) key_class" and k :: 'k
  assumes inv: "kv_inv K t s" and sp: "kv_space s"
  defines "hash \<equiv> GetHash K k" and "v \<equiv> index_version (kv_index s)"
  obtains sl e x i where "FindOrCreateEntry t (safe_epoch s) hash (kv_index s) = Inr (sl, e, x)"
    "kv_inv K t (s\<lparr>kv_index := x\<rparr>)" "\<And>k'. kv_lookup K (s\<lparr>kv_index := x\<rparr>) k' = kv_lookup K s k'"
    "index_version x = v" "unat i < bucket_number v x" "home K x k = (i, hash_tag hash)" "entry_in v x i (hash_tag hash) = Some (sl, e)"
proof -
  let ?x = "kv_index s"
  have ok: "index_ok v ?x" "v \<le> 1" and rm: "ix_room v ?x" using inv sp by (simp_all add: kv_inv_def kv_space_def v_def)
  obtain C where C: "struct_ok v ?x C" using ok by (auto simp: index_ok_def)
  obtain i where i: "bucket_of_hash hash (state ?x v) = Inr i" "unat i < bucket_number v ?x" "home K ?x k = (i, hash_tag hash)"
    using home_bucket [of ?x K k] ok(1) unfolding hash_def v_def by blast
  show thesis
  proof (cases "entry_in v ?x i (hash_tag hash)")
    case (Some se)
    obtain sl e where se: "se = (sl, e)" by (cases se)
    have "FindOrCreateEntry t (safe_epoch s) hash ?x = Inr (sl, e, ?x)"
      by (rule FindOrCreateEntry_found(1) [OF C v_def [THEN meta_eq_to_obj_eq] ok(2) i(1,2)]) (simp add: Some se)
    then show thesis using that [of sl e ?x i] inv i Some se by (simp add: v_def)
  next
    case None
    let ?e = "HashBucketEntry kInvalidAddress (hash_tag hash) False"
    obtain sl x where x: "FindOrCreateEntry t (safe_epoch s) hash ?x = Inr (sl, ?e, x)" "index_ok v x"
      "entry_in v x i (hash_tag hash) = Some (sl, ?e)" "same_but v ?x x i (hash_tag hash)"
      using FindOrCreateEntry_created [OF ok(1) v_def [THEN meta_eq_to_obj_eq] ok(2) rm i(1,2) None, of t "safe_epoch s"] by blast
    have v': "index_version x = v" "bucket_number v x = bucket_number v ?x" using x(4) by (simp_all add: same_but_def v_def)
    have hm: "home K x = home K ?x" using home_same_but [OF x(4)] by (simp add: v_def)
    have ea: "entry_address ?e = kInvalidAddress"
      using bucket_entry_facts(3) [OF hash_tag_bound, of kInvalidAddress hash] by (simp add: kInvalidAddress_def)
    have im: "index_map v x = (index_map v ?x)((i, hash_tag hash) \<mapsto> kInvalidAddress)"
      using same_but_map [OF x(4) i(2)] x(3) ea by (simp add: index_map_def)
    have inv1: "rchain (hlog_of s) kInvalidAddress [] kInvalidAddress"
      using kv_invD(8) [OF inv] by (intro rchain.stop) (simp add: kInvalidAddress_def)
    then have ci: "chain_ok K x (hlog_of s) B q kInvalidAddress" for B q unfolding chain_ok_def by (intro exI conjI) auto
    have old: "chains_ok K ?x (hlog_of s) (fst ` set (blocks (kv_log s)))" using inv by (simp add: kv_inv_def)
    have "chain_ok K x (hlog_of s) (fst ` set (blocks (kv_log s))) q a" if "index_map v x q = Some a" for q a
      using that im ci chains_okD [OF old, of q a] unfolding chain_ok_home [OF hm] v_def by (auto split: if_splits)
    then have co: "chains_ok K x (hlog_of s) (fst ` set (blocks (kv_log s)))" unfolding chains_ok_def v' by blast
    have "kv_lookup K (s\<lparr>kv_index := x\<rparr>) k' = kv_lookup K s k'" for k'
    proof (cases "home K ?x k' = (i, hash_tag hash)")
      case True
      have b: "\<not> hlog.begin_address (hlog_of s) \<le> kInvalidAddress"
        using inv by (simp add: kv_inv_def kInvalidAddress_def word_le_nat_alt)
      have "index_map v ?x (i, hash_tag hash) = None" using None by (simp add: index_map_def)
      then show ?thesis
        using True im lookup_rchain [OF inv1, of k'] b by (simp add: kv_lookup_def lookup_def hm v' v_def)
    next
      case False
      then show ?thesis using im by (simp add: kv_lookup_def lookup_def hm v' v_def)
    qed
    then show thesis
      using that [OF x(1) _ _ v'(1) _ _ x(3)] kv_inv_index [OF inv _ _ co] x(2,4) i(2,3) v'(2) hm unfolding v_def by simp
  qed
qed

section \<open>Appending a record\<close>

text \<open>What an operation on the store may change besides its key: records leave memory.\<close>

definition demoted :: "('k, 'v) key_class \<Rightarrow> ('k, 'v) store \<Rightarrow> ('k, 'v) store \<Rightarrow> 'k \<Rightarrow> bool" where
  "demoted K s s' k \<longleftrightarrow> (kv_lookup K s' k = kv_lookup K s k \<or> kv_lookup K s' k = OnDisk) \<and>
     (head_address (hlog_of s') = head_address (hlog_of s) \<longrightarrow> kv_lookup K s' k = kv_lookup K s k)"

definition same_session :: "('k, 'v) store \<Rightarrow> ('k, 'v) store \<Rightarrow> bool" where
  "same_session s s' \<longleftrightarrow> contexts s' = contexts s \<and> cur s' = cur s \<and> disk_reads s' = disk_reads s \<and>
     num_pending_ios s' = num_pending_ios s \<and> safe_epoch s' = safe_epoch s \<and>
     unat (head_address (hlog_of s)) \<le> unat (head_address (hlog_of s'))"

text \<open>Block \<open>a\<close> of \<open>s1\<close> was allocated by an operation that started in \<open>s\<close> and is not part of any chain.\<close>

definition reserved :: "('k, 'v) key_class \<Rightarrow> nat \<Rightarrow> ('k, 'v) store \<Rightarrow> ('k, 'v) store \<Rightarrow> address \<Rightarrow> bool" where
  "reserved K t s s1 a \<longleftrightarrow> in_loop t s1 \<and> waiting (kv_log s1) t = None \<and> kv_index s1 = kv_index s \<and> same_session s s1 \<and>
     chains_ok K (kv_index s) (hlog_of s1) (fst ` set (blocks (kv_log s))) \<and>
     fst ` set (blocks (kv_log s)) \<subseteq> fst ` set (blocks (kv_log s1)) \<and> a \<in> fst ` set (blocks (kv_log s1)) \<and>
     (\<forall>b \<in> fst ` set (blocks (kv_log s)). unat b < unat a) \<and> unat (head_address (hlog_of s1)) \<le> unat a \<and>
     hlog.begin_address (hlog_of s1) = hlog.begin_address (hlog_of s) \<and> (\<forall>k. demoted K s s1 k) \<and>
     (\<forall>b \<in> fst ` set (blocks (kv_log s)). unat (head_address (hlog_of s1)) \<le> unat b \<longrightarrow> Get b (hlog_of s1) = Get b (hlog_of s))"

lemma BlockAllocate_reserved:
  assumes inv: "kv_inv K t s" and n: "0 < n" "n \<le> kMaxOffset"
  shows "BlockAllocate K t n s = Inl Spins \<and> \<not> fits n (hlog_of s) \<or>
    (\<exists>a s1. BlockAllocate K t n s = Inr (a, s1) \<and> reserved K t s s1 a \<and>
       (fits n (hlog_of s) \<longrightarrow> stays n (hlog_of s) (hlog_of s1)))"
proof (cases "\<exists>e. BlockAllocate K t n s = Inl e")
  case True
  then show ?thesis using BlockAllocate_rest [OF _ _ n, of t s K] inv by (fastforce simp: kv_inv_def)
next
  case False
  then obtain a s1 where s1: "BlockAllocate K t n s = Inr (a, s1)" "passes t s s1" "waiting (kv_log s1) t = None"
    "fresh_block a n (kv_log s) (kv_log s1)" "fits n (hlog_of s) \<longrightarrow> stays n (hlog_of s) (hlog_of s1)"
    using BlockAllocate_rest [OF _ _ n, of t s K] inv kv_invD(8) [OF inv] by (auto simp: kv_inv_def)
  have g: "log_grows (kv_log s) (kv_log s1)" using s1(2) by (simp add: passes_def)
  have c: "chains_ok K (kv_index s) (hlog_of s) (fst ` set (blocks (kv_log s)))"
    "unat (hlog.begin_address (hlog_of s)) \<le> unat (head_address (hlog_of s))" using inv by (simp_all add: kv_inv_def)
  note cg = chains_grow [OF g subset_refl c]
  have "unat (head_address (hlog_of s1)) \<le> unat a"
    using s1(4) head_bounds(4,5) [OF passes_inv [OF s1(2)]] by (simp add: fresh_block_def)
  moreover have "\<forall>k. demoted K s s1 k"
    using cg(2,3) s1(2) by (auto simp: demoted_def kv_lookup_def passes_def)
  moreover have "\<forall>b \<in> fst ` set (blocks (kv_log s)). unat (head_address (hlog_of s1)) \<le> unat b \<longrightarrow> Get b (hlog_of s1) = Get b (hlog_of s)"
    using g by (fastforce simp: log_grows_def)
  ultimately have "reserved K t s s1 a"
    using s1(2-4) cg(1) in_loop_passes [OF s1(2)] g
    by (auto simp: reserved_def same_session_def passes_def fresh_block_def log_grows_def image_iff intro: bexI [of _ "(a, n)"])
  then show ?thesis using s1(1,5) by blast
qed

lemma write_reserved:
  assumes res: "reserved K t s s1 a"
  obtains s2 where "write_record a r s1 = Inr s2" "reserved K t s s2 a" "Get a (hlog_of s2) = Inr (Some r)"
    "same_addresses (hlog_of s1) (hlog_of s2)"
    "\<And>b. b \<in> fst ` set (blocks (kv_log s1)) \<Longrightarrow> b \<noteq> a \<Longrightarrow> unat (head_address (hlog_of s1)) \<le> unat b \<Longrightarrow>
       Get b (hlog_of s2) = Get b (hlog_of s1)"
proof -
  note finish = that
  have li: "log_inv (kv_log s1)" and hd: "unat (head_address (hlog_of s1)) \<le> unat a" using res by (simp_all add: reserved_def in_loop_def)
  obtain n where n: "(a, n) \<in> set (blocks (kv_log s1))" using res by (auto simp: reserved_def)
  obtain h where h: "write_record a r s1 = Inr (put_hlog h s1)" "log_inv ((kv_log s1)\<lparr>log := h\<rparr>)"
    "same_addresses (hlog_of s1) h" "Get a h = Inr (Some r)"
    "\<And>c m. (c, m) \<in> set (blocks (kv_log s1)) \<Longrightarrow> c \<noteq> a \<Longrightarrow> unat (head_address (hlog_of s1)) \<le> unat c \<Longrightarrow>
       Get c h = Get c (hlog_of s1)"
    using write_record_ok [OF li n hd] by blast
  have keep: "Get b h = Get b (hlog_of s1)"
    if "b \<in> fst ` set (blocks (kv_log s1))" "b \<noteq> a" "unat (head_address (hlog_of s1)) \<le> unat b" for b
    using h(5) that by auto
  have old: "Get b h = Get b (hlog_of s1)"
    if "b \<in> fst ` set (blocks (kv_log s))" "unat (head_address (hlog_of s1)) \<le> unat b" for b
  proof (rule keep)
    show "b \<in> fst ` set (blocks (kv_log s1))" using that(1) res unfolding reserved_def by (blast dest: subsetD)
    have "unat b < unat a" using that(1) res unfolding reserved_def by blast
    then show "b \<noteq> a" by auto
  qed (rule that(2))
  then have "chains_ok K (kv_index s) h (fst ` set (blocks (kv_log s)))"
    "lookup K (kv_index s) h k = lookup K (kv_index s) (hlog_of s1) k" for k
    using chains_write [OF _ h(3), of K "kv_index s" "fst ` set (blocks (kv_log s))"] res by (simp_all add: reserved_def)
  moreover have "in_loop t (put_hlog h s1)" using res h(2,3)
    by (simp add: reserved_def in_loop_def put_hlog_def rest_ok_def kv_room_def turns_def same_addresses_def)
  moreover have "demoted K s (put_hlog h s1) k" for k
  proof -
    have "demoted K s s1 k" "kv_index s1 = kv_index s" using res by (simp_all add: reserved_def)
    then show ?thesis using calculation(2) h(3) by (simp add: demoted_def kv_lookup_def put_hlog_def same_addresses_def)
  qed
  moreover have "\<forall>b \<in> fst ` set (blocks (kv_log s)). unat (head_address h) \<le> unat b \<longrightarrow> Get b h = Get b (hlog_of s)"
    using old res h(3) unfolding reserved_def same_addresses_def by simp
  ultimately have "reserved K t s (put_hlog h s1) a"
    using res h(3) by (simp add: reserved_def same_session_def put_hlog_def same_addresses_def)
  then show thesis using finish [OF h(1)] h(3,4) keep by (simp add: put_hlog_def)
qed

definition updated :: "('k, 'v) key_class \<Rightarrow> nat \<Rightarrow> 'k \<Rightarrow> 'v \<Rightarrow> ('k, 'v) store \<Rightarrow> ('k, 'v) store \<Rightarrow> bool" where
  "updated K t k v s s' \<longleftrightarrow> kv_inv K t s' \<and> same_session s s' \<and> kv_lookup K s' k = Found v \<and>
     (\<forall>k'. k' \<noteq> k \<longrightarrow> demoted K s s' k')"

lemma install_reserved:
  assumes inv: "kv_inv K t s" and res: "reserved K t s s2 a" and r: "Get a (hlog_of s2) = Inr (Some r)" "rec_key r = k"
      "previous_address (rec_header r) = entry_address e"
    and v: "v = index_version (kv_index s)" and i: "unat i < bucket_number v (kv_index s)"
    and q: "home K (kv_index s) k = (i, hash_tag (GetHash K k))"
    and e: "entry_in v (kv_index s) i (hash_tag (GetHash K k)) = Some (sl, e)"
  obtains s3 where "install_record v sl e (GetHash K k) a r s2 = Inr (True, s3)" "updated K t k (rec_value r) s s3"
    "hlog_of s3 = hlog_of s2"
proof -
  note finish = that
  let ?x = "kv_index s" and ?tag = "hash_tag (GetHash K k)"
  have x2: "kv_index s2 = ?x" and li: "log_inv (kv_log s2)" and hd: "unat (head_address (hlog_of s2)) \<le> unat a"
    using res by (simp_all add: reserved_def in_loop_def)
  obtain n where "(a, n) \<in> set (blocks (kv_log s2))" using res by (auto simp: reserved_def)
  then have a48: "unat a < 2 ^ 48" using block_page(1) [OF li] by blast
  have h1: "1 < unat (head_address (hlog_of s2))" using kv_invD(8) [OF inv] res by (simp add: reserved_def same_session_def)
  then have a0: "a \<noteq> 0" using hd by auto
  have ok: "index_ok v ?x" using inv by (simp add: kv_inv_def v)
  obtain x' where x': "cas_entry v sl e (HashBucketEntry a ?tag False) ?x = Inr (True, e, x')" "index_ok v x'"
    "same_but v ?x x' i ?tag" "entry_in v x' i ?tag = Some (sl, HashBucketEntry a ?tag False)"
    using cas_entry_index [OF ok i e a48 a0 hash_tag_bound] by blast
  have im: "index_map v ?x (i, ?tag) = Some (entry_address e)" "index_map v x' (i, ?tag) = Some a"
    using e x'(4) bucket_entry_facts(3) [OF hash_tag_bound a48, of "GetHash K k" False] by (simp_all add: index_map_def)
  have lt: "unat (entry_address e) < unat a"
  proof -
    obtain rs z where rs: "rchain (hlog_of s) (entry_address e) rs z"
      "\<forall>(b, r) \<in> set rs. b \<in> fst ` set (blocks (kv_log s)) \<and> home K ?x (rec_key r) = (i, ?tag)"
      using kv_chain [OF inv] im(1) v by metis
    show ?thesis
    proof (cases rs)
      case Nil
      then have "unat (entry_address e) < unat (head_address (hlog_of s))" using rs(1) by (auto elim: rchain_Nil)
      then show ?thesis using hd res by (simp add: reserved_def same_session_def)
    next
      case (Cons p ps)
      then have "fst p = entry_address e" using rs(1) by (auto elim: rchain_Cons)
      then have "entry_address e \<in> fst ` set (blocks (kv_log s))" using rs(2) Cons by force
      then show ?thesis using res by (auto simp: reserved_def)
    qed
  qed
  have c2: "chains_ok K ?x (hlog_of s2) (fst ` set (blocks (kv_log s)))" using res by (simp add: reserved_def)
  note ci = chains_install [OF c2 x'(3) v i q im r hd lt]
  let ?s3 = "s2\<lparr>kv_index := x'\<rparr>"
  have in3: "install_record v sl e (GetHash K k) a r s2 = Inr (True, ?s3)" using x'(1) x2 by (simp add: install_record_def)
  have "insert a (fst ` set (blocks (kv_log s))) \<subseteq> fst ` set (blocks (kv_log s2))" using res by (simp add: reserved_def)
  from chains_ok_mono [OF ci(1) this] have "kv_inv K t ?s3"
    using inv res x'(2,3) h1 by (simp add: kv_inv_def reserved_def in_loop_def rest_ok_def kv_room_def turns_def same_but_def
        same_session_def v)
  moreover have "same_session s ?s3" using res by (simp add: reserved_def same_session_def)
  moreover have "kv_lookup K ?s3 k' = (if k' = k then Found (rec_value r) else kv_lookup K s2 k')" for k'
    using ci(2) x2 by (simp add: kv_lookup_def)
  ultimately have "updated K t k (rec_value r) s ?s3" using res by (simp add: updated_def demoted_def reserved_def)
  then show thesis using finish [OF in3] by simp
qed

end
