(* ===== verification/FasterOps_Correct.thy ===== *)
theory FasterOps_Correct
  imports FasterOps_Proofs
begin

text \<open>
  The correctness of the operations of the FASTER store for a thread outside of any action, while other threads use
  the log: upserts, read-modify-writes and deletes, and the sequences of operations of a session, which
  refine a map.
\<close>

section \<open>The entry of a key and its chain\<close>

lemma RecordInfo_previous: "unat a < 2 ^ 48 \<Longrightarrow> previous_address (RecordInfo v f b i a) = a"
  using take_bit_self_u64 [of a 48] unfolding previous_address_def RecordInfo_def
  by (subst record_word.field_pack) (simp_all add: record_layout_def)

text \<open>The entry of key \<open>k\<close> is \<open>e\<close> in slot \<open>sl\<close>; its chain has the records \<open>rs\<close> in memory and leaves memory at \<open>z\<close>.\<close>

definition at_entry ::
  "('k, 'v) key_class \<Rightarrow> nat \<Rightarrow> ('k, 'v) store \<Rightarrow> 'k \<Rightarrow> slot \<Rightarrow> bucket_entry \<Rightarrow> (address \<times> ('k, 'v) log_record) list \<Rightarrow> address \<Rightarrow> bool" where
  "at_entry K t s k sl e rs z \<longleftrightarrow> kv_inv K t s \<and>
     (\<exists>i. unat i < bucket_number (index_version (kv_index s)) (kv_index s) \<and> home K (kv_index s) k = (i, hash_tag (GetHash K k)) \<and>
        entry_in (index_version (kv_index s)) (kv_index s) i (hash_tag (GetHash K k)) = Some (sl, e)) \<and>
     rchain (hlog_of s) (entry_address e) rs z \<and>
     (\<forall>(b, r) \<in> set rs. b \<in> fst ` set (blocks (kv_log s)) \<and> home K (kv_index s) (rec_key r) = home K (kv_index s) k)"

lemma at_entryD:
  assumes "at_entry K t s k sl e rs z"
  shows "kv_inv K t s" "load_entry (index_version (kv_index s)) sl (kv_index s) = Inr e"
    "index_map (index_version (kv_index s)) (kv_index s) (home K (kv_index s) k) = Some (entry_address e)"
    "rchain (hlog_of s) (entry_address e) rs z"
    "\<exists>ver. find_record k (entry_address e) (hlog_of s) = Inr (found_at k rs z, ver)"
    "kv_lookup K s k = (case find (\<lambda>p. rec_key (snd p) = k) rs of Some p \<Rightarrow> Found (rec_value (snd p))
       | None \<Rightarrow> if unat (hlog.begin_address (hlog_of s)) \<le> unat z then OnDisk else Absent)"
    "unat (found_at k rs z) < 2 ^ 48"
proof -
  show inv: "kv_inv K t s" and ch: "rchain (hlog_of s) (entry_address e) rs z" using assms by (simp_all add: at_entry_def)
  obtain i where i: "unat i < bucket_number (index_version (kv_index s)) (kv_index s)"
    "home K (kv_index s) k = (i, hash_tag (GetHash K k))"
    "entry_in (index_version (kv_index s)) (kv_index s) i (hash_tag (GetHash K k)) = Some (sl, e)"
    using assms unfolding at_entry_def by blast
  obtain C where C: "struct_ok (index_version (kv_index s)) (kv_index s) C"
    using inv by (auto simp: kv_inv_def index_ok_def)
  show "load_entry (index_version (kv_index s)) sl (kv_index s) = Inr e" by (rule entry_inD(3) [OF C i(1,3)])
  show im: "index_map (index_version (kv_index s)) (kv_index s) (home K (kv_index s) k) = Some (entry_address e)"
    using i(2,3) by (simp add: index_map_def)
  show "\<exists>ver. find_record k (entry_address e) (hlog_of s) = Inr (found_at k rs z, ver)"
    by (rule find_record_chain [OF ch entry_address_bound kv_invD(6) [OF inv]])
  show "kv_lookup K s k = (case find (\<lambda>p. rec_key (snd p) = k) rs of Some p \<Rightarrow> Found (rec_value (snd p))
       | None \<Rightarrow> if unat (hlog.begin_address (hlog_of s)) \<le> unat z then OnDisk else Absent)"
    by (rule kv_lookup_found [OF ch im])
  have "unat (found_at k rs z) \<le> unat (entry_address e) \<or> unat (found_at k rs z) < unat (head_address (hlog_of s))"
  proof (cases "find (\<lambda>p. rec_key (snd p) = k) rs")
    case (Some p)
    then have "p \<in> set rs" using find_SomeD by fastforce
    then show ?thesis using rchain_bounds(2) [OF ch, of "fst p" "snd p"] Some by (simp add: found_at_def)
  next
    case None
    then show ?thesis using rchain_bounds(1) [OF ch] by (simp add: found_at_def)
  qed
  then show "unat (found_at k rs z) < 2 ^ 48" using entry_address_bound [of e] kv_invD(6) [OF inv] by auto
qed

text \<open>Whether the record of the key that was found is in memory.\<close>

lemma at_entry_found:
  assumes ae: "at_entry K t s k sl e rs z"
  shows "unat (head_address (hlog_of s)) \<le> unat (found_at k rs z) \<longleftrightarrow>
    (\<exists>r. find (\<lambda>p. rec_key (snd p) = k) rs = Some (found_at k rs z, r))"
proof (cases "find (\<lambda>p. rec_key (snd p) = k) rs")
  case (Some p)
  obtain a r where p: "p = (a, r)" by (cases p)
  have "(a, r) \<in> set rs" using find_SomeD [OF Some] p by simp
  from rchain_bounds(2) [OF at_entryD(4) [OF ae] this] show ?thesis using Some p by (simp add: found_at_def)
next
  case None
  then show ?thesis using rchain_bounds(1) [OF at_entryD(4) [OF ae]] by (simp add: found_at_def)
qed

lemma at_entry_record:
  assumes ae: "at_entry K t s k sl e rs z" and f: "find (\<lambda>p. rec_key (snd p) = k) rs = Some (a, r)"
  shows "record_at a (hlog_of s) = Inr r" "unat (head_address (hlog_of s)) \<le> unat a" "kv_lookup K s k = Found (rec_value r)"
    "rec_key r = k" "\<exists>n. (a, n) \<in> set (blocks (kv_log s))"
proof -
  have m: "(a, r) \<in> set rs" and "rec_key r = k" using find_SomeD [OF f] by auto
  then show "rec_key r = k" "record_at a (hlog_of s) = Inr r" "unat (head_address (hlog_of s)) \<le> unat a"
    using rchain_bounds(2) [OF at_entryD(4) [OF ae] m] by (simp_all add: record_at_def)
  show "kv_lookup K s k = Found (rec_value r)" using at_entryD(6) [OF ae] f by simp
  have "a \<in> fst ` set (blocks (kv_log s))" using ae m unfolding at_entry_def by blast
  then show "\<exists>n. (a, n) \<in> set (blocks (kv_log s))" by auto
qed

lemma stays_addresses: "stays n h h1 \<Longrightarrow> same_addresses h1 h2 \<Longrightarrow> stays n h h2"
  by (simp add: stays_def same_addresses_def)

lemma stays_same: "same_addresses h h' \<Longrightarrow> stays n h h'"
  by (simp add: stays_def same_addresses_def)

section \<open>The two ways to give a key a value\<close>

text \<open>A record in a reserved block that is linked before the chain of its key.\<close>

lemma link_rest:
  assumes ae: "at_entry K t s k sl e rs z" and v: "v = index_version (kv_index s)" and res: "reserved K t s s1 a"
    and r: "rec_key r = k" "rec_header r = RecordInfo ver True False False (entry_address e)"
  shows "\<exists>s2 s3. write_record a r s1 = Inr s2 \<and> install_record v sl e (GetHash K k) a r s2 = Inr (True, s3) \<and>
    updated K t k (rec_value r) s s3 \<and> same_addresses (hlog_of s1) (hlog_of s3)"
proof -
  obtain i where i: "unat i < bucket_number v (kv_index s)" "home K (kv_index s) k = (i, hash_tag (GetHash K k))"
    "entry_in v (kv_index s) i (hash_tag (GetHash K k)) = Some (sl, e)"
    using ae unfolding at_entry_def v by blast
  obtain s2 where s2: "write_record a r s1 = Inr s2" "reserved K t s s2 a" "Get a (hlog_of s2) = Inr (Some r)"
    "same_addresses (hlog_of s1) (hlog_of s2)"
    by (rule write_reserved [OF res, of r], rule that)
  have "previous_address (rec_header r) = entry_address e" using RecordInfo_previous [OF entry_address_bound] r(2) by simp
  from install_reserved [OF at_entryD(1) [OF ae] s2(2,3) r(1) this v i]
  obtain s3 where s3: "install_record v sl e (GetHash K k) a r s2 = Inr (True, s3)"
    "updated K t k (rec_value r) s s3" "hlog_of s3 = hlog_of s2" .
  then show ?thesis using s2(1,4) by simp
qed

lemma create_put_rest:
  assumes ae: "at_entry K t s (op_key p) sl e rs z" and v: "v = index_version (kv_index s)"
    and n: "new_record_size K p = Inr n" "0 < n" "n \<le> kMaxOffset"
  shows "create_put K t v sl e p g s = Inl Spins \<and> \<not> fits n (hlog_of s) \<or>
    (\<exists>s'. create_put K t v sl e p g s = Inr (Some SUCCESS, p, s', g) \<and> updated K t (op_key p) (put_value (op_client p)) s s' \<and>
       (fits n (hlog_of s) \<longrightarrow> stays n (hlog_of s) (hlog_of s')))"
proof (cases "BlockAllocate K t n s = Inl Spins \<and> \<not> fits n (hlog_of s)")
  case True
  then show ?thesis using n(1) by (simp add: create_put_def)
next
  case False
  obtain a s1 where s1: "BlockAllocate K t n s = Inr (a, s1)" "reserved K t s s1 a"
    "fits n (hlog_of s) \<longrightarrow> stays n (hlog_of s) (hlog_of s1)"
    using BlockAllocate_reserved [OF at_entryD(1) [OF ae] n(2,3)] False by blast
  define r where "r = \<lparr>rec_header = RecordInfo (ucast (ctx_version (ctx s1))) True False False (entry_address e),
    rec_key = op_key p, rec_value = put_value (op_client p)\<rparr>"
  have r: "rec_key r = op_key p" "rec_header r = RecordInfo (ucast (ctx_version (ctx s1))) True False False (entry_address e)"
    by (simp_all add: r_def)
  obtain s2 s3 where s3: "write_record a r s1 = Inr s2" "install_record v sl e (GetHash K (op_key p)) a r s2 = Inr (True, s3)"
    "updated K t (op_key p) (rec_value r) s s3" "same_addresses (hlog_of s1) (hlog_of s3)"
    using link_rest [OF ae v s1(2) r] by blast
  have "create_put K t v sl e p g s = Inr (Some SUCCESS, p, s3, g)"
    using n(1) s1(1) s3(1,2) by (simp add: create_put_def Let_def flip: r_def)
  then show ?thesis using s1(3) s3(3,4) by (auto simp: r_def intro: stays_addresses)
qed

lemma overwrite_rest:
  assumes ae: "at_entry K t s k sl e rs z" and f: "find (\<lambda>p. rec_key (snd p) = k) rs = Some (a, r)"
  shows "\<exists>s'. write_record a (r\<lparr>rec_value := w\<rparr>) s = Inr s' \<and> updated K t k w s s' \<and> same_addresses (hlog_of s) (hlog_of s')"
proof -
  note inv = at_entryD(1) [OF ae] and q = at_entry_record [OF ae f]
  let ?r = "r\<lparr>rec_value := w\<rparr>" and ?B = "fst ` set (blocks (kv_log s))"
  obtain n where n: "(a, n) \<in> set (blocks (kv_log s))" using q(5) by blast
  obtain h where h: "write_record a ?r s = Inr (put_hlog h s)" "log_inv ((kv_log s)\<lparr>log := h\<rparr>)"
    "same_addresses (hlog_of s) h" "Get a h = Inr (Some ?r)"
    "\<And>c m. (c, m) \<in> set (blocks (kv_log s)) \<Longrightarrow> c \<noteq> a \<Longrightarrow> unat (head_address (hlog_of s)) \<le> unat c \<Longrightarrow>
       Get c h = Get c (hlog_of s)"
    using write_record_ok [OF kv_invD(1) [OF inv] n q(2), of ?r] by blast
  have ok: "chains_ok K (kv_index s) (hlog_of s) ?B" using inv by (simp add: kv_inv_def)
  have o: "Get c h = Get c (hlog_of s)" if "c \<in> ?B" "c \<noteq> a" "unat (head_address (hlog_of s)) \<le> unat c" for c
    using h(5) that by auto
  have c: "chains_ok K (kv_index s) h ?B" "\<And>k'. lookup K (kv_index s) h k' = (if k' = k then Found w else lookup K (kv_index s) (hlog_of s) k')"
    using chains_replace [OF ok at_entryD(3) [OF ae] at_entryD(4) [OF ae] f h(3,4) _ _ o] by simp_all
  have "kv_inv K t (put_hlog h s)" using inv h(2,3) c(1)
    by (simp add: kv_inv_def in_loop_def put_hlog_def rest_ok_def kv_room_def turns_def same_addresses_def)
  moreover have "\<And>k'. kv_lookup K (put_hlog h s) k' = (if k' = k then Found w else kv_lookup K s k')"
    using c(2) by (simp add: kv_lookup_def put_hlog_def)
  ultimately have "updated K t k w s (put_hlog h s)"
    using h(3) by (simp add: updated_def demoted_def same_session_def put_hlog_def same_addresses_def)
  then show ?thesis using h(1,3) by (simp add: put_hlog_def)
qed

section \<open>Upsert\<close>

text \<open>The entry of a key that has one.\<close>

lemma entry_exists:
  assumes inv: "kv_inv K t s" and im: "index_map (index_version (kv_index s)) (kv_index s) (home K (kv_index s) k) = Some a"
  obtains sl e rs z where "FindOrCreateEntry t (safe_epoch s) (GetHash K k) (kv_index s) = Inr (sl, e, kv_index s)"
    "entry_address e = a" "at_entry K t s k sl e rs z" "chain_of (hlog_of s) a = (rs, z)"
proof -
  let ?x = "kv_index s" and ?hash = "GetHash K k"
  let ?v = "index_version ?x"
  have ok: "index_ok ?v ?x" "?v \<le> 1" using inv by (simp_all add: kv_inv_def)
  obtain C where C: "struct_ok ?v ?x C" using ok by (auto simp: index_ok_def)
  obtain i where i: "bucket_of_hash ?hash (state ?x ?v) = Inr i" "unat i < bucket_number ?v ?x" "home K ?x k = (i, hash_tag ?hash)"
    using home_bucket [OF ok(1), of K k] by blast
  obtain sl e where e: "entry_in ?v ?x i (hash_tag ?hash) = Some (sl, e)" "entry_address e = a"
    using im i(3) by (auto simp: index_map_def)
  have f: "FindOrCreateEntry t (safe_epoch s) ?hash ?x = Inr (sl, e, ?x)"
    by (rule FindOrCreateEntry_found(1) [OF C refl ok(2) i(1,2) e(1)])
  obtain rs z where rs: "rchain (hlog_of s) a rs z"
    "\<forall>(b, r) \<in> set rs. b \<in> fst ` set (blocks (kv_log s)) \<and> home K ?x (rec_key r) = home K ?x k"
    by (rule kv_chain [OF inv im])
  have "at_entry K t s k sl e rs z" unfolding at_entry_def using inv i e rs by blast
  then show thesis using that [OF f e(2)] rchain_chain_of [OF rs(1)] by blast
qed

text \<open>The key has an entry, or there is space for the overflow bucket that a new entry may need.\<close>

definition kv_place :: "('k, 'v) key_class \<Rightarrow> ('k, 'v) store \<Rightarrow> 'k \<Rightarrow> bool" where
  "kv_place K s k \<longleftrightarrow> kv_space s \<or> index_map (index_version (kv_index s)) (kv_index s) (home K (kv_index s) k) \<noteq> None"

lemma entry_rest:
  assumes inv: "kv_inv K t s" and place: "kv_place K s k"
  obtains sl e x rs z where "FindOrCreateEntry t (safe_epoch s) (GetHash K k) (kv_index s) = Inr (sl, e, x)"
    "index_version x = index_version (kv_index s)" "at_entry K t (s\<lparr>kv_index := x\<rparr>) k sl e rs z"
    "kv_lookup K (s\<lparr>kv_index := x\<rparr>) = kv_lookup K s"
proof (cases "index_map (index_version (kv_index s)) (kv_index s) (home K (kv_index s) k)")
  case (Some a)
  obtain sl e rs z where "FindOrCreateEntry t (safe_epoch s) (GetHash K k) (kv_index s) = Inr (sl, e, kv_index s)" "at_entry K t s k sl e rs z"
    by (rule entry_exists [OF inv Some], rule that)
  then show thesis using that [of sl e "kv_index s" rs z] by simp
next
  case None
  then have sp: "kv_space s" using place by (simp add: kv_place_def)
  note finish = that
  obtain sl e x i where f: "FindOrCreateEntry t (safe_epoch s) (GetHash K k) (kv_index s) = Inr (sl, e, x)"
    and inv': "kv_inv K t (s\<lparr>kv_index := x\<rparr>)" and lk: "\<And>k'. kv_lookup K (s\<lparr>kv_index := x\<rparr>) k' = kv_lookup K s k'"
    and v: "index_version x = index_version (kv_index s)" and i: "unat i < bucket_number (index_version (kv_index s)) x"
      "home K x k = (i, hash_tag (GetHash K k))"
      "entry_in (index_version (kv_index s)) x i (hash_tag (GetHash K k)) = Some (sl, e)"
    by (rule find_or_create_rest [OF inv sp, where k = k], rule that) simp_all
  have im: "index_map (index_version (kv_index (s\<lparr>kv_index := x\<rparr>))) (kv_index (s\<lparr>kv_index := x\<rparr>)) (home K x k) = Some (entry_address e)"
    using i v by (simp add: index_map_def)
  obtain rs z where rs: "rchain (hlog_of (s\<lparr>kv_index := x\<rparr>)) (entry_address e) rs z"
    "\<forall>(b, r) \<in> set rs. b \<in> fst ` set (blocks (kv_log (s\<lparr>kv_index := x\<rparr>))) \<and> home K (kv_index (s\<lparr>kv_index := x\<rparr>)) (rec_key r) = home K x k"
    by (rule kv_chain [OF inv' im])
  have "at_entry K t (s\<lparr>kv_index := x\<rparr>) k sl e rs z"
    unfolding at_entry_def using inv' rs i v by simp
  then show thesis using finish [OF f v] lk by (simp add: fun_eq_iff)
qed

lemma updated_index:
  "updated K t k v (s\<lparr>kv_index := x\<rparr>) s' \<Longrightarrow> kv_lookup K (s\<lparr>kv_index := x\<rparr>) = kv_lookup K s \<Longrightarrow> updated K t k v s s'"
  by (simp add: updated_def demoted_def same_session_def)

abbreviation no_guard :: lock_guard where
  "no_guard \<equiv> \<lparr>guarded = None, locked_old = False, locked_new = False\<rparr>"

lemma put_locks_same [simp]: "put_locks (kv_locks s) s = s"
  by (simp add: put_locks_def)

lemma release_no_guard [simp]: "release_guard no_guard s = Inr s"
  by (simp add: release_guard_def guard_destroy_def)

lemma guard_rest: "lock_size ls = 0 \<Longrightarrow> CheckpointLockGuard ls h = Inr no_guard"
  by (simp add: CheckpointLockGuard_def)

lemma acquire_rest [simp]: "acquire_locks REST ver l ls g = Inr (Proceed, ls, g)"
  by (simp add: acquire_locks_def)

text \<open>What an attempt to give key \<open>k\<close> the value \<open>w\<close> with a record of \<open>n\<close> bytes does.\<close>

definition put_result ::
  "('k, 'v) key_class \<Rightarrow> nat \<Rightarrow> u32 \<Rightarrow> ('k, 'v) pending \<Rightarrow> 'v \<Rightarrow> ('k, 'v) store \<Rightarrow> c_error + ('k, 'v) pass \<Rightarrow> bool" where
  "put_result K t n p w s res \<longleftrightarrow> res = Inl Spins \<and> \<not> fits n (hlog_of s) \<or>
     (\<exists>s'. res = Inr (Some SUCCESS, p, s', no_guard) \<and> updated K t (op_key p) w s s' \<and>
        (fits n (hlog_of s) \<longrightarrow> stays n (hlog_of s) (hlog_of s')))"

lemma put_result_index:
  "put_result K t n p w (s\<lparr>kv_index := x\<rparr>) res \<Longrightarrow> kv_lookup K (s\<lparr>kv_index := x\<rparr>) = kv_lookup K s \<Longrightarrow>
   put_result K t n p w s res"
  unfolding put_result_def by (auto intro: updated_index)

lemma update_in_place_rest:
  assumes ae: "at_entry K t s (op_key p) sl e rs z" and m: "unat (read_only_address (hlog_of s)) \<le> unat (found_at (op_key p) rs z)"
  obtains (create) v where "kv_lookup K s (op_key p) = Found v" "f v = None"
      "update_in_place (found_at (op_key p) rs z) f create p no_guard s = create s"
    | (in_place) v w where "kv_lookup K s (op_key p) = Found v" "f v = Some w"
      "put_result K t n p w s (update_in_place (found_at (op_key p) rs z) f create p no_guard s)"
proof -
  have "unat (head_address (hlog_of s)) \<le> unat (found_at (op_key p) rs z)"
    using m head_bounds [OF kv_invD(1) [OF at_entryD(1) [OF ae]]] by simp
  then obtain r where r: "find (\<lambda>q. rec_key (snd q) = op_key p) rs = Some (found_at (op_key p) rs z, r)"
    using at_entry_found [OF ae] by blast
  note q = at_entry_record [OF ae r]
  show thesis
  proof (cases "f (rec_value r)")
    case None
    then show thesis using create [OF q(3) None] q(1) by (simp add: update_in_place_def)
  next
    case (Some w)
    have "put_result K t n p w s (update_in_place (found_at (op_key p) rs z) f create p no_guard s)"
      using overwrite_rest [OF ae r, of w] q(1) Some by (auto simp: update_in_place_def put_result_def intro: stays_same)
    then show thesis by (rule in_place [OF q(3) Some])
  qed
qed

lemma upsert_pass_rest:
  assumes inv: "kv_inv K t s" and sp: "kv_place K s (op_key p)" and n: "new_record_size K p = Inr n" "0 < n" "n \<le> kMaxOffset"
    and c: "\<And>v w. put_atomic (op_client p) v = Some w \<Longrightarrow> w = put_value (op_client p)"
  shows "put_result K t n p (put_value (op_client p)) s (upsert_pass K t p s)"
proof -
  obtain sl e x rs z where f: "FindOrCreateEntry t (safe_epoch s) (GetHash K (op_key p)) (kv_index s) = Inr (sl, e, x)"
    and v: "index_version x = index_version (kv_index s)" and ae: "at_entry K t (s\<lparr>kv_index := x\<rparr>) (op_key p) sl e rs z"
    and lk: "kv_lookup K (s\<lparr>kv_index := x\<rparr>) = kv_lookup K s"
    by (rule entry_rest [OF inv sp])
  let ?s = "s\<lparr>kv_index := x\<rparr>" and ?a = "found_at (op_key p) rs z" and ?ro = "read_only_address (hlog_of s)"
  note d = kv_invD [OF inv]
  obtain ver where fr: "find_record (op_key p) (entry_address e) (hlog_of s) = Inr (?a, ver)" using at_entryD(5) [OF ae] by auto
  have ro: "address_ge ?a ?ro = Inr (unat ?ro \<le> unat ?a)"
    using at_entryD(7) [OF ae] head_bounds [OF d(1)] by (simp add: address_less_Inr)
  have cp: "put_result K t n p (put_value (op_client p)) ?s (create_put K t (index_version (kv_index s)) sl e p no_guard ?s)"
    using create_put_rest [OF ae _ n, of "index_version (kv_index s)" no_guard] v unfolding put_result_def by simp
  have eq: "upsert_pass K t p s = (if unat ?ro \<le> unat ?a
      then update_in_place ?a (put_atomic (op_client p)) (create_put K t (index_version (kv_index s)) sl e p no_guard) p no_guard ?s
      else create_put K t (index_version (kv_index s)) sl e p no_guard ?s)"
    using f fr ro d(4,5) guard_rest [OF d(5)] put_locks_same [of ?s] by (simp add: upsert_pass_def heavy_enter_def Let_def)
  have ip: "put_result K t n p (put_value (op_client p)) ?s (update_in_place ?a (put_atomic (op_client p))
      (create_put K t (index_version (kv_index s)) sl e p no_guard) p no_guard ?s)" if m: "unat ?ro \<le> unat ?a"
  proof -
    have m': "unat (read_only_address (hlog_of ?s)) \<le> unat ?a" using m by simp
    show ?thesis
    proof (cases rule: update_in_place_rest [OF ae m', where f = "put_atomic (op_client p)" and n = n
          and create = "create_put K t (index_version (kv_index s)) sl e p no_guard"])
      case (1 v)
      then show ?thesis using cp by simp
    next
      case (2 v w)
      then show ?thesis using c [OF 2(2)] by simp
    qed
  qed
  show ?thesis
    by (rule put_result_index [OF _ lk]) (use eq cp ip in \<open>simp split: if_split\<close>)
qed

lemma retry_pass_once:
  "body p s = Inr (Some st, p', s', no_guard) \<Longrightarrow> retry_pass body p s = Inr (st, p', s')"
  "body p s = Inl e \<Longrightarrow> retry_pass body p s = Inl e"
  by (subst retry_pass.simps; simp)+

lemma set_serial_facts:
  "kv_inv K t (set_serial n s) = kv_inv K t s" "kv_lookup K (set_serial n s) = kv_lookup K s" "serial_num (ctx (set_serial n s)) = n"
  "hlog_of (set_serial n s) = hlog_of s" "kv_index (set_serial n s) = kv_index s" "disk_reads (set_serial n s) = disk_reads s"
  by (simp_all add: set_serial_def put_ctx_def kv_inv_def in_loop_def rest_ok_def kv_room_def turns_def kv_lookup_def)

lemma demoted_serial: "demoted K s (set_serial n s') k = demoted K s s' k"
  by (simp add: demoted_def set_serial_facts)

lemma conclude_put:
  assumes "put_result K t n p w s (body p s)"
  shows "bindR (retry_pass body p s) (conclude K t m) = Inl Spins \<and> \<not> fits n (hlog_of s) \<or>
    (\<exists>s'. bindR (retry_pass body p s) (conclude K t m) = Inr (Ok, p, set_serial m s') \<and> updated K t (op_key p) w s s' \<and>
       (fits n (hlog_of s) \<longrightarrow> stays n (hlog_of s) (hlog_of s')))"
  using assms by (auto simp: put_result_def conclude_def retry_pass_once)

section \<open>Read-modify-write\<close>

text \<open>The store after an attempt that changed no value.\<close>

definition kept :: "('k, 'v) key_class \<Rightarrow> nat \<Rightarrow> ('k, 'v) store \<Rightarrow> ('k, 'v) store \<Rightarrow> bool" where
  "kept K t s s' \<longleftrightarrow> kv_inv K t s' \<and> same_session s s' \<and> (\<forall>k. demoted K s s' k)"

lemma kept_refl: "kv_inv K t s \<Longrightarrow> kept K t s s"
  by (simp add: kept_def same_session_def demoted_def)

lemma kept_index:
  "kept K t (s\<lparr>kv_index := x\<rparr>) s' \<Longrightarrow> kv_lookup K (s\<lparr>kv_index := x\<rparr>) = kv_lookup K s \<Longrightarrow> kept K t s s'"
  by (simp add: kept_def demoted_def same_session_def)

lemma reserved_kept:
  assumes inv: "kv_inv K t s" and res: "reserved K t s s1 a"
  shows "kept K t s s1"
proof -
  have x: "kv_index s1 = kv_index s" and "fst ` set (blocks (kv_log s)) \<subseteq> fst ` set (blocks (kv_log s1))"
    "chains_ok K (kv_index s) (hlog_of s1) (fst ` set (blocks (kv_log s)))"
    using res by (simp_all add: reserved_def)
  then have "chains_ok K (kv_index s1) (hlog_of s1) (fst ` set (blocks (kv_log s1)))" using chains_ok_mono by metis
  moreover have "unat (hlog.begin_address (hlog_of s)) \<le> unat (head_address (hlog_of s1))"
    using inv res by (simp add: kv_inv_def reserved_def same_session_def)
  ultimately have "kv_inv K t s1" using inv res x by (simp add: kv_inv_def reserved_def)
  then show ?thesis using res by (simp add: kept_def reserved_def)
qed

lemma reserved_Get:
  assumes "reserved K t s s1 a" "b \<in> fst ` set (blocks (kv_log s))" "unat (head_address (hlog_of s1)) \<le> unat b"
  shows "Get b (hlog_of s1) = Get b (hlog_of s)"
proof -
  have "\<forall>b \<in> fst ` set (blocks (kv_log s)). unat (head_address (hlog_of s1)) \<le> unat b \<longrightarrow> Get b (hlog_of s1) = Get b (hlog_of s)"
    using assms(1) unfolding reserved_def by (elim conjE)
  then show ?thesis using assms(2,3) by blast
qed

text \<open>A record that left memory takes the value of its key to the disk.\<close>

lemma reserved_cut:
  assumes ae: "at_entry K t s k sl e rs z" and res: "reserved K t s s1 a'"
    and f: "find (\<lambda>p. rec_key (snd p) = k) rs = Some (a, r)" and lt: "unat a < unat (head_address (hlog_of s1))"
  shows "kv_lookup K s1 k = OnDisk"
proof -
  note ch = at_entryD(4) [OF ae]
  have hd: "unat (head_address (hlog_of s)) \<le> unat (head_address (hlog_of s1))" and x: "kv_index s1 = kv_index s"
    and bg: "hlog.begin_address (hlog_of s1) = hlog.begin_address (hlog_of s)"
    using res by (simp_all add: reserved_def same_session_def)
  have gt: "\<forall>(b, r) \<in> set rs. unat (head_address (hlog_of s1)) \<le> unat b \<longrightarrow> Get b (hlog_of s1) = Get b (hlog_of s)"
  proof -
    have "\<forall>(b, r) \<in> set rs. b \<in> fst ` set (blocks (kv_log s))" using ae unfolding at_entry_def by fast
    then show ?thesis using reserved_Get [OF res] by fast
  qed
  obtain rs' cut z' where c: "rchain (hlog_of s1) (entry_address e) rs' z'" "rs = rs' @ cut"
    "cut = [] \<and> z' = z \<or> cut \<noteq> [] \<and> z' = fst (hd cut)"
    using rchain_cut [OF ch hd gt] by blast
  have none: "find (\<lambda>p. rec_key (snd p) = k) rs' = None"
  proof (rule ccontr)
    assume "find (\<lambda>p. rec_key (snd p) = k) rs' \<noteq> None"
    then have g: "find (\<lambda>p. rec_key (snd p) = k) rs' = Some (a, r)" using f c(2) by (auto simp: find_append)
    then have "(a, r) \<in> set rs'" using find_SomeD by fastforce
    then show False using rchain_bounds(2) [OF c(1)] lt by fastforce
  qed
  then have "cut \<noteq> []" using f c(2) by (auto simp: find_append)
  then have "hd cut \<in> set rs" "z' = fst (hd cut)" using c(2,3) by auto
  then have "(z', snd (hd cut)) \<in> set rs" by simp
  then have "unat (head_address (hlog_of s)) \<le> unat z'" using rchain_bounds(2) [OF ch] by blast
  moreover have "unat (hlog.begin_address (hlog_of s)) \<le> unat (head_address (hlog_of s))"
    using at_entryD(1) [OF ae] by (simp add: kv_inv_def)
  ultimately have "unat (hlog.begin_address (hlog_of s1)) \<le> unat z'" using bg by simp
  then show ?thesis
    using kv_lookup_found [OF c(1), of K k] at_entryD(3) [OF ae] none x by simp
qed

text \<open>The value that the operation gives to the key.\<close>

definition rmw_new :: "'v client \<Rightarrow> 'v lookup \<Rightarrow> 'v option" where
  "rmw_new c l = (case l of Found v \<Rightarrow> Some (rmw_copy c v) | Absent \<Rightarrow> Some (rmw_initial c) | OnDisk \<Rightarrow> None)"

text \<open>The attempt succeeded, or it has to wait: for the disk, or for the read-only address to become safe.\<close>

definition rmw_result ::
  "('k, 'v) key_class \<Rightarrow> nat \<Rightarrow> u32 \<Rightarrow> ('k, 'v) pending \<Rightarrow> ('k, 'v) store \<Rightarrow> c_error + ('k, 'v) pass \<Rightarrow> bool" where
  "rmw_result K t n p s res \<longleftrightarrow>
     (\<exists>w. rmw_new (op_client p) (kv_lookup K s (op_key p)) = Some w \<and> put_result K t n p w s res) \<or>
     (\<exists>st ver a e s'. res = Inr (Some st, go_async REST ver a e p, s', no_guard) \<and> kept K t s s' \<and>
        (st = RECORD_ON_DISK \<and> kv_lookup K s' (op_key p) = OnDisk \<and>
           (kv_lookup K s (op_key p) = OnDisk \<or> \<not> fits n (hlog_of s) \<and> kv_lookup K s (op_key p) \<noteq> Absent) \<or>
         st = RETRY_LATER \<and> (\<exists>v. kv_lookup K s (op_key p) = Found v) \<and>
           safe_read_only_address (hlog_of s) \<noteq> read_only_address (hlog_of s)))"

lemma rmw_result_index:
  assumes "rmw_result K t n p (s\<lparr>kv_index := x\<rparr>) res" and lk: "kv_lookup K (s\<lparr>kv_index := x\<rparr>) = kv_lookup K s"
  shows "rmw_result K t n p s res"
  using assms(1) put_result_index [OF _ lk] kept_index [OF _ lk] unfolding rmw_result_def lk by fastforce

lemma create_rmw_rest:
  fixes K :: "('k, 'v) key_class"
  assumes ae: "at_entry K t s (op_key p) sl e rs z" and v: "v = index_version (kv_index s)"
    and n: "new_record_size K p = Inr n" "0 < n" "n \<le> kMaxOffset" and w: "rmw_new (op_client p) (kv_lookup K s (op_key p)) = Some w"
  shows "rmw_result K t n p s (create_rmw K t False ph ver v sl e (found_at (op_key p) rs z) p no_guard s)" (is "rmw_result K t n p s ?res")
proof (cases "BlockAllocate K t n s = Inl Spins \<and> \<not> fits n (hlog_of s)")
  case True
  then have "put_result K t n p w s ?res" using n(1) by (simp add: create_rmw_def put_result_def)
  then show ?thesis using w by (auto simp: rmw_result_def)
next
  case False
  note inv = at_entryD(1) [OF ae]
  let ?a = "found_at (op_key p) rs z"
  obtain a s1 where s1: "BlockAllocate K t n s = Inr (a, s1)" "reserved K t s s1 a"
    "fits n (hlog_of s) \<longrightarrow> stays n (hlog_of s) (hlog_of s1)"
    using BlockAllocate_reserved [OF inv n(2,3)] False by blast
  have ss: "ctx_phase (ctx s1) = REST" "hlog.begin_address (hlog_of s1) = hlog.begin_address (hlog_of s)"
    "unat (head_address (hlog_of s1)) < 2 ^ 48"
    using s1(2) kv_invD(4) [OF inv] head_bounds(1) [of "kv_log s1"] by (simp_all add: reserved_def same_session_def in_loop_def)
  define r where "r w = \<lparr>rec_header = RecordInfo (ucast (ctx_version (ctx s1))) True False False (entry_address e),
    rec_key = op_key p, rec_value = w\<rparr>" for w :: 'v
  define r0 where "r0 = r (blank_value K)"
  have r0: "r0\<lparr>rec_value := w\<rparr> = r w" for w by (simp add: r0_def r_def)
  obtain s2 where s2: "write_record a r0 s1 = Inr s2" "reserved K t s s2 a" "same_addresses (hlog_of s1) (hlog_of s2)"
    by (rule write_reserved [OF s1(2), of r0], rule that)
  have rw: "rec_key (r w) = op_key p" "rec_header (r w) = RecordInfo (ucast (ctx_version (ctx s1))) True False False (entry_address e)"
    by (simp_all add: r_def)
  obtain s3 s4 where s4: "write_record a (r w) s2 = Inr s3"
    "install_record v sl e (GetHash K (op_key p)) a (r w) s3 = Inr (True, s4)"
    "updated K t (op_key p) (rec_value (r w)) s s4" "same_addresses (hlog_of s2) (hlog_of s4)"
    using link_rest [OF ae v s2(2) rw] by blast
  have put: "put_result K t n p w s (Inr (Some SUCCESS, p, s4, no_guard))"
    using s1(3) s2(3) s4(3,4) by (auto simp: put_result_def r_def intro: stays_addresses)
  have less: "address_less ?a (hlog.begin_address (hlog_of s1)) = Inr (unat ?a < unat (hlog.begin_address (hlog_of s)))"
    "address_ge ?a (head_address (hlog_of s1)) = Inr (unat (head_address (hlog_of s1)) \<le> unat ?a)"
    using address_less_Inr [OF at_entryD(7) [OF ae]] kv_invD(7) [OF inv] ss by simp_all
  have "rmw_result K t n p s ?res" if f: "find (\<lambda>q. rec_key (snd q) = op_key p) rs = None"
  proof -
    have z: "?a = z" using f by (simp add: found_at_def)
    have "unat ?a < unat (hlog.begin_address (hlog_of s))" "w = rmw_initial (op_client p)"
      using at_entryD(6) [OF ae] w f z by (auto simp: rmw_new_def split: if_splits)
    then have "?res = Inr (Some SUCCESS, p, s4, no_guard)"
      using n(1) s1(1) s2(1) s4(1,2) less ss(1) by (simp add: create_rmw_def Let_def r0 flip: r_def r0_def)
    then show ?thesis using put w by (auto simp: rmw_result_def)
  qed
  moreover have "rmw_result K t n p s ?res" if f: "find (\<lambda>q. rec_key (snd q) = op_key p) rs = Some (b, old)" for b old
  proof -
    have b: "?a = b" using f by (simp add: found_at_def)
    note q = at_entry_record [OF ae f]
    have "\<not> unat b < unat (hlog.begin_address (hlog_of s))" using q(2) inv by (simp add: kv_inv_def)
    note facts = n(1) s1(1) s2(1) less ss(1) b this
    show ?thesis
    proof (cases "unat (head_address (hlog_of s1)) \<le> unat b")
      case True
      have "b \<in> fst ` set (blocks (kv_log s))" using q(5) by force
      then have "Get b (hlog_of s2) = Get b (hlog_of s)"
        using reserved_Get [OF s2(2)] s2(3) True by (simp add: same_addresses_def)
      then have ra: "record_at b (hlog_of s2) = Inr old" using q(1) by (simp add: record_at_def)
      have "w = rmw_copy (op_client p) (rec_value old)" using w q(3) by (simp add: rmw_new_def)
      then have "?res = Inr (Some SUCCESS, p, s4, no_guard)"
        using facts s4(1,2) True ra by (simp add: create_rmw_def Let_def r0 flip: r_def r0_def)
      then show ?thesis using put w by (auto simp: rmw_result_def)
    next
      case False
      obtain s5 where s5: "write_record a (r0\<lparr>rec_header := set_invalid (rec_header r0)\<rparr>) s2 = Inr s5" "reserved K t s s5 a"
        "same_addresses (hlog_of s2) (hlog_of s5)"
        by (rule write_reserved [OF s2(2)], rule that)
      have "kv_lookup K s5 (op_key p) = OnDisk"
        using reserved_cut [OF ae s5(2) f] False s2(3) s5(3) by (simp add: same_addresses_def)
      moreover have "?res = Inr (Some RECORD_ON_DISK, go_async REST (ctx_version (ctx s1)) b e p, s5, no_guard)"
        using facts False s5(1) by (simp add: create_rmw_def Let_def r0 note_async_def flip: r_def r0_def)
      moreover have "\<not> fits n (hlog_of s)" using s1(3) False q(2) by (auto simp: stays_def)
      ultimately show ?thesis using reserved_kept [OF inv s5(2)] q(3) by (auto simp: rmw_result_def)
    qed
  qed
  ultimately show ?thesis by (cases "find (\<lambda>q. rec_key (snd q) = op_key p) rs") auto
qed

lemma rmw_pass_rest:
  assumes inv: "kv_inv K t s" and sp: "kv_place K s (op_key p)" and n: "new_record_size K p = Inr n" "0 < n" "n \<le> kMaxOffset"
    and c: "\<And>v w. rmw_atomic (op_client p) v = Some w \<Longrightarrow> w = rmw_copy (op_client p) v"
  shows "rmw_result K t n p s (rmw_pass K t False p s)"
proof -
  obtain sl e x rs z where f: "FindOrCreateEntry t (safe_epoch s) (GetHash K (op_key p)) (kv_index s) = Inr (sl, e, x)"
    and v: "index_version x = index_version (kv_index s)" and ae: "at_entry K t (s\<lparr>kv_index := x\<rparr>) (op_key p) sl e rs z"
    and lk: "kv_lookup K (s\<lparr>kv_index := x\<rparr>) = kv_lookup K s"
    by (rule entry_rest [OF inv sp])
  let ?s = "s\<lparr>kv_index := x\<rparr>" and ?a = "found_at (op_key p) rs z" and ?h = "hlog_of s"
  let ?cr = "create_rmw K t False REST (ctx_version (ctx s)) (index_version (kv_index s)) sl e ?a p no_guard"
  note d = kv_invD [OF inv] and hb = head_bounds [OF kv_invD(1) [OF inv]]
  obtain ver where fr: "find_record (op_key p) (entry_address e) ?h = Inr (?a, ver)" using at_entryD(5) [OF ae] by auto
  have ge: "unat b < 2 ^ 48 \<Longrightarrow> address_ge ?a b = Inr (unat b \<le> unat ?a)" for b
    using at_entryD(7) [OF ae] by (simp add: address_less_Inr)
  let ?later = "\<lambda>st. Inr (Some st, go_async REST (ctx_version (ctx s)) ?a e p, ?s, no_guard)"
  have eq: "rmw_pass K t False p s =
      (if unat (read_only_address ?h) \<le> unat ?a then update_in_place ?a (rmw_atomic (op_client p)) ?cr p no_guard ?s
       else if unat (safe_read_only_address ?h) \<le> unat ?a then ?later RETRY_LATER
       else if unat (head_address ?h) \<le> unat ?a then ?cr ?s
       else if unat (hlog.begin_address ?h) \<le> unat ?a then ?later RECORD_ON_DISK
       else ?cr ?s)"
    using f fr ge [OF hb(1)] ge [OF hb(2)] ge [OF hb(3)] ge [OF d(7)] d(4,5) guard_rest [OF d(5)] put_locks_same [of ?s]
    by (simp add: rmw_pass_def heavy_enter_def note_async_def Let_def)
  have vv: "index_version (kv_index s) = index_version (kv_index ?s)" using v by simp
  note found = at_entry_found [OF ae]
  have cr: "rmw_result K t n p ?s (?cr ?s)" if l: "kv_lookup K ?s (op_key p) \<noteq> OnDisk"
  proof -
    obtain w where "rmw_new (op_client p) (kv_lookup K ?s (op_key p)) = Some w"
      using l by (cases "kv_lookup K ?s (op_key p)") (auto simp: rmw_new_def)
    then show ?thesis by (rule create_rmw_rest [OF ae vv n])
  qed
  have "rmw_result K t n p ?s (rmw_pass K t False p s)"
  proof (cases "unat (read_only_address ?h) \<le> unat ?a")
    case mutable: True
    then have m: "unat (read_only_address (hlog_of ?s)) \<le> unat ?a" by simp
    show ?thesis
    proof (cases rule: update_in_place_rest [OF ae m, where f = "rmw_atomic (op_client p)" and n = n and create = ?cr])
      case (1 v)
      then show ?thesis using cr eq mutable by simp
    next
      case (2 v w)
      then show ?thesis using c [OF 2(2)] eq mutable by (auto simp: rmw_result_def rmw_new_def)
    qed
  next
    case immutable: False
    show ?thesis
    proof (cases "unat (head_address ?h) \<le> unat ?a")
      case True
      then obtain r where "find (\<lambda>q. rec_key (snd q) = op_key p) rs = Some (?a, r)" using found by auto
      then have l: "kv_lookup K ?s (op_key p) = Found (rec_value r)" by (rule at_entry_record(3) [OF ae])
      have "rmw_result K t n p ?s (?later RETRY_LATER)" if "unat (safe_read_only_address ?h) \<le> unat ?a"
        using kept_refl [OF at_entryD(1) [OF ae]] l that immutable unfolding rmw_result_def by auto
      then show ?thesis using eq immutable True cr l by auto
    next
      case False
      then have f: "find (\<lambda>q. rec_key (snd q) = op_key p) rs = None"
        using found by (cases "find (\<lambda>q. rec_key (snd q) = op_key p) rs") (auto simp: found_at_def)
      then have l: "kv_lookup K ?s (op_key p) = (if unat (hlog.begin_address ?h) \<le> unat ?a then OnDisk else Absent)"
        using at_entryD(6) [OF ae] by (simp add: found_at_def)
      have "rmw_result K t n p ?s (?later RECORD_ON_DISK)" if "unat (hlog.begin_address ?h) \<le> unat ?a"
        using kept_refl [OF at_entryD(1) [OF ae]] l that unfolding rmw_result_def by auto
      then show ?thesis using eq immutable False cr l hb by auto
    qed
  qed
  then show ?thesis by (rule rmw_result_index [OF _ lk])
qed

section \<open>Delete\<close>

lemma clear_entry_rest:
  assumes ae: "at_entry K t s k sl e rs z"
  shows "\<exists>x'. store_entry (index_version (kv_index s)) sl kInvalidEntry (kv_index s) = Inr x' \<and> kv_inv K t (s\<lparr>kv_index := x'\<rparr>) \<and>
    kv_lookup K (s\<lparr>kv_index := x'\<rparr>) k' = (if home K (kv_index s) k' = home K (kv_index s) k then Absent else kv_lookup K s k')"
proof -
  let ?x = "kv_index s"
  let ?v = "index_version ?x" and ?tag = "hash_tag (GetHash K k)"
  note inv = at_entryD(1) [OF ae]
  obtain i where i: "unat i < bucket_number ?v ?x" "home K ?x k = (i, ?tag)" "entry_in ?v ?x i ?tag = Some (sl, e)"
    using ae unfolding at_entry_def by blast
  have ok: "index_ok ?v ?x" and ch: "chains_ok K ?x (hlog_of s) (fst ` set (blocks (kv_log s)))" using inv by (simp_all add: kv_inv_def)
  obtain x' where x': "store_entry ?v sl kInvalidEntry ?x = Inr x'" "index_ok ?v x'" "same_but ?v ?x x' i ?tag" "entry_in ?v x' i ?tag = None"
    using store_entry_index [OF ok i(1,3), of kInvalidEntry] by (auto simp: kInvalidEntry_def)
  have v': "index_version x' = ?v" using x'(3) by (simp add: same_but_def)
  have hm: "home K x' = home K ?x" by (rule home_same_but [OF x'(3) refl])
  have im: "index_map ?v x' = (index_map ?v ?x)((i, ?tag) := None)"
    using same_but_map [OF x'(3) i(1)] x'(4) by (simp add: index_map_def)
  have "chain_ok K x' (hlog_of s) (fst ` set (blocks (kv_log s))) q b" if q: "index_map (index_version x') x' q = Some b" for q b
  proof -
    have "index_map ?v ?x q = Some b" using q im v' by (simp split: if_splits)
    from chains_okD [OF ch this] show ?thesis unfolding chain_ok_home [OF hm] .
  qed
  then have "chains_ok K x' (hlog_of s) (fst ` set (blocks (kv_log s)))" unfolding chains_ok_def by blast
  then have "kv_inv K t (s\<lparr>kv_index := x'\<rparr>)" by (rule kv_inv_index [OF inv x'(2,3)])
  moreover have "kv_lookup K (s\<lparr>kv_index := x'\<rparr>) k' = (if home K ?x k' = home K ?x k then Absent else kv_lookup K s k')"
    using im v' hm i(2) by (simp add: kv_lookup_def lookup_def)
  ultimately show ?thesis using x'(1) by blast
qed

lemma delete_pass_rest:
  assumes inv: "kv_inv K t s"
    and im: "index_map (index_version (kv_index s)) (kv_index s) (home K (kv_index s) (op_key p)) = Some a"
    and f: "find (\<lambda>q. rec_key (snd q) = op_key p) (fst (chain_of (hlog_of s) a)) = Some (b, r)"
    and m: "read_only_address (hlog_of s) \<le> b"
  shows "\<exists>s'. delete_pass K t p s = Inr (Some SUCCESS, p, s', no_guard) \<and> kv_inv K t s' \<and>
    (\<forall>k'. kv_lookup K s' k' = (if b = a \<and> home K (kv_index s) k' = home K (kv_index s) (op_key p) then Absent else kv_lookup K s k'))"
proof -
  obtain sl e rs z where e: "FindOrCreateEntry t (safe_epoch s) (GetHash K (op_key p)) (kv_index s) = Inr (sl, e, kv_index s)"
    "entry_address e = a" and ae: "at_entry K t s (op_key p) sl e rs z" and co: "chain_of (hlog_of s) a = (rs, z)"
    by (rule entry_exists [OF inv im])
  note d = kv_invD [OF inv]
  have b: "found_at (op_key p) rs z = b" using f co by (simp add: found_at_def)
  obtain ver where fr: "find_record (op_key p) a (hlog_of s) = Inr (b, ver)" using at_entryD(5) [OF ae] e(2) b by auto
  have ge: "address_ge b (read_only_address (hlog_of s)) = Inr True"
    using at_entryD(7) [OF ae] b m head_bounds(2) [OF d(1)] by (simp add: address_less_Inr word_le_nat_alt)
  have le: "load_entry (index_version (kv_index s)) sl (kv_index s) = Inr e" by (rule at_entryD(2) [OF ae])
  obtain x' where x': "store_entry (index_version (kv_index s)) sl kInvalidEntry (kv_index s) = Inr x'" "kv_inv K t (s\<lparr>kv_index := x'\<rparr>)"
    using clear_entry_rest [OF ae] by blast
  have lk: "kv_lookup K (s\<lparr>kv_index := x'\<rparr>) k' = (if home K (kv_index s) k' = home K (kv_index s) (op_key p) then Absent else kv_lookup K s k')" for k'
    using clear_entry_rest [OF ae, of k'] x'(1) by auto
  have "delete_pass K t p s = Inr (Some SUCCESS, p, if a = b then s\<lparr>kv_index := x'\<rparr> else s, no_guard)"
    using e fr ge le x'(1) d(4,5) guard_rest [OF d(5)] by (simp add: delete_pass_def heavy_enter_def Let_def)
  then show ?thesis using x'(2) lk inv by auto
qed

section \<open>Operations that have to wait\<close>

lemma kv_inv_ctx:
  "kv_inv K t s \<Longrightarrow> ctx_phase c = REST \<Longrightarrow> kv_inv K t (put_ctx (cur s) c s)"
  by (simp add: kv_inv_def in_loop_def rest_ok_def put_ctx_def kv_room_def turns_def)

lemma kv_inv_disk: "kv_inv K t (AsyncGetFromDisk n io s) = kv_inv K t s"
  by (simp add: kv_inv_def in_loop_def rest_ok_def AsyncGetFromDisk_def kv_room_def turns_def)

lemma wait_frame:
  "kv_lookup K (put_ctx b c s) = kv_lookup K s" "kv_lookup K (AsyncGetFromDisk n io s) = kv_lookup K s"
  "hlog_of (put_ctx b c s) = hlog_of s" "hlog_of (AsyncGetFromDisk n io s) = hlog_of s"
  "disk_reads (AsyncGetFromDisk n io s) = disk_reads s @ [(n, io)]" "disk_reads (put_ctx b c s) = disk_reads s"
  by (simp_all add: kv_lookup_def put_ctx_def AsyncGetFromDisk_def)

text \<open>The operation is queued for another attempt, or a read of the disk is issued for it.\<close>

definition queued :: "('k, 'v) pending \<Rightarrow> ('k, 'v) store \<Rightarrow> ('k, 'v) store \<Rightarrow> bool" where
  "queued p s s' \<longleftrightarrow> retry_requests (ctx s') = retry_requests (ctx s) @ [p] \<and> disk_reads s' = disk_reads s"

definition reads_disk :: "('k, 'v) pending \<Rightarrow> ('k, 'v) store \<Rightarrow> ('k, 'v) store \<Rightarrow> bool" where
  "reads_disk p s s' \<longleftrightarrow> retry_requests (ctx s') = retry_requests (ctx s) \<and>
     (\<exists>n io. disk_reads s' = disk_reads s @ [(n, io)] \<and> io_caller io = p \<and> io_address io = pend_address p \<and>
        io_slot io = cur s \<and> io_number io \<in> fst ` set (pending_ios (ctx s')))"

definition waits :: "('k, 'v) pending \<Rightarrow> ('k, 'v) store \<Rightarrow> ('k, 'v) store \<Rightarrow> bool" where
  "waits p s s' \<longleftrightarrow> queued p s s' \<or> reads_disk p s s'"

text \<open>What each status of an attempt that has to wait leads to.\<close>

definition waits_for :: "OperationStatus \<Rightarrow> ('k, 'v) pending \<Rightarrow> ('k, 'v) store \<Rightarrow> ('k, 'v) store \<Rightarrow> bool" where
  "waits_for st p s s' \<longleftrightarrow> (if st = RETRY_LATER then queued p s s' else reads_disk p s s')"

lemma waits_forD: "waits_for st p s s' \<Longrightarrow> waits p s s'" "waits_for RECORD_ON_DISK p s s' \<Longrightarrow> disk_reads s' \<noteq> disk_reads s"
  by (auto simp: waits_for_def waits_def reads_disk_def split: if_splits)

lemma waits_for_session: "same_session s s1 \<Longrightarrow> waits_for st p s1 s' = waits_for st p s s'"
  by (simp add: waits_for_def queued_def reads_disk_def same_session_def)

lemma handle_wait:
  assumes inv: "kv_inv K t s" and m: "MinIoRequestSize K = Inr m" and st: "st = RETRY_LATER \<or> st = RECORD_ON_DISK"
  shows "\<exists>s'. HandleOperationStatus K t (cur s) p st s = Inr (Pending, True, p, s') \<and> kv_inv K t s' \<and> waits_for st p s s' \<and>
    kv_lookup K s' = kv_lookup K s \<and> hlog_of s' = hlog_of s"
proof -
  have ph: "ctx_phase (ctx s) = REST" by (rule kv_invD(4) [OF inv])
  show ?thesis
  proof (cases "st = RETRY_LATER")
    case True
    let ?s = "put_ctx (cur s) ((ctx s)\<lparr>retry_requests := retry_requests (ctx s) @ [p]\<rparr>) s"
    have "HandleOperationStatus K t (cur s) p st s = Inr (Pending, True, p, ?s)"
      using True ph by (simp add: HandleOperationStatus.simps settle_def RetryLater_def Let_def)
    moreover have "kv_inv K t ?s" using ph by (intro kv_inv_ctx [OF inv]) simp
    moreover have "waits_for st p s ?s" using True by (simp add: waits_for_def queued_def put_ctx_def)
    ultimately show ?thesis using True by (intro exI [of _ ?s]) (simp add: wait_frame)
  next
    case False
    let ?c = "(ctx s)\<lparr>io_id := io_id (ctx s) + 1, pending_ios := pending_ios (ctx s) @ [(io_id (ctx s), GetHash K (op_key p))]\<rparr>"
    let ?io = "\<lparr>io_slot = cur s, io_number = io_id (ctx s), io_address = pend_address p, io_record = None, io_caller = p\<rparr>"
    let ?s = "AsyncGetFromDisk m ?io (put_ctx (cur s) ?c s)"
    have "HandleOperationStatus K t (cur s) p st s = Inr (Pending, True, p, ?s)"
      using False st ph m by (simp add: HandleOperationStatus.simps settle_def IssueAsyncIoRequest_def Let_def)
    moreover have "kv_inv K t ?s" unfolding kv_inv_disk using ph by (intro kv_inv_ctx [OF inv]) simp
    moreover have "waits_for st p s ?s" using False by (simp add: waits_for_def reads_disk_def put_ctx_def AsyncGetFromDisk_def)
    ultimately show ?thesis by (intro exI [of _ ?s]) (simp add: wait_frame)
  qed
qed

lemma waits_serial: "waits_for st p s (set_serial n s') = waits_for st p s s'"
  by (simp add: waits_for_def queued_def reads_disk_def set_serial_def put_ctx_def)

lemma conclude_wait:
  assumes "kv_inv K t s" "MinIoRequestSize K = Inr m" "st = RETRY_LATER \<or> st = RECORD_ON_DISK"
  shows "\<exists>s'. conclude K t n (st, p, s) = Inr (Pending, p, s') \<and> kv_inv K t s' \<and> waits_for st p s s' \<and> serial_num (ctx s') = n \<and>
    kv_lookup K s' = kv_lookup K s \<and> hlog_of s' = hlog_of s"
proof -
  obtain s1 where s1: "HandleOperationStatus K t (cur s) p st s = Inr (Pending, True, p, s1)" "kv_inv K t s1" "waits_for st p s s1"
    "kv_lookup K s1 = kv_lookup K s" "hlog_of s1 = hlog_of s"
    using handle_wait [OF assms] by blast
  have "st \<noteq> SUCCESS" using assms(3) by auto
  then have "conclude K t n (st, p, s) = Inr (Pending, p, set_serial n s1)" using s1(1) by (simp add: conclude_def)
  then show ?thesis using s1 by (simp add: set_serial_facts waits_serial)
qed

section \<open>The operations of a thread outside of any action\<close>

text \<open>A record of the key and value is not empty and not larger than a page.\<close>

definition sized :: "('k, 'v) key_class \<Rightarrow> 'k \<Rightarrow> 'v client \<Rightarrow> u32 \<Rightarrow> bool" where
  "sized K k c n \<longleftrightarrow> record_size (key_align K) (value_align K) (key_bytes K k) (value_bytes c) = Inr n \<and> 0 < n \<and> n \<le> kMaxOffset"

text \<open>The two ways of a client to write a value agree.\<close>

definition put_contract :: "'v client \<Rightarrow> bool" where
  "put_contract c \<longleftrightarrow> (\<forall>v w. put_atomic c v = Some w \<longrightarrow> w = put_value c)"

definition rmw_contract :: "'v client \<Rightarrow> bool" where
  "rmw_contract c \<longleftrightarrow> (\<forall>v w. rmw_atomic c v = Some w \<longrightarrow> w = rmw_copy c v)"

lemma sized_new: "sized K k c n \<Longrightarrow> new_record_size K (new_pending ty k c) = Inr n \<and> 0 < n \<and> n \<le> kMaxOffset"
  by (simp add: sized_def new_record_size_def new_pending_def)

lemma new_pending_facts [simp]: "op_key (new_pending ty k c) = k" "op_client (new_pending ty k c) = c"
  by (simp_all add: new_pending_def)

lemma go_async_facts [simp]:
  "op_key (go_async ph ver a e p) = op_key p" "op_client (go_async ph ver a e p) = op_client p" "pend_address (go_async ph ver a e p) = a"
  by (simp_all add: go_async_def)

text \<open>What a read returns for a key with the given lookup.\<close>

definition read_result :: "'k \<Rightarrow> 'v lookup \<Rightarrow> ('k, 'v) store \<Rightarrow> status \<Rightarrow> ('k, 'v) pending \<Rightarrow> ('k, 'v) store \<Rightarrow> bool" where
  "read_result k l s r p s' \<longleftrightarrow> (case l of
       Found v \<Rightarrow> r = Ok \<and> got p = Some v
     | Absent \<Rightarrow> r = NotFound
     | OnDisk \<Rightarrow> r = Pending \<and> waits p s s' \<and> disk_reads s' \<noteq> disk_reads s \<and> op_key p = k \<and>
         hlog.begin_address (hlog_of s) \<le> pend_address p \<and> pend_address p < head_address (hlog_of s))"

lemma Read_rest:
  assumes inv: "kv_inv K t s" and m: "MinIoRequestSize K = Inr m"
  shows "\<exists>r p s'. Read K t k c n s = Inr (r, p, s') \<and> kv_inv K t s' \<and> kv_lookup K s' = kv_lookup K s \<and> hlog_of s' = hlog_of s \<and>
    read_result k (kv_lookup K s k) s r p s'"
proof (cases "kv_lookup K s k")
  case (Found v)
  then have "Read K t k c n s = Inr (Ok, (new_pending OpRead k c)\<lparr>got := Some v\<rparr>, set_serial n s)"
    using InternalRead_rest [OF inv, of "new_pending OpRead k c"] by (simp add: Read_def conclude_def)
  then show ?thesis using Found inv by (simp add: set_serial_facts read_result_def)
next
  case OnDisk
  then obtain a e where a: "InternalRead K t (new_pending OpRead k c) s =
      Inr (RECORD_ON_DISK, go_async REST (ctx_version (ctx s)) a e (new_pending OpRead k c), s)"
    "hlog.begin_address (hlog_of s) \<le> a" "a < head_address (hlog_of s)"
    using InternalRead_rest [OF inv, of "new_pending OpRead k c"] by auto
  obtain s' where s': "conclude K t n (RECORD_ON_DISK, go_async REST (ctx_version (ctx s)) a e (new_pending OpRead k c), s) =
      Inr (Pending, go_async REST (ctx_version (ctx s)) a e (new_pending OpRead k c), s')" "kv_inv K t s'"
    "waits_for RECORD_ON_DISK (go_async REST (ctx_version (ctx s)) a e (new_pending OpRead k c)) s s'" "kv_lookup K s' = kv_lookup K s"
    "hlog_of s' = hlog_of s"
    using conclude_wait [OF inv m, of RECORD_ON_DISK] by blast
  have "Read K t k c n s = Inr (Pending, go_async REST (ctx_version (ctx s)) a e (new_pending OpRead k c), s')"
    using a(1) s'(1) by (simp add: Read_def)
  then show ?thesis using OnDisk s' a waits_forD [OF s'(3)] by (simp add: read_result_def)
next
  case Absent
  then have "Read K t k c n s = Inr (NotFound, new_pending OpRead k c, set_serial n s)"
    using InternalRead_rest [OF inv, of "new_pending OpRead k c"] by (simp add: Read_def)
  then show ?thesis using Absent inv by (simp add: set_serial_facts read_result_def)
qed

lemma Upsert_rest:
  assumes inv: "kv_inv K t s" and sp: "kv_place K s k" and n: "sized K k c n" and c: "put_contract c"
  shows "Upsert K t k c m s = Inl Spins \<and> \<not> fits n (hlog_of s) \<or>
    (\<exists>s'. Upsert K t k c m s = Inr (Ok, new_pending OpUpsert k c, set_serial m s') \<and> updated K t k (put_value c) s s' \<and>
       (fits n (hlog_of s) \<longrightarrow> stays n (hlog_of s) (hlog_of s')))"
proof -
  let ?p = "new_pending OpUpsert k c"
  have "put_result K t n ?p (put_value c) s (upsert_pass K t ?p s)"
    using upsert_pass_rest [OF inv, of ?p n] sp sized_new [OF n] c by (simp add: put_contract_def)
  from conclude_put [where body = "upsert_pass K t", OF this, of m] show ?thesis by (simp add: Upsert_def InternalUpsert_def)
qed

lemma Rmw_rest:
  assumes inv: "kv_inv K t s" and sp: "kv_place K s k" and n: "sized K k c n" and c: "rmw_contract c" and io: "MinIoRequestSize K = Inr i"
  shows "(\<exists>w. rmw_new c (kv_lookup K s k) = Some w \<and>
      (Rmw K t k c m s = Inl Spins \<and> \<not> fits n (hlog_of s) \<or>
       (\<exists>s'. Rmw K t k c m s = Inr (Ok, new_pending OpRMW k c, set_serial m s') \<and> updated K t k w s s' \<and>
          (fits n (hlog_of s) \<longrightarrow> stays n (hlog_of s) (hlog_of s'))))) \<or>
    (\<exists>p s1 s'. Rmw K t k c m s = Inr (Pending, p, s') \<and> op_key p = k \<and> op_client p = c \<and> kept K t s s1 \<and> kv_inv K t s' \<and> serial_num (ctx s') = m \<and>
       kv_lookup K s' = kv_lookup K s1 \<and> hlog_of s' = hlog_of s1 \<and>
       (reads_disk p s s' \<and> kv_lookup K s' k = OnDisk \<and>
         (kv_lookup K s k = OnDisk \<or> \<not> fits n (hlog_of s) \<and> kv_lookup K s k \<noteq> Absent) \<or>
        queued p s s' \<and> (\<exists>v. kv_lookup K s k = Found v) \<and> safe_read_only_address (hlog_of s) \<noteq> read_only_address (hlog_of s)))"
proof -
  let ?p = "new_pending OpRMW k c"
  have "rmw_result K t n ?p s (rmw_pass K t False ?p s)"
    using rmw_pass_rest [OF inv, of ?p n] sp sized_new [OF n] c by (simp add: rmw_contract_def)
  then consider (put) w where "rmw_new c (kv_lookup K s k) = Some w" "put_result K t n ?p w s (rmw_pass K t False ?p s)"
    | (wait) st ver a e s1 where "rmw_pass K t False ?p s = Inr (Some st, go_async REST ver a e ?p, s1, no_guard)" "kept K t s s1"
      "st = RECORD_ON_DISK \<and> kv_lookup K s1 k = OnDisk \<and>
         (kv_lookup K s k = OnDisk \<or> \<not> fits n (hlog_of s) \<and> kv_lookup K s k \<noteq> Absent) \<or> st = RETRY_LATER \<and> (\<exists>v. kv_lookup K s k = Found v) \<and>
         safe_read_only_address (hlog_of s) \<noteq> read_only_address (hlog_of s)"
    unfolding rmw_result_def by auto
  then show ?thesis
  proof cases
    case put
    then show ?thesis using conclude_put [where body = "rmw_pass K t False", OF put(2), of m] by (auto simp: Rmw_def InternalRmw_def)
  next
    case wait
    have i1: "kv_inv K t s1" and ss: "same_session s s1" using wait(2) by (simp_all add: kept_def)
    have st: "st = RETRY_LATER \<or> st = RECORD_ON_DISK" using wait(3) by auto
    obtain s' where s': "conclude K t m (st, go_async REST ver a e ?p, s1) = Inr (Pending, go_async REST ver a e ?p, s')" "kv_inv K t s'"
      "waits_for st (go_async REST ver a e ?p) s1 s'" "kv_lookup K s' = kv_lookup K s1" "hlog_of s' = hlog_of s1" "serial_num (ctx s') = m"
      using conclude_wait [OF i1 io st, of m "go_async REST ver a e ?p"] by blast
    have eq: "Rmw K t k c m s = Inr (Pending, go_async REST ver a e ?p, s')"
      using wait(1) s'(1) by (simp add: Rmw_def InternalRmw_def retry_pass_once)
    have wf: "waits_for st (go_async REST ver a e ?p) s s'" using s'(3) waits_for_session [OF ss] by blast
    have end_of: "reads_disk (go_async REST ver a e ?p) s s' \<and> kv_lookup K s' k = OnDisk \<and>
         (kv_lookup K s k = OnDisk \<or> \<not> fits n (hlog_of s) \<and> kv_lookup K s k \<noteq> Absent) \<or>
        queued (go_async REST ver a e ?p) s s' \<and> (\<exists>v. kv_lookup K s k = Found v) \<and> safe_read_only_address (hlog_of s) \<noteq> read_only_address (hlog_of s)"
      using wait(3) wf s'(4) unfolding waits_for_def by auto
    show ?thesis
      by (rule disjI2, intro exI conjI, rule eq) (use wait(2) s' end_of in simp_all)
  qed
qed

section \<open>A new store\<close>

lemma Refresh_idle:
  assumes "rest_ok t s" "env s = e # es" "log_events e = []" "Refresh K t s = Inr s'"
  shows "kv_log s' = kv_log s"
proof -
  have "quiet_env t e" "phase (system (ctl s)) = REST" "ctx_phase (ctx s) = REST" using assms(1,2) by (simp_all add: rest_ok_def)
  then have "phase (system (others e (ctl s))) = REST" by (simp add: quiet_env_def)
  then show ?thesis using assms(2-4) \<open>ctx_phase (ctx s) = REST\<close> by (auto simp: Refresh_def env_acts_def)
qed

lemma session_ready:
  assumes h: "empty_hlog sz sector mp = Inr h" and new: "new_store t table_sz alignment h c e0 es safe = Inr s"
    and t: "t < 96" and es: "es \<noteq> []" "\<forall>e \<in> set es. quiet_env t e"
    and lim: "sum_list (map (\<lambda>e. length (log_events e) + 1) es) + 2 * bsize h + 3 < 2 ^ 23"
  shows "\<exists>s'. StartSession K t g s = Inr (g, s') \<and> kv_inv K t s' \<and> kv_space s' \<and> (\<forall>k. kv_lookup K s' k = Absent) \<and>
    (log_events (hd es) = [] \<longrightarrow> kv_log s' = start_sys h)"
proof -
  note hf = empty_hlog_facts [OF h]
  obtain tab ofb where tb: "table_Initialize table_sz alignment \<lparr>buckets = [], ckpt_io = no_io, rec_io = no_io\<rparr> = Inr tab"
    "alloc_Initialize empty_bucket t safe = Inr ofb"
    using new by (auto simp: new_store_def bindR_Inr_iff Let_def split: if_splits)
  define s0 where "s0 = put_ctx (cur s) ((ctx s)\<lparr>ctx_version := 1, ctx_guid := g, serial_num := 0, ctx_phase := REST, io_id := 0\<rparr>) s"
  have s: "kv_log s = start_sys h" "env s = es" "contexts s = (\<lambda>_. new_context)" "cur s = False"
    "system (ctl s) = SystemState ActionNone REST 1" "kv_locks s = no_locks" "index_version (kv_index s) = 0"
    "state (kv_index s) 0 = tab" "overflow_buckets (kv_index s) 0 = ofb"
    using new tb by (auto simp: new_store_def Let_def split: if_splits)
  note ix = new_index_ok [OF tb s(8,9)]
  have ci: "StartSession K t g s = bindR (Refresh K t s0) (\<lambda>s1. Inr (ctx_guid (ctx s1), s1))"
    using s by (simp add: StartSession_def context_Initialize_def new_context_def s0_def Let_def)
  have s0: "kv_log s0 = start_sys h" "env s0 = es" "kv_index s0 = kv_index s" "ctx_guid (ctx s0) = g"
    using s by (simp_all add: s0_def put_ctx_def)
  have rest: "rest_ok t s0" using s es by (simp add: rest_ok_def s0_def put_ctx_def no_locks_def)
  have "almost_room s0" using lim hf(4) s0 by (simp add: almost_room_def turns_def start_sys_def)
  then obtain s' where s': "Refresh K t s0 = Inr s'" "passes t s0 s'" "waiting (kv_log s') t = waiting (kv_log s0) t"
    using Refresh_rest [OF rest, of K] hf(1) s0 es by auto
  have p: "kv_index s' = kv_index s" "contexts s' = contexts s0" "cur s' = cur s0" "log_grows (start_sys h) (kv_log s')"
    using s'(2) s0 by (simp_all add: passes_def)
  have im: "index_map (index_version (kv_index s')) (kv_index s') q = None" for q using ix(2) s(7) p(1) by simp
  have b: "hlog.begin_address (hlog_of s') = hlog.begin_address h" "unat (head_address h) \<le> unat (head_address (hlog_of s'))"
    using p(4) by (simp_all add: log_grows_def start_sys_def)
  have "in_loop t s'" by (rule in_loop_passes [OF s'(2)])
  then have inv: "kv_inv K t s'"
    using ix(1) t s'(3) s0(1) s(7) p(1) b hf(2,3) im by (simp add: kv_inv_def start_sys_def chains_ok_def)
  have "kv_space s'" using ix(3) s(7) p(1) by (simp add: kv_space_def)
  moreover have "kv_lookup K s' k = Absent" for k using im by (simp add: kv_lookup_def lookup_def)
  moreover have "StartSession K t g s = Inr (g, s')" using ci s'(1) s0(4) p(2,3) by simp
  moreover have "log_events (hd es) = [] \<longrightarrow> kv_log s' = start_sys h"
    using Refresh_idle [OF rest _ _ s'(1), of "hd es" "tl es"] s0(1,2) es(1) by simp
  ultimately show ?thesis using inv by blast
qed

section \<open>Sessions\<close>

text \<open>
  The states that a thread reaches by reads, upserts and read-modify-writes, with the map that the
  operations it was told to have finished should have built.
\<close>

inductive session :: "('k, 'v) key_class \<Rightarrow> nat \<Rightarrow> ('k, 'v) store \<Rightarrow> ('k \<rightharpoonup> 'v) \<Rightarrow> bool" for K t where
  start: "empty_hlog sz sector mp = Inr h \<Longrightarrow> new_store t table_sz alignment h c e0 es safe = Inr s0 \<Longrightarrow> t < 96 \<Longrightarrow> es \<noteq> [] \<Longrightarrow>
    \<forall>e \<in> set es. quiet_env t e \<Longrightarrow> sum_list (map (\<lambda>e. length (log_events e) + 1) es) + 2 * bsize h + 3 < 2 ^ 23 \<Longrightarrow>
    StartSession K t g s0 = Inr (g', s) \<Longrightarrow> session K t s Map.empty"
| read: "session K t s m \<Longrightarrow> Read K t k c n s = Inr (r, p, s') \<Longrightarrow> session K t s' m"
| upsert: "session K t s m \<Longrightarrow> kv_place K s k \<Longrightarrow> sized K k c sz \<Longrightarrow> put_contract c \<Longrightarrow>
    Upsert K t k c n s = Inr (r, p, s') \<Longrightarrow> session K t s' (m(k \<mapsto> put_value c))"
| rmw: "session K t s m \<Longrightarrow> kv_place K s k \<Longrightarrow> sized K k c sz \<Longrightarrow> rmw_contract c \<Longrightarrow> Rmw K t k c n s = Inr (Ok, p, s') \<Longrightarrow>
    session K t s' (m(k \<mapsto> (case m k of Some v \<Rightarrow> rmw_copy c v | None \<Rightarrow> rmw_initial c)))"
| rmw_pending: "session K t s m \<Longrightarrow> kv_place K s k \<Longrightarrow> sized K k c sz \<Longrightarrow> rmw_contract c \<Longrightarrow> Rmw K t k c n s = Inr (Pending, p, s') \<Longrightarrow>
    session K t s' m"

text \<open>A key has the value of the map, or its record is not in memory.\<close>

definition shows_map :: "('k \<Rightarrow> 'v lookup) \<Rightarrow> ('k \<rightharpoonup> 'v) \<Rightarrow> bool" where
  "shows_map L m \<longleftrightarrow> (\<forall>k. L k = OnDisk \<or> L k = (case m k of Some v \<Rightarrow> Found v | None \<Rightarrow> Absent))"

lemma updated_map: "shows_map (kv_lookup K s) m \<Longrightarrow> updated K t k v s s' \<Longrightarrow> shows_map (kv_lookup K s') (m(k \<mapsto> v))"
  unfolding shows_map_def updated_def demoted_def by (metis fun_upd_apply option.simps(5))

lemma kept_map: "shows_map (kv_lookup K s) m \<Longrightarrow> kept K t s s' \<Longrightarrow> shows_map (kv_lookup K s') m"
  unfolding shows_map_def kept_def demoted_def by metis

lemma session_map:
  assumes "session K t s m" and io: "MinIoRequestSize K = Inr i"
  shows "kv_inv K t s \<and> shows_map (kv_lookup K s) m"
  using assms(1)
proof induction
  case (start sz sector mp h table_sz alignment c e0 es safe s0 g g' s)
  then show ?case using session_ready [OF start(1-6), of K g] by (auto simp: shows_map_def)
next
  case (read s m k c n r p s')
  then show ?case using Read_rest [OF _ io, of t s k c n] by auto
next
  case (upsert s m k c sz n r p s')
  then obtain s1 where "s' = set_serial n s1" "updated K t k (put_value c) s s1"
    using Upsert_rest [of K t s k c sz n] by auto
  then show ?case using updated_map [of K s m t k "put_value c" s1] upsert.IH by (simp add: set_serial_facts updated_def fun_upd_def)
next
  case (rmw s m k c sz n p s')
  then obtain w s1 where s1: "rmw_new c (kv_lookup K s k) = Some w" "s' = set_serial n s1" "updated K t k w s s1"
    using Rmw_rest [of K t s k c sz i n] io by auto
  moreover have "kv_lookup K s k = OnDisk \<or> kv_lookup K s k = (case m k of Some v \<Rightarrow> Found v | None \<Rightarrow> Absent)"
    using rmw.IH unfolding shows_map_def by blast
  ultimately have "w = (case m k of Some v \<Rightarrow> rmw_copy c v | None \<Rightarrow> rmw_initial c)"
    by (auto simp: rmw_new_def split: option.splits)
  then show ?case using updated_map [of K s m t k w s1] rmw.IH s1 by (simp add: set_serial_facts updated_def fun_upd_def)
next
  case (rmw_pending s m k c sz n p s')
  then obtain s1 where "kept K t s s1" "kv_inv K t s'" "kv_lookup K s' = kv_lookup K s1"
    using Rmw_rest [of K t s k c sz i n] io by auto
  then show ?case using kept_map [of K s m t s1] rmw_pending.IH by simp
qed

section \<open>Properties\<close>

text \<open>
  C23: a thread that works on a new store outside of any action sees a map. Take any sequence of
  reads, upserts and read-modify-writes, with other threads allocating blocks, changing pages, flushing and moving the
  addresses of the log in between (\<open>quiet_event\<close>: they write no records and leave the index alone, so the thread is the only
  writer), and let \<open>m\<close> be the map that the finished operations of the thread build.
  Then a read of any key returns: with the value of the key in \<open>m\<close>; or not-found, and \<open>m\<close> has no such
  key; or pending with a read of the disk issued, when the record of the key is no longer in memory.
  A stale value, a wrong not-found and an error are impossible.
\<close>

theorem session_reads_map:
  assumes "session K t s m" "MinIoRequestSize K = Inr i"
  shows "\<exists>r p s'. Read K t k c n s = Inr (r, p, s') \<and> session K t s' m \<and>
    (r = Ok \<and> m k \<noteq> None \<and> got p = m k \<or> r = NotFound \<and> m k = None \<or>
     r = Pending \<and> waits p s s' \<and> disk_reads s' \<noteq> disk_reads s \<and> kv_lookup K s k = OnDisk)"
proof -
  have inv: "kv_inv K t s" "shows_map (kv_lookup K s) m" using session_map [OF assms] by simp_all
  obtain r p s' where r: "Read K t k c n s = Inr (r, p, s')" "read_result k (kv_lookup K s k) s r p s'"
    using Read_rest [OF inv(1) assms(2), of k c n] by blast
  have "kv_lookup K s k = OnDisk \<or> kv_lookup K s k = (case m k of Some v \<Rightarrow> Found v | None \<Rightarrow> Absent)"
    using inv(2) unfolding shows_map_def by blast
  then have "r = Ok \<and> m k \<noteq> None \<and> got p = m k \<or> r = NotFound \<and> m k = None \<or>
     r = Pending \<and> waits p s s' \<and> disk_reads s' \<noteq> disk_reads s \<and> kv_lookup K s k = OnDisk"
    using r(2) by (auto simp: read_result_def split: option.splits)
  then show ?thesis using r(1) session.read [OF assms(1) r(1)] by blast
qed

text \<open>
  C24: \<open>Upsert\<close> outside of any action, for a client whose two ways to write agree and a record that is
  not larger than a page. When the record fits on the tail page, or the other threads let the new
  page come about, it returns Ok; then the key has the new value, every other key has its value or is on
  the disk, and the invariant of the store holds. When the record fits, no record leaves memory and the
  tail moves by at most the size of the record. The only other outcome is to wait for a page that never
  comes.
\<close>

theorem Upsert_correct:
  assumes "kv_inv K t s" "kv_place K s k" "sized K k c n" "put_contract c"
  shows "Upsert K t k c serial s = Inl Spins \<and> \<not> fits n (hlog_of s) \<or>
    (\<exists>p s'. Upsert K t k c serial s = Inr (Ok, p, s') \<and> kv_inv K t s' \<and> serial_num (ctx s') = serial \<and>
       kv_lookup K s' k = Found (put_value c) \<and> (\<forall>k'. k' \<noteq> k \<longrightarrow> kv_lookup K s' k' = kv_lookup K s k' \<or> kv_lookup K s' k' = OnDisk) \<and>
       (fits n (hlog_of s) \<longrightarrow> stays n (hlog_of s) (hlog_of s') \<and> (\<forall>k'. k' \<noteq> k \<longrightarrow> kv_lookup K s' k' = kv_lookup K s k')))"
proof -
  consider "Upsert K t k c serial s = Inl Spins" "\<not> fits n (hlog_of s)"
    | s1 where "Upsert K t k c serial s = Inr (Ok, new_pending OpUpsert k c, set_serial serial s1)" "updated K t k (put_value c) s s1"
       "fits n (hlog_of s) \<longrightarrow> stays n (hlog_of s) (hlog_of s1)"
    using Upsert_rest [OF assms] by blast
  then show ?thesis
  proof cases
    case 2
    then show ?thesis by (auto simp: set_serial_facts updated_def demoted_def stays_def)
  qed simp
qed

text \<open>
  C25: \<open>Rmw\<close> outside of any action, for a client whose copying and in-place updates agree. It has three outcomes. It returns Ok
  and the key has the updated value of its old one, or the initial value when it had none. Or it is
  pending with no value changed, for one of two reasons: the record of the key is on the disk (it was there before, or the
  allocation of the new record made it leave memory), and a read of it was issued with the operation as its caller;
  or the key has its record in memory while the read-only address is not yet safe, and the operation was
  appended to the queue of the operations to retry. Or it waits for a page that never comes, which happens only when the record does not
  fit on the tail page.
\<close>

theorem Rmw_correct:
  assumes "kv_inv K t s" "kv_place K s k" "sized K k c n" "rmw_contract c" "MinIoRequestSize K = Inr i"
  shows "Rmw K t k c serial s = Inl Spins \<and> \<not> fits n (hlog_of s) \<or>
    (\<exists>p s'. Rmw K t k c serial s = Inr (Ok, p, s') \<and> kv_inv K t s' \<and> serial_num (ctx s') = serial \<and> kv_lookup K s k \<noteq> OnDisk \<and>
       kv_lookup K s' k = Found (case kv_lookup K s k of Found v \<Rightarrow> rmw_copy c v | _ \<Rightarrow> rmw_initial c) \<and>
       (\<forall>k'. k' \<noteq> k \<longrightarrow> kv_lookup K s' k' = kv_lookup K s k' \<or> kv_lookup K s' k' = OnDisk)) \<or>
    (\<exists>p s'. Rmw K t k c serial s = Inr (Pending, p, s') \<and> kv_inv K t s' \<and> serial_num (ctx s') = serial \<and> op_key p = k \<and> op_client p = c \<and>
       (\<forall>k'. kv_lookup K s' k' = kv_lookup K s k' \<or> kv_lookup K s' k' = OnDisk) \<and>
       (reads_disk p s s' \<and> kv_lookup K s' k = OnDisk \<and>
         (kv_lookup K s k = OnDisk \<or> \<not> fits n (hlog_of s) \<and> kv_lookup K s k \<noteq> Absent) \<or>
        queued p s s' \<and> (\<exists>v. kv_lookup K s k = Found v) \<and>
          safe_read_only_address (hlog_of s) \<noteq> read_only_address (hlog_of s)))"
  using Rmw_rest [OF assms, of serial]
proof (elim disjE exE conjE, goal_cases)
  case (1 w)
  then show ?case by simp
next
  case (2 w s1)
  have "kv_lookup K s k \<noteq> OnDisk" "w = (case kv_lookup K s k of Found v \<Rightarrow> rmw_copy c v | _ \<Rightarrow> rmw_initial c)"
    using 2(1) by (auto simp: rmw_new_def split: lookup.splits)
  then show ?case using 2(2,3)
    by (intro disjI2 disjI1 exI [of _ "new_pending OpRMW k c"] exI [of _ "set_serial serial s1"])
      (auto simp: set_serial_facts updated_def demoted_def)
next
  case (3 p s1 s')
  then show ?case by (intro disjI2 exI [of _ p] exI [of _ s']) (auto simp: kept_def demoted_def)
next
  case (4 p s1 s')
  then show ?case by (intro disjI2 exI [of _ p] exI [of _ s']) (auto simp: kept_def demoted_def)
next
  case (5 p s1 s' v)
  then show ?case by (intro disjI2 exI [of _ p] exI [of _ s']) (auto simp: kept_def demoted_def)
qed

text \<open>
  C26: \<open>Delete\<close> outside of any action, when the record of the key at \<open>b\<close> lies in the mutable region. It
  always returns Ok. When the record is the first of its chain, the entry is cleared and with it every key
  whose records are in the chain disappears; when another record comes before it, nothing is deleted and
  a read still finds the value.
\<close>

theorem Delete_effect:
  assumes "kv_inv K t s" "index_map (index_version (kv_index s)) (kv_index s) (home K (kv_index s) k) = Some a"
    "find (\<lambda>q. rec_key (snd q) = k) (fst (chain_of (hlog_of s) a)) = Some (b, r)" "read_only_address (hlog_of s) \<le> b"
  shows "\<exists>p s'. Delete K t k c serial s = Inr (Ok, p, s') \<and> kv_inv K t s' \<and>
    (\<forall>k'. kv_lookup K s' k' = (if b = a \<and> home K (kv_index s) k' = home K (kv_index s) k then Absent else kv_lookup K s k')) \<and>
    kv_lookup K s k = Found (rec_value r)"
proof -
  let ?p = "new_pending OpDelete k c"
  have "index_map (index_version (kv_index s)) (kv_index s) (home K (kv_index s) (op_key ?p)) = Some a"
    "find (\<lambda>q. rec_key (snd q) = op_key ?p) (fst (chain_of (hlog_of s) a)) = Some (b, r)" using assms(2,3) by simp_all
  from delete_pass_rest [OF assms(1) this assms(4)] obtain s' where
    s': "delete_pass K t ?p s = Inr (Some SUCCESS, ?p, s', no_guard)" "kv_inv K t s'"
      "\<forall>k'. kv_lookup K s' k' = (if b = a \<and> home K (kv_index s) k' = home K (kv_index s) k then Absent else kv_lookup K s k')" by auto
  obtain sl e rs z where e: "at_entry K t s k sl e rs z" "chain_of (hlog_of s) a = (rs, z)"
    by (rule entry_exists [OF assms(1,2)])
  have "kv_lookup K s k = Found (rec_value r)" using at_entry_record(3) [OF e(1)] assms(3) e(2) by simp
  moreover have "Delete K t k c serial s = Inr (Ok, ?p, set_serial serial s')"
    using s'(1) by (simp add: Delete_def InternalDelete_def retry_pass_once conclude_def)
  ultimately show ?thesis using s'(2,3) by (simp add: set_serial_facts)
qed

section \<open>A store with two colliding keys\<close>

definition demo_class :: "(nat, nat) key_class" where
  "demo_class = \<lparr>GetHash = (\<lambda>_. 5), key_bytes = (\<lambda>_. 8), key_align = 8, sizeof_key = 8, stored_bytes = (\<lambda>_. 8),
     value_align = 8, sizeof_value = 8, blank_value = 0\<rparr>"

definition demo_client :: "nat \<Rightarrow> nat client" where
  "demo_client v = \<lparr>put_value = v, put_atomic = (\<lambda>_. Some v), rmw_initial = v, rmw_copy = (\<lambda>x. x + v),
     rmw_atomic = (\<lambda>x. Some (x + v)), value_bytes = 8\<rparr>"

definition demo_turn :: "(nat, nat) env_step" where
  "demo_turn = \<lparr>log_events = [], others = id, finish_phase = (\<lambda>_. True), has_finished = (\<lambda>_. True), fuzzy_complete = Ok,
     io_outcome = sample_outside\<rparr>"

lemma demo_sized: "sized demo_class k (demo_client v) 24" "MinIoRequestSize demo_class = Inr 24"
  by (simp_all add: sized_def demo_class_def demo_client_def MinIoRequestSize_def) code_simp+

lemma demo_contracts: "put_contract (demo_client v)" "rmw_contract (demo_client v)"
  by (simp_all add: put_contract_def rmw_contract_def demo_client_def)

lemma demo_log:
  obtains h :: "(nat, nat) log_record hlog" where "empty_hlog 0xC000000 512 2 = Inr h" "bsize h = 6"
proof -
  have "case (empty_hlog 0xC000000 512 2 :: c_error + (nat, nat) log_record hlog) of Inr h \<Rightarrow> bsize h = 6 | Inl _ \<Rightarrow> False" by code_simp
  then show thesis using that by (auto split: sum.splits)
qed

text \<open>A new session; there is room for 24 bytes more than a million times.\<close>

lemma demo_start:
  obtains s where "session demo_class 1 s Map.empty" "kv_inv demo_class 1 s" "\<forall>k. kv_place demo_class s k" "\<forall>k. kv_lookup demo_class s k = Absent"
    "tail_offset (hlog_of s) = 64" "read_only_address (hlog_of s) = head_address (hlog_of s)"
proof -
  obtain h :: "(nat, nat) log_record hlog" where h: "empty_hlog 0xC000000 512 2 = Inr h" "bsize h = 6" by (rule demo_log)
  have p: "IsPowerOfTwo 4" "IsPowerOfTwo 64" using IsPowerOfTwo_pow [of 2] IsPowerOfTwo_pow [of 6] by simp_all
  obtain ob where "alloc_Initialize empty_bucket 1 0 = Inr ob" using alloc_Initialize_inv [of empty_bucket 1 0] by auto
  then obtain s0 where s0: "new_store 1 4 64 h sample_control demo_turn [demo_turn] 0 = Inr s0"
    using p by (simp add: new_store_def table_Initialize_def io_idle_def no_io_def Let_def)
  have q: "\<forall>e \<in> set [demo_turn]. quiet_env 1 e" "[demo_turn] \<noteq> []" "(1 :: nat) < 96"
    "sum_list (map (\<lambda>e. length (log_events e) + 1) [demo_turn]) + 2 * bsize h + 3 < 2 ^ 23"
    by (simp_all add: quiet_env_def demo_turn_def h(2))
  obtain s where s: "StartSession demo_class 1 9 s0 = Inr (9, s)" "kv_inv demo_class 1 s" "kv_space s"
    "\<forall>k. kv_lookup demo_class s k = Absent" "log_events (hd [demo_turn]) = [] \<longrightarrow> kv_log s = start_sys h"
    using session_ready [OF h(1) s0 q(3,2,1,4), of demo_class 9] by blast
  have "hlog_of s = h" using s(5) by (simp add: demo_turn_def start_sys_def)
  moreover have "session demo_class 1 s Map.empty" by (rule session.start [OF h(1) s0 q(3,2,1,4) s(1)])
  moreover have "\<forall>k. kv_place demo_class s k" using s(3) by (simp add: kv_place_def)
  ultimately show thesis using that s(2,4) empty_hlog_facts(3,5,6) [OF h(1)] by simp
qed

theorem session_reads_map_witness:
  "\<exists>s p s'. session demo_class 1 s [3 \<mapsto> 7] \<and> Read demo_class 1 3 (demo_client 0) 2 s = Inr (Ok, p, s') \<and> got p = Some 7"
proof -
  obtain s where s: "session demo_class 1 s Map.empty" "kv_inv demo_class 1 s" "\<forall>k. kv_place demo_class s k" "tail_offset (hlog_of s) = 64"
    by (rule demo_start, rule that)
  have "fits 24 (hlog_of s)" using s(4) by (simp add: fits_def)
  then obtain s1 where s1: "Upsert demo_class 1 3 (demo_client 7) 1 s = Inr (Ok, new_pending OpUpsert 3 (demo_client 7), set_serial 1 s1)"
    "updated demo_class 1 3 7 s s1"
    using Upsert_rest [OF s(2) s(3) [rule_format] demo_sized(1) [of 3 7] demo_contracts(1), of 1] by (auto simp: demo_client_def)
  have ss: "session demo_class 1 (set_serial 1 s1) [3 \<mapsto> 7]"
    using session.upsert [OF s(1) s(3) [rule_format] demo_sized(1) demo_contracts(1) s1(1)] by (simp add: demo_client_def)
  have "kv_lookup demo_class (set_serial 1 s1) 3 = Found 7" using s1(2) by (simp add: set_serial_facts updated_def)
  then show ?thesis
    using session_reads_map [OF ss demo_sized(2), of 3 "demo_client 0" 2] ss by auto
qed

theorem Upsert_correct_witness:
  "\<exists>s p s'. kv_lookup demo_class s 3 = Absent \<and> Upsert demo_class 1 3 (demo_client 7) 1 s = Inr (Ok, p, s') \<and>
     kv_lookup demo_class s' 3 = Found 7 \<and> serial_num (ctx s') = 1"
proof -
  obtain s where s: "kv_inv demo_class 1 s" "\<forall>k. kv_place demo_class s k" "\<forall>k. kv_lookup demo_class s k = Absent" "tail_offset (hlog_of s) = 64"
    by (rule demo_start, rule that)
  have "fits 24 (hlog_of s)" using s(4) by (simp add: fits_def)
  then show ?thesis
    using Upsert_correct [OF s(1) s(2) [rule_format] demo_sized(1) [of 3 7] demo_contracts(1), of 1] s(3) by (auto simp: demo_client_def)
qed

theorem Rmw_correct_witness:
  "\<exists>s p s'. kv_lookup demo_class s 3 = Absent \<and> Rmw demo_class 1 3 (demo_client 7) 1 s = Inr (Ok, p, s') \<and>
     kv_lookup demo_class s' 3 = Found 7"
proof -
  obtain s where s: "kv_inv demo_class 1 s" "\<forall>k. kv_place demo_class s k" "\<forall>k. kv_lookup demo_class s k = Absent" "tail_offset (hlog_of s) = 64"
    by (rule demo_start, rule that)
  have "fits 24 (hlog_of s)" using s(4) by (simp add: fits_def)
  then show ?thesis
    using Rmw_correct [OF s(1) s(2) [rule_format] demo_sized(1) [of 3 7] demo_contracts(2) demo_sized(2), of 1] s(3) by (auto simp: demo_client_def)
qed

lemma found_in_chain:
  assumes "kv_lookup K s k = Found v"
  obtains a b r where "index_map (index_version (kv_index s)) (kv_index s) (home K (kv_index s) k) = Some a"
    "find (\<lambda>q. rec_key (snd q) = k) (fst (chain_of (hlog_of s) a)) = Some (b, r)" "rec_value r = v"
  using assms by (auto simp: kv_lookup_def lookup_def lookup_chain_def Let_def split: option.splits prod.splits if_splits)

lemma found_mutable:
  assumes "kv_inv K t s" "index_map (index_version (kv_index s)) (kv_index s) (home K (kv_index s) k) = Some a"
    "find (\<lambda>q. rec_key (snd q) = k) (fst (chain_of (hlog_of s) a)) = Some (b, r)" "read_only_address (hlog_of s) = head_address (hlog_of s)"
  shows "read_only_address (hlog_of s) \<le> b" "record_at b (hlog_of s) = Inr r" "rec_key r = k"
proof -
  obtain sl e rs z where e: "at_entry K t s k sl e rs z" "chain_of (hlog_of s) a = (rs, z)"
    by (rule entry_exists [OF assms(1,2)])
  note q = at_entry_record [OF e(1), of b r]
  show "read_only_address (hlog_of s) \<le> b" "record_at b (hlog_of s) = Inr r" "rec_key r = k"
    using q assms(3,4) e(2) by (simp_all add: word_le_nat_alt)
qed

text \<open>Two keys in one chain: the one whose record is not the first survives its deletion.\<close>

theorem Delete_effect_witness:
  "\<exists>k s p s' v. kv_inv demo_class 1 s \<and> kv_lookup demo_class s k = Found v \<and>
     Delete demo_class 1 k (demo_client 0) 3 s = Inr (Ok, p, s') \<and> kv_lookup demo_class s' k = Found v"
proof -
  let ?K = demo_class
  obtain s where s: "kv_inv ?K 1 s" "\<forall>k. kv_place ?K s k" "tail_offset (hlog_of s) = 64" "read_only_address (hlog_of s) = head_address (hlog_of s)"
    by (rule demo_start, rule that)
  have "fits 24 (hlog_of s)" using s(3) by (simp add: fits_def)
  then obtain s1 where s1: "updated ?K 1 1 7 s s1" "stays 24 (hlog_of s) (hlog_of s1)"
    using Upsert_rest [OF s(1) s(2) [rule_format] demo_sized(1) [of 1 7] demo_contracts(1), of 1] by (auto simp: demo_client_def)
  have inv1: "kv_inv ?K 1 s1" and f1: "kv_lookup ?K s1 1 = Found 7" using s1(1) by (simp_all add: updated_def)
  have hm: "home ?K x k = home ?K x k'" for x k k' by (simp add: home_def demo_class_def)
  have "fits 24 (hlog_of s1)" using s(3) s1(2) by (simp add: fits_def stays_def)
  moreover have "kv_place ?K s1 2"
    using found_in_chain [OF f1] unfolding kv_place_def hm [of _ 2 1] by (metis option.distinct(1))
  ultimately obtain s2 where s2: "updated ?K 1 2 8 s1 s2" "stays 24 (hlog_of s1) (hlog_of s2)"
    using Upsert_rest [OF inv1 _ demo_sized(1) [of 2 8] demo_contracts(1), of 1] by (auto simp: demo_client_def)
  have inv2: "kv_inv ?K 1 s2" and f2: "kv_lookup ?K s2 2 = Found 8" "kv_lookup ?K s2 1 = Found 7"
    using s2 f1 by (simp_all add: updated_def demoted_def stays_def)
  have ro: "read_only_address (hlog_of s2) = head_address (hlog_of s2)" using s(4) s1(2) s2(2) by (simp add: stays_def)
  obtain a b r where c1: "index_map (index_version (kv_index s2)) (kv_index s2) (home ?K (kv_index s2) 1) = Some a"
    "find (\<lambda>q. rec_key (snd q) = 1) (fst (chain_of (hlog_of s2) a)) = Some (b, r)" by (rule found_in_chain [OF f2(2)])
  obtain a' b' r' where c2: "index_map (index_version (kv_index s2)) (kv_index s2) (home ?K (kv_index s2) 2) = Some a'"
    "find (\<lambda>q. rec_key (snd q) = 2) (fst (chain_of (hlog_of s2) a')) = Some (b', r')" by (rule found_in_chain [OF f2(1)])
  note m1 = found_mutable [OF inv2 c1 ro] and m2 = found_mutable [OF inv2 c2 ro]
  have "a' = a" using c1(1) c2(1) hm [of _ 2 1] by simp
  moreover have "b \<noteq> b'" using m1 m2 by auto
  ultimately consider "b \<noteq> a" | "b' \<noteq> a'" by blast
  then show ?thesis
  proof cases
    case 1
    then show ?thesis
      using Delete_effect [OF inv2 c1 m1(1), of "demo_client 0" 3] inv2 f2 by (intro exI [of _ 1] exI [of _ s2]) auto
  next
    case 2
    then show ?thesis
      using Delete_effect [OF inv2 c2 m2(1), of "demo_client 0" 3] inv2 f2 by (intro exI [of _ 2] exI [of _ s2]) auto
  qed
qed

end
