(* ===== verification/HashTrie.thy ===== *)
theory HashTrie
  imports Prelude
begin

text \<open>
  The tries of the tables under \<open>mhash\<close>: arrays of slots that hold nothing, a data node or the array of the
  next level, addressed by a few bits of the hash per level (\<open>util.h\<close>), and what the tables do with them:
  the search of \<open>locator\<close>, the insertion that splits data nodes, and the computation of the number of levels in
  the constructors. The operations take the function that gives the slot of a hash on a level, which differs
  between the tables. The locale \<open>trie_slots\<close> is what a table has to promise for its trie to be a map.
\<close>

section \<open>Slots\<close>

primrec get_power2 :: "nat \<Rightarrow> nat" where
  "get_power2 0 = 1"
| "get_power2 (Suc B) = 2 * get_power2 B"

text \<open>\<open>util::level_hash\<close>: the shift of a 64-bit value by 64 or more is undefined.\<close>

definition util_level_hash :: "u64 \<Rightarrow> nat \<Rightarrow> nat \<Rightarrow> nat \<Rightarrow> c_error + nat" where
  "util_level_hash hash level arr_size total_level =
     (let mask = of_nat arr_size - 1 :: u64; shift = of_nat total_level * of_nat level :: u64 in
      if shift \<ge> 64 then Inl UB
      else let ret = drop_bit (unat shift) hash AND mask in
        if ret < of_nat arr_size then Inr (unat ret) else Inl AssertFail)"

section \<open>Nodes\<close>

datatype 'd node = Data 'd | Arr "'d node option list"

type_synonym 'd slots = "'d node option list"

type_synonym slot_fun = "u64 \<Rightarrow> nat \<Rightarrow> c_error + nat"

text \<open>
  The search for a hash from a level on, with the number of levels left; the data node that is found gets the
  content \<open>f d\<close>, or is taken out when that is \<open>None\<close>. \<open>hof\<close> is the hash of a data node.
\<close>

fun visit :: "slot_fun \<Rightarrow> ('d \<Rightarrow> u64) \<Rightarrow> u64 \<Rightarrow> ('d \<Rightarrow> 'd option) \<Rightarrow> nat \<Rightarrow> nat \<Rightarrow> 'd slots \<Rightarrow> c_error + 'd option \<times> 'd slots" where
  "visit sl hof hash f level 0 s = Inr (None, s)"
| "visit sl hof hash f level (Suc n) s =
     bindR (sl hash level) (\<lambda>i.
     bindR (nthR s i) (\<lambda>x.
       case x of None \<Rightarrow> Inr (None, s)
       | Some (Data d) \<Rightarrow> if hash = hof d then Inr (Some d, s[i := map_option Data (f d)]) else Inr (None, s)
       | Some (Arr a) \<Rightarrow> bindR (visit sl hof hash f (level + 1) n a) (\<lambda>(r, a'). Inr (r, s[i := Some (Arr a')]))))"

text \<open>
  The insertion of \<open>d\<close>: whether it reports success, the slots and the pool of spare arrays. A data node in the way
  moves into a new array of the next level, where the search goes on. What is reported when the levels run out
  depends on the last step: \<open>after_split\<close> when it put an array in place of a data node, \<open>after_array\<close> when it followed one.
\<close>

fun insert_node ::
  "slot_fun \<Rightarrow> ('d \<Rightarrow> u64) \<Rightarrow> nat \<Rightarrow> bool \<Rightarrow> bool \<Rightarrow> 'd \<Rightarrow> bool \<Rightarrow> nat \<Rightarrow> nat \<Rightarrow> 'd slots \<Rightarrow> 'd slots list \<Rightarrow>
   c_error + bool \<times> 'd slots \<times> 'd slots list" where
  "insert_node sl hof sz after_split after_array d result level 0 s pool = Inr (result, s, pool)"
| "insert_node sl hof sz after_split after_array d result level (Suc n) s pool =
     bindR (sl (hof d) level) (\<lambda>i.
     bindR (nthR s i) (\<lambda>x.
       case x of None \<Rightarrow> Inr (True, s[i := Some (Data d)], pool)
       | Some (Data d') \<Rightarrow>
           if hof d' = hof d then Inr (False, s, pool)
           else let (a, pool') = (case pool of [] \<Rightarrow> (replicate sz None, []) | a # p \<Rightarrow> (a, p)) in
             bindR (sl (hof d') (level + 1)) (\<lambda>j.
             bindR (nthR a j) (\<lambda>_.
             bindR (insert_node sl hof sz after_split after_array d after_split (level + 1) n (a[j := Some (Data d')]) pool') (\<lambda>(ok, a', p).
               Inr (ok, s[i := Some (Arr a')], p))))
       | Some (Arr a) \<Rightarrow>
           bindR (insert_node sl hof sz after_split after_array d after_array (level + 1) n a pool) (\<lambda>(ok, a', p).
             Inr (ok, s[i := Some (Arr a')], p))))"

section \<open>The number of levels\<close>

text \<open>
  The loop \<open>for (; num < m; num += num * ARRAY_SIZE) level++\<close> of the constructors. The multiplication wraps, so
  the end of the loop is not obvious: without one there is no value.
\<close>

partial_function (option) levels_loop :: "u64 \<Rightarrow> u64 \<Rightarrow> u64 \<Rightarrow> nat \<Rightarrow> nat option" where
  "levels_loop sz m num level = (if num < m then levels_loop sz m (num + num * sz) (level + 1) else Some level)"

text \<open>\<open>max_level_\<close> and \<open>max_\<close> of the constructors of \<open>BasicHashTable\<close> and \<open>ConcurrentHashTable\<close>, for keys of \<open>B\<close> bytes.\<close>

definition table_levels :: "nat \<Rightarrow> nat \<Rightarrow> (nat \<times> u64) option" where
  "table_levels array_size B =
     (let total_bit = B * 8; sz = of_nat array_size in
      if total_bit < 64 then map_option (\<lambda>level. (level, 2 ^ total_bit)) (levels_loop sz (2 ^ total_bit) sz 1)
      else map_option (\<lambda>level. (level + 1, - 1)) (levels_loop sz (- 1 div 2) sz 1))"

fun levels_within :: "nat \<Rightarrow> u64 \<Rightarrow> u64 \<Rightarrow> u64 \<Rightarrow> nat \<Rightarrow> nat option" where
  "levels_within 0 sz m num level = None"
| "levels_within (Suc k) sz m num level =
     (if num < m then levels_within k sz m (num + num * sz) (level + 1) else Some level)"

lemma levels_within_loop: "levels_within k sz m num level = Some r \<Longrightarrow> levels_loop sz m num level = Some r"
proof (induction k arbitrary: num level)
  case (Suc k)
  then show ?case by (subst levels_loop.simps) (simp split: if_splits)
qed simp

section \<open>The trie as a map\<close>

text \<open>The data node that a hash leads to.\<close>

function trie_find :: "slot_fun \<Rightarrow> ('d \<Rightarrow> u64) \<Rightarrow> nat \<Rightarrow> u64 \<Rightarrow> 'd node option \<Rightarrow> 'd option" where
  "trie_find sl hof level h None = None"
| "trie_find sl hof level h (Some (Data d)) = (if h = hof d then Some d else None)"
| "trie_find sl hof level h (Some (Arr a)) =
     (case sl h level of Inl _ \<Rightarrow> None | Inr i \<Rightarrow> if i < length a then trie_find sl hof (level + 1) h (a ! i) else None)"
  by pat_completeness auto
termination
proof (relation "measure (\<lambda>(sl, hof, level, h, x). size_option size x)", goal_cases)
  case (2 sl hof level h a b)
  then show ?case using size_list_estimation' [of "a ! b" a "size_option size (a ! b)" "size_option size"] by simp
qed simp

text \<open>Every data node lies where its hash leads; the arrays have the width of their level and do not go below \<open>depth\<close>.\<close>

inductive node_ok :: "slot_fun \<Rightarrow> ('d \<Rightarrow> u64) \<Rightarrow> (nat \<Rightarrow> nat) \<Rightarrow> nat \<Rightarrow> nat \<Rightarrow> 'd node option \<Rightarrow> bool" for sl hof width depth where
  empty: "node_ok sl hof width depth level None"
| data: "node_ok sl hof width depth level (Some (Data d))"
| arr: "level < depth \<Longrightarrow> length a = width level \<Longrightarrow>
    (\<And>i. i < length a \<Longrightarrow> node_ok sl hof width depth (level + 1) (a ! i)) \<Longrightarrow>
    (\<And>i n d. i < length a \<Longrightarrow> a ! i = Some n \<Longrightarrow> d \<in> set_node n \<Longrightarrow> sl (hof d) level = Inr i) \<Longrightarrow>
    node_ok sl hof width depth level (Some (Arr a))"

inductive_cases node_ok_arr: "node_ok sl hof width depth level (Some (Arr a))"

lemma node_ok_update:
  assumes "node_ok sl hof width depth level (Some (Arr s))" "i < length s" "node_ok sl hof width depth (level + 1) x"
    and "\<And>n d. x = Some n \<Longrightarrow> d \<in> set_node n \<Longrightarrow> sl (hof d) level = Inr i"
  shows "node_ok sl hof width depth level (Some (Arr (s[i := x])))"
  using assms by (auto elim!: node_ok_arr intro!: node_ok.arr simp: nth_list_update split: if_splits)

lemma trie_find_arr:
  "sl h level = Inr i \<Longrightarrow> i < length s \<Longrightarrow> trie_find sl hof level h (Some (Arr s)) = trie_find sl hof (level + 1) h (s ! i)"
  by simp

declare trie_find.simps(3) [simp del]

lemma trie_find_hash: "trie_find sl hof level h x = Some d \<Longrightarrow> hof d = h"
proof (induction sl hof level h x rule: trie_find.induct)
  case (3 sl hof level h a)
  then show ?case by (auto simp: trie_find.simps(3) split: sum.splits if_splits)
qed (auto split: if_splits)


lemma find_update:
  assumes "sl h level = Inr j" "j < length s"
  shows "trie_find sl hof level h (Some (Arr (s[i := x]))) =
    (if j = i then trie_find sl hof (level + 1) h x else trie_find sl hof level h (Some (Arr s)))"
  using assms trie_find_arr [of sl h level j "s[i := x]"] trie_find_arr [of sl h level j s] by (simp add: nth_list_update)

lemma node_update_set: "i < length s \<Longrightarrow> set_node (Arr (s[i := x])) \<subseteq> set_node (Arr s) \<union> (\<Union>n \<in> set_option x. set_node n)"
  by (fastforce dest!: subsetD [OF set_update_subset_insert])

lemma node_nth_set: "i < length s \<Longrightarrow> s ! i = Some n \<Longrightarrow> set_node n \<subseteq> set_node (Arr s)"
  by (auto intro: nth_mem)

lemma node_option_set: "i < length s \<Longrightarrow> (\<Union>n \<in> set_option (s ! i). set_node n) \<subseteq> set_node (Arr s)"
  by (auto intro: nth_mem)

lemma empty_node_set: "set_node (Arr (replicate n None)) = {}"
  by auto

declare node.set(2) [simp del]

lemma image_step: "S' \<subseteq> S \<union> A \<Longrightarrow> f ` A \<subseteq> insert x (f ` B) \<Longrightarrow> B \<subseteq> S \<Longrightarrow> f ` S' \<subseteq> insert x (f ` S)"
  by blast

text \<open>
  The promise of a table: up to some depth each hash has a slot on each level, and two hashes with the same
  slots on all these levels are equal.
\<close>

locale trie_slots =
  fixes sl :: slot_fun and width :: "nat \<Rightarrow> nat" and depth :: nat
  assumes slot_in: "l < depth \<Longrightarrow> \<exists>i < width l. sl h l = Inr i"
    and separate: "(\<And>l. l < depth \<Longrightarrow> sl h l = sl h' l) \<Longrightarrow> h = h'"
begin

lemma slot_of_level:
  assumes "node_ok sl hof width depth level (Some (Arr s))"
  obtains i where "sl h level = Inr i" "i < length s"
  using assms slot_in [of level h] by (auto elim!: node_ok_arr)

text \<open>A search finds what the trie maps the hash to, and changes only that.\<close>

lemma visit_correct:
  assumes "node_ok sl hof width depth level (Some (Arr s))" "depth \<le> level + n" "\<And>d d'. f d = Some d' \<Longrightarrow> hof d' = hof d"
  shows "\<exists>s'. visit sl hof h f level n s = Inr (trie_find sl hof level h (Some (Arr s)), s') \<and>
    node_ok sl hof width depth level (Some (Arr s')) \<and> hof ` set_node (Arr s') \<subseteq> hof ` set_node (Arr s) \<and>
    (\<forall>h'. trie_find sl hof level h' (Some (Arr s')) =
       (if h' = h then Option.bind (trie_find sl hof level h (Some (Arr s))) f else trie_find sl hof level h' (Some (Arr s))))"
  using assms(1,2)
proof (induction n arbitrary: level s)
  case 0
  then show ?case by (auto elim!: node_ok_arr)
next
  case (Suc n)
  obtain i where i: "sl h level = Inr i" "i < length s" by (rule slot_of_level [OF Suc.prems(1)])
  have ok: "node_ok sl hof width depth (level + 1) (s ! i)" "\<And>m d. s ! i = Some m \<Longrightarrow> d \<in> set_node m \<Longrightarrow> sl (hof d) level = Inr i"
    using Suc.prems(1) i(2) by (auto elim!: node_ok_arr)
  have find: "trie_find sl hof level h' (Some (Arr (s[i := x]))) =
      (if sl h' level = Inr i then trie_find sl hof (level + 1) h' x else trie_find sl hof level h' (Some (Arr s)))" for h' x
  proof -
    obtain j where "sl h' level = Inr j" "j < length s" by (rule slot_of_level [OF Suc.prems(1)])
    then show ?thesis by (simp add: find_update)
  qed
  show ?case
  proof (cases "s ! i")
    case None
    then show ?thesis using i Suc.prems(1) trie_find_arr [of sl h level i s hof] by (intro exI [of _ s]) auto
  next
    case (Some m)
    show ?thesis
    proof (cases m)
      case (Data d)
      show ?thesis
      proof (cases "h = hof d")
        case True
        let ?s = "s[i := map_option Data (f d)]"
        have nok: "node_ok sl hof width depth level (Some (Arr ?s))"
          using Some Data True i assms(3)
          by (intro node_ok_update [OF Suc.prems(1) i(2)]) (cases "f d"; auto intro: node_ok.intros)+
        have "set_node (Arr ?s) \<subseteq> set_node (Arr s) \<union> set_option (f d)"
          using node_update_set [OF i(2), of "map_option Data (f d)"] by (cases "f d") auto
        moreover have "hof ` set_option (f d) \<subseteq> hof ` set_node (Arr s)"
          using node_nth_set [OF i(2) Some] Data assms(3) [of d] by (cases "f d") auto
        ultimately have "hof ` set_node (Arr ?s) \<subseteq> hof ` set_node (Arr s)" by blast
        moreover have "trie_find sl hof level h' (Some (Arr ?s)) =
            (if h' = h then Option.bind (trie_find sl hof level h (Some (Arr s))) f else trie_find sl hof level h' (Some (Arr s)))" for h'
          unfolding find using Some Data True i assms(3) [of d] trie_find_arr [of sl _ level i s hof] by (cases "f d") auto
        ultimately show ?thesis using nok Some Data True i trie_find_arr [of sl h level i s hof] by (intro exI [of _ ?s]) auto
      next
        case False
        then show ?thesis using i Some Data Suc.prems(1) trie_find_arr [of sl h level i s hof] by (intro exI [of _ s]) auto
      qed
    next
      case (Arr a)
      have oa: "node_ok sl hof width depth (level + 1) (Some (Arr a))" using ok(1) Some Arr by simp
      obtain a' where a': "visit sl hof h f (level + 1) n a = Inr (trie_find sl hof (level + 1) h (Some (Arr a)), a')"
        "node_ok sl hof width depth (level + 1) (Some (Arr a'))" "hof ` set_node (Arr a') \<subseteq> hof ` set_node (Arr a)"
        "\<forall>h'. trie_find sl hof (level + 1) h' (Some (Arr a')) =
           (if h' = h then Option.bind (trie_find sl hof (level + 1) h (Some (Arr a))) f
            else trie_find sl hof (level + 1) h' (Some (Arr a)))"
        using Suc.IH [OF oa] Suc.prems(2) by auto
      let ?s = "s[i := Some (Arr a')]"
      have "sl (hof d) level = Inr i" if "d \<in> set_node (Arr a')" for d
        using that a'(3) ok(2) [of "Arr a"] Some Arr by (metis image_iff subsetD imageI)
      then have "node_ok sl hof width depth level (Some (Arr ?s))"
        using a'(2) by (intro node_ok_update [OF Suc.prems(1) i(2)]) auto
      moreover have "hof ` set_node (Arr ?s) \<subseteq> hof ` set_node (Arr s)"
      proof -
        have "set_node (Arr ?s) \<subseteq> set_node (Arr s) \<union> set_node (Arr a')"
          using node_update_set [OF i(2), of "Some (Arr a')"] by simp
        moreover have "set_node (Arr a) \<subseteq> set_node (Arr s)" using node_nth_set [OF i(2) Some] unfolding Arr .
        ultimately show ?thesis using a'(3) by blast
      qed
      moreover have "trie_find sl hof level h' (Some (Arr ?s)) =
          (if h' = h then Option.bind (trie_find sl hof level h (Some (Arr s))) f else trie_find sl hof level h' (Some (Arr s)))" for h'
      proof (cases "sl h' level = Inr i")
        case True
        have "trie_find sl hof level h'' (Some (Arr s)) = trie_find sl hof (level + 1) h'' (Some (Arr a))"
          if "sl h'' level = Inr i" for h'' using trie_find_arr [of sl _ level i s hof] that i(2) Some Arr by simp
        then show ?thesis unfolding find using True a'(4) i(1) by simp
      next
        case False
        then show ?thesis unfolding find using i by auto
      qed
      ultimately show ?thesis using a'(1) i Some Arr trie_find_arr [of sl h level i s hof] by (intro exI [of _ ?s]) simp
    qed
  qed
qed

text \<open>A fresh array with one data node.\<close>

lemma single_node:
  assumes "level < depth" "width level = sz" "sl (hof d) level = Inr j"
  shows "node_ok sl hof width depth level (Some (Arr ((replicate sz None)[j := Some (Data d)])))"
    and "trie_find sl hof level h (Some (Arr ((replicate sz None)[j := Some (Data d)]))) = (if h = hof d then Some d else None)"
proof -
  have e: "node_ok sl hof width depth level (Some (Arr (replicate sz None)))"
    using assms by (intro node_ok.arr) (auto intro: node_ok.intros)
  have j: "j < sz" using slot_in [OF assms(1), of "hof d"] assms(2,3) by auto
  then show "node_ok sl hof width depth level (Some (Arr ((replicate sz None)[j := Some (Data d)])))"
    using assms(3) by (intro node_ok_update [OF e]) (auto intro: node_ok.intros)
  obtain i where "sl h level = Inr i" "i < sz" using slot_in [OF assms(1), of h] assms(2) by auto
  then show "trie_find sl hof level h (Some (Arr ((replicate sz None)[j := Some (Data d)]))) = (if h = hof d then Some d else None)"
    using j assms(3) by (auto simp: trie_find_arr nth_list_update)
qed

text \<open>Replacing what a slot holds by an array in which \<open>d\<close> was inserted.\<close>

lemma insert_below:
  assumes s: "node_ok sl hof width depth level (Some (Arr s))" and i: "sl (hof d) level = Inr i" "i < length s"
    and a: "node_ok sl hof width depth (level + 1) (Some (Arr a'))" "hof ` set_node (Arr a') \<subseteq> insert (hof d) (hof ` (\<Union>n \<in> set_option (s ! i). set_node n))"
    and f: "\<forall>h. trie_find sl hof (level + 1) h (Some (Arr a')) = (if h = hof d \<and> new then Some d else trie_find sl hof (level + 1) h (s ! i))"
  shows "node_ok sl hof width depth level (Some (Arr (s[i := Some (Arr a')])))"
    and "hof ` set_node (Arr (s[i := Some (Arr a')])) \<subseteq> insert (hof d) (hof ` set_node (Arr s))"
    and "trie_find sl hof level h (Some (Arr (s[i := Some (Arr a')]))) =
      (if h = hof d \<and> new then Some d else trie_find sl hof level h (Some (Arr s)))"
proof -
  have ok: "\<And>m d. s ! i = Some m \<Longrightarrow> d \<in> set_node m \<Longrightarrow> sl (hof d) level = Inr i"
    using s i(2) by (auto elim!: node_ok_arr)
  have "sl (hof e) level = Inr i" if "e \<in> set_node (Arr a')" for e
  proof -
    have "hof e = hof d \<or> (\<exists>m e'. s ! i = Some m \<and> e' \<in> set_node m \<and> hof e = hof e')" using a(2) that by (cases "s ! i") auto
    then show ?thesis using ok i(1) by auto
  qed
  then show "node_ok sl hof width depth level (Some (Arr (s[i := Some (Arr a')])))"
    using a(1) by (intro node_ok_update [OF s i(2)]) auto
  have "set_node (Arr (s[i := Some (Arr a')])) \<subseteq> set_node (Arr s) \<union> set_node (Arr a')"
    using node_update_set [OF i(2), of "Some (Arr a')"] by simp
  moreover have "(\<Union>n \<in> set_option (s ! i). set_node n) \<subseteq> set_node (Arr s)" by (rule node_option_set [OF i(2)])
  ultimately show "hof ` set_node (Arr (s[i := Some (Arr a')])) \<subseteq> insert (hof d) (hof ` set_node (Arr s))"
    using image_step [OF _ a(2)] by blast
  obtain j where j: "sl h level = Inr j" "j < length s" by (rule slot_of_level [OF s])
  show "trie_find sl hof level h (Some (Arr (s[i := Some (Arr a')]))) =
      (if h = hof d \<and> new then Some d else trie_find sl hof level h (Some (Arr s)))"
    using find_update [of sl h level j s hof i "Some (Arr a')"] trie_find_arr [of sl h level j s hof] f i j by auto
qed

text \<open>An insertion adds the data node unless its hash is there already.\<close>

lemma trie_insert_correct:
  assumes sz: "\<And>l. 0 < l \<Longrightarrow> width l = sz"
    and "node_ok sl hof width depth level (Some (Arr s))" "depth \<le> level + n"
    "\<forall>d' \<in> set_node (Arr s). \<forall>l < level. sl (hof d') l = sl (hof d) l" "\<forall>a \<in> set pool. a = replicate sz None"
  shows "\<exists>s' pool'. insert_node sl hof sz fs fa d result level n s pool = Inr (trie_find sl hof level (hof d) (Some (Arr s)) = None, s', pool') \<and>
    node_ok sl hof width depth level (Some (Arr s')) \<and> set pool' \<subseteq> set pool \<and>
    hof ` set_node (Arr s') \<subseteq> insert (hof d) (hof ` set_node (Arr s)) \<and>
    (\<forall>h. trie_find sl hof level h (Some (Arr s')) =
       (if h = hof d \<and> trie_find sl hof level (hof d) (Some (Arr s)) = None then Some d else trie_find sl hof level h (Some (Arr s))))"
  using assms(2-5)
proof (induction n arbitrary: result level s pool)
  case 0
  then show ?case by (auto elim!: node_ok_arr)
next
  case (Suc n)
  obtain i where i: "sl (hof d) level = Inr i" "i < length s" by (rule slot_of_level [OF Suc.prems(1)])
  note fi = trie_find_arr [of sl "hof d" level i s hof, OF i]
  have ok: "node_ok sl hof width depth (level + 1) (s ! i)" "\<And>m d. s ! i = Some m \<Longrightarrow> d \<in> set_node m \<Longrightarrow> sl (hof d) level = Inr i"
    using Suc.prems(1) i(2) by (auto elim!: node_ok_arr)
  have agree: "\<forall>l < level + 1. sl (hof d') l = sl (hof d) l" if "s ! i = Some m" "d' \<in> set_node m" for m d'
  proof -
    have "d' \<in> set_node (Arr s)" using node_nth_set [OF i(2) that(1)] that(2) by blast
    then show ?thesis using Suc.prems(3) ok(2) [OF that] i(1) by (simp add: less_Suc_eq)
  qed
  show ?case
  proof (cases "s ! i")
    case None
    let ?s = "s[i := Some (Data d)]"
    have "node_ok sl hof width depth level (Some (Arr ?s))"
      using i by (intro node_ok_update [OF Suc.prems(1) i(2)]) (auto intro: node_ok.intros)
    moreover have "hof ` set_node (Arr ?s) \<subseteq> insert (hof d) (hof ` set_node (Arr s))"
      using node_update_set [OF i(2), of "Some (Data d)"] by auto
    moreover have "trie_find sl hof level h (Some (Arr ?s)) = (if h = hof d then Some d else trie_find sl hof level h (Some (Arr s)))" for h
    proof -
      obtain j where j: "sl h level = Inr j" "j < length s" by (rule slot_of_level [OF Suc.prems(1)])
      show ?thesis using find_update [of sl h level j s hof i "Some (Data d)"] trie_find_arr [of sl h level j s hof] i j None by auto
    qed
    ultimately show ?thesis using i None fi by (intro exI [of _ ?s] exI [of _ pool]) simp
  next
    case (Some m)
    show ?thesis
    proof (cases m)
      case (Data d')
      show ?thesis
      proof (cases "hof d' = hof d")
        case True
        then show ?thesis using i Some Data fi Suc.prems(1) by (intro exI [of _ s] exI [of _ pool]) auto
      next
        case False
        have lt: "level + 1 < depth"
        proof (rule ccontr)
          assume "\<not> level + 1 < depth"
          then have "sl (hof d') l = sl (hof d) l" if "l < depth" for l using agree [OF Some] Data that by auto
          then show False using separate [of "hof d'" "hof d"] False by blast
        qed
        obtain j where j: "sl (hof d') (level + 1) = Inr j" "j < sz" using slot_in [OF lt, of "hof d'"] sz by auto
        let ?pool = "case pool of [] \<Rightarrow> [] | a # p \<Rightarrow> p" and ?a = "(replicate sz None)[j := Some (Data d')]"
        have p: "(case pool of [] \<Rightarrow> (replicate sz None, []) | a # p \<Rightarrow> (a, p)) = (replicate sz None, ?pool)"
          "set ?pool \<subseteq> set pool" using Suc.prems(4) by (auto split: list.splits)
        have w: "width (level + 1) = sz" by (rule sz) simp
        note one = single_node [where hof = hof and d = d', OF lt w j(1)]
        have sub: "set_node (Arr ?a) \<subseteq> {d'}" using j(2) node_update_set [of j "replicate sz None" "Some (Data d')"] by (simp add: empty_node_set)
        have none: "(trie_find sl hof (level + 1) (hof d) (Some (Arr ?a)) = None) = True" using one(2) False by simp
        have side: "depth \<le> level + 1 + n" "\<forall>d'' \<in> set_node (Arr ?a). \<forall>l < level + 1. sl (hof d'') l = sl (hof d) l"
          "\<forall>a \<in> set ?pool. a = replicate sz None"
          using Suc.prems(2,4) sub agree [OF Some] Data p(2) by auto
        obtain a' p' where a': "insert_node sl hof sz fs fa d fs (level + 1) n ?a ?pool = Inr (True, a', p')"
          "node_ok sl hof width depth (level + 1) (Some (Arr a'))" "set p' \<subseteq> set ?pool"
          "hof ` set_node (Arr a') \<subseteq> insert (hof d) (hof ` set_node (Arr ?a))"
          "\<forall>h. trie_find sl hof (level + 1) h (Some (Arr a')) = (if h = hof d then Some d else if h = hof d' then Some d' else None)"
          using Suc.IH [OF one(1) side, unfolded none, of fs] unfolding one(2) by auto
        have "hof ` set_node (Arr a') \<subseteq> insert (hof d) (hof ` (\<Union>n \<in> set_option (s ! i). set_node n))"
          "\<forall>h. trie_find sl hof (level + 1) h (Some (Arr a')) = (if h = hof d \<and> True then Some d else trie_find sl hof (level + 1) h (s ! i))"
          using a'(4,5) sub Some Data by auto
        note b = insert_below [OF Suc.prems(1) i a'(2) this]
        show ?thesis using b a'(1,3) p i j Some Data False fi
          by (intro exI [of _ "s[i := Some (Arr a')]"] exI [of _ p']) auto
      qed
    next
      case (Arr a)
      have oa: "node_ok sl hof width depth (level + 1) (Some (Arr a))" using ok(1) Some Arr by simp
      have side: "depth \<le> level + 1 + n" "\<forall>d'' \<in> set_node (Arr a). \<forall>l < level + 1. sl (hof d'') l = sl (hof d) l"
        using Suc.prems(2) agree [OF Some] Arr by auto
      let ?new = "trie_find sl hof (level + 1) (hof d) (Some (Arr a)) = None"
      obtain a' p' where a': "insert_node sl hof sz fs fa d fa (level + 1) n a pool = Inr (?new, a', p')"
        "node_ok sl hof width depth (level + 1) (Some (Arr a'))" "set p' \<subseteq> set pool"
        "hof ` set_node (Arr a') \<subseteq> insert (hof d) (hof ` set_node (Arr a))"
        "\<forall>h. trie_find sl hof (level + 1) h (Some (Arr a')) = (if h = hof d \<and> ?new then Some d else trie_find sl hof (level + 1) h (Some (Arr a)))"
        using Suc.IH [OF oa side Suc.prems(4), of fa] by auto
      have "hof ` set_node (Arr a') \<subseteq> insert (hof d) (hof ` (\<Union>n \<in> set_option (s ! i). set_node n))"
        "\<forall>h. trie_find sl hof (level + 1) h (Some (Arr a')) = (if h = hof d \<and> ?new then Some d else trie_find sl hof (level + 1) h (s ! i))"
        using a'(4,5) Some Arr by auto
      note b = insert_below [OF Suc.prems(1) i a'(2) this]
      show ?thesis using b a'(1,3) i Some Arr fi
        by (intro exI [of _ "s[i := Some (Arr a')]"] exI [of _ p']) auto
    qed
  qed
qed

end

end
