(* ===== verification/BasicTable.thy ===== *)
theory BasicTable
  imports HashTrie
begin

text \<open>
  The table \<open>BasicHashTable\<close> (\<open>mhash/basic_hash_table.h\<close>) for one thread: its constructors, \<open>Reserve\<close>, \<open>Insert\<close>, \<open>Get\<close>,
  \<open>Find\<close>, \<open>Remove\<close>, \<open>Update\<close> and \<open>Size\<close>. \<open>H\<close> is the hash function, \<open>L\<close> the template parameter \<open>HASH_LEVEL\<close> and \<open>B\<close> the size of
  a key in bytes. Two keys count as the same when their hashes are equal.
\<close>

section \<open>The table\<close>

definition ARRAY_SIZE :: "nat \<Rightarrow> nat" where
  "ARRAY_SIZE L = (if L > 10 then 65536 else get_power2 L)"

record ('k, 'v) basic_table =
  root_node :: "('k \<times> 'v) slots"
  pool :: "('k \<times> 'v) slots list"
  table_count :: u64
  max_level :: nat
  max_elements :: u64

definition basic_slot :: "nat \<Rightarrow> slot_fun" where
  "basic_slot L hash level = util_level_hash hash level (ARRAY_SIZE L) L"

definition data_hash :: "('k \<Rightarrow> u64) \<Rightarrow> 'k \<times> 'v \<Rightarrow> u64" where
  "data_hash H d = H (fst d)"

text \<open>\<open>array_node_pool::put\<close> and \<open>Reserve\<close>.\<close>

definition pool_put :: "nat \<Rightarrow> u64 \<Rightarrow> ('k, 'v) basic_table \<Rightarrow> ('k, 'v) basic_table" where
  "pool_put L n t = t\<lparr>pool := replicate (unat n) (replicate (ARRAY_SIZE L) None) @ pool t\<rparr>"

definition basic_Reserve :: "nat \<Rightarrow> u64 \<Rightarrow> ('k, 'v) basic_table \<Rightarrow> ('k, 'v) basic_table" where
  "basic_Reserve L new_cap t =
     (let A = of_nat (ARRAY_SIZE L);
          new_arr = (if new_cap mod A \<noteq> 0 then new_cap div A else new_cap div A + 1) in pool_put L new_arr t)"

text \<open>The constructors; \<open>None\<close> stands for a loop that does not end.\<close>

definition BasicHashTable :: "nat \<Rightarrow> nat \<Rightarrow> ('k, 'v) basic_table option" where
  "BasicHashTable L B =
     map_option (\<lambda>(level, m). \<lparr>root_node = replicate (ARRAY_SIZE L) None, pool = [], table_count = 0, max_level = level,
       max_elements = m\<rparr>) (table_levels (ARRAY_SIZE L) B)"

definition BasicHashTable_capacity :: "nat \<Rightarrow> nat \<Rightarrow> u64 \<Rightarrow> ('k, 'v) basic_table option" where
  "BasicHashTable_capacity L B capacity = map_option (basic_Reserve L capacity) (BasicHashTable L B)"

definition basic_locate ::
  "('k \<Rightarrow> u64) \<Rightarrow> nat \<Rightarrow> 'k \<Rightarrow> ('k \<times> 'v \<Rightarrow> ('k \<times> 'v) option) \<Rightarrow> ('k, 'v) basic_table \<Rightarrow>
   c_error + ('k \<times> 'v) option \<times> ('k \<times> 'v) slots" where
  "basic_locate H L k f t = visit (basic_slot L) (data_hash H) (H k) f 0 (max_level t) (root_node t)"

text \<open>
  The two assertions of \<open>Insert\<close> compare the key and the value of the new data node with the arguments that the node was
  built from in the same call; with \<open>std::equal_to\<close> they hold whatever the table contains, and have no branch here.
\<close>

definition basic_Insert :: "('k \<Rightarrow> u64) \<Rightarrow> nat \<Rightarrow> 'k \<Rightarrow> 'v \<Rightarrow> ('k, 'v) basic_table \<Rightarrow> c_error + bool \<times> ('k, 'v) basic_table" where
  "basic_Insert H L k v t =
     bindR (insert_node (basic_slot L) (data_hash H) (ARRAY_SIZE L) False False (k, v) False 0 (max_level t) (root_node t) (pool t)) (\<lambda>(ok, s, p).
       let t' = t\<lparr>root_node := s, pool := p\<rparr> in
       Inr (ok, if ok then t'\<lparr>table_count := table_count t + 1\<rparr> else t'))"

definition basic_Get :: "('k \<Rightarrow> u64) \<Rightarrow> nat \<Rightarrow> 'k \<Rightarrow> ('k, 'v) basic_table \<Rightarrow> c_error + 'k \<times> 'v" where
  "basic_Get H L k t =
     bindR (basic_locate H L k Some t) (\<lambda>(r, _).
       case r of None \<Rightarrow> Inl Thrown | Some d \<Rightarrow> if fst d = k then Inr d else Inl AssertFail)"

definition basic_Find :: "('k \<Rightarrow> u64) \<Rightarrow> nat \<Rightarrow> 'k \<Rightarrow> ('k, 'v) basic_table \<Rightarrow> c_error + ('k \<times> 'v) option" where
  "basic_Find H L k t =
     bindR (basic_locate H L k Some t) (\<lambda>(r, _).
       case r of None \<Rightarrow> Inr None | Some d \<Rightarrow> if fst d = k then Inr (Some d) else Inl AssertFail)"

definition basic_Remove :: "('k \<Rightarrow> u64) \<Rightarrow> nat \<Rightarrow> 'k \<Rightarrow> ('k, 'v) basic_table \<Rightarrow> c_error + bool \<times> ('k, 'v) basic_table" where
  "basic_Remove H L k t =
     bindR (basic_locate H L k (\<lambda>_. None) t) (\<lambda>(r, s).
       case r of None \<Rightarrow> Inr (False, t) | Some _ \<Rightarrow> Inr (True, t\<lparr>root_node := s, table_count := table_count t - 1\<rparr>))"

definition basic_Update :: "('k \<Rightarrow> u64) \<Rightarrow> nat \<Rightarrow> 'k \<Rightarrow> 'v \<Rightarrow> ('k, 'v) basic_table \<Rightarrow> c_error + bool \<times> ('k, 'v) basic_table" where
  "basic_Update H L k v t =
     bindR (basic_locate H L k (\<lambda>d. Some (fst d, v)) t) (\<lambda>(r, s).
       case r of None \<Rightarrow> Inr (False, t) | Some _ \<Rightarrow> Inr (True, t\<lparr>root_node := s\<rparr>))"

definition basic_Size :: "('k, 'v) basic_table \<Rightarrow> u64" where
  "basic_Size t = table_count t"

section \<open>The slots of a hash\<close>

lemma get_power2_pow: "get_power2 B = 2 ^ B"
  by (induction B) auto

lemma level_hash_bits:
  assumes "W \<le> 16" "L * l < 64"
  shows "util_level_hash h l (2 ^ W) L = Inr (unat (take_bit W (drop_bit (L * l) h)))"
proof -
  have sh: "unat (of_nat L * of_nat l :: u64) = L * l"
    using unat_of_nat_u64 [of "L * l"] assms(2) by simp
  have "of_nat (2 ^ W) - 1 = (mask W :: u64)" by (simp add: mask_eq_exp_minus_1)
  then have m: "drop_bit (L * l) h AND (of_nat (2 ^ W) - 1) = take_bit W (drop_bit (L * l) h)"
    by (simp only: take_bit_eq_mask)
  have u: "unat (2 ^ W :: u64) = 2 ^ W" using unat_pow2_u64 [of W] assms(1) by simp
  have "unat (take_bit W (drop_bit (L * l) h)) < 2 ^ W" by (simp add: unsigned_take_bit_eq)
  then have "take_bit W (drop_bit (L * l) h) < of_nat (2 ^ W)" by (simp add: word_less_nat_alt u)
  moreover have "\<not> (64 :: u64) \<le> of_nat L * of_nat l" using sh assms(2) by (simp add: word_le_nat_alt)
  ultimately show ?thesis by (simp only: util_level_hash_def Let_def sh m if_False if_True)
qed

lemma bits_separate:
  assumes "0 < L" "64 \<le> L * depth" "\<And>l. l < depth \<Longrightarrow> L * l < 64 \<Longrightarrow> take_bit L (drop_bit (L * l) h) = take_bit L (drop_bit (L * l) (h' :: u64))"
  shows "h = h'"
proof (rule bit_word_eqI)
  fix n assume n: "n < LENGTH(64)"
  have e: "L * (n div L) + n mod L = n" by simp
  have n64: "n < 64" using n by simp
  have "n < depth * L" using n64 assms(2) by (simp only: mult.commute)
  then have "n div L < depth" using assms(1) by (simp add: div_less_iff_less_mult)
  moreover have "L * (n div L) < 64" using e n64 by linarith
  ultimately have "bit (take_bit L (drop_bit (L * (n div L)) h)) (n mod L) = bit (take_bit L (drop_bit (L * (n div L)) h')) (n mod L)"
    using assms(3) by simp
  then show "bit h n = bit h' n" using assms(1) e by (simp add: bit_take_bit_iff bit_drop_bit_eq add.commute)
qed

definition basic_depth :: "nat \<Rightarrow> nat" where
  "basic_depth L = (63 + L) div L"

lemma basic_trie:
  assumes "0 < L" "L \<le> 10"
  shows "trie_slots (basic_slot L) (\<lambda>_. ARRAY_SIZE L) (basic_depth L)"
proof
  have A: "ARRAY_SIZE L = 2 ^ L" using assms by (simp add: ARRAY_SIZE_def get_power2_pow)
  have in64: "L * l < 64" if "l < basic_depth L" for l
  proof -
    have "L * (l + 1) \<le> L * ((63 + L) div L)" using that by (intro mult_le_mono2) (simp add: basic_depth_def)
    also have "\<dots> \<le> 63 + L" by (simp add: mult.commute)
    finally show ?thesis by simp
  qed
  have sl: "basic_slot L h l = Inr (unat (take_bit L (drop_bit (L * l) h)))" if "l < basic_depth L" for h l
    using level_hash_bits [OF _ in64 [OF that], of L] assms(2) by (simp add: basic_slot_def A)
  show "\<exists>i < ARRAY_SIZE L. basic_slot L h l = Inr i" if "l < basic_depth L" for l h
    using sl [OF that] by (simp add: A unsigned_take_bit_eq)
  have "63 < L * basic_depth L"
    using assms(1) dividend_less_div_times [of L "63 + L"] by (simp add: basic_depth_def mult.commute)
  then show "h = h'" if "\<And>l. l < basic_depth L \<Longrightarrow> basic_slot L h l = basic_slot L h' l" for h h'
    using bits_separate [OF assms(1), of "basic_depth L" h h'] that sl by (simp add: word_unat_eq_iff)
qed

interpretation basic4: trie_slots "basic_slot 4" "\<lambda>_. ARRAY_SIZE 4" "basic_depth 4"
  by (rule basic_trie) simp_all

section \<open>The table as a map\<close>

definition basic_map :: "('k \<Rightarrow> u64) \<Rightarrow> nat \<Rightarrow> ('k, 'v) basic_table \<Rightarrow> u64 \<Rightarrow> ('k \<times> 'v) option" where
  "basic_map H L t h = trie_find (basic_slot L) (data_hash H) 0 h (Some (Arr (root_node t)))"

definition basic_lookup :: "('k \<Rightarrow> u64) \<Rightarrow> nat \<Rightarrow> ('k, 'v) basic_table \<Rightarrow> 'k \<Rightarrow> 'v option" where
  "basic_lookup H L t k = map_option snd (basic_map H L t (H k))"

definition basic_inv :: "('k \<Rightarrow> u64) \<Rightarrow> nat \<Rightarrow> ('k, 'v) basic_table \<Rightarrow> bool" where
  "basic_inv H L t \<longleftrightarrow> 0 < L \<and> L \<le> 10 \<and> node_ok (basic_slot L) (data_hash H) (\<lambda>_. ARRAY_SIZE L) (basic_depth L) 0 (Some (Arr (root_node t))) \<and>
     basic_depth L \<le> max_level t \<and> (\<forall>a \<in> set (pool t). a = replicate (ARRAY_SIZE L) None) \<and>
     finite (dom (basic_map H L t)) \<and> table_count t = of_nat (card (dom (basic_map H L t)))"

lemma basic_map_key: "basic_map H L t h = Some d \<Longrightarrow> H (fst d) = h"
  using trie_find_hash [of _ "data_hash H" 0 h _ d] by (simp add: basic_map_def data_hash_def)

lemma locate_correct:
  assumes inv: "basic_inv H L t" and f: "\<And>d d'. f d = Some d' \<Longrightarrow> fst d' = fst d"
  obtains s where "basic_locate H L k f t = Inr (basic_map H L t (H k), s)"
    "node_ok (basic_slot L) (data_hash H) (\<lambda>_. ARRAY_SIZE L) (basic_depth L) 0 (Some (Arr s))"
    "basic_map H L (t\<lparr>root_node := s\<rparr>) = (basic_map H L t)(H k := Option.bind (basic_map H L t (H k)) f)"
proof -
  have T: "trie_slots (basic_slot L) (\<lambda>_. ARRAY_SIZE L) (basic_depth L)" using inv by (intro basic_trie) (simp_all add: basic_inv_def)
  have "node_ok (basic_slot L) (data_hash H) (\<lambda>_. ARRAY_SIZE L) (basic_depth L) 0 (Some (Arr (root_node t)))"
    "basic_depth L \<le> 0 + max_level t" using inv by (simp_all add: basic_inv_def)
  from trie_slots.visit_correct [OF T this, of f "H k"] f obtain s where
    "visit (basic_slot L) (data_hash H) (H k) f 0 (max_level t) (root_node t) = Inr (basic_map H L t (H k), s)"
    "node_ok (basic_slot L) (data_hash H) (\<lambda>_. ARRAY_SIZE L) (basic_depth L) 0 (Some (Arr s))"
    "\<forall>h'. trie_find (basic_slot L) (data_hash H) 0 h' (Some (Arr s)) =
       (if h' = H k then Option.bind (basic_map H L t (H k)) f else basic_map H L t h')"
    by (auto simp: basic_map_def data_hash_def)
  then show thesis using that by (simp add: basic_locate_def basic_map_def fun_eq_iff)
qed

text \<open>With an injective hash the node of a hash belongs to the key.\<close>

lemma basic_map_lookup:
  assumes "inj H"
  shows "basic_map H L t (H k) = map_option (Pair k) (basic_lookup H L t k)"
  using basic_map_key [of H L t "H k"] assms by (cases "basic_map H L t (H k)") (auto simp: basic_lookup_def inj_eq)

lemma basic_Insert_inv:
  assumes inv: "basic_inv H L t"
  shows "\<exists>t'. basic_Insert H L k v t = Inr (basic_map H L t (H k) = None, t') \<and> basic_inv H L t' \<and>
    basic_map H L t' = (if basic_map H L t (H k) = None then (basic_map H L t)(H k \<mapsto> (k, v)) else basic_map H L t)"
proof -
  let ?sl = "basic_slot L" and ?hof = "data_hash H :: _ \<times> 'b \<Rightarrow> u64" and ?w = "\<lambda>_ :: nat. ARRAY_SIZE L"
  have T: "trie_slots ?sl ?w (basic_depth L)" using inv by (intro basic_trie) (simp_all add: basic_inv_def)
  have hk: "?hof (k, v) = H k" by (simp add: data_hash_def)
  have pre: "node_ok ?sl ?hof ?w (basic_depth L) 0 (Some (Arr (root_node t)))" "basic_depth L \<le> 0 + max_level t"
    "\<forall>d' \<in> set_node (Arr (root_node t)). \<forall>l < 0. ?sl (?hof d') l = ?sl (?hof (k, v)) l"
    "\<forall>a \<in> set (pool t). a = replicate (ARRAY_SIZE L) None" using inv by (simp_all add: basic_inv_def)
  let ?new = "basic_map H L t (H k) = None"
  obtain s p where s: "insert_node ?sl ?hof (ARRAY_SIZE L) False False (k, v) False 0 (max_level t) (root_node t) (pool t) = Inr (?new, s, p)"
    "node_ok ?sl ?hof ?w (basic_depth L) 0 (Some (Arr s))" "set p \<subseteq> set (pool t)"
    "\<forall>h. trie_find ?sl ?hof 0 h (Some (Arr s)) = (if h = H k \<and> ?new then Some (k, v) else basic_map H L t h)"
    using trie_slots.trie_insert_correct [OF T _ pre, of False False False] unfolding hk basic_map_def by auto
  let ?t = "if ?new then t\<lparr>root_node := s, pool := p, table_count := table_count t + 1\<rparr> else t\<lparr>root_node := s, pool := p\<rparr>"
  have r: "root_node ?t = s" "pool ?t = p" "max_level ?t = max_level t" "table_count ?t = (if ?new then table_count t + 1 else table_count t)"
    by simp_all
  have m: "basic_map H L ?t = (if ?new then (basic_map H L t)(H k \<mapsto> (k, v)) else basic_map H L t)"
    using s(4) unfolding basic_map_def [of H L ?t] r(1) by (auto simp: fun_eq_iff)
  have d: "dom (basic_map H L ?t) = (if ?new then insert (H k) (dom (basic_map H L t)) else dom (basic_map H L t))"
    unfolding m by auto
  have "finite (dom (basic_map H L ?t)) \<and> table_count ?t = of_nat (card (dom (basic_map H L ?t)))"
    unfolding d r(4) using inv by (auto simp: basic_inv_def domIff)
  then have "basic_inv H L ?t" using inv s(2,3) unfolding basic_inv_def r by auto
  moreover have "basic_Insert H L k v t = Inr (?new, ?t)" using s(1) by (simp add: basic_Insert_def Let_def)
  ultimately show ?thesis using m by blast
qed

lemma basic_inv_root:
  assumes "basic_inv H L t" "node_ok (basic_slot L) (data_hash H) (\<lambda>_. ARRAY_SIZE L) (basic_depth L) 0 (Some (Arr s))"
    "n = of_nat (card (dom (basic_map H L (t\<lparr>root_node := s\<rparr>))))"
  shows "basic_inv H L (t\<lparr>root_node := s, table_count := n\<rparr>)"
  using assms by (simp add: basic_inv_def basic_map_def [abs_def])

lemma basic_Remove_inv:
  assumes inv: "basic_inv H L t"
  shows "\<exists>t'. basic_Remove H L k t = Inr (basic_map H L t (H k) \<noteq> None, t') \<and> basic_inv H L t' \<and>
    basic_map H L t' = (basic_map H L t)(H k := None)"
proof -
  obtain s where s: "basic_locate H L k (\<lambda>_. None) t = Inr (basic_map H L t (H k), s)"
    "node_ok (basic_slot L) (data_hash H) (\<lambda>_. ARRAY_SIZE L) (basic_depth L) 0 (Some (Arr s))"
    "basic_map H L (t\<lparr>root_node := s\<rparr>) = (basic_map H L t)(H k := Option.bind (basic_map H L t (H k)) (\<lambda>_. None))"
    by (rule locate_correct [OF inv, of "\<lambda>_. None"]) simp
  show ?thesis
  proof (cases "basic_map H L t (H k)")
    case None
    then show ?thesis using s(1) inv by (simp add: basic_Remove_def fun_upd_idem)
  next
    case (Some d)
    have "dom (basic_map H L (t\<lparr>root_node := s\<rparr>)) = dom (basic_map H L t) - {H k}" using s(3) by auto
    moreover have "H k \<in> dom (basic_map H L t)" using Some by auto
    ultimately have "card (dom (basic_map H L t)) = Suc (card (dom (basic_map H L (t\<lparr>root_node := s\<rparr>))))"
      using card.remove [of "dom (basic_map H L t)" "H k"] by simp
    then have "table_count t - 1 = of_nat (card (dom (basic_map H L (t\<lparr>root_node := s\<rparr>))))" using inv by (simp add: basic_inv_def)
    from basic_inv_root [OF inv s(2) this] show ?thesis
      using s(1,3) Some by (simp add: basic_Remove_def basic_map_def [abs_def])
  qed
qed

lemma basic_Update_inv:
  assumes inv: "basic_inv H L t"
  shows "\<exists>t'. basic_Update H L k v t = Inr (basic_map H L t (H k) \<noteq> None, t') \<and> basic_inv H L t' \<and>
    basic_map H L t' = (basic_map H L t)(H k := map_option (\<lambda>d. (fst d, v)) (basic_map H L t (H k)))"
proof -
  let ?f = "\<lambda>d. Some (fst d, v)"
  obtain s where s: "basic_locate H L k ?f t = Inr (basic_map H L t (H k), s)"
    "node_ok (basic_slot L) (data_hash H) (\<lambda>_. ARRAY_SIZE L) (basic_depth L) 0 (Some (Arr s))"
    "basic_map H L (t\<lparr>root_node := s\<rparr>) = (basic_map H L t)(H k := Option.bind (basic_map H L t (H k)) ?f)"
    by (rule locate_correct [OF inv, of ?f]) auto
  show ?thesis
  proof (cases "basic_map H L t (H k)")
    case None
    then show ?thesis using s(1) inv by (simp add: basic_Update_def fun_upd_idem)
  next
    case (Some d)
    have "dom (basic_map H L (t\<lparr>root_node := s\<rparr>)) = dom (basic_map H L t)" using s(3) Some by auto
    then have "table_count t = of_nat (card (dom (basic_map H L (t\<lparr>root_node := s\<rparr>))))" using inv by (simp add: basic_inv_def)
    from basic_inv_root [OF inv s(2) this] have "basic_inv H L (t\<lparr>root_node := s\<rparr>)" by (simp add: basic_inv_def basic_map_def [abs_def])
    then show ?thesis using s(1,3) Some by (simp add: basic_Update_def)
  qed
qed

lemma basic_locate_find:
  assumes "basic_inv H L t"
  shows "\<exists>s. basic_locate H L k Some t = Inr (basic_map H L t (H k), s)"
  by (rule locate_correct [OF assms, of Some k]) auto

section \<open>The constructors\<close>

text \<open>The number of levels for each size of an array, with keys of eight bytes or more.\<close>

definition level_table :: "(u64 \<times> nat) list" where
  "level_table = [(1, 64), (2, 42), (4, 28), (8, 20), (16, 18), (32, 13), (64, 11), (128, 9), (256, 11), (512, 7), (1024, 9), (65536, 258)]"

definition level_counts :: "nat list" where
  "level_counts = [64, 42, 28, 20, 18, 13, 11, 9, 11, 7, 9]"

lemma large_levels: "\<forall>(A, n) \<in> set level_table. levels_within 300 A (- 1 div 2) A 1 = Some n"
  by code_simp

lemma small_levels:
  "\<forall>m \<in> set [0x100, 0x10000, 0x1000000, 0x100000000, 0x10000000000, 0x1000000000000, 0x100000000000000].
     \<forall>(A, n) \<in> set level_table. levels_within 100 A m A 1 \<noteq> None"
  by code_simp

lemma level_entry: "(of_nat (ARRAY_SIZE L), if L \<le> 10 then level_counts ! L else 258) \<in> set level_table"
proof (cases "L \<le> 10")
  case True
  then have "L = 0 \<or> L = 1 \<or> L = 2 \<or> L = 3 \<or> L = 4 \<or> L = 5 \<or> L = 6 \<or> L = 7 \<or> L = 8 \<or> L = 9 \<or> L = 10" by presburger
  then show ?thesis by (elim disjE) (simp_all add: ARRAY_SIZE_def get_power2_pow level_table_def level_counts_def)
qed (simp add: ARRAY_SIZE_def level_table_def)

lemma large_table_levels:
  assumes "8 \<le> B"
  shows "table_levels (ARRAY_SIZE L) B = Some (if L \<le> 10 then level_counts ! L + 1 else 259, - 1)"
proof -
  have "levels_within 300 (of_nat (ARRAY_SIZE L)) (- 1 div 2) (of_nat (ARRAY_SIZE L)) 1 = Some (if L \<le> 10 then level_counts ! L else 258)"
    using large_levels level_entry [of L] by blast
  from levels_within_loop [OF this] show ?thesis using assms by (simp add: table_levels_def Let_def)
qed

lemma small_table_levels:
  assumes "0 < B" "B < 8"
  shows "\<exists>n. table_levels (ARRAY_SIZE L) B = Some (n, 2 ^ (B * 8))"
proof -
  have "B \<in> set [1, 2, 3, 4, 5, 6, 7]" using assms by auto
  then have "(2 ^ (B * 8) :: u64) \<in> set [0x100, 0x10000, 0x1000000, 0x100000000, 0x10000000000, 0x1000000000000, 0x100000000000000]"
    by auto
  then obtain n where "levels_within 100 (of_nat (ARRAY_SIZE L)) (2 ^ (B * 8)) (of_nat (ARRAY_SIZE L)) 1 = Some n"
    using small_levels level_entry [of L] by blast
  from levels_within_loop [OF this] show ?thesis using assms by (simp add: table_levels_def Let_def)
qed

lemma enough_levels:
  assumes "8 \<le> B" "4 \<le> L" "BasicHashTable L B = Some t"
  shows "64 \<le> L * max_level t"
proof (cases "L \<le> 10")
  case True
  then have "L \<in> set [4, 5, 6, 7, 8, 9, 10]" using assms(2) by auto
  then show ?thesis using assms(3) large_table_levels [OF assms(1), of L] by (auto simp: BasicHashTable_def level_counts_def)
next
  case False
  then show ?thesis using assms(3) large_table_levels [OF assms(1), of L] by (auto simp: BasicHashTable_def)
qed

lemma BasicHashTable_inv:
  assumes "8 \<le> B" "4 \<le> L" "L \<le> 10" "BasicHashTable L B = Some t"
  shows "basic_inv H L t" "basic_map H L t = Map.empty"
proof -
  have t: "root_node t = replicate (ARRAY_SIZE L) None" "pool t = []" "table_count t = 0" using assms(4) by (auto simp: BasicHashTable_def)
  have T: "trie_slots (basic_slot L) (\<lambda>_. ARRAY_SIZE L) (basic_depth L)" using assms by (intro basic_trie) simp_all
  have dp: "0 < basic_depth L" using assms by (simp add: basic_depth_def div_greater_zero_iff)
  then have ok: "node_ok (basic_slot L) (data_hash H) (\<lambda>_. ARRAY_SIZE L) (basic_depth L) 0 (Some (Arr (root_node t)))"
    unfolding t(1) by (intro node_ok.arr) (auto intro: node_ok.intros)
  show m: "basic_map H L t = Map.empty"
  proof
    fix h
    obtain i where "basic_slot L h 0 = Inr i" "i < ARRAY_SIZE L" using trie_slots.slot_in [OF T dp, of h] by auto
    then show "basic_map H L t h = None" by (simp add: basic_map_def t trie_find_arr)
  qed
  have "63 + L < (max_level t + 1) * L" using enough_levels [OF assms(1,2,4)] by (simp add: mult.commute)
  then have "basic_depth L < max_level t + 1" using assms(2) by (simp add: basic_depth_def div_less_iff_less_mult)
  then show "basic_inv H L t" using ok m t assms by (simp add: basic_inv_def)
qed

lemma basic_Reserve_inv: "basic_inv H L t \<Longrightarrow> basic_inv H L (basic_Reserve L n t)" "basic_map H L (basic_Reserve L n t) = basic_map H L t"
  by (auto simp: basic_inv_def basic_Reserve_def pool_put_def basic_map_def [abs_def] Let_def)

text \<open>A slot depends on the bits of the hash behind the shift, as many as the array's index has: \<open>HASH_LEVEL\<close>, or 16.\<close>

definition slot_bits :: "nat \<Rightarrow> nat" where
  "slot_bits L = (if L > 10 then 16 else L)"

lemma basic_slot_bits:
  assumes "L * l < 64"
  shows "basic_slot L h l = Inr (unat (take_bit (slot_bits L) (drop_bit (L * l) h)))"
proof -
  have "ARRAY_SIZE L = 2 ^ slot_bits L" "slot_bits L \<le> 16" by (simp_all add: ARRAY_SIZE_def slot_bits_def get_power2_pow)
  then show ?thesis using level_hash_bits [OF _ assms, of "slot_bits L" h] by (simp add: basic_slot_def)
qed

lemma same_slot:
  assumes "L * l < 2 ^ 64" "\<And>n. n < slot_bits L \<Longrightarrow> bit h (L * l + n) = bit h' (L * l + n)"
  shows "basic_slot L h l = basic_slot L h' l"
proof (cases "L * l < 64")
  case True
  have "take_bit (slot_bits L) (drop_bit (L * l) h) = take_bit (slot_bits L) (drop_bit (L * l) h')"
    by (rule bit_word_eqI) (use assms(2) in \<open>auto simp: bit_take_bit_iff bit_drop_bit_eq\<close>)
  then show ?thesis using True by (simp add: basic_slot_bits)
next
  case False
  have "unat (of_nat L * of_nat l :: u64) = L * l" using unat_of_nat_u64 [of "L * l"] assms(1) by simp
  then have "(64 :: u64) \<le> of_nat L * of_nat l" using False by (simp add: word_le_nat_alt)
  then show ?thesis by (simp add: basic_slot_def util_level_hash_def Let_def)
qed

text \<open>The slots of the first \<open>depth\<close> levels tell any two hashes apart.\<close>

definition slots_separate :: "nat \<Rightarrow> nat \<Rightarrow> bool" where
  "slots_separate L depth \<longleftrightarrow> (\<forall>h h'. (\<forall>l < depth. basic_slot L h l = basic_slot L h' l) \<longrightarrow> h = h')"

lemma slots_separateI:
  assumes "0 < L" "L \<le> 16" "64 \<le> L * depth"
  shows "slots_separate L depth"
  unfolding slots_separate_def
proof (intro allI impI)
  fix h h' assume e: "\<forall>l < depth. basic_slot L h l = basic_slot L h' l"
  show "h = h'"
  proof (rule bits_separate [OF assms(1,3)])
    fix l assume l: "l < depth" "L * l < 64"
    have "basic_slot L h l = basic_slot L h' l" using e l(1) by blast
    then have "take_bit (slot_bits L) (drop_bit (L * l) h) = take_bit (slot_bits L) (drop_bit (L * l) h')"
      unfolding basic_slot_bits [OF l(2)] by (simp add: word_unat_eq_iff)
    then have "take_bit L (take_bit (slot_bits L) (drop_bit (L * l) h)) = take_bit L (take_bit (slot_bits L) (drop_bit (L * l) h'))" by simp
    moreover have "min L (slot_bits L) = L" using assms(2) by (simp add: slot_bits_def)
    ultimately show "take_bit L (drop_bit (L * l) h) = take_bit L (drop_bit (L * l) h')" by simp
  qed
qed

text \<open>A bit that no level looks at makes two hashes that no level tells apart.\<close>

lemma unread_bit:
  assumes "L < 2 ^ 32" "depth \<le> 300" "n < 64" and clear: "\<And>l m. l < depth \<Longrightarrow> m < slot_bits L \<Longrightarrow> L * l + m \<noteq> n"
  shows "\<not> slots_separate L depth"
proof
  assume sep: "slots_separate L depth"
  have "basic_slot L (0 :: u64) l = basic_slot L (2 ^ n) l" if l: "l < depth" for l
  proof (rule same_slot)
    have "L * l \<le> 2 ^ 32 * 300" using l assms(1,2) by (intro mult_le_mono) simp_all
    then show "L * l < 2 ^ 64" by simp
    show "bit (0 :: u64) (L * l + m) = bit (2 ^ n :: u64) (L * l + m)" if "m < slot_bits L" for m
      using clear [OF l that] by (simp add: bit_exp_iff)
  qed
  then have "(0 :: u64) = 2 ^ n" using sep unfolding slots_separate_def by blast
  then have "unat (0 :: u64) = unat (2 ^ n :: u64)" by (rule arg_cong)
  then show False unfolding unat_pow2_u64 [OF assms(3)] by simp
qed

lemma slots_not_separate:
  assumes "L < 2 ^ 32" "depth \<le> 300" "16 < L \<or> L \<le> 10 \<and> L * depth < 64"
  shows "\<not> slots_separate L depth"
proof (cases "16 < L")
  case True
  then have "L * l + m \<noteq> 16" if "m < slot_bits L" for l m using that by (cases l) (auto simp: slot_bits_def)
  then show ?thesis by (intro unread_bit [OF assms(1,2), of 16]) auto
next
  case False
  then have L: "L \<le> 10" "L * depth < 64" using assms(3) by auto
  have "L * l + m \<noteq> 63" if l: "l < depth" "m < slot_bits L" for l m
  proof -
    have "L * (l + 1) \<le> L * depth" using l(1) by (intro mult_le_mono2) simp
    then show ?thesis using L l(2) by (simp add: slot_bits_def)
  qed
  then show ?thesis by (intro unread_bit [OF assms(1,2), of 63]) auto
qed

section \<open>Properties\<close>

text \<open>
  C28: the constructor of \<open>BasicHashTable\<close> returns for every \<open>HASH_LEVEL\<close> and every key size, although the loop that
  counts the levels multiplies without regard to overflow, and the new table is empty. For keys of eight bytes the slots of the levels it allows
  tell any two hashes apart exactly when \<open>HASH_LEVEL\<close> (from 1 to \<open>2 ^ 32\<close>, so that no shift wraps around) is 4 to 16. For 1, 2 and 3 the levels end before bit 63, and from 17 on a level reads 16 bits
  and the next one starts behind bit 16, so there are hashes that no level separates, and an insertion of a new key can fail.
\<close>

theorem BasicHashTable_returns:
  assumes "0 < B"
  shows "\<exists>t. BasicHashTable L B = Some t \<and> root_node t = replicate (ARRAY_SIZE L) None \<and> pool t = [] \<and> table_count t = 0 \<and>
    (8 \<le> B \<and> 0 < L \<and> L < 2 ^ 32 \<longrightarrow>
      (\<forall>h h'. (\<forall>l < max_level t. basic_slot L h l = basic_slot L h' l) \<longrightarrow> h = h') = (4 \<le> L \<and> L \<le> 16))"
proof (cases "8 \<le> B")
  case True
  obtain t where t: "BasicHashTable L B = Some t" using large_table_levels [OF True, of L] by (simp add: BasicHashTable_def)
  have m: "max_level t = (if L \<le> 10 then level_counts ! L + 1 else 259)"
    using t large_table_levels [OF True, of L] by (auto simp: BasicHashTable_def)
  have "slots_separate L (max_level t) = (4 \<le> L \<and> L \<le> 16)" if L: "0 < L" "L < 2 ^ 32"
  proof -
    consider "4 \<le> L" "L \<le> 16" | "16 < L" | "L \<in> set [1, 2, 3]" using L(1) by force
    then show ?thesis
    proof cases
      case 1
      then show ?thesis using slots_separateI [OF L(1) 1(2) enough_levels [OF True 1(1) t]] by simp
    next
      case 2
      then show ?thesis using slots_not_separate [OF L(2), of "max_level t"] m by simp
    next
      case 3
      then have "max_level t \<le> 300" "L \<le> 10 \<and> L * max_level t < 64" "L < 4" using m by (auto simp: level_counts_def)
      then show ?thesis using slots_not_separate [OF L(2), of "max_level t"] by simp
    qed
  qed
  then show ?thesis using t by (auto simp: BasicHashTable_def slots_separate_def)
next
  case False
  then show ?thesis using small_table_levels [OF assms, of L] by (auto simp: BasicHashTable_def)
qed

theorem BasicHashTable_returns_witness:
  "\<exists>(t :: (nat, nat) basic_table) (u :: (nat, nat) basic_table) (v :: (nat, nat) basic_table). BasicHashTable 4 8 = Some t \<and> BasicHashTable 3 8 = Some u \<and> BasicHashTable 17 8 = Some v \<and>
     slots_separate 4 (max_level t) \<and> \<not> slots_separate 3 (max_level u) \<and> \<not> slots_separate 17 (max_level v)"
proof -
  have "\<exists>t :: (nat, nat) basic_table. BasicHashTable L 8 = Some t \<and> slots_separate L (max_level t) = (4 \<le> L \<and> L \<le> 16)"
    if "0 < L" "L < 2 ^ 32" for L
    using BasicHashTable_returns [of 8 L, where 'a = nat and 'b = nat] that unfolding slots_separate_def by auto
  from this [of 4] this [of 3] this [of 17] show ?thesis by auto
qed

text \<open>
  C27: with an injective hash a \<open>BasicHashTable\<close> of \<open>HASH_LEVEL\<close> 4 to 10 is a map from keys to values. \<open>Insert\<close> adds a
  key that is not there, \<open>Update\<close> changes and \<open>Remove\<close> takes out a key that is there; each says whether it did so and
  touches no other key. \<open>Get\<close> returns the value or throws, \<open>Find\<close> returns the value or null, and \<open>Size\<close> is the number of keys;
  no assertion fails and no shift is undefined.
\<close>

theorem basic_refines_map:
  assumes "basic_inv H L t" "inj H" "m = basic_lookup H L t"
  shows "(\<exists>t'. basic_Insert H L k v t = Inr (m k = None, t') \<and> basic_inv H L t' \<and> basic_lookup H L t' = (if m k = None then m(k \<mapsto> v) else m)) \<and>
    (\<exists>t'. basic_Update H L k v t = Inr (m k \<noteq> None, t') \<and> basic_inv H L t' \<and> basic_lookup H L t' = (if m k = None then m else m(k \<mapsto> v))) \<and>
    (\<exists>t'. basic_Remove H L k t = Inr (m k \<noteq> None, t') \<and> basic_inv H L t' \<and> basic_lookup H L t' = m(k := None)) \<and>
    basic_Get H L k t = (case m k of None \<Rightarrow> Inl Thrown | Some v \<Rightarrow> Inr (k, v)) \<and>
    basic_Find H L k t = Inr (map_option (Pair k) (m k)) \<and>
    basic_Size t = of_nat (card (dom m))"
proof (intro conjI)
  note bm = basic_map_lookup [OF assms(2), where 'b = 'b]
  have none: "(basic_map H L t (H k) = None) = (m k = None)" using bm [of L t k] assms(3) by simp
  have mk: "m k' = map_option snd (basic_map H L t (H k'))" for k' using assms(3) by (simp add: basic_lookup_def)
  note eq = inj_eq [OF assms(2)]
  show "\<exists>t'. basic_Insert H L k v t = Inr (m k = None, t') \<and> basic_inv H L t' \<and> basic_lookup H L t' = (if m k = None then m(k \<mapsto> v) else m)"
  proof -
    obtain t' where t': "basic_Insert H L k v t = Inr (m k = None, t')" "basic_inv H L t'"
      "basic_map H L t' = (if m k = None then (basic_map H L t)(H k \<mapsto> (k, v)) else basic_map H L t)"
      using basic_Insert_inv [OF assms(1), of k v] unfolding none by blast
    have "basic_lookup H L t' = (if m k = None then m(k \<mapsto> v) else m)" by (rule ext) (simp add: basic_lookup_def t'(3) mk eq)
    then show ?thesis using t' by blast
  qed
  show "\<exists>t'. basic_Update H L k v t = Inr (m k \<noteq> None, t') \<and> basic_inv H L t' \<and> basic_lookup H L t' = (if m k = None then m else m(k \<mapsto> v))"
  proof -
    obtain t' where t': "basic_Update H L k v t = Inr (m k \<noteq> None, t')" "basic_inv H L t'"
      "basic_map H L t' = (basic_map H L t)(H k := map_option (\<lambda>d. (fst d, v)) (basic_map H L t (H k)))"
      using basic_Update_inv [OF assms(1), of k v] unfolding none by blast
    have "basic_lookup H L t' = (if m k = None then m else m(k \<mapsto> v))"
      by (rule ext) (auto simp: basic_lookup_def t'(3) mk eq option.map_comp comp_def)
    then show ?thesis using t' by blast
  qed
  show "\<exists>t'. basic_Remove H L k t = Inr (m k \<noteq> None, t') \<and> basic_inv H L t' \<and> basic_lookup H L t' = m(k := None)"
  proof -
    obtain t' where t': "basic_Remove H L k t = Inr (m k \<noteq> None, t')" "basic_inv H L t'"
      "basic_map H L t' = (basic_map H L t)(H k := None)"
      using basic_Remove_inv [OF assms(1), of k] unfolding none by blast
    have "basic_lookup H L t' = m(k := None)" by (rule ext) (simp add: basic_lookup_def t'(3) mk eq)
    then show ?thesis using t' by blast
  qed
  show "basic_Get H L k t = (case m k of None \<Rightarrow> Inl Thrown | Some v \<Rightarrow> Inr (k, v))"
    using basic_locate_find [OF assms(1), of k] bm [of L t k] assms(3) by (auto simp: basic_Get_def split: option.splits)
  show "basic_Find H L k t = Inr (map_option (Pair k) (m k))"
    using basic_locate_find [OF assms(1), of k] bm [of L t k] assms(3) by (auto simp: basic_Find_def split: option.splits)
  have "dom (basic_map H L t) = H ` dom m"
  proof
    show "dom (basic_map H L t) \<subseteq> H ` dom m"
    proof
      fix h assume "h \<in> dom (basic_map H L t)"
      then obtain d where d: "basic_map H L t h = Some d" by auto
      then have "H (fst d) = h" by (rule basic_map_key)
      then show "h \<in> H ` dom m" using d mk by force
    qed
    show "H ` dom m \<subseteq> dom (basic_map H L t)" using mk by auto
  qed
  then show "basic_Size t = of_nat (card (dom m))"
    using assms(1) card_image [OF inj_on_subset [OF assms(2) subset_UNIV]] by (simp add: basic_Size_def basic_inv_def)
qed

theorem basic_refines_map_witness:
  "\<exists>t t'. BasicHashTable 4 8 = Some t \<and> basic_Insert (\<lambda>k :: u64. k) 4 7 (1 :: nat) t = Inr (True, t') \<and>
     basic_Get (\<lambda>k. k) 4 7 t' = Inr (7, 1) \<and> basic_Get (\<lambda>k. k) 4 8 t' = Inl Thrown \<and> basic_Size t' = 1"
proof -
  obtain t :: "(u64, nat) basic_table" where t: "BasicHashTable 4 8 = Some t" using large_table_levels [of 8 4] by (simp add: BasicHashTable_def)
  have inv: "basic_inv (\<lambda>k. k) 4 t" "basic_lookup (\<lambda>k. k) 4 t = Map.empty"
    using BasicHashTable_inv [OF _ _ _ t, of "\<lambda>k. k"] by (auto simp: basic_lookup_def fun_eq_iff)
  have i: "inj (\<lambda>k :: u64. k)" by (simp add: inj_def)
  obtain t' where t': "basic_Insert (\<lambda>k :: u64. k) 4 7 1 t = Inr (True, t')" "basic_inv (\<lambda>k. k) 4 t'" "basic_lookup (\<lambda>k. k) 4 t' = [7 \<mapsto> 1]"
    using basic_refines_map [OF inv(1) i refl, of 7 1] inv(2) by auto
  show ?thesis
    using basic_refines_map [OF t'(2) i refl, of 7 1] basic_refines_map [OF t'(2) i refl, of 8 1] t t' by auto
qed

end
