(* ===== verification/ConcurrentTable.thy ===== *)
theory ConcurrentTable
  imports BasicTable
begin

text \<open>
  The tables \<open>ConcurrentHashTable\<close> (\<open>mhash/concurrent_hash_table.h\<close>) and \<open>LockFreeHashTable\<close>
  (\<open>mhash/lock_free_hash_table.h\<close>) as one thread sees them that runs alone: each compare-exchange then succeeds at
  its first attempt, because it expects the value that was just loaded. \<open>H\<close> is the hash function, \<open>R\<close> and \<open>L\<close> are the
  template parameters \<open>ROOT_HASH_LEVEL\<close> and \<open>HASH_LEVEL\<close>. The nodes that \<open>LockFreeHashTable\<close> hands over to its epoch are kept in
  a list; its pools of spare nodes only save allocations.
\<close>

section \<open>Nodes and slots\<close>

record ('k, 'v) data_block =
  block_key :: 'k
  block_mapped :: 'v
  block_hash :: u64

type_synonym ('k, 'v) cslots = "('k, 'v) data_block slots"

definition data_node :: "('k \<Rightarrow> u64) \<Rightarrow> 'k \<Rightarrow> 'v \<Rightarrow> ('k, 'v) data_block" where
  "data_node H k v = \<lparr>block_key = k, block_mapped = v, block_hash = H k\<rparr>"

definition root_hash :: "nat \<Rightarrow> u64 \<Rightarrow> nat" where
  "root_hash R hash = unat (hash AND (of_nat (get_power2 R) - 1))"

definition conc_slot :: "nat \<Rightarrow> nat \<Rightarrow> slot_fun" where
  "conc_slot R L hash level =
     (if level = 0 then Inr (root_hash R hash) else util_level_hash (drop_bit R hash) (level - 1) (get_power2 L) L)"

text \<open>
  The search of both tables: the node that the locator refers to at its end. When the levels run out that is the array
  it followed last.
\<close>

fun conc_find :: "slot_fun \<Rightarrow> ('d \<Rightarrow> u64) \<Rightarrow> u64 \<Rightarrow> nat \<Rightarrow> nat \<Rightarrow> 'd node option \<Rightarrow> 'd slots \<Rightarrow> c_error + 'd node option" where
  "conc_find sl hof hash level 0 loc s = Inr loc"
| "conc_find sl hof hash level (Suc n) loc s =
     bindR (sl hash level) (\<lambda>i.
     bindR (nthR s i) (\<lambda>x.
       case x of None \<Rightarrow> Inr None
       | Some (Data d) \<Rightarrow> Inr (if hash \<noteq> hof d then None else Some (Data d))
       | Some (Arr a) \<Rightarrow> conc_find sl hof hash (level + 1) n (Some (Arr a)) a))"

text \<open>
  The search of \<open>Update\<close> and \<open>Remove\<close>: the first data node on the way is replaced by \<open>new\<close>, whatever its hash. The
  result is the node that was replaced; \<open>Inr None\<close> in it stands for an array on which the levels ran out.
\<close>

fun replace_hit :: "slot_fun \<Rightarrow> u64 \<Rightarrow> 'd option \<Rightarrow> nat \<Rightarrow> nat \<Rightarrow> 'd slots \<Rightarrow> c_error + (unit + 'd option) \<times> 'd slots" where
  "replace_hit sl hash new level 0 s = Inr (Inl (), s)"
| "replace_hit sl hash new level (Suc n) s =
     bindR (sl hash level) (\<lambda>i.
     bindR (nthR s i) (\<lambda>x.
       case x of None \<Rightarrow> Inr (Inr None, s)
       | Some (Data d) \<Rightarrow> Inr (Inr (Some d), s[i := map_option Data new])
       | Some (Arr a) \<Rightarrow> bindR (replace_hit sl hash new (level + 1) n a) (\<lambda>(r, a'). Inr (r, s[i := Some (Arr a')]))))"

section \<open>ConcurrentHashTable\<close>

record ('k, 'v) conc_table =
  root_arr :: "('k, 'v) cslots"
  conc_count :: u64
  conc_max_level :: nat
  conc_max :: u64

definition ConcurrentHashTable :: "nat \<Rightarrow> nat \<Rightarrow> nat \<Rightarrow> ('k, 'v) conc_table option" where
  "ConcurrentHashTable R L B =
     map_option (\<lambda>(level, m). \<lparr>root_arr = replicate (get_power2 R) None, conc_count = 0, conc_max_level = level, conc_max = m\<rparr>)
       (table_levels (get_power2 L) B)"

text \<open>After following an array the loop over the attempts has no break: it ends at its limit and forgets the locator.\<close>

definition conc_insert_locator ::
  "('k \<Rightarrow> u64) \<Rightarrow> nat \<Rightarrow> nat \<Rightarrow> 'k \<Rightarrow> 'v \<Rightarrow> ('k, 'v) conc_table \<Rightarrow> c_error + bool \<times> ('k, 'v) cslots \<times> ('k, 'v) cslots list" where
  "conc_insert_locator H R L k v t =
     insert_node (conc_slot R L) block_hash (get_power2 L) True False (data_node H k v) False 0 (conc_max_level t) (root_arr t) []"

definition conc_Insert :: "('k \<Rightarrow> u64) \<Rightarrow> nat \<Rightarrow> nat \<Rightarrow> 'k \<Rightarrow> 'v \<Rightarrow> ('k, 'v) conc_table \<Rightarrow> c_error + bool \<times> ('k, 'v) conc_table" where
  "conc_Insert H R L k v t =
     bindR (conc_insert_locator H R L k v t) (\<lambda>(ok, s, _).
       let t' = t\<lparr>root_arr := s\<rparr> in Inr (ok, if ok then t'\<lparr>conc_count := conc_count t + 1\<rparr> else t'))"

definition conc_Get :: "('k \<Rightarrow> u64) \<Rightarrow> nat \<Rightarrow> nat \<Rightarrow> 'k \<Rightarrow> ('k, 'v) conc_table \<Rightarrow> c_error + 'k \<times> 'v" where
  "conc_Get H R L k t =
     bindR (conc_find (conc_slot R L) block_hash (H k) 0 (conc_max_level t) None (root_arr t)) (\<lambda>loc.
       case loc of None \<Rightarrow> Inl Thrown
       | Some (Data d) \<Rightarrow> Inr (block_key d, block_mapped d)
       | Some (Arr _) \<Rightarrow> Inl UB)"

text \<open>\<open>UnsafeGet\<close> forms the address of a member without a check.\<close>

definition conc_UnsafeGet :: "('k \<Rightarrow> u64) \<Rightarrow> nat \<Rightarrow> nat \<Rightarrow> 'k \<Rightarrow> ('k, 'v) conc_table \<Rightarrow> c_error + 'k \<times> 'v" where
  "conc_UnsafeGet H R L k t =
     bindR (conc_find (conc_slot R L) block_hash (H k) 0 (conc_max_level t) None (root_arr t)) (\<lambda>loc.
       case loc of Some (Data d) \<Rightarrow> Inr (block_key d, block_mapped d) | _ \<Rightarrow> Inl UB)"

text \<open>The locator keeps the new node, so it is null after a removal.\<close>

definition conc_Update :: "('k \<Rightarrow> u64) \<Rightarrow> nat \<Rightarrow> nat \<Rightarrow> 'k \<Rightarrow> 'v \<Rightarrow> ('k, 'v) conc_table \<Rightarrow> c_error + bool \<times> ('k, 'v) conc_table" where
  "conc_Update H R L k v t =
     bindR (replace_hit (conc_slot R L) (H k) (Some (data_node H k v)) 0 (conc_max_level t) (root_arr t)) (\<lambda>(r, s).
       Inr (r \<noteq> Inr None, t\<lparr>root_arr := s\<rparr>))"

definition conc_Remove :: "('k \<Rightarrow> u64) \<Rightarrow> nat \<Rightarrow> nat \<Rightarrow> 'k \<Rightarrow> ('k, 'v) conc_table \<Rightarrow> c_error + bool \<times> ('k, 'v) conc_table" where
  "conc_Remove H R L k t =
     bindR (replace_hit (conc_slot R L) (H k) None 0 (conc_max_level t) (root_arr t)) (\<lambda>(r, s).
       Inr (r = Inl (), t\<lparr>root_arr := s\<rparr>))"

definition conc_Size :: "('k, 'v) conc_table \<Rightarrow> u64" where
  "conc_Size t = conc_count t"

section \<open>LockFreeHashTable\<close>

record ('k, 'v) lf_table =
  lf_root :: "('k, 'v) cslots"
  lf_max_level :: nat
  lf_retired :: "('k, 'v) data_block list"

text \<open>The constructor computes a number of levels and then sets 20; for eight-byte keys the bound wraps to 0.\<close>

definition lf_levels :: "nat \<Rightarrow> nat \<Rightarrow> nat option" where
  "lf_levels L B =
     (let total_bit = B * 8; sz = of_nat (get_power2 L) in
      if total_bit \<le> 64 then map_option Suc (levels_loop sz (2 ^ total_bit) sz 1) else Some 1)"

definition LockFreeHashTable :: "nat \<Rightarrow> nat \<Rightarrow> nat \<Rightarrow> ('k, 'v) lf_table option" where
  "LockFreeHashTable R L B =
     map_option (\<lambda>_. \<lparr>lf_root = replicate (get_power2 R) None, lf_max_level = 20, lf_retired = []\<rparr>) (lf_levels L B)"

text \<open>\<open>InsertOrUpdate\<close>, which the locators for insertion, update (with a new value) and removal (without one) call.\<close>

definition lf_insert_locator ::
  "('k \<Rightarrow> u64) \<Rightarrow> nat \<Rightarrow> nat \<Rightarrow> 'k \<Rightarrow> 'v \<Rightarrow> ('k, 'v) lf_table \<Rightarrow> c_error + bool \<times> ('k, 'v) cslots \<times> ('k, 'v) cslots list" where
  "lf_insert_locator H R L k v t =
     insert_node (conc_slot R L) block_hash (get_power2 L) True True (data_node H k v) False 0 (lf_max_level t) (lf_root t) []"

definition lf_modify_locator ::
  "('k \<Rightarrow> u64) \<Rightarrow> nat \<Rightarrow> nat \<Rightarrow> 'k \<Rightarrow> 'v option \<Rightarrow> ('k, 'v) lf_table \<Rightarrow>
   c_error + (unit + ('k, 'v) data_block option) \<times> ('k, 'v) cslots" where
  "lf_modify_locator H R L k mapped t = replace_hit (conc_slot R L) (H k) (map_option (data_node H k) mapped) 0 (lf_max_level t) (lf_root t)"

definition lf_get_locator :: "('k \<Rightarrow> u64) \<Rightarrow> nat \<Rightarrow> nat \<Rightarrow> 'k \<Rightarrow> ('k, 'v) lf_table \<Rightarrow> c_error + ('k, 'v) data_block node option" where
  "lf_get_locator H R L k t = conc_find (conc_slot R L) block_hash (H k) 0 (lf_max_level t) None (lf_root t)"

definition lf_Insert :: "('k \<Rightarrow> u64) \<Rightarrow> nat \<Rightarrow> nat \<Rightarrow> 'k \<Rightarrow> 'v \<Rightarrow> ('k, 'v) lf_table \<Rightarrow> c_error + bool \<times> ('k, 'v) lf_table" where
  "lf_Insert H R L k v t =
     bindR (lf_insert_locator H R L k v t) (\<lambda>(ok, s, _).
       Inr (ok, t\<lparr>lf_root := s\<rparr>))"

definition lf_Get :: "('k \<Rightarrow> u64) \<Rightarrow> nat \<Rightarrow> nat \<Rightarrow> 'k \<Rightarrow> ('k, 'v) lf_table \<Rightarrow> c_error + 'k \<times> 'v" where
  "lf_Get H R L k t =
     bindR (lf_get_locator H R L k t) (\<lambda>loc.
       case loc of None \<Rightarrow> Inl Thrown
       | Some (Data d) \<Rightarrow> Inr (block_key d, block_mapped d)
       | Some (Arr _) \<Rightarrow> Inl UB)"

text \<open>The locator keeps the old node, which goes to the epoch; when the levels run out an assertion fails.\<close>

definition lf_Update :: "('k \<Rightarrow> u64) \<Rightarrow> nat \<Rightarrow> nat \<Rightarrow> 'k \<Rightarrow> 'v \<Rightarrow> ('k, 'v) lf_table \<Rightarrow> c_error + bool \<times> ('k, 'v) lf_table" where
  "lf_Update H R L k v t =
     bindR (lf_modify_locator H R L k (Some v) t) (\<lambda>(r, s).
       case r of Inl _ \<Rightarrow> Inl AssertFail
       | Inr None \<Rightarrow> Inr (False, t)
       | Inr (Some old) \<Rightarrow> Inr (True, t\<lparr>lf_root := s, lf_retired := lf_retired t @ [old]\<rparr>))"

definition lf_Remove :: "('k \<Rightarrow> u64) \<Rightarrow> nat \<Rightarrow> nat \<Rightarrow> 'k \<Rightarrow> ('k, 'v) lf_table \<Rightarrow> c_error + bool \<times> ('k, 'v) lf_table" where
  "lf_Remove H R L k t =
     bindR (lf_modify_locator H R L k None t) (\<lambda>(r, s).
       case r of Inl _ \<Rightarrow> Inl AssertFail
       | Inr None \<Rightarrow> Inr (False, t)
       | Inr (Some old) \<Rightarrow>
           if block_key old \<noteq> k then Inl AssertFail
           else Inr (True, t\<lparr>lf_root := s, lf_retired := lf_retired t @ [old]\<rparr>))"

section \<open>The slots of a hash\<close>

definition conc_width :: "nat \<Rightarrow> nat \<Rightarrow> nat \<Rightarrow> nat" where
  "conc_width R L l = (if l = 0 then get_power2 R else get_power2 L)"

definition conc_depth :: "nat \<Rightarrow> nat \<Rightarrow> nat" where
  "conc_depth R L = 1 + (63 - R + L) div L"

lemma root_hash_bits: "R < 64 \<Longrightarrow> root_hash R h = unat (take_bit R h)"
proof -
  have "of_nat (2 ^ R) - 1 = (mask R :: u64)" by (simp add: mask_eq_exp_minus_1)
  then show ?thesis by (simp only: root_hash_def get_power2_pow take_bit_eq_mask)
qed

lemma conc_trie:
  assumes L: "0 < L" "L \<le> 10" and R: "R \<le> 30"
  shows "trie_slots (conc_slot R L) (conc_width R L) (conc_depth R L)"
proof
  have below: "L * l < 64 - R" if "Suc l < conc_depth R L" for l
  proof -
    have "L * (l + 1) \<le> L * ((63 - R + L) div L)" using that by (intro mult_le_mono2) (simp add: conc_depth_def)
    also have "\<dots> \<le> 63 - R + L" by (simp add: mult.commute)
    finally show ?thesis using R by simp
  qed
  have L16: "L \<le> 16" using L(2) by simp
  have sl: "conc_slot R L h (Suc l) = Inr (unat (take_bit L (drop_bit (L * l) (drop_bit R h))))" if "Suc l < conc_depth R L" for h l
    using level_hash_bits [OF L16, of L l "drop_bit R h"] below [OF that] R by (simp add: conc_slot_def get_power2_pow)
  have sl0: "conc_slot R L h 0 = Inr (unat (take_bit R h))" for h using root_hash_bits [of R h] R by (simp add: conc_slot_def)
  show "\<exists>i < conc_width R L l. conc_slot R L h l = Inr i" if "l < conc_depth R L" for l h
    using that sl sl0 by (cases l) (auto simp: conc_width_def get_power2_pow unsigned_take_bit_eq)
  show "h = h'" if eq: "\<And>l. l < conc_depth R L \<Longrightarrow> conc_slot R L h l = conc_slot R L h' l" for h h'
  proof (rule bit_word_eqI)
    fix n assume n: "n < LENGTH(64)"
    show "bit h n = bit h' n"
    proof (cases "n < R")
      case True
      have "take_bit R h = take_bit R h'" using eq [of 0] sl0 by (simp add: conc_depth_def word_unat_eq_iff)
      then show ?thesis using True by (metis bit_take_bit_iff)
    next
      case False
      define m where "m = n - R"
      have e: "L * (m div L) + m mod L = m" by simp
      have "63 - R < L * ((63 - R + L) div L)" using L(1) dividend_less_div_times [of L "63 - R + L"] by (simp add: mult.commute)
      moreover have "m \<le> 63 - R" using n False by (simp add: m_def)
      ultimately have "m < ((63 - R + L) div L) * L" by (simp only: mult.commute)
      then have "m div L < (63 - R + L) div L" using L(1) by (simp add: div_less_iff_less_mult)
      then have l: "Suc (m div L) < conc_depth R L" by (simp add: conc_depth_def)
      then have "take_bit L (drop_bit (L * (m div L)) (drop_bit R h)) = take_bit L (drop_bit (L * (m div L)) (drop_bit R h'))"
        using eq [OF l] sl [OF l] by (simp add: word_unat_eq_iff)
      then have "bit (take_bit L (drop_bit (L * (m div L)) (drop_bit R h))) (m mod L) =
          bit (take_bit L (drop_bit (L * (m div L)) (drop_bit R h'))) (m mod L)" by (rule arg_cong)
      then have "bit h (R + (L * (m div L) + m mod L)) = bit h' (R + (L * (m div L) + m mod L))"
        using L(1) by (simp add: bit_take_bit_iff bit_drop_bit_eq ac_simps)
      then show ?thesis unfolding e using False by (simp add: m_def)
    qed
  qed
qed

interpretation conc4: trie_slots "conc_slot 4 4" "conc_width 4 4" "conc_depth 4 4"
  by (rule conc_trie) simp_all

section \<open>Searching and replacing\<close>

text \<open>The first data node on the way of a hash.\<close>

function trie_hit :: "slot_fun \<Rightarrow> nat \<Rightarrow> u64 \<Rightarrow> 'd node option \<Rightarrow> 'd option" where
  "trie_hit sl level h None = None"
| "trie_hit sl level h (Some (Data d)) = Some d"
| "trie_hit sl level h (Some (Arr a)) =
     (case sl h level of Inl _ \<Rightarrow> None | Inr i \<Rightarrow> if i < length a then trie_hit sl (level + 1) h (a ! i) else None)"
  by pat_completeness auto
termination
proof (relation "measure (\<lambda>(sl, level, h, x). size_option size x)", goal_cases)
  case (2 sl level h a b)
  then show ?case using size_list_estimation' [of "a ! b" a "size_option size (a ! b)" "size_option size"] by simp
qed simp

lemma trie_hit_arr:
  "sl h level = Inr i \<Longrightarrow> i < length s \<Longrightarrow> trie_hit sl level h (Some (Arr s)) = trie_hit sl (level + 1) h (s ! i)"
  by simp

declare trie_hit.simps(3) [simp del]

lemma trie_hit_mem: "trie_hit sl level h x = Some d \<Longrightarrow> \<exists>n. x = Some n \<and> d \<in> set_node n"
proof (induction sl level h x rule: trie_hit.induct)
  case (3 sl level h a)
  then obtain i where i: "sl h level = Inr i" "i < length a" "trie_hit sl (level + 1) h (a ! i) = Some d"
    by (auto simp: trie_hit.simps(3) split: sum.splits if_splits)
  then obtain n where "a ! i = Some n" "d \<in> set_node n" using 3(1) by blast
  then show ?case using node_nth_set [OF i(2)] by blast
qed auto

lemma find_hit: "trie_find sl hof level h x = (case trie_hit sl level h x of Some d \<Rightarrow> if h = hof d then Some d else None | None \<Rightarrow> None)"
proof (induction sl hof level h x rule: trie_find.induct)
  case (3 sl hof level h a)
  then show ?case by (auto simp: trie_find.simps(3) trie_hit.simps(3) split: sum.splits)
qed auto

context trie_slots
begin

lemma conc_find_correct:
  assumes "node_ok sl hof width depth level (Some (Arr s))" "depth \<le> level + n"
  shows "conc_find sl hof h level n loc s = Inr (map_option Data (trie_find sl hof level h (Some (Arr s))))"
  using assms
proof (induction n arbitrary: level s loc)
  case 0
  then show ?case by (auto elim!: node_ok_arr)
next
  case (Suc n)
  obtain i where i: "sl h level = Inr i" "i < length s" by (rule slot_of_level [OF Suc.prems(1)])
  have "node_ok sl hof width depth (level + 1) (s ! i)" using Suc.prems(1) i(2) by (auto elim!: node_ok_arr)
  then show ?case using i Suc.IH [of "level + 1"] Suc.prems(2) trie_find_arr [of sl h level i s hof]
    by (cases "s ! i"; cases "the (s ! i)") auto
qed

text \<open>A slot gets new content that changes the map by \<open>G\<close>.\<close>

lemma update_slot:
  assumes s: "node_ok sl hof width depth level (Some (Arr s))" and i: "i < length s" and x: "node_ok sl hof width depth (level + 1) x"
    and d: "\<And>n d. x = Some n \<Longrightarrow> d \<in> set_node n \<Longrightarrow> sl (hof d) level = Inr i"
    and G: "\<And>h. sl h level = Inr i \<Longrightarrow> trie_find sl hof (level + 1) h x = G h (trie_find sl hof (level + 1) h (s ! i))"
      "\<And>h y. sl h level \<noteq> Inr i \<Longrightarrow> G h y = y"
  shows "node_ok sl hof width depth level (Some (Arr (s[i := x])))"
    and "trie_find sl hof level h (Some (Arr (s[i := x]))) = G h (trie_find sl hof level h (Some (Arr s)))"
proof -
  show "node_ok sl hof width depth level (Some (Arr (s[i := x])))" by (rule node_ok_update [OF s i x d])
  obtain j where j: "sl h level = Inr j" "j < length s" by (rule slot_of_level [OF s])
  show "trie_find sl hof level h (Some (Arr (s[i := x]))) = G h (trie_find sl hof level h (Some (Arr s)))"
    using find_update [of sl h level j s hof i x] trie_find_arr [of sl h level j s hof] j G [of h] by auto
qed

text \<open>How the map changes when the node \<open>hit\<close> on the way of \<open>h\<close> is replaced by \<open>new\<close>.\<close>

lemma replace_correct:
  assumes "node_ok sl hof width depth level (Some (Arr s))" "depth \<le> level + n" "\<And>d. new = Some d \<Longrightarrow> hof d = h"
  shows "\<exists>s'. replace_hit sl h new level n s = Inr (Inr (trie_hit sl level h (Some (Arr s))), s') \<and>
    node_ok sl hof width depth level (Some (Arr s')) \<and> hof ` set_node (Arr s') \<subseteq> insert h (hof ` set_node (Arr s)) \<and>
    (\<forall>h'. trie_find sl hof level h' (Some (Arr s')) = (case trie_hit sl level h (Some (Arr s)) of None \<Rightarrow> trie_find sl hof level h' (Some (Arr s))
       | Some d \<Rightarrow> if h' = h then new else if h' = hof d then None else trie_find sl hof level h' (Some (Arr s))))"
  using assms(1,2)
proof (induction n arbitrary: level s)
  case 0
  then show ?case by (auto elim!: node_ok_arr)
next
  case (Suc n)
  obtain i where i: "sl h level = Inr i" "i < length s" by (rule slot_of_level [OF Suc.prems(1)])
  note hit = trie_hit_arr [of sl h level i s, OF i]
  have ok: "node_ok sl hof width depth (level + 1) (s ! i)" "\<And>m d. s ! i = Some m \<Longrightarrow> d \<in> set_node m \<Longrightarrow> sl (hof d) level = Inr i"
    using Suc.prems(1) i(2) by (auto elim!: node_ok_arr)
  show ?case
  proof (cases "s ! i")
    case None
    then show ?thesis using i hit Suc.prems(1) by (intro exI [of _ s]) auto
  next
    case (Some m)
    show ?thesis
    proof (cases m)
      case (Data d)
      let ?x = "map_option Data new" and ?G = "\<lambda>h' y. if h' = h then new else if h' = hof d then None else y"
      have sd: "sl (hof d) level = Inr i" using ok(2) [OF Some] Data by simp
      have "node_ok sl hof width depth (level + 1) ?x" by (cases new) (auto intro: node_ok.intros)
      moreover have "sl (hof e) level = Inr i" if "?x = Some n" "e \<in> set_node n" for n e using that assms(3) i(1) by auto
      moreover have "trie_find sl hof (level + 1) h' ?x = ?G h' (trie_find sl hof (level + 1) h' (s ! i))" for h'
        using Some Data assms(3) by (cases new) auto
      moreover have "?G h' y = y" if "sl h' level \<noteq> Inr i" for h' y using that i(1) sd by auto
      ultimately have u: "node_ok sl hof width depth level (Some (Arr (s[i := ?x])))"
        "\<And>h'. trie_find sl hof level h' (Some (Arr (s[i := ?x]))) = ?G h' (trie_find sl hof level h' (Some (Arr s)))"
        using update_slot [OF Suc.prems(1) i(2), where x = ?x and G = ?G] by blast+
      have "hof ` set_node (Arr (s[i := ?x])) \<subseteq> insert h (hof ` set_node (Arr s))"
        using node_update_set [OF i(2), of ?x] assms(3) by (cases new) fastforce+
      then show ?thesis using i hit Some Data u by (intro exI [of _ "s[i := ?x]"]) auto
    next
      case (Arr a)
      have oa: "node_ok sl hof width depth (level + 1) (Some (Arr a))" using ok(1) Some Arr by simp
      let ?G = "\<lambda>h' y. case trie_hit sl (level + 1) h (Some (Arr a)) of None \<Rightarrow> y
        | Some d \<Rightarrow> if h' = h then new else if h' = hof d then None else y"
      obtain a' where a': "replace_hit sl h new (level + 1) n a = Inr (Inr (trie_hit sl (level + 1) h (Some (Arr a))), a')"
        "node_ok sl hof width depth (level + 1) (Some (Arr a'))" "hof ` set_node (Arr a') \<subseteq> insert h (hof ` set_node (Arr a))"
        "\<And>h'. trie_find sl hof (level + 1) h' (Some (Arr a')) = ?G h' (trie_find sl hof (level + 1) h' (Some (Arr a)))"
        using Suc.IH [OF oa] Suc.prems(2) by (metis add_Suc_right add_Suc_shift Suc_eq_plus1)
      let ?x = "Some (Arr a')"
      have lead: "sl (hof e) level = Inr i" if "e \<in> set_node (Arr a')" for e
      proof -
        have "hof e = h \<or> (\<exists>e' \<in> set_node (Arr a). hof e = hof e')" using a'(3) that by auto
        then show ?thesis using ok(2) [OF Some] Arr i(1) by auto
      qed
      have hs: "sl (hof d) level = Inr i" if "trie_hit sl (level + 1) h (Some (Arr a)) = Some d" for d
        using trie_hit_mem [OF that] ok(2) [OF Some] Arr by auto
      have "?G h' y = y" if "sl h' level \<noteq> Inr i" for h' y using that i(1) hs by (auto split: option.splits)
      moreover have "trie_find sl hof (level + 1) h' ?x = ?G h' (trie_find sl hof (level + 1) h' (s ! i))" for h'
        unfolding Some Arr by (rule a'(4))
      moreover have "sl (hof e) level = Inr i" if "?x = Some n" "e \<in> set_node n" for n e using lead that by auto
      ultimately have u: "node_ok sl hof width depth level (Some (Arr (s[i := ?x])))"
        "\<And>h'. trie_find sl hof level h' (Some (Arr (s[i := ?x]))) = ?G h' (trie_find sl hof level h' (Some (Arr s)))"
        using update_slot [OF Suc.prems(1) i(2) a'(2), where G = ?G] by blast+
      have "hof ` set_node (Arr (s[i := ?x])) \<subseteq> insert h (hof ` set_node (Arr s))"
        by (rule image_step [OF node_update_set [OF i(2)], where B = "set_node (Arr a)"]) (use a'(3) node_nth_set [OF i(2) Some] Arr in auto)
      then show ?thesis using i hit Some Arr u a'(1) by (intro exI [of _ "s[i := ?x]"]) auto
    qed
  qed
qed

text \<open>Each data node is found under its hash.\<close>

lemma trie_find_mem:
  assumes "node_ok sl hof width depth level x" "x = Some n" "d \<in> set_node n"
  shows "trie_find sl hof level (hof d) x = Some d"
  using assms
proof (induction arbitrary: n rule: node_ok.induct)
  case (arr level a)
  have "d \<in> set_node (Arr a)" using arr.prems by simp
  then obtain i m where i: "i < length a" "a ! i = Some m" "d \<in> set_node m"
    unfolding node.set(2) by (auto simp: in_set_conv_nth)
  then have "sl (hof d) level = Inr i" using arr.hyps(4) by blast
  then show ?case using i arr.IH [OF i(1,2,3)] trie_find_arr [of sl "hof d" level i a hof] by simp
qed auto

end

section \<open>The slots as a map\<close>

text \<open>Both tables keep these slots; \<open>n\<close> is the number of levels.\<close>

definition slot_map :: "nat \<Rightarrow> nat \<Rightarrow> ('k, 'v) cslots \<Rightarrow> u64 \<Rightarrow> ('k, 'v) data_block option" where
  "slot_map R L s h = trie_find (conc_slot R L) block_hash 0 h (Some (Arr s))"

definition slot_hit :: "nat \<Rightarrow> nat \<Rightarrow> ('k, 'v) cslots \<Rightarrow> u64 \<Rightarrow> ('k, 'v) data_block option" where
  "slot_hit R L s h = trie_hit (conc_slot R L) 0 h (Some (Arr s))"

definition slot_lookup :: "('k \<Rightarrow> u64) \<Rightarrow> nat \<Rightarrow> nat \<Rightarrow> ('k, 'v) cslots \<Rightarrow> 'k \<Rightarrow> 'v option" where
  "slot_lookup H R L s k = map_option block_mapped (slot_map R L s (H k))"

definition slots_inv :: "('k \<Rightarrow> u64) \<Rightarrow> nat \<Rightarrow> nat \<Rightarrow> nat \<Rightarrow> ('k, 'v) cslots \<Rightarrow> bool" where
  "slots_inv H R L n s \<longleftrightarrow> 0 < L \<and> L \<le> 10 \<and> R \<le> 30 \<and> conc_depth R L \<le> n \<and>
     node_ok (conc_slot R L) block_hash (conc_width R L) (conc_depth R L) 0 (Some (Arr s)) \<and>
     (\<forall>h d. slot_map R L s h = Some d \<longrightarrow> H (block_key d) = h)"

lemma slots_trie: "slots_inv H R L n s \<Longrightarrow> trie_slots (conc_slot R L) (conc_width R L) (conc_depth R L)"
  unfolding slots_inv_def by (rule conc_trie) simp_all

lemma slots_ok:
  assumes "slots_inv H R L n s"
  shows "node_ok (conc_slot R L) block_hash (conc_width R L) (conc_depth R L) 0 (Some (Arr s))" "conc_depth R L \<le> 0 + n"
  using assms by (simp_all add: slots_inv_def)

lemma slots_inv_step:
  assumes "slots_inv H R L n s" "node_ok (conc_slot R L) block_hash (conc_width R L) (conc_depth R L) 0 (Some (Arr s'))"
    "\<And>h d. slot_map R L s' h = Some d \<Longrightarrow> slot_map R L s h = Some d \<or> H (block_key d) = h"
  shows "slots_inv H R L n s'"
  using assms unfolding slots_inv_def by blast

lemma hit_mapped:
  assumes "slots_inv H R L n s" "slot_hit R L s h = Some d"
  shows "slot_map R L s (block_hash d) = Some d" "H (block_key d) = block_hash d"
proof -
  have "d \<in> set_node (Arr s)" using trie_hit_mem [OF assms(2) [unfolded slot_hit_def]] by simp
  then show "slot_map R L s (block_hash d) = Some d"
    unfolding slot_map_def by (rule trie_slots.trie_find_mem [OF slots_trie [OF assms(1)] slots_ok(1) [OF assms(1)] refl])
  then show "H (block_key d) = block_hash d" using assms(1) unfolding slots_inv_def by blast
qed

lemma map_hit: "slot_map R L s h = (case slot_hit R L s h of Some d \<Rightarrow> if h = block_hash d then Some d else None | None \<Rightarrow> None)"
  unfolding slot_map_def slot_hit_def by (rule find_hit)

lemma slots_find:
  assumes "slots_inv H R L n s"
  shows "conc_find (conc_slot R L) block_hash h 0 n None s = Inr (map_option Data (slot_map R L s h))"
  unfolding slot_map_def by (rule trie_slots.conc_find_correct [OF slots_trie [OF assms] slots_ok [OF assms]])

lemma slots_insert:
  assumes inv: "slots_inv H R L n s"
  shows "\<exists>s' p. insert_node (conc_slot R L) block_hash (get_power2 L) True fa (data_node H k v) False 0 n s [] = Inr (slot_map R L s (H k) = None, s', p) \<and>
    slots_inv H R L n s' \<and> slot_map R L s' = (if slot_map R L s (H k) = None then (slot_map R L s)(H k \<mapsto> data_node H k v) else slot_map R L s)"
proof -
  let ?d = "data_node H k v" and ?sl = "conc_slot R L"
  have hk: "block_hash ?d = H k" "block_key ?d = k" by (simp_all add: data_node_def)
  have "conc_width R L l = get_power2 L" if "0 < l" for l using that by (simp add: conc_width_def)
  from trie_slots.trie_insert_correct [OF slots_trie [OF inv] this slots_ok [OF inv], of ?d "[]" True fa False]
  obtain s' p where s': "insert_node ?sl block_hash (get_power2 L) True fa ?d False 0 n s [] = Inr (slot_map R L s (H k) = None, s', p)"
    "node_ok ?sl block_hash (conc_width R L) (conc_depth R L) 0 (Some (Arr s'))"
    "\<forall>h. slot_map R L s' h = (if h = H k \<and> slot_map R L s (H k) = None then Some ?d else slot_map R L s h)"
    by (auto simp: slot_map_def hk)
  have "slots_inv H R L n s'" by (rule slots_inv_step [OF inv s'(2)]) (use s'(3) hk in \<open>auto split: if_splits\<close>)
  then show ?thesis using s'(1,3) by (auto simp: fun_eq_iff)
qed

lemma slots_replace:
  assumes inv: "slots_inv H R L n s" and new: "\<And>d. new = Some d \<Longrightarrow> block_hash d = H k \<and> block_key d = k"
  shows "\<exists>s'. replace_hit (conc_slot R L) (H k) new 0 n s = Inr (Inr (slot_hit R L s (H k)), s') \<and> slots_inv H R L n s' \<and>
    slot_map R L s' = (case slot_hit R L s (H k) of None \<Rightarrow> slot_map R L s | Some d \<Rightarrow> (slot_map R L s)(block_hash d := None, H k := new))"
proof -
  let ?sl = "conc_slot R L"
  obtain s' where s': "replace_hit ?sl (H k) new 0 n s = Inr (Inr (slot_hit R L s (H k)), s')"
    "node_ok ?sl block_hash (conc_width R L) (conc_depth R L) 0 (Some (Arr s'))"
    "\<forall>h'. slot_map R L s' h' = (case slot_hit R L s (H k) of None \<Rightarrow> slot_map R L s h'
       | Some d \<Rightarrow> if h' = H k then new else if h' = block_hash d then None else slot_map R L s h')"
    using trie_slots.replace_correct [OF slots_trie [OF inv] slots_ok [OF inv], of new "H k"] new
    unfolding slot_map_def slot_hit_def by metis
  have "slots_inv H R L n s'" by (rule slots_inv_step [OF inv s'(2)]) (use s'(3) new in \<open>auto split: if_splits option.splits\<close>)
  then show ?thesis using s'(1,3) by (intro exI [of _ s']) (auto simp: fun_eq_iff split: option.splits)
qed

section \<open>Keys and values\<close>

lemma map_key: "slots_inv H R L n s \<Longrightarrow> inj H \<Longrightarrow> slot_map R L s (H k) = Some d \<Longrightarrow> block_key d = k"
  unfolding slots_inv_def by (meson injD)

lemma hit_lookup:
  assumes "slots_inv H R L n s" "inj H" "slot_lookup H R L s k \<noteq> None"
  shows "\<exists>d. slot_hit R L s (H k) = Some d \<and> block_key d = k"
proof -
  obtain d where d: "slot_map R L s (H k) = Some d" using assms(3) by (auto simp: slot_lookup_def)
  then have "slot_hit R L s (H k) = Some d" by (auto simp: map_hit split: option.splits if_splits)
  then show ?thesis using map_key [OF assms(1,2) d] by blast
qed

lemma lookup_insert:
  assumes "inj H" "slot_map R L s' = (slot_map R L s)(H k \<mapsto> data_node H k v)"
  shows "slot_lookup H R L s' = (slot_lookup H R L s)(k \<mapsto> v)"
  using assms by (auto simp: slot_lookup_def fun_eq_iff data_node_def inj_eq)

lemma lookup_replace:
  assumes "slots_inv H R L n s" "inj H" "slot_hit R L s (H k) = Some d" "slot_map R L s' = (slot_map R L s)(block_hash d := None, H k := new)"
  shows "slot_lookup H R L s' = (slot_lookup H R L s)(block_key d := None, k := map_option block_mapped new)"
  using assms(2,4) hit_mapped(2) [OF assms(1,3), symmetric] by (auto simp: slot_lookup_def fun_eq_iff inj_eq)

lemma slots_modify:
  assumes inv: "slots_inv H R L n s" "inj H"
  shows "\<exists>s'. replace_hit (conc_slot R L) (H k) (Some (data_node H k v)) 0 n s = Inr (Inr (slot_hit R L s (H k)), s') \<and> slots_inv H R L n s' \<and>
    slot_lookup H R L s' = (case slot_hit R L s (H k) of None \<Rightarrow> slot_lookup H R L s | Some d \<Rightarrow> (slot_lookup H R L s)(block_key d := None, k \<mapsto> v))"
proof -
  obtain s' where s': "replace_hit (conc_slot R L) (H k) (Some (data_node H k v)) 0 n s = Inr (Inr (slot_hit R L s (H k)), s')" "slots_inv H R L n s'"
    "slot_map R L s' = (case slot_hit R L s (H k) of None \<Rightarrow> slot_map R L s | Some d \<Rightarrow> (slot_map R L s)(block_hash d := None, H k := Some (data_node H k v)))"
    using slots_replace [OF inv(1), of "Some (data_node H k v)" k] by (auto simp: data_node_def)
  show ?thesis
  proof (cases "slot_hit R L s (H k)")
    case None
    then show ?thesis using s' by (intro exI [of _ s']) (simp add: slot_lookup_def [abs_def])
  next
    case (Some d)
    then show ?thesis using s' lookup_replace [OF inv Some, of s'] by (intro exI [of _ s']) (simp add: data_node_def)
  qed
qed

lemma slots_remove:
  assumes inv: "slots_inv H R L n s" "inj H"
  shows "\<exists>s'. replace_hit (conc_slot R L) (H k) None 0 n s = Inr (Inr (slot_hit R L s (H k)), s') \<and> slots_inv H R L n s' \<and>
    slot_lookup H R L s' = (case slot_hit R L s (H k) of None \<Rightarrow> slot_lookup H R L s | Some d \<Rightarrow> (slot_lookup H R L s)(block_key d := None, k := None))"
proof -
  obtain s' where s': "replace_hit (conc_slot R L) (H k) None 0 n s = Inr (Inr (slot_hit R L s (H k)), s')" "slots_inv H R L n s'"
    "slot_map R L s' = (case slot_hit R L s (H k) of None \<Rightarrow> slot_map R L s | Some d \<Rightarrow> (slot_map R L s)(block_hash d := None, H k := None))"
    using slots_replace [OF inv(1), of None k] by auto
  show ?thesis
  proof (cases "slot_hit R L s (H k)")
    case None
    then show ?thesis using s' by (intro exI [of _ s']) (simp add: slot_lookup_def [abs_def])
  next
    case (Some d)
    then show ?thesis using s' lookup_replace [OF inv Some, of s'] by (intro exI [of _ s']) simp
  qed
qed

text \<open>A missing key is reported by \<open>Insert\<close>; a removal of a hit takes out at most the hit, since a key that is there is the hit.\<close>

lemma hit_other:
  assumes "slots_inv H R L n s" "inj H" "slot_hit R L s (H k) = Some d"
  shows "(slot_lookup H R L s)(block_key d := None, k := None) = (slot_lookup H R L s)(block_key d := None)"
proof (cases "slot_lookup H R L s k")
  case None
  then show ?thesis by (auto simp: fun_eq_iff)
next
  case (Some v)
  then show ?thesis using hit_lookup [OF assms(1,2), of k] assms(3) by auto
qed

lemma slots_insert_lookup:
  assumes inv: "slots_inv H R L n s" "inj H"
  shows "\<exists>s' p. insert_node (conc_slot R L) block_hash (get_power2 L) True fa (data_node H k v) False 0 n s [] =
      Inr (slot_lookup H R L s k = None, s', p) \<and> slots_inv H R L n s' \<and>
    slot_lookup H R L s' = (if slot_lookup H R L s k = None then (slot_lookup H R L s)(k \<mapsto> v) else slot_lookup H R L s)"
proof -
  have e: "(slot_map R L s (H k) = None) = (slot_lookup H R L s k = None)" by (simp add: slot_lookup_def)
  obtain s' p where s': "insert_node (conc_slot R L) block_hash (get_power2 L) True fa (data_node H k v) False 0 n s [] =
      Inr (slot_lookup H R L s k = None, s', p)" "slots_inv H R L n s'"
    "slot_map R L s' = (if slot_lookup H R L s k = None then (slot_map R L s)(H k \<mapsto> data_node H k v) else slot_map R L s)"
    using slots_insert [OF inv(1), of fa k v] unfolding e by blast
  have "slot_lookup H R L s' = (if slot_lookup H R L s k = None then (slot_lookup H R L s)(k \<mapsto> v) else slot_lookup H R L s)"
    using s'(3) lookup_insert [OF inv(2), of R L s' s k v] by (auto simp: slot_lookup_def [abs_def])
  then show ?thesis using s' by blast
qed

lemma slots_get:
  assumes inv: "slots_inv H R L n s" "inj H"
  shows "bindR (conc_find (conc_slot R L) block_hash (H k) 0 n None s) (\<lambda>loc. case loc of None \<Rightarrow> Inl Thrown
       | Some (Data d) \<Rightarrow> Inr (block_key d, block_mapped d) | Some (Arr _) \<Rightarrow> Inl UB) =
    (case slot_lookup H R L s k of None \<Rightarrow> Inl Thrown | Some v \<Rightarrow> Inr (k, v))"
  using slots_find [OF inv(1), of "H k"] map_key [OF inv, of k] by (cases "slot_map R L s (H k)") (auto simp: slot_lookup_def)

lemma slots_inv_new:
  fixes H :: "'k \<Rightarrow> u64" and s :: "('k, 'v) cslots"
  assumes "0 < L" "L \<le> 10" "R \<le> 30" "conc_depth R L \<le> n" and s: "s = replicate (get_power2 R) None"
  shows "slots_inv H R L n s" "slot_map R L s = Map.empty"
proof -
  have T: "trie_slots (conc_slot R L) (conc_width R L) (conc_depth R L)" by (rule conc_trie [OF assms(1-3)])
  have dp: "0 < conc_depth R L" by (simp add: conc_depth_def)
  have w: "conc_width R L 0 = get_power2 R" by (simp add: conc_width_def)
  have ok: "node_ok (conc_slot R L) block_hash (conc_width R L) (conc_depth R L) 0 (Some (Arr s))"
    using dp w s by (intro node_ok.arr) (auto intro: node_ok.intros)
  show m: "slot_map R L s = Map.empty"
  proof
    fix h
    obtain i where "conc_slot R L h 0 = Inr i" "i < get_power2 R" using trie_slots.slot_in [OF T dp, of h] w by auto
    then show "slot_map R L s h = None" by (simp add: slot_map_def trie_find_arr s)
  qed
  then show "slots_inv H R L n s" using assms ok by (simp add: slots_inv_def)
qed

section \<open>Properties\<close>

text \<open>
  C29: what one thread sees of a \<open>ConcurrentHashTable\<close> with an injective hash. \<open>Insert\<close> and \<open>Get\<close> are those of a map.
  \<open>Update\<close> and \<open>Remove\<close> act on the first data node on the path of the key and do not compare its hash: when that node
  belongs to another key, \<open>Update\<close> drops that key and reports success, and \<open>Remove\<close> takes it out. A key that is there is
  the first node on its path. \<open>Remove\<close> always returns false and leaves the size unchanged.
\<close>

theorem conc_effects:
  assumes "slots_inv H R L (conc_max_level t) (root_arr t)" "inj H" "m = slot_lookup H R L (root_arr t)" "hit = slot_hit R L (root_arr t) (H k)"
  shows "(\<exists>t'. conc_Insert H R L k v t = Inr (m k = None, t') \<and> slots_inv H R L (conc_max_level t') (root_arr t') \<and>
       slot_lookup H R L (root_arr t') = (if m k = None then m(k \<mapsto> v) else m) \<and> conc_Size t' = (if m k = None then conc_Size t + 1 else conc_Size t)) \<and>
    conc_Get H R L k t = (case m k of None \<Rightarrow> Inl Thrown | Some v \<Rightarrow> Inr (k, v)) \<and>
    (\<exists>t'. conc_Update H R L k v t = Inr (hit \<noteq> None, t') \<and> slots_inv H R L (conc_max_level t') (root_arr t') \<and> conc_Size t' = conc_Size t \<and>
       slot_lookup H R L (root_arr t') = (case hit of None \<Rightarrow> m | Some d \<Rightarrow> m(block_key d := None, k \<mapsto> v))) \<and>
    (\<exists>t'. conc_Remove H R L k t = Inr (False, t') \<and> slots_inv H R L (conc_max_level t') (root_arr t') \<and> conc_Size t' = conc_Size t \<and>
       slot_lookup H R L (root_arr t') = (case hit of None \<Rightarrow> m | Some d \<Rightarrow> m(block_key d := None))) \<and>
    (m k \<noteq> None \<longrightarrow> (\<exists>d. hit = Some d \<and> block_key d = k))"
proof (intro conjI)
  show "\<exists>t'. conc_Insert H R L k v t = Inr (m k = None, t') \<and> slots_inv H R L (conc_max_level t') (root_arr t') \<and>
       slot_lookup H R L (root_arr t') = (if m k = None then m(k \<mapsto> v) else m) \<and> conc_Size t' = (if m k = None then conc_Size t + 1 else conc_Size t)"
    using slots_insert_lookup [OF assms(1,2), of False k v] unfolding assms(3) by (auto simp: conc_Insert_def conc_insert_locator_def conc_Size_def Let_def)
  show "conc_Get H R L k t = (case m k of None \<Rightarrow> Inl Thrown | Some v \<Rightarrow> Inr (k, v))"
    unfolding assms(3) conc_Get_def by (rule slots_get [OF assms(1,2)])
  show "\<exists>t'. conc_Update H R L k v t = Inr (hit \<noteq> None, t') \<and> slots_inv H R L (conc_max_level t') (root_arr t') \<and> conc_Size t' = conc_Size t \<and>
       slot_lookup H R L (root_arr t') = (case hit of None \<Rightarrow> m | Some d \<Rightarrow> m(block_key d := None, k \<mapsto> v))"
    using slots_modify [OF assms(1,2), of k v] unfolding assms(3,4) by (auto simp: conc_Update_def conc_Size_def)
  obtain s where s: "replace_hit (conc_slot R L) (H k) None 0 (conc_max_level t) (root_arr t) = Inr (Inr hit, s)" "slots_inv H R L (conc_max_level t) s"
    "slot_lookup H R L s = (case hit of None \<Rightarrow> m | Some d \<Rightarrow> m(block_key d := None, k := None))"
    using slots_remove [OF assms(1,2), of k] unfolding assms(3,4) by blast
  have "slot_lookup H R L s = (case hit of None \<Rightarrow> m | Some d \<Rightarrow> m(block_key d := None))"
    using s(3) hit_other [OF assms(1,2)] unfolding assms(3,4) by (simp split: option.splits)
  then show "\<exists>t'. conc_Remove H R L k t = Inr (False, t') \<and> slots_inv H R L (conc_max_level t') (root_arr t') \<and> conc_Size t' = conc_Size t \<and>
       slot_lookup H R L (root_arr t') = (case hit of None \<Rightarrow> m | Some d \<Rightarrow> m(block_key d := None))"
    using s(1,2) by (simp add: conc_Remove_def conc_Size_def)
  show "m k \<noteq> None \<longrightarrow> (\<exists>d. hit = Some d \<and> block_key d = k)" using hit_lookup [OF assms(1,2)] unfolding assms(3,4) by blast
qed

definition shared_table :: "(u64, nat) conc_table" where
  "shared_table = \<lparr>root_arr = Some (Data \<lparr>block_key = 16, block_mapped = 1, block_hash = 16\<rparr>) # replicate 15 None,
     conc_count = 1, conc_max_level = 19, conc_max = - 1\<rparr>"

lemma shared_table_new:
  "conc_Insert (\<lambda>k. k) 4 4 16 1 \<lparr>root_arr = replicate 16 None, conc_count = 0, conc_max_level = 19, conc_max = - 1\<rparr> = Inr (True, shared_table)"
  by code_simp

lemma shared_table_hit: "slot_hit 4 4 (root_arr shared_table) 32 = Some \<lparr>block_key = 16, block_mapped = 1, block_hash = 16\<rparr>"
  by code_simp

theorem conc_effects_witness:
  "\<exists>t t' t''. ConcurrentHashTable 4 4 8 = Some t \<and> conc_Insert (\<lambda>k :: u64. k) 4 4 16 (1 :: nat) t = Inr (True, t') \<and>
     conc_Update (\<lambda>k. k) 4 4 32 2 t' = Inr (True, t'') \<and> conc_Get (\<lambda>k. k) 4 4 16 t'' = Inl Thrown"
proof -
  let ?H = "\<lambda>k :: u64. k" and ?t = "\<lparr>root_arr = replicate 16 None, conc_count = 0, conc_max_level = 19, conc_max = - 1\<rparr> :: (u64, nat) conc_table"
  have g: "get_power2 4 = 16" by (simp add: get_power2_pow)
  have "table_levels 16 8 = Some (19, - 1)" using large_table_levels [of 8 4] by (simp add: ARRAY_SIZE_def g level_counts_def)
  then have c: "ConcurrentHashTable 4 4 8 = Some ?t" by (simp add: ConcurrentHashTable_def g)
  have i: "inj ?H" by (simp add: inj_def)
  have inv: "slots_inv ?H 4 4 19 (root_arr ?t)" "slot_map 4 4 (root_arr ?t) = Map.empty"
    using slots_inv_new [where L = 4 and R = 4 and n = 19 and s = "root_arr ?t"] by (simp_all add: g conc_depth_def)
  have inv1: "slots_inv ?H 4 4 (conc_max_level shared_table) (root_arr shared_table)"
    using conc_effects [OF _ i refl refl, where R = 4 and L = 4 and t = ?t and k = 16 and v = 1] inv(1) shared_table_new by auto
  obtain t'' where t'': "conc_Update ?H 4 4 32 2 shared_table = Inr (True, t'')" "slots_inv ?H 4 4 (conc_max_level t'') (root_arr t'')"
    "slot_lookup ?H 4 4 (root_arr t'') = (slot_lookup ?H 4 4 (root_arr shared_table))(16 := None, 32 \<mapsto> 2)"
    using conc_effects [OF inv1 i refl refl, of 32 2] unfolding shared_table_hit by auto
  have "conc_Get ?H 4 4 16 t'' = Inl Thrown" using conc_effects [OF t''(2) i refl refl, of 16 2] t''(3) by simp
  then show ?thesis using c shared_table_new t''(1) by blast
qed

text \<open>
  C30: the same for \<open>LockFreeHashTable\<close> with the hash injective. A node that \<open>Update\<close> or \<open>Remove\<close> takes out is handed over to the epoch,
  and no other node is. \<open>Remove\<close> returns whether it found the key, and fails its assertion when the first node on the path of the key
  belongs to another key.
\<close>

theorem lf_effects:
  assumes "slots_inv H R L (lf_max_level t) (lf_root t)" "inj H" "m = slot_lookup H R L (lf_root t)" "hit = slot_hit R L (lf_root t) (H k)"
  shows "(\<exists>t'. lf_Insert H R L k v t = Inr (m k = None, t') \<and> slots_inv H R L (lf_max_level t') (lf_root t') \<and>
       slot_lookup H R L (lf_root t') = (if m k = None then m(k \<mapsto> v) else m) \<and> lf_retired t' = lf_retired t) \<and>
    lf_Get H R L k t = (case m k of None \<Rightarrow> Inl Thrown | Some v \<Rightarrow> Inr (k, v)) \<and>
    (\<exists>t'. lf_Update H R L k v t = Inr (hit \<noteq> None, t') \<and> slots_inv H R L (lf_max_level t') (lf_root t') \<and>
       slot_lookup H R L (lf_root t') = (case hit of None \<Rightarrow> m | Some d \<Rightarrow> m(block_key d := None, k \<mapsto> v)) \<and>
       lf_retired t' = (case hit of None \<Rightarrow> lf_retired t | Some d \<Rightarrow> lf_retired t @ [d])) \<and>
    (case hit of None \<Rightarrow> lf_Remove H R L k t = Inr (False, t) \<and> m k = None
     | Some d \<Rightarrow> if block_key d \<noteq> k then lf_Remove H R L k t = Inl AssertFail \<and> m k = None
         else \<exists>t'. lf_Remove H R L k t = Inr (True, t') \<and> slots_inv H R L (lf_max_level t') (lf_root t') \<and>
           slot_lookup H R L (lf_root t') = m(k := None) \<and> lf_retired t' = lf_retired t @ [d])"
proof (intro conjI)
  show "\<exists>t'. lf_Insert H R L k v t = Inr (m k = None, t') \<and> slots_inv H R L (lf_max_level t') (lf_root t') \<and>
       slot_lookup H R L (lf_root t') = (if m k = None then m(k \<mapsto> v) else m) \<and> lf_retired t' = lf_retired t"
    using slots_insert_lookup [OF assms(1,2), of True k v] unfolding assms(3) by (auto simp: lf_Insert_def lf_insert_locator_def)
  show "lf_Get H R L k t = (case m k of None \<Rightarrow> Inl Thrown | Some v \<Rightarrow> Inr (k, v))"
    unfolding assms(3) lf_Get_def lf_get_locator_def by (rule slots_get [OF assms(1,2)])
  obtain s where "replace_hit (conc_slot R L) (H k) (Some (data_node H k v)) 0 (lf_max_level t) (lf_root t) = Inr (Inr hit, s)" "slots_inv H R L (lf_max_level t) s"
    "slot_lookup H R L s = (case hit of None \<Rightarrow> m | Some d \<Rightarrow> m(block_key d := None, k \<mapsto> v))"
    using slots_modify [OF assms(1,2), of k v] unfolding assms(3,4) by blast
  then show "\<exists>t'. lf_Update H R L k v t = Inr (hit \<noteq> None, t') \<and> slots_inv H R L (lf_max_level t') (lf_root t') \<and>
       slot_lookup H R L (lf_root t') = (case hit of None \<Rightarrow> m | Some d \<Rightarrow> m(block_key d := None, k \<mapsto> v)) \<and>
       lf_retired t' = (case hit of None \<Rightarrow> lf_retired t | Some d \<Rightarrow> lf_retired t @ [d])"
    using assms(1,3) by (cases hit) (auto simp: lf_Update_def lf_modify_locator_def)
  obtain s where s: "replace_hit (conc_slot R L) (H k) None 0 (lf_max_level t) (lf_root t) = Inr (Inr hit, s)" "slots_inv H R L (lf_max_level t) s"
    "slot_lookup H R L s = (case hit of None \<Rightarrow> m | Some d \<Rightarrow> m(block_key d := None, k := None))"
    using slots_remove [OF assms(1,2), of k] unfolding assms(3,4) by blast
  have "m k = None" if "\<nexists>d. hit = Some d \<and> block_key d = k" using hit_lookup [OF assms(1,2), of k] that unfolding assms(3,4) by blast
  then show "case hit of None \<Rightarrow> lf_Remove H R L k t = Inr (False, t) \<and> m k = None
     | Some d \<Rightarrow> if block_key d \<noteq> k then lf_Remove H R L k t = Inl AssertFail \<and> m k = None
         else \<exists>t'. lf_Remove H R L k t = Inr (True, t') \<and> slots_inv H R L (lf_max_level t') (lf_root t') \<and>
           slot_lookup H R L (lf_root t') = m(k := None) \<and> lf_retired t' = lf_retired t @ [d]"
    using s unfolding lf_Remove_def lf_modify_locator_def by (cases hit) simp_all
qed

lemma lf_levels_8: "lf_levels 4 8 = Some 2"
  by (subst lf_levels_def) (simp add: levels_loop.simps get_power2_pow Let_def)

theorem lf_effects_witness:
  "\<exists>t t'. LockFreeHashTable 4 4 8 = Some t \<and> lf_Insert (\<lambda>k :: u64. k) 4 4 16 (1 :: nat) t = Inr (True, t') \<and>
     lf_Get (\<lambda>k. k) 4 4 16 t' = Inr (16, 1) \<and> (\<exists>t'' d. lf_Remove (\<lambda>k. k) 4 4 16 t' = Inr (True, t'') \<and> lf_retired t'' = [d])"
proof -
  let ?H = "\<lambda>k :: u64. k" and ?t = "\<lparr>lf_root = replicate 16 None, lf_max_level = 20, lf_retired = []\<rparr> :: (u64, nat) lf_table"
  have g: "get_power2 4 = 16" by (simp add: get_power2_pow)
  have c: "LockFreeHashTable 4 4 8 = Some ?t" by (simp add: LockFreeHashTable_def lf_levels_8 g)
  have i: "inj ?H" by (simp add: inj_def)
  have inv: "slots_inv ?H 4 4 (lf_max_level ?t) (lf_root ?t)" "slot_map 4 4 (lf_root ?t) = Map.empty"
    using slots_inv_new [where L = 4 and R = 4 and n = 20 and s = "lf_root ?t"] by (simp_all add: g conc_depth_def)
  have e: "slot_lookup ?H 4 4 (lf_root ?t) = Map.empty" using inv(2) by (simp add: slot_lookup_def [abs_def])
  obtain t' where t': "lf_Insert ?H 4 4 16 1 ?t = Inr (True, t')" "slots_inv ?H 4 4 (lf_max_level t') (lf_root t')"
    "slot_lookup ?H 4 4 (lf_root t') = [16 \<mapsto> 1]" "lf_retired t' = []"
    using lf_effects [OF inv(1) i refl refl, of 16 1] e by auto
  have "lf_Get ?H 4 4 16 t' = Inr (16, 1)" "\<exists>t'' d. lf_Remove ?H 4 4 16 t' = Inr (True, t'') \<and> lf_retired t'' = [d]"
    using lf_effects [OF t'(2) i refl refl, of 16 1] t'(3,4) by (auto split: option.splits if_splits)
  then show ?thesis using c t'(1) by blast
qed

end
