(* ===== verification/ByteReads.thy ===== *)
theory ByteReads
  imports Prelude "HOL-Library.Signed_Division"
begin

text \<open>
  Reads of a byte object that the hash functions under \<open>mhash/util\<close> share: the \<open>switch\<close> statements without breaks
  that collect up to fifteen trailing bytes, and the bits of words that are read from memory.
\<close>

section \<open>Lengths\<close>

text \<open>
  Most of the functions take the length of the key as an \<open>int\<close>, which is an integer of any sign here. \<open>c_int\<close> is the conversion of
  a size to an \<open>int\<close> of 32 bits: from \<open>2 ^ 31\<close> on the result is negative. \<open>ptrR\<close> is pointer arithmetic: it is
  undefined outside of the object.
\<close>

definition c_int :: "nat \<Rightarrow> int" where
  "c_int n = sint (of_nat n :: u32)"

definition ptrR :: "u8 list \<Rightarrow> int \<Rightarrow> c_error + nat" where
  "ptrR data z = (if 0 \<le> z \<and> z \<le> int (length data) then Inr (nat z) else Inl UB)"

lemma c_int_small: "n < 2 ^ 31 \<Longrightarrow> c_int n = int n"
  unfolding c_int_def sint_uint signed_take_bit_eq_take_bit_shift by (simp add: take_bit_eq_mod uint_nat unat_of_nat)

lemma c_int_large: "2 ^ 31 \<le> n \<Longrightarrow> n < 2 ^ 32 \<Longrightarrow> c_int n = int n - 2 ^ 32"
proof -
  assume n: "2 ^ 31 \<le> n" "n < 2 ^ 32"
  have u: "uint (of_nat n :: u32) = int n" using n(2) by (simp add: uint_nat unat_of_nat)
  have "(int n + 2 ^ 31) mod 2 ^ 32 = int n - 2 ^ 31" using n by (simp add: mod_pos_geq)
  then show ?thesis unfolding c_int_def sint_uint signed_take_bit_eq_take_bit_shift u by (simp add: take_bit_eq_mod)
qed

section \<open>Trailing bytes\<close>

text \<open>
  \<open>switch (n) { case 3: h = f(h, data[2] << 16); case 2: h = f(h, data[1] << 8); case 1: h = f(h, data[0]); }\<close> for
  any number of cases, with the bytes at offset \<open>p\<close>. A shift of a byte into the sign bit of an \<open>int\<close> is taken to wrap.
\<close>

primrec switch_tail :: "('a::len word \<Rightarrow> 'a word \<Rightarrow> 'a word) \<Rightarrow> u8 list \<Rightarrow> nat \<Rightarrow> nat \<Rightarrow> 'a word \<Rightarrow> c_error + 'a word" where
  "switch_tail f data p 0 h = Inr h"
| "switch_tail f data p (Suc i) h = bindR (nthR data (p + i)) (\<lambda>b. switch_tail f data p i (f h (push_bit (8 * i) (ucast b))))"

section \<open>Bits of words read from memory\<close>

lemma bit_le_bytes: "bit (le_bytes bs :: 'a::len word) k \<longleftrightarrow> k < LENGTH('a) \<and> k div 8 < length bs \<and> bit (bs ! (k div 8)) (k mod 8)"
proof (induction bs arbitrary: k)
  case (Cons b bs)
  show ?case
  proof (cases "k < 8")
    case True
    then show ?thesis by (auto simp: bit_simps dest: bit_imp_le_length)
  next
    case False
    then obtain j where k: "k = j + 8" by (metis add.commute le_Suc_ex not_less)
    have "\<not> bit b k" using bit_imp_le_length [of b k] False by auto
    moreover have "k div 8 = Suc (j div 8)" "k mod 8 = j mod 8" using k by simp_all
    ultimately show ?thesis using Cons [of j] k by (auto simp: bit_or_iff bit_push_bit_iff bit_ucast_iff)
  qed
qed simp

lemma le_bytes_append: "(le_bytes (xs @ ys) :: 'a::len word) = le_bytes xs OR push_bit (8 * length xs) (le_bytes ys)"
  by (induction xs) (simp_all add: push_bit_or or.assoc push_bit_push_bit add.commute)

lemma le_bytes_disjoint: "(le_bytes xs :: 'a::len word) AND push_bit (8 * length xs) y = 0"
  by (rule bit_word_eqI) (auto simp: bit_simps bit_le_bytes div_less_iff_less_mult mult.commute)

lemma le_bytes_drop:
  assumes "8 * length xs \<le> LENGTH('a)"
  shows "drop_bit (8 * n) (le_bytes xs :: 'a::len word) = le_bytes (drop n xs)"
proof (rule bit_word_eqI)
  fix k assume "k < LENGTH('a)"
  show "bit (drop_bit (8 * n) (le_bytes xs :: 'a word)) k = bit (le_bytes (drop n xs) :: 'a word) k"
  proof (cases "n + k div 8 < length xs")
    case True
    then have "8 * (n + k div 8 + 1) \<le> 8 * length xs" by simp
    also note assms
    finally have "8 * (n + k div 8 + 1) \<le> LENGTH('a)" .
    moreover have "8 * n + k < 8 * (n + k div 8 + 1)" using div_mult_mod_eq [of k 8] mod_less_divisor [of 8 k] by simp
    ultimately have "8 * n + k < LENGTH('a)" by linarith
    then show ?thesis using True \<open>k < LENGTH('a)\<close> by (auto simp: bit_simps bit_le_bytes)
  next
    case False
    then show ?thesis by (auto simp: bit_simps bit_le_bytes)
  qed
qed


lemma push_le_bytes:
  assumes "LENGTH('a) = 8 * m"
  shows "push_bit (8 * n) (le_bytes xs :: 'a::len word) = push_bit (8 * n) (le_bytes (take (m - n) xs))"
proof (rule bit_word_eqI)
  fix k assume "k < LENGTH('a)"
  then have "(k - 8 * n) div 8 < m - n" if "8 * n \<le> k" using that assms by (simp add: div_less_iff_less_mult)
  then show "bit (push_bit (8 * n) (le_bytes xs :: 'a word)) k = bit (push_bit (8 * n) (le_bytes (take (m - n) xs) :: 'a word)) k"
    by (auto simp: bit_simps bit_le_bytes)
qed

text \<open>Two words joined at a byte boundary, as the aligned readers do.\<close>

lemma join_le_bytes:
  assumes "LENGTH('a) = 8 * m" "length qs = n"
  shows "(le_bytes qs OR push_bit (8 * n) (le_bytes ds) :: 'a::len word) = le_bytes (qs @ take (m - n) ds)"
  using push_le_bytes [OF assms(1), of n ds] assms(2) by (simp add: le_bytes_append)

lemma take_drop_Suc: "p + i < length data \<Longrightarrow> take (Suc i) (drop p data) = take i (drop p data) @ [data ! (p + i)]"
  by (simp add: take_Suc_conv_app_nth)

lemma le_bytes_snoc:
  "length xs = i \<Longrightarrow> (le_bytes (xs @ [b]) :: 'a::len word) = le_bytes xs OR push_bit (8 * i) (ucast b)"
  by (simp add: le_bytes_append)

lemma switch_or:
  "p + n \<le> length data \<Longrightarrow> switch_tail (OR) data p n h = Inr (h OR le_bytes (take n (drop p data)))"
proof (induction n arbitrary: h)
  case (Suc i)
  then show ?case by (simp add: take_drop_Suc le_bytes_snoc or.assoc or.commute or.left_commute)
qed simp

lemma switch_xor:
  "p + n \<le> length data \<Longrightarrow> switch_tail (XOR) data p n h = Inr (h XOR le_bytes (take n (drop p data)))"
proof (induction n arbitrary: h)
  case (Suc i)
  let ?x = "le_bytes (take i (drop p data)) :: 'a word" and ?y = "push_bit (8 * i) (ucast (data ! (p + i))) :: 'a word"
  have "?x AND ?y = 0" using le_bytes_disjoint [of "take i (drop p data)"] Suc.prems by simp
  then have "le_bytes (take (Suc i) (drop p data)) = ?x XOR ?y"
    using Suc.prems by (simp add: take_drop_Suc le_bytes_snoc disjunctive_xor_eq_or)
  then show ?case using Suc by (simp add: xor.assoc xor.commute xor.left_commute)
qed simp

lemma switch_add:
  "p + n \<le> length data \<Longrightarrow> switch_tail (+) data p n h = Inr (h + le_bytes (take n (drop p data)))"
proof (induction n arbitrary: h)
  case (Suc i)
  let ?x = "le_bytes (take i (drop p data)) :: 'a word" and ?y = "push_bit (8 * i) (ucast (data ! (p + i))) :: 'a word"
  have "?x AND ?y = 0" using le_bytes_disjoint [of "take i (drop p data)"] Suc.prems by simp
  then have "le_bytes (take (Suc i) (drop p data)) = ?x + ?y"
    using Suc.prems by (simp add: take_drop_Suc le_bytes_snoc disjunctive_add_eq_or)
  then show ?case using Suc by (simp add: add_ac)
qed simp

section \<open>Words stored in memory\<close>

text \<open>The bytes of a 64-bit variable, and storing bytes into an object.\<close>

definition u64_bytes :: "u64 \<Rightarrow> u8 list" where
  "u64_bytes key = map (\<lambda>i. ucast (drop_bit (8 * i) key)) [0..<8]"

definition storeR :: "u8 list \<Rightarrow> nat \<Rightarrow> u8 list \<Rightarrow> c_error + u8 list" where
  "storeR data p bs = (if p + length bs \<le> length data then Inr (take p data @ bs @ drop (p + length bs) data) else Inl UB)"

lemma u64_bytes_length [simp]: "length (u64_bytes k) = 8"
  by (simp add: u64_bytes_def)

lemma u64_bytes_nth: "i < 8 \<Longrightarrow> u64_bytes k ! i = ucast (drop_bit (8 * i) k)"
  by (simp add: u64_bytes_def)

lemma le_u64_bytes: "le_bytes (u64_bytes x) = (x :: u64)"
proof (rule bit_word_eqI)
  fix i assume "i < LENGTH(64)"
  then have "i div 8 < 8" "8 * (i div 8) + i mod 8 = i" by (simp_all add: div_less_iff_less_mult)
  then show "bit (le_bytes (u64_bytes x) :: u64) i = bit x i"
    using \<open>i < LENGTH(64)\<close> by (simp add: bit_le_bytes u64_bytes_nth bit_ucast_iff bit_drop_bit_eq)
qed

section \<open>Operations that return\<close>

definition returns :: "c_error + 'a \<Rightarrow> bool" where
  "returns r \<longleftrightarrow> (\<exists>x. r = Inr x)"

named_theorems returns_intros \<open>when an operation returns\<close>

lemma returns_Inr [returns_intros]: "returns (Inr x)"
  by (simp add: returns_def)

lemma returns_bindR [returns_intros]: "returns m \<Longrightarrow> (\<And>x. m = Inr x \<Longrightarrow> returns (f x)) \<Longrightarrow> returns (bindR m f)"
  by (auto simp: returns_def)

lemma returns_if [returns_intros]: "(b \<Longrightarrow> returns x) \<Longrightarrow> (\<not> b \<Longrightarrow> returns y) \<Longrightarrow> returns (if b then x else y)"
  by simp

lemma returns_let [returns_intros]: "(\<And>x. x = a \<Longrightarrow> returns (f x)) \<Longrightarrow> returns (let x = a in f x)"
  by simp

lemma returns_prod [returns_intros]: "(\<And>a b. p = (a, b) \<Longrightarrow> returns (f a b)) \<Longrightarrow> returns (case p of (a, b) \<Rightarrow> f a b)"
  by (cases p) simp

lemma returns_nthR [returns_intros]: "p < length data \<Longrightarrow> returns (nthR data p)"
  by (simp add: returns_def)

lemma returns_loadR [returns_intros]: "p + n \<le> length data \<Longrightarrow> returns (loadR n data p)"
  by (simp add: returns_def loadR_def)

lemma returns_switch_tail [returns_intros]: "p + n \<le> length data \<Longrightarrow> returns (switch_tail f data p n h)"
proof (induction n arbitrary: h)
  case (Suc i)
  then show ?case by (auto intro!: returns_intros)
qed (simp add: returns_intros)

end
