(* ===== verification/Murmur.thy ===== *)
theory Murmur
  imports ByteReads
begin

text \<open>
  The MurmurHash functions of \<open>mhash/util\<close> (\<open>MurmurHash1.cpp\<close> and \<open>MurmurHash2.cpp\<close>). A pointer is an offset into the bytes of an
  object, a load outside of it is undefined. The 32-bit versions come in variants that read words, bytes or aligned words, and
  in one that takes its input in pieces. The theory shows that the variants agree with each other and read nothing
  but the key, and that the 64-bit version for two 32-bit halves maps different 64-bit keys to different hashes.
\<close>

text \<open>
  The length \<open>len\<close> of a key is an \<open>int\<close>. A negative one passes neither a loop \<open>while (len >= 4)\<close> nor a case of \<open>switch (len)\<close>, just
  as 0, so the loops below count in \<open>nat len\<close>.
\<close>

section \<open>Loops over words\<close>

text \<open>\<open>while (len >= 4) { k = *(uint32_t *) data; h = step(h, k); data += 4; len -= 4; }\<close>\<close>

function words_loop :: "(u32 \<Rightarrow> u32 \<Rightarrow> u32) \<Rightarrow> u8 list \<Rightarrow> nat \<Rightarrow> nat \<Rightarrow> u32 \<Rightarrow> c_error + nat \<times> nat \<times> u32" where
  "words_loop step data p len h =
     (if 4 \<le> len then bindR (loadR 4 data p) (\<lambda>k. words_loop step data (p + 4) (len - 4) (step h k)) else Inr (p, len, h))"
  by pat_completeness auto
termination by (relation "measure (\<lambda>(step, data, p, len, h). len)") auto

text \<open>The loop of the aligned versions: each word is put together from two aligned ones, \<open>a\<close> bytes off.\<close>

function aligned_loop :: "(u32 \<Rightarrow> u32 \<Rightarrow> u32) \<Rightarrow> nat \<Rightarrow> u8 list \<Rightarrow> nat \<Rightarrow> nat \<Rightarrow> u32 \<Rightarrow> u32 \<Rightarrow> c_error + nat \<times> nat \<times> u32 \<times> u32" where
  "aligned_loop step a data p len t h =
     (if 4 \<le> len then
        bindR (loadR 4 data p) (\<lambda>d.
          aligned_loop step a data (p + 4) (len - 4) d (step h (drop_bit (8 * a) t OR push_bit (8 * (4 - a)) d)))
      else Inr (p, len, t, h))"
  by pat_completeness auto
termination by (relation "measure (\<lambda>(step, a, data, p, len, t, h). len)") auto

declare words_loop.simps [simp del] aligned_loop.simps [simp del]

section \<open>MurmurHash1\<close>

definition murmur1_m :: u32 where "murmur1_m = 0xc6a4a793"

definition murmur1_mix :: "u32 \<Rightarrow> u32 \<Rightarrow> u32" where
  "murmur1_mix h k = (let h1 = (h + k) * murmur1_m in h1 XOR drop_bit 16 h1)"

definition murmur1_tail :: "u8 list \<Rightarrow> nat \<Rightarrow> nat \<Rightarrow> u32 \<Rightarrow> c_error + u32" where
  "murmur1_tail data p len h =
     (if len = 0 then Inr h
      else bindR (switch_tail (+) data p len h) (\<lambda>h1. let h2 = h1 * murmur1_m in Inr (h2 XOR drop_bit 16 h2)))"

definition murmur1_final :: "u32 \<Rightarrow> u32" where
  "murmur1_final h =
     (let h1 = h * murmur1_m; h2 = h1 XOR drop_bit 10 h1; h3 = h2 * murmur1_m in h3 XOR drop_bit 17 h3)"

definition MurmurHash1 :: "u8 list \<Rightarrow> int \<Rightarrow> u32 \<Rightarrow> c_error + u32" where
  "MurmurHash1 data len seed =
     bindR (words_loop murmur1_mix data 0 (nat len) (seed XOR (of_int len * murmur1_m))) (\<lambda>(p, l, h).
     bindR (murmur1_tail data p l h) (\<lambda>h1. Inr (murmur1_final h1)))"

text \<open>The bytes before the first aligned word: \<open>4 - align\<close> of them, shifted to the top of the register.\<close>

definition preload :: "u8 list \<Rightarrow> nat \<Rightarrow> c_error + u32" where
  "preload data align = bindR (switch_tail (OR) data 0 (4 - align) 0) (\<lambda>t. Inr (push_bit (8 * align) t))"

definition murmur1_leftover :: "nat \<Rightarrow> u8 list \<Rightarrow> nat \<Rightarrow> nat \<Rightarrow> u32 \<Rightarrow> u32 \<Rightarrow> c_error + nat \<times> nat \<times> u32" where
  "murmur1_leftover align data p len t h =
     (let pack = min len align in
      bindR (switch_tail (OR) data p pack 0) (\<lambda>d.
        Inr (p + pack, len - pack, murmur1_mix h (drop_bit (8 * align) t OR push_bit (8 * (4 - align)) d))))"

definition MurmurHash1Aligned :: "u64 \<Rightarrow> u8 list \<Rightarrow> int \<Rightarrow> u32 \<Rightarrow> c_error + u32" where
  "MurmurHash1Aligned addr data len seed =
     (let h = seed XOR (of_int len * murmur1_m); align = unat (addr AND 3) in
      bindR
        (if align \<noteq> 0 \<and> 4 \<le> len then
           bindR (preload data align) (\<lambda>t.
           bindR (aligned_loop murmur1_mix align data (4 - align) (nat len - (4 - align)) t h) (\<lambda>(p, l, t1, h1).
             murmur1_leftover align data p l t1 h1))
         else words_loop murmur1_mix data 0 (nat len) h) (\<lambda>(p, l, h2).
      bindR (murmur1_tail data p l h2) (\<lambda>h3. Inr (murmur1_final h3))))"

section \<open>MurmurHash2\<close>

definition murmur2_m :: u32 where "murmur2_m = 0x5bd1e995"

text \<open>The macros \<open>mmix\<close> and \<open>MIX\<close>, and the same lines without a macro; \<open>mmix_k\<close> is what they leave in their second argument.\<close>

definition mmix_k :: "u32 \<Rightarrow> u32" where
  "mmix_k k = (let k1 = k * murmur2_m; k2 = k1 XOR drop_bit 24 k1 in k2 * murmur2_m)"

definition mmix :: "u32 \<Rightarrow> u32 \<Rightarrow> u32" where
  "mmix h k = (h * murmur2_m) XOR mmix_k k"

definition murmur2_tail :: "u8 list \<Rightarrow> nat \<Rightarrow> nat \<Rightarrow> u32 \<Rightarrow> c_error + u32" where
  "murmur2_tail data p len h =
     (if len = 0 then Inr h else bindR (switch_tail (XOR) data p len h) (\<lambda>h1. Inr (h1 * murmur2_m)))"

definition murmur2_final :: "u32 \<Rightarrow> u32" where
  "murmur2_final h = (let h1 = h XOR drop_bit 13 h; h2 = h1 * murmur2_m in h2 XOR drop_bit 15 h2)"

definition MurmurHash2 :: "u8 list \<Rightarrow> int \<Rightarrow> u32 \<Rightarrow> c_error + u32" where
  "MurmurHash2 data len seed =
     bindR (words_loop mmix data 0 (nat len) (seed XOR of_int len)) (\<lambda>(p, l, h).
     bindR (murmur2_tail data p l h) (\<lambda>h1. Inr (murmur2_final h1)))"

text \<open>\<open>MurmurHashNeutral2\<close> puts each word together from its bytes.\<close>

function neutral_loop :: "u8 list \<Rightarrow> nat \<Rightarrow> nat \<Rightarrow> u32 \<Rightarrow> c_error + nat \<times> nat \<times> u32" where
  "neutral_loop data p len h =
     (if 4 \<le> len then
        bindR (nthR data p) (\<lambda>b0.
        bindR (nthR data (p + 1)) (\<lambda>b1.
        bindR (nthR data (p + 2)) (\<lambda>b2.
        bindR (nthR data (p + 3)) (\<lambda>b3.
          let k = ucast b0 OR push_bit 8 (ucast b1) OR push_bit 16 (ucast b2) OR push_bit 24 (ucast b3) in
          neutral_loop data (p + 4) (len - 4) (mmix h k)))))
      else Inr (p, len, h))"
  by pat_completeness auto
termination by (relation "measure (\<lambda>(data, p, len, h). len)") auto

declare neutral_loop.simps [simp del]

definition MurmurHashNeutral2 :: "u8 list \<Rightarrow> int \<Rightarrow> u32 \<Rightarrow> c_error + u32" where
  "MurmurHashNeutral2 data len seed =
     bindR (neutral_loop data 0 (nat len) (seed XOR of_int len)) (\<lambda>(p, l, h).
     bindR (murmur2_tail data p l h) (\<lambda>h1. Inr (murmur2_final h1)))"

definition murmur2_leftover :: "nat \<Rightarrow> u8 list \<Rightarrow> nat \<Rightarrow> nat \<Rightarrow> u32 \<Rightarrow> u32 \<Rightarrow> c_error + u32" where
  "murmur2_leftover align data p len t h =
     (if align \<le> len then
        bindR (switch_tail (OR) data p align 0) (\<lambda>d.
          murmur2_tail data (p + align) (len - align) (mmix h (drop_bit (8 * align) t OR push_bit (8 * (4 - align)) d)))
      else
        bindR (switch_tail (OR) data p len 0) (\<lambda>d.
          Inr ((h XOR (drop_bit (8 * align) t OR push_bit (8 * (4 - align)) d)) * murmur2_m)))"

definition MurmurHashAligned2 :: "u64 \<Rightarrow> u8 list \<Rightarrow> int \<Rightarrow> u32 \<Rightarrow> c_error + u32" where
  "MurmurHashAligned2 addr data len seed =
     (let h = seed XOR of_int len; align = unat (addr AND 3) in
      if align \<noteq> 0 \<and> 4 \<le> len then
        bindR (preload data align) (\<lambda>t.
        bindR (aligned_loop mmix align data (4 - align) (nat len - (4 - align)) t h) (\<lambda>(p, l, t1, h1).
        bindR (murmur2_leftover align data p l t1 h1) (\<lambda>h2. Inr (murmur2_final h2))))
      else
        bindR (words_loop mmix data 0 (nat len) h) (\<lambda>(p, l, h1).
        bindR (murmur2_tail data p l h1) (\<lambda>h2. Inr (murmur2_final h2))))"

section \<open>MurmurHash2A, at once and in pieces\<close>

definition MurmurHash2A :: "u8 list \<Rightarrow> int \<Rightarrow> u32 \<Rightarrow> c_error + u32" where
  "MurmurHash2A data len seed =
     bindR (words_loop mmix data 0 (nat len) seed) (\<lambda>(p, l, h).
     bindR (switch_tail (XOR) data p l 0) (\<lambda>t. Inr (murmur2_final (mmix (mmix h t) (of_int len)))))"

record CMurmurHash2A =
  m_hash :: u32
  m_tail :: u32
  m_count :: u32
  m_size :: u32

definition Murmur_Begin :: "u32 \<Rightarrow> CMurmurHash2A" where
  "Murmur_Begin seed = \<lparr>m_hash = seed, m_tail = 0, m_count = 0, m_size = 0\<rparr>"

text \<open>\<open>MixTail\<close> moves \<open>data\<close> and \<open>len\<close> of its caller; a shift by 32 or more would be undefined.\<close>

function MixTail :: "u8 list \<Rightarrow> nat \<Rightarrow> nat \<Rightarrow> CMurmurHash2A \<Rightarrow> c_error + nat \<times> nat \<times> CMurmurHash2A" where
  "MixTail data p len s =
     (if len \<noteq> 0 \<and> (len < 4 \<or> m_count s \<noteq> 0) then
        bindR (nthR data p) (\<lambda>b.
          if m_count s * 8 \<ge> 32 then Inl UB
          else
            let s1 = s\<lparr>m_tail := m_tail s OR push_bit (unat (m_count s * 8)) (ucast b), m_count := m_count s + 1\<rparr>;
                s2 = (if m_count s1 = 4 then s1\<lparr>m_hash := mmix (m_hash s1) (m_tail s1), m_tail := 0, m_count := 0\<rparr> else s1) in
            MixTail data (p + 1) (len - 1) s2)
      else Inr (p, len, s))"
  by pat_completeness auto
termination by (relation "measure (\<lambda>(data, p, len, s). len)") auto

declare MixTail.simps [simp del]

text \<open>
  With a negative length the loop of the first \<open>MixTail\<close> counts down, away from 0, while it reads on: it leaves the object or counts
  below the least \<open>int\<close>, both of which are undefined.
\<close>

definition Murmur_Add :: "u8 list \<Rightarrow> int \<Rightarrow> CMurmurHash2A \<Rightarrow> c_error + CMurmurHash2A" where
  "Murmur_Add data len s =
     (if len < 0 then Inl UB
      else
        bindR (MixTail data 0 (nat len) (s\<lparr>m_size := m_size s + of_int len\<rparr>)) (\<lambda>(p, l, s1).
        bindR (words_loop mmix data p l (m_hash s1)) (\<lambda>(p2, l2, h).
        bindR (MixTail data p2 l2 (s1\<lparr>m_hash := h\<rparr>)) (\<lambda>(_, _, s2). Inr s2))))"

definition Murmur_End :: "CMurmurHash2A \<Rightarrow> u32 \<times> CMurmurHash2A" where
  "Murmur_End s =
     (let h = murmur2_final (mmix (mmix (m_hash s) (m_tail s)) (m_size s)) in
      (h, s\<lparr>m_hash := h, m_tail := mmix_k (m_tail s), m_size := mmix_k (m_size s)\<rparr>))"

section \<open>The 64-bit versions\<close>

definition murmur64_m :: u64 where "murmur64_m = 0xc6a4a7935bd1e995"

function words8_loop :: "u8 list \<Rightarrow> nat \<Rightarrow> nat \<Rightarrow> u64 \<Rightarrow> c_error + nat \<times> u64" where
  "words8_loop data p end h =
     (if p < end then
        bindR (loadR 8 data p) (\<lambda>k.
          let k1 = k * murmur64_m; k2 = k1 XOR drop_bit 47 k1; k3 = k2 * murmur64_m in
          words8_loop data (p + 8) end ((h XOR k3) * murmur64_m))
      else Inr (p, h))"
  by pat_completeness auto
termination by (relation "measure (\<lambda>(data, p, end, h). end - p)") auto

declare words8_loop.simps [simp del]

definition MurmurHash64A :: "u8 list \<Rightarrow> int \<Rightarrow> u64 \<Rightarrow> c_error + u64" where
  "MurmurHash64A data len seed =
     (let n = nat (len AND 7) in
      bindR (ptrR data (8 * (len sdiv 8))) (\<lambda>end.
      bindR (words8_loop data 0 end (seed XOR (of_int len * murmur64_m))) (\<lambda>(p, h).
      bindR (if n = 0 then Inr h else bindR (switch_tail (XOR) data p n h) (\<lambda>h1. Inr (h1 * murmur64_m))) (\<lambda>h1.
        let h2 = h1 XOR drop_bit 47 h1; h3 = h2 * murmur64_m in Inr (h3 XOR drop_bit 47 h3)))))"

function pairs_loop :: "u8 list \<Rightarrow> nat \<Rightarrow> nat \<Rightarrow> u32 \<Rightarrow> u32 \<Rightarrow> c_error + nat \<times> nat \<times> u32 \<times> u32" where
  "pairs_loop data p len h1 h2 =
     (if 8 \<le> len then
        bindR (loadR 4 data p) (\<lambda>k1.
        bindR (loadR 4 data (p + 4)) (\<lambda>k2. pairs_loop data (p + 8) (len - 8) (mmix h1 k1) (mmix h2 k2)))
      else Inr (p, len, h1, h2))"
  by pat_completeness auto
termination by (relation "measure (\<lambda>(data, p, len, h1, h2). len)") auto

declare pairs_loop.simps [simp del]

definition murmur64B_final :: "u32 \<Rightarrow> u32 \<Rightarrow> u64" where
  "murmur64B_final a b =
     (let h1 = (a XOR drop_bit 18 b) * murmur2_m;
          h2 = (b XOR drop_bit 22 h1) * murmur2_m;
          h3 = (h1 XOR drop_bit 17 h2) * murmur2_m;
          h4 = (h2 XOR drop_bit 19 h3) * murmur2_m in
      push_bit 32 (ucast h3) OR ucast h4)"

definition MurmurHash64B :: "u8 list \<Rightarrow> int \<Rightarrow> u64 \<Rightarrow> c_error + u64" where
  "MurmurHash64B data len seed =
     bindR (pairs_loop data 0 (nat len) (ucast seed XOR of_int len) (ucast (drop_bit 32 seed))) (\<lambda>(p, l, h1, h2).
     bindR (if 4 \<le> l then bindR (loadR 4 data p) (\<lambda>k1. Inr (p + 4, l - 4, mmix h1 k1)) else Inr (p, l, h1)) (\<lambda>(p2, l2, h3).
     bindR (murmur2_tail data p2 l2 h2) (\<lambda>h4. Inr (murmur64B_final h3 h4))))"

section \<open>The words of a byte sequence\<close>

function words_fold :: "(u32 \<Rightarrow> u32 \<Rightarrow> u32) \<Rightarrow> u32 \<Rightarrow> u8 list \<Rightarrow> u32 \<times> u8 list" where
  "words_fold step h bs = (if 4 \<le> length bs then words_fold step (step h (le_bytes (take 4 bs))) (drop 4 bs) else (h, bs))"
  by pat_completeness auto
termination by (relation "measure (\<lambda>(step, h, bs). length bs)") auto

declare words_fold.simps [simp del]

lemma words_fold_short: "length bs < 4 \<Longrightarrow> words_fold step h bs = (h, bs)"
  by (simp add: words_fold.simps)

lemma words_fold_step: "length w = 4 \<Longrightarrow> words_fold step h (w @ bs) = words_fold step (step h (le_bytes w)) bs"
  by (subst words_fold.simps) simp

text \<open>The bytes between two offsets.\<close>

definition seg :: "u8 list \<Rightarrow> nat \<Rightarrow> nat \<Rightarrow> u8 list" where
  "seg data p n = take n (drop p data)"

lemma seg_length [simp]: "p + n \<le> length data \<Longrightarrow> length (seg data p n) = n"
  by (simp add: seg_def)

lemma seg_split: "m \<le> n \<Longrightarrow> p + n \<le> length data \<Longrightarrow> seg data p n = seg data p m @ seg data (p + m) (n - m)"
  unfolding seg_def by (metis add.commute drop_drop le_add_diff_inverse take_add)

lemma seg_load: "p + n \<le> length data \<Longrightarrow> loadR n data p = Inr (le_bytes (seg data p n))"
  by (simp add: loadR_def seg_def)

lemma seg_all: "seg data 0 len = take len data"
  by (simp add: seg_def)

lemma words_loop_fold:
  assumes "p + len \<le> length data"
  shows "\<exists>p' l h'. words_loop step data p len h = Inr (p', l, h') \<and> l < 4 \<and> p' + l = p + len \<and>
    words_fold step h (seg data p len) = (h', seg data p' l)"
  using assms
proof (induction step data p len h rule: words_loop.induct)
  case (1 step data p len h)
  show ?case
  proof (cases "4 \<le> len")
    case True
    have "words_fold step h (seg data p len) = words_fold step (step h (le_bytes (seg data p 4))) (seg data (p + 4) (len - 4))"
      using seg_split [OF True "1.prems"] "1.prems" True by (simp add: words_fold_step)
    moreover have "p + 4 + (len - 4) = p + len" "loadR 4 data p = Inr (le_bytes (seg data p 4) :: u32)"
      using True "1.prems" by (simp_all add: seg_load)
    ultimately show ?thesis using "1.IH" [OF True, of "le_bytes (seg data p 4)"] True "1.prems"
      by (subst words_loop.simps) simp
  next
    case False
    then show ?thesis using "1.prems" by (subst words_loop.simps) (simp add: words_fold_short)
  qed
qed

lemma neutral_loop_words: "p + len \<le> length data \<Longrightarrow> neutral_loop data p len h = words_loop mmix data p len h"
proof (induction data p len h rule: neutral_loop.induct)
  case (1 data p len h)
  show ?case
  proof (cases "4 \<le> len")
    case True
    then have "drop p data = data ! p # data ! (p + 1) # data ! (p + 2) # data ! (p + 3) # drop (p + 4) data"
      using "1.prems" by (simp add: Cons_nth_drop_Suc numeral_eq_Suc)
    then have "loadR 4 data p = Inr (ucast (data ! p) OR push_bit 8 (ucast (data ! (p + 1))) OR
        push_bit 16 (ucast (data ! (p + 2))) OR push_bit 24 (ucast (data ! (p + 3))) :: u32)"
      using "1.prems" True by (simp add: loadR_def push_bit_or push_bit_push_bit or.assoc)
    then show ?thesis using True 1 by (subst neutral_loop.simps, subst words_loop.simps) (simp add: Let_def)
  next
    case False
    then show ?thesis by (subst neutral_loop.simps, subst words_loop.simps) simp
  qed
qed

section \<open>The aligned variants\<close>

text \<open>The bytes that a register holds above the lowest \<open>a\<close>.\<close>

definition holds :: "nat \<Rightarrow> u32 \<Rightarrow> u8 list \<Rightarrow> bool" where
  "holds a t qs \<longleftrightarrow> length qs = 4 - a \<and> drop_bit (8 * a) t = le_bytes qs"

lemma holds_join:
  assumes "holds a t qs" "a \<le> 4"
  shows "drop_bit (8 * a) t OR push_bit (8 * (4 - a)) (le_bytes ds) = (le_bytes (qs @ take a ds) :: u32)"
  using assms join_le_bytes [where 'a = 32 and m = 4 and n = "4 - a" and qs = qs and ds = ds] by (simp add: holds_def)

lemma holds_word: "length ds = 4 \<Longrightarrow> holds a (le_bytes ds) (drop a ds)"
  by (simp add: holds_def le_bytes_drop)

lemma preload_holds:
  assumes "4 - a \<le> length data" "a \<le> 4"
  shows "\<exists>t. preload data a = Inr t \<and> holds a t (seg data 0 (4 - a))"
proof -
  let ?x = "le_bytes (seg data 0 (4 - a)) :: u32"
  have "drop_bit (8 * a) (push_bit (8 * a) ?x) = ?x"
  proof (rule bit_word_eqI)
    fix k assume k: "k < LENGTH(32)"
    have "8 * a + k < 32" if "bit ?x k"
      using that assms by (auto simp: bit_le_bytes div_less_iff_less_mult)
    then show "bit (drop_bit (8 * a) (push_bit (8 * a) ?x)) k = bit ?x k" by (auto simp: bit_simps)
  qed
  then show ?thesis using assms by (simp add: preload_def switch_or holds_def seg_def)
qed

lemma aligned_loop_fold:
  assumes "p + len \<le> length data" "holds a t qs" "a \<le> 4"
  shows "\<exists>p' l t' h' qs'. aligned_loop step a data p len t h = Inr (p', l, t', h') \<and> l < 4 \<and> p' + l = p + len \<and> holds a t' qs' \<and>
    words_fold step h (qs @ seg data p len) = words_fold step h' (qs' @ seg data p' l)"
  using assms
proof (induction step a data p len t h arbitrary: qs rule: aligned_loop.induct)
  case (1 step a data p len t h)
  show ?case
  proof (cases "4 \<le> len")
    case True
    let ?ds = "seg data p 4"
    let ?d = "le_bytes ?ds :: u32" and ?k = "le_bytes (qs @ take a ?ds) :: u32"
    have ds: "length ?ds = 4" using True "1.prems" by simp
    have "qs @ seg data p len = (qs @ take a ?ds) @ drop a ?ds @ seg data (p + 4) (len - 4)"
      using seg_split [OF True "1.prems"(1)] append_take_drop_id [of a ?ds] by (metis append_assoc)
    moreover have "length (qs @ take a ?ds) = 4" using "1.prems"(2) ds "1.prems"(3) by (simp add: holds_def)
    ultimately have "words_fold step h (qs @ seg data p len) = words_fold step (step h ?k) (drop a ?ds @ seg data (p + 4) (len - 4))"
      by (simp only: words_fold_step)
    moreover have "drop_bit (8 * a) t OR push_bit (8 * (4 - a)) ?d = ?k" by (rule holds_join [OF "1.prems"(2,3)])
    moreover have "p + 4 + (len - 4) = p + len" "loadR 4 data p = Inr ?d" using True "1.prems" by (simp_all add: seg_load)
    ultimately show ?thesis using "1.IH" [OF True, of ?d "drop a ?ds"] holds_word [OF ds, of a] True "1.prems"
      by (subst aligned_loop.simps) simp
  next
    case False
    then show ?thesis using "1.prems" by (subst aligned_loop.simps) auto
  qed
qed

lemma align_bound: "unat (addr AND 3 :: u64) \<le> 3"
proof -
  have "addr AND 3 \<le> 3" by (rule word_and_le1)
  then show ?thesis by (simp add: word_le_nat_alt)
qed

text \<open>What the 32-bit versions compute of a byte sequence and the length they were given.\<close>

definition murmur1_of :: "int \<Rightarrow> u8 list \<Rightarrow> u32 \<Rightarrow> u32" where
  "murmur1_of len bs seed =
     (case words_fold murmur1_mix (seed XOR (of_int len * murmur1_m)) bs of (h, r) \<Rightarrow>
       murmur1_final (if r = [] then h else murmur1_mix h (le_bytes r)))"

definition murmur2_of :: "int \<Rightarrow> u8 list \<Rightarrow> u32 \<Rightarrow> u32" where
  "murmur2_of len bs seed =
     (case words_fold mmix (seed XOR of_int len) bs of (h, r) \<Rightarrow>
       murmur2_final (if r = [] then h else (h XOR le_bytes r) * murmur2_m))"

lemma murmur1_tail_seg:
  "p + l \<le> length data \<Longrightarrow> murmur1_tail data p l h = Inr (if seg data p l = [] then h else murmur1_mix h (le_bytes (seg data p l)))"
  by (auto simp: murmur1_tail_def murmur1_mix_def switch_add seg_def Let_def)

lemma murmur2_tail_seg:
  "p + l \<le> length data \<Longrightarrow> murmur2_tail data p l h = Inr (if seg data p l = [] then h else (h XOR le_bytes (seg data p l)) * murmur2_m)"
  by (auto simp: murmur2_tail_def switch_xor seg_def)

lemma MurmurHash1_of: "nat len \<le> length data \<Longrightarrow> MurmurHash1 data len seed = Inr (murmur1_of len (take (nat len) data) seed)"
  using words_loop_fold [of 0 "nat len" data murmur1_mix "seed XOR (of_int len * murmur1_m)"]
  by (auto simp: MurmurHash1_def murmur1_of_def murmur1_tail_seg seg_all)

lemma MurmurHash2_of: "nat len \<le> length data \<Longrightarrow> MurmurHash2 data len seed = Inr (murmur2_of len (take (nat len) data) seed)"
  using words_loop_fold [of 0 "nat len" data mmix "seed XOR of_int len"]
  by (auto simp: MurmurHash2_def murmur2_of_def murmur2_tail_seg seg_all)

lemma MurmurHashNeutral2_of: "nat len \<le> length data \<Longrightarrow> MurmurHashNeutral2 data len seed = MurmurHash2 data len seed"
  by (simp add: MurmurHashNeutral2_def MurmurHash2_def neutral_loop_words)

text \<open>The aligned path up to the leftover bytes.\<close>

lemma aligned_path:
  assumes len: "len \<le> length data" "4 \<le> len" and a: "0 < a" "a \<le> 3"
  shows "\<exists>t p l t' h' qs. preload data a = Inr t \<and> aligned_loop step a data (4 - a) (len - (4 - a)) t h = Inr (p, l, t', h') \<and>
    l < 4 \<and> p + l = len \<and> holds a t' qs \<and> words_fold step h (take len data) = words_fold step h' (qs @ seg data p l)"
proof -
  have "4 - a \<le> length data" "a \<le> 4" using assms by simp_all
  then obtain t where t: "preload data a = Inr t" "holds a t (seg data 0 (4 - a))" using preload_holds [of a data] by blast
  have split: "take len data = seg data 0 (4 - a) @ seg data (4 - a) (len - (4 - a))"
    using seg_split [of "4 - a" len 0 data] len a by (simp add: seg_all)
  have "4 - a + (len - (4 - a)) = len" using len a by simp
  then show ?thesis using aligned_loop_fold [of "4 - a" "len - (4 - a)" data a t, OF _ t(2)] t(1) len a unfolding split by fastforce
qed

text \<open>The bytes at the end: those in the register and those behind it make at most one more word.\<close>

lemma leftover_word:
  assumes "holds a t qs" "a \<le> 3" "a \<le> l" "l < 4" "p + l \<le> length data"
  shows "words_fold step h (qs @ seg data p l) =
    (step h (drop_bit (8 * a) t OR push_bit (8 * (4 - a)) (le_bytes (seg data p a))), seg data (p + a) (l - a))"
proof -
  have "qs @ seg data p l = (qs @ take a (seg data p a)) @ seg data (p + a) (l - a)"
    using seg_split [of a l p data] assms by simp
  moreover have "length (qs @ take a (seg data p a)) = 4" using assms by (simp add: holds_def)
  ultimately have "words_fold step h (qs @ seg data p l) = words_fold step (step h (le_bytes (qs @ take a (seg data p a)))) (seg data (p + a) (l - a))"
    by (simp only: words_fold_step)
  then show ?thesis using holds_join [of a t qs "seg data p a"] assms by (simp add: words_fold_short)
qed

lemma leftover_short:
  assumes "holds a t qs" "a \<le> 3" "l < a" "p + l \<le> length data"
  shows "words_fold step h (qs @ seg data p l) = (h, qs @ seg data p l)" "qs @ seg data p l \<noteq> []"
    "drop_bit (8 * a) t OR push_bit (8 * (4 - a)) (le_bytes (seg data p l)) = (le_bytes (qs @ seg data p l) :: u32)"
  using assms holds_join [of a t qs "seg data p l"] by (auto simp: holds_def intro!: words_fold_short)

lemma MurmurHash1Aligned_of:
  assumes len: "nat len \<le> length data"
  shows "MurmurHash1Aligned addr data len seed = Inr (murmur1_of len (take (nat len) data) seed)"
proof (cases "unat (addr AND 3) \<noteq> 0 \<and> 4 \<le> len")
  case True
  let ?a = "unat (addr AND 3)" and ?h = "seed XOR (of_int len * murmur1_m)"
  have a: "0 < ?a" "?a \<le> 3" using True align_bound [of addr] by simp_all
  have l4: "4 \<le> nat len" using True by linarith
  obtain t p l t' h' qs where x: "preload data ?a = Inr t" "aligned_loop murmur1_mix ?a data (4 - ?a) (nat len - (4 - ?a)) t ?h = Inr (p, l, t', h')"
    "l < 4" "p + l = nat len" "holds ?a t' qs" "words_fold murmur1_mix ?h (take (nat len) data) = words_fold murmur1_mix h' (qs @ seg data p l)"
    using aligned_path [OF len l4 a, of murmur1_mix ?h] by blast
  have pl: "p + l \<le> length data" using x(4) len by simp
  show ?thesis
  proof (cases "?a \<le> l")
    case c: True
    have "murmur1_leftover ?a data p l t' h' =
        Inr (p + ?a, l - ?a, murmur1_mix h' (drop_bit (8 * ?a) t' OR push_bit (8 * (4 - ?a)) (le_bytes (seg data p ?a))))"
      using c pl by (simp add: murmur1_leftover_def min_absorb2 switch_or seg_def Let_def)
    then show ?thesis using True x leftover_word [OF x(5) a(2) c x(3) pl] c pl len
      by (simp add: MurmurHash1Aligned_def murmur1_of_def murmur1_tail_seg Let_def)
  next
    case c: False
    note sh = leftover_short [OF x(5) a(2) _ pl]
    have "murmur1_leftover ?a data p l t' h' = Inr (p + l, 0, murmur1_mix h' (le_bytes (qs @ seg data p l)))"
      using c pl sh(3) by (simp add: murmur1_leftover_def min_absorb1 switch_or seg_def Let_def)
    then show ?thesis using True x sh(1,2) c pl len
      by (auto simp: MurmurHash1Aligned_def murmur1_of_def murmur1_tail_def Let_def)
  qed
next
  case False
  have "MurmurHash1Aligned addr data len seed = MurmurHash1 data len seed"
    using False unfolding MurmurHash1Aligned_def MurmurHash1_def Let_def by (simp only: if_False)
  then show ?thesis using MurmurHash1_of [OF len] by simp
qed

lemma MurmurHashAligned2_of:
  assumes len: "nat len \<le> length data"
  shows "MurmurHashAligned2 addr data len seed = Inr (murmur2_of len (take (nat len) data) seed)"
proof (cases "unat (addr AND 3) \<noteq> 0 \<and> 4 \<le> len")
  case True
  let ?a = "unat (addr AND 3)" and ?h = "seed XOR of_int len"
  have a: "0 < ?a" "?a \<le> 3" using True align_bound [of addr] by simp_all
  have l4: "4 \<le> nat len" using True by linarith
  obtain t p l t' h' qs where x: "preload data ?a = Inr t" "aligned_loop mmix ?a data (4 - ?a) (nat len - (4 - ?a)) t ?h = Inr (p, l, t', h')"
    "l < 4" "p + l = nat len" "holds ?a t' qs" "words_fold mmix ?h (take (nat len) data) = words_fold mmix h' (qs @ seg data p l)"
    using aligned_path [OF len l4 a, of mmix ?h] by blast
  have pl: "p + l \<le> length data" using x(4) len by simp
  show ?thesis
  proof (cases "?a \<le> l")
    case c: True
    have "murmur2_leftover ?a data p l t' h' =
        murmur2_tail data (p + ?a) (l - ?a) (mmix h' (drop_bit (8 * ?a) t' OR push_bit (8 * (4 - ?a)) (le_bytes (seg data p ?a))))"
      using c pl by (simp add: murmur2_leftover_def switch_or seg_def)
    then show ?thesis using True x leftover_word [OF x(5) a(2) c x(3) pl] c pl len
      by (simp add: MurmurHashAligned2_def murmur2_of_def murmur2_tail_seg Let_def)
  next
    case c: False
    note sh = leftover_short [OF x(5) a(2) _ pl]
    have "murmur2_leftover ?a data p l t' h' = Inr ((h' XOR le_bytes (qs @ seg data p l)) * murmur2_m)"
      using c pl sh(3) by (simp add: murmur2_leftover_def switch_or seg_def)
    then show ?thesis using True x sh(1,2) c pl len by (auto simp: MurmurHashAligned2_def murmur2_of_def Let_def)
  qed
next
  case False
  have "MurmurHashAligned2 addr data len seed = MurmurHash2 data len seed"
    using False unfolding MurmurHashAligned2_def MurmurHash2_def Let_def by (simp only: if_False)
  then show ?thesis using MurmurHash2_of [OF len] by simp
qed

section \<open>The incremental version\<close>

lemma words_fold_append: "words_fold step h (xs @ ys) = (case words_fold step h xs of (h', r) \<Rightarrow> words_fold step h' (r @ ys))"
proof (induction step h xs rule: words_fold.induct)
  case (1 step h bs)
  show ?case
  proof (cases "4 \<le> length bs")
    case True
    then show ?thesis using 1 by (subst (1 2) words_fold.simps) simp
  next
    case False
    then show ?thesis by (simp add: words_fold_short)
  qed
qed

lemma words_fold_rest: "words_fold step h bs = (h', r) \<Longrightarrow> length r < 4 \<and> (\<exists>ws. bs = ws @ r \<and> words_fold step h ws = (h', []))"
proof (induction step h bs rule: words_fold.induct)
  case (1 step h bs)
  show ?case
  proof (cases "4 \<le> length bs")
    case True
    then have "words_fold step (step h (le_bytes (take 4 bs))) (drop 4 bs) = (h', r)"
      using "1.prems" by (subst (asm) words_fold.simps) simp
    then obtain ws where ws: "length r < 4" "drop 4 bs = ws @ r" "words_fold step (step h (le_bytes (take 4 bs))) ws = (h', [])"
      using "1.IH" [OF True] by blast
    have "bs = (take 4 bs @ ws) @ r" using ws(2) append_take_drop_id [of 4 bs] by simp
    moreover have "words_fold step h (take 4 bs @ ws) = (h', [])" using True ws(3) by (simp add: words_fold_step)
    ultimately show ?thesis using ws(1) by blast
  next
    case False
    then show ?thesis using "1.prems" by (auto simp: words_fold_short)
  qed
qed

text \<open>The state of the hasher after the bytes \<open>xs\<close>: the words mixed in and the bytes left over. The size is counted ahead.\<close>

definition hasher_of :: "u32 \<Rightarrow> u8 list \<Rightarrow> CMurmurHash2A \<Rightarrow> bool" where
  "hasher_of seed xs s \<longleftrightarrow>
     (case words_fold mmix seed xs of (h, r) \<Rightarrow> m_hash s = h \<and> m_tail s = le_bytes r \<and> m_count s = of_nat (length r))"

lemma hasher_byte:
  assumes "hasher_of seed xs s"
  shows "\<not> m_count s * 8 \<ge> 32"
    and "hasher_of seed (xs @ [b]) (let s1 = s\<lparr>m_tail := m_tail s OR push_bit (unat (m_count s * 8)) (ucast b), m_count := m_count s + 1\<rparr> in
      if m_count s1 = 4 then s1\<lparr>m_hash := mmix (m_hash s1) (m_tail s1), m_tail := 0, m_count := 0\<rparr> else s1)"
proof -
  obtain h r where hr: "words_fold mmix seed xs = (h, r)" by fastforce
  then have s: "m_hash s = h" "m_tail s = le_bytes r" "m_count s = of_nat (length r)" using assms by (simp_all add: hasher_of_def)
  have "length r < 4" using words_fold_rest [OF hr] by blast
  then have r: "length r = 0 \<or> length r = 1 \<or> length r = 2 \<or> length r = 3" by linarith
  then show "\<not> m_count s * 8 \<ge> 32" using s(3) by auto
  have sh: "unat (m_count s * 8) = 8 * length r" using r s(3) by auto
  have tl: "m_tail s OR push_bit (unat (m_count s * 8)) (ucast b) = le_bytes (r @ [b])" by (simp add: sh s(2) le_bytes_append)
  have fold: "words_fold mmix seed (xs @ [b]) = words_fold mmix h (r @ [b])" using words_fold_append [of mmix seed xs "[b]"] hr by simp
  show "hasher_of seed (xs @ [b]) (let s1 = s\<lparr>m_tail := m_tail s OR push_bit (unat (m_count s * 8)) (ucast b), m_count := m_count s + 1\<rparr> in
      if m_count s1 = 4 then s1\<lparr>m_hash := mmix (m_hash s1) (m_tail s1), m_tail := 0, m_count := 0\<rparr> else s1)"
  proof (cases "length r = 3")
    case True
    then have "words_fold mmix h (r @ [b]) = (mmix h (le_bytes (r @ [b])), [])"
      using words_fold_step [of "r @ [b]" mmix h "[]"] by (simp add: words_fold_short)
    then show ?thesis using True s tl fold by (simp add: hasher_of_def)
  next
    case False
    then have "words_fold mmix h (r @ [b]) = (h, r @ [b])" "m_count s + 1 \<noteq> 4" using r s(3) by (auto simp: words_fold_short)
    then show ?thesis using s tl fold by (simp add: hasher_of_def add.commute)
  qed
qed

lemma MixTail_hasher:
  assumes "p + len \<le> length data" "hasher_of seed xs s"
  shows "\<exists>p' l s'. MixTail data p len s = Inr (p', l, s') \<and> p \<le> p' \<and> p' + l = p + len \<and> hasher_of seed (xs @ seg data p (p' - p)) s' \<and>
    m_size s' = m_size s \<and> (l = 0 \<or> 4 \<le> l \<and> m_count s' = 0)"
  using assms
proof (induction data p len s arbitrary: xs rule: MixTail.induct)
  case (1 data p len s)
  show ?case
  proof (cases "len \<noteq> 0 \<and> (len < 4 \<or> m_count s \<noteq> 0)")
    case True
    let ?b = "data ! p"
    define s1 where "s1 = s\<lparr>m_tail := m_tail s OR push_bit (unat (m_count s * 8)) (ucast ?b), m_count := m_count s + 1\<rparr>"
    define s2 where "s2 = (if m_count s1 = 4 then s1\<lparr>m_hash := mmix (m_hash s1) (m_tail s1), m_tail := 0, m_count := 0\<rparr> else s1)"
    have nb: "nthR data p = Inr ?b" using True "1.prems" by simp
    note hb = hasher_byte [OF "1.prems"(2)]
    have h2: "hasher_of seed (xs @ [?b]) s2" using hb(2) [of ?b] unfolding Let_def s1_def s2_def .
    have sz: "m_size s2 = m_size s" by (simp add: s1_def s2_def)
    have step: "MixTail data p len s = MixTail data (p + 1) (len - 1) s2"
      using True nb hb(1) by (subst MixTail.simps) (simp add: Let_def s1_def s2_def)
    have "p + 1 + (len - 1) \<le> length data" using True "1.prems"(1) by simp
    then obtain p' l s' where r: "MixTail data (p + 1) (len - 1) s2 = Inr (p', l, s')" "p + 1 \<le> p'" "p' + l = p + 1 + (len - 1)"
      "hasher_of seed ((xs @ [?b]) @ seg data (p + 1) (p' - (p + 1))) s'" "m_size s' = m_size s2" "l = 0 \<or> 4 \<le> l \<and> m_count s' = 0"
      using "1.IH" [OF True hb(1) s1_def s2_def _ h2] by blast
    have "seg data p (p' - p) = [?b] @ seg data (p + 1) (p' - (p + 1))"
      using seg_split [of 1 "p' - p" p data] r(2,3) True "1.prems"(1) by (simp add: seg_def take_Suc_conv_app_nth hd_drop_conv_nth)
    then show ?thesis using r step sz True by auto
  next
    case False
    then show ?thesis using "1.prems" by (subst MixTail.simps) (auto simp: seg_def)
  qed
qed

lemma hasher_words:
  assumes "hasher_of seed xs s" "m_count s = 0" "words_fold mmix (m_hash s) ws = (h, [])"
  shows "hasher_of seed (xs @ ws) (s\<lparr>m_hash := h\<rparr>)" "m_tail s = 0"
proof -
  obtain h' r where hr: "words_fold mmix seed xs = (h', r)" by fastforce
  then have s: "m_hash s = h'" "m_tail s = le_bytes r" "m_count s = of_nat (length r)" using assms by (simp_all add: hasher_of_def)
  have "length r < 4" using words_fold_rest [OF hr] by blast
  then have "length r = 0 \<or> length r = 1 \<or> length r = 2 \<or> length r = 3" by linarith
  then have "r = []" using s(3) assms(2) by auto
  then show "hasher_of seed (xs @ ws) (s\<lparr>m_hash := h\<rparr>)" "m_tail s = 0"
    using hr s assms words_fold_append [of mmix seed xs ws] by (simp_all add: hasher_of_def)
qed

lemma Murmur_Add_hasher:
  assumes "hasher_of seed xs s" "m_size s = of_nat (length xs)"
  shows "\<exists>s'. Murmur_Add bs (int (length bs)) s = Inr s' \<and> hasher_of seed (xs @ bs) s' \<and> m_size s' = of_nat (length (xs @ bs))"
proof -
  let ?s = "s\<lparr>m_size := m_size s + of_nat (length bs)\<rparr>"
  have "hasher_of seed xs ?s" using assms(1) by (simp add: hasher_of_def)
  then obtain p l s1 where m1: "MixTail bs 0 (length bs) ?s = Inr (p, l, s1)" "p + l = length bs" "hasher_of seed (xs @ seg bs 0 p) s1"
    "m_size s1 = m_size ?s" "l = 0 \<or> 4 \<le> l \<and> m_count s1 = 0" using MixTail_hasher [of 0 "length bs" bs seed xs ?s] by auto
  obtain p2 l2 h where w: "words_loop mmix bs p l (m_hash s1) = Inr (p2, l2, h)" "l2 < 4" "p2 + l2 = p + l"
    "words_fold mmix (m_hash s1) (seg bs p l) = (h, seg bs p2 l2)" using words_loop_fold [of p l bs mmix "m_hash s1"] m1(2) by auto
  let ?s2 = "s1\<lparr>m_hash := h\<rparr>"
  have s2: "hasher_of seed (xs @ seg bs 0 p2) ?s2"
  proof (cases "l = 0")
    case True
    then have "p2 = p" "h = m_hash s1" using w(1) by (simp_all add: words_loop.simps)
    then show ?thesis using m1(3) by simp
  next
    case False
    then have c: "m_count s1 = 0" using m1(5) by simp
    obtain ws where ws: "seg bs p l = ws @ seg bs p2 l2" "words_fold mmix (m_hash s1) ws = (h, [])" using words_fold_rest [OF w(4)] by blast
    have lw: "length ws = p2 - p" using arg_cong [OF ws(1), of length] w(3) m1(2) by simp
    have pp: "p \<le> p2" using arg_cong [OF ws(1), of length] w(3) m1(2) by simp
    then have "l - (p2 - p) = l2" "p + (p2 - p) = p2" "p2 - p \<le> l" using w(3) by simp_all
    then have "seg bs p l = seg bs p (p2 - p) @ seg bs p2 l2" using seg_split [of "p2 - p" l p bs] m1(2) by simp
    then have "ws = seg bs p (p2 - p)" using ws(1) by simp
    moreover have "seg bs 0 p2 = seg bs 0 p @ seg bs p (p2 - p)" using seg_split [of p p2 0 bs] pp w(3) m1(2) by simp
    ultimately show ?thesis using hasher_words(1) [OF m1(3) c ws(2)] by simp
  qed
  obtain p3 l3 s3 where m3: "MixTail bs p2 l2 ?s2 = Inr (p3, l3, s3)" "p3 + l3 = p2 + l2" "p2 \<le> p3" "hasher_of seed ((xs @ seg bs 0 p2) @ seg bs p2 (p3 - p2)) s3"
    "m_size s3 = m_size ?s2" "l3 = 0 \<or> 4 \<le> l3" using MixTail_hasher [OF _ s2, of p2 l2 bs] w(3) m1(2) by auto
  have "l3 = 0" using m3(2,3,6) w(2) by auto
  then have "bs = seg bs 0 p2 @ seg bs p2 (p3 - p2)" using seg_split [of p2 p3 0 bs] m3(2,3) w(3) m1(2) by (simp add: seg_all)
  then have "hasher_of seed (xs @ bs) s3" using m3(4) by simp
  moreover have "m_size s3 = of_nat (length (xs @ bs))" using m3(5) m1(4) assms(2) by simp
  ultimately show ?thesis using m1(1) w(1) m3(1) by (simp add: Murmur_Add_def)
qed

primrec add_all :: "u8 list list \<Rightarrow> CMurmurHash2A \<Rightarrow> c_error + CMurmurHash2A" where
  "add_all [] s = Inr s"
| "add_all (c # cs) s = bindR (Murmur_Add c (int (length c)) s) (add_all cs)"

lemma add_all_hasher:
  assumes "hasher_of seed xs s" "m_size s = of_nat (length xs)"
  shows "\<exists>s'. add_all cs s = Inr s' \<and> hasher_of seed (xs @ concat cs) s' \<and> m_size s' = of_nat (length (xs @ concat cs))"
  using assms
proof (induction cs arbitrary: xs s)
  case (Cons c cs)
  obtain s1 where s1: "Murmur_Add c (int (length c)) s = Inr s1" "hasher_of seed (xs @ c) s1" "m_size s1 = of_nat (length (xs @ c))"
    using Murmur_Add_hasher [OF Cons.prems, of c] by blast
  show ?case using Cons.IH [OF s1(2,3)] s1(1) by simp
qed simp

lemma MurmurHash2A_of:
  "MurmurHash2A xs (int (length xs)) seed =
     (case words_fold mmix seed xs of (h, r) \<Rightarrow> Inr (murmur2_final (mmix (mmix h (le_bytes r)) (of_nat (length xs)))))"
  using words_loop_fold [of 0 "length xs" xs mmix seed] by (auto simp: MurmurHash2A_def switch_xor seg_def)

section \<open>Injectivity\<close>

lemma murmur2_mult_inj: "x * murmur2_m = y * murmur2_m \<longleftrightarrow> x = y"
  using inj_eq [OF mult_word_inj [of murmur2_m 3852147133]] by (simp add: murmur2_m_def)

lemma mmix_k_inj: "mmix_k x = mmix_k y \<longleftrightarrow> x = y"
proof -
  have "(x XOR drop_bit 24 x = y XOR drop_bit 24 y) = (x = y)" for x y :: u32 using xorshift_inj [of 24 x y] by auto
  then show ?thesis by (simp add: mmix_k_def Let_def murmur2_mult_inj)
qed

lemma xor_left_eq: "(a XOR b = a XOR c) = (b = (c :: 'a::len word))"
  by (auto simp: bit_eq_iff bit_xor_iff)

lemma xor_right_eq: "(b XOR a = c XOR a) = (b = (c :: 'a::len word))"
  by (simp add: xor.commute [of _ a] xor_left_eq)

lemma mmix_inj: "mmix h x = mmix h y \<longleftrightarrow> x = y"
  by (simp add: mmix_def xor_left_eq mmix_k_inj)

lemma pair_word_eq:
  fixes a b c d :: u32
  assumes "push_bit 32 (ucast a) OR ucast b = (push_bit 32 (ucast c) OR ucast d :: u64)"
  shows "a = c \<and> b = d"
proof
  have bits: "bit (push_bit 32 (ucast a) OR ucast b :: u64) n = bit (push_bit 32 (ucast c) OR ucast d :: u64) n" for n using assms by simp
  show "a = c"
  proof (rule bit_word_eqI)
    fix n assume n: "n < LENGTH(32)"
    show "bit a n = bit c n" using bits [of "n + 32"] n bit_imp_le_length [of b "n + 32"] bit_imp_le_length [of d "n + 32"]
      by (auto simp: bit_or_iff bit_push_bit_iff bit_ucast_iff)
  qed
  show "b = d"
  proof (rule bit_word_eqI)
    fix n assume n: "n < LENGTH(32)"
    show "bit b n = bit d n" using bits [of n] n by (simp add: bit_or_iff bit_push_bit_iff bit_ucast_iff)
  qed
qed

lemma murmur64B_final_inj: "murmur64B_final a b = murmur64B_final c d \<longleftrightarrow> a = c \<and> b = d"
proof
  assume eq: "murmur64B_final a b = murmur64B_final c d"
  define h1 h2 g1 g2 where "h1 = (a XOR drop_bit 18 b) * murmur2_m" and "h2 = (b XOR drop_bit 22 h1) * murmur2_m"
    and "g1 = (c XOR drop_bit 18 d) * murmur2_m" and "g2 = (d XOR drop_bit 22 g1) * murmur2_m"
  define h3 h4 g3 g4 where "h3 = (h1 XOR drop_bit 17 h2) * murmur2_m" and "h4 = (h2 XOR drop_bit 19 h3) * murmur2_m"
    and "g3 = (g1 XOR drop_bit 17 g2) * murmur2_m" and "g4 = (g2 XOR drop_bit 19 g3) * murmur2_m"
  have "h3 = g3 \<and> h4 = g4" using eq unfolding murmur64B_final_def Let_def
    unfolding h1_def [symmetric] g1_def [symmetric] h2_def [symmetric] g2_def [symmetric] h3_def [symmetric] g3_def [symmetric] h4_def [symmetric] g4_def [symmetric]
    by (rule pair_word_eq)
  then have "h2 = g2" "h3 = g3" unfolding h4_def g4_def by (auto simp: murmur2_mult_inj xor_right_eq)
  then have "h1 = g1" "h2 = g2" unfolding h3_def g3_def by (auto simp: murmur2_mult_inj xor_right_eq)
  then have "b = d" "h1 = g1" unfolding h2_def g2_def by (auto simp: murmur2_mult_inj xor_right_eq)
  then show "a = c \<and> b = d" unfolding h1_def g1_def by (auto simp: murmur2_mult_inj xor_right_eq)
qed auto

text \<open>On eight bytes the version with two halves mixes each half once.\<close>

lemma MurmurHash64B_8:
  assumes "length bs = 8"
  shows "MurmurHash64B bs 8 seed =
    Inr (murmur64B_final (mmix (ucast seed XOR 8) (le_bytes (take 4 bs))) (mmix (ucast (drop_bit 32 seed)) (le_bytes (drop 4 bs))))"
  using assms by (simp add: MurmurHash64B_def pairs_loop.simps [of _ 0] pairs_loop.simps [of _ 8] loadR_def murmur2_tail_def)

section \<open>Properties\<close>

text \<open>
  C31: the variants of a 32-bit hash agree. \<open>MurmurHash2\<close>, the byte-wise \<open>MurmurHashNeutral2\<close> and \<open>MurmurHashAligned2\<close>, for every
  alignment of the key, return the same value, and so do \<open>MurmurHash1\<close> and \<open>MurmurHash1Aligned\<close>, for every \<open>int\<close> that is passed as the
  length. None of them reads outside of the first \<open>len\<close> bytes, none at all when \<open>len\<close> is negative, and no other byte has an influence.
\<close>

theorem murmur_variants_agree:
  assumes "nat len \<le> length data" "take (nat len) data' = take (nat len) data" "nat len \<le> length data'"
  shows "(\<exists>h. MurmurHash2 data len seed = Inr h \<and> MurmurHashNeutral2 data len seed = Inr h \<and> MurmurHashAligned2 addr data' len seed = Inr h) \<and>
    (\<exists>h. MurmurHash1 data len seed = Inr h \<and> MurmurHash1Aligned addr data' len seed = Inr h)"
  using assms by (simp add: MurmurHash2_of MurmurHashNeutral2_of MurmurHashAligned2_of MurmurHash1_of MurmurHash1Aligned_of)

theorem murmur_variants_agree_witness:
  "MurmurHash2 [1, 2, 3, 4, 5, 6, 7, 8, 9] 9 7 = MurmurHashAligned2 4097 [1, 2, 3, 4, 5, 6, 7, 8, 9, 10] 9 7"
  using murmur_variants_agree [of 9 "[1, 2, 3, 4, 5, 6, 7, 8, 9]" "[1, 2, 3, 4, 5, 6, 7, 8, 9, 10]" 7 4097] by auto

text \<open>
  C32: \<open>CMurmurHash2A\<close> works in pieces: whatever the pieces that a message is cut into, \<open>Begin\<close>, an \<open>Add\<close> for each piece and \<open>End\<close>
  give the value that \<open>MurmurHash2A\<close> gives for the whole message. The lengths are passed without narrowing; those that a call in the program
  can pass are below \<open>2 ^ 31\<close>.
\<close>

theorem murmur_incremental:
  "\<exists>s. add_all cs (Murmur_Begin seed) = Inr s \<and>
     MurmurHash2A (concat cs) (int (length (concat cs))) seed = Inr (fst (Murmur_End s))"
proof -
  have "hasher_of seed [] (Murmur_Begin seed)" "m_size (Murmur_Begin seed) = of_nat (length ([] :: u8 list))"
    by (simp_all add: hasher_of_def Murmur_Begin_def words_fold_short)
  from add_all_hasher [OF this, of cs] obtain s where s: "add_all cs (Murmur_Begin seed) = Inr s" "hasher_of seed (concat cs) s"
    "m_size s = of_nat (length (concat cs))" by auto
  then show ?thesis unfolding MurmurHash2A_of by (auto simp: hasher_of_def Murmur_End_def Let_def split: prod.splits)
qed

end
