(* ===== verification/Murmur3.thy ===== *)
theory Murmur3
  imports ByteReads
begin

text \<open>
  MurmurHash3 (\<open>mhash/util/MurmurHash3.cpp\<close>) in its three versions and CityHash (\<open>mhash/util/City.cpp\<close>), without the
  functions that need the CRC instructions of SSE 4.2. A pointer is an offset into the bytes of an object. The theory shows that all
  of them read nothing but the key.
\<close>

section \<open>MurmurHash3, x86, 32 bits\<close>

definition rotl32 :: "u32 \<Rightarrow> nat \<Rightarrow> u32" where
  "rotl32 x r = (push_bit r x OR drop_bit (32 - r) x)"

definition fmix32 :: "u32 \<Rightarrow> u32" where
  "fmix32 h =
     (let h1 = h XOR drop_bit 16 h; h2 = h1 * 0x85ebca6b; h3 = h2 XOR drop_bit 13 h2; h4 = h3 * 0xc2b2ae35 in h4 XOR drop_bit 16 h4)"

definition fmix64 :: "u64 \<Rightarrow> u64" where
  "fmix64 k =
     (let k1 = k XOR drop_bit 33 k; k2 = k1 * 0xff51afd7ed558ccd; k3 = k2 XOR drop_bit 33 k2; k4 = k3 * 0xc4ceb9fe1a85ec53 in
      k4 XOR drop_bit 33 k4)"

text \<open>
  Blocks are counted from the end of the last one: the argument of the loop is the negated index. The length is an \<open>int\<close>, and dividing it
  rounds towards 0. For a negative number of blocks the pointer behind the blocks lies before the object, which is undefined.
\<close>

definition x86_32_k :: "u32 \<Rightarrow> u32" where
  "x86_32_k k = rotl32 (k * 0xcc9e2d51) 15 * 0x1b873593"

primrec x86_32_body :: "u8 list \<Rightarrow> nat \<Rightarrow> nat \<Rightarrow> u32 \<Rightarrow> c_error + u32" where
  "x86_32_body data blocks 0 h = Inr h"
| "x86_32_body data blocks (Suc i) h =
     bindR (loadR 4 data (blocks - 4 * Suc i)) (\<lambda>k. x86_32_body data blocks i (rotl32 (h XOR x86_32_k k) 13 * 5 + 0xe6546b64))"

definition MurmurHash3_x86_32 :: "u8 list \<Rightarrow> int \<Rightarrow> u32 \<Rightarrow> c_error + u32" where
  "MurmurHash3_x86_32 data len seed =
     (let nblocks = len sdiv 4; n = nat (len AND 3) in
      bindR (ptrR data (nblocks * 4)) (\<lambda>tail.
      bindR (x86_32_body data tail (nat nblocks) seed) (\<lambda>h.
      bindR (if n = 0 then Inr h
             else bindR (switch_tail (XOR) data tail n 0) (\<lambda>k. Inr (h XOR x86_32_k k))) (\<lambda>h1.
        Inr (fmix32 (h1 XOR of_int len))))))"

section \<open>MurmurHash3, x86, 128 bits\<close>

definition x86_128_k :: "nat \<Rightarrow> u32 \<Rightarrow> u32" where
  "x86_128_k j k =
     (if j = 1 then rotl32 (k * 0x239b961b) 15 * 0xab0e9789
      else if j = 2 then rotl32 (k * 0xab0e9789) 16 * 0x38b34ae5
      else if j = 3 then rotl32 (k * 0x38b34ae5) 17 * 0xa1e38b93
      else rotl32 (k * 0xa1e38b93) 18 * 0x239b961b)"

primrec x86_128_body :: "u8 list \<Rightarrow> nat \<Rightarrow> nat \<Rightarrow> u32 \<times> u32 \<times> u32 \<times> u32 \<Rightarrow> c_error + u32 \<times> u32 \<times> u32 \<times> u32" where
  "x86_128_body data blocks 0 hs = Inr hs"
| "x86_128_body data blocks (Suc i) hs =
     (case hs of (h1, h2, h3, h4) \<Rightarrow>
        let p = blocks - 16 * Suc i in
        bindR (loadR 4 data p) (\<lambda>k1.
        bindR (loadR 4 data (p + 4)) (\<lambda>k2.
        bindR (loadR 4 data (p + 8)) (\<lambda>k3.
        bindR (loadR 4 data (p + 12)) (\<lambda>k4.
          let g1 = (rotl32 (h1 XOR x86_128_k 1 k1) 19 + h2) * 5 + 0x561ccd1b;
              g2 = (rotl32 (h2 XOR x86_128_k 2 k2) 17 + h3) * 5 + 0x0bcaa747;
              g3 = (rotl32 (h3 XOR x86_128_k 3 k3) 15 + h4) * 5 + 0x96cd1c35;
              g4 = (rotl32 (h4 XOR x86_128_k 4 k4) 13 + g1) * 5 + 0x32ac3b17 in
          x86_128_body data blocks i (g1, g2, g3, g4))))))"

text \<open>The bytes of one of the four words of the tail, when there are any.\<close>

definition x86_128_tail :: "u8 list \<Rightarrow> nat \<Rightarrow> nat \<Rightarrow> nat \<Rightarrow> u32 \<Rightarrow> c_error + u32" where
  "x86_128_tail data tail n j h =
     (let first = 4 * (j - 1) in
      if n \<le> first then Inr h
      else bindR (switch_tail (XOR) data (tail + first) (min 4 (n - first)) 0) (\<lambda>k. Inr (h XOR x86_128_k j k)))"

definition sum4 :: "u32 \<times> u32 \<times> u32 \<times> u32 \<Rightarrow> u32 \<times> u32 \<times> u32 \<times> u32" where
  "sum4 hs = (case hs of (h1, h2, h3, h4) \<Rightarrow> let g = h1 + h2 + h3 + h4 in (g, h2 + g, h3 + g, h4 + g))"

definition MurmurHash3_x86_128 :: "u8 list \<Rightarrow> int \<Rightarrow> u32 \<Rightarrow> c_error + u32 \<times> u32 \<times> u32 \<times> u32" where
  "MurmurHash3_x86_128 data len seed =
     (let nblocks = len sdiv 16; n = nat (len AND 15); l = of_int len in
      bindR (ptrR data (nblocks * 16)) (\<lambda>tail.
      bindR (x86_128_body data tail (nat nblocks) (seed, seed, seed, seed)) (\<lambda>(h1, h2, h3, h4).
      bindR (x86_128_tail data tail n 4 h4) (\<lambda>h4.
      bindR (x86_128_tail data tail n 3 h3) (\<lambda>h3.
      bindR (x86_128_tail data tail n 2 h2) (\<lambda>h2.
      bindR (x86_128_tail data tail n 1 h1) (\<lambda>h1.
        let (h1, h2, h3, h4) = sum4 (h1 XOR l, h2 XOR l, h3 XOR l, h4 XOR l) in
        Inr (sum4 (fmix32 h1, fmix32 h2, fmix32 h3, fmix32 h4)))))))))"

section \<open>MurmurHash3, x64, 128 bits\<close>

definition x64_c1 :: u64 where "x64_c1 = 0x87c37b91114253d5"
definition x64_c2 :: u64 where "x64_c2 = 0x4cf5ad432745937f"

definition x64_k1 :: "u64 \<Rightarrow> u64" where
  "x64_k1 k = rotl64 (k * x64_c1) 31 * x64_c2"

definition x64_k2 :: "u64 \<Rightarrow> u64" where
  "x64_k2 k = rotl64 (k * x64_c2) 33 * x64_c1"

function x64_body :: "u8 list \<Rightarrow> nat \<Rightarrow> nat \<Rightarrow> u64 \<Rightarrow> u64 \<Rightarrow> c_error + u64 \<times> u64" where
  "x64_body data nblocks i h1 h2 =
     (if i < nblocks then
        bindR (loadR 8 data (8 * (i * 2))) (\<lambda>k1.
        bindR (loadR 8 data (8 * (i * 2 + 1))) (\<lambda>k2.
          let g1 = (rotl64 (h1 XOR x64_k1 k1) 27 + h2) * 5 + 0x52dce729;
              g2 = (rotl64 (h2 XOR x64_k2 k2) 31 + g1) * 5 + 0x38495ab5 in
          x64_body data nblocks (i + 1) g1 g2))
      else Inr (h1, h2))"
  by pat_completeness auto
termination by (relation "measure (\<lambda>(data, nblocks, i, h1, h2). nblocks - i)") auto

declare x64_body.simps [simp del]

definition MurmurHash3_x64_128 :: "u8 list \<Rightarrow> int \<Rightarrow> u32 \<Rightarrow> c_error + u64 \<times> u64" where
  "MurmurHash3_x64_128 data len seed =
     (let nblocks = len sdiv 16; n = nat (len AND 15) in
      bindR (x64_body data (nat nblocks) 0 (ucast seed) (ucast seed)) (\<lambda>(h1, h2).
      bindR (ptrR data (nblocks * 16)) (\<lambda>tail.
      bindR (if n \<le> 8 then Inr h2 else bindR (switch_tail (XOR) data (tail + 8) (n - 8) 0) (\<lambda>k. Inr (h2 XOR x64_k2 k))) (\<lambda>h2.
      bindR (if n = 0 then Inr h1 else bindR (switch_tail (XOR) data tail (min 8 n) 0) (\<lambda>k. Inr (h1 XOR x64_k1 k))) (\<lambda>h1.
        let a1 = h1 XOR of_int len; a2 = h2 XOR of_int len; b1 = a1 + a2; b2 = a2 + b1;
            c1 = fmix64 b1; c2 = fmix64 b2; d1 = c1 + c2 in
        Inr (d1, c2 + d1))))))"

section \<open>CityHash: building blocks\<close>

definition city_k0 :: u64 where "city_k0 = 0xc3a5c85c97cb3127"
definition city_k1 :: u64 where "city_k1 = 0xb492b66fbe98f273"
definition city_k2 :: u64 where "city_k2 = 0x9ae16a3b2f90404f"
definition city_k3 :: u64 where "city_k3 = 0xc949d7c7509e6557"

definition Fetch64 :: "u8 list \<Rightarrow> nat \<Rightarrow> c_error + u64" where
  "Fetch64 data p = loadR 8 data p"

definition Fetch32 :: "u8 list \<Rightarrow> nat \<Rightarrow> c_error + u32" where
  "Fetch32 data p = loadR 4 data p"

definition Rotate :: "u64 \<Rightarrow> nat \<Rightarrow> u64" where
  "Rotate val shift = (if shift = 0 then val else drop_bit shift val OR push_bit (64 - shift) val)"

definition RotateByAtLeast1 :: "u64 \<Rightarrow> nat \<Rightarrow> u64" where
  "RotateByAtLeast1 val shift = (drop_bit shift val OR push_bit (64 - shift) val)"

definition ShiftMix :: "u64 \<Rightarrow> u64" where
  "ShiftMix val = val XOR drop_bit 47 val"

definition Hash128to64 :: "u64 \<times> u64 \<Rightarrow> u64" where
  "Hash128to64 x =
     (let a = (fst x XOR snd x) * 0x9ddfea08eb382d69; a1 = a XOR drop_bit 47 a;
          b = (snd x XOR a1) * 0x9ddfea08eb382d69; b1 = b XOR drop_bit 47 b in b1 * 0x9ddfea08eb382d69)"

definition HashLen16 :: "u64 \<Rightarrow> u64 \<Rightarrow> u64" where
  "HashLen16 u v = Hash128to64 (u, v)"

definition HashLen0to16 :: "u8 list \<Rightarrow> nat \<Rightarrow> nat \<Rightarrow> c_error + u64" where
  "HashLen0to16 data s len =
     (if 8 < len then
        bindR (Fetch64 data s) (\<lambda>a.
        bindR (Fetch64 data (s + len - 8)) (\<lambda>b.
          Inr (HashLen16 a (RotateByAtLeast1 (b + of_nat len) len) XOR b)))
      else if 4 \<le> len then
        bindR (Fetch32 data s) (\<lambda>a.
        bindR (Fetch32 data (s + len - 4)) (\<lambda>b. Inr (HashLen16 (of_nat len + push_bit 3 (ucast a)) (ucast b))))
      else if 0 < len then
        bindR (nthR data s) (\<lambda>a.
        bindR (nthR data (s + len div 2)) (\<lambda>b.
        bindR (nthR data (s + len - 1)) (\<lambda>c.
          let y = ucast a + push_bit 8 (ucast b) :: u32; z = of_nat len + push_bit 2 (ucast c) :: u32 in
          Inr (ShiftMix ((ucast y * city_k2) XOR (ucast z * city_k3)) * city_k2))))
      else Inr city_k2)"

definition HashLen17to32 :: "u8 list \<Rightarrow> nat \<Rightarrow> nat \<Rightarrow> c_error + u64" where
  "HashLen17to32 data s len =
     bindR (Fetch64 data s) (\<lambda>a0.
     bindR (Fetch64 data (s + 8)) (\<lambda>b.
     bindR (Fetch64 data (s + len - 8)) (\<lambda>c0.
     bindR (Fetch64 data (s + len - 16)) (\<lambda>d0.
       let a = a0 * city_k1; c = c0 * city_k2; d = d0 * city_k0 in
       Inr (HashLen16 (Rotate (a - b) 43 + Rotate c 30 + d) (a + Rotate (b XOR city_k3) 20 - c + of_nat len))))))"

definition WeakHashLen32 :: "u64 \<Rightarrow> u64 \<Rightarrow> u64 \<Rightarrow> u64 \<Rightarrow> u64 \<Rightarrow> u64 \<Rightarrow> u64 \<times> u64" where
  "WeakHashLen32 w x y z a b =
     (let a1 = a + w; b1 = Rotate (b + a1 + z) 21; c = a1; a2 = a1 + x + y; b2 = b1 + Rotate a2 44 in (a2 + z, b2 + c))"

definition WeakHashLen32WithSeeds :: "u8 list \<Rightarrow> nat \<Rightarrow> u64 \<Rightarrow> u64 \<Rightarrow> c_error + u64 \<times> u64" where
  "WeakHashLen32WithSeeds data s a b =
     bindR (Fetch64 data s) (\<lambda>w.
     bindR (Fetch64 data (s + 8)) (\<lambda>x.
     bindR (Fetch64 data (s + 16)) (\<lambda>y.
     bindR (Fetch64 data (s + 24)) (\<lambda>z. Inr (WeakHashLen32 w x y z a b)))))"

definition HashLen33to64 :: "u8 list \<Rightarrow> nat \<Rightarrow> nat \<Rightarrow> c_error + u64" where
  "HashLen33to64 data s len =
     bindR (Fetch64 data (s + 24)) (\<lambda>z.
     bindR (Fetch64 data s) (\<lambda>s0.
     bindR (Fetch64 data (s + len - 16)) (\<lambda>e16.
     bindR (Fetch64 data (s + 8)) (\<lambda>s8.
     bindR (Fetch64 data (s + 16)) (\<lambda>s16.
     bindR (Fetch64 data (s + len - 32)) (\<lambda>e32.
     bindR (Fetch64 data (s + len - 8)) (\<lambda>e8.
     bindR (Fetch64 data (s + len - 24)) (\<lambda>e24.
       let a = s0 + (of_nat len + e16) * city_k0; b = Rotate (a + z) 52; c = Rotate a 37;
           a1 = a + s8; c1 = c + Rotate a1 7; a2 = a1 + s16; vf = a2 + z; vs = b + Rotate a2 31 + c1;
           a3 = s16 + e32; b3 = Rotate (a3 + e8) 52; c3 = Rotate a3 37;
           a4 = a3 + e24; c4 = c3 + Rotate a4 7; a5 = a4 + e16; wf = a5 + e8; ws = b3 + Rotate a5 31 + c4;
           r = ShiftMix ((vf + ws) * city_k2 + (wf + vs) * city_k0) in
       Inr (ShiftMix (r * city_k0 + vs) * city_k2)))))))))"

section \<open>CityHash: long keys\<close>

record city_state =
  cx :: u64
  cy :: u64
  cz :: u64
  cv :: "u64 \<times> u64"
  cw :: "u64 \<times> u64"

text \<open>The body of the loops over chunks of 64 bytes.\<close>

definition city_chunk :: "u8 list \<Rightarrow> nat \<Rightarrow> city_state \<Rightarrow> c_error + city_state" where
  "city_chunk data s c =
     bindR (Fetch64 data (s + 8)) (\<lambda>f8.
     bindR (Fetch64 data (s + 48)) (\<lambda>f48.
     bindR (Fetch64 data (s + 40)) (\<lambda>f40.
       let x = (Rotate (cx c + cy c + fst (cv c) + f8) 37 * city_k1) XOR snd (cw c);
           y = Rotate (cy c + snd (cv c) + f48) 42 * city_k1 + (fst (cv c) + f40);
           z = Rotate (cz c + fst (cw c)) 33 * city_k1 in
       bindR (WeakHashLen32WithSeeds data s (snd (cv c) * city_k1) (x + fst (cw c))) (\<lambda>v.
       bindR (Fetch64 data (s + 16)) (\<lambda>f16.
       bindR (WeakHashLen32WithSeeds data (s + 32) (z + snd (cw c)) (y + f16)) (\<lambda>w.
         Inr \<lparr>cx = z, cy = y, cz = x, cv = v, cw = w\<rparr>))))))"

primrec city_loop :: "u8 list \<Rightarrow> nat \<Rightarrow> nat \<Rightarrow> city_state \<Rightarrow> c_error + city_state" where
  "city_loop data s 0 c = Inr c"
| "city_loop data s (Suc n) c = bindR (city_chunk data s c) (city_loop data (s + 64) n)"

text \<open>For more than 64 bytes the number of chunks is the length less one, rounded down to a multiple of 64, over 64.\<close>

definition CityHash64 :: "u8 list \<Rightarrow> nat \<Rightarrow> nat \<Rightarrow> c_error + u64" where
  "CityHash64 data s len =
     (if len \<le> 32 then if len \<le> 16 then HashLen0to16 data s len else HashLen17to32 data s len
      else if len \<le> 64 then HashLen33to64 data s len
      else
        bindR (Fetch64 data (s + len - 40)) (\<lambda>x.
        bindR (Fetch64 data (s + len - 16)) (\<lambda>e16.
        bindR (Fetch64 data (s + len - 56)) (\<lambda>e56.
        bindR (Fetch64 data (s + len - 48)) (\<lambda>e48.
        bindR (Fetch64 data (s + len - 24)) (\<lambda>e24.
          let y = e16 + e56; z = HashLen16 (e48 + of_nat len) e24 in
          bindR (WeakHashLen32WithSeeds data (s + len - 64) (of_nat len) z) (\<lambda>v.
          bindR (WeakHashLen32WithSeeds data (s + len - 32) (y + city_k1) x) (\<lambda>w.
          bindR (Fetch64 data s) (\<lambda>f.
          bindR (city_loop data s ((len - 1) div 64) \<lparr>cx = x * city_k1 + f, cy = y, cz = z, cv = v, cw = w\<rparr>) (\<lambda>c.
            Inr (HashLen16 (HashLen16 (fst (cv c)) (fst (cw c)) + ShiftMix (cy c) * city_k1 + cz c)
                   (HashLen16 (snd (cv c)) (snd (cw c)) + cx c))))))))))))"

definition CityHash64WithSeeds :: "u8 list \<Rightarrow> nat \<Rightarrow> nat \<Rightarrow> u64 \<Rightarrow> u64 \<Rightarrow> c_error + u64" where
  "CityHash64WithSeeds data s len seed0 seed1 = bindR (CityHash64 data s len) (\<lambda>h. Inr (HashLen16 (h - seed0) seed1))"

definition CityHash64WithSeed :: "u8 list \<Rightarrow> nat \<Rightarrow> nat \<Rightarrow> u64 \<Rightarrow> c_error + u64" where
  "CityHash64WithSeed data s len seed = CityHash64WithSeeds data s len city_k2 seed"

section \<open>CityHash: 128 bits\<close>

text \<open>The loop of \<open>CityMurmur\<close> with \<open>l\<close> bytes to go, at least one.\<close>

function city_murmur_loop :: "u8 list \<Rightarrow> nat \<Rightarrow> nat \<Rightarrow> u64 \<Rightarrow> u64 \<Rightarrow> u64 \<Rightarrow> u64 \<Rightarrow> c_error + u64 \<times> u64 \<times> u64 \<times> u64" where
  "city_murmur_loop data s l a b c d =
     bindR (Fetch64 data s) (\<lambda>f0.
     bindR (Fetch64 data (s + 8)) (\<lambda>f8.
       let a1 = (a XOR (ShiftMix (f0 * city_k1) * city_k1)) * city_k1; b1 = b XOR a1;
           c1 = (c XOR (ShiftMix (f8 * city_k1) * city_k1)) * city_k1; d1 = d XOR c1 in
       if 16 < l then city_murmur_loop data (s + 16) (l - 16) a1 b1 c1 d1 else Inr (a1, b1, c1, d1)))"
  by pat_completeness auto
termination by (relation "measure (\<lambda>(data, s, l, a, b, c, d). l)") auto

declare city_murmur_loop.simps [simp del]

definition CityMurmur :: "u8 list \<Rightarrow> nat \<Rightarrow> nat \<Rightarrow> u64 \<times> u64 \<Rightarrow> c_error + u64 \<times> u64" where
  "CityMurmur data s len seed =
     (let a = fst seed; b = snd seed in
      bindR
        (if len \<le> 16 then
           let a1 = ShiftMix (a * city_k1) * city_k1 in
           bindR (HashLen0to16 data s len) (\<lambda>h.
             let c = b * city_k1 + h in
             bindR (if 8 \<le> len then Fetch64 data s else Inr c) (\<lambda>f. Inr (a1, b, c, ShiftMix (a1 + f))))
         else
           bindR (Fetch64 data (s + len - 8)) (\<lambda>e8.
           bindR (Fetch64 data (s + len - 16)) (\<lambda>e16.
             let c = HashLen16 (e8 + city_k1) a; d = HashLen16 (b + of_nat len) (c + e16) in
             city_murmur_loop data s (len - 16) (a + d) b c d))) (\<lambda>(a, b, c, d).
        let a1 = HashLen16 a c; b1 = HashLen16 d b in Inr (a1 XOR b1, HashLen16 b1 a1)))"

text \<open>The loop over pairs of chunks, with the rest of the length, and the loop over the last bytes.\<close>

function city_pairs :: "u8 list \<Rightarrow> nat \<Rightarrow> nat \<Rightarrow> city_state \<Rightarrow> c_error + nat \<times> nat \<times> city_state" where
  "city_pairs data s len c =
     bindR (city_chunk data s c) (\<lambda>c1.
     bindR (city_chunk data (s + 64) c1) (\<lambda>c2.
       if 128 + 128 \<le> len then city_pairs data (s + 128) (len - 128) c2 else Inr (s + 128, len - 128, c2)))"
  by pat_completeness auto
termination by (relation "measure (\<lambda>(data, s, len, c). len)") auto

declare city_pairs.simps [simp del]

function city_tail :: "u8 list \<Rightarrow> nat \<Rightarrow> nat \<Rightarrow> nat \<Rightarrow> city_state \<Rightarrow> c_error + city_state" where
  "city_tail data s len tail_done c =
     (if tail_done < len then
        let t = tail_done + 32; y = Rotate (cx c + cy c) 42 * city_k0 + snd (cv c) in
        bindR (Fetch64 data (s + len - t + 16)) (\<lambda>f16.
          let w1 = fst (cw c) + f16; x = cx c * city_k0 + w1 in
          bindR (Fetch64 data (s + len - t)) (\<lambda>f.
            let z = cz c + (snd (cw c) + f); w2 = snd (cw c) + fst (cv c) in
            bindR (WeakHashLen32WithSeeds data (s + len - t) (fst (cv c) + z) (snd (cv c))) (\<lambda>v.
              city_tail data s len t \<lparr>cx = x, cy = y, cz = z, cv = v, cw = (w1, w2)\<rparr>)))
      else Inr c)"
  by pat_completeness auto
termination by (relation "measure (\<lambda>(data, s, len, tail_done, c). len - tail_done)") auto

declare city_tail.simps [simp del]

definition CityHash128WithSeed :: "u8 list \<Rightarrow> nat \<Rightarrow> nat \<Rightarrow> u64 \<times> u64 \<Rightarrow> c_error + u64 \<times> u64" where
  "CityHash128WithSeed data s len seed =
     (if len < 128 then CityMurmur data s len seed
      else
        let x = fst seed; y = snd seed; z = of_nat len * city_k1 in
        bindR (Fetch64 data s) (\<lambda>f0.
        bindR (Fetch64 data (s + 8)) (\<lambda>f8.
        bindR (Fetch64 data (s + 88)) (\<lambda>f88.
          let v1 = Rotate (y XOR city_k1) 49 * city_k1 + f0; v2 = Rotate v1 42 * city_k1 + f8;
              w1 = Rotate (y + z) 35 * city_k1 + x; w2 = Rotate (x + f88) 53 * city_k1 in
          bindR (city_pairs data s len \<lparr>cx = x, cy = y, cz = z, cv = (v1, v2), cw = (w1, w2)\<rparr>) (\<lambda>(s1, len1, c).
          bindR (city_tail data s1 len1 0
                   (c\<lparr>cx := cx c + Rotate (fst (cv c) + cz c) 49 * city_k0, cz := cz c + Rotate (fst (cw c)) 37 * city_k0\<rparr>)) (\<lambda>c.
            let x = HashLen16 (cx c) (fst (cv c)); y = HashLen16 (cy c + cz c) (fst (cw c)) in
            Inr (HashLen16 (x + snd (cv c)) (snd (cw c)) + y, HashLen16 (x + snd (cw c)) (y + snd (cv c)))))))))"

definition CityHash128 :: "u8 list \<Rightarrow> nat \<Rightarrow> nat \<Rightarrow> c_error + u64 \<times> u64" where
  "CityHash128 data s len =
     (if 16 \<le> len then
        bindR (Fetch64 data s) (\<lambda>a.
        bindR (Fetch64 data (s + 8)) (\<lambda>b. CityHash128WithSeed data (s + 16) (len - 16) (a XOR city_k3, b)))
      else if 8 \<le> len then
        bindR (Fetch64 data s) (\<lambda>a.
        bindR (Fetch64 data (s + len - 8)) (\<lambda>b. CityHash128WithSeed [] 0 0 (a XOR (of_nat len * city_k0), b XOR city_k1)))
      else CityHash128WithSeed data s len (city_k0, city_k1))"

section \<open>Reads stay within the key\<close>

lemma returns_Fetch64 [returns_intros]: "p + 8 \<le> length data \<Longrightarrow> returns (Fetch64 data p)"
  unfolding Fetch64_def by (rule returns_loadR)

lemma returns_Fetch32 [returns_intros]: "p + 4 \<le> length data \<Longrightarrow> returns (Fetch32 data p)"
  unfolding Fetch32_def by (rule returns_loadR)

text \<open>The number of blocks, the number of trailing bytes and the pointer to them, for a length that is not negative.\<close>

lemma int_blocks:
  assumes "l \<le> length data" "0 < d"
  shows "int l sdiv int d = int (l div d)" "ptrR data (int l sdiv int d * int d) = Inr (l div d * d)"
proof -
  show d: "int l sdiv int d = int (l div d)" using assms(2) by (cases "l = 0") (simp_all add: signed_divide_int_def zdiv_int)
  have "l div d * d \<le> length data" using div_times_less_eq_dividend [of l d] assms(1) by linarith
  then have "int (l div d) * int d \<le> int (length data)" by (simp only: of_nat_mult [symmetric] of_nat_le_iff)
  then show "ptrR data (int l sdiv int d * int d) = Inr (l div d * d)" unfolding d ptrR_def by (simp add: nat_mult_distrib)
qed

lemma int_rest: "nat (int l AND 3) = l mod 4" "nat (int l AND 15) = l mod 16"
proof -
  have "int l AND 3 = int l mod 4" using take_bit_eq_mask [of 2 "int l"] by (simp add: take_bit_eq_mod mask_eq_exp_minus_1)
  then show "nat (int l AND 3) = l mod 4" by (simp add: nat_mod_distrib)
  have "int l AND 15 = int l mod 16" using take_bit_eq_mask [of 4 "int l"] by (simp add: take_bit_eq_mod mask_eq_exp_minus_1)
  then show "nat (int l AND 15) = l mod 16" by (simp add: nat_mod_distrib)
qed

text \<open>A length of minus one block or less.\<close>

lemma ptrR_negative:
  assumes "len \<le> - d" "0 < d"
  shows "ptrR data (len sdiv d * d) = Inl UB"
proof -
  have "1 \<le> (- len) div d" using assms by (simp add: pos_imp_zdiv_pos_iff int_one_le_iff_zero_less)
  then have "len sdiv d \<le> - 1" using assms by (simp add: signed_divide_int_def)
  then have "len sdiv d * d < 0" using assms(2) by (simp add: mult_neg_pos)
  then show ?thesis by (simp add: ptrR_def)
qed

lemma x86_32_body_returns:
  "4 * n \<le> blocks \<Longrightarrow> blocks \<le> length data \<Longrightarrow> returns (x86_32_body data blocks n h)"
proof (induction n arbitrary: h)
  case (Suc i)
  show ?case unfolding x86_32_body.simps by (intro returns_intros Suc.IH) (use Suc.prems in simp_all)
qed (simp add: returns_intros)

lemma MurmurHash3_x86_32_returns:
  assumes "l \<le> length data"
  shows "returns (MurmurHash3_x86_32 data (int l) seed)"
proof -
  note il = int_blocks [OF assms, of 4, simplified] int_rest [of l]
  have "l div 4 * 4 + l mod 4 \<le> length data" using assms by (simp add: div_mult_mod_eq)
  then show ?thesis unfolding MurmurHash3_x86_32_def Let_def
    using il by (auto intro!: returns_intros x86_32_body_returns)
qed

lemma x86_128_body_returns:
  "16 * n \<le> blocks \<Longrightarrow> blocks \<le> length data \<Longrightarrow> returns (x86_128_body data blocks n hs)"
proof (induction n arbitrary: hs)
  case (Suc i)
  show ?case unfolding x86_128_body.simps by (intro returns_intros Suc.IH) (use Suc.prems in simp_all)
qed (simp add: returns_intros)

lemma x86_128_tail_returns [returns_intros]: "tail + n \<le> length data \<Longrightarrow> returns (x86_128_tail data tail n j h)"
  unfolding x86_128_tail_def
proof (intro returns_intros, goal_cases)
  case (1 first)
  have "tail + first + min 4 (n - first) \<le> tail + n" using 1(3) by linarith
  then show ?case using 1(1) by linarith
qed

lemma MurmurHash3_x86_128_returns:
  assumes "l \<le> length data"
  shows "returns (MurmurHash3_x86_128 data (int l) seed)"
proof -
  note il = int_blocks [OF assms, of 16, simplified] int_rest [of l]
  have "l div 16 * 16 + l mod 16 \<le> length data" using assms by (simp add: div_mult_mod_eq)
  then show ?thesis unfolding MurmurHash3_x86_128_def Let_def
    using il by (auto intro!: returns_intros x86_128_body_returns)
qed

lemma x64_body_returns:
  "16 * nblocks \<le> length data \<Longrightarrow> returns (x64_body data nblocks i h1 h2)"
proof (induction data nblocks i h1 h2 rule: x64_body.induct)
  case (1 data nblocks i h1 h2)
  show ?case
    by (subst x64_body.simps, intro returns_intros "1.IH") (use "1.prems" in simp_all)
qed

lemma MurmurHash3_x64_128_returns:
  assumes "l \<le> length data"
  shows "returns (MurmurHash3_x64_128 data (int l) seed)"
proof -
  note il = int_blocks [OF assms, of 16, simplified] int_rest [of l]
  have "l div 16 * 16 + l mod 16 \<le> length data" "l div 16 * 16 + min 8 (l mod 16) \<le> length data"
    using assms div_mult_mod_eq [of l 16] by linarith+
  then show ?thesis unfolding MurmurHash3_x64_128_def Let_def
    using il by (auto intro!: returns_intros x64_body_returns)
qed

lemma HashLen0to16_returns [returns_intros]: "s + len \<le> length data \<Longrightarrow> returns (HashLen0to16 data s len)"
  unfolding HashLen0to16_def by (intro returns_intros) simp_all

lemma HashLen17to32_returns: "s + len \<le> length data \<Longrightarrow> 16 < len \<Longrightarrow> returns (HashLen17to32 data s len)"
  unfolding HashLen17to32_def by (intro returns_intros) simp_all

lemma WeakHashLen32WithSeeds_returns [returns_intros]: "s + 32 \<le> length data \<Longrightarrow> returns (WeakHashLen32WithSeeds data s a b)"
  unfolding WeakHashLen32WithSeeds_def by (intro returns_intros) simp_all

lemma HashLen33to64_returns: "s + len \<le> length data \<Longrightarrow> 32 < len \<Longrightarrow> returns (HashLen33to64 data s len)"
  unfolding HashLen33to64_def by (intro returns_intros) simp_all

lemma city_chunk_returns [returns_intros]: "s + 64 \<le> length data \<Longrightarrow> returns (city_chunk data s c)"
  unfolding city_chunk_def by (intro returns_intros) simp_all

lemma city_loop_returns: "s + 64 * n \<le> length data \<Longrightarrow> returns (city_loop data s n c)"
proof (induction n arbitrary: s c)
  case (Suc n)
  show ?case unfolding city_loop.simps by (intro returns_intros Suc.IH) (use Suc.prems in simp_all)
qed (simp add: returns_intros)

lemma CityHash64_returns [returns_intros]: "s + len \<le> length data \<Longrightarrow> returns (CityHash64 data s len)"
  unfolding CityHash64_def by (intro returns_intros HashLen17to32_returns HashLen33to64_returns city_loop_returns) simp_all

lemma city_murmur_loop_returns: "s + l + 15 \<le> length data \<Longrightarrow> 0 < l \<Longrightarrow> returns (city_murmur_loop data s l a b c d)"
proof (induction data s l a b c d rule: city_murmur_loop.induct)
  case (1 data s l a b c d)
  show ?case by (subst city_murmur_loop.simps, intro returns_intros "1.IH") (use "1.prems" in simp_all)
qed

lemma CityMurmur_returns [returns_intros]: "s + len \<le> length data \<Longrightarrow> returns (CityMurmur data s len seed)"
  unfolding CityMurmur_def by (intro returns_intros city_murmur_loop_returns) simp_all

lemma city_pairs_returns:
  "s + len \<le> length data \<Longrightarrow> 128 \<le> len \<Longrightarrow>
   \<exists>s' len' c'. city_pairs data s len c = Inr (s', len', c') \<and> s' + len' = s + len \<and> s + 128 \<le> s'"
proof (induction data s len c rule: city_pairs.induct)
  case (1 data s len c)
  obtain c1 where c1: "city_chunk data s c = Inr c1" using city_chunk_returns [of s data c] "1.prems" by (auto simp: returns_def)
  obtain c2 where c2: "city_chunk data (s + 64) c1 = Inr c2" using city_chunk_returns [of "s + 64" data c1] "1.prems" by (auto simp: returns_def)
  show ?case
  proof (cases "128 + 128 \<le> len")
    case True
    then have "128 \<le> len - 128" "s + 128 + (len - 128) \<le> length data" using "1.prems" by simp_all
    then obtain s' len' c' where "city_pairs data (s + 128) (len - 128) c2 = Inr (s', len', c')" "s' + len' = s + 128 + (len - 128)" "s + 128 + 128 \<le> s'"
      using "1.IH" [OF True, of c2] by blast
    then show ?thesis using c1 c2 True by (subst city_pairs.simps) auto
  next
    case False
    then show ?thesis using c1 c2 "1.prems" by (subst city_pairs.simps) auto
  qed
qed

lemma city_tail_returns: "s + len \<le> length data \<Longrightarrow> 32 \<le> s \<Longrightarrow> returns (city_tail data s len t c)"
proof (induction data s len t c rule: city_tail.induct)
  case (1 data s len t c)
  show ?case by (subst city_tail.simps, intro returns_intros "1.IH") (use "1.prems" in simp_all)
qed

lemma CityHash128WithSeed_returns [returns_intros]:
  assumes "s + len \<le> length data"
  shows "returns (CityHash128WithSeed data s len seed)"
proof -
  have p: "returns (city_pairs data s len c)" if "128 \<le> len" for c
    using city_pairs_returns [OF assms that, of c] by (auto simp: returns_def)
  have r: "s' + len' \<le> length data \<and> 32 \<le> s'" if "128 \<le> len" "city_pairs data s len c = Inr (s', len', c')" for c s' len' c'
    using city_pairs_returns [OF assms that(1), of c] that(2) assms by auto
  show ?thesis unfolding CityHash128WithSeed_def
    by (intro returns_intros city_tail_returns p) (use assms in \<open>simp_all, (metis not_less r)+\<close>)
qed

lemma CityHash128_returns: "s + len \<le> length data \<Longrightarrow> returns (CityHash128 data s len)"
  unfolding CityHash128_def by (intro returns_intros) simp_all

section \<open>Properties\<close>

lemma murmur3_too_long:
  assumes "len \<le> - 16"
  shows "MurmurHash3_x86_32 data len seed = Inl UB" "MurmurHash3_x86_128 data len seed = Inl UB" "MurmurHash3_x64_128 data len seed = Inl UB"
proof -
  have n: "nat (len sdiv 16) = 0" using assms by (simp add: signed_divide_int_def)
  show "MurmurHash3_x86_32 data len seed = Inl UB" using ptrR_negative [of len 4] assms by (simp add: MurmurHash3_x86_32_def Let_def)
  show "MurmurHash3_x86_128 data len seed = Inl UB" using ptrR_negative [of len 16] assms by (simp add: MurmurHash3_x86_128_def Let_def)
  show "MurmurHash3_x64_128 data len seed = Inl UB" using ptrR_negative [of len 16] assms n
    by (simp add: MurmurHash3_x64_128_def Let_def x64_body.simps)
qed

text \<open>
  C33: MurmurHash3 and CityHash read only the key. For an object of exactly the given length, all versions return, so no load reaches
  outside of the key. CityHash does so for keys of every length. MurmurHash3 takes the length as an \<open>int\<close>: it does so for keys of less than \<open>2 ^ 31\<close> bytes, while
  for keys of \<open>2 ^ 31\<close> to \<open>2 ^ 32 - 16\<close> bytes, whose length becomes negative when it is passed, all three versions are undefined.
\<close>

theorem hashes_read_key_only:
  "(length data < 2 ^ 31 \<longrightarrow>
     (\<exists>h. MurmurHash3_x86_32 data (c_int (length data)) seed = Inr h) \<and> (\<exists>h. MurmurHash3_x86_128 data (c_int (length data)) seed = Inr h) \<and>
     (\<exists>h. MurmurHash3_x64_128 data (c_int (length data)) seed = Inr h)) \<and>
   (2 ^ 31 \<le> length data \<and> length data + 16 \<le> 2 ^ 32 \<longrightarrow>
     MurmurHash3_x86_32 data (c_int (length data)) seed = Inl UB \<and> MurmurHash3_x86_128 data (c_int (length data)) seed = Inl UB \<and>
     MurmurHash3_x64_128 data (c_int (length data)) seed = Inl UB) \<and>
   (\<exists>h. CityHash64 data 0 (length data) = Inr h) \<and>
   (\<exists>h. CityHash64WithSeed data 0 (length data) seed64 = Inr h) \<and> (\<exists>h. CityHash128 data 0 (length data) = Inr h) \<and>
   (\<exists>h. CityHash128WithSeed data 0 (length data) seeds = Inr h)"
proof (intro conjI impI)
  assume "length data < 2 ^ 31"
  then have c: "c_int (length data) = int (length data)" by (rule c_int_small)
  show "\<exists>h. MurmurHash3_x86_32 data (c_int (length data)) seed = Inr h" "\<exists>h. MurmurHash3_x86_128 data (c_int (length data)) seed = Inr h"
    "\<exists>h. MurmurHash3_x64_128 data (c_int (length data)) seed = Inr h"
    unfolding c using MurmurHash3_x86_32_returns [OF order_refl] MurmurHash3_x86_128_returns [OF order_refl]
      MurmurHash3_x64_128_returns [OF order_refl] by (simp_all add: returns_def)
next
  assume l: "2 ^ 31 \<le> length data \<and> length data + 16 \<le> 2 ^ 32"
  then have "c_int (length data) \<le> - 16" using c_int_large [of "length data"] by simp
  from murmur3_too_long [OF this] show "MurmurHash3_x86_32 data (c_int (length data)) seed = Inl UB"
    "MurmurHash3_x86_128 data (c_int (length data)) seed = Inl UB" "MurmurHash3_x64_128 data (c_int (length data)) seed = Inl UB" .
next
  have "returns (CityHash64WithSeed data 0 (length data) seed64)"
    unfolding CityHash64WithSeed_def CityHash64WithSeeds_def by (intro returns_intros) simp
  then show "\<exists>h. CityHash64WithSeed data 0 (length data) seed64 = Inr h" by (simp add: returns_def)
qed (use CityHash64_returns [of 0] CityHash128_returns [of 0] CityHash128WithSeed_returns [of 0] in \<open>simp_all add: returns_def\<close>)

theorem hashes_read_key_only_witness:
  "(\<exists>h. MurmurHash3_x86_32 [1, 2, 3, 4, 5] 5 7 = Inr h) \<and> (\<exists>h. MurmurHash3_x64_128 [1, 2, 3, 4, 5] 5 7 = Inr h) \<and>
   MurmurHash3_x64_128 (replicate (2 ^ 31) 65) (- (2 ^ 31)) 7 = Inl UB"
proof -
  have l: "length ([1, 2, 3, 4, 5] :: u8 list) < 2 ^ 31" "c_int (length ([1, 2, 3, 4, 5] :: u8 list)) = 5"
    by (simp_all add: c_int_small)
  have "(\<exists>h. MurmurHash3_x86_32 [1, 2, 3, 4, 5] 5 7 = Inr h) \<and> (\<exists>h. MurmurHash3_x64_128 [1, 2, 3, 4, 5] 5 7 = Inr h)"
    using hashes_read_key_only [of "[1, 2, 3, 4, 5]" 7 0 "(0, 0)", THEN conjunct1, rule_format, OF l(1)] unfolding l(2) by blast
  moreover have "length (replicate (2 ^ 31) (65 :: u8)) = 2 ^ 31" by (rule length_replicate)
  then have "MurmurHash3_x64_128 (replicate (2 ^ 31) 65) (c_int (2 ^ 31)) 7 = Inl UB"
    using hashes_read_key_only [of "replicate (2 ^ 31) 65" 7 0 "(0, 0)"] by auto
  then have "MurmurHash3_x64_128 (replicate (2 ^ 31) 65) (- (2 ^ 31)) 7 = Inl UB" using c_int_large [of "2 ^ 31"] by simp
  ultimately show ?thesis by blast
qed

end
