(* ===== verification/Hasher.thy ===== *)
theory Hasher
  imports Murmur Murmur3 BasicTable
begin

text \<open>
  The hash functor \<open>mhasher\<close> of the tables (\<open>mhash/util/hasher.h\<close>): its own functions and the choice between them and the
  functions of the theories \<open>Murmur\<close> and \<open>Murmur3\<close>. The tables compare keys by their hashes only, so what matters is whether
  the hash of 64-bit keys is injective: with MurmurHash2 it is, with the functor's own function it is not.
\<close>

section \<open>Hash functions of the functor\<close>

definition mhasher_GetHashCode :: "u64 \<Rightarrow> u64" where
  "mhasher_GetHashCode input =
     (let h1 = 40343 * 8 + (input AND 0xFFFF);
          h2 = 40343 * h1 + (drop_bit 16 input AND 0xFFFF);
          h3 = 40343 * h2 + (drop_bit 32 input AND 0xFFFF);
          h4 = 40343 * h3 + drop_bit 48 input in
      rotr64 (40343 * h4) 43)"

text \<open>Elements of a string are extended to 64 bits: without sign for \<open>uint16_t\<close>, with sign for \<open>char\<close>.\<close>

function hash_chars :: "('c \<Rightarrow> u64) \<Rightarrow> 'c list \<Rightarrow> nat \<Rightarrow> nat \<Rightarrow> u64 \<Rightarrow> c_error + u64" where
  "hash_chars ext str len idx hashState =
     (if idx < len then bindR (nthR str idx) (\<lambda>c. hash_chars ext str len (idx + 1) (40343 * hashState + ext c)) else Inr hashState)"
  by pat_completeness auto
termination by (relation "measure (\<lambda>(ext, str, len, idx, h). len - idx)") auto

declare hash_chars.simps [simp del]

definition HashBytes16 :: "u16 list \<Rightarrow> nat \<Rightarrow> c_error + u64" where
  "HashBytes16 str len = bindR (hash_chars ucast str len 0 (of_nat len)) (\<lambda>h. Inr (rotr64 (40343 * h) 6))"

definition mhasher_HashBytes :: "u8 list \<Rightarrow> c_error + u64" where
  "mhasher_HashBytes str =
     bindR (c_strlen str) (\<lambda>len. bindR (hash_chars scast str len 0 (of_nat len)) (\<lambda>h. Inr (rotr64 (40343 * h) 6)))"

text \<open>\<open>addr\<close> is the address of the key.\<close>

definition GetHashCodeMur1 :: "u64 \<Rightarrow> u64 \<Rightarrow> c_error + u64" where
  "GetHashCodeMur1 addr key = bindR (MurmurHash1Aligned addr (u64_bytes key) 8 40343) (\<lambda>h. Inr (ucast h))"

definition GetHashCodeMur2 :: "u64 \<Rightarrow> c_error + u64" where
  "GetHashCodeMur2 key = MurmurHash64B (u64_bytes key) 8 40343"

definition GetHashCodeMur3 :: "u64 \<Rightarrow> c_error + u64" where
  "GetHashCodeMur3 key = bindR (MurmurHash3_x64_128 (u64_bytes key) 8 40343) (\<lambda>(h, _). Inr h)"

definition GetHashCodeCityHash :: "u64 \<Rightarrow> c_error + u64" where
  "GetHashCodeCityHash key = CityHash64WithSeed (u64_bytes key) 0 8 40343"

text \<open>The Murmur functions take the length as an \<open>int\<close>: the result of \<open>strlen\<close> is narrowed.\<close>

definition HashBytesMur1 :: "u64 \<Rightarrow> u8 list \<Rightarrow> c_error + u64" where
  "HashBytesMur1 addr str = bindR (c_strlen str) (\<lambda>n. bindR (MurmurHash1Aligned addr str (c_int n) 40343) (\<lambda>h. Inr (ucast h)))"

definition HashBytesMur2 :: "u8 list \<Rightarrow> c_error + u64" where
  "HashBytesMur2 str = bindR (c_strlen str) (\<lambda>n. MurmurHash64B str (c_int n) 40343)"

definition HashBytesMur3 :: "u8 list \<Rightarrow> c_error + u64" where
  "HashBytesMur3 str = bindR (c_strlen str) (\<lambda>n. bindR (MurmurHash3_x64_128 str (c_int n) 40343) (\<lambda>(h, _). Inr h))"

definition HashBytesCityHash :: "u8 list \<Rightarrow> c_error + u64" where
  "HashBytesCityHash str = bindR (c_strlen str) (\<lambda>n. CityHash64WithSeed str 0 n 40343)"

section \<open>The choice\<close>

datatype hash_func = MHASHER | MURMURHASH1 | MURMURHASH2 | MURMURHASH3 | CITYHASH | STDHASH

datatype hash_key = CString "u8 list" | UInt64 u64 | OtherType

text \<open>\<open>std\<close> is \<open>std::hash\<close>, which is taken when no function is configured.\<close>

definition mhasher_hash :: "hash_func \<Rightarrow> (hash_key \<Rightarrow> u64) \<Rightarrow> u64 \<Rightarrow> hash_key \<Rightarrow> c_error + u64" where
  "mhasher_hash f std addr t =
     (case t of
        CString s \<Rightarrow>
          (case f of MHASHER \<Rightarrow> mhasher_HashBytes s | MURMURHASH1 \<Rightarrow> HashBytesMur1 addr s | MURMURHASH2 \<Rightarrow> HashBytesMur2 s
           | MURMURHASH3 \<Rightarrow> HashBytesMur3 s | CITYHASH \<Rightarrow> HashBytesCityHash s | STDHASH \<Rightarrow> Inr (std t))
      | UInt64 k \<Rightarrow>
          (case f of MHASHER \<Rightarrow> Inr (mhasher_GetHashCode k) | MURMURHASH1 \<Rightarrow> GetHashCodeMur1 addr k | MURMURHASH2 \<Rightarrow> GetHashCodeMur2 k
           | MURMURHASH3 \<Rightarrow> GetHashCodeMur3 k | CITYHASH \<Rightarrow> GetHashCodeCityHash k | STDHASH \<Rightarrow> Inr (std t))
      | OtherType \<Rightarrow> Inr (- 1))"

section \<open>64-bit keys under MurmurHash2\<close>

lemma u64_bytes_half:
  assumes "n \<le> 4"
  shows "(le_bytes (take 4 (drop n (u64_bytes k))) :: u32) = ucast (drop_bit (8 * n) k)"
proof (rule bit_word_eqI)
  fix i assume i: "i < LENGTH(32)"
  have "i div 8 < 4" using i by (simp add: div_less_iff_less_mult)
  moreover from this have "n + i div 8 < 8" "i div 8 < 8 - n" using assms by linarith+
  moreover have "8 * (n + i div 8) + i mod 8 = 8 * n + i" by simp
  ultimately show "bit (le_bytes (take 4 (drop n (u64_bytes k))) :: u32) i = bit (ucast (drop_bit (8 * n) k) :: u32) i"
    using i by (simp add: bit_le_bytes u64_bytes_nth bit_ucast_iff bit_drop_bit_eq add.assoc)
qed

definition mur2 :: "u64 \<Rightarrow> u64" where
  "mur2 k = murmur64B_final (mmix (40343 XOR 8) (ucast k)) (mmix 0 (ucast (drop_bit 32 k)))"

lemma GetHashCodeMur2_val: "GetHashCodeMur2 k = Inr (mur2 k)"
proof -
  have "(le_bytes (take 4 (u64_bytes k)) :: u32) = ucast k" using u64_bytes_half [of 0 k] by simp
  moreover have "(le_bytes (drop 4 (u64_bytes k)) :: u32) = ucast (drop_bit 32 k)" using u64_bytes_half [of 4 k] by simp
  ultimately show ?thesis by (simp add: GetHashCodeMur2_def MurmurHash64B_8 mur2_def)
qed

lemma mur2_inj: "inj mur2"
proof (rule injI)
  fix x y assume "mur2 x = mur2 y"
  then have "(ucast x :: u32) = ucast y" "(ucast (drop_bit 32 x) :: u32) = ucast (drop_bit 32 y)"
    by (simp_all add: mur2_def murmur64B_final_inj mmix_inj)
  then have lo: "bit (ucast x :: u32) n = bit (ucast y :: u32) n"
    and hi: "bit (ucast (drop_bit 32 x) :: u32) n = bit (ucast (drop_bit 32 y) :: u32) n" for n by simp_all
  show "x = y"
  proof (rule bit_word_eqI)
    fix n assume "n < LENGTH(64)"
    then show "bit x n = bit y n" using lo [of n] hi [of "n - 32"] by (cases "n < 32") (auto simp: bit_ucast_iff bit_drop_bit_eq)
  qed
qed

section \<open>64-bit keys under the functor's own function\<close>

lemma low16: "unat (x AND 0xFFFF :: u64) = unat x mod 65536"
proof -
  have "x AND 0xFFFF = take_bit 16 x" by (simp add: take_bit_eq_mask mask_numeral)
  then have "unat (x AND 0xFFFF) = take_bit 16 (unat x)" by (simp only: unsigned_take_bit_eq)
  then show ?thesis by (simp add: take_bit_eq_mod)
qed

lemma high_bits: "unat (drop_bit n x :: u64) = unat x div 2 ^ n"
  using unsigned_drop_bit_eq [of n x, where 'a = nat] drop_bit_eq_div [of n "take_bit 64 (unat x)"] unat_bound_u64 [of x]
  by (simp only: len_num0 take_bit_nat_eq_self) (simp add: take_bit_nat_eq_self)

lemma mhasher_GetHashCode_digits:
  "mhasher_GetHashCode x = rotr64 (40343 * (40343 * (40343 * (40343 * (40343 * 8 + of_nat (unat x mod 65536)) +
     of_nat (unat x div 65536 mod 65536)) + of_nat (unat x div 4294967296 mod 65536)) + of_nat (unat x div 281474976710656))) 43"
proof -
  have w: "y = of_nat (unat y)" for y :: u64 by simp
  have "x AND 0xFFFF = of_nat (unat x mod 65536)" using w [of "x AND 0xFFFF"] by (simp only: low16)
  moreover have "drop_bit 16 x AND 0xFFFF = of_nat (unat x div 65536 mod 65536)"
    using w [of "drop_bit 16 x AND 0xFFFF"] by (simp only: low16 high_bits) simp
  moreover have "drop_bit 32 x AND 0xFFFF = of_nat (unat x div 4294967296 mod 65536)"
    using w [of "drop_bit 32 x AND 0xFFFF"] by (simp only: low16 high_bits) simp
  moreover have "drop_bit 48 x = of_nat (unat x div 281474976710656)"
    using w [of "drop_bit 48 x"] by (simp only: high_bits) simp
  ultimately show ?thesis by (simp only: mhasher_GetHashCode_def Let_def)
qed

text \<open>Adding one to the lowest sixteen bits and taking 40343 from the next sixteen does not change the hash.\<close>

lemma mhasher_GetHashCode_shift:
  assumes "k AND 0xFFFF \<noteq> 0xFFFF" "40343 \<le> drop_bit 16 k AND 0xFFFF"
  shows "mhasher_GetHashCode (k + 1 - push_bit 16 40343) = mhasher_GetHashCode k" "k + 1 - push_bit 16 40343 \<noteq> k"
proof -
  let ?k = "k + 1 - push_bit 16 40343"
  define A B C where "A = unat k mod 65536" and "B = unat k div 65536 mod 65536" and "C = unat k div 65536 div 65536"
  define E where "E = B - 40343"
  define D where "D = E + 65536 * C"
  have B: "40343 \<le> B" "B < 65536"
    using assms(2) by (simp_all add: B_def word_le_nat_alt low16 high_bits)
  have "A \<noteq> 65535"
  proof
    assume "A = 65535"
    then have "unat (k AND 0xFFFF) = unat (0xFFFF :: u64)" by (simp add: A_def low16)
    then show False using assms(1) by (simp only: word_unat_eq_iff)
  qed
  moreover have "A < 65536" by (simp add: A_def)
  ultimately have A: "A + 1 < 65536" by simp
  have k: "unat k = A + 65536 * (B + 65536 * C)" unfolding A_def B_def C_def by simp
  have k': "unat ?k = (A + 1) + 65536 * D"
  proof -
    have e: "?k = of_nat ((A + 1) + 65536 * D)"
    proof -
      have "k = of_nat (A + 65536 * (B + 65536 * C))" using arg_cong [OF k, of "of_nat :: nat \<Rightarrow> u64"] by simp
      moreover have "push_bit 16 40343 = (of_nat (65536 * 40343) :: u64)" by (simp add: push_bit_eq_mult)
      moreover have "B = E + 40343" using B(1) by (simp add: E_def)
      ultimately show ?thesis by (simp add: D_def algebra_simps)
    qed
    have "(A + 1) + 65536 * D \<le> unat k" using B k by (simp add: D_def E_def)
    then show ?thesis using unat_bound_u64 [of k] unfolding e by (intro unat_of_nat_u64) linarith
  qed
  have d: "unat ?k mod 65536 = A + 1" "unat ?k div 65536 = D" unfolding k' using A by simp_all
  have "E < 65536" using B by (simp add: E_def)
  then have d2: "D mod 65536 = E" "D div 65536 = C" unfolding D_def by simp_all
  have q: "n div 4294967296 = n div 65536 div 65536" "n div 281474976710656 = n div 65536 div 65536 div 65536" for n :: nat
    by (simp_all flip: div_mult2_eq)
  have "(of_nat B :: u64) = of_nat E + 40343" using B(1) by (simp add: of_nat_diff E_def)
  then have "40343 * (40343 * 8 + of_nat (A + 1)) + of_nat E = 40343 * (40343 * 8 + of_nat A) + (of_nat B :: u64)" by (simp add: algebra_simps)
  then show "mhasher_GetHashCode ?k = mhasher_GetHashCode k"
    unfolding mhasher_GetHashCode_digits q d d2 A_def [symmetric] C_def [symmetric] B_def [symmetric] by (simp only:)
  show "?k \<noteq> k" using d(1) by (auto simp: A_def)
qed

section \<open>Properties\<close>

text \<open>
  C34: with MurmurHash2 the functor gives every 64-bit key a hash of its own. A \<open>BasicHashTable\<close> with this hash and the default
  \<open>HASH_LEVEL\<close> starts in a state in which it is a map.
\<close>

theorem mhasher_mur2_injective:
  "\<exists>H. (\<forall>k. mhasher_hash MURMURHASH2 std addr (UInt64 k) = Inr (H k)) \<and> inj H \<and>
     (\<exists>t :: (u64, 'v) basic_table. BasicHashTable 4 8 = Some t \<and> basic_inv H 4 t \<and> basic_lookup H 4 t = Map.empty)"
proof -
  obtain t :: "(u64, 'v) basic_table" where t: "BasicHashTable 4 8 = Some t" using large_table_levels [of 8 4] by (simp add: BasicHashTable_def)
  have "basic_inv mur2 4 t" "basic_lookup mur2 4 t = Map.empty"
    using BasicHashTable_inv [OF _ _ _ t, of mur2] by (auto simp: basic_lookup_def fun_eq_iff)
  moreover have "mhasher_hash MURMURHASH2 std addr (UInt64 k) = Inr (mur2 k)" for k by (simp add: mhasher_hash_def GetHashCodeMur2_val)
  ultimately show ?thesis using t mur2_inj by blast
qed

text \<open>
  C35: the functor's own function gives different 64-bit keys the same hash, and a \<open>BasicHashTable\<close> then takes one for the other. If
  the lowest sixteen bits of \<open>k\<close> are not all ones and the next sixteen are at least 40343, then \<open>k + 1 - (40343 << 16)\<close> is another
  key with the same hash. After \<open>k\<close> was inserted, an insertion of the other key is refused, \<open>Get\<close> of it fails its
  assertion, and an update of it changes the value of \<open>k\<close>.
\<close>

theorem mhasher_collision:
  assumes "k AND 0xFFFF \<noteq> 0xFFFF" "40343 \<le> drop_bit 16 k AND 0xFFFF" "k' = k + 1 - push_bit 16 40343"
    "basic_inv mhasher_GetHashCode L t" "basic_lookup mhasher_GetHashCode L t k = None"
  shows "k' \<noteq> k \<and> mhasher_hash MHASHER std addr (UInt64 k') = mhasher_hash MHASHER std addr (UInt64 k) \<and>
    (\<exists>t1 t1' t2. basic_Insert mhasher_GetHashCode L k v t = Inr (True, t1) \<and>
       basic_Insert mhasher_GetHashCode L k' v' t1 = Inr (False, t1') \<and> basic_lookup mhasher_GetHashCode L t1' = basic_lookup mhasher_GetHashCode L t1 \<and>
       basic_Get mhasher_GetHashCode L k' t1 = Inl AssertFail \<and>
       basic_Update mhasher_GetHashCode L k' v' t1 = Inr (True, t2) \<and> basic_Get mhasher_GetHashCode L k t2 = Inr (k, v'))"
proof (intro conjI)
  have H: "mhasher_GetHashCode k' = mhasher_GetHashCode k" and ne: "k' \<noteq> k" using mhasher_GetHashCode_shift [OF assms(1,2)] assms(3) by simp_all
  then show "k' \<noteq> k" "mhasher_hash MHASHER std addr (UInt64 k') = mhasher_hash MHASHER std addr (UInt64 k)"
    by (simp_all add: mhasher_hash_def)
  have "basic_map mhasher_GetHashCode L t (mhasher_GetHashCode k) = None" using assms(5) by (simp add: basic_lookup_def)
  then obtain t1 where t1: "basic_Insert mhasher_GetHashCode L k v t = Inr (True, t1)" "basic_inv mhasher_GetHashCode L t1"
    "basic_map mhasher_GetHashCode L t1 (mhasher_GetHashCode k) = Some (k, v)" using basic_Insert_inv [OF assms(4), of k v] by auto
  obtain t1' where i2: "basic_Insert mhasher_GetHashCode L k' v' t1 = Inr (False, t1')" "basic_lookup mhasher_GetHashCode L t1' = basic_lookup mhasher_GetHashCode L t1"
    using basic_Insert_inv [OF t1(2), of k' v'] t1(3) H by (auto simp: basic_lookup_def [abs_def])
  have g1: "basic_Get mhasher_GetHashCode L k' t1 = Inl AssertFail"
    using basic_locate_find [OF t1(2), of k'] t1(3) H ne by (auto simp: basic_Get_def)
  obtain t2 where t2: "basic_Update mhasher_GetHashCode L k' v' t1 = Inr (True, t2)" "basic_inv mhasher_GetHashCode L t2"
    "basic_map mhasher_GetHashCode L t2 (mhasher_GetHashCode k) = Some (k, v')" using basic_Update_inv [OF t1(2), of k' v'] t1(3) H by auto
  have "basic_Get mhasher_GetHashCode L k t2 = Inr (k, v')" using basic_locate_find [OF t2(2), of k] t2(3) by (auto simp: basic_Get_def)
  then show "\<exists>t1 t1' t2. basic_Insert mhasher_GetHashCode L k v t = Inr (True, t1) \<and>
       basic_Insert mhasher_GetHashCode L k' v' t1 = Inr (False, t1') \<and> basic_lookup mhasher_GetHashCode L t1' = basic_lookup mhasher_GetHashCode L t1 \<and>
       basic_Get mhasher_GetHashCode L k' t1 = Inl AssertFail \<and>
       basic_Update mhasher_GetHashCode L k' v' t1 = Inr (True, t2) \<and> basic_Get mhasher_GetHashCode L k t2 = Inr (k, v')"
    using t1(1) i2 g1 t2(1) by blast
qed

theorem mhasher_collision_witness:
  "\<exists>t t1. BasicHashTable 4 8 = Some t \<and> basic_Insert mhasher_GetHashCode 4 0x9D970000 (1 :: nat) t = Inr (True, t1) \<and>
     basic_Get mhasher_GetHashCode 4 1 t1 = Inl AssertFail"
proof -
  obtain t :: "(u64, nat) basic_table" where t: "BasicHashTable 4 8 = Some t" using large_table_levels [of 8 4] by (simp add: BasicHashTable_def)
  have inv: "basic_inv mhasher_GetHashCode 4 t" "basic_lookup mhasher_GetHashCode 4 t 0x9D970000 = None"
    using BasicHashTable_inv [OF _ _ _ t, of mhasher_GetHashCode] by (auto simp: basic_lookup_def)
  show ?thesis using mhasher_collision [of "0x9D970000" 1 4 t, OF _ _ _ inv, of "\<lambda>_. 0" 0 1 2] t by auto
qed

end
