(* ===== verification/BzWords.thy ===== *)
theory BzWords
  imports ByteReads
begin

text \<open>
  The packed words of BzTree nodes (\<open>bztree/bztree.h\<close>): the status word of a node and the metadata of a record, and the
  comparison of keys. A null key is \<open>None\<close>. The theory shows what each setter does to each field, that a reservation of space does not
  carry from one field into another while the fields do not overflow, and when the comparison of keys is an order.
\<close>

section \<open>The status word\<close>

definition kFrozenMask :: u64 where "kFrozenMask = push_bit 60 1"
definition kRecordCountMask :: u64 where "kRecordCountMask = push_bit 44 0xFFFF"
definition kBlockSizeMask :: u64 where "kBlockSizeMask = push_bit 22 0x3FFFFF"
definition kDeleteSizeMask :: u64 where "kDeleteSizeMask = 0x3FFFFF"

definition Freeze_word :: "u64 \<Rightarrow> u64" where
  "Freeze_word w = (w OR kFrozenMask)"

definition IsFrozen :: "u64 \<Rightarrow> bool" where
  "IsFrozen w \<longleftrightarrow> (w AND kFrozenMask) > 0"

definition GetRecordCount :: "u64 \<Rightarrow> u16" where
  "GetRecordCount w = ucast (drop_bit 44 (w AND kRecordCountMask))"

definition SetRecordCount :: "u16 \<Rightarrow> u64 \<Rightarrow> u64" where
  "SetRecordCount n w = ((w AND NOT kRecordCountMask) OR push_bit 44 (ucast n))"

definition GetBlockSize :: "u64 \<Rightarrow> u32" where
  "GetBlockSize w = ucast (drop_bit 22 (w AND kBlockSizeMask))"

definition SetBlockSize :: "u32 \<Rightarrow> u64 \<Rightarrow> u64" where
  "SetBlockSize n w = ((w AND NOT kBlockSizeMask) OR push_bit 22 (ucast n))"

definition GetDeletedSize :: "u64 \<Rightarrow> u32" where
  "GetDeletedSize w = ucast (w AND kDeleteSizeMask)"

definition SetDeleteSize :: "u32 \<Rightarrow> u64 \<Rightarrow> u64" where
  "SetDeleteSize n w = ((w AND NOT kDeleteSizeMask) OR ucast n)"

definition status_PrepareForInsert :: "u32 \<Rightarrow> u64 \<Rightarrow> c_error + u64" where
  "status_PrepareForInsert n w = (if n > 0 then Inr (w + (push_bit 44 1 + push_bit 22 (ucast n))) else Inl Exited)"

section \<open>Record metadata\<close>

definition kVisibleMask :: u64 where "kVisibleMask = push_bit 60 1"
definition kOffsetMask :: u64 where "kOffsetMask = push_bit 32 0xFFFFFFF"
definition kKeyLengthMask :: u64 where "kKeyLengthMask = push_bit 16 0xFFFF"
definition kTotalLengthMask :: u64 where "kTotalLengthMask = 0xFFFF"
definition kAllocationEpochMask :: u64 where "kAllocationEpochMask = push_bit 32 0x7FFFFFF"

definition IsVacant :: "u64 \<Rightarrow> bool" where
  "IsVacant meta \<longleftrightarrow> meta = 0"

definition GetKeyLength :: "u64 \<Rightarrow> u16" where
  "GetKeyLength meta = ucast (drop_bit 16 (meta AND kKeyLengthMask))"

definition PadKeyLength :: "u16 \<Rightarrow> u16" where
  "PadKeyLength n = ucast ((ucast n + 8 - 1) div 8 * 8 :: u64)"

definition GetPaddedKeyLength :: "u64 \<Rightarrow> u16" where
  "GetPaddedKeyLength meta = PadKeyLength (GetKeyLength meta)"

definition GetTotalLength :: "u64 \<Rightarrow> u16" where
  "GetTotalLength meta = ucast (meta AND kTotalLengthMask)"

definition GetOffset :: "u64 \<Rightarrow> u32" where
  "GetOffset meta = ucast (drop_bit 32 (meta AND kOffsetMask))"

definition OffsetIsEpoch :: "u64 \<Rightarrow> bool" where
  "OffsetIsEpoch meta \<longleftrightarrow> drop_bit 27 (GetOffset meta) = 1"

definition SetOffset :: "u32 \<Rightarrow> u64 \<Rightarrow> u64" where
  "SetOffset n meta = ((meta AND NOT kOffsetMask) OR push_bit 32 (ucast n))"

definition IsVisible :: "u64 \<Rightarrow> bool" where
  "IsVisible meta \<longleftrightarrow> (meta AND kVisibleMask) > 0"

definition SetVisible :: "bool \<Rightarrow> u64 \<Rightarrow> u64" where
  "SetVisible v meta = (if v then meta OR kVisibleMask else meta AND NOT kVisibleMask)"

text \<open>\<open>g\<close> is the global epoch.\<close>

definition IsInserting :: "u64 \<Rightarrow> u64 \<Rightarrow> bool" where
  "IsInserting g meta \<longleftrightarrow> \<not> IsVisible meta \<and> OffsetIsEpoch meta \<and> drop_bit 32 (meta AND kAllocationEpochMask) = g"

definition meta_PrepareForInsert :: "u64 \<Rightarrow> u64 \<Rightarrow> c_error + u64" where
  "meta_PrepareForInsert g meta =
     bindR (assertR (IsVacant meta)) (\<lambda>_.
     bindR (assertR (g < push_bit 27 1)) (\<lambda>_.
       let m = push_bit 59 1 OR push_bit 32 g in bindR (assertR (IsInserting g m)) (\<lambda>_. Inr m)))"

definition FinalizeForInsert :: "u64 \<Rightarrow> u64 \<Rightarrow> u64 \<Rightarrow> c_error + u64" where
  "FinalizeForInsert offset key_len total_len =
     (let m = (if offset = 0 then push_bit 32 offset OR push_bit 60 0 OR push_bit 16 key_len OR total_len
               else push_bit 32 offset OR kVisibleMask OR push_bit 16 key_len OR total_len) in
      bindR (assertR (ucast (GetKeyLength m) = key_len)) (\<lambda>_. Inr m))"

section \<open>Keys\<close>

text \<open>\<open>my_memcmp\<close> compares \<open>char\<close>, which is signed; \<open>memcmp\<close> compares bytes without sign. Only the sign of the result is used.\<close>

fun my_memcmp :: "u8 list \<Rightarrow> u8 list \<Rightarrow> int" where
  "my_memcmp (a # as) (b # bs) = (if a \<noteq> b then sint a - sint b else my_memcmp as bs)"
| "my_memcmp _ _ = 0"

fun c_memcmp :: "u8 list \<Rightarrow> u8 list \<Rightarrow> int" where
  "c_memcmp (a # as) (b # bs) = (if a \<noteq> b then uint a - uint b else c_memcmp as bs)"
| "c_memcmp _ _ = 0"

text \<open>
  \<open>return size1 - size2\<close> subtracts two \<open>uint32_t\<close> and converts to \<open>int\<close>. All callers pass lengths of 16 bits, for which this is the difference.
\<close>

definition KeyCompare :: "u8 list option \<Rightarrow> u8 list option \<Rightarrow> int" where
  "KeyCompare key1 key2 =
     (case key1 of None \<Rightarrow> - 1
      | Some k1 \<Rightarrow>
          (case key2 of None \<Rightarrow> 1
           | Some k2 \<Rightarrow>
               let n = min (length k1) (length k2);
                   cmp = (if n < 16 then my_memcmp (take n k1) (take n k2) else c_memcmp (take n k1) (take n k2)) in
               if cmp = 0 then int (length k1) - int (length k2) else cmp))"

definition KeyInRange :: "u8 list option \<Rightarrow> u8 list option \<Rightarrow> u8 list option \<Rightarrow> int" where
  "KeyInRange key left right = (if KeyCompare left key > 0 then - 1 else if KeyCompare key right \<le> 0 then 0 else 1)"

section \<open>Fields\<close>

text \<open>The fields as numbers.\<close>

lemma and_field: "drop_bit n (w AND push_bit n (mask k)) = (take_bit k (drop_bit n w) :: 'a::len word)"
  by (rule bit_word_eqI) (auto simp: bit_simps dest: bit_imp_le_length)

lemma unat_field: "n < 64 \<Longrightarrow> unat (take_bit k (drop_bit n w) :: u64) = unat w div 2 ^ n mod 2 ^ k"
proof -
  assume "n < 64"
  have "unat (take_bit k (drop_bit n w)) = take_bit k (unat (drop_bit n w))" by (simp add: unsigned_take_bit_eq)
  also have "unat (drop_bit n w) = drop_bit n (unat w)"
    using unsigned_drop_bit_eq [of n w, where 'a = nat] unat_bound_u64 [of w] by (simp add: take_bit_nat_eq_self)
  finally show ?thesis by (simp add: take_bit_eq_mod drop_bit_eq_div)
qed

lemma mask_numerals: "0xFFFF = (mask 16 :: u64)" "0x3FFFFF = (mask 22 :: u64)" "0xFFFFFFF = (mask 28 :: u64)" "0x7FFFFFF = (mask 27 :: u64)"
  by (simp_all add: mask_numeral)

lemma unat_RecordCount: "unat (GetRecordCount w) = unat w div 2 ^ 44 mod 2 ^ 16"
proof -
  have "unat (ucast (take_bit 16 (drop_bit 44 w)) :: u16) = unat (take_bit 16 (drop_bit 44 w))"
    by (simp add: unsigned_ucast_eq unsigned_take_bit_eq)
  then show ?thesis unfolding GetRecordCount_def kRecordCountMask_def mask_numerals and_field using unat_field [of 44 16 w] by simp
qed

lemma unat_BlockSize: "unat (GetBlockSize w) = unat w div 2 ^ 22 mod 2 ^ 22"
proof -
  have "unat (ucast (take_bit 22 (drop_bit 22 w)) :: u32) = unat (take_bit 22 (drop_bit 22 w))"
    by (simp add: unsigned_ucast_eq unsigned_take_bit_eq)
  then show ?thesis unfolding GetBlockSize_def kBlockSizeMask_def mask_numerals and_field using unat_field [of 22 22 w] by simp
qed


lemma bit_below: "unat (x :: 'a::len word) < 2 ^ k \<Longrightarrow> bit x j \<Longrightarrow> j < k"
proof -
  assume *: "unat x < 2 ^ k" "bit x j"
  then have "take_bit k (unat x) = unat x" by (simp add: take_bit_nat_eq_self)
  moreover have "bit (unat x) j" using *(2) by (simp add: bit_unsigned_iff bit_imp_le_length)
  ultimately show "j < k" by (metis bit_take_bit_iff)
qed

lemma bit_above: "unat (x :: 'a::len word) < 2 ^ k \<Longrightarrow> k \<le> j \<Longrightarrow> \<not> bit x j"
  using bit_below by (metis not_less)

text \<open>Every mask by its bits, and every field by the bits of the word.\<close>

lemma bit_masks:
  "bit kFrozenMask n \<longleftrightarrow> n = 60" "bit kVisibleMask n \<longleftrightarrow> n = 60"
  "bit kRecordCountMask n \<longleftrightarrow> 44 \<le> n \<and> n < 60" "bit kBlockSizeMask n \<longleftrightarrow> 22 \<le> n \<and> n < 44" "bit kDeleteSizeMask n \<longleftrightarrow> n < 22"
  "bit kOffsetMask n \<longleftrightarrow> 32 \<le> n \<and> n < 60" "bit kKeyLengthMask n \<longleftrightarrow> 16 \<le> n \<and> n < 32" "bit kTotalLengthMask n \<longleftrightarrow> n < 16"
  unfolding kFrozenMask_def kVisibleMask_def kRecordCountMask_def kBlockSizeMask_def kDeleteSizeMask_def kOffsetMask_def kKeyLengthMask_def
    kTotalLengthMask_def mask_numerals bit_push_bit_iff bit_1_iff bit_mask_iff by auto

lemma frozen_bit: "IsFrozen w \<longleftrightarrow> bit w 60"
proof -
  have "w AND kFrozenMask = (if bit w 60 then kFrozenMask else 0)"
    by (rule bit_word_eqI) (auto simp: bit_simps bit_masks)
  moreover have "kFrozenMask \<noteq> 0" by (simp add: kFrozenMask_def)
  ultimately show ?thesis by (auto simp: IsFrozen_def word_gt_0 split: if_splits)
qed

lemma visible_bit: "IsVisible m \<longleftrightarrow> bit m 60"
  using frozen_bit [of m] by (simp add: IsFrozen_def kFrozenMask_def IsVisible_def kVisibleMask_def)

lemma bit_fields:
  "bit (GetRecordCount w) n \<longleftrightarrow> n < 16 \<and> bit w (44 + n)" "bit (GetBlockSize w) n \<longleftrightarrow> n < 22 \<and> bit w (22 + n)"
  "bit (GetDeletedSize w) n \<longleftrightarrow> n < 22 \<and> bit w n" "bit (GetOffset w) n \<longleftrightarrow> n < 28 \<and> bit w (32 + n)"
  "bit (GetKeyLength w) n \<longleftrightarrow> n < 16 \<and> bit w (16 + n)" "bit (GetTotalLength w) n \<longleftrightarrow> n < 16 \<and> bit w n"
  unfolding GetRecordCount_def GetBlockSize_def GetDeletedSize_def GetOffset_def GetKeyLength_def GetTotalLength_def
  by (auto simp: bit_simps bit_masks)

lemma unat_DeletedSize: "unat (GetDeletedSize w) = unat w mod 2 ^ 22"
proof -
  have "unat (GetDeletedSize w) = unat (take_bit 22 w)"
    unfolding GetDeletedSize_def kDeleteSizeMask_def mask_numerals
    by (simp add: take_bit_eq_mask unsigned_ucast_eq unsigned_take_bit_eq flip: take_bit_eq_mask)
  then show ?thesis using unat_field [of 0 22 w] by simp
qed

lemma frozen_div: "IsFrozen w \<longleftrightarrow> odd (unat w div 2 ^ 60)"
proof -
  have "bit (unat w) 60 = bit w 60" by (simp add: bit_unsigned_iff)
  then show ?thesis unfolding frozen_bit by (simp only: bit_iff_odd [of "unat w"])
qed

lemmas word_fields = SetRecordCount_def SetBlockSize_def SetDeleteSize_def SetVisible_def Freeze_word_def

lemma SetDeleteSize_fields:
  assumes "unat n < 2 ^ 22"
  shows "GetDeletedSize (SetDeleteSize n w) = n" "GetBlockSize (SetDeleteSize n w) = GetBlockSize w"
    "GetRecordCount (SetDeleteSize n w) = GetRecordCount w" "IsFrozen (SetDeleteSize n w) \<longleftrightarrow> IsFrozen w"
  unfolding frozen_bit by (auto intro!: bit_word_eqI simp: bit_fields word_fields bit_simps bit_masks bit_above [OF assms] dest: bit_below [OF assms])

lemma SetBlockSize_fields:
  assumes "unat n < 2 ^ 22"
  shows "GetBlockSize (SetBlockSize n w) = n" "GetDeletedSize (SetBlockSize n w) = GetDeletedSize w"
    "GetRecordCount (SetBlockSize n w) = GetRecordCount w" "IsFrozen (SetBlockSize n w) \<longleftrightarrow> IsFrozen w"
  unfolding frozen_bit by (auto intro!: bit_word_eqI simp: bit_fields word_fields bit_simps bit_masks bit_above [OF assms] dest: bit_below [OF assms])

lemma SetRecordCount_fields:
  "GetRecordCount (SetRecordCount c w) = c" "GetDeletedSize (SetRecordCount c w) = GetDeletedSize w"
  "GetBlockSize (SetRecordCount c w) = GetBlockSize w" "IsFrozen (SetRecordCount c w) \<longleftrightarrow> IsFrozen w"
  unfolding frozen_bit by (auto intro!: bit_word_eqI simp: bit_fields word_fields bit_simps bit_masks dest: bit_imp_le_length)

lemma Freeze_fields:
  "IsFrozen (Freeze_word w)" "GetRecordCount (Freeze_word w) = GetRecordCount w" "GetBlockSize (Freeze_word w) = GetBlockSize w"
  "GetDeletedSize (Freeze_word w) = GetDeletedSize w"
  unfolding frozen_bit by (auto intro!: bit_word_eqI simp: bit_fields word_fields bit_simps bit_masks)

lemma SetVisible_fields:
  "IsVisible (SetVisible v m) \<longleftrightarrow> v" "GetOffset (SetVisible v m) = GetOffset m" "GetKeyLength (SetVisible v m) = GetKeyLength m"
  "GetTotalLength (SetVisible v m) = GetTotalLength m"
  unfolding visible_bit by (auto intro!: bit_word_eqI simp: bit_fields word_fields bit_simps bit_masks)

lemma prepare_arith:
  fixes u n :: nat
  assumes "u < 2 ^ 64" "u div 2 ^ 22 mod 2 ^ 22 + n < 2 ^ 22" "u div 2 ^ 44 mod 2 ^ 16 + 1 < 2 ^ 16"
  defines "v \<equiv> u + (2 ^ 44 + n * 2 ^ 22)"
  shows "v < 2 ^ 64" "v mod 2 ^ 22 = u mod 2 ^ 22" "v div 2 ^ 22 mod 2 ^ 22 = u div 2 ^ 22 mod 2 ^ 22 + n"
    "v div 2 ^ 44 mod 2 ^ 16 = u div 2 ^ 44 mod 2 ^ 16 + 1" "v div 2 ^ 60 = u div 2 ^ 60"
proof -
  let ?x = "u div 2 ^ 22" and ?y = "u div 2 ^ 44"
  have xy: "?x div 2 ^ 22 = ?y" "v div 2 ^ 22 div 2 ^ 22 = v div 2 ^ 44" "?y div 2 ^ 16 = u div 2 ^ 60"
    "v div 2 ^ 44 div 2 ^ 16 = v div 2 ^ 60" by (simp_all only: div_mult2_eq [symmetric] power_add [symmetric]) simp_all
  have "v = u + (2 ^ 22 + n) * 2 ^ 22" by (simp add: v_def algebra_simps)
  then have vx: "v div 2 ^ 22 = ?x + (2 ^ 22 + n)" and vm: "v mod 2 ^ 22 = u mod 2 ^ 22" by (simp_all only: div_mult_self1 mod_mult_self1) simp_all
  from vm show "v mod 2 ^ 22 = u mod 2 ^ 22" .
  have shift: "y * b + r = x \<Longrightarrow> x + (b + n) = r + n + (y + 1) * b" for x y b r :: nat by (simp add: algebra_simps)
  have shift1: "y * b + r = x \<Longrightarrow> x + 1 = r + 1 + y * b" for x y b r :: nat by simp
  have "?x + (2 ^ 22 + n) = (?x mod 2 ^ 22 + n) + (?y + 1) * 2 ^ 22"
    by (rule shift) (rule div_mult_mod_eq [of ?x "2 ^ 22", unfolded xy(1)])
  then have vx': "v div 2 ^ 22 = (?x mod 2 ^ 22 + n) + (?y + 1) * 2 ^ 22" using vx by simp
  show "v div 2 ^ 22 mod 2 ^ 22 = ?x mod 2 ^ 22 + n" unfolding vx' using assms(2) by (simp only: mod_mult_self1 mod_less)
  have "v div 2 ^ 22 div 2 ^ 22 = ?y + 1" unfolding vx' using assms(2) by simp
  then have vy: "v div 2 ^ 44 = ?y + 1" using xy(2) by simp
  have "?y + 1 = (?y mod 2 ^ 16 + 1) + (u div 2 ^ 60) * 2 ^ 16"
    using shift1 [OF div_mult_mod_eq [of ?y "2 ^ 16", unfolded xy(3)]] .
  then have vy': "v div 2 ^ 44 = (?y mod 2 ^ 16 + 1) + (u div 2 ^ 60) * 2 ^ 16" using vy by simp
  show "v div 2 ^ 44 mod 2 ^ 16 = ?y mod 2 ^ 16 + 1" unfolding vy' using assms(3) by (simp only: mod_mult_self1 mod_less)
  have "v div 2 ^ 44 div 2 ^ 16 = u div 2 ^ 60" unfolding vy' using assms(3) by simp
  then show *: "v div 2 ^ 60 = u div 2 ^ 60" using xy(4) by simp
  have "u div 2 ^ 60 < 2 ^ 4" using assms(1) by (simp add: div_less_iff_less_mult)
  then have "v div 2 ^ 60 < 2 ^ 4" using * by simp
  then show "v < 2 ^ 64" by (simp add: div_less_iff_less_mult)
qed

text \<open>A reservation that fits changes the count and the block size, and nothing else.\<close>

lemma status_PrepareForInsert_fields:
  assumes "status_PrepareForInsert n w = Inr w'" "unat (GetRecordCount w) + 1 < 2 ^ 16" "unat (GetBlockSize w) + unat n < 2 ^ 22"
  shows "unat (GetRecordCount w') = unat (GetRecordCount w) + 1" "unat (GetBlockSize w') = unat (GetBlockSize w) + unat n"
    "GetDeletedSize w' = GetDeletedSize w" "IsFrozen w' \<longleftrightarrow> IsFrozen w"
proof -
  let ?d = "push_bit 44 1 + push_bit 22 (ucast n) :: u64"
  have w': "w' = w + ?d" using assms(1) by (simp add: status_PrepareForInsert_def split: if_splits)
  have n: "unat n < 2 ^ 22" using assms(3) by simp
  have "unat (ucast n :: u64) = unat n" by (simp add: unsigned_ucast_eq take_bit_nat_eq_self less_le_trans [OF unsigned_less])
  then have d: "unat ?d = 2 ^ 44 + unat n * 2 ^ 22"
    using n by (simp add: unat_word_ariths push_bit_eq_mult)
  note * = prepare_arith [OF unat_bound_u64 assms(3) [unfolded unat_BlockSize] assms(2) [unfolded unat_RecordCount]]
  have u: "unat w' = unat w + (2 ^ 44 + unat n * 2 ^ 22)"
    using *(1) d unfolding w' by (simp add: unat_word_ariths)
  show "unat (GetRecordCount w') = unat (GetRecordCount w) + 1" unfolding unat_RecordCount u by (rule *(4))
  show "unat (GetBlockSize w') = unat (GetBlockSize w) + unat n" unfolding unat_BlockSize u by (rule *(3))
  show "IsFrozen w' \<longleftrightarrow> IsFrozen w" unfolding frozen_div u *(5) ..
  have "unat (GetDeletedSize w') = unat (GetDeletedSize w)" unfolding unat_DeletedSize u by (rule *(2))
  then show "GetDeletedSize w' = GetDeletedSize w" by (simp only: word_unat_eq_iff)
qed

text \<open>The metadata that is written when a record is complete.\<close>

lemma FinalizeForInsert_fields:
  assumes "unat off < 2 ^ 28" "off \<noteq> 0" "unat k < 2 ^ 16" "unat t < 2 ^ 16"
  obtains m where "FinalizeForInsert off k t = Inr m" "IsVisible m" "GetOffset m = ucast off" "GetKeyLength m = ucast k"
    "GetTotalLength m = ucast t"
proof -
  define m where "m = push_bit 32 off OR kVisibleMask OR push_bit 16 k OR t"
  note above = bit_above [OF assms(1)] bit_above [OF assms(3)] bit_above [OF assms(4)]
  note below = bit_below [OF assms(1)] bit_below [OF assms(3)] bit_below [OF assms(4)]
  have v: "IsVisible m" unfolding visible_bit m_def by (auto simp: bit_simps bit_masks)
  have o: "GetOffset m = ucast off"
    by (rule bit_word_eqI) (auto simp: bit_fields m_def bit_simps bit_masks above dest: below)
  have k: "GetKeyLength m = ucast k"
    by (rule bit_word_eqI) (auto simp: bit_fields m_def bit_simps bit_masks above dest: below)
  have t: "GetTotalLength m = ucast t"
    by (rule bit_word_eqI) (auto simp: bit_fields m_def bit_simps bit_masks above dest: below)
  have "ucast (ucast k :: u16) = k" by (rule bit_word_eqI) (auto simp: bit_simps dest: below)
  then have "FinalizeForInsert off k t = Inr m" using assms(2) k by (simp add: FinalizeForInsert_def m_def)
  from that [OF this v o k t] show ?thesis .
qed

lemma meta_PrepareForInsert_Inr:
  assumes "g < 2 ^ 27"
  shows "meta_PrepareForInsert g 0 = Inr (push_bit 59 1 OR push_bit 32 g)"
proof -
  define p where "p = (push_bit 59 1 :: u64)"
  have p: "bit p n \<longleftrightarrow> n = 59" for n unfolding p_def bit_push_bit_iff bit_1_iff by auto
  let ?m = "p OR push_bit 32 g :: u64"
  have "unat g < 2 ^ 27" using assms by (simp add: word_less_nat_alt)
  note gb = bit_above [OF this] and gd = bit_below [OF this]
  have "\<not> IsVisible ?m" unfolding visible_bit by (auto simp: bit_simps p gb)
  moreover have "drop_bit 27 (GetOffset ?m) = 1"
    by (rule bit_word_eqI) (auto simp: bit_fields bit_simps p gb bit_1_iff dest: gd)
  moreover have "drop_bit 32 (?m AND kAllocationEpochMask) = g" unfolding kAllocationEpochMask_def mask_numerals
    by (rule bit_word_eqI) (auto simp: bit_simps p gb dest: gd)
  ultimately have "IsInserting g ?m" by (simp only: IsInserting_def OffsetIsEpoch_def simp_thms)
  moreover have "(push_bit 27 1 :: u64) = 2 ^ 27" by simp
  ultimately show ?thesis using assms
    unfolding meta_PrepareForInsert_def p_def [symmetric] by (simp only: IsVacant_def assertR_simps bindR.simps Let_def simp_thms)
qed

lemma not_epoch: "unat (GetOffset m) < 2 ^ 27 \<Longrightarrow> \<not> IsInserting g m"
proof -
  assume "unat (GetOffset m) < 2 ^ 27"
  note * = bit_above [OF this]
  have "drop_bit 27 (GetOffset m) = 0" by (rule bit_word_eqI) (auto simp: bit_drop_bit_eq *)
  then show ?thesis by (simp add: IsInserting_def OffsetIsEpoch_def)
qed

lemma PadKeyLength_bounds:
  assumes "unat n + 7 < 2 ^ 16"
  shows "unat (PadKeyLength n) = (unat n + 7) div 8 * 8"
proof -
  have "unat (ucast n :: u64) = unat n" by (simp add: unsigned_ucast_eq take_bit_nat_eq_self less_le_trans [OF unsigned_less])
  then have "unat (ucast n + 8 - 1 :: u64) = unat n + 7" using assms by (simp add: unat_word_ariths)
  then have "unat ((ucast n + 8 - 1) div 8 * 8 :: u64) = (unat n + 7) div 8 * 8" using assms by (simp add: unat_word_ariths unat_div)
  then show ?thesis using assms by (simp add: PadKeyLength_def unsigned_ucast_eq take_bit_nat_eq_self)
qed

section \<open>The order of keys\<close>

text \<open>Both comparisons of bytes are lexicographic orders, of signed and of unsigned bytes.\<close>

primrec byte_cmp :: "(u8 \<Rightarrow> int) \<Rightarrow> u8 list \<Rightarrow> u8 list \<Rightarrow> int" where
  "byte_cmp f [] ys = 0"
| "byte_cmp f (x # xs) ys = (case ys of [] \<Rightarrow> 0 | y # ys \<Rightarrow> if x \<noteq> y then f x - f y else byte_cmp f xs ys)"

lemma byte_cmp_Nil [simp]: "byte_cmp f xs [] = 0"
  by (cases xs) simp_all

lemma my_memcmp_byte_cmp: "my_memcmp xs ys = byte_cmp sint xs ys"
  by (induction xs ys rule: my_memcmp.induct) (auto split: list.splits)

lemma c_memcmp_byte_cmp: "c_memcmp xs ys = byte_cmp uint xs ys"
  by (induction xs ys rule: c_memcmp.induct) (auto split: list.splits)

definition full_cmp :: "(u8 \<Rightarrow> int) \<Rightarrow> u8 list \<Rightarrow> u8 list \<Rightarrow> int" where
  "full_cmp f xs ys = (let n = min (length xs) (length ys); c = byte_cmp f (take n xs) (take n ys) in
     if c = 0 then int (length xs) - int (length ys) else c)"

lemma full_cmp_Cons:
  "full_cmp f [] [] = 0" "full_cmp f (x # xs) [] > 0" "full_cmp f [] (y # ys) < 0"
  "inj f \<Longrightarrow> full_cmp f (x # xs) (y # ys) = (if x \<noteq> y then f x - f y else full_cmp f xs ys)"
  by (auto simp: full_cmp_def Let_def inj_eq)

lemma full_cmp_eq: "inj f \<Longrightarrow> full_cmp f xs ys = 0 \<longleftrightarrow> xs = ys"
proof (induction xs ys rule: list_induct2')
  case (2 x xs) then show ?case using full_cmp_Cons(2) [of f x xs] by auto
next
  case (3 y ys) then show ?case using full_cmp_Cons(3) [of f y ys] by auto
qed (auto simp: full_cmp_Cons inj_eq)

lemma full_cmp_lexord: "inj f \<Longrightarrow> full_cmp f xs ys < 0 \<longleftrightarrow> (xs, ys) \<in> lexord {(x, y). f x < f y}"
proof (induction xs ys rule: list_induct2')
  case (2 x xs) then show ?case using full_cmp_Cons(2) [of f x xs] by auto
next
  case (3 y ys) then show ?case using full_cmp_Cons(3) [of f y ys] by auto
next
  case (4 x xs y ys) then show ?case by (auto simp: full_cmp_Cons inj_eq)
qed (simp add: full_cmp_Cons)

lemma full_cmp_swap: "full_cmp f ys xs = - full_cmp f xs ys"
proof -
  have "byte_cmp f ys xs = - byte_cmp f xs ys" for xs ys
    by (induction xs ys rule: list_induct2') auto
  from this [of "take (min (length xs) (length ys)) xs" "take (min (length xs) (length ys)) ys"]
  show ?thesis unfolding full_cmp_def Let_def min.commute [of "length ys"] by simp
qed

lemma full_cmp_trans: "inj f \<Longrightarrow> full_cmp f xs ys < 0 \<Longrightarrow> full_cmp f ys zs < 0 \<Longrightarrow> full_cmp f xs zs < 0"
  using lexord_trans [of xs ys "{(x, y). f x < f y}" zs] by (simp add: full_cmp_lexord trans_def)

lemma inj_bytes: "inj (sint :: u8 \<Rightarrow> int)" "inj (uint :: u8 \<Rightarrow> int)"
  by (auto intro!: injI simp: signed_word_eqI)

definition byte_view :: "nat \<Rightarrow> u8 \<Rightarrow> int" where
  "byte_view n = (if n < 16 then sint else uint)"

lemma inj_byte_view: "inj (byte_view n)"
  by (simp add: byte_view_def inj_bytes)

lemma KeyCompare_full: "KeyCompare (Some a) (Some b) = full_cmp (byte_view (min (length a) (length b))) a b"
  by (simp add: KeyCompare_def full_cmp_def byte_view_def my_memcmp_byte_cmp c_memcmp_byte_cmp Let_def)

lemma KeyCompare_eq: "KeyCompare (Some a) (Some b) = 0 \<longleftrightarrow> a = b"
  by (simp add: KeyCompare_full full_cmp_eq inj_byte_view)

lemma KeyCompare_swap: "KeyCompare (Some b) (Some a) = - KeyCompare (Some a) (Some b)"
  using full_cmp_swap [of _ b a] by (simp add: KeyCompare_full min.commute)

definition same_class :: "u8 list \<Rightarrow> u8 list \<Rightarrow> bool" where
  "same_class a b \<longleftrightarrow> (length a < 16 \<longleftrightarrow> length b < 16)"

lemma KeyCompare_trans:
  assumes "same_class a b" "same_class b c" "KeyCompare (Some a) (Some b) < 0" "KeyCompare (Some b) (Some c) < 0"
  shows "KeyCompare (Some a) (Some c) < 0"
proof -
  have "byte_view (min (length a) (length b)) = byte_view (length b)" "byte_view (min (length b) (length c)) = byte_view (length b)"
    "byte_view (min (length a) (length c)) = byte_view (length b)"
    using assms(1,2) by (auto simp: byte_view_def same_class_def)
  then show ?thesis using assms(3,4) full_cmp_trans [OF inj_byte_view] by (simp add: KeyCompare_full)
qed

lemma KeyCompare_cyclic:
  "\<exists>a b c. KeyCompare (Some a) (Some c) < 0 \<and> KeyCompare (Some c) (Some b) < 0 \<and> KeyCompare (Some b) (Some a) < 0"
proof -
  have "KeyCompare (Some (replicate 16 0x80)) (Some [0]) < 0 \<and> KeyCompare (Some [0]) (Some (replicate 16 1)) < 0 \<and>
    KeyCompare (Some (replicate 16 1)) (Some (replicate 16 0x80)) < 0" by code_simp
  then show ?thesis by blast
qed

text \<open>
  C40: the comparison of keys is zero exactly for equal keys, changes its sign when the keys are exchanged, and is transitive on keys
  that are all shorter than sixteen bytes or all at least that long: there it is a strict total order. On keys of mixed lengths it is
  no order: bytes are compared with sign when the shorter key has fewer than sixteen bytes, and without sign otherwise, so there are
  keys \<open>x\<close> before \<open>z\<close> before \<open>y\<close> before \<open>x\<close>.
\<close>

theorem KeyCompare_order:
  "(KeyCompare (Some a) (Some b) = 0 \<longleftrightarrow> a = b) \<and> KeyCompare (Some b) (Some a) = - KeyCompare (Some a) (Some b) \<and>
   (same_class a b \<and> same_class b c \<and> KeyCompare (Some a) (Some b) < 0 \<and> KeyCompare (Some b) (Some c) < 0 \<longrightarrow>
    KeyCompare (Some a) (Some c) < 0) \<and>
   (\<exists>x y z. KeyCompare (Some x) (Some z) < 0 \<and> KeyCompare (Some z) (Some y) < 0 \<and> KeyCompare (Some y) (Some x) < 0)"
  using KeyCompare_eq KeyCompare_swap KeyCompare_trans KeyCompare_cyclic by blast

theorem KeyCompare_order_witness:
  "same_class [1] [2] \<and> same_class [2] [3] \<and> KeyCompare (Some [1]) (Some [2]) < 0 \<and> KeyCompare (Some [2]) (Some [3]) < 0 \<and>
   KeyCompare (Some [1]) (Some [3]) < 0"
proof -
  have "same_class [1] [2] \<and> same_class [2] [3] \<and> KeyCompare (Some [1]) (Some [2]) < 0 \<and> KeyCompare (Some [2]) (Some [3]) < 0"
    by code_simp
  with KeyCompare_order [of "[1]" "[2]" "[3]"] show ?thesis by blast
qed

end
