(* ===== verification/BzLeaf.thy ===== *)
theory BzLeaf
  imports BzWords
begin

text \<open>
  The leaf nodes of BzTree (\<open>bztree/bztree.cpp\<close>, \<open>bztree.h\<close>): insertion, update, deletion, search, scans, freezing, consolidation and
  merging. The node is its header, the array of record metadata, which grows from the front, and the bytes of the node, in which the
  records are stacked from the end. The multi-word compare-and-swap comes from a library outside of the repository: it is an
  argument \<open>mw\<close>, and \<open>mwcas_spec\<close> says what it does when no other thread interferes. \<open>g\<close> is the global epoch; a \<open>goto retry\<close>
  takes one unit of fuel, and without fuel the operation is \<open>Spins\<close>.
\<close>

section \<open>Nodes\<close>

datatype return_code = RetInvalid | RetOk | RetKeyExists | RetNotFound | RetNodeFrozen | RetPMWCASFail | RetNotEnoughSpace

text \<open>
  The metadata array starts after 32 bytes, the size of the header with its padding. In memory it is the front of the same block whose end holds the
  records; here the array and the bytes are separate fields. The invariant of a node (\<open>leaf_shape\<close>) keeps the two apart:
  header, used entries and records together fit into the node.
\<close>

record leaf =
  leaf_size :: u32
  leaf_status :: u64
  leaf_sorted :: u32
  metas :: "u64 list"
  leaf_mem :: "u8 list"

definition LeafNode_New :: "u32 \<Rightarrow> leaf" where
  "LeafNode_New node_size =
     \<lparr>leaf_size = node_size, leaf_status = 0, leaf_sorted = 0, metas = replicate ((unat node_size - 32) div 8) 0,
      leaf_mem = replicate (unat node_size) 0\<rparr>"

definition record_count :: "leaf \<Rightarrow> nat" where
  "record_count s = unat (GetRecordCount (leaf_status s))"

definition GetUsedSpace :: "u64 \<Rightarrow> u32" where
  "GetUsedSpace w = 32 + GetBlockSize w + ucast (GetRecordCount w) * 8"

definition GetFreeSpace :: "leaf \<Rightarrow> c_error + u32" where
  "GetFreeSpace s =
     bindR (assertR (leaf_size s \<ge> GetUsedSpace (leaf_status s))) (\<lambda>_. Inr (leaf_size s - GetUsedSpace (leaf_status s)))"

text \<open>Bytes of the node; a read outside of it is undefined.\<close>

definition node_bytes :: "leaf \<Rightarrow> nat \<Rightarrow> nat \<Rightarrow> c_error + u8 list" where
  "node_bytes s p n = (if p + n \<le> length (leaf_mem s) then Inr (take n (drop p (leaf_mem s))) else Inl UB)"

definition GetKey :: "leaf \<Rightarrow> u64 \<Rightarrow> c_error + u8 list option" where
  "GetKey s meta =
     (if \<not> IsVisible meta then Inr None
      else bindR (node_bytes s (unat (GetOffset meta)) (unat (GetKeyLength meta))) (\<lambda>k. Inr (Some k)))"

definition payload_pos :: "u64 \<Rightarrow> nat" where
  "payload_pos meta = unat (GetOffset meta) + unat (GetPaddedKeyLength meta)"

section \<open>Compare-and-swap\<close>

datatype cas_cell = StatusCell | MetaCell nat | WordCell nat

fun cell_value :: "leaf \<Rightarrow> cas_cell \<Rightarrow> c_error + u64" where
  "cell_value s StatusCell = Inr (leaf_status s)"
| "cell_value s (MetaCell i) = nthR (metas s) i"
| "cell_value s (WordCell p) = loadR 8 (leaf_mem s) p"

fun set_cell :: "cas_cell \<Rightarrow> u64 \<Rightarrow> leaf \<Rightarrow> leaf" where
  "set_cell StatusCell v s = s\<lparr>leaf_status := v\<rparr>"
| "set_cell (MetaCell i) v s = s\<lparr>metas := (metas s)[i := v]\<rparr>"
| "set_cell (WordCell p) v s = s\<lparr>leaf_mem := take p (leaf_mem s) @ u64_bytes v @ drop (p + 8) (leaf_mem s)\<rparr>"

type_synonym mwcas = "(cas_cell \<times> u64 \<times> u64) list \<Rightarrow> leaf \<Rightarrow> bool \<times> leaf"

definition mwcas_alone :: mwcas where
  "mwcas_alone es s =
     (if \<forall>(c, old, new) \<in> set es. cell_value s c = Inr old then (True, fold (\<lambda>(c, old, new). set_cell c new) es s) else (False, s))"

definition mwcas_spec :: "mwcas \<Rightarrow> bool" where
  "mwcas_spec mw \<longleftrightarrow> (\<forall>es s. distinct (map fst es) \<longrightarrow> mw es s = mwcas_alone es s)"

section \<open>Searching\<close>

primrec search_sorted :: "leaf \<Rightarrow> u8 list \<Rightarrow> nat \<Rightarrow> nat \<Rightarrow> c_error + (u64 \<times> nat) option" where
  "search_sorted s key 0 i = Inr None"
| "search_sorted s key (Suc n) i =
     bindR (nthR (metas s) i) (\<lambda>current.
     bindR (GetKey s current) (\<lambda>current_key.
     bindR (assertR (current_key \<noteq> None)) (\<lambda>_.
       if KeyCompare (Some key) current_key = 0 then Inr (if IsVisible current then Some (current, i) else None)
       else search_sorted s key n (i + 1))))"

primrec search_linear :: "u64 \<Rightarrow> bool \<Rightarrow> leaf \<Rightarrow> u8 list \<Rightarrow> nat \<Rightarrow> nat \<Rightarrow> c_error + (u64 \<times> nat) option" where
  "search_linear g check_concurrency s key 0 i = Inr None"
| "search_linear g check_concurrency s key (Suc n) i =
     bindR (nthR (metas s) i) (\<lambda>current.
       if IsInserting g current then
         if check_concurrency then Inr (Some (current, i)) else search_linear g check_concurrency s key n (i + 1)
       else if IsVisible current \<and> unat (GetKeyLength current) = length key then
         bindR (GetKey s current) (\<lambda>k.
           if KeyCompare (Some key) k = 0 then Inr (Some (current, i)) else search_linear g check_concurrency s key n (i + 1))
       else search_linear g check_concurrency s key n (i + 1))"

text \<open>The metadata that was found and its index; nothing stands for the vacant metadata.\<close>

definition SearchRecordMeta :: "u64 \<Rightarrow> bool \<Rightarrow> u8 list \<Rightarrow> leaf \<Rightarrow> c_error + (u64 \<times> nat) option" where
  "SearchRecordMeta g check_concurrency key s =
     bindR (search_sorted s key (unat (leaf_sorted s)) 0) (\<lambda>r.
       case r of Some x \<Rightarrow> Inr (Some x)
       | None \<Rightarrow> search_linear g check_concurrency s key (record_count s - unat (leaf_sorted s)) (unat (leaf_sorted s)))"

section \<open>Insertion\<close>

datatype uniqueness = IsUnique | Duplicate | ReCheck | NodeFrozen

definition CheckUnique :: "u64 \<Rightarrow> u8 list \<Rightarrow> leaf \<Rightarrow> c_error + uniqueness" where
  "CheckUnique g key s =
     bindR (SearchRecordMeta g True key s) (\<lambda>r.
       case r of None \<Rightarrow> Inr IsUnique
       | Some (metadata, _) \<Rightarrow>
           if IsInserting g metadata then Inr ReCheck
           else if \<not> IsVisible metadata then Inl Exited
           else bindR (GetKey s metadata) (\<lambda>k. Inr (if KeyCompare (Some key) k = 0 then Duplicate else ReCheck)))"

definition check_metadata :: "u64 \<Rightarrow> u8 list \<Rightarrow> leaf \<Rightarrow> nat \<Rightarrow> c_error + uniqueness" where
  "check_metadata g key s i =
     bindR (nthR (metas s) i) (\<lambda>md.
       if IsInserting g md then Inr ReCheck
       else if IsVacant md \<or> \<not> IsVisible md then Inr IsUnique
       else if unat (GetKeyLength md) = length key then
         bindR (GetKey s md) (\<lambda>k. Inr (if KeyCompare (Some key) k = 0 then Duplicate else IsUnique))
       else Inr IsUnique)"

text \<open>The first pass: whether a duplicate was found, and the records that are being inserted.\<close>

primrec recheck_first :: "u64 \<Rightarrow> u8 list \<Rightarrow> leaf \<Rightarrow> nat \<Rightarrow> nat \<Rightarrow> nat list \<Rightarrow> c_error + bool \<times> nat list" where
  "recheck_first g key s 0 i check_idx = Inr (False, check_idx)"
| "recheck_first g key s (Suc n) i check_idx =
     bindR (check_metadata g key s i) (\<lambda>u.
       if u = Duplicate then Inr (True, check_idx)
       else recheck_first g key s n (i + 1) (if u = ReCheck then check_idx @ [i] else check_idx))"

text \<open>A pass over the records that were being inserted. It looks at the records with the numbers 0, 1, ..., not at those that were noted.\<close>

primrec recheck_pass :: "u64 \<Rightarrow> u8 list \<Rightarrow> leaf \<Rightarrow> nat \<Rightarrow> nat \<Rightarrow> u32 \<Rightarrow> c_error + bool \<times> u32" where
  "recheck_pass g key s 0 i need = Inr (False, need)"
| "recheck_pass g key s (Suc n) i need =
     bindR (check_metadata g key s i) (\<lambda>u.
       if u = Duplicate then Inr (True, need)
       else recheck_pass g key s n (i + 1) (if u \<noteq> ReCheck then need - 1 else need))"

primrec recheck_loop :: "nat \<Rightarrow> u64 \<Rightarrow> u8 list \<Rightarrow> leaf \<Rightarrow> nat \<Rightarrow> u32 \<Rightarrow> c_error + uniqueness" where
  "recheck_loop 0 g key s n need = (if need > 0 then Inl Spins else Inr IsUnique)"
| "recheck_loop (Suc fuel) g key s n need =
     (if need > 0 then
        bindR (recheck_pass g key s n 0 need) (\<lambda>(dup, need'). if dup then Inr Duplicate else recheck_loop fuel g key s n need')
      else Inr IsUnique)"

definition RecheckUnique :: "nat \<Rightarrow> u64 \<Rightarrow> u8 list \<Rightarrow> nat \<Rightarrow> leaf \<Rightarrow> c_error + uniqueness" where
  "RecheckUnique fuel g key end_pos s =
     (if IsFrozen (leaf_status s) then Inr NodeFrozen
      else
        let linear_end = min (record_count s) end_pos; first = unat (leaf_sorted s) in
        bindR (recheck_first g key s (linear_end - first) first []) (\<lambda>(dup, check_idx).
          if dup then Inr Duplicate
          else recheck_loop fuel g key s (length check_idx) (of_nat (length check_idx))))"

definition store_node :: "nat \<Rightarrow> u8 list \<Rightarrow> leaf \<Rightarrow> c_error + leaf" where
  "store_node p bs s = bindR (storeR (leaf_mem s) p bs) (\<lambda>m. Inr (s\<lparr>leaf_mem := m\<rparr>))"

text \<open>From \<open>retry_phase2\<close> on; \<open>ptr\<close> is where the record lies, \<open>offset\<close> becomes 0 for a duplicate.\<close>

primrec insert_phase2 ::
  "nat \<Rightarrow> mwcas \<Rightarrow> u64 \<Rightarrow> u8 list \<Rightarrow> uniqueness \<Rightarrow> nat \<Rightarrow> nat \<Rightarrow> u64 \<Rightarrow> u64 \<Rightarrow> u64 \<Rightarrow> u64 \<Rightarrow> leaf \<Rightarrow> c_error + return_code \<times> leaf" where
  "insert_phase2 0 mw g key u i ptr offset padded tot desired_meta s = Inl Spins"
| "insert_phase2 (Suc fuel) mw g key u i ptr offset padded tot desired_meta s =
     bindR (if u = ReCheck then RecheckUnique fuel g key i s else Inr IsUnique) (\<lambda>new_u.
       if new_u = NodeFrozen then Inr (RetNodeFrozen, s)
       else
         bindR (if new_u = Duplicate then
                  bindR (store_node ptr (replicate (length key) 0) s) (\<lambda>s1.
                  bindR (store_node (ptr + unat padded) (replicate 8 0) s1) (\<lambda>s2. Inr (0, s2)))
                else Inr (offset, s)) (\<lambda>(offset, s).
         bindR (FinalizeForInsert offset (of_nat (length key)) tot) (\<lambda>new_meta.
         bindR (assertR (GetTotalLength new_meta < 100)) (\<lambda>_.
           let st = leaf_status s in
           if IsFrozen st then Inr (RetNodeFrozen, s)
           else
             let (ok, s') = mw [(StatusCell, st, st), (MetaCell i, desired_meta, new_meta)] s in
             if ok then Inr (RetOk, s')
             else insert_phase2 fuel mw g key u i ptr offset padded tot desired_meta s'))))"

primrec leaf_Insert :: "nat \<Rightarrow> mwcas \<Rightarrow> u64 \<Rightarrow> u32 \<Rightarrow> u8 list \<Rightarrow> u64 \<Rightarrow> leaf \<Rightarrow> c_error + return_code \<times> leaf" where
  "leaf_Insert 0 mw g split_threshold key payload s = Inl Spins"
| "leaf_Insert (Suc fuel) mw g split_threshold key payload s =
     (let expected_status = leaf_status s; i = record_count s in
      if IsFrozen expected_status then Inr (RetNodeFrozen, s)
      else
        bindR (CheckUnique g key s) (\<lambda>u.
          if u = Duplicate then Inr (RetKeyExists, s)
          else
            let padded = ucast (PadKeyLength (of_nat (length key))) :: u64; tot = padded + 8;
                new_size = ucast (GetUsedSpace expected_status) + 8 + padded + 8 in
            if new_size \<ge> ucast split_threshold then Inr (RetNotEnoughSpace, s)
            else
              bindR (status_PrepareForInsert (ucast tot) expected_status) (\<lambda>desired_status.
              bindR (nthR (metas s) i) (\<lambda>expected_meta.
                if \<not> IsVacant expected_meta then leaf_Insert fuel mw g split_threshold key payload s
                else
                  bindR (meta_PrepareForInsert g 0) (\<lambda>desired_meta.
                    let (ok, s1) = mw [(StatusCell, expected_status, desired_status), (MetaCell i, expected_meta, desired_meta)] s in
                    if \<not> ok then leaf_Insert fuel mw g split_threshold key payload s1
                    else
                      let offset = ucast (leaf_size s1 - GetBlockSize desired_status) :: u64; ptr = unat offset in
                      bindR (store_node ptr key s1) (\<lambda>s2.
                      bindR (store_node (ptr + unat padded) (u64_bytes payload) s2) (\<lambda>s3.
                        insert_phase2 fuel mw g key u i ptr offset padded tot desired_meta s3)))))))"

section \<open>Update, deletion, reading\<close>

text \<open>\<open>GetRawRecord\<close>: key (null when its padded length is zero) and payload.\<close>

definition GetRawRecord :: "leaf \<Rightarrow> u64 \<Rightarrow> c_error + nat option \<times> u64" where
  "GetRawRecord s meta =
     bindR (assertR (GetTotalLength meta \<noteq> 0)) (\<lambda>_.
     bindR (loadR 8 (leaf_mem s) (payload_pos meta)) (\<lambda>payload.
       Inr (if GetPaddedKeyLength meta = 0 then None else Some (unat (GetOffset meta)), payload)))"

primrec leaf_Update :: "nat \<Rightarrow> mwcas \<Rightarrow> u64 \<Rightarrow> u8 list \<Rightarrow> u64 \<Rightarrow> leaf \<Rightarrow> c_error + return_code \<times> leaf" where
  "leaf_Update 0 mw g key payload s = Inl Spins"
| "leaf_Update (Suc fuel) mw g key payload s =
     (let old_status = leaf_status s in
      if IsFrozen old_status then Inr (RetNodeFrozen, s)
      else
        bindR (SearchRecordMeta g True key s) (\<lambda>r.
          case r of None \<Rightarrow> Inr (RetNotFound, s)
          | Some (metadata, i) \<Rightarrow>
              if IsInserting g metadata then leaf_Update fuel mw g key payload s
              else
                bindR (GetRawRecord s metadata) (\<lambda>(record_key, record_payload).
                  if payload = record_payload then Inr (RetOk, s)
                  else
                    (case record_key of None \<Rightarrow> Inl UB
                     | Some k \<Rightarrow>
                         let (ok, s') = mw [(WordCell (k + unat (GetPaddedKeyLength metadata)), record_payload, payload),
                               (MetaCell i, metadata, metadata), (StatusCell, old_status, old_status)] s in
                         if ok then Inr (RetOk, s') else leaf_Update fuel mw g key payload s'))))"

primrec leaf_Delete :: "nat \<Rightarrow> mwcas \<Rightarrow> u64 \<Rightarrow> u8 list \<Rightarrow> leaf \<Rightarrow> c_error + return_code \<times> leaf" where
  "leaf_Delete 0 mw g key s = Inl Spins"
| "leaf_Delete (Suc fuel) mw g key s =
     (let old_status = leaf_status s in
      if IsFrozen old_status then Inr (RetNodeFrozen, s)
      else
        bindR (SearchRecordMeta g True key s) (\<lambda>r.
          case r of None \<Rightarrow> Inr (RetNotFound, s)
          | Some (metadata, i) \<Rightarrow>
              if IsInserting g metadata then leaf_Delete fuel mw g key s
              else
                let new_meta = SetVisible False metadata;
                    new_status = SetDeleteSize (GetDeletedSize old_status + ucast (GetTotalLength metadata)) old_status;
                    (ok, s') = mw [(StatusCell, old_status, new_status), (MetaCell i, metadata, new_meta)] s in
                if ok then Inr (RetOk, s') else leaf_Delete fuel mw g key s'))"

definition leaf_Read :: "u64 \<Rightarrow> u8 list \<Rightarrow> leaf \<Rightarrow> c_error + return_code \<times> u64 option" where
  "leaf_Read g key s =
     bindR (SearchRecordMeta g False key s) (\<lambda>r.
       case r of None \<Rightarrow> Inr (RetNotFound, None)
       | Some (meta, _) \<Rightarrow> bindR (loadR 8 (leaf_mem s) (payload_pos meta)) (\<lambda>p. Inr (RetOk, Some p)))"

section \<open>Freezing and consolidation\<close>

definition leaf_Freeze :: "mwcas \<Rightarrow> leaf \<Rightarrow> bool \<times> leaf" where
  "leaf_Freeze mw s =
     (if IsFrozen (leaf_status s) then (False, s) else mw [(StatusCell, leaf_status s, Freeze_word (leaf_status s))] s)"

text \<open>\<open>std::sort\<close> requires a strict weak order on the elements.\<close>

definition weak_order :: "('a \<Rightarrow> 'a \<Rightarrow> bool) \<Rightarrow> 'a list \<Rightarrow> bool" where
  "weak_order lt xs \<longleftrightarrow>
     (\<forall>x \<in> set xs. \<not> lt x x) \<and> (\<forall>x \<in> set xs. \<forall>y \<in> set xs. \<forall>z \<in> set xs. lt x y \<longrightarrow> lt y z \<longrightarrow> lt x z) \<and>
     (\<forall>x \<in> set xs. \<forall>y \<in> set xs. \<forall>z \<in> set xs. \<not> lt x y \<and> \<not> lt y x \<longrightarrow> \<not> lt y z \<and> \<not> lt z y \<longrightarrow> \<not> lt x z \<and> \<not> lt z x)"

primrec insert_by :: "('a \<Rightarrow> 'a \<Rightarrow> bool) \<Rightarrow> 'a \<Rightarrow> 'a list \<Rightarrow> 'a list" where
  "insert_by lt x [] = [x]"
| "insert_by lt x (y # ys) = (if lt y x then y # insert_by lt x ys else x # y # ys)"

definition std_sort :: "('a \<Rightarrow> 'a \<Rightarrow> bool) \<Rightarrow> 'a list \<Rightarrow> c_error + 'a list" where
  "std_sort lt xs = (if weak_order lt xs then Inr (foldr (insert_by lt) xs []) else Inl UB)"

text \<open>The visible metadata of the node with their keys, and the sum of their lengths, which are checked when \<open>check\<close> holds.\<close>

primrec visible_metas :: "bool \<Rightarrow> leaf \<Rightarrow> nat \<Rightarrow> nat \<Rightarrow> c_error + (u64 \<times> u8 list option) list \<times> u32" where
  "visible_metas check s 0 i = Inr ([], 0)"
| "visible_metas check s (Suc n) i =
     bindR (nthR (metas s) i) (\<lambda>meta.
       if IsVisible meta then
         bindR (assertR (check \<longrightarrow> GetTotalLength meta \<noteq> 0)) (\<lambda>_.
         bindR (GetKey s meta) (\<lambda>k.
         bindR (visible_metas check s n (i + 1)) (\<lambda>(vec, tot). Inr ((meta, k) # vec, ucast (GetTotalLength meta) + tot))))
       else visible_metas check s n (i + 1))"

definition sort_metas :: "(u64 \<times> u8 list option) list \<Rightarrow> c_error + (u64 \<times> u8 list option) list" where
  "sort_metas = std_sort (\<lambda>m1 m2. KeyCompare (snd m1) (snd m2) < 0)"

definition SortMetadataByKey :: "leaf \<Rightarrow> c_error + (u64 \<times> u8 list option) list \<times> u32" where
  "SortMetadataByKey s =
     bindR (assertR (IsFrozen (leaf_status s))) (\<lambda>_.
     bindR (visible_metas True s (record_count s) 0) (\<lambda>(vec, tot).
     bindR (sort_metas vec) (\<lambda>sorted. Inr (sorted, tot))))"

text \<open>
  The loop of \<open>CopyFrom\<close> and of \<open>MergeNodes\<close>: \<open>offset\<close> is the lowest byte in use, \<open>n\<close> the number of records copied. Only \<open>CopyFrom\<close>
  asserts that the record fits.
\<close>

primrec copy_records :: "bool \<Rightarrow> leaf \<Rightarrow> u64 list \<Rightarrow> u32 \<Rightarrow> nat \<Rightarrow> leaf \<Rightarrow> c_error + u32 \<times> nat \<times> leaf" where
  "copy_records check src [] offset n new = Inr (offset, n, new)"
| "copy_records check src (meta # vec) offset n new =
     bindR (GetRawRecord src meta) (\<lambda>(key, _).
       let total_len = GetTotalLength meta in
       bindR (assertR (total_len \<ge> 8)) (\<lambda>_.
       bindR (assertR (check \<longrightarrow> offset \<ge> ucast total_len)) (\<lambda>_.
         let offset' = offset - ucast total_len in
         bindR (case key of None \<Rightarrow> Inl UB | Some p \<Rightarrow> node_bytes src p (unat total_len)) (\<lambda>bs.
         bindR (store_node (unat offset') bs new) (\<lambda>new1.
         bindR (FinalizeForInsert (ucast offset') (ucast (GetKeyLength meta)) (ucast total_len)) (\<lambda>m.
         bindR (nthR (metas new1) n) (\<lambda>_.
           copy_records check src vec offset' (n + 1) (new1\<lparr>metas := (metas new1)[n := m]\<rparr>))))))))"

text \<open>The header of a node after its records were copied.\<close>

definition copied_header :: "u32 \<Rightarrow> nat \<Rightarrow> leaf \<Rightarrow> leaf" where
  "copied_header offset n new =
     new\<lparr>leaf_status := SetRecordCount (of_nat n) (SetBlockSize (leaf_size new - offset) (leaf_status new)), leaf_sorted := of_nat n\<rparr>"

definition CopyFrom :: "leaf \<Rightarrow> u64 list \<Rightarrow> leaf \<Rightarrow> c_error + leaf" where
  "CopyFrom src vec new =
     bindR (copy_records True src vec (leaf_size new) 0 new) (\<lambda>(offset, n, new1). Inr (copied_header offset n new1))"

text \<open>The result is the new node, if any, and the old one.\<close>

definition Consolidate :: "mwcas \<Rightarrow> leaf \<Rightarrow> c_error + leaf option \<times> leaf" where
  "Consolidate mw s =
     (case leaf_Freeze mw s of (ok, s1) \<Rightarrow>
        if \<not> ok then Inr (None, s1)
        else
          bindR (SortMetadataByKey s1) (\<lambda>(vec, _).
          bindR (CopyFrom s1 (map fst vec) (LeafNode_New (leaf_size s1))) (\<lambda>new. Inr (Some new, s1))))"

section \<open>Scans\<close>

text \<open>A \<open>Record\<close> is a copy of the key and the payload.\<close>

definition Record_New :: "leaf \<Rightarrow> u64 \<Rightarrow> c_error + (u8 list \<times> u64) option" where
  "Record_New s meta =
     (if \<not> IsVisible meta then Inr None
      else
        bindR (node_bytes s (unat (GetOffset meta)) (unat (GetPaddedKeyLength meta))) (\<lambda>bs.
        bindR (loadR 8 (leaf_mem s) (payload_pos meta)) (\<lambda>p. Inr (Some (take (unat (GetKeyLength meta)) bs, p)))))"

definition record_less :: "(u8 list \<times> u64) \<Rightarrow> (u8 list \<times> u64) \<Rightarrow> bool" where
  "record_less a b \<longleftrightarrow> KeyCompare (Some (fst a)) (Some (fst b)) < 0"

primrec scan_size_loop :: "leaf \<Rightarrow> u8 list \<Rightarrow> nat \<Rightarrow> nat \<Rightarrow> c_error + (u8 list \<times> u64) list" where
  "scan_size_loop s key1 0 i = Inr []"
| "scan_size_loop s key1 (Suc n) i =
     bindR (nthR (metas s) i) (\<lambda>meta.
     bindR (if IsVisible meta then
              bindR (GetKey s meta) (\<lambda>k.
                if KeyCompare (Some key1) k \<le> 0 then bindR (Record_New s meta) (\<lambda>r. Inr (case r of None \<Rightarrow> [] | Some x \<Rightarrow> [x])) else Inr [])
            else Inr []) (\<lambda>here.
     bindR (scan_size_loop s key1 n (i + 1)) (\<lambda>rest. Inr (here @ rest))))"

text \<open>Only a \<open>to_scan\<close> of zero limits the result.\<close>

definition RangeScanBySize :: "leaf \<Rightarrow> u8 list \<Rightarrow> u32 \<Rightarrow> c_error + return_code \<times> (u8 list \<times> u64) list" where
  "RangeScanBySize s key1 to_scan =
     (if to_scan = 0 then Inr (RetOk, [])
      else
        bindR (scan_size_loop s key1 (record_count s) 0) (\<lambda>rs.
        bindR (std_sort record_less rs) (\<lambda>sorted. Inr (RetOk, sorted))))"

function scan_key_loop :: "leaf \<Rightarrow> u8 list option \<Rightarrow> u8 list option \<Rightarrow> nat \<Rightarrow> c_error + (u8 list \<times> u64) list" where
  "scan_key_loop s key1 key2 i =
     (if i < record_count s then
        bindR (nthR (metas s) i) (\<lambda>meta.
          if \<not> IsVisible meta then scan_key_loop s key1 key2 (i + 1)
          else
            bindR (assertR (GetTotalLength meta \<noteq> 0)) (\<lambda>_.
            bindR (if GetPaddedKeyLength meta = 0 then Inr None else GetKey s meta) (\<lambda>k.
              let range_code = KeyInRange k key1 key2 in
              if range_code = 0 then
                bindR (Record_New s meta) (\<lambda>r.
                bindR (scan_key_loop s key1 key2 (i + 1)) (\<lambda>rest. Inr (case r of None \<Rightarrow> rest | Some x \<Rightarrow> x # rest)))
              else if range_code = 1 \<and> i < unat (leaf_sorted s) then scan_key_loop s key1 key2 (unat (leaf_sorted s))
              else scan_key_loop s key1 key2 (i + 1))))
      else Inr [])"
  by pat_completeness auto
termination by (relation "measure (\<lambda>(s, key1, key2, i). record_count s - i)") auto

declare scan_key_loop.simps [simp del]

definition RangeScanByKey :: "leaf \<Rightarrow> u8 list option \<Rightarrow> u8 list option \<Rightarrow> c_error + return_code \<times> (u8 list \<times> u64) list" where
  "RangeScanByKey s key1 key2 =
     bindR (scan_key_loop s key1 key2 0) (\<lambda>rs. bindR (std_sort record_less rs) (\<lambda>sorted. Inr (RetOk, sorted)))"

section \<open>Merging\<close>

definition leaf_MergeNodes :: "leaf \<Rightarrow> leaf \<Rightarrow> c_error + leaf" where
  "leaf_MergeNodes left right =
     bindR (visible_metas False left (record_count left) 0) (\<lambda>(lv, _).
     bindR (visible_metas False right (record_count right) 0) (\<lambda>(rv, _).
     bindR (sort_metas lv) (\<lambda>lv.
     bindR (sort_metas rv) (\<lambda>rv.
     bindR (copy_records False left (map fst lv) (leaf_size left) 0 (LeafNode_New (leaf_size left))) (\<lambda>(o1, n1, new1).
     bindR (copy_records False right (map fst rv) o1 n1 new1) (\<lambda>(o2, n2, new2). Inr (copied_header o2 n2 new2)))))))"

end
