(* ===== verification/BzLeaf_Proofs.thy ===== *)
theory BzLeaf_Proofs
  imports BzLeaf
begin

text \<open>
  Correctness of the operations on BzTree leaf nodes: the invariant of a node on which no insertion is under way, the map that such a
  node holds, and that every operation has the outcome and the effect on the map that it promises.
\<close>

section \<open>Bytes of a node\<close>

definition put :: "nat \<Rightarrow> u8 list \<Rightarrow> u8 list \<Rightarrow> u8 list" where
  "put p bs mem = take p mem @ bs @ drop (p + length bs) mem"

lemma storeR_put: "p + length bs \<le> length mem \<Longrightarrow> storeR mem p bs = Inr (put p bs mem)"
  by (simp add: storeR_def put_def)

lemma length_put [simp]: "p + length bs \<le> length mem \<Longrightarrow> length (put p bs mem) = length mem"
  by (simp add: put_def)

lemma nth_put:
  "p + length bs \<le> length mem \<Longrightarrow> i < length mem \<Longrightarrow> put p bs mem ! i = (if p \<le> i \<and> i < p + length bs then bs ! (i - p) else mem ! i)"
  by (auto simp: put_def nth_append min_def)

lemma put_other:
  assumes "p + length bs \<le> length mem" "q + n \<le> p \<or> p + length bs \<le> q" "q + n \<le> length mem"
  shows "take n (drop q (put p bs mem)) = take n (drop q mem)"
  using assms by (intro nth_equalityI) (auto simp: nth_put)

lemma put_same:
  assumes "p + length bs \<le> length mem" "n = length bs"
  shows "take n (drop p (put p bs mem)) = bs"
  using assms by (intro nth_equalityI) (auto simp: nth_put)

section \<open>Records\<close>

definition rec_key :: "leaf \<Rightarrow> u64 \<Rightarrow> u8 list" where
  "rec_key s m = take (unat (GetKeyLength m)) (drop (unat (GetOffset m)) (leaf_mem s))"

definition rec_val :: "leaf \<Rightarrow> u64 \<Rightarrow> u64" where
  "rec_val s m = le_bytes (take 8 (drop (payload_pos m) (leaf_mem s)))"

definition has_key :: "leaf \<Rightarrow> u8 list \<Rightarrow> nat \<Rightarrow> bool" where
  "has_key s key j \<longleftrightarrow> IsVisible (metas s ! j) \<and> rec_key s (metas s ! j) = key"

definition leaf_lookup :: "leaf \<Rightarrow> u8 list \<Rightarrow> nat option" where
  "leaf_lookup s key = find (has_key s key) [0..<record_count s]"

text \<open>The map that a node holds.\<close>

definition leaf_abs :: "leaf \<Rightarrow> u8 list \<Rightarrow> u64 option" where
  "leaf_abs s key = map_option (\<lambda>j. rec_val s (metas s ! j)) (leaf_lookup s key)"

abbreviation tot :: "u64 \<Rightarrow> nat" where "tot m \<equiv> unat (GetTotalLength m)"
abbreviation off :: "u64 \<Rightarrow> nat" where "off m \<equiv> unat (GetOffset m)"
abbreviation klen :: "u64 \<Rightarrow> nat" where "klen m \<equiv> unat (GetKeyLength m)"

definition pad8 :: "nat \<Rightarrow> nat" where "pad8 n = (n + 7) div 8 * 8"

abbreviation block_size :: "leaf \<Rightarrow> nat" where "block_size s \<equiv> unat (GetBlockSize (leaf_status s))"
abbreviation deleted_size :: "leaf \<Rightarrow> nat" where "deleted_size s \<equiv> unat (GetDeletedSize (leaf_status s))"
abbreviation node_size :: "leaf \<Rightarrow> nat" where "node_size s \<equiv> unat (leaf_size s)"

definition meta_ok :: "nat \<Rightarrow> nat \<Rightarrow> u64 \<Rightarrow> bool" where
  "meta_ok low high m \<longleftrightarrow> 1 \<le> klen m \<and> klen m \<le> 88 \<and> tot m = pad8 (klen m) + 8 \<and> low \<le> off m \<and> off m + tot m \<le> high"

definition apart :: "u64 \<Rightarrow> u64 \<Rightarrow> bool" where
  "apart m m' \<longleftrightarrow> off m + tot m \<le> off m' \<or> off m' + tot m' \<le> off m"

definition visible_keys_differ :: "leaf \<Rightarrow> bool" where
  "visible_keys_differ s \<longleftrightarrow> (\<forall>i < record_count s. \<forall>j < record_count s. IsVisible (metas s ! i) \<longrightarrow> IsVisible (metas s ! j) \<longrightarrow>
     rec_key s (metas s ! i) = rec_key s (metas s ! j) \<longrightarrow> i = j)"

text \<open>
  The invariant of a node below 512 KiB on which no insertion is under way: the header, the metadata and the records fit into the
  node, the metadata behind the last record is zero, the records lie within the block and do not overlap, the block size is the sum
  of their lengths and the deleted size that of the deleted ones, and no two visible records have the same key.
\<close>

definition leaf_shape :: "leaf \<Rightarrow> bool" where
  "leaf_shape s \<longleftrightarrow> length (leaf_mem s) = node_size s \<and> node_size s < 2 ^ 19 \<and> length (metas s) = (node_size s - 32) div 8 \<and>
     32 + block_size s + 8 * record_count s \<le> node_size s \<and> unat (leaf_sorted s) \<le> record_count s \<and>
     (\<forall>i < length (metas s). record_count s \<le> i \<longrightarrow> metas s ! i = 0)"

definition leaf_records :: "leaf \<Rightarrow> bool" where
  "leaf_records s \<longleftrightarrow> (\<forall>i < record_count s. meta_ok (node_size s - block_size s) (node_size s) (metas s ! i)) \<and>
     (\<forall>i < record_count s. \<forall>j < record_count s. i \<noteq> j \<longrightarrow> apart (metas s ! i) (metas s ! j)) \<and>
     block_size s = (\<Sum>i<record_count s. tot (metas s ! i)) \<and>
     deleted_size s = (\<Sum>i<record_count s. if IsVisible (metas s ! i) then 0 else tot (metas s ! i))"

definition sorted_visible :: "leaf \<Rightarrow> bool" where
  "sorted_visible s \<longleftrightarrow> (\<forall>i < unat (leaf_sorted s). IsVisible (metas s ! i))"

definition leaf_inv :: "leaf \<Rightarrow> bool" where
  "leaf_inv s \<longleftrightarrow> leaf_shape s \<and> leaf_records s \<and> visible_keys_differ s"

lemma pad8_bounds: "n \<le> pad8 n" "pad8 n \<le> n + 7"
  by (simp_all add: pad8_def)

lemma payload_pos_eq: "klen m \<le> 88 \<Longrightarrow> payload_pos m = off m + pad8 (klen m)"
  by (simp add: payload_pos_def GetPaddedKeyLength_def PadKeyLength_bounds pad8_def)

lemma metas_enough: "leaf_shape s \<Longrightarrow> record_count s \<le> length (metas s)"
  by (auto simp: leaf_shape_def)

lemma meta_in_node:
  assumes "leaf_shape s" "meta_ok low (node_size s) m"
  shows "off m + klen m \<le> length (leaf_mem s)" "payload_pos m + 8 \<le> length (leaf_mem s)" "payload_pos m + 8 = off m + tot m"
    "off m + klen m \<le> payload_pos m" "length (rec_key s m) = klen m" "\<not> IsInserting g m" "tot m < 100" "tot m \<noteq> 0" "8 \<le> tot m"
proof -
  have m: "klen m \<le> 88" "tot m = pad8 (klen m) + 8" "off m + tot m \<le> length (leaf_mem s)" "node_size s < 2 ^ 19" "length (leaf_mem s) = node_size s"
    using assms by (auto simp: meta_ok_def leaf_shape_def)
  note p = payload_pos_eq [OF m(1)] pad8_bounds [of "klen m"]
  show "payload_pos m + 8 = off m + tot m" "off m + klen m \<le> payload_pos m" using p m by simp_all
  show l: "off m + klen m \<le> length (leaf_mem s)" "payload_pos m + 8 \<le> length (leaf_mem s)" using p m by simp_all
  show "length (rec_key s m) = klen m" using l by (simp add: rec_key_def)
  show "\<not> IsInserting g m" by (rule not_epoch) (use m in simp)
  have "pad8 (klen m) \<le> 88" using m(1) by (simp add: pad8_def)
  then show "tot m < 100" "tot m \<noteq> 0" "8 \<le> tot m" using m by simp_all
qed

lemma GetKey_rec: "leaf_shape s \<Longrightarrow> meta_ok low (node_size s) m \<Longrightarrow> IsVisible m \<Longrightarrow> GetKey s m = Inr (Some (rec_key s m))"
  using meta_in_node(1) [of s low m] by (simp add: GetKey_def node_bytes_def rec_key_def)

lemma load_rec: "leaf_shape s \<Longrightarrow> meta_ok low (node_size s) m \<Longrightarrow> loadR 8 (leaf_mem s) (payload_pos m) = Inr (rec_val s m)"
  using meta_in_node(2) [of s low m] by (simp add: loadR_Inr rec_val_def)

section \<open>Searching\<close>

lemma search_sorted_eq:
  assumes "\<And>j. i \<le> j \<Longrightarrow> j < i + n \<Longrightarrow> j < length (metas s) \<and> IsVisible (metas s ! j) \<and> meta_ok low (node_size s) (metas s ! j)" "leaf_shape s"
  shows "search_sorted s key n i = Inr (map_option (\<lambda>j. (metas s ! j, j)) (find (has_key s key) [i..<i + n]))"
  using assms
proof (induction n arbitrary: i)
  case (Suc n)
  let ?m = "metas s ! i"
  have m: "i < length (metas s)" "IsVisible ?m" "meta_ok low (node_size s) ?m" using Suc.prems(1) [of i] by simp_all
  have IH: "search_sorted s key n (i + 1) = Inr (map_option (\<lambda>j. (metas s ! j, j)) (find (has_key s key) [i + 1..<i + 1 + n]))"
    by (rule Suc.IH) (use Suc.prems in auto)
  have "[i..<i + Suc n] = i # [i + 1..<i + 1 + n]" by (simp add: upt_rec)
  then show ?case using m IH GetKey_rec [OF Suc.prems(2) m(3,2)] by (auto simp: has_key_def [of s key i] KeyCompare_eq)
qed simp

lemma search_linear_eq:
  assumes "\<And>j. i \<le> j \<Longrightarrow> j < i + n \<Longrightarrow> j < length (metas s) \<and> meta_ok low (node_size s) (metas s ! j)" "leaf_shape s"
  shows "search_linear g cc s key n i = Inr (map_option (\<lambda>j. (metas s ! j, j)) (find (has_key s key) [i..<i + n]))"
  using assms
proof (induction n arbitrary: i)
  case (Suc n)
  let ?m = "metas s ! i"
  have m: "i < length (metas s)" "meta_ok low (node_size s) ?m" using Suc.prems(1) [of i] by simp_all
  have IH: "search_linear g cc s key n (i + 1) = Inr (map_option (\<lambda>j. (metas s ! j, j)) (find (has_key s key) [i + 1..<i + 1 + n]))"
    by (rule Suc.IH) (use Suc.prems in auto)
  have u: "[i..<i + Suc n] = i # [i + 1..<i + 1 + n]" by (simp add: upt_rec)
  note f = meta_in_node(5,6) [OF Suc.prems(2) m(2)] GetKey_rec [OF Suc.prems(2) m(2)]
  have "rec_key s ?m \<noteq> key" if "klen ?m \<noteq> length key" using that f(1) by auto
  then show ?case using m IH f u by (auto simp: has_key_def [of s key i] KeyCompare_eq)
qed simp

text \<open>A search finds the visible record with the key when there is one.\<close>

lemma SearchRecordMeta_eq:
  assumes "leaf_inv s" "sorted_visible s"
  shows "SearchRecordMeta g cc key s = Inr (map_option (\<lambda>j. (metas s ! j, j)) (leaf_lookup s key))"
proof -
  let ?a = "unat (leaf_sorted s)" and ?n = "record_count s"
  have s: "leaf_shape s" "?a \<le> ?n" "?n \<le> length (metas s)" using assms by (auto simp: leaf_inv_def leaf_shape_def)
  have ok: "meta_ok (node_size s - block_size s) (node_size s) (metas s ! j)" if "j < ?n" for j
    using assms that by (auto simp: leaf_inv_def leaf_records_def)
  have 1: "search_sorted s key ?a 0 = Inr (map_option (\<lambda>j. (metas s ! j, j)) (find (has_key s key) [0..<0 + ?a]))"
    by (rule search_sorted_eq [where low = "node_size s - block_size s"]) (use s ok assms(2) in \<open>auto simp: sorted_visible_def\<close>)
  have 2: "search_linear g cc s key (?n - ?a) ?a = Inr (map_option (\<lambda>j. (metas s ! j, j)) (find (has_key s key) [?a..<?a + (?n - ?a)]))"
    by (rule search_linear_eq [where low = "node_size s - block_size s"]) (use s ok in auto)
  have "[0..<?n] = [0..<?a] @ [?a..<?n]" using s(2) by (metis le0 le_Suc_ex upt_add_eq_append)
  then show ?thesis using 1 2 s(2) by (auto simp: SearchRecordMeta_def leaf_lookup_def find_append split: option.splits)
qed

section \<open>What the invariant gives\<close>

lemma leaf_invD:
  assumes "leaf_inv s"
  shows "leaf_shape s" "leaf_records s" "visible_keys_differ s"
    "\<And>i. i < record_count s \<Longrightarrow> meta_ok (node_size s - block_size s) (node_size s) (metas s ! i)"
    "\<And>i. i < record_count s \<Longrightarrow> i < length (metas s)"
  using assms metas_enough [of s] by (auto simp: leaf_inv_def leaf_records_def)

lemma lookup_Some:
  assumes "leaf_lookup s key = Some j"
  shows "j < record_count s" "IsVisible (metas s ! j)" "rec_key s (metas s ! j) = key"
  using find_SomeD [OF assms [unfolded leaf_lookup_def]] by (simp_all add: has_key_def)

lemma lookup_None: "leaf_lookup s key = None \<longleftrightarrow> (\<forall>j < record_count s. \<not> has_key s key j)"
  by (auto simp: leaf_lookup_def find_None_iff)

lemma find_cong_on: "(\<And>x. x \<in> set xs \<Longrightarrow> P x = Q x) \<Longrightarrow> find P xs = find Q xs"
  by (induction xs) auto

lemma lookup_cong:
  "record_count t = record_count s \<Longrightarrow> (\<And>j. j < record_count s \<Longrightarrow> has_key t key j = has_key s key j) \<Longrightarrow> leaf_lookup t key = leaf_lookup s key"
  unfolding leaf_lookup_def by (auto intro: find_cong_on)

lemma sum_change:
  fixes f h :: "nat \<Rightarrow> nat"
  assumes "j < n" "\<And>i. i < n \<Longrightarrow> i \<noteq> j \<Longrightarrow> h i = f i"
  shows "(\<Sum>i<n. h i) + f j = (\<Sum>i<n. f i) + h j"
proof -
  have "sum h ({..<n} - {j}) = sum f ({..<n} - {j})" by (rule sum.cong) (use assms in auto)
  then show ?thesis using assms(1) sum.remove [of "{..<n}" j h] sum.remove [of "{..<n}" j f] by simp
qed

section \<open>Deletion\<close>

definition deleted :: "nat \<Rightarrow> leaf \<Rightarrow> leaf" where
  "deleted j s = s\<lparr>leaf_status := SetDeleteSize (GetDeletedSize (leaf_status s) + ucast (GetTotalLength (metas s ! j))) (leaf_status s),
     metas := (metas s)[j := SetVisible False (metas s ! j)]\<rparr>"

lemma deleted_size_new:
  assumes "leaf_inv s" "j < record_count s" "IsVisible (metas s ! j)"
  shows "unat (GetDeletedSize (leaf_status s) + ucast (GetTotalLength (metas s ! j))) = deleted_size s + tot (metas s ! j)"
    "deleted_size s + tot (metas s ! j) < 2 ^ 22"
proof -
  let ?f = "\<lambda>i. if IsVisible (metas s ! i) then 0 else tot (metas s ! i)"
  let ?h = "\<lambda>i. if i = j then tot (metas s ! j) else ?f i"
  note r = leaf_invD [OF assms(1)]
  have "(\<Sum>i<record_count s. ?h i) = (\<Sum>i<record_count s. ?f i) + tot (metas s ! j)"
    using sum_change [OF assms(2), of ?h ?f] assms(3) by simp
  moreover have "(\<Sum>i<record_count s. ?h i) \<le> (\<Sum>i<record_count s. tot (metas s ! i))" by (rule sum_mono) simp
  ultimately have "deleted_size s + tot (metas s ! j) \<le> block_size s" using r(2) by (simp add: leaf_records_def)
  moreover have "block_size s < 2 ^ 19" using r(1) by (simp add: leaf_shape_def)
  ultimately show b: "deleted_size s + tot (metas s ! j) < 2 ^ 22" by simp
  have "unat (ucast (GetTotalLength (metas s ! j)) :: u32) = tot (metas s ! j)"
    by (simp add: unsigned_ucast_eq take_bit_nat_eq_self less_le_trans [OF unsigned_less])
  then show "unat (GetDeletedSize (leaf_status s) + ucast (GetTotalLength (metas s ! j))) = deleted_size s + tot (metas s ! j)"
    using b by (simp add: unat_word_ariths)
qed

lemma deleted_fields:
  assumes "leaf_inv s" "j < record_count s" "IsVisible (metas s ! j)"
  shows "record_count (deleted j s) = record_count s" "block_size (deleted j s) = block_size s"
    "deleted_size (deleted j s) = deleted_size s + tot (metas s ! j)" "leaf_mem (deleted j s) = leaf_mem s"
    "leaf_size (deleted j s) = leaf_size s" "leaf_sorted (deleted j s) = leaf_sorted s"
    "length (metas (deleted j s)) = length (metas s)" "IsFrozen (leaf_status (deleted j s)) \<longleftrightarrow> IsFrozen (leaf_status s)"
proof -
  note d = deleted_size_new [OF assms]
  have "unat (GetDeletedSize (leaf_status s) + ucast (GetTotalLength (metas s ! j))) < 2 ^ 22" using d by simp
  note f = SetDeleteSize_fields [OF this, of "leaf_status s"]
  show "record_count (deleted j s) = record_count s" "block_size (deleted j s) = block_size s"
    "deleted_size (deleted j s) = deleted_size s + tot (metas s ! j)" "IsFrozen (leaf_status (deleted j s)) \<longleftrightarrow> IsFrozen (leaf_status s)"
    using f d(1) by (simp_all add: deleted_def record_count_def)
qed (simp_all add: deleted_def)

lemma deleted_meta:
  assumes "leaf_inv s" "j < record_count s"
  shows "metas (deleted j s) ! i = (if i = j then SetVisible False (metas s ! j) else metas s ! i)"
  using leaf_invD(5) [OF assms] by (simp add: deleted_def)

lemma rec_key_cong:
  "leaf_mem t = leaf_mem s \<Longrightarrow> GetKeyLength m' = GetKeyLength m \<Longrightarrow> GetOffset m' = GetOffset m \<Longrightarrow> rec_key t m' = rec_key s m"
  by (simp add: rec_key_def)

lemma deleted_inv:
  assumes "leaf_inv s" "j < record_count s" "IsVisible (metas s ! j)"
  shows "leaf_inv (deleted j s)"
proof -
  note f = deleted_fields [OF assms] and m = deleted_meta [OF assms(1,2)] and r = leaf_invD [OF assms(1)]
  note v = SetVisible_fields [of False]
  have eq: "tot (metas (deleted j s) ! i) = tot (metas s ! i)" "off (metas (deleted j s) ! i) = off (metas s ! i)"
    "klen (metas (deleted j s) ! i) = klen (metas s ! i)" for i by (simp_all add: m v)
  have "leaf_shape (deleted j s)" using r(1) assms(2) by (auto simp: leaf_shape_def f m)
  moreover have "leaf_records (deleted j s)" unfolding leaf_records_def
  proof (intro conjI)
    show "\<forall>i<record_count (deleted j s). meta_ok (node_size (deleted j s) - block_size (deleted j s)) (node_size (deleted j s)) (metas (deleted j s) ! i)"
      using r(4) unfolding meta_ok_def eq f(1,2,5) by blast
    show "\<forall>i<record_count (deleted j s). \<forall>k<record_count (deleted j s). i \<noteq> k \<longrightarrow> apart (metas (deleted j s) ! i) (metas (deleted j s) ! k)"
      using r(2) by (simp add: f leaf_records_def apart_def eq)
    show "block_size (deleted j s) = (\<Sum>i<record_count (deleted j s). tot (metas (deleted j s) ! i))"
      using r(2) by (simp add: f leaf_records_def eq)
    let ?f = "\<lambda>s i. if IsVisible (metas s ! i) then 0 else tot (metas s ! i)"
    have "(\<Sum>i<record_count s. ?f (deleted j s) i) + ?f s j = (\<Sum>i<record_count s. ?f s i) + ?f (deleted j s) j"
      by (rule sum_change [OF assms(2)]) (simp add: m)
    then show "deleted_size (deleted j s) = (\<Sum>i<record_count (deleted j s). ?f (deleted j s) i)"
      using r(2) assms(3) by (simp add: f leaf_records_def m v)
  qed
  moreover have "visible_keys_differ (deleted j s)" unfolding visible_keys_differ_def
  proof (intro allI impI)
    fix a b assume ab: "a < record_count (deleted j s)" "b < record_count (deleted j s)" "IsVisible (metas (deleted j s) ! a)"
      "IsVisible (metas (deleted j s) ! b)" "rec_key (deleted j s) (metas (deleted j s) ! a) = rec_key (deleted j s) (metas (deleted j s) ! b)"
    have "a \<noteq> j" "b \<noteq> j" using ab(3,4) by (auto simp: m v)
    then show "a = b" using ab r(3) by (simp add: m f visible_keys_differ_def rec_key_def)
  qed
  ultimately show ?thesis by (simp add: leaf_inv_def)
qed

lemma deleted_lookup:
  assumes "leaf_inv s" "j < record_count s" "IsVisible (metas s ! j)"
  shows "leaf_lookup (deleted j s) key = (if key = rec_key s (metas s ! j) then None else leaf_lookup s key)"
proof -
  note f = deleted_fields [OF assms] and m = deleted_meta [OF assms(1,2)]
  have h: "has_key (deleted j s) key i \<longleftrightarrow> i \<noteq> j \<and> has_key s key i" for i
    by (auto simp: has_key_def m SetVisible_fields rec_key_def f)
  show ?thesis
  proof (cases "key = rec_key s (metas s ! j)")
    case True
    have "\<not> has_key (deleted j s) key i" if "i < record_count s" for i
    proof
      assume "has_key (deleted j s) key i"
      then have "i \<noteq> j \<and> has_key s key i" unfolding h .
      then have "i \<noteq> j" "IsVisible (metas s ! i)" "rec_key s (metas s ! i) = rec_key s (metas s ! j)" using True by (auto simp: has_key_def)
      then show False using that assms(2,3) leaf_invD(3) [OF assms(1)] by (simp add: visible_keys_differ_def)
    qed
    then show ?thesis using True by (simp add: lookup_None f)
  next
    case False
    then have "\<not> has_key s key j" by (simp add: has_key_def)
    then have "has_key (deleted j s) key i = has_key s key i" for i unfolding h by auto
    then show ?thesis using False lookup_cong [OF f(1)] by simp
  qed
qed

lemma deleted_abs:
  assumes "leaf_inv s" "leaf_lookup s key = Some j"
  shows "leaf_abs (deleted j s) = (leaf_abs s)(key := None)"
proof
  note l = lookup_Some [OF assms(2)]
  fix k
  have "rec_val (deleted j s) (metas (deleted j s) ! i) = rec_val s (metas s ! i)" if "i < record_count s" for i
    by (simp add: rec_val_def deleted_meta [OF assms(1) l(1)] SetVisible_fields payload_pos_def GetPaddedKeyLength_def
        deleted_fields [OF assms(1) l(1,2)])
  then show "leaf_abs (deleted j s) k = ((leaf_abs s)(key := None)) k"
    using l deleted_lookup [OF assms(1) l(1,2)] lookup_Some(1) [of s k] by (cases "leaf_lookup s k") (auto simp: leaf_abs_def)
qed

lemma mw_eq: "mwcas_spec mw \<Longrightarrow> distinct (map fst es) \<Longrightarrow> mw es s = mwcas_alone es s"
  by (simp add: mwcas_spec_def)

lemma leaf_Delete_eq:
  assumes "mwcas_spec mw" "leaf_inv s" "sorted_visible s"
  shows "leaf_Delete (Suc fuel) mw g key s =
     (if IsFrozen (leaf_status s) then Inr (RetNodeFrozen, s)
      else case leaf_lookup s key of None \<Rightarrow> Inr (RetNotFound, s) | Some j \<Rightarrow> Inr (RetOk, deleted j s))"
proof (cases "leaf_lookup s key")
  case (Some j)
  note l = lookup_Some [OF Some] and r = leaf_invD [OF assms(2)]
  have "\<not> IsInserting g (metas s ! j)" by (rule meta_in_node(6) [OF r(1) r(4) [OF l(1)]])
  then show ?thesis using Some r(5) [OF l(1)]
    by (simp add: SearchRecordMeta_eq [OF assms(2,3)] mw_eq [OF assms(1)] mwcas_alone_def deleted_def Let_def)
qed (simp add: SearchRecordMeta_eq [OF assms(2,3)])

section \<open>Update\<close>

definition leaf_updated :: "nat \<Rightarrow> u64 \<Rightarrow> leaf \<Rightarrow> leaf" where
  "leaf_updated j v s = s\<lparr>leaf_mem := put (payload_pos (metas s ! j)) (u64_bytes v) (leaf_mem s)\<rparr>"

lemma updated_simps [simp]:
  "metas (leaf_updated j v s) = metas s" "leaf_status (leaf_updated j v s) = leaf_status s" "leaf_size (leaf_updated j v s) = leaf_size s"
  "leaf_sorted (leaf_updated j v s) = leaf_sorted s" "record_count (leaf_updated j v s) = record_count s"
  by (simp_all add: leaf_updated_def record_count_def)

lemma updated_records:
  assumes "leaf_inv s" "i < record_count s" "j < record_count s"
  shows "rec_key (leaf_updated j v s) (metas s ! i) = rec_key s (metas s ! i)"
    "rec_val (leaf_updated j v s) (metas s ! i) = (if i = j then v else rec_val s (metas s ! i))"
proof -
  let ?i = "metas s ! i" and ?j = "metas s ! j"
  note r = leaf_invD [OF assms(1)]
  note i = meta_in_node [OF r(1) r(4) [OF assms(2)]] and j = meta_in_node [OF r(1) r(4) [OF assms(3)]]
  have ap: "apart ?i ?j" if "i \<noteq> j" using that assms(2,3) r(2) by (simp add: leaf_records_def)
  have p: "payload_pos ?j + length (u64_bytes v) \<le> length (leaf_mem s)" using j(2) by simp
  have "off ?i + klen ?i \<le> payload_pos ?j \<or> payload_pos ?j + length (u64_bytes v) \<le> off ?i"
    using ap i(3,4) j(3,4) by (cases "i = j") (auto simp: apart_def)
  then show "rec_key (leaf_updated j v s) ?i = rec_key s ?i"
    unfolding rec_key_def leaf_updated_def using put_other [OF p _ i(1)] by simp
  show "rec_val (leaf_updated j v s) ?i = (if i = j then v else rec_val s ?i)"
  proof (cases "i = j")
    case True
    then show ?thesis using put_same [OF p, of 8] by (simp add: rec_val_def leaf_updated_def le_u64_bytes)
  next
    case False
    then have "payload_pos ?i + 8 \<le> payload_pos ?j \<or> payload_pos ?j + length (u64_bytes v) \<le> payload_pos ?i"
      using ap i(3,4) j(3,4) by (auto simp: apart_def)
    then show ?thesis using False put_other [OF p _ i(2)] by (simp add: rec_val_def leaf_updated_def)
  qed
qed

lemma updated_lookup:
  assumes "leaf_inv s" "j < record_count s"
  shows "leaf_lookup (leaf_updated j v s) key = leaf_lookup s key"
  by (rule lookup_cong) (simp_all add: has_key_def updated_records [OF assms(1) _ assms(2)])

lemma updated_inv:
  assumes "leaf_inv s" "j < record_count s"
  shows "leaf_inv (leaf_updated j v s)"
proof -
  note r = leaf_invD [OF assms(1)]
  have "length (leaf_mem (leaf_updated j v s)) = length (leaf_mem s)"
    using meta_in_node(2) [OF r(1) r(4) [OF assms(2)]] by (simp add: leaf_updated_def)
  then have "leaf_shape (leaf_updated j v s)" using r(1) by (simp add: leaf_shape_def)
  moreover have "leaf_records (leaf_updated j v s)" using r(2) unfolding leaf_records_def updated_simps .
  moreover have "visible_keys_differ (leaf_updated j v s)"
    using r(3) by (simp add: visible_keys_differ_def updated_records [OF assms(1) _ assms(2)])
  ultimately show ?thesis by (simp add: leaf_inv_def)
qed

lemma updated_abs:
  assumes "leaf_inv s" "leaf_lookup s key = Some j"
  shows "leaf_abs (leaf_updated j v s) = (leaf_abs s)(key \<mapsto> v)"
proof
  note l = lookup_Some [OF assms(2)]
  fix k
  show "leaf_abs (leaf_updated j v s) k = ((leaf_abs s)(key \<mapsto> v)) k"
  proof (cases "leaf_lookup s k")
    case None
    then show ?thesis using assms(2) by (auto simp: leaf_abs_def updated_lookup [OF assms(1) l(1)])
  next
    case (Some i)
    note k = lookup_Some [OF Some]
    have "i = j" if "k = key" using Some assms(2) that by simp
    moreover have "k = key" if "i = j" using k(3) l(3) that by simp
    ultimately have "k = key \<longleftrightarrow> i = j" by blast
    then show ?thesis using Some by (simp add: leaf_abs_def updated_lookup [OF assms(1) l(1)] updated_records [OF assms(1) k(1) l(1)])
  qed
qed

lemma updated_same:
  assumes "leaf_inv s" "j < record_count s" "rec_val s (metas s ! j) = v"
  shows "leaf_updated j v s = s"
proof -
  let ?p = "payload_pos (metas s ! j)"
  note r = leaf_invD [OF assms(1)]
  have p: "?p + 8 \<le> length (leaf_mem s)" by (rule meta_in_node(2) [OF r(1) r(4) [OF assms(2)]])
  have b: "u64_bytes (le_bytes xs) = xs" if "length xs = 8" for xs
  proof (rule nth_equalityI)
    fix i assume "i < length (u64_bytes (le_bytes xs))"
    then have "i < 8" by simp
    show "u64_bytes (le_bytes xs) ! i = xs ! i"
    proof (rule bit_word_eqI)
      fix k assume "k < LENGTH(8)"
      then have "(8 * i + k) div 8 = i" "(8 * i + k) mod 8 = k" "8 * i + k < 64" using \<open>i < 8\<close> by simp_all
      then show "bit (u64_bytes (le_bytes xs) ! i) k = bit (xs ! i) k"
        using \<open>i < 8\<close> that \<open>k < LENGTH(8)\<close> by (simp add: u64_bytes_nth bit_ucast_iff bit_drop_bit_eq bit_le_bytes)
    qed
  qed (simp add: that)
  have "u64_bytes v = take 8 (drop ?p (leaf_mem s))"
    unfolding assms(3) [symmetric] rec_val_def by (rule b) (use p in simp)
  then have "put ?p (u64_bytes v) (leaf_mem s) = leaf_mem s"
    unfolding put_def using append_take_drop_id [of 8 "drop ?p (leaf_mem s)"] append_take_drop_id [of ?p "leaf_mem s"] p
    by (simp add: add.commute min_def)
  then show ?thesis by (simp add: leaf_updated_def)
qed

lemma leaf_Update_eq:
  assumes "mwcas_spec mw" "leaf_inv s" "sorted_visible s"
  shows "leaf_Update (Suc fuel) mw g key v s =
     (if IsFrozen (leaf_status s) then Inr (RetNodeFrozen, s)
      else case leaf_lookup s key of None \<Rightarrow> Inr (RetNotFound, s) | Some j \<Rightarrow> Inr (RetOk, leaf_updated j v s))"
proof (cases "leaf_lookup s key")
  case (Some j)
  let ?m = "metas s ! j"
  note l = lookup_Some [OF Some] and r = leaf_invD [OF assms(2)]
  note m = meta_in_node [OF r(1) r(4) [OF l(1)]] and load = load_rec [OF r(1) r(4) [OF l(1)]]
  have "GetTotalLength ?m \<noteq> 0" using m(8) by auto
  moreover have "1 \<le> klen ?m" "klen ?m \<le> 88" using r(4) [OF l(1)] by (simp_all add: meta_ok_def)
  then have "unat (GetPaddedKeyLength ?m) \<noteq> 0"
    using payload_pos_eq [of ?m] pad8_bounds(1) [of "klen ?m"] by (simp add: payload_pos_def)
  then have "GetPaddedKeyLength ?m \<noteq> 0" by auto
  ultimately have raw: "GetRawRecord s ?m = Inr (Some (off ?m), rec_val s ?m)" using load by (simp add: GetRawRecord_def)
  have pp: "off ?m + unat (GetPaddedKeyLength ?m) = payload_pos ?m" by (simp add: payload_pos_def)
  have set: "fold (\<lambda>(c, old, new). set_cell c new)
      [(WordCell (payload_pos ?m), rec_val s ?m, v), (MetaCell j, ?m, ?m), (StatusCell, leaf_status s, leaf_status s)] s = leaf_updated j v s"
    by (simp add: leaf_updated_def put_def)
  have "mw [(WordCell (payload_pos ?m), rec_val s ?m, v), (MetaCell j, ?m, ?m), (StatusCell, leaf_status s, leaf_status s)] s =
      (True, leaf_updated j v s)"
    unfolding mw_eq [OF assms(1), of "[(WordCell (payload_pos ?m), rec_val s ?m, v), (MetaCell j, ?m, ?m), (StatusCell, leaf_status s, leaf_status s)]",
        simplified] mwcas_alone_def set using load r(5) [OF l(1)] by simp
  then show ?thesis using Some m(6) [of g] raw pp updated_same [OF assms(2) l(1)]
    by (auto simp: SearchRecordMeta_eq [OF assms(2,3)] Let_def)
qed (simp add: SearchRecordMeta_eq [OF assms(2,3)])

lemma leaf_Read_eq:
  assumes "leaf_inv s" "sorted_visible s"
  shows "leaf_Read g key s = Inr (case leaf_abs s key of None \<Rightarrow> (RetNotFound, None) | Some v \<Rightarrow> (RetOk, Some v))"
proof (cases "leaf_lookup s key")
  case (Some j)
  note l = lookup_Some [OF Some] and r = leaf_invD [OF assms(1)]
  show ?thesis using Some load_rec [OF r(1) r(4) [OF l(1)]] by (simp add: leaf_Read_def SearchRecordMeta_eq [OF assms] leaf_abs_def)
qed (simp add: leaf_Read_def SearchRecordMeta_eq [OF assms] leaf_abs_def)

section \<open>Insertion\<close>

text \<open>\<open>s'\<close> is \<open>s\<close> with one more record, below the others.\<close>

definition extended :: "u8 list \<Rightarrow> u64 \<Rightarrow> u64 \<Rightarrow> leaf \<Rightarrow> leaf \<Rightarrow> bool" where
  "extended key v m s s' \<longleftrightarrow> leaf_size s' = leaf_size s \<and> leaf_sorted s' = leaf_sorted s \<and> record_count s' = Suc (record_count s) \<and>
     block_size s' = block_size s + tot m \<and> deleted_size s' = deleted_size s \<and> metas s' = (metas s)[record_count s := m] \<and>
     length (leaf_mem s') = length (leaf_mem s) \<and> 32 + block_size s' + 8 * record_count s' \<le> node_size s \<and>
     IsVisible m \<and> klen m = length key \<and> tot m = pad8 (klen m) + 8 \<and> off m = node_size s - block_size s' \<and>
     rec_key s' m = key \<and> rec_val s' m = v \<and>
     (\<forall>i < record_count s. rec_key s' (metas s ! i) = rec_key s (metas s ! i) \<and> rec_val s' (metas s ! i) = rec_val s (metas s ! i))"

lemma extendedD:
  assumes "extended key v m s s'"
  shows "leaf_size s' = leaf_size s" "leaf_sorted s' = leaf_sorted s" "record_count s' = Suc (record_count s)"
    "block_size s' = block_size s + tot m" "deleted_size s' = deleted_size s" "metas s' = (metas s)[record_count s := m]"
    "length (leaf_mem s') = length (leaf_mem s)" "32 + block_size s' + 8 * record_count s' \<le> node_size s"
    "IsVisible m" "klen m = length key" "tot m = pad8 (klen m) + 8" "off m = node_size s - block_size s'"
    "rec_key s' m = key" "rec_val s' m = v"
    "\<And>i. i < record_count s \<Longrightarrow> rec_key s' (metas s ! i) = rec_key s (metas s ! i)"
    "\<And>i. i < record_count s \<Longrightarrow> rec_val s' (metas s ! i) = rec_val s (metas s ! i)"
  using assms unfolding extended_def by blast+

lemma extended_metas:
  assumes "leaf_inv s" "extended key v m s s'"
  shows "record_count s < length (metas s)" "metas s' ! record_count s = m" "\<And>i. i < record_count s \<Longrightarrow> metas s' ! i = metas s ! i"
proof -
  have l: "length (metas s) = (node_size s - 32) div 8" using assms(1) by (simp add: leaf_inv_def leaf_shape_def)
  have "32 + 8 * Suc (record_count s) \<le> node_size s" using extendedD(3,8) [OF assms(2)] by simp
  then show *: "record_count s < length (metas s)" using l by simp
  have "metas s' = (metas s)[record_count s := m]" by (rule extendedD(6) [OF assms(2)])
  then show "metas s' ! record_count s = m" "\<And>i. i < record_count s \<Longrightarrow> metas s' ! i = metas s ! i" using * by simp_all
qed

lemma extended_lookup:
  assumes "leaf_inv s" "extended key v m s s'" "leaf_lookup s key = None"
  shows "leaf_lookup s' k = (if k = key then Some (record_count s) else leaf_lookup s k)"
proof -
  note e = extended_metas [OF assms(1,2)]
  have "has_key s' k i = has_key s k i" if "i < record_count s" for i
    using extendedD(15) [OF assms(2) that] e(3) [OF that] by (simp add: has_key_def)
  then have "find (has_key s' k) [0..<record_count s] = leaf_lookup s k" unfolding leaf_lookup_def by (auto intro: find_cong_on)
  moreover have "record_count s' = Suc (record_count s)" "has_key s' k (record_count s) \<longleftrightarrow> k = key"
    using extendedD(3,9,13) [OF assms(2)] by (auto simp: has_key_def e(2))
  ultimately show ?thesis using assms(3) unfolding leaf_lookup_def [of s'] by (auto simp: find_append split: option.splits)
qed

lemma extended_inv:
  assumes "leaf_inv s" "extended key v m s s'" "leaf_lookup s key = None" "1 \<le> length key" "length key \<le> 88"
  shows "leaf_inv s'"
proof -
  note e = extended_metas [OF assms(1,2)] and r = leaf_invD [OF assms(1)]
  have x: "node_size s' = node_size s" "record_count s' = Suc (record_count s)" "block_size s' = block_size s + tot m"
    "deleted_size s' = deleted_size s" "length (metas s') = length (metas s)" "off m = node_size s - block_size s'"
    "block_size s' \<le> node_size s" "tot m = pad8 (klen m) + 8" "klen m = length key" "IsVisible m" "rec_key s' m = key"
    using extendedD [OF assms(2)] by simp_all
  have cases: "P i" if "i < record_count s'" "i < record_count s \<Longrightarrow> P i" "P (record_count s)" for P i
    using that less_Suc_eq x(2) by (cases "i = record_count s") auto
  have shape: "leaf_shape s'" unfolding leaf_shape_def x(1,2,5)
  proof (intro conjI allI impI)
    fix i assume "i < length (metas s)" "Suc (record_count s) \<le> i"
    then show "metas s' ! i = 0" using r(1) extendedD(6) [OF assms(2)] by (simp add: leaf_shape_def)
  qed (use r(1) extendedD(1-8) [OF assms(2)] in \<open>simp_all add: leaf_shape_def\<close>)
  have ok: "meta_ok (node_size s' - block_size s') (node_size s') m" using x assms(4,5) by (simp add: meta_ok_def)
  have old: "meta_ok (node_size s' - block_size s') (node_size s') (metas s ! i)" "apart m (metas s ! i)" "apart (metas s ! i) m"
    if "i < record_count s" for i
    using r(4) [OF that] x by (auto simp: meta_ok_def apart_def)
  have "leaf_records s'" unfolding leaf_records_def
  proof (intro conjI allI impI)
    fix i assume "i < record_count s'"
    then show "meta_ok (node_size s' - block_size s') (node_size s') (metas s' ! i)" by (rule cases) (simp_all add: e ok old)
  next
    fix i j assume ij: "i < record_count s'" "j < record_count s'" "i \<noteq> j"
    show "apart (metas s' ! i) (metas s' ! j)"
    proof (cases "i < record_count s \<and> j < record_count s")
      case True
      then show ?thesis using r(2) ij(3) by (simp add: e leaf_records_def)
    next
      case False
      then have "i = record_count s \<and> j < record_count s \<or> j = record_count s \<and> i < record_count s" using ij x(2) by linarith
      then show ?thesis by (auto simp: e old)
    qed
  next
    show "block_size s' = (\<Sum>i<record_count s'. tot (metas s' ! i))"
      using r(2) by (simp add: x(2,3) e leaf_records_def)
    have "(\<Sum>i<record_count s. if IsVisible (metas s' ! i) then 0 else tot (metas s' ! i)) = deleted_size s"
      using r(2) by (simp add: e leaf_records_def cong: if_cong)
    then show "deleted_size s' = (\<Sum>i<record_count s'. if IsVisible (metas s' ! i) then 0 else tot (metas s' ! i))"
      by (simp add: x(2,4,10) e(2))
  qed
  moreover have "visible_keys_differ s'" unfolding visible_keys_differ_def
  proof (intro allI impI)
    fix i j assume ij: "i < record_count s'" "j < record_count s'" "IsVisible (metas s' ! i)" "IsVisible (metas s' ! j)"
      "rec_key s' (metas s' ! i) = rec_key s' (metas s' ! j)"
    have k: "rec_key s' (metas s ! i) = rec_key s (metas s ! i)" if "i < record_count s" for i
      by (rule extendedD(15) [OF assms(2) that])
    have n: "rec_key s (metas s ! i) \<noteq> key" if "i < record_count s" "IsVisible (metas s' ! i)" for i
      using assms(3) that unfolding lookup_None by (auto simp: has_key_def e)
    show "i = j"
    proof (cases "i < record_count s \<and> j < record_count s")
      case True
      then show ?thesis using r(3) ij by (simp add: e k visible_keys_differ_def)
    next
      case False
      then have "i = record_count s \<and> j < record_count s \<or> j = record_count s \<and> i < record_count s \<or> i = j" using ij x(2) by linarith
      then show ?thesis using ij(3-5) n [of i] n [of j] k [of i] k [of j] x(11) by (elim disjE conjE) (auto simp: e)
    qed
  qed
  ultimately show ?thesis using shape by (simp add: leaf_inv_def)
qed

lemma extended_abs:
  assumes "leaf_inv s" "extended key v m s s'" "leaf_lookup s key = None"
  shows "leaf_abs s' = (leaf_abs s)(key \<mapsto> v)"
proof
  fix k
  note e = extended_metas [OF assms(1,2)] and l = extended_lookup [OF assms]
  show "leaf_abs s' k = ((leaf_abs s)(key \<mapsto> v)) k"
  proof (cases "k = key")
    case True
    then show ?thesis using extendedD(14) [OF assms(2)] by (simp add: leaf_abs_def l e(2))
  next
    case False
    show ?thesis
    proof (cases "leaf_lookup s k")
      case (Some i)
      have "i < record_count s" by (rule lookup_Some(1) [OF Some])
      then show ?thesis using False Some extendedD(16) [OF assms(2)] by (simp add: leaf_abs_def l e(3))
    qed (use False in \<open>simp add: leaf_abs_def l\<close>)
  qed
qed

lemma extended_sorted:
  assumes "leaf_inv s" "extended key v m s s'" "sorted_visible s"
  shows "sorted_visible s'"
proof -
  have "unat (leaf_sorted s) \<le> record_count s" using assms(1) by (simp add: leaf_inv_def leaf_shape_def)
  then show ?thesis using assms(3) extendedD(2) [OF assms(2)] extended_metas(3) [OF assms(1,2)] by (simp add: sorted_visible_def)
qed

text \<open>The words that an insertion computes.\<close>

lemma unat_ucast_wide: "LENGTH('a) \<le> LENGTH('b) \<Longrightarrow> unat (ucast (x :: 'a::len word) :: 'b::len word) = unat x"
proof -
  assume "LENGTH('a) \<le> LENGTH('b)"
  then have "unat x < 2 ^ LENGTH('b)" using unsigned_less [of x] power_increasing [of "LENGTH('a)" "LENGTH('b)" "2 :: nat"] by (meson less_le_trans one_le_numeral)
  then show ?thesis by (simp add: unsigned_ucast_eq take_bit_nat_eq_self)
qed

lemma used_space:
  assumes "leaf_shape s"
  shows "unat (GetUsedSpace (leaf_status s)) = 32 + block_size s + 8 * record_count s"
proof -
  have b: "32 + block_size s + 8 * record_count s < 2 ^ 19" using assms by (auto simp: leaf_shape_def)
  have "unat (ucast (GetRecordCount (leaf_status s)) :: u32) = record_count s" by (simp add: unat_ucast_wide record_count_def)
  then show ?thesis using b by (simp add: GetUsedSpace_def unat_word_ariths)
qed

lemma padded_length:
  assumes "length key \<le> 88"
  defines "padded \<equiv> ucast (PadKeyLength (of_nat (length key))) :: u64"
  shows "unat padded = pad8 (length key)" "unat (padded + 8) = pad8 (length key) + 8" "unat (ucast (padded + 8) :: u32) = pad8 (length key) + 8"
    "pad8 (length key) \<le> 88"
proof -
  have l: "unat (of_nat (length key) :: u16) = length key" using assms(1) by (simp add: unat_of_nat)
  show p: "pad8 (length key) \<le> 88" using assms(1) by (simp add: pad8_def)
  show 1: "unat padded = pad8 (length key)"
    using PadKeyLength_bounds [of "of_nat (length key)"] assms(1) by (simp add: padded_def unat_ucast_wide l pad8_def)
  show 2: "unat (padded + 8) = pad8 (length key) + 8" using 1 p by (simp add: unat_word_ariths)
  show "unat (ucast (padded + 8) :: u32) = pad8 (length key) + 8"
    using 2 p by (simp add: unsigned_ucast_eq take_bit_nat_eq_self)
qed

lemma new_size_eq:
  assumes "leaf_shape s" "length key \<le> 88"
  shows "unat (ucast (GetUsedSpace (leaf_status s)) + 8 + ucast (PadKeyLength (of_nat (length key))) + 8 :: u64) =
    32 + block_size s + 8 * record_count s + 8 + pad8 (length key) + 8"
proof -
  have "32 + block_size s + 8 * record_count s < 2 ^ 19" using assms(1) by (auto simp: leaf_shape_def)
  moreover have "unat (ucast (GetUsedSpace (leaf_status s)) :: u64) = 32 + block_size s + 8 * record_count s"
    by (simp add: unat_ucast_wide used_space [OF assms(1)])
  ultimately show ?thesis using padded_length(1,4) [OF assms(2)] by (simp add: unat_word_ariths)
qed

text \<open>The second phase of an insertion of a unique key, on its own.\<close>

lemma insert_phase2_unique:
  assumes "mwcas_spec mw" "FinalizeForInsert offset (of_nat (length key)) t = Inr m" "GetTotalLength m < 100"
    "\<not> IsFrozen (leaf_status s)" "i < length (metas s)" "metas s ! i = d"
  shows "insert_phase2 (Suc fuel) mw g key IsUnique i ptr offset padded t d s = Inr (RetOk, s\<lparr>metas := (metas s)[i := m]\<rparr>)"
  using assms by (simp add: mw_eq [OF assms(1)] mwcas_alone_def Let_def)

definition insert_result :: "u8 list \<Rightarrow> u64 \<Rightarrow> u64 \<Rightarrow> u64 \<Rightarrow> leaf \<Rightarrow> leaf" where
  "insert_result key v d m s =
     s\<lparr>leaf_status := d, metas := (metas s)[record_count s := m],
       leaf_mem := put (off m + pad8 (length key)) (u64_bytes v) (put (off m) key (leaf_mem s))\<rparr>"

lemma insert_result_extended:
  assumes "leaf_inv s" "1 \<le> length key" "length key \<le> 88"
    "32 + block_size s + 8 * record_count s + 8 + pad8 (length key) + 8 \<le> node_size s"
    "unat (GetRecordCount d) = Suc (record_count s)" "unat (GetBlockSize d) = block_size s + (pad8 (length key) + 8)"
    "GetDeletedSize d = GetDeletedSize (leaf_status s)"
    "IsVisible m" "klen m = length key" "tot m = pad8 (length key) + 8" "off m = node_size s - (block_size s + (pad8 (length key) + 8))"
  shows "extended key v m s (insert_result key v d m s)"
proof -
  let ?s = "insert_result key v d m s" and ?p = "off m"
  note r = leaf_invD [OF assms(1)]
  have mem: "length (leaf_mem s) = node_size s" using r(1) by (simp add: leaf_shape_def)
  have top: "?p + (pad8 (length key) + 8) = node_size s - block_size s" using assms(4,11) by simp
  have p: "?p + length key \<le> length (leaf_mem s)" "?p + pad8 (length key) + length (u64_bytes v) \<le> length (put ?p key (leaf_mem s))"
    using top mem pad8_bounds(1) [of "length key"] assms(4,11) by auto
  have m: "payload_pos m = ?p + pad8 (length key)" using payload_pos_eq [of m] assms(3,9) by simp
  have frame: "take n (drop q (leaf_mem ?s)) = take n (drop q (leaf_mem s))" if "?p + (pad8 (length key) + 8) \<le> q" "q + n \<le> length (leaf_mem s)" for q n
    unfolding insert_result_def using put_other [OF p(2), of q n] put_other [OF p(1), of q n] p that pad8_bounds(1) [of "length key"] by simp
  have "rec_key ?s m = key"
    unfolding rec_key_def insert_result_def using put_other [OF p(2), of ?p "length key"] put_same [OF p(1)] pad8_bounds(1) [of "length key"] p(1) assms(9)
    by simp
  moreover have "rec_val ?s m = v"
    unfolding rec_val_def m insert_result_def using put_same [OF p(2), of 8] by (simp add: le_u64_bytes)
  moreover have "rec_key ?s (metas s ! i) = rec_key s (metas s ! i) \<and> rec_val ?s (metas s ! i) = rec_val s (metas s ! i)" if "i < record_count s" for i
  proof -
    note o = meta_in_node [OF r(1) r(4) [OF that]]
    have "?p + (pad8 (length key) + 8) \<le> off (metas s ! i)" using top r(4) [OF that] by (simp add: meta_ok_def)
    then show ?thesis unfolding rec_key_def rec_val_def using frame o(1,2,4) by simp
  qed
  ultimately show ?thesis using assms(4-11) p
    by (simp add: extended_def insert_result_def record_count_def)
qed

text \<open>The words of an insertion into a node with room: the status word \<open>d\<close> of the reservation and the metadata \<open>m\<close>.\<close>

definition insert_words :: "u8 list \<Rightarrow> leaf \<Rightarrow> u64 \<Rightarrow> u64 \<Rightarrow> bool" where
  "insert_words key s d m \<longleftrightarrow>
     (let padded = ucast (PadKeyLength (of_nat (length key))); offset = ucast (leaf_size s - GetBlockSize d) in
      status_PrepareForInsert (ucast (padded + 8)) (leaf_status s) = Inr d \<and> unat offset = off m \<and>
      FinalizeForInsert offset (of_nat (length key)) (padded + 8) = Inr m)"

lemma insert_words_exist:
  assumes "leaf_inv s" "length key \<le> 88" "32 + block_size s + 8 * record_count s + 8 + pad8 (length key) + 8 \<le> node_size s"
  obtains d m where "insert_words key s d m" "unat (GetRecordCount d) = Suc (record_count s)"
    "unat (GetBlockSize d) = block_size s + (pad8 (length key) + 8)" "GetDeletedSize d = GetDeletedSize (leaf_status s)"
    "IsFrozen d = IsFrozen (leaf_status s)" "IsVisible m" "off m = node_size s - (block_size s + (pad8 (length key) + 8))"
    "klen m = length key" "tot m = pad8 (length key) + 8"
proof -
  note r = leaf_invD [OF assms(1)] and room = assms(3)
  define padded where "padded = (ucast (PadKeyLength (of_nat (length key))) :: u64)"
  note pl = padded_length [OF assms(2), folded padded_def]
  have small: "node_size s < 2 ^ 19" using r(1) by (simp add: leaf_shape_def)
  have "(ucast (padded + 8) :: u32) > 0" using pl(3) by (simp add: word_gt_0 flip: unat_eq_0)
  then obtain d where d: "status_PrepareForInsert (ucast (padded + 8)) (leaf_status s) = Inr d" by (simp add: status_PrepareForInsert_def)
  have df: "unat (GetRecordCount d) = Suc (record_count s)" "unat (GetBlockSize d) = block_size s + (pad8 (length key) + 8)"
    "GetDeletedSize d = GetDeletedSize (leaf_status s)" "IsFrozen d = IsFrozen (leaf_status s)"
    using status_PrepareForInsert_fields [OF d] room small pl(3) by (simp_all add: record_count_def)
  define offset where "offset = (ucast (leaf_size s - GetBlockSize d) :: u64)"
  have o: "unat offset = node_size s - (block_size s + (pad8 (length key) + 8))"
    using df(2) room by (simp add: offset_def unat_ucast_wide unat_sub word_le_nat_alt)
  obtain m where m: "FinalizeForInsert offset (of_nat (length key)) (padded + 8) = Inr m" "IsVisible m" "GetOffset m = ucast offset"
    "GetKeyLength m = ucast (of_nat (length key) :: u64)" "GetTotalLength m = ucast (padded + 8)"
  proof (rule FinalizeForInsert_fields)
    show "unat offset < 2 ^ 28" "offset \<noteq> 0" using o small room by (auto simp: unat_eq_0 [symmetric])
    show "unat (of_nat (length key) :: u64) < 2 ^ 16" "unat (padded + 8) < 2 ^ 16" using assms(2) pl(2,4) by (simp_all add: unat_of_nat)
  qed
  have mf: "off m = node_size s - (block_size s + (pad8 (length key) + 8))" "klen m = length key" "tot m = pad8 (length key) + 8"
    using m(3-5) o small assms(2) pl(2,4) by (simp_all add: unsigned_ucast_eq take_bit_nat_eq_self unat_of_nat)
  have "insert_words key s d m" using d m(1) mf(1) o by (simp add: insert_words_def Let_def padded_def [symmetric] offset_def [symmetric])
  from that [OF this df m(2) mf] show thesis .
qed

lemma leaf_Insert_steps:
  assumes "mwcas_spec mw" "leaf_inv s" "sorted_visible s" "\<not> IsFrozen (leaf_status s)" "leaf_lookup s key = None" "length key \<le> 88" "g < 2 ^ 27"
    "32 + block_size s + 8 * record_count s + 8 + pad8 (length key) + 8 < unat thr" "thr \<le> leaf_size s"
    "insert_words key s d m" "\<not> IsFrozen d" "off m + pad8 (length key) + 8 \<le> node_size s" "tot m < 100"
  shows "leaf_Insert (Suc (Suc fuel)) mw g thr key v s = Inr (RetOk, insert_result key v d m s)"
proof -
  note r = leaf_invD [OF assms(2)]
  define padded where "padded = (ucast (PadKeyLength (of_nat (length key))) :: u64)"
  define offset where "offset = (ucast (leaf_size s - GetBlockSize d) :: u64)"
  define dm where "dm = (push_bit 59 1 OR push_bit 32 g :: u64)"
  note pl = padded_length [OF assms(6), folded padded_def]
  have w: "status_PrepareForInsert (ucast (padded + 8)) (leaf_status s) = Inr d" "unat offset = off m"
    "FinalizeForInsert offset (of_nat (length key)) (padded + 8) = Inr m"
    using assms(10) by (simp_all add: insert_words_def Let_def padded_def offset_def)
  have i: "record_count s < length (metas s)" and z: "metas s ! record_count s = 0" and mem: "length (leaf_mem s) = node_size s"
    using r(1) assms(8,9) by (auto simp: leaf_shape_def word_le_nat_alt)
  let ?s1 = "s\<lparr>leaf_status := d, metas := (metas s)[record_count s := dm]\<rparr>"
  let ?s2 = "?s1\<lparr>leaf_mem := put (off m) key (leaf_mem s)\<rparr>"
  let ?s3 = "?s2\<lparr>leaf_mem := put (off m + pad8 (length key)) (u64_bytes v) (leaf_mem ?s2)\<rparr>"
  have mw1: "mw [(StatusCell, leaf_status s, d), (MetaCell (record_count s), 0, dm)] s = (True, ?s1)"
    using i z by (simp add: mw_eq [OF assms(1)] mwcas_alone_def)
  have st: "store_node (off m) key ?s1 = Inr ?s2" "store_node (off m + pad8 (length key)) (u64_bytes v) ?s2 = Inr ?s3"
    using assms(12) mem pad8_bounds(1) [of "length key"] by (simp_all add: store_node_def storeR_put)
  have p2: "insert_phase2 (Suc fuel) mw g key IsUnique (record_count s) (off m) offset padded (padded + 8) dm ?s3 =
      Inr (RetOk, ?s3\<lparr>metas := (metas ?s3)[record_count s := m]\<rparr>)"
    by (rule insert_phase2_unique [OF assms(1) w(3)]) (use assms(11,13) i in \<open>simp_all add: word_less_nat_alt\<close>)
  have res: "?s3\<lparr>metas := (metas ?s3)[record_count s := m]\<rparr> = insert_result key v d m s" by (simp add: insert_result_def)
  have fit: "\<not> ucast thr \<le> (ucast (GetUsedSpace (leaf_status s)) + 8 + padded + 8 :: u64)"
    using new_size_eq [OF r(1) assms(6)] assms(8) by (simp add: padded_def word_le_nat_alt unat_ucast_wide)
  have cu: "CheckUnique g key s = Inr IsUnique" by (simp add: CheckUnique_def SearchRecordMeta_eq [OF assms(2,3)] assms(5))
  have prep: "meta_PrepareForInsert g 0 = Inr dm" unfolding dm_def by (rule meta_PrepareForInsert_Inr [OF assms(7)])
  show ?thesis
    using assms(4) fit p2 unfolding res
    by (simp add: Let_def cu w(1) padded_def [symmetric] i z IsVacant_def prep mw1 offset_def [symmetric] w(2) pl(1) st del: insert_phase2.simps)
qed

section \<open>The operations implement a map\<close>

definition insert_code :: "u32 \<Rightarrow> u8 list \<Rightarrow> leaf \<Rightarrow> return_code" where
  "insert_code thr key s =
     (if IsFrozen (leaf_status s) then RetNodeFrozen
      else if leaf_abs s key \<noteq> None then RetKeyExists
      else if unat thr \<le> 32 + block_size s + 8 * record_count s + 8 + pad8 (length key) + 8 then RetNotEnoughSpace
      else RetOk)"

lemma leaf_Insert_refused:
  assumes "leaf_inv s" "sorted_visible s" "length key \<le> 88" "insert_code thr key s \<noteq> RetOk"
  shows "leaf_Insert (Suc fuel) mw g thr key v s = Inr (insert_code thr key s, s)"
proof (cases "leaf_lookup s key")
  case (Some j)
  note l = lookup_Some [OF Some] and r = leaf_invD [OF assms(1)]
  note m = meta_in_node(6) [OF r(1) r(4) [OF l(1)], of g] GetKey_rec [OF r(1) r(4) [OF l(1)] l(2)]
  have "CheckUnique g key s = Inr Duplicate"
    using Some m l(2,3) KeyCompare_eq [of key key] by (simp add: CheckUnique_def SearchRecordMeta_eq [OF assms(1,2)])
  then show ?thesis using Some by (simp add: insert_code_def leaf_abs_def Let_def)
next
  case None
  then have "CheckUnique g key s = Inr IsUnique" by (simp add: CheckUnique_def SearchRecordMeta_eq [OF assms(1,2)])
  moreover have "ucast thr \<le> (ucast (GetUsedSpace (leaf_status s)) + 8 + ucast (PadKeyLength (of_nat (length key))) + 8 :: u64)"
    if "\<not> IsFrozen (leaf_status s)"
    using new_size_eq [OF leaf_invD(1) [OF assms(1)] assms(3)] assms(4) None that
    by (simp add: insert_code_def leaf_abs_def word_le_nat_alt unat_ucast_wide split: if_splits)
  moreover have "insert_code thr key s = (if IsFrozen (leaf_status s) then RetNodeFrozen else RetNotEnoughSpace)"
    using assms(4) None by (simp add: insert_code_def leaf_abs_def split: if_splits)
  ultimately show ?thesis by (simp add: Let_def)
qed

lemma LeafNode_New_inv:
  assumes "32 \<le> n" "n < 2 ^ 19"
  shows "leaf_inv (LeafNode_New n)" "sorted_visible (LeafNode_New n)" "leaf_abs (LeafNode_New n) = Map.empty"
proof -
  have z: "GetRecordCount 0 = 0" "GetBlockSize 0 = 0" "GetDeletedSize 0 = 0"
    by (simp_all add: GetRecordCount_def GetBlockSize_def GetDeletedSize_def)
  have n: "32 \<le> unat n" "unat n < 2 ^ 19" using assms by (simp_all add: word_le_nat_alt word_less_nat_alt)
  have c: "record_count (LeafNode_New n) = 0" by (simp add: record_count_def LeafNode_New_def z)
  show "leaf_inv (LeafNode_New n)"
    unfolding leaf_inv_def leaf_shape_def leaf_records_def visible_keys_differ_def c using n by (simp add: LeafNode_New_def z)
  show "sorted_visible (LeafNode_New n)" by (simp add: sorted_visible_def LeafNode_New_def)
  show "leaf_abs (LeafNode_New n) = Map.empty" by (rule ext) (simp add: leaf_abs_def leaf_lookup_def c)
qed

text \<open>
  C36: insertion into a leaf returns, keeps the invariant, and returns the code that says why it did nothing, or else adds the key
  with its payload to the map: a frozen node, a key that is there already and a node without room are left as they are.
\<close>

theorem leaf_Insert_correct:
  assumes "mwcas_spec mw" "leaf_inv s" "sorted_visible s" "1 \<le> length key" "length key \<le> 88" "g < 2 ^ 27" "thr \<le> leaf_size s"
  shows "\<exists>s'. leaf_Insert (Suc (Suc fuel)) mw g thr key v s = Inr (insert_code thr key s, s') \<and> leaf_inv s' \<and> sorted_visible s' \<and>
    (if insert_code thr key s = RetOk then leaf_abs s' = (leaf_abs s)(key \<mapsto> v) else s' = s)"
proof (cases "insert_code thr key s = RetOk")
  case True
  then have c: "\<not> IsFrozen (leaf_status s)" "leaf_lookup s key = None"
    and room: "32 + block_size s + 8 * record_count s + 8 + pad8 (length key) + 8 < unat thr"
    by (auto simp: insert_code_def leaf_abs_def split: if_splits)
  then have le: "32 + block_size s + 8 * record_count s + 8 + pad8 (length key) + 8 \<le> node_size s"
    using assms(7) by (simp add: word_le_nat_alt)
  obtain d m where dm: "insert_words key s d m" "unat (GetRecordCount d) = Suc (record_count s)"
    "unat (GetBlockSize d) = block_size s + (pad8 (length key) + 8)" "GetDeletedSize d = GetDeletedSize (leaf_status s)"
    "IsFrozen d = IsFrozen (leaf_status s)" "IsVisible m" "off m = node_size s - (block_size s + (pad8 (length key) + 8))"
    "klen m = length key" "tot m = pad8 (length key) + 8" by (rule insert_words_exist [OF assms(2,5) le])
  have e: "extended key v m s (insert_result key v d m s)"
    by (rule insert_result_extended [OF assms(2,4,5) le dm(2-4,6,8,9,7)])
  have "leaf_Insert (Suc (Suc fuel)) mw g thr key v s = Inr (RetOk, insert_result key v d m s)"
    by (rule leaf_Insert_steps [OF assms(1-3) c assms(5,6) room assms(7) dm(1)])
      (use dm c le padded_length(4) [OF assms(5)] in simp_all)
  then show ?thesis using True extended_inv [OF assms(2) e c(2) assms(4,5)] extended_abs [OF assms(2) e c(2)] extended_sorted [OF assms(2) e assms(3)]
    by auto
next
  case False
  then show ?thesis using leaf_Insert_refused [OF assms(2,3,5) False] assms(2,3) by auto
qed

lemma mwcas_alone_spec: "mwcas_spec mwcas_alone"
  by (simp add: mwcas_spec_def)

theorem leaf_Insert_correct_witness:
  "mwcas_spec mwcas_alone \<and> leaf_inv (LeafNode_New 128) \<and> sorted_visible (LeafNode_New 128) \<and> insert_code 128 [1] (LeafNode_New 128) = RetOk \<and>
   (\<exists>s'. leaf_Insert (Suc (Suc 0)) mwcas_alone 0 128 [1] 7 (LeafNode_New 128) = Inr (RetOk, s') \<and> leaf_inv s' \<and> leaf_abs s' = [[1] \<mapsto> 7])"
proof -
  have n: "leaf_inv (LeafNode_New 128)" "sorted_visible (LeafNode_New 128)" "leaf_abs (LeafNode_New 128) = Map.empty"
    by (rule LeafNode_New_inv; simp)+
  have c: "insert_code 128 [1] (LeafNode_New 128) = RetOk" by code_simp
  have "\<exists>s'. leaf_Insert (Suc (Suc 0)) mwcas_alone 0 128 [1] 7 (LeafNode_New 128) = Inr (insert_code 128 [1] (LeafNode_New 128), s') \<and>
      leaf_inv s' \<and> sorted_visible s' \<and> (if insert_code 128 [1] (LeafNode_New 128) = RetOk then leaf_abs s' = (leaf_abs (LeafNode_New 128))([1] \<mapsto> 7)
      else s' = LeafNode_New 128)"
    by (rule leaf_Insert_correct [OF mwcas_alone_spec n(1,2)]) (simp_all add: LeafNode_New_def)
  then show ?thesis using n c mwcas_alone_spec by auto
qed

text \<open>A node with one sorted record.\<close>

definition sample_leaf :: leaf where
  "sample_leaf = \<lparr>leaf_size = 64, leaf_status = push_bit 44 1 OR push_bit 22 16, leaf_sorted = 1,
     metas = [kVisibleMask OR push_bit 32 48 OR push_bit 16 1 OR 16, 0, 0, 0], leaf_mem = replicate 48 0 @ [1, 0, 0, 0, 0, 0, 0, 0] @ u64_bytes 7\<rparr>"

lemma sample_leaf_facts:
  "record_count sample_leaf = 1" "block_size sample_leaf = 16" "deleted_size sample_leaf = 0" "IsVisible (metas sample_leaf ! 0)"
  "off (metas sample_leaf ! 0) = 48" "klen (metas sample_leaf ! 0) = 1" "tot (metas sample_leaf ! 0) = 16" "\<not> IsFrozen (leaf_status sample_leaf)"
  "rec_key sample_leaf (metas sample_leaf ! 0) = [1]"
  by code_simp+

lemma sample_leaf_inv: "leaf_inv sample_leaf" "sorted_visible sample_leaf"
proof -
  note f = sample_leaf_facts
  have g: "node_size sample_leaf = 64" "leaf_sorted sample_leaf = 1" "length (leaf_mem sample_leaf) = 64" "length (metas sample_leaf) = 4"
    by (simp_all add: sample_leaf_def)
  have z: "metas sample_leaf ! i = 0" if "i < 4" "1 \<le> i" for i using that by (cases i) (auto simp: sample_leaf_def less_Suc_eq numeral_eq_Suc)
  have "leaf_shape sample_leaf" unfolding leaf_shape_def g f(1,2) using z by auto
  moreover have "leaf_records sample_leaf" unfolding leaf_records_def f(1-3) g by (simp add: f meta_ok_def pad8_def)
  moreover have "visible_keys_differ sample_leaf" unfolding visible_keys_differ_def f(1) by simp
  ultimately show "leaf_inv sample_leaf" by (simp add: leaf_inv_def)
  show "sorted_visible sample_leaf" unfolding sorted_visible_def g using f(4) by simp
qed

lemma deleted_sorted_visible:
  assumes "leaf_inv s" "sorted_visible s" "j < record_count s" "IsVisible (metas s ! j)"
  shows "sorted_visible (deleted j s) = (unat (leaf_sorted s) \<le> j)"
proof -
  note f = deleted_fields [OF assms(1,3,4)] and m = deleted_meta [OF assms(1,3)]
  have "unat (leaf_sorted s) \<le> record_count s" using leaf_invD(1) [OF assms(1)] by (simp add: leaf_shape_def)
  then show ?thesis using assms(2,3) by (auto simp: sorted_visible_def m f SetVisible_fields not_le)
qed

text \<open>
  C37: update, deletion and reading return and agree with the map of the leaf, in every state that satisfies the invariant and whose sorted
  records are all visible (\<open>sorted_visible\<close>): a missing key is reported and nothing changes, a frozen
  node is not changed, an update replaces the payload of the key and a deletion removes the key; both keep the invariant. An update also keeps the sorted
  records visible, so that any operation may follow. A deletion does so exactly when the record of the key is not one of the sorted ones; the search that
  comes after a deletion of a sorted record is not covered here.
\<close>

theorem leaf_ops_correct:
  assumes "mwcas_spec mw" "leaf_inv s" "sorted_visible s"
  shows "leaf_Read g key s = Inr (case leaf_abs s key of None \<Rightarrow> (RetNotFound, None) | Some v \<Rightarrow> (RetOk, Some v)) \<and>
    (if IsFrozen (leaf_status s) then
       leaf_Update (Suc fuel) mw g key v s = Inr (RetNodeFrozen, s) \<and> leaf_Delete (Suc fuel) mw g key s = Inr (RetNodeFrozen, s)
     else if leaf_abs s key = None then
       leaf_Update (Suc fuel) mw g key v s = Inr (RetNotFound, s) \<and> leaf_Delete (Suc fuel) mw g key s = Inr (RetNotFound, s)
     else
       (\<exists>s'. leaf_Update (Suc fuel) mw g key v s = Inr (RetOk, s') \<and> leaf_inv s' \<and> sorted_visible s' \<and> leaf_abs s' = (leaf_abs s)(key \<mapsto> v)) \<and>
       (\<exists>s' j. leaf_Delete (Suc fuel) mw g key s = Inr (RetOk, s') \<and> leaf_inv s' \<and> leaf_abs s' = (leaf_abs s)(key := None) \<and>
          leaf_lookup s key = Some j \<and> sorted_visible s' = (unat (leaf_sorted s) \<le> j)))"
proof (cases "leaf_lookup s key")
  case None
  then show ?thesis using leaf_Read_eq [OF assms(2,3)] leaf_Update_eq [OF assms] leaf_Delete_eq [OF assms] by (simp add: leaf_abs_def)
next
  case (Some j)
  note l = lookup_Some [OF Some]
  have "sorted_visible (leaf_updated j v s)" using assms(3) by (simp add: sorted_visible_def)
  then show ?thesis using Some leaf_Read_eq [OF assms(2,3)] leaf_Update_eq [OF assms] leaf_Delete_eq [OF assms] updated_inv [OF assms(2) l(1)]
      updated_abs [OF assms(2) Some] deleted_inv [OF assms(2) l(1,2)] deleted_abs [OF assms(2) Some] deleted_sorted_visible [OF assms(2,3) l(1,2)]
    by (auto simp: leaf_abs_def [of s key])
qed

theorem leaf_ops_correct_witness:
  "mwcas_spec mwcas_alone \<and> leaf_inv sample_leaf \<and> sorted_visible sample_leaf \<and>
   leaf_Read 0 [1] sample_leaf = Inr (RetOk, Some 7) \<and> leaf_Read 0 [2] sample_leaf = Inr (RetNotFound, None) \<and>
   (\<exists>s'. leaf_Update (Suc 0) mwcas_alone 0 [1] 8 sample_leaf = Inr (RetOk, s') \<and> leaf_abs s' [1] = Some 8) \<and>
   (\<exists>s'. leaf_Delete (Suc 0) mwcas_alone 0 [1] sample_leaf = Inr (RetOk, s') \<and> leaf_abs s' [1] = None \<and> \<not> sorted_visible s')"
proof -
  have a: "leaf_abs sample_leaf [1] = Some 7" "leaf_abs sample_leaf [2] = None" "leaf_lookup sample_leaf [1] = Some 0" by code_simp+
  have s: "leaf_sorted sample_leaf = 1" by (simp add: sample_leaf_def)
  note ops = leaf_ops_correct [OF mwcas_alone_spec sample_leaf_inv]
  show ?thesis using ops [of 0 "[1]" 0 8] ops [of 0 "[2]" 0 8] a s sample_leaf_facts(8) sample_leaf_inv mwcas_alone_spec by auto
qed

section \<open>Deleting a sorted record\<close>

lemma search_sorted_fails:
  assumes "leaf_shape s" "i \<le> j" "j < i + n" "j < length (metas s)" "\<not> IsVisible (metas s ! j)"
    "\<And>k. i \<le> k \<Longrightarrow> k < j \<Longrightarrow> IsVisible (metas s ! k) \<and> meta_ok low (node_size s) (metas s ! k) \<and> rec_key s (metas s ! k) \<noteq> key"
  shows "search_sorted s key n i = Inl AssertFail"
  using assms(2,3,6)
proof (induction n arbitrary: i)
  case (Suc n)
  show ?case
  proof (cases "i = j")
    case True
    then show ?thesis using assms(4,5) by (simp add: GetKey_def)
  next
    case False
    then have i: "i < j" using Suc.prems(1) by simp
    then have k: "IsVisible (metas s ! i)" "meta_ok low (node_size s) (metas s ! i)" "rec_key s (metas s ! i) \<noteq> key" using Suc.prems(3) [of i] by auto
    have "search_sorted s key n (i + 1) = Inl AssertFail" by (rule Suc.IH) (use Suc.prems i in auto)
    moreover have "KeyCompare (Some key) (Some (rec_key s (metas s ! i))) \<noteq> 0" using k(3) by (simp add: KeyCompare_eq)
    ultimately show ?thesis using i assms(4) GetKey_rec [OF assms(1) k(2,1)] by simp
  qed
qed simp

text \<open>
  C39: deleting a record of the sorted part succeeds, but from then on every search for a key that is not found before that record, a read
  of the deleted key among them, fails the assertion that sorted records have a key.
\<close>

theorem delete_sorted_breaks_search:
  assumes "mwcas_spec mw" "leaf_inv s" "sorted_visible s" "\<not> IsFrozen (leaf_status s)" "j < unat (leaf_sorted s)"
    "rec_key s (metas s ! j) = key" "\<forall>i<j. rec_key s (metas s ! i) \<noteq> key'"
  shows "\<exists>s'. leaf_Delete (Suc fuel) mw g key s = Inr (RetOk, s') \<and> leaf_inv s' \<and> leaf_Read g key' s' = Inl AssertFail \<and>
    leaf_Update (Suc fuel) mw g key' v s' = Inl AssertFail \<and> leaf_Delete (Suc fuel) mw g key' s' = Inl AssertFail \<and>
    leaf_Insert (Suc fuel) mw g thr key' v s' = Inl AssertFail"
proof -
  note r = leaf_invD [OF assms(2)]
  have le: "unat (leaf_sorted s) \<le> record_count s" using r(1) by (simp add: leaf_shape_def)
  then have j: "j < record_count s" "IsVisible (metas s ! j)" using assms(3,5) by (auto simp: sorted_visible_def)
  obtain j' where j': "leaf_lookup s key = Some j'" using j assms(6) lookup_None [of s key] by (cases "leaf_lookup s key") (auto simp: has_key_def)
  then have "j' = j" using lookup_Some [OF j'] j assms(6) r(3) unfolding visible_keys_differ_def by metis
  then have del: "leaf_Delete (Suc fuel) mw g key s = Inr (RetOk, deleted j s)" using leaf_Delete_eq [OF assms(1-3)] assms(4) j' by simp
  note f = deleted_fields [OF assms(2) j] and m = deleted_meta [OF assms(2) j(1)]
  note inv = deleted_inv [OF assms(2) j]
  have "search_sorted (deleted j s) key' (unat (leaf_sorted (deleted j s))) 0 = Inl AssertFail"
  proof (rule search_sorted_fails)
    show "leaf_shape (deleted j s)" by (rule leaf_invD(1) [OF inv])
    show "j < 0 + unat (leaf_sorted (deleted j s))" using assms(5) by (simp add: f)
    show "j < length (metas (deleted j s))" using r(5) [OF j(1)] by (simp add: f)
    show "\<not> IsVisible (metas (deleted j s) ! j)" by (simp add: m SetVisible_fields)
    fix k assume "k < j"
    then show "IsVisible (metas (deleted j s) ! k) \<and>
        meta_ok (node_size (deleted j s) - block_size (deleted j s)) (node_size (deleted j s)) (metas (deleted j s) ! k) \<and>
        rec_key (deleted j s) (metas (deleted j s) ! k) \<noteq> key'"
      using assms(3,5,7) j(1) leaf_invD(4) [OF inv, of k] by (simp add: m f sorted_visible_def rec_key_def)
  qed simp
  then have search: "SearchRecordMeta g cc key' (deleted j s) = Inl AssertFail" for cc by (simp add: SearchRecordMeta_def)
  then show ?thesis using del inv f(8) assms(4) by (auto simp: leaf_Read_def CheckUnique_def Let_def)
qed

theorem delete_sorted_breaks_search_witness:
  "mwcas_spec mwcas_alone \<and> leaf_inv sample_leaf \<and> sorted_visible sample_leaf \<and> \<not> IsFrozen (leaf_status sample_leaf) \<and>
   (\<exists>s'. leaf_Delete (Suc 0) mwcas_alone 0 [1] sample_leaf = Inr (RetOk, s') \<and> leaf_Read 0 [2] s' = Inl AssertFail)"
proof -
  have "leaf_sorted sample_leaf = 1" by (simp add: sample_leaf_def)
  then show ?thesis
    using delete_sorted_breaks_search [OF mwcas_alone_spec sample_leaf_inv sample_leaf_facts(8), of 0 "[1]" "[2]" 0 0 0 0] sample_leaf_facts
      sample_leaf_inv mwcas_alone_spec by auto
qed

end
