(* ===== verification/BzConsolidate.thy ===== *)
theory BzConsolidate
  imports BzLeaf_Proofs
begin

text \<open>
  Consolidation and merging of BzTree leaf nodes: the sort of the visible records, the copy loop, and that the new node holds the map of
  the old one, or of the two old ones, without deleted records and in the order of the keys.
\<close>

section \<open>Sorting\<close>

lemma mset_insert_by: "mset (insert_by lt x ys) = add_mset x (mset ys)"
  by (induction ys) auto

lemma set_insert_by: "set (insert_by lt x ys) = insert x (set ys)"
  using mset_insert_by [of lt x ys] by (metis set_mset_add_mset_insert set_mset_mset)

lemma mset_insertion_sort: "mset (foldr (insert_by lt) xs []) = mset xs"
  by (induction xs) (simp_all add: mset_insert_by)

lemma sorted_insert_by:
  assumes "sorted_wrt lt ys" "\<And>y. y \<in> set ys \<Longrightarrow> lt x y \<or> lt y x"
    "\<And>y z. y \<in> set ys \<Longrightarrow> z \<in> set ys \<Longrightarrow> lt x y \<Longrightarrow> lt y z \<Longrightarrow> lt x z"
  shows "sorted_wrt lt (insert_by lt x ys)"
  using assms
proof (induction ys)
  case (Cons y ys)
  show ?case
  proof (cases "lt y x")
    case True
    have "sorted_wrt lt (insert_by lt x ys)" by (rule Cons.IH) (use Cons.prems in auto)
    then show ?thesis using True Cons.prems(1) by (auto simp: set_insert_by)
  next
    case False
    then have "lt x y" using Cons.prems(2) [of y] by auto
    moreover have "lt x z" if "z \<in> set ys" for z
      using Cons.prems(3) [of y z] Cons.prems(1) that \<open>lt x y\<close> by auto
    ultimately show ?thesis using False Cons.prems(1) by auto
  qed
qed simp

definition key_before :: "u8 list \<Rightarrow> u8 list \<Rightarrow> bool" where
  "key_before a b \<longleftrightarrow> KeyCompare (Some a) (Some b) < 0"

definition one_class :: "u8 list set \<Rightarrow> bool" where
  "one_class K \<longleftrightarrow> (\<forall>a \<in> K. \<forall>b \<in> K. same_class a b)"

lemma key_before_total: "a \<noteq> b \<Longrightarrow> key_before a b \<or> key_before b a"
  using KeyCompare_eq [of a b] KeyCompare_swap [of a b] by (auto simp: key_before_def)

lemma key_before_trans: "same_class a b \<Longrightarrow> same_class b c \<Longrightarrow> key_before a b \<Longrightarrow> key_before b c \<Longrightarrow> key_before a c"
  unfolding key_before_def by (rule KeyCompare_trans)

lemma key_before_irrefl: "\<not> key_before a a"
  using KeyCompare_eq [of a a] by (simp add: key_before_def)

lemma key_before_antisym: "\<not> (key_before a b \<and> key_before b a)"
  using KeyCompare_swap [of a b] by (auto simp: key_before_def)

text \<open>On keys of one class the sort of \<open>std::sort\<close> is defined and gives the keys in order.\<close>

lemma sort_metas_correct:
  assumes "one_class (f ` set ms)" "distinct (map f ms)"
  obtains vs where "sort_metas (map (\<lambda>m. (m, Some (f m))) ms) = Inr (map (\<lambda>m. (m, Some (f m))) vs)" "mset vs = mset ms"
    "sorted_wrt key_before (map f vs)"
proof -
  let ?p = "\<lambda>m. (m, Some (f m))" and ?lt = "\<lambda>m1 m2. KeyCompare (snd m1) (snd m2) < 0"
  have cls: "same_class (f x) (f y)" if "x \<in> set ms" "y \<in> set ms" for x y using assms(1) that by (auto simp: one_class_def)
  have lt: "?lt (?p x) (?p y) \<longleftrightarrow> key_before (f x) (f y)" for x y by (simp add: key_before_def)
  have "weak_order ?lt (map ?p ms)"
  proof -
    have "f x = f y" if "\<not> key_before (f x) (f y)" "\<not> key_before (f y) (f x)" for x y using key_before_total that by blast
    then show ?thesis unfolding weak_order_def using key_before_irrefl key_before_trans cls
      by (simp add: lt [simplified]) metis
  qed
  then have s: "sort_metas (map ?p ms) = Inr (foldr (insert_by ?lt) (map ?p ms) [])" by (simp add: sort_metas_def std_sort_def)
  define vs where "vs = foldr (insert_by (\<lambda>x y. key_before (f x) (f y))) ms []"
  have ins: "insert_by ?lt (?p x) (map ?p ys) = map ?p (insert_by (\<lambda>x y. key_before (f x) (f y)) x ys)" for x ys
    by (induction ys) (simp_all add: lt [simplified])
  have "foldr (insert_by ?lt) (map ?p xs) [] = map ?p (foldr (insert_by (\<lambda>x y. key_before (f x) (f y))) xs [])" for xs
    by (induction xs) (simp_all add: ins)
  then have 1: "sort_metas (map ?p ms) = Inr (map ?p vs)" using s by (simp add: vs_def)
  have 2: "mset vs = mset ms" unfolding vs_def by (rule mset_insertion_sort)
  have "sorted_wrt (\<lambda>x y. key_before (f x) (f y)) (foldr (insert_by (\<lambda>x y. key_before (f x) (f y))) xs [])"
    if "set xs \<subseteq> set ms" "distinct (map f xs)" for xs
    using that
  proof (induction xs)
    case (Cons x xs)
    let ?r = "foldr (insert_by (\<lambda>x y. key_before (f x) (f y))) xs []"
    have st: "set ?r = set xs" using mset_insertion_sort [of _ xs] by (metis set_mset_mset)
    show ?case unfolding foldr_Cons o_apply
    proof (rule sorted_insert_by)
      show "sorted_wrt (\<lambda>x y. key_before (f x) (f y)) ?r" using Cons by simp
      show "key_before (f x) (f y) \<or> key_before (f y) (f x)" if "y \<in> set ?r" for y
        using that Cons.prems(2) key_before_total [of "f x" "f y"] unfolding st by auto
      show "key_before (f x) (f z)" if "y \<in> set ?r" "z \<in> set ?r" "key_before (f x) (f y)" "key_before (f y) (f z)" for y z
        using that(1,2) Cons.prems(1) key_before_trans [OF _ _ that(3,4)] cls unfolding st by auto
    qed
  qed simp
  from this [OF subset_refl assms(2)] have 3: "sorted_wrt key_before (map f vs)" by (simp add: vs_def sorted_wrt_map)
  from that [OF 1 2 3] show thesis .
qed

section \<open>The visible records\<close>

definition visible_list :: "leaf \<Rightarrow> u64 list" where
  "visible_list s = filter IsVisible (map (\<lambda>j. metas s ! j) [0..<record_count s])"

lemma visible_metas_eq:
  assumes "leaf_shape s" "\<And>j. i \<le> j \<Longrightarrow> j < i + n \<Longrightarrow> j < length (metas s) \<and> meta_ok low (node_size s) (metas s ! j)"
  shows "\<exists>t. visible_metas chk s n i = Inr (map (\<lambda>m. (m, Some (rec_key s m))) (filter IsVisible (map (\<lambda>j. metas s ! j) [i..<i + n])), t)"
  using assms(2)
proof (induction n arbitrary: i)
  case (Suc n)
  let ?m = "metas s ! i"
  have m: "i < length (metas s)" "meta_ok low (node_size s) ?m" using Suc.prems [of i] by auto
  have IH: "\<exists>t. visible_metas chk s n (i + 1) = Inr (map (\<lambda>m. (m, Some (rec_key s m))) (filter IsVisible (map (\<lambda>j. metas s ! j) [i + 1..<i + 1 + n])), t)"
    by (rule Suc.IH) (use Suc.prems in auto)
  have u: "[i..<i + Suc n] = i # [i + 1..<i + 1 + n]" by (simp add: upt_rec)
  have t: "GetTotalLength ?m \<noteq> 0" using meta_in_node(8) [OF assms(1) m(2)] by auto
  show ?case unfolding u using IH m(1) t GetKey_rec [OF assms(1) m(2)] by (cases "IsVisible ?m") auto
qed simp

lemma visible_list_metas:
  assumes "leaf_inv s"
  obtains t where "visible_metas chk s (record_count s) 0 = Inr (map (\<lambda>m. (m, Some (rec_key s m))) (visible_list s), t)"
  using visible_metas_eq [OF leaf_invD(1) [OF assms], of 0 "record_count s" "node_size s - block_size s" chk] leaf_invD(4,5) [OF assms] by (auto simp: visible_list_def)

lemma visible_list_set: "m \<in> set (visible_list s) \<longleftrightarrow> IsVisible m \<and> (\<exists>j < record_count s. m = metas s ! j)"
  by (auto simp: visible_list_def)

lemma visible_list_distinct:
  assumes "leaf_inv s"
  shows "distinct (map (rec_key s) (visible_list s))"
proof -
  have "map (rec_key s) (visible_list s) = map (\<lambda>j. rec_key s (metas s ! j)) (filter (\<lambda>j. IsVisible (metas s ! j)) [0..<record_count s])"
    by (simp add: visible_list_def filter_map o_def)
  also have "distinct \<dots>" unfolding distinct_map
    using leaf_invD(3) [OF assms] by (auto simp: inj_on_def visible_keys_differ_def)
  finally show ?thesis .
qed

lemma leaf_abs_map_of:
  assumes "leaf_inv s"
  shows "leaf_abs s = map_of (map (\<lambda>m. (rec_key s m, rec_val s m)) (visible_list s))"
proof
  fix k
  have d: "distinct (map fst (map (\<lambda>m. (rec_key s m, rec_val s m)) (visible_list s)))"
    using visible_list_distinct [OF assms] by (simp add: o_def)
  show "leaf_abs s k = map_of (map (\<lambda>m. (rec_key s m, rec_val s m)) (visible_list s)) k"
  proof (cases "leaf_lookup s k")
    case None
    then have "k \<notin> fst ` set (map (\<lambda>m. (rec_key s m, rec_val s m)) (visible_list s))"
      unfolding lookup_None by (auto simp: visible_list_set has_key_def)
    then show ?thesis using None by (simp add: leaf_abs_def map_of_eq_None_iff [THEN iffD2])
  next
    case (Some j)
    note l = lookup_Some [OF Some]
    have "metas s ! j \<in> set (visible_list s)" using l by (auto simp: visible_list_set)
    then have "(k, rec_val s (metas s ! j)) \<in> set (map (\<lambda>m. (rec_key s m, rec_val s m)) (visible_list s))" using l(3) by auto
    then show ?thesis using Some map_of_is_SomeI [OF d] by (simp add: leaf_abs_def)
  qed
qed

lemma visible_list_space:
  assumes "leaf_inv s"
  shows "(\<Sum>m\<leftarrow>visible_list s. tot m + 8) \<le> block_size s + 8 * record_count s"
proof -
  have f: "(\<Sum>m\<leftarrow>filter P xs. tot m + 8) \<le> (\<Sum>m\<leftarrow>xs. tot m + 8)" for P xs by (induction xs) auto
  have "(\<Sum>m\<leftarrow>visible_list s. tot m + 8) \<le> (\<Sum>m\<leftarrow>map (\<lambda>j. metas s ! j) [0..<record_count s]. tot m + 8)"
    unfolding visible_list_def by (rule f)
  also have "\<dots> = (\<Sum>j<record_count s. tot (metas s ! j) + 8)"
    by (simp add: o_def interv_sum_list_conv_sum_set_nat lessThan_atLeast0)
  also have "\<dots> = block_size s + 8 * record_count s"
    using leaf_invD(2) [OF assms] by (simp add: leaf_records_def sum.distrib)
  finally show ?thesis .
qed

section \<open>The copy loop\<close>

text \<open>The node under construction, as if its header were written already.\<close>

definition under_copy :: "u32 \<Rightarrow> nat \<Rightarrow> leaf \<Rightarrow> leaf" where
  "under_copy offset n new = (copied_header offset n new)\<lparr>leaf_sorted := 0\<rparr>"

definition leaf_keys :: "leaf \<Rightarrow> u8 list list" where
  "leaf_keys s = map (\<lambda>j. rec_key s (metas s ! j)) [0..<record_count s]"

definition all_visible :: "leaf \<Rightarrow> bool" where
  "all_visible s \<longleftrightarrow> (\<forall>j < record_count s. IsVisible (metas s ! j))"

lemma under_copy_fields:
  assumes "leaf_status new = 0" "offset \<le> leaf_size new" "unat (leaf_size new) < 2 ^ 19" "n < 2 ^ 16"
  shows "record_count (under_copy offset n new) = n" "block_size (under_copy offset n new) = unat (leaf_size new) - unat offset"
    "deleted_size (under_copy offset n new) = 0" "leaf_size (under_copy offset n new) = leaf_size new"
    "metas (under_copy offset n new) = metas new" "leaf_mem (under_copy offset n new) = leaf_mem new"
    "leaf_sorted (under_copy offset n new) = 0" "\<not> IsFrozen (leaf_status (under_copy offset n new))"
proof -
  have b: "unat (leaf_size new - offset) = unat (leaf_size new) - unat offset" using assms(2) by (simp add: unat_sub)
  then have "unat (leaf_size new - offset) < 2 ^ 22" using assms(3) by simp
  note f = SetBlockSize_fields [OF this, of 0]
  have "GetDeletedSize 0 = 0" "\<not> IsFrozen 0" by (simp_all add: GetDeletedSize_def IsFrozen_def)
  then show "record_count (under_copy offset n new) = n" "block_size (under_copy offset n new) = unat (leaf_size new) - unat offset"
    "deleted_size (under_copy offset n new) = 0" "\<not> IsFrozen (leaf_status (under_copy offset n new))"
    using f b assms(1,4) by (simp_all add: under_copy_def copied_header_def record_count_def SetRecordCount_fields unat_of_nat)
qed (simp_all add: under_copy_def copied_header_def)

lemma extended_keys:
  assumes "leaf_inv s" "extended key v m s s'"
  shows "leaf_keys s' = leaf_keys s @ [key]" "all_visible s \<Longrightarrow> all_visible s'"
proof -
  note e = extended_metas [OF assms] and x = extendedD [OF assms(2)]
  show "leaf_keys s' = leaf_keys s @ [key]" using e(2,3) x(13,15) by (simp add: leaf_keys_def x(3))
  show "all_visible s'" if "all_visible s" using that e x(9) by (auto simp: all_visible_def x(3) less_Suc_eq)
qed

text \<open>One step of the loop: the metadata of the copy, the new node, and the loop itself.\<close>

lemma ucast_back: "LENGTH('a) \<le> LENGTH('b) \<Longrightarrow> ucast (ucast (x :: 'a::len word) :: 'b::len word) = x"
  by (rule bit_word_eqI) (auto simp: bit_simps dest: bit_imp_le_length)

lemma copied_meta:
  fixes meta :: u64 and ofs :: u32
  assumes "unat ofs \<noteq> 0" "unat ofs < 2 ^ 19"
  obtains m where "FinalizeForInsert (ucast ofs) (ucast (GetKeyLength meta)) (ucast (GetTotalLength meta)) = Inr m" "IsVisible m"
    "GetOffset m = ofs" "GetKeyLength m = GetKeyLength meta" "GetTotalLength m = GetTotalLength meta"
proof -
  obtain m where m: "FinalizeForInsert (ucast ofs) (ucast (GetKeyLength meta)) (ucast (GetTotalLength meta)) = Inr m" "IsVisible m"
    "GetOffset m = ucast (ucast ofs :: u64)" "GetKeyLength m = ucast (ucast (GetKeyLength meta) :: u64)"
    "GetTotalLength m = ucast (ucast (GetTotalLength meta) :: u64)"
  proof (rule FinalizeForInsert_fields)
    show "unat (ucast ofs :: u64) < 2 ^ 28" "(ucast ofs :: u64) \<noteq> 0" using assms by (auto simp: unat_ucast_wide unat_eq_0 [symmetric])
    show "unat (ucast (GetKeyLength meta) :: u64) < 2 ^ 16" "unat (ucast (GetTotalLength meta) :: u64) < 2 ^ 16"
      using unsigned_less [of "GetKeyLength meta"] unsigned_less [of "GetTotalLength meta"] by (simp_all add: unat_ucast_wide)
  qed
  then show thesis using that by (simp add: ucast_back)
qed

lemma copied_record_extended:
  assumes "leaf_shape src" "meta_ok low (node_size src) meta" "leaf_inv s" "IsVisible m" "GetKeyLength m = GetKeyLength meta"
    "GetTotalLength m = GetTotalLength meta" "off m + tot meta + block_size s = node_size s"
    "32 + (block_size s + tot meta) + 8 * Suc (record_count s) \<le> node_size s"
    "leaf_size s' = leaf_size s" "leaf_sorted s' = leaf_sorted s" "record_count s' = Suc (record_count s)"
    "block_size s' = block_size s + tot meta" "deleted_size s' = deleted_size s" "metas s' = (metas s)[record_count s := m]"
    "leaf_mem s' = put (off m) (take (tot meta) (drop (off meta) (leaf_mem src))) (leaf_mem s)"
  shows "extended (rec_key src meta) (rec_val src meta) m s s'"
proof -
  let ?bs = "take (tot meta) (drop (off meta) (leaf_mem src))"
  note src = meta_in_node [OF assms(1,2)] and r = leaf_invD [OF assms(3)]
  have mem: "length (leaf_mem s) = node_size s" using r(1) by (simp add: leaf_shape_def)
  have bs: "length ?bs = tot meta" using src(2,3) by simp
  have p: "off m + length ?bs \<le> length (leaf_mem s)" using bs mem assms(7) by simp
  have kl: "klen meta \<le> 88" "tot meta = pad8 (klen meta) + 8" using assms(2) by (simp_all add: meta_ok_def)
  have pp: "payload_pos m = off m + pad8 (klen meta)" "payload_pos meta = off meta + pad8 (klen meta)"
    using payload_pos_eq [of m] payload_pos_eq [of meta] kl assms(5) by simp_all
  have same: "take (tot meta) (drop (off m) (leaf_mem s')) = ?bs" unfolding assms(15) by (rule put_same [OF p]) (use bs in simp)
  have sub: "take k (drop (off m + d) (leaf_mem s')) = take k (drop (off meta + d) (leaf_mem src))" if "d + k \<le> tot meta" for k d
  proof -
    have "take k (drop (x + d) xs) = take k (drop d (take (tot meta) (drop x xs)))" for x and xs :: "u8 list"
      using that by (simp add: drop_take add.commute min_absorb1)
    then show ?thesis using same by simp
  qed
  have "rec_key s' m = rec_key src meta" using sub [of 0 "klen meta"] pad8_bounds(1) [of "klen meta"] kl(2) by (simp add: rec_key_def assms(5))
  moreover have "rec_val s' m = rec_val src meta" unfolding rec_val_def pp using sub [of "pad8 (klen meta)" 8] kl(2) by simp
  moreover have "rec_key s' (metas s ! i) = rec_key s (metas s ! i) \<and> rec_val s' (metas s ! i) = rec_val s (metas s ! i)"
    if "i < record_count s" for i
  proof -
    note i = meta_in_node [OF r(1) r(4) [OF that]]
    have "off m + tot meta \<le> off (metas s ! i)" using r(4) [OF that] assms(7) by (auto simp: meta_ok_def)
    then show ?thesis unfolding rec_key_def rec_val_def assms(15)
      using put_other [OF p, of "off (metas s ! i)" "klen (metas s ! i)"] put_other [OF p, of "payload_pos (metas s ! i)" 8] i(1,2,4) bs by simp
  qed
  moreover have "length (rec_key src meta) = klen meta" by (rule src(5))
  moreover have "length (leaf_mem s') = length (leaf_mem s)" unfolding assms(15) using p by (rule length_put)
  ultimately show ?thesis unfolding extended_def using assms(4-14) kl by simp
qed

lemma copy_record_step:
  assumes "leaf_shape src" "meta_ok low (node_size src) meta" "leaf_status new = 0" "offset \<le> leaf_size new"
    "leaf_inv (under_copy offset n new)" "n + 1 < 2 ^ 16" "32 + (node_size new - unat offset) + 8 * n + (tot meta + 8) \<le> node_size new"
  obtains m new' where
    "\<And>vec. copy_records chk src (meta # vec) offset n new = copy_records chk src vec (offset - ucast (GetTotalLength meta)) (n + 1) new'"
    "extended (rec_key src meta) (rec_val src meta) m (under_copy offset n new) (under_copy (offset - ucast (GetTotalLength meta)) (n + 1) new')"
    "leaf_status new' = 0" "leaf_size new' = leaf_size new" "unat (offset - ucast (GetTotalLength meta)) = unat offset - tot meta" "tot meta \<le> unat offset"
proof -
  let ?o = "offset - ucast (GetTotalLength meta)" and ?bs = "take (tot meta) (drop (off meta) (leaf_mem src))"
  note src = meta_in_node [OF assms(1,2)] and inv = leaf_invD [OF assms(5)]
  have szu: "node_size (under_copy offset n new) = node_size new" by (simp add: under_copy_def copied_header_def)
  have sz: "node_size new < 2 ^ 19" using inv(1) szu by (simp add: leaf_shape_def)
  have n: "n < 2 ^ 16" using assms(6) by simp
  note u = under_copy_fields [OF assms(3,4) sz n]
  have mem: "length (leaf_mem new) = node_size new" "length (metas new) = (node_size new - 32) div 8"
    using inv(1) by (simp_all add: leaf_shape_def u)
  have o_le: "unat offset \<le> node_size new" using assms(4) by (simp add: word_le_nat_alt)
  have ge: "tot meta \<le> unat offset" using assms(7) o_le by simp
  have uo: "unat ?o = unat offset - tot meta" using ge by (simp add: unat_sub word_le_nat_alt unat_ucast_wide)
  have "unat ?o \<noteq> 0" "unat ?o < 2 ^ 19" using uo assms(7) o_le sz by auto
  from copied_meta [OF this, of meta] obtain m where m: "FinalizeForInsert (ucast ?o) (ucast (GetKeyLength meta)) (ucast (GetTotalLength meta)) = Inr m"
    "IsVisible m" "GetOffset m = ?o" "GetKeyLength m = GetKeyLength meta" "GetTotalLength m = GetTotalLength meta" by blast
  define new' where "new' = new\<lparr>leaf_mem := put (unat ?o) ?bs (leaf_mem new), metas := (metas new)[n := m]\<rparr>"
  have new': "leaf_status new' = 0" "leaf_size new' = leaf_size new" using assms(3) by (simp_all add: new'_def)
  have o': "?o \<le> leaf_size new'" using uo o_le by (simp add: word_le_nat_alt new')
  note u' = under_copy_fields [OF new'(1) o' _ assms(6), unfolded new'(2), OF sz]
  have e: "extended (rec_key src meta) (rec_val src meta) m (under_copy offset n new) (under_copy ?o (n + 1) new')"
    by (rule copied_record_extended [OF assms(1,2,5) m(2,4,5)])
      (use u u' uo ge o_le assms(7) m(3) in \<open>simp_all add: new'_def\<close>)
  have ni: "n < length (metas new)" using mem(2) assms(7) by simp
  have p: "unat ?o + length ?bs \<le> length (leaf_mem new)" using uo ge o_le mem src(2,3) by simp
  have "1 \<le> klen meta" "klen meta \<le> 88" using assms(2) by (simp_all add: meta_ok_def)
  then have "unat (GetPaddedKeyLength meta) \<noteq> 0" using payload_pos_eq [of meta] pad8_bounds(1) [of "klen meta"] by (simp add: payload_pos_def)
  then have raw: "GetRawRecord src meta = Inr (Some (off meta), rec_val src meta)"
    using load_rec [OF assms(1,2)] src(8) by (cases "GetTotalLength meta = 0") (auto simp: GetRawRecord_def)
  have "copy_records chk src (meta # vec) offset n new = copy_records chk src vec ?o (n + 1) new'" for vec
    using raw src(2,3,9) ge m(1) p ni
    by (simp add: word_le_nat_alt unat_ucast_wide node_bytes_def store_node_def storeR_put Let_def new'_def)
  from that [OF this e new' uo ge] show thesis .
qed

text \<open>The whole loop: it adds the records of \<open>vec\<close> in their order.\<close>

definition copy_target :: "u32 \<Rightarrow> nat \<Rightarrow> leaf \<Rightarrow> bool" where
  "copy_target offset n new \<longleftrightarrow> n < 2 ^ 16 \<and> leaf_status new = 0 \<and> offset \<le> leaf_size new \<and>
     leaf_inv (under_copy offset n new) \<and> all_visible (under_copy offset n new)"

lemma copy_records_correct:
  assumes "leaf_shape src" "\<And>m. m \<in> set vec \<Longrightarrow> meta_ok low (node_size src) m" "distinct (map (rec_key src) vec)"
    "copy_target offset n new" "\<And>m. m \<in> set vec \<Longrightarrow> leaf_abs (under_copy offset n new) (rec_key src m) = None"
    "32 + (node_size new - unat offset) + 8 * n + (\<Sum>m\<leftarrow>vec. tot m + 8) \<le> node_size new"
  shows "\<exists>offset' new'. copy_records chk src vec offset n new = Inr (offset', n + length vec, new') \<and> copy_target offset' (n + length vec) new' \<and>
    leaf_size new' = leaf_size new \<and> unat offset' + (\<Sum>m\<leftarrow>vec. tot m) = unat offset \<and>
    leaf_abs (under_copy offset' (n + length vec) new') = leaf_abs (under_copy offset n new) ++ map_of (map (\<lambda>m. (rec_key src m, rec_val src m)) vec) \<and>
    leaf_keys (under_copy offset' (n + length vec) new') = leaf_keys (under_copy offset n new) @ map (rec_key src) vec"
  using assms(2-6)
proof (induction vec arbitrary: offset n new)
  case (Cons meta vec)
  have t: "leaf_status new = 0" "offset \<le> leaf_size new" "leaf_inv (under_copy offset n new)" "all_visible (under_copy offset n new)"
    using Cons.prems(3) by (simp_all add: copy_target_def)
  have ok: "meta_ok low (node_size src) meta" using Cons.prems(1) [of meta] by simp
  have "node_size new < 2 ^ 19" using leaf_invD(1) [OF t(3)] by (simp add: leaf_shape_def under_copy_def copied_header_def)
  then have n: "n + 1 < 2 ^ 16" using Cons.prems(5) by simp
  have room: "32 + (node_size new - unat offset) + 8 * n + (tot meta + 8) \<le> node_size new" using Cons.prems(5) by simp
  let ?o = "offset - ucast (GetTotalLength meta)"
  obtain m new' where st: "\<And>vec. copy_records chk src (meta # vec) offset n new = copy_records chk src vec ?o (n + 1) new'"
    "extended (rec_key src meta) (rec_val src meta) m (under_copy offset n new) (under_copy ?o (n + 1) new')"
    "leaf_status new' = 0" "leaf_size new' = leaf_size new" "unat ?o = unat offset - tot meta" "tot meta \<le> unat offset"
    by (rule copy_record_step [where chk = chk, OF assms(1) ok t(1-3) n room], rule that)
  have none: "leaf_lookup (under_copy offset n new) (rec_key src meta) = None" using Cons.prems(4) [of meta] by (simp add: leaf_abs_def)
  have len: "1 \<le> length (rec_key src meta)" "length (rec_key src meta) \<le> 88"
    using ok meta_in_node(5) [OF assms(1) ok] by (simp_all add: meta_ok_def)
  note ext = extended_inv [OF t(3) st(2) none len] extended_abs [OF t(3) st(2) none] extended_keys [OF t(3) st(2)]
  have o: "unat offset \<le> node_size new" "?o \<le> leaf_size new'" using t(2) st(4-6) by (simp_all add: word_le_nat_alt)
  have tgt: "copy_target ?o (n + 1) new'" using st(3) o(2) ext(1,4) t(4) n by (simp add: copy_target_def)
  have notin: "rec_key src meta \<notin> dom (map_of (map (\<lambda>m. (rec_key src m, rec_val src m)) vec))"
    using Cons.prems(2) by (auto simp: dom_map_of_conv_image_fst image_image)
  have "\<exists>offset'' new''. copy_records chk src vec ?o (n + 1) new' = Inr (offset'', n + 1 + length vec, new'') \<and>
      copy_target offset'' (n + 1 + length vec) new'' \<and> leaf_size new'' = leaf_size new' \<and> unat offset'' + (\<Sum>m\<leftarrow>vec. tot m) = unat ?o \<and>
      leaf_abs (under_copy offset'' (n + 1 + length vec) new'') = leaf_abs (under_copy ?o (n + 1) new') ++ map_of (map (\<lambda>m. (rec_key src m, rec_val src m)) vec) \<and>
      leaf_keys (under_copy offset'' (n + 1 + length vec) new'') = leaf_keys (under_copy ?o (n + 1) new') @ map (rec_key src) vec"
  proof (rule Cons.IH)
    show "copy_target ?o (n + 1) new'" by (rule tgt)
    show "leaf_abs (under_copy ?o (n + 1) new') (rec_key src x) = None" if "x \<in> set vec" for x
    proof -
      have "rec_key src x \<in> rec_key src ` set vec" using that by simp
      then have "rec_key src x \<noteq> rec_key src meta" using Cons.prems(2) by auto
      then show ?thesis unfolding ext(2) using that Cons.prems(4) [of x] by simp
    qed
    show "32 + (node_size new' - unat ?o) + 8 * (n + 1) + (\<Sum>m\<leftarrow>vec. tot m + 8) \<le> node_size new'"
      using Cons.prems(5) st(4-6) o(1) by simp
  qed (use Cons.prems in auto)
  moreover have nl: "n + 1 + length vec = n + length (meta # vec)" by simp
  ultimately obtain o2 new2 where ih: "copy_records chk src vec ?o (n + 1) new' = Inr (o2, n + length (meta # vec), new2)"
    "copy_target o2 (n + length (meta # vec)) new2" "leaf_size new2 = leaf_size new'" "unat o2 + (\<Sum>m\<leftarrow>vec. tot m) = unat ?o"
    "leaf_abs (under_copy o2 (n + length (meta # vec)) new2) = leaf_abs (under_copy ?o (n + 1) new') ++ map_of (map (\<lambda>m. (rec_key src m, rec_val src m)) vec)"
    "leaf_keys (under_copy o2 (n + length (meta # vec)) new2) = leaf_keys (under_copy ?o (n + 1) new') @ map (rec_key src) vec"
    unfolding nl by blast
  show ?case
  proof (intro exI conjI)
    show "copy_records chk src (meta # vec) offset n new = Inr (o2, n + length (meta # vec), new2)" unfolding st(1) by (rule ih(1))
    show "unat o2 + (\<Sum>m\<leftarrow>meta # vec. tot m) = unat offset" using ih(4) st(5,6) by simp
    show "leaf_abs (under_copy o2 (n + length (meta # vec)) new2) =
        leaf_abs (under_copy offset n new) ++ map_of (map (\<lambda>m. (rec_key src m, rec_val src m)) (meta # vec))"
      unfolding ih(5) ext(2) map_add_upd_left [OF notin] by simp
    show "leaf_keys (under_copy o2 (n + length (meta # vec)) new2) = leaf_keys (under_copy offset n new) @ map (rec_key src) (meta # vec)"
      unfolding ih(6) ext(3) by simp
  qed (use ih(2,3) st(4) in simp_all)
qed simp

section \<open>Consolidation and merging\<close>

lemma new_copy_target:
  assumes "32 \<le> n" "n < 2 ^ 19"
  shows "copy_target n 0 (LeafNode_New n)" "leaf_abs (under_copy n 0 (LeafNode_New n)) = Map.empty" "leaf_keys (under_copy n 0 (LeafNode_New n)) = []"
proof -
  have "SetRecordCount 0 (SetBlockSize 0 0) = 0" by (simp add: SetRecordCount_def SetBlockSize_def)
  then have u: "under_copy n 0 (LeafNode_New n) = LeafNode_New n" by (simp add: under_copy_def copied_header_def LeafNode_New_def)
  have c: "record_count (LeafNode_New n) = 0" by (simp add: record_count_def LeafNode_New_def GetRecordCount_def)
  show "copy_target n 0 (LeafNode_New n)"
    unfolding copy_target_def u all_visible_def c using LeafNode_New_inv(1) [OF assms] by (simp add: LeafNode_New_def)
  show "leaf_abs (under_copy n 0 (LeafNode_New n)) = Map.empty" "leaf_keys (under_copy n 0 (LeafNode_New n)) = []"
    unfolding u using LeafNode_New_inv(3) [OF assms] by (simp_all add: leaf_keys_def c)
qed

lemma abs_sorted_cong:
  assumes "leaf_mem t = leaf_mem s" "metas t = metas s" "record_count t = record_count s"
  shows "leaf_abs t = leaf_abs s" "leaf_keys t = leaf_keys s"
proof -
  have k: "rec_key t = rec_key s" "rec_val t = rec_val s" using assms by (auto simp: rec_key_def rec_val_def fun_eq_iff)
  then have h: "has_key t = has_key s" by (auto simp: has_key_def assms fun_eq_iff)
  show "leaf_abs t = leaf_abs s" by (rule ext) (simp add: leaf_abs_def leaf_lookup_def assms k h)
  show "leaf_keys t = leaf_keys s" by (simp add: leaf_keys_def assms k)
qed

text \<open>What the header of the finished node makes of the copy: every record is sorted and visible, nothing is deleted.\<close>

lemma copied_header_inv:
  assumes "copy_target offset n new"
  defines "t \<equiv> copied_header offset n new"
  shows "leaf_inv t" "sorted_visible t" "leaf_abs t = leaf_abs (under_copy offset n new)" "leaf_keys t = leaf_keys (under_copy offset n new)"
    "unat (leaf_sorted t) = record_count t" "record_count t = record_count (under_copy offset n new)" "deleted_size t = 0"
proof -
  let ?u = "under_copy offset n new"
  have c: "n < 2 ^ 16" "leaf_status new = 0" "offset \<le> leaf_size new" "leaf_inv ?u" "all_visible ?u"
    using assms(1) by (simp_all add: copy_target_def)
  have eq: "leaf_size t = leaf_size ?u" "leaf_status t = leaf_status ?u" "metas t = metas ?u" "leaf_mem t = leaf_mem ?u" "leaf_sorted t = of_nat n"
    by (simp_all add: t_def under_copy_def copied_header_def)
  have "node_size new < 2 ^ 19" using leaf_invD(1) [OF c(4)] by (simp add: leaf_shape_def under_copy_def copied_header_def)
  note u = under_copy_fields [OF c(2,3) this c(1)]
  show rc: "record_count t = record_count ?u" by (simp add: record_count_def eq)
  show "unat (leaf_sorted t) = record_count t" unfolding rc eq(5) u(1) using c(1) by (simp add: unat_of_nat)
  then have "sorted_visible t" using c(5) rc by (simp add: sorted_visible_def all_visible_def eq)
  then show "sorted_visible t" .
  show "leaf_abs t = leaf_abs ?u" "leaf_keys t = leaf_keys ?u" by (rule abs_sorted_cong; simp add: eq rc)+
  show "deleted_size t = 0" using u(3) by (simp add: eq)
  have "leaf_shape t" using leaf_invD(1) [OF c(4)] \<open>unat (leaf_sorted t) = record_count t\<close> by (simp add: leaf_shape_def rc eq)
  moreover have "leaf_records t" using leaf_invD(2) [OF c(4)] unfolding leaf_records_def rc eq .
  moreover have "visible_keys_differ t" using leaf_invD(3) [OF c(4)] by (simp add: visible_keys_differ_def rc eq rec_key_def)
  ultimately show "leaf_inv t" by (simp add: leaf_inv_def)
qed

lemma visible_list_dom: "leaf_inv s \<Longrightarrow> rec_key s ` set (visible_list s) = dom (leaf_abs s)"
  by (simp add: leaf_abs_map_of dom_map_of_conv_image_fst image_image)

lemma visible_list_ok: "leaf_inv s \<Longrightarrow> m \<in> set (visible_list s) \<Longrightarrow> meta_ok (node_size s - block_size s) (node_size s) m"
  using leaf_invD(4) [of s] by (auto simp: visible_list_set)

text \<open>Reading and sorting the visible records of a node.\<close>

lemma sorted_records:
  assumes "leaf_inv s" "one_class (dom (leaf_abs s))"
  obtains t vs where "visible_metas chk s (record_count s) 0 = Inr (map (\<lambda>m. (m, Some (rec_key s m))) (visible_list s), t)"
    "sort_metas (map (\<lambda>m. (m, Some (rec_key s m))) (visible_list s)) = Inr (map (\<lambda>m. (m, Some (rec_key s m))) vs)"
    "sorted_wrt key_before (map (rec_key s) vs)" "set vs = set (visible_list s)" "distinct (map (rec_key s) vs)"
    "leaf_abs s = map_of (map (\<lambda>m. (rec_key s m, rec_val s m)) vs)" "(\<Sum>m\<leftarrow>vs. tot m + 8) = (\<Sum>m\<leftarrow>visible_list s. tot m + 8)"
proof -
  let ?kv = "\<lambda>m. (rec_key s m, rec_val s m)"
  obtain t where t: "visible_metas chk s (record_count s) 0 = Inr (map (\<lambda>m. (m, Some (rec_key s m))) (visible_list s), t)"
    by (rule visible_list_metas [OF assms(1)])
  note d = visible_list_distinct [OF assms(1)]
  have "one_class (rec_key s ` set (visible_list s))" using assms(2) visible_list_dom [OF assms(1)] by simp
  then obtain vs where vs: "sort_metas (map (\<lambda>m. (m, Some (rec_key s m))) (visible_list s)) = Inr (map (\<lambda>m. (m, Some (rec_key s m))) vs)"
    "mset vs = mset (visible_list s)" "sorted_wrt key_before (map (rec_key s) vs)" by (rule sort_metas_correct [OF _ d])
  have st: "set vs = set (visible_list s)" using vs(2) by (metis set_mset_mset)
  have "mset (map (rec_key s) vs) = mset (map (rec_key s) (visible_list s))" using vs(2) by simp
  then have dv: "distinct (map (rec_key s) vs)" using d by (metis mset_eq_imp_distinct_iff)
  have "map_of (map ?kv vs) = map_of (map ?kv (visible_list s))"
    by (rule map_of_inject_set [THEN iffD2]) (use d dv st in \<open>simp_all add: o_def\<close>)
  then have ab: "leaf_abs s = map_of (map ?kv vs)" using leaf_abs_map_of [OF assms(1)] by simp
  have "(\<Sum>m\<leftarrow>vs. tot m + 8) = (\<Sum>m\<in>#mset vs. tot m + 8)" by (simp only: sum_mset_sum_list mset_map [symmetric])
  also have "\<dots> = (\<Sum>m\<leftarrow>visible_list s. tot m + 8)" unfolding vs(2) by (simp only: sum_mset_sum_list mset_map [symmetric])
  finally have sm: "(\<Sum>m\<leftarrow>vs. tot m + 8) = (\<Sum>m\<leftarrow>visible_list s. tot m + 8)" .
  from that [OF t vs(1,3) st dv ab sm] show thesis .
qed

lemma frozen_inv:
  assumes "leaf_inv s"
  defines "t \<equiv> s\<lparr>leaf_status := Freeze_word (leaf_status s)\<rparr>"
  shows "leaf_inv t" "leaf_abs t = leaf_abs s" "IsFrozen (leaf_status t)" "leaf_size t = leaf_size s"
proof -
  have rc: "record_count t = record_count s" by (simp add: t_def record_count_def Freeze_fields)
  have eq: "metas t = metas s" "leaf_mem t = leaf_mem s" "block_size t = block_size s" "deleted_size t = deleted_size s" "leaf_sorted t = leaf_sorted s"
    by (simp_all add: t_def Freeze_fields)
  show sz: "leaf_size t = leaf_size s" "IsFrozen (leaf_status t)" by (simp_all add: t_def Freeze_fields)
  show "leaf_abs t = leaf_abs s" by (rule abs_sorted_cong) (simp_all add: eq rc)
  have "leaf_shape t" using leaf_invD(1) [OF assms(1)] unfolding leaf_shape_def rc eq sz .
  moreover have "leaf_records t" using leaf_invD(2) [OF assms(1)] unfolding leaf_records_def rc eq sz .
  moreover have "visible_keys_differ t" using leaf_invD(3) [OF assms(1)] by (simp add: visible_keys_differ_def rc eq rec_key_def)
  ultimately show "leaf_inv t" by (simp add: leaf_inv_def)
qed

lemma disjoint_abs_None: "dom f \<inter> dom h = {} \<Longrightarrow> k \<in> dom h \<Longrightarrow> f k = None"
  by blast

text \<open>Reading, sorting and copying the visible records of a node behind the records that are there already.\<close>

lemma copy_node:
  assumes "leaf_inv src" "one_class (dom (leaf_abs src))" "copy_target offset n new"
    "dom (leaf_abs (under_copy offset n new)) \<inter> dom (leaf_abs src) = {}"
    "32 + (node_size new - unat offset) + 8 * n + (\<Sum>m\<leftarrow>visible_list src. tot m + 8) \<le> node_size new"
  obtains vec sz sorted ofs' n' new' ks where "visible_metas chk src (record_count src) 0 = Inr (vec, sz)" "sort_metas vec = Inr sorted"
    "copy_records chk src (map fst sorted) offset n new = Inr (ofs', n', new')" "copy_target ofs' n' new'" "leaf_size new' = leaf_size new"
    "unat ofs' + 8 * n + (\<Sum>m\<leftarrow>visible_list src. tot m + 8) = unat offset + 8 * n'"
    "leaf_abs (under_copy ofs' n' new') = leaf_abs (under_copy offset n new) ++ leaf_abs src"
    "leaf_keys (under_copy ofs' n' new') = leaf_keys (under_copy offset n new) @ ks" "sorted_wrt key_before ks" "set ks = dom (leaf_abs src)"
proof -
  let ?p = "\<lambda>m. (m, Some (rec_key src m))"
  obtain sz vs where r: "visible_metas chk src (record_count src) 0 = Inr (map ?p (visible_list src), sz)"
    "sort_metas (map ?p (visible_list src)) = Inr (map ?p vs)"
    "sorted_wrt key_before (map (rec_key src) vs)" "set vs = set (visible_list src)" "distinct (map (rec_key src) vs)"
    "leaf_abs src = map_of (map (\<lambda>m. (rec_key src m, rec_val src m)) vs)" "(\<Sum>m\<leftarrow>vs. tot m + 8) = (\<Sum>m\<leftarrow>visible_list src. tot m + 8)"
    by (rule sorted_records [OF assms(1,2), of chk], rule that)
  have ks: "set (map (rec_key src) vs) = dom (leaf_abs src)" using r(4) visible_list_dom [OF assms(1)] by simp
  have sum8: "(\<Sum>m\<leftarrow>vs. tot m + 8) = (\<Sum>m\<leftarrow>vs. tot m) + 8 * length vs" by (induction vs) auto
  have "\<exists>ofs' new'. copy_records chk src vs offset n new = Inr (ofs', n + length vs, new') \<and> copy_target ofs' (n + length vs) new' \<and>
      leaf_size new' = leaf_size new \<and> unat ofs' + (\<Sum>m\<leftarrow>vs. tot m) = unat offset \<and>
      leaf_abs (under_copy ofs' (n + length vs) new') = leaf_abs (under_copy offset n new) ++ map_of (map (\<lambda>m. (rec_key src m, rec_val src m)) vs) \<and>
      leaf_keys (under_copy ofs' (n + length vs) new') = leaf_keys (under_copy offset n new) @ map (rec_key src) vs"
  proof (rule copy_records_correct [OF leaf_invD(1) [OF assms(1)] _ r(5) assms(3)])
    show "meta_ok (node_size src - block_size src) (node_size src) m" if "m \<in> set vs" for m using that r(4) visible_list_ok [OF assms(1)] by simp
    show "leaf_abs (under_copy offset n new) (rec_key src m) = None" if "m \<in> set vs" for m
      by (rule disjoint_abs_None [OF assms(4)]) (use that ks in auto)
  qed (use assms(5) r(7) in simp)
  then obtain ofs' new' where c: "copy_records chk src vs offset n new = Inr (ofs', n + length vs, new')" "copy_target ofs' (n + length vs) new'"
    "leaf_size new' = leaf_size new" "unat ofs' + (\<Sum>m\<leftarrow>vs. tot m) = unat offset"
    "leaf_abs (under_copy ofs' (n + length vs) new') = leaf_abs (under_copy offset n new) ++ leaf_abs src"
    "leaf_keys (under_copy ofs' (n + length vs) new') = leaf_keys (under_copy offset n new) @ map (rec_key src) vs" unfolding r(6) by blast
  have "map fst (map ?p vs) = vs" by (simp add: o_def)
  then have cr: "copy_records chk src (map fst (map ?p vs)) offset n new = Inr (ofs', n + length vs, new')" using c(1) by simp
  have "unat ofs' + 8 * n + (\<Sum>m\<leftarrow>visible_list src. tot m + 8) = unat offset + 8 * (n + length vs)" using c(4) r(7) sum8 by simp
  from that [OF r(1,2) cr c(2,3) this c(5,6) r(3) ks] show thesis .
qed

text \<open>
  C38: consolidation of a leaf whose keys are all shorter than sixteen bytes, or all at least that long, returns a new node: it holds the
  same map, satisfies the invariant, has no deleted space, and its records are visible and in the order of the keys. The old node is
  frozen and keeps its map. This holds also for a leaf whose sorted part has deleted records.
\<close>

theorem Consolidate_correct:
  assumes "mwcas_spec mw" "leaf_inv s" "\<not> IsFrozen (leaf_status s)" "one_class (dom (leaf_abs s))"
  shows "\<exists>new old. Consolidate mw s = Inr (Some new, old) \<and> IsFrozen (leaf_status old) \<and> leaf_abs old = leaf_abs s \<and>
    leaf_inv new \<and> sorted_visible new \<and> leaf_abs new = leaf_abs s \<and> deleted_size new = 0 \<and> unat (leaf_sorted new) = record_count new \<and>
    sorted_wrt key_before (leaf_keys new)"
proof -
  define t where "t = s\<lparr>leaf_status := Freeze_word (leaf_status s)\<rparr>"
  note f = frozen_inv [OF assms(2), folded t_def]
  have fr: "leaf_Freeze mw s = (True, t)" using assms(3) by (simp add: leaf_Freeze_def mw_eq [OF assms(1)] mwcas_alone_def t_def)
  note sh = leaf_invD(1) [OF f(1)]
  let ?n = "leaf_size t" and ?new = "LeafNode_New (leaf_size t)"
  have n: "32 \<le> ?n" "?n < 2 ^ 19" using sh by (simp_all add: leaf_shape_def word_le_nat_alt word_less_nat_alt)
  have ns: "leaf_size ?new = ?n" by (simp add: LeafNode_New_def)
  note tgt = new_copy_target [OF n]
  obtain vec sz sorted ofs k new ks where c: "visible_metas True t (record_count t) 0 = Inr (vec, sz)" "sort_metas vec = Inr sorted"
    "copy_records True t (map fst sorted) ?n 0 ?new = Inr (ofs, k, new)" "copy_target ofs k new"
    "leaf_abs (under_copy ofs k new) = leaf_abs (under_copy ?n 0 ?new) ++ leaf_abs t"
    "leaf_keys (under_copy ofs k new) = leaf_keys (under_copy ?n 0 ?new) @ ks" "sorted_wrt key_before ks"
  proof (rule copy_node [where chk = True, OF f(1) _ tgt(1)])
    show "one_class (dom (leaf_abs t))" using assms(4) f(2) by simp
    show "32 + (node_size ?new - unat ?n) + 8 * 0 + (\<Sum>m\<leftarrow>visible_list t. tot m + 8) \<le> node_size ?new"
      using visible_list_space [OF f(1)] sh by (simp add: leaf_shape_def ns)
  qed (auto simp: tgt(2))
  note h = copied_header_inv [OF c(4)]
  have "Consolidate mw s = Inr (Some (copied_header ofs k new), t)"
    using fr c(1-3) f(3) by (simp add: Consolidate_def SortMetadataByKey_def CopyFrom_def ns)
  then show ?thesis using h c(5-7) f(2,3) by (auto simp: tgt(2,3))
qed

theorem Consolidate_correct_witness:
  "mwcas_spec mwcas_alone \<and> leaf_inv sample_leaf \<and> \<not> IsFrozen (leaf_status sample_leaf) \<and> one_class (dom (leaf_abs sample_leaf)) \<and>
   (\<exists>new old. Consolidate mwcas_alone sample_leaf = Inr (Some new, old) \<and> leaf_abs new = leaf_abs sample_leaf \<and> sorted_visible new)"
proof -
  have "k = [1]" if "leaf_abs sample_leaf k = Some v" for k v
    using that sample_leaf_facts(9) lookup_Some [of sample_leaf k 0] lookup_Some(1) [of sample_leaf k] sample_leaf_facts(1)
    by (auto simp: leaf_abs_def)
  then have "a = [1]" if "a \<in> dom (leaf_abs sample_leaf)" for a using that by blast
  then have c: "one_class (dom (leaf_abs sample_leaf))" unfolding one_class_def same_class_def by metis
  then show ?thesis
    using Consolidate_correct [OF mwcas_alone_spec sample_leaf_inv(1) sample_leaf_facts(8) c] sample_leaf_inv(1) sample_leaf_facts(8) mwcas_alone_spec
    by blast
qed

text \<open>
  Merging two leaves with different keys whose records fit together gives a node with the records of both; when the keys of the left one
  are before those of the right one, the result is sorted.
\<close>

theorem leaf_MergeNodes_correct:
  assumes "leaf_inv left" "leaf_inv right" "one_class (dom (leaf_abs left))" "one_class (dom (leaf_abs right))"
    "dom (leaf_abs left) \<inter> dom (leaf_abs right) = {}"
    "32 + (\<Sum>m\<leftarrow>visible_list left. tot m + 8) + (\<Sum>m\<leftarrow>visible_list right. tot m + 8) \<le> node_size left"
  shows "\<exists>new. leaf_MergeNodes left right = Inr new \<and> leaf_inv new \<and> sorted_visible new \<and> leaf_abs new = leaf_abs left ++ leaf_abs right \<and>
    deleted_size new = 0 \<and> unat (leaf_sorted new) = record_count new \<and>
    ((\<forall>a \<in> dom (leaf_abs left). \<forall>b \<in> dom (leaf_abs right). key_before a b) \<longrightarrow> sorted_wrt key_before (leaf_keys new))"
proof -
  let ?n = "leaf_size left" and ?new = "LeafNode_New (leaf_size left)"
  have n: "32 \<le> ?n" "?n < 2 ^ 19"
    using leaf_invD(1) [OF assms(1)] by (simp_all add: leaf_shape_def word_le_nat_alt word_less_nat_alt)
  have ns: "leaf_size ?new = ?n" by (simp add: LeafNode_New_def)
  note tgt = new_copy_target [OF n]
  obtain vec1 sz1 sorted1 o1 n1 new1 ks1 where c1: "visible_metas False left (record_count left) 0 = Inr (vec1, sz1)" "sort_metas vec1 = Inr sorted1"
    "copy_records False left (map fst sorted1) ?n 0 ?new = Inr (o1, n1, new1)" "copy_target o1 n1 new1" "leaf_size new1 = leaf_size ?new"
    "unat o1 + 8 * 0 + (\<Sum>m\<leftarrow>visible_list left. tot m + 8) = unat ?n + 8 * n1"
    "leaf_abs (under_copy o1 n1 new1) = leaf_abs (under_copy ?n 0 ?new) ++ leaf_abs left"
    "leaf_keys (under_copy o1 n1 new1) = leaf_keys (under_copy ?n 0 ?new) @ ks1" "sorted_wrt key_before ks1" "set ks1 = dom (leaf_abs left)"
    by (rule copy_node [where chk = False, OF assms(1,3) tgt(1)]) (use assms(6) in \<open>auto simp: tgt(2) ns\<close>)
  have o1: "unat o1 \<le> node_size left" using c1(4,5) by (simp add: copy_target_def ns word_le_nat_alt)
  obtain vec2 sz2 sorted2 o2 n2 new2 ks2 where c2: "visible_metas False right (record_count right) 0 = Inr (vec2, sz2)" "sort_metas vec2 = Inr sorted2"
    "copy_records False right (map fst sorted2) o1 n1 new1 = Inr (o2, n2, new2)" "copy_target o2 n2 new2"
    "leaf_abs (under_copy o2 n2 new2) = leaf_abs (under_copy o1 n1 new1) ++ leaf_abs right"
    "leaf_keys (under_copy o2 n2 new2) = leaf_keys (under_copy o1 n1 new1) @ ks2" "sorted_wrt key_before ks2" "set ks2 = dom (leaf_abs right)"
    by (rule copy_node [where chk = False, OF assms(2,4) c1(4)]) (use assms(5,6) c1(5-7) o1 in \<open>auto simp: tgt(2) ns\<close>)
  note h = copied_header_inv [OF c2(4)]
  have "leaf_MergeNodes left right = Inr (copied_header o2 n2 new2)"
    using c1(1-3) c2(1-3) by (simp add: leaf_MergeNodes_def)
  moreover have "sorted_wrt key_before (ks1 @ ks2)" if "\<forall>a \<in> dom (leaf_abs left). \<forall>b \<in> dom (leaf_abs right). key_before a b"
    using that c1(9,10) c2(7,8) by (simp add: sorted_wrt_append)
  ultimately show ?thesis using h c1(7,8) c2(5,6) by (auto simp: tgt(2,3))
qed

end
