(* ===== verification/NodeQueue.thy ===== *)
theory NodeQueue
  imports Prelude
begin

text \<open>
  The queue of nodes of \<open>mhash/util/NodeQueue.h\<close>: a doubly linked list through the \<open>next\<close> and \<open>last\<close> fields of its nodes, which live in a heap
  of node addresses (0 is the null pointer). The theory shows that it is a first-in-first-out queue and that its destructor frees
  every node once and ends.
\<close>

record node_queue =
  nq_head :: nat
  nq_tail :: nat
  nq_next :: "nat \<Rightarrow> nat"
  nq_last :: "nat \<Rightarrow> nat"

definition nq_new :: "node_queue \<Rightarrow> node_queue" where
  "nq_new q = q\<lparr>nq_head := 0, nq_tail := 0\<rparr>"

definition nq_Empty :: "node_queue \<Rightarrow> bool" where
  "nq_Empty q \<longleftrightarrow> nq_head q = 0"

definition nq_Push :: "nat \<Rightarrow> node_queue \<Rightarrow> c_error + node_queue" where
  "nq_Push x q =
     (if x = 0 then Inl UB
      else
        let q1 = q\<lparr>nq_next := (nq_next q)(x := nq_head q), nq_last := (nq_last q)(x := 0)\<rparr>;
            q2 = (if \<not> nq_Empty q1 then q1\<lparr>nq_last := (nq_last q1)(nq_head q1 := x)\<rparr>
                  else q1\<lparr>nq_tail := x, nq_next := (nq_next q1)(x := 0)\<rparr>) in
        Inr (q2\<lparr>nq_head := x\<rparr>))"

definition nq_Pop :: "node_queue \<Rightarrow> c_error + nat \<times> node_queue" where
  "nq_Pop q =
     (if nq_tail q = 0 then Inl UB
      else
        let q1 = q\<lparr>nq_tail := nq_last q (nq_tail q)\<rparr> in
        Inr (nq_tail q, if nq_tail q1 = 0 then q1\<lparr>nq_head := 0\<rparr> else q1\<lparr>nq_next := (nq_next q1)(nq_tail q1 := 0)\<rparr>))"

text \<open>The destructor: the nodes that are freed, in order. One unit of fuel per node.\<close>

primrec nq_destroy :: "nat \<Rightarrow> node_queue \<Rightarrow> c_error + nat list" where
  "nq_destroy 0 q = (if nq_Empty q then Inr [] else Inl Spins)"
| "nq_destroy (Suc n) q =
     (if nq_Empty q then Inr [] else bindR (nq_Pop q) (\<lambda>(del, q1). bindR (nq_destroy n q1) (\<lambda>freed. Inr (del # freed))))"

section \<open>The list that a queue queue_holds\<close>

definition hd0 :: "nat list \<Rightarrow> nat" where
  "hd0 xs = (case xs of [] \<Rightarrow> 0 | x # _ \<Rightarrow> x)"

primrec linked :: "(nat \<Rightarrow> nat) \<Rightarrow> nat list \<Rightarrow> bool" where
  "linked f [] = True"
| "linked f (x # xs) \<longleftrightarrow> f x = hd0 xs \<and> linked f xs"

text \<open>\<open>queue_holds q xs\<close>: the nodes of \<open>q\<close> from head to tail are \<open>xs\<close>.\<close>

definition queue_holds :: "node_queue \<Rightarrow> nat list \<Rightarrow> bool" where
  "queue_holds q xs \<longleftrightarrow> distinct xs \<and> 0 \<notin> set xs \<and> nq_head q = hd0 xs \<and> nq_tail q = hd0 (rev xs) \<and> linked (nq_next q) xs \<and> linked (nq_last q) (rev xs)"

lemma hd0_simps [simp]: "hd0 [] = 0" "hd0 (x # xs) = x"
  by (simp_all add: hd0_def)

lemma hd0_two: "hd0 (xs @ [y, z]) = hd0 (xs @ [y])"
  by (cases xs) simp_all

lemma hd0_zero: "0 \<notin> set xs \<Longrightarrow> hd0 xs = 0 \<longleftrightarrow> xs = []"
  by (cases xs) auto

lemma linked_cong: "(\<And>x. x \<in> set xs \<Longrightarrow> f x = h x) \<Longrightarrow> linked f xs = linked h xs"
  by (induction xs) auto

lemma linked_snoc:
  assumes "linked f (xs @ [y])" "z \<notin> set (xs @ [y])" "distinct (xs @ [y])"
  shows "linked (f(z := 0, y := z)) (xs @ [y, z])"
  using assms by (induction xs) (simp_all add: hd0_two)

lemma linked_butlast:
  assumes "linked f (xs @ [y, z])" "distinct (xs @ [y, z])"
  shows "linked (f(y := 0)) (xs @ [y])"
  using assms by (induction xs) (simp_all add: hd0_two)

theorem nq_Push_holds:
  assumes "queue_holds q xs" "x \<noteq> 0" "x \<notin> set xs"
  shows "\<exists>q'. nq_Push x q = Inr q' \<and> queue_holds q' (x # xs)"
proof (cases xs)
  case Nil
  then show ?thesis using assms by (auto simp: nq_Push_def nq_Empty_def queue_holds_def)
next
  case (Cons a ys)
  have h: "distinct xs" "0 \<notin> set xs" "nq_head q = a" "nq_tail q = hd0 (rev xs)" "linked (nq_next q) xs" "linked (nq_last q) (rev ys @ [a])"
    using assms(1) Cons by (simp_all add: queue_holds_def)
  have "linked ((nq_last q)(x := 0, a := x)) (rev ys @ [a, x])"
    by (rule linked_snoc [OF h(6)]) (use assms(3) h(1) Cons in auto)
  moreover have "linked ((nq_next q)(x := a)) xs = linked (nq_next q) xs" by (rule linked_cong) (use assms(3) in auto)
  moreover have "a \<noteq> 0" using h(2) Cons by auto
  moreover have "hd0 (rev ys @ [a, x]) = hd0 (rev ys @ [a])" by (rule hd0_two)
  ultimately show ?thesis using h assms Cons by (auto simp: nq_Push_def nq_Empty_def queue_holds_def)
qed

theorem nq_Pop_holds:
  assumes "queue_holds q (xs @ [x])"
  shows "\<exists>q'. nq_Pop q = Inr (x, q') \<and> queue_holds q' xs"
proof -
  have h: "distinct (xs @ [x])" "0 \<notin> set (xs @ [x])" "nq_head q = hd0 (xs @ [x])" "nq_tail q = x" "linked (nq_next q) (xs @ [x])"
    "nq_last q x = hd0 (rev xs)" "linked (nq_last q) (rev xs)"
    using assms by (simp_all add: queue_holds_def)
  show ?thesis
  proof (cases xs rule: rev_cases)
    case Nil
    then show ?thesis using h by (auto simp: nq_Pop_def queue_holds_def)
  next
    case (snoc ys y)
    have "linked ((nq_next q)(y := 0)) (ys @ [y])" by (rule linked_butlast [of _ _ _ x]) (use h snoc in auto)
    moreover have "y \<noteq> 0" using h(2) snoc by auto
    moreover have "hd0 (ys @ [y, x]) = hd0 (ys @ [y])" by (rule hd0_two)
    ultimately show ?thesis using h snoc by (auto simp: nq_Pop_def queue_holds_def)
  qed
qed

theorem nq_Pop_empty: "queue_holds q [] \<Longrightarrow> nq_Empty q \<and> nq_Pop q = Inl UB"
  by (simp add: queue_holds_def nq_Empty_def nq_Pop_def)

theorem nq_destroy_frees: "queue_holds q xs \<Longrightarrow> length xs \<le> n \<Longrightarrow> nq_destroy n q = Inr (rev xs)"
proof (induction n arbitrary: q xs)
  case 0
  then show ?case by (simp add: queue_holds_def nq_Empty_def)
next
  case (Suc n)
  show ?case
  proof (cases xs rule: rev_cases)
    case Nil
    then show ?thesis using Suc.prems by (simp add: queue_holds_def nq_Empty_def)
  next
    case (snoc ys y)
    obtain q' where q': "nq_Pop q = Inr (y, q')" "queue_holds q' ys" using nq_Pop_holds [of q ys y] Suc.prems(1) snoc by blast
    have "\<not> nq_Empty q" using Suc.prems(1) snoc hd0_zero [of xs] by (simp add: queue_holds_def nq_Empty_def)
    moreover have "nq_destroy n q' = Inr (rev ys)" by (rule Suc.IH [OF q'(2)]) (use Suc.prems(2) snoc in simp)
    ultimately show ?thesis using q' snoc by simp
  qed
qed

end
