(* ===== verification/IndexHash.thy ===== *)
theory IndexHash
  imports Prelude
begin

text \<open>
  The hash index of \<open>xhash\<close> (\<open>index_hash.h\<close>, \<open>index_hash.cpp\<close>) for a thread that runs alone. A bucket is the list of its nodes in the order of
  their \<open>next\<close> pointers; items are pointers, and \<open>item_next\<close> holds their \<open>next\<close> fields (0 is the null pointer). The theory shows that the
  index is a map from partition and key to the last item inserted, that the items of a key are chained through \<open>next\<close>, and
  that a read of a missing key dereferences a null pointer.
\<close>

section \<open>Buckets\<close>

record bucket_node =
  bn_key :: u64
  bn_items :: nat

record bucket_header =
  nodes :: "bucket_node list"
  node_cnt :: u64
  locked :: bool

record index_hash =
  idx_bucket_cnt :: u64
  bucket_cnt_per_part :: u64
  idx_buckets :: "bucket_header list list"
  item_next :: "nat \<Rightarrow> nat"

definition bucket_init :: bucket_header where
  "bucket_init = \<lparr>nodes = [], node_cnt = 0, locked = False\<rparr>"

text \<open>
  The number of partitions is a positive \<open>int\<close>; a division by zero is undefined, and so is the size of an array of a negative length. The
  counter of the inner loop has 32 bits, so the loop does not end when a partition has more buckets.
\<close>

definition IndexHash_init :: "u64 \<Rightarrow> int \<Rightarrow> index_hash \<Rightarrow> c_error + index_hash" where
  "IndexHash_init bucket_cnt part_cnt t =
     (if part_cnt \<le> 0 then Inl UB
      else
        let per_part = bucket_cnt div of_int part_cnt in
        if per_part > 0xFFFFFFFF then Inl Spins
        else Inr (t\<lparr>idx_bucket_cnt := bucket_cnt, bucket_cnt_per_part := per_part,
               idx_buckets := replicate (nat part_cnt) (replicate (unat per_part) bucket_init)\<rparr>))"

definition index_hash_of :: "index_hash \<Rightarrow> u64 \<Rightarrow> c_error + u64" where
  "index_hash_of t key = (if bucket_cnt_per_part t = 0 then Inl UB else Inr (key mod bucket_cnt_per_part t))"

text \<open>The bucket of a key: the partition and the number of the bucket in it.\<close>

definition bucket_of :: "index_hash \<Rightarrow> u64 \<Rightarrow> int \<Rightarrow> c_error + nat \<times> nat \<times> bucket_header" where
  "bucket_of t key part_id =
     bindR (index_hash_of t key) (\<lambda>bkt_idx.
     bindR (assertR (bkt_idx < bucket_cnt_per_part t)) (\<lambda>_.
     bindR (if part_id < 0 then Inl UB else nthR (idx_buckets t) (nat part_id)) (\<lambda>part.
     bindR (nthR part (unat bkt_idx)) (\<lambda>b. Inr (nat part_id, unat bkt_idx, b)))))"

definition get_latch :: "bucket_header \<Rightarrow> c_error + bucket_header" where
  "get_latch b = (if locked b then Inl Spins else Inr (b\<lparr>locked := True\<rparr>))"

definition release_latch :: "bucket_header \<Rightarrow> c_error + bucket_header" where
  "release_latch b = bindR (assertR (locked b)) (\<lambda>_. Inr (b\<lparr>locked := False\<rparr>))"

text \<open>The loop of \<open>insert_item\<close> from a node on; the second result is the new \<open>next\<close> of the item, if it is set.\<close>

primrec insert_item_nodes :: "u64 \<Rightarrow> nat \<Rightarrow> bucket_node list \<Rightarrow> bucket_node list \<times> nat option" where
  "insert_item_nodes key item [] = ([\<lparr>bn_key = key, bn_items = item\<rparr>], None)"
| "insert_item_nodes key item (cur_node # rest) =
     (if bn_key cur_node = key then (cur_node\<lparr>bn_items := item\<rparr> # rest, Some (bn_items cur_node))
      else let (rest', nxt) = insert_item_nodes key item rest in (cur_node # rest', nxt))"

definition insert_item :: "u64 \<Rightarrow> nat \<Rightarrow> bucket_header \<Rightarrow> (nat \<Rightarrow> nat) \<Rightarrow> bucket_header \<times> (nat \<Rightarrow> nat)" where
  "insert_item key item b nexts =
     (let (ns, nxt) = insert_item_nodes key item (nodes b) in
      (b\<lparr>nodes := ns\<rparr>, case nxt of None \<Rightarrow> nexts | Some q \<Rightarrow> nexts(item := q)))"

text \<open>\<open>M_ASSERT(cur_node->key == key)\<close> reads the key through \<open>cur_node\<close>, which is null when no node was found.\<close>

primrec read_item_nodes :: "u64 \<Rightarrow> bucket_node list \<Rightarrow> c_error + nat" where
  "read_item_nodes key [] = Inl UB"
| "read_item_nodes key (cur_node # rest) = (if bn_key cur_node = key then Inr (bn_items cur_node) else read_item_nodes key rest)"

section \<open>The index\<close>

definition set_bucket :: "nat \<Rightarrow> nat \<Rightarrow> bucket_header \<Rightarrow> index_hash \<Rightarrow> index_hash" where
  "set_bucket p i b t = t\<lparr>idx_buckets := (idx_buckets t)[p := (idx_buckets t ! p)[i := b]]\<rparr>"

definition index_insert :: "u64 \<Rightarrow> nat \<Rightarrow> int \<Rightarrow> index_hash \<Rightarrow> c_error + index_hash" where
  "index_insert key item part_id t =
     bindR (bucket_of t key part_id) (\<lambda>(p, i, cur_bkt).
     bindR (get_latch cur_bkt) (\<lambda>b1.
       let (b2, nexts) = insert_item key item b1 (item_next t) in
       bindR (release_latch b2) (\<lambda>b3. Inr ((set_bucket p i b3 t)\<lparr>item_next := nexts\<rparr>))))"

definition index_read :: "u64 \<Rightarrow> int \<Rightarrow> index_hash \<Rightarrow> c_error + nat" where
  "index_read key part_id t = bindR (bucket_of t key part_id) (\<lambda>(p, i, cur_bkt). read_item_nodes key (nodes cur_bkt))"

definition index_exist :: "u64 \<Rightarrow> index_hash \<Rightarrow> c_error + bool" where
  "index_exist key t = Inl AssertFail"

section \<open>The index is a map\<close>

definition node_items :: "bucket_node list \<Rightarrow> u64 \<Rightarrow> nat option" where
  "node_items ns key = map_option bn_items (find (\<lambda>n. bn_key n = key) ns)"

lemma node_items_simps [simp]:
  "node_items [] = Map.empty" "node_items (n # ns) = (node_items ns)(bn_key n \<mapsto> bn_items n)"
  by (auto simp: node_items_def fun_eq_iff)

lemma read_item_eq: "read_item_nodes key ns = (case node_items ns key of None \<Rightarrow> Inl UB | Some q \<Rightarrow> Inr q)"
  by (induction ns) auto

lemma insert_item_nodes_eq:
  "node_items (fst (insert_item_nodes key item ns)) = (node_items ns)(key \<mapsto> item)" "snd (insert_item_nodes key item ns) = node_items ns key"
  by (induction ns) (auto simp: fun_upd_twist split: prod.splits)

definition index_abs :: "index_hash \<Rightarrow> nat \<Rightarrow> u64 \<Rightarrow> nat option" where
  "index_abs t p key = node_items (nodes (idx_buckets t ! p ! unat (key mod bucket_cnt_per_part t))) key"

text \<open>Every partition has all of its buckets, and no latch is taken.\<close>

definition index_inv :: "index_hash \<Rightarrow> bool" where
  "index_inv t \<longleftrightarrow> bucket_cnt_per_part t \<noteq> 0 \<and>
     (\<forall>part \<in> set (idx_buckets t). length part = unat (bucket_cnt_per_part t) \<and> (\<forall>b \<in> set part. \<not> locked b))"

lemma bucket_of_eq:
  fixes key :: u64
  assumes "index_inv t" "p < length (idx_buckets t)"
  defines "i \<equiv> unat (key mod bucket_cnt_per_part t)"
  shows "bucket_of t key (int p) = Inr (p, i, idx_buckets t ! p ! i)" "i < length (idx_buckets t ! p)" "\<not> locked (idx_buckets t ! p ! i)"
proof -
  have nz: "bucket_cnt_per_part t \<noteq> 0" using assms(1) by (simp add: index_inv_def)
  then have lt: "key mod bucket_cnt_per_part t < bucket_cnt_per_part t" by (metis word_gt_0 word_mod_less_divisor)
  have part: "idx_buckets t ! p \<in> set (idx_buckets t)" using assms(2) by simp
  then have len: "length (idx_buckets t ! p) = unat (bucket_cnt_per_part t)" using assms(1) by (simp add: index_inv_def)
  then show i: "i < length (idx_buckets t ! p)" using lt by (simp add: i_def word_less_nat_alt)
  then show "\<not> locked (idx_buckets t ! p ! i)" using assms(1) part by (simp add: index_inv_def)
  show "bucket_of t key (int p) = Inr (p, i, idx_buckets t ! p ! i)"
    using nz lt i assms(2) by (simp add: bucket_of_def index_hash_of_def i_def)
qed

text \<open>The index after an insertion.\<close>

lemma unlocked_same: "\<not> locked b \<Longrightarrow> b\<lparr>nodes := ns, locked := False\<rparr> = b\<lparr>nodes := ns\<rparr>"
  by (cases b) simp

lemma index_insert_eq:
  fixes key :: u64
  assumes "index_inv t" "p < length (idx_buckets t)"
  defines "i \<equiv> unat (key mod bucket_cnt_per_part t)"
  shows "index_insert key item (int p) t =
    Inr ((set_bucket p i ((idx_buckets t ! p ! i)\<lparr>nodes := fst (insert_item_nodes key item (nodes (idx_buckets t ! p ! i)))\<rparr>) t)
      \<lparr>item_next := (case index_abs t p key of None \<Rightarrow> item_next t | Some q \<Rightarrow> (item_next t)(item := q))\<rparr>)"
proof -
  note b = bucket_of_eq [OF assms(1,2), where key = key, folded i_def]
  let ?b = "idx_buckets t ! p ! i"
  obtain ns nxt where n: "insert_item_nodes key item (nodes ?b) = (ns, nxt)" by fastforce
  have "nxt = index_abs t p key" using insert_item_nodes_eq(2) [of key item "nodes ?b"] n by (simp add: index_abs_def i_def)
  then show ?thesis using b(1,3) n by (simp add: index_insert_def get_latch_def release_latch_def insert_item_def unlocked_same split: prod.splits)
qed

theorem index_insert_correct:
  assumes "index_inv t" "p < length (idx_buckets t)"
  shows "\<exists>t'. index_insert key item (int p) t = Inr t' \<and> index_inv t' \<and> length (idx_buckets t') = length (idx_buckets t) \<and>
    index_abs t' = (index_abs t)(p := (index_abs t p)(key \<mapsto> item)) \<and>
    item_next t' = (case index_abs t p key of None \<Rightarrow> item_next t | Some q \<Rightarrow> (item_next t)(item := q))"
proof -
  let ?i = "\<lambda>k. unat (k mod bucket_cnt_per_part t)"
  let ?b = "idx_buckets t ! p ! ?i key"
  let ?b' = "?b\<lparr>nodes := fst (insert_item_nodes key item (nodes ?b))\<rparr>"
  define t' where "t' = (set_bucket p (?i key) ?b' t)\<lparr>item_next := (case index_abs t p key of None \<Rightarrow> item_next t | Some q \<Rightarrow> (item_next t)(item := q))\<rparr>"
  have eq: "index_insert key item (int p) t = Inr t'" unfolding t'_def by (rule index_insert_eq [OF assms])
  note b = bucket_of_eq [OF assms]
  have f: "bucket_cnt_per_part t' = bucket_cnt_per_part t" "idx_buckets t' = (idx_buckets t)[p := (idx_buckets t ! p)[?i key := ?b']]"
    by (simp_all add: t'_def set_bucket_def)
  have part: "idx_buckets t ! p \<in> set (idx_buckets t)" using assms(2) by simp
  have "\<not> locked x" if "x \<in> set ((idx_buckets t ! p)[?i key := ?b'])" for x
    using set_update_subset_insert [of "idx_buckets t ! p" "?i key" ?b'] that part assms(1) b(3) [where key = key] by (auto simp: index_inv_def)
  then have "index_inv t'" unfolding index_inv_def f using assms(1) part set_update_subset_insert [of "idx_buckets t" p] by (fastforce simp: index_inv_def)
  moreover have "index_abs t' q k = ((index_abs t)(p := (index_abs t p)(key \<mapsto> item))) q k" for q k
  proof (cases "q = p \<and> ?i k = ?i key")
    case True
    then have "index_abs t' q k = node_items (nodes ?b') k" using b(2) [where key = key] assms(2) by (simp add: index_abs_def f)
    also have "\<dots> = ((node_items (nodes ?b))(key \<mapsto> item)) k" by (simp add: insert_item_nodes_eq)
    finally show ?thesis using True by (simp add: index_abs_def)
  next
    case False
    then have "idx_buckets t' ! q ! ?i k = idx_buckets t ! q ! ?i k" unfolding f using assms(2) by (cases "q = p") auto
    then show ?thesis using False by (auto simp: index_abs_def f)
  qed
  ultimately show ?thesis using eq by (auto simp: fun_eq_iff t'_def set_bucket_def)
qed

theorem index_read_correct:
  assumes "index_inv t" "p < length (idx_buckets t)"
  shows "index_read key (int p) t = (case index_abs t p key of None \<Rightarrow> Inl UB | Some q \<Rightarrow> Inr q)"
  using bucket_of_eq(1) [OF assms] by (simp add: index_read_def read_item_eq index_abs_def)

theorem IndexHash_init_correct:
  assumes "0 < part_cnt" "of_int part_cnt \<le> bucket_cnt" "(of_int part_cnt :: u64) \<noteq> 0" "bucket_cnt \<le> 0xFFFFFFFF"
  shows "\<exists>t'. IndexHash_init bucket_cnt part_cnt t = Inr t' \<and> index_inv t' \<and> length (idx_buckets t') = nat part_cnt \<and>
    (\<forall>p < nat part_cnt. index_abs t' p = Map.empty)"
proof -
  let ?n = "bucket_cnt div of_int part_cnt"
  have "unat (of_int part_cnt :: u64) \<noteq> 0" using assms(3) by (simp add: unat_eq_0)
  then have "unat ?n \<noteq> 0" using assms(2) by (simp add: unat_div word_le_nat_alt div_eq_0_iff)
  then have nz: "?n \<noteq> 0" by auto
  have "unat ?n \<le> unat bucket_cnt" by (simp add: unat_div)
  then have small: "\<not> ?n > 0xFFFFFFFF" using assms(4) by (simp add: word_le_nat_alt word_less_nat_alt)
  have lt: "unat (k mod ?n) < unat ?n" for k using nz by (metis word_gt_0 word_mod_less_divisor word_less_nat_alt)
  define t' where "t' = t\<lparr>idx_bucket_cnt := bucket_cnt, bucket_cnt_per_part := ?n,
      idx_buckets := replicate (nat part_cnt) (replicate (unat ?n) bucket_init)\<rparr>"
  have "IndexHash_init bucket_cnt part_cnt t = Inr t'" using assms(1) small by (simp add: IndexHash_init_def t'_def Let_def)
  moreover have "index_inv t'" using nz by (auto simp: index_inv_def t'_def bucket_init_def)
  moreover have "index_abs t' p k = None" if "p < nat part_cnt" for p k
    using that lt [of k] by (simp add: index_abs_def t'_def bucket_init_def node_items_def)
  ultimately show ?thesis by (auto simp: t'_def fun_eq_iff)
qed

end
