(* ===== verification/Spec2Isabelle.thy ===== *)
theory Spec2Isabelle
  imports StringHash Spinlock LevelHash_Resize CheckpointLocks CheckpointControl LightEpoch FasterOps_Correct ConcurrentTable Hasher BzConsolidate NodeQueue IndexHash
begin

text \<open>
  Verification library of the hash tables and key-value stores of this repository. The repository collects several
  implementations under \<open>src/\<close> and benchmarks them against each other; they share no code except for copies of the epoch
  manager and of hash functions.

  \<^bold>\<open>Common ground.\<close> \<open>Prelude\<close> holds machine words (\<open>u8\<close> to \<open>u64\<close>, with wrap-around), the outcomes of operations and byte access.
  An operation that can go wrong returns \<open>c_error + 'a\<close>: undefined behaviour (\<open>UB\<close>, for instance an access outside an object),
  \<open>exit\<close> or \<open>abort\<close> (\<open>Exited\<close>), a failed \<open>assert\<close> (\<open>AssertFail\<close>), an exception (\<open>Thrown\<close>), and a loop that does not end (\<open>Spins\<close>).
  \<open>PackedWord\<close> treats structs of bit fields; its locale \<open>packed_word\<close> is interpreted for every such struct. \<open>ByteReads\<close> treats
  reads of byte objects, the narrowing of a size to an \<open>int\<close> (\<open>c_int\<close>), and holds the rules by which functions are shown to return.

  \<^bold>\<open>Level hash\<close> (\<open>levelhash\<close>).
  \<^item> \<open>StringHash\<close>: every function of \<open>hash.c\<close>; the hash reads only the key and does not depend on its alignment.
  \<^item> \<open>Spinlock\<close>: \<open>spinlock.h\<close>, with all interleavings of threads as a step relation; mutual exclusion, and a free lock can be taken.
    The locale \<open>slot_locks\<close> is what the table relies on; \<open>LevelHash_Proofs\<close> interprets it on the locks of the table.
  \<^item> \<open>LevelHash\<close>, \<open>LevelHash_Proofs\<close>, \<open>LevelHash_Resize\<close>: \<open>level_hashing.c\<close>, each operation for a thread that runs alone. The table is
    a multiset of items; query, insertion, update and deletion act on it as they promise, initialisation and resizing keep the
    invariant, and after a resize the lock array is too short.

  \<^bold>\<open>FASTER\<close> (\<open>faster\<close>).
  \<^item> \<open>FasterWords\<close>: addresses, key hashes, bucket entries, record headers and the layout of records, which keeps alignments
    up to 8 from record to record, but not larger ones.
  \<^item> \<open>SystemState\<close>: the state machine of \<open>cc/state_transitions.h\<close>; each action runs through its phases and ends in REST.
  \<^item> \<open>CheckpointLocks\<close>: the lock words of \<open>cc/checkpoint_locks.h\<close> in all interleavings; old and new locks exclude each other.
  \<^item> \<open>CheckpointControl\<close>: how checkpoints, recovery, garbage collection and growth are started and moved on (\<open>api/faster.h\<close>,
    \<open>cc/checkpoint_state.h\<close>), with the phases that the threads report to the epoch and that the start of an action resets; an action that is started with
    any callbacks passes all assertions and returns to the idle state when its I/O succeeds.
  \<^item> \<open>LightEpoch\<close>: thread ids (\<open>misc/thread.h\<close>) and the epoch (\<open>memory/light_epoch.h\<close>); no action runs before the threads of its epoch
    have left, except for the thread with id 0, and once they have left, the next drain performs each
    pending action exactly once.
  \<^item> \<open>HybridLog\<close>, \<open>HybridLog_Proofs\<close>: the log of \<open>io/persistent_memory_malloc.h\<close>, in all interleavings of whole calls, triggers and
    completions of writes: order of the addresses (head and flushed-until by pages), disjoint blocks, retained records.
  \<^item> \<open>ItemStore\<close>, \<open>FixedPages\<close>, \<open>FixedPages_Proofs\<close>: chains of items and the allocator of \<open>memory/malloc_fixed_page_size.h\<close>. The locale
    \<open>item_store\<close> is the contract between an allocator and the walker of a chain; it is interpreted on the allocator and, in
    \<open>FasterIndex_Proofs\<close>, on table and overflow buckets together.
  \<^item> \<open>FasterIndex\<close>, \<open>FasterIndex_Proofs\<close>: \<open>core/hash_table.h\<close> and the index functions of \<open>api/faster.h\<close>; the chains implement a finite
    map from bucket and tag to addresses.
  \<^item> \<open>FasterStore\<close>, \<open>FasterOps\<close>, \<open>FasterOps_Proofs\<close>, \<open>FasterOps_Correct\<close>: sessions, Read, Upsert, Rmw and Delete of a thread in every phase,
    pending operations and their completion. The other threads, the epoch and the devices act through a list \<open>env\<close> of what
    happens at each point where the thread waits; a thread that waits longer than the list is \<open>Spins\<close>; it follows
    the phases of the system with \<open>phase_fuel\<close> = 16, more transitions than it can be behind. For a thread outside of any action that is the
    only writer of records the store is a map, whatever else the others do to the log (\<open>quiet_env\<close>); an operation that has to wait is queued or has issued a read.

  \<^bold>\<open>Mhash\<close> (\<open>mhash\<close>).
  \<^item> \<open>HashTrie\<close>: the tries that the three tables share. The locale \<open>trie_slots\<close> says what the slots of a hash have to satisfy (every
    hash has a slot on every level, and different hashes part); in it searching, replacing and inserting are shown correct.
  \<^item> \<open>BasicTable\<close>: \<open>basic_hash_table.h\<close>; with an injective hash it is a map; its constructor ends, and the levels it computes separate all hashes
    exactly for \<open>HASH_LEVEL\<close> 4 to 16.
  \<^item> \<open>ConcurrentTable\<close>: \<open>concurrent_hash_table.h\<close> and \<open>lock_free_hash_table.h\<close> for a thread that runs alone; insertion and search are those
    of a map, update and removal can hit another key.
  \<^item> \<open>Murmur\<close>, \<open>Murmur3\<close>, \<open>Hasher\<close>: the hash functions of \<open>util\<close>. The variants of MurmurHash agree, the incremental one is the same
    function, all of them read only the key as long as its length fits the \<open>int\<close> that they take, and of the functions that the tables can be configured with one is injective on
    64-bit keys and one is not.

  \<^item> \<open>NodeQueue\<close>: \<open>util/NodeQueue.h\<close>, a doubly linked list in a heap, is a first-in-first-out queue.

  \<^bold>\<open>Xhash\<close> (\<open>xhash\<close>). \<open>IndexHash\<close>: \<open>index_hash.cpp\<close> is a map from partition and key to the last item inserted; reading a missing key dereferences a
  null pointer.

  \<^bold>\<open>BzTree\<close> (\<open>bztree\<close>).
  \<^item> \<open>BzWords\<close>: the status word of a node, the metadata of a record and the comparison of keys (\<open>bztree.h\<close>): what each setter does to each
    field, and on which keys the comparison is an order.
  \<^item> \<open>BzLeaf\<close>, \<open>BzLeaf_Proofs\<close>, \<open>BzConsolidate\<close>: the operations of a leaf node (\<open>bztree.h\<close>, \<open>bztree.cpp\<close>) for a thread that runs alone. The node is
    its header, its metadata array and its bytes. The multi-word compare-and-swap of the library that \<open>bztree\<close> links against is a parameter;
    \<open>mwcas_spec\<close> says that it compares and stores all of its words at once, \<open>mwcas_alone\<close> does so. A leaf is a map from keys to payloads:
    insertion, update, deletion, reading and consolidation act on it as they promise; a deleted record in the sorted part makes later
    searches fail an assertion until the node is consolidated. Two units of fuel are enough for an insertion and one for an update or a deletion,
    because no swap fails when the thread runs alone.

  \<^bold>\<open>Bounds.\<close> Loops are total functions with a measure, except for the level count of the tables, which is partial and shown to end
  (\<open>levels_within\<close> with a bound of 300 iterations), and the waiting loops of FASTER described above.

  \<^bold>\<open>Not modelled.\<close> Files, devices and buffers (\<open>io/file_*\<close>, \<open>io/native_buffer_pool.h\<close>): input and output, whose outcomes are arguments of
  the operations. Contexts, guids, the segment allocator of \<open>misc/lss_allocator.h\<close>: memory management without a
  visible effect. The reads and writes of checkpoint files of the log. The interleavings of operations on the level hash, on the
  FASTER index and on the tables of \<open>mhash\<close>, where one operation runs at a time. \<open>CityHashCrc\<close>, which needs CRC instructions, and
  \<open>mhash/universal_hash_table.h\<close>, an unfinished sketch. The B-tree and the tables of \<open>xhash\<close>. The inner nodes and the splits
  of \<open>bztree\<close> and the interleavings of operations on its leaves. Benchmarks and tests.
\<close>

end
